(* ===== verification/FS_Prelude.thy ===== *)
theory FS_Prelude
  imports Main "HOL-Library.Word"
begin

text \<open>
  Shared vocabulary of the development: the C types the FreeSWITCH core uses, the wrap-around
  arithmetic of \<open>switch_size_t\<close>, memory blocks with checked copies, the faults a C statement
  can raise, and the generic contract \<open>data_refinement\<close>: a set of concrete operations simulates a
  set of abstract ones, run for run.
\<close>

named_theorems size_arith \<open>rewriting of switch_size_t arithmetic where it does not wrap\<close>
named_theorems mem_simps \<open>reading and writing memory blocks\<close>

section \<open>C types\<close>

type_synonym byte = "8 word"
type_synonym uint16 = "16 word"
type_synonym uint32 = "32 word"
type_synonym uint64 = "64 word"

text \<open>The return codes of \<open>switch_status_t\<close> (src/include/switch_types.h) used by the modelled code.\<close>

datatype switch_status =
  SWITCH_STATUS_SUCCESS | SWITCH_STATUS_FALSE | SWITCH_STATUS_MEMERR | SWITCH_STATUS_GENERR
  | SWITCH_STATUS_INUSE | SWITCH_STATUS_IGNORE | SWITCH_STATUS_NOOP | SWITCH_STATUS_RESAMPLE

text \<open>
  What a C statement can do instead of completing: a failed \<open>switch_assert\<close> aborts the process,
  a copy outside an allocated block or through a null pointer is undefined behaviour, a division by
  zero and an exhausted stack stop it. \<open>Still_running\<close> is no fault of the code: it says that a loop
  has not ended within the number of rounds it was followed for.
\<close>

datatype fault = Assert_failed | Out_of_bounds | Null_pointer | Division_by_zero | Stack_exhausted
  | Still_running

definition fbind :: "fault + 'a \<Rightarrow> ('a \<Rightarrow> fault + 'b) \<Rightarrow> fault + 'b" where
  "fbind m f = (case m of Inl e \<Rightarrow> Inl e | Inr x \<Rightarrow> f x)"

lemma fbind_Inr [simp]: "fbind (Inr x) f = f x"
  by (simp add: fbind_def)

lemma fbind_Inl [simp]: "fbind (Inl e) f = Inl e"
  by (simp add: fbind_def)

lemma fbind_assoc: "fbind (fbind m f) g = fbind m (\<lambda>x. fbind (f x) g)"
  by (cases m) (simp_all add: fbind_def)

lemma fbind_eq_Inr: "fbind m f = Inr y \<longleftrightarrow> (\<exists>x. m = Inr x \<and> f x = Inr y)"
  by (cases m) (auto simp: fbind_def)

text \<open>\<open>succeeds P m\<close>: the computation ends without a fault, in a result with \<open>P\<close>.\<close>

definition succeeds :: "('a \<Rightarrow> bool) \<Rightarrow> fault + 'a \<Rightarrow> bool" where
  "succeeds P m \<longleftrightarrow> (\<exists>x. m = Inr x \<and> P x)"

lemma succeeds_Inr [simp]: "succeeds P (Inr x) = P x"
  by (simp add: succeeds_def)

lemma succeeds_bind: "succeeds P m \<Longrightarrow> (\<And>x. P x \<Longrightarrow> succeeds Q (f x)) \<Longrightarrow> succeeds Q (fbind m f)"
  by (auto simp: succeeds_def)

lemma succeeds_mono: "succeeds P m \<Longrightarrow> (\<And>x. P x \<Longrightarrow> Q x) \<Longrightarrow> succeeds Q m"
  by (auto simp: succeeds_def)

section \<open>switch\_size\_t arithmetic\<close>

text \<open>\<open>switch_size_t\<close> is a 64-bit unsigned integer; values are kept as \<open>nat\<close> below \<open>size_max\<close>.\<close>

definition size_max :: nat where
  "size_max = 2 ^ 64"

definition size_add :: "nat \<Rightarrow> nat \<Rightarrow> nat" where
  "size_add a b = (a + b) mod size_max"

definition size_sub :: "nat \<Rightarrow> nat \<Rightarrow> nat" where
  "size_sub a b = (a + (size_max - b)) mod size_max"

lemma size_max_pos [simp]: "0 < size_max"
  by (simp add: size_max_def)

lemma size_add_no_wrap [size_arith]: "a + b < size_max \<Longrightarrow> size_add a b = a + b"
  by (simp add: size_add_def)

lemma size_sub_no_wrap [size_arith]: "b \<le> a \<Longrightarrow> a < size_max \<Longrightarrow> size_sub a b = a - b"
proof -
  assume "b \<le> a" "a < size_max"
  then have "a + (size_max - b) = (a - b) + size_max" by simp
  then have "size_sub a b = ((a - b) + size_max) mod size_max" by (simp add: size_sub_def)
  also have "\<dots> = a - b" using \<open>a < size_max\<close> by simp
  finally show ?thesis .
qed

lemma size_sub_self [simp]: "a < size_max \<Longrightarrow> size_sub a a = 0"
  by (simp add: size_arith)

section \<open>Memory blocks\<close>

text \<open>\<open>mem_read\<close> and \<open>mem_write\<close> are \<open>memcpy\<close> from and into a block, failing outside of it.\<close>

definition mem_read :: "'a list \<Rightarrow> nat \<Rightarrow> nat \<Rightarrow> fault + 'a list" where
  "mem_read blk off n =
     (if off + n \<le> length blk then Inr (take n (drop off blk)) else Inl Out_of_bounds)"

definition mem_write :: "'a list \<Rightarrow> nat \<Rightarrow> 'a list \<Rightarrow> fault + 'a list" where
  "mem_write blk off xs =
     (if off + length xs \<le> length blk
      then Inr (take off blk @ xs @ drop (off + length xs) blk) else Inl Out_of_bounds)"

lemma mem_read_ok [mem_simps]:
  "off + n \<le> length blk \<Longrightarrow> mem_read blk off n = Inr (take n (drop off blk))"
  by (simp add: mem_read_def)

lemma mem_write_ok [mem_simps]:
  "off + length xs \<le> length blk \<Longrightarrow>
   mem_write blk off xs = Inr (take off blk @ xs @ drop (off + length xs) blk)"
  by (simp add: mem_write_def)

lemma mem_write_length: "mem_write blk off xs = Inr blk' \<Longrightarrow> length blk' = length blk"
  by (auto simp: mem_write_def split: if_splits)

section \<open>Runs of operations\<close>

primrec run_ops :: "('o \<Rightarrow> 's \<Rightarrow> 'r \<times> 's) \<Rightarrow> 'o list \<Rightarrow> 's \<Rightarrow> 'r list \<times> 's" where
  "run_ops step [] s = ([], s)"
| "run_ops step (x # xs) s =
     (let (r, s') = step x s; (rs, s'') = run_ops step xs s' in (r # rs, s''))"

text \<open>
  A contract by simulation: related states answer alike and stay related, for the operations whose
  precondition holds in the abstract state. The client's fact is about whole runs.
\<close>

primrec run_pre :: "('o \<Rightarrow> 's \<Rightarrow> bool) \<Rightarrow> ('o \<Rightarrow> 's \<Rightarrow> 'r \<times> 's) \<Rightarrow> 'o list \<Rightarrow> 's \<Rightarrow> bool" where
  "run_pre pre step [] s = True"
| "run_pre pre step (x # xs) s \<longleftrightarrow> pre x s \<and> run_pre pre step xs (snd (step x s))"

locale simulation =
  fixes rel :: "'c \<Rightarrow> 'a \<Rightarrow> bool"
    and pre :: "'o \<Rightarrow> 'a \<Rightarrow> bool"
    and step :: "'o \<Rightarrow> 'c \<Rightarrow> 'r \<times> 'c"
    and astep :: "'o \<Rightarrow> 'a \<Rightarrow> 'r \<times> 'a"
  assumes answer_sim: "rel c a \<Longrightarrow> pre x a \<Longrightarrow> fst (step x c) = fst (astep x a)"
    and rel_sim: "rel c a \<Longrightarrow> pre x a \<Longrightarrow> rel (snd (step x c)) (snd (astep x a))"
begin

lemma run_simulates:
  "rel c a \<Longrightarrow> run_pre pre astep xs a \<Longrightarrow>
   fst (run_ops step xs c) = fst (run_ops astep xs a) \<and> rel (snd (run_ops step xs c)) (snd (run_ops astep xs a))"
  by (induction xs arbitrary: c a) (simp_all add: Let_def split_beta answer_sim rel_sim)

end

text \<open>
  A component's contract: under the invariant, every operation answers what the abstract
  operation answers and its effect is the abstract effect. The client's fact is about whole
  runs.
\<close>

locale data_refinement =
  fixes inv :: "'c \<Rightarrow> bool"
    and abs :: "'c \<Rightarrow> 'a"
    and step :: "'o \<Rightarrow> 'c \<Rightarrow> 'r \<times> 'c"
    and astep :: "'o \<Rightarrow> 'a \<Rightarrow> 'r \<times> 'a"
  assumes inv_step: "inv c \<Longrightarrow> inv (snd (step x c))"
    and answer_step: "inv c \<Longrightarrow> fst (step x c) = fst (astep x (abs c))"
    and abs_step: "inv c \<Longrightarrow> abs (snd (step x c)) = snd (astep x (abs c))"

lemma run_pre_True: "run_pre (\<lambda>_ _. True) step xs s"
  by (induction xs arbitrary: s) simp_all

text \<open>A refinement is a simulation without preconditions.\<close>

sublocale data_refinement \<subseteq> sim: simulation "\<lambda>c a. inv c \<and> a = abs c" "\<lambda>_ _. True" step astep
  by unfold_locales (simp_all add: inv_step answer_step abs_step)

context data_refinement begin

lemma run_refines:
  "inv c \<Longrightarrow>
   fst (run_ops step xs c) = fst (run_ops astep xs (abs c)) \<and>
   abs (snd (run_ops step xs c)) = snd (run_ops astep xs (abs c)) \<and>
   inv (snd (run_ops step xs c))"
  using sim.run_simulates [of c "abs c" xs] by (simp add: run_pre_True)

end

end
