(* ===== verification/Buffer.thy ===== *)
theory Buffer
  imports FS_Prelude
begin

text \<open>
  src/switch\_buffer.c: the byte buffer behind media and I/O. A buffer is one memory block,
  an offset \<open>buf_head\<close> of the first unread byte, and the number \<open>buf_used\<close> of unread bytes;
  \<open>buf_actually_used\<close> counts the bytes of the block written so far, read ones included.
\<close>

section \<open>The buffer and its operations\<close>

record switch_buffer =
  buf_data :: "byte list option"
  buf_head :: nat
  buf_used :: nat
  buf_actually_used :: nat
  buf_datalen :: nat
  buf_max_len :: nat
  buf_blocksize :: nat
  buf_dynamic :: bool
  buf_id :: uint32
  buf_loops :: int

text \<open>
  Allocation is the environment's: \<open>alloc_struct\<close> and \<open>alloc_data\<close> say whether the two
  allocations succeed. The counter \<open>buffer_id\<close> is passed in and out.
\<close>

definition switch_buffer_create ::
  "bool \<Rightarrow> bool \<Rightarrow> uint32 \<Rightarrow> nat \<Rightarrow> switch_status \<times> switch_buffer option \<times> uint32" where
  "switch_buffer_create alloc_struct alloc_data buffer_id max_len =
     (if alloc_struct \<and> alloc_data
      then (SWITCH_STATUS_SUCCESS,
            Some \<lparr>buf_data = Some (replicate max_len 0), buf_head = 0, buf_used = 0,
                  buf_actually_used = 0, buf_datalen = max_len, buf_max_len = 0,
                  buf_blocksize = 0, buf_dynamic = False, buf_id = buffer_id, buf_loops = 0\<rparr>,
            buffer_id + 1)
      else (SWITCH_STATUS_MEMERR, None, buffer_id))"

definition switch_buffer_create_dynamic ::
  "bool \<Rightarrow> bool \<Rightarrow> uint32 \<Rightarrow> nat \<Rightarrow> nat \<Rightarrow> nat \<Rightarrow>
   switch_status \<times> switch_buffer option \<times> uint32" where
  "switch_buffer_create_dynamic alloc_struct alloc_data buffer_id blocksize start_len max_len =
     (if \<not> alloc_struct then (SWITCH_STATUS_MEMERR, None, buffer_id)
      else if start_len \<noteq> 0 \<and> \<not> alloc_data then (SWITCH_STATUS_MEMERR, None, buffer_id)
      else (SWITCH_STATUS_SUCCESS,
            Some \<lparr>buf_data = (if start_len \<noteq> 0 then Some (replicate start_len 0) else None),
                  buf_head = 0, buf_used = 0, buf_actually_used = 0, buf_datalen = start_len,
                  buf_max_len = max_len, buf_blocksize = blocksize, buf_dynamic = True,
                  buf_id = buffer_id, buf_loops = 0\<rparr>,
            buffer_id + 1))"

definition switch_buffer_len :: "switch_buffer \<Rightarrow> nat" where
  "switch_buffer_len b = buf_datalen b"

definition switch_buffer_freespace :: "switch_buffer \<Rightarrow> nat" where
  "switch_buffer_freespace b =
     (if buf_dynamic b
      then (if buf_max_len b \<noteq> 0 then size_sub (buf_max_len b) (buf_used b) else 1000000)
      else size_sub (buf_datalen b) (buf_used b))"

definition switch_buffer_inuse :: "switch_buffer \<Rightarrow> nat" where
  "switch_buffer_inuse b = buf_used b"

definition reading_len :: "switch_buffer \<Rightarrow> nat \<Rightarrow> nat" where
  "reading_len b datalen = (if datalen \<le> buf_used b then datalen else buf_used b)"

definition switch_buffer_toss :: "switch_buffer \<Rightarrow> nat \<Rightarrow> nat \<times> switch_buffer" where
  "switch_buffer_toss b datalen =
     (if buf_used b < 1 then (0, b\<lparr>buf_used := 0\<rparr>)
      else let reading = reading_len b datalen;
               b' = b\<lparr>buf_used := buf_used b - reading, buf_head := buf_head b + reading\<rparr>
           in (buf_used b', b'))"

definition switch_buffer_set_loops :: "switch_buffer \<Rightarrow> int \<Rightarrow> switch_buffer" where
  "switch_buffer_set_loops b loops = b\<lparr>buf_loops := loops\<rparr>"

text \<open>A read returns the count and the bytes copied to the caller.\<close>

definition switch_buffer_read ::
  "switch_buffer \<Rightarrow> nat \<Rightarrow> fault + (nat \<times> byte list \<times> switch_buffer)" where
  "switch_buffer_read b datalen =
     (if buf_used b < 1 then Inr (0, [], b\<lparr>buf_used := 0\<rparr>)
      else case buf_data b of None \<Rightarrow> Inl Null_pointer | Some d \<Rightarrow>
        let reading = reading_len b datalen in
        fbind (mem_read d (buf_head b) reading) (\<lambda>bytes.
          Inr (reading, bytes,
               b\<lparr>buf_used := buf_used b - reading, buf_head := buf_head b + reading\<rparr>)))"

definition switch_buffer_read_loop ::
  "switch_buffer \<Rightarrow> nat \<Rightarrow> fault + (nat \<times> byte list \<times> switch_buffer)" where
  "switch_buffer_read_loop b datalen =
     fbind (switch_buffer_read b datalen) (\<lambda>(len, bytes, b1).
       if len = 0 then
         let b2 = (if buf_loops b1 > 0 then b1\<lparr>buf_loops := buf_loops b1 - 1\<rparr> else b1) in
         if buf_loops b2 = 0 then Inr (0, [], b2)
         else switch_buffer_read (b2\<lparr>buf_head := 0, buf_used := buf_actually_used b2\<rparr>) datalen
       else Inr (len, bytes, b1))"

definition switch_buffer_peek ::
  "switch_buffer \<Rightarrow> nat \<Rightarrow> fault + (nat \<times> byte list \<times> switch_buffer)" where
  "switch_buffer_peek b datalen =
     (if buf_used b < 1 then Inr (0, [], b\<lparr>buf_used := 0\<rparr>)
      else case buf_data b of None \<Rightarrow> Inl Null_pointer | Some d \<Rightarrow>
        let reading = reading_len b datalen in
        fbind (mem_read d (buf_head b) reading) (\<lambda>bytes. Inr (reading, bytes, b)))"

text \<open>The zero-copy peek hands out the offset of the first unread byte (\<open>None\<close>: pointer not set).\<close>

definition switch_buffer_peek_zerocopy ::
  "switch_buffer \<Rightarrow> nat \<times> nat option \<times> switch_buffer" where
  "switch_buffer_peek_zerocopy b =
     (if buf_used b < 1 then (0, None, b\<lparr>buf_used := 0\<rparr>)
      else (buf_used b, Some (buf_head b), b))"

text \<open>First block of the write: move the unread bytes to the front when the tail is too short.\<close>

definition buffer_compact :: "switch_buffer \<Rightarrow> byte list \<Rightarrow> fault + switch_buffer" where
  "buffer_compact b d =
     fbind (mem_read d (buf_head b) (buf_used b)) (\<lambda>moved.
     fbind (mem_write d 0 moved) (\<lambda>d'.
       Inr (b\<lparr>buf_data := Some d', buf_head := 0, buf_actually_used := buf_used b\<rparr>)))"

text \<open>
  Second block: a dynamic buffer grows. \<open>realloc_mem n\<close> is \<open>None\<close> when \<open>realloc\<close> fails at size
  \<open>n\<close>, and otherwise the content of the fresh bytes by position.
\<close>

definition buffer_new_size :: "switch_buffer \<Rightarrow> nat \<Rightarrow> nat" where
  "buffer_new_size b datalen =
     (let new_size = size_add (buf_datalen b) datalen;
          new_block_size = size_add (buf_datalen b) (buf_blocksize b)
      in if new_block_size > new_size then new_block_size else new_size)"

definition realloc_block :: "(nat \<Rightarrow> byte) \<Rightarrow> byte list \<Rightarrow> nat \<Rightarrow> byte list" where
  "realloc_block fresh d n = take n d @ map fresh [length d..<n]"

definition buffer_must_grow :: "switch_buffer \<Rightarrow> nat \<Rightarrow> bool" where
  "buffer_must_grow b datalen \<longleftrightarrow>
     buf_dynamic b \<and> size_sub (buf_datalen b) (buf_used b) < datalen \<and>
     (buf_max_len b = 0 \<or> size_add (buf_used b) datalen \<le> buf_max_len b)"

definition buffer_grow ::
  "(nat \<Rightarrow> (nat \<Rightarrow> byte) option) \<Rightarrow> switch_buffer \<Rightarrow> nat \<Rightarrow> switch_buffer + switch_buffer" where
  "buffer_grow realloc_mem b datalen =
     (if buffer_must_grow b datalen
      then let n = buffer_new_size b datalen in
           (case realloc_mem n of
              None \<Rightarrow> Inl (b\<lparr>buf_head := 0\<rparr>)
            | Some fresh \<Rightarrow>
                Inr (b\<lparr>buf_data := map_option (\<lambda>d. realloc_block fresh d n) (buf_data b),
                       buf_head := 0, buf_datalen := n\<rparr>))
      else Inr b)"

definition buffer_commit ::
  "(nat \<Rightarrow> (nat \<Rightarrow> byte) option) \<Rightarrow> switch_buffer \<Rightarrow> byte list \<Rightarrow>
   fault + (nat \<times> switch_buffer)" where
  "buffer_commit realloc_mem b bytes =
     (case buffer_grow realloc_mem b (length bytes) of
        Inl b2 \<Rightarrow> Inr (0, b2)
      | Inr b2 \<Rightarrow>
          if size_sub (buf_datalen b2) (buf_used b2) < length bytes then Inr (0, b2)
          else (case buf_data b2 of None \<Rightarrow> Inl Null_pointer | Some d2 \<Rightarrow>
            fbind (mem_write d2 (buf_head b2 + buf_used b2) bytes) (\<lambda>d3.
              let b3 = b2\<lparr>buf_data := Some d3, buf_used := buf_used b2 + length bytes,
                          buf_actually_used := buf_actually_used b2 + length bytes\<rparr>
              in Inr (buf_used b3, b3))))"

definition switch_buffer_write ::
  "(nat \<Rightarrow> (nat \<Rightarrow> byte) option) \<Rightarrow> switch_buffer \<Rightarrow> byte list \<Rightarrow>
   fault + (nat \<times> switch_buffer)" where
  "switch_buffer_write realloc_mem b bytes =
     (case buf_data b of None \<Rightarrow> Inl Assert_failed | Some d \<Rightarrow>
        if length bytes = 0 then Inr (buf_used b, b)
        else fbind (if size_sub (buf_datalen b) (buf_actually_used b) < length bytes
                    then buffer_compact b d else Inr b)
                   (\<lambda>b1. buffer_commit realloc_mem b1 bytes))"

definition switch_buffer_zero :: "switch_buffer \<Rightarrow> fault + switch_buffer" where
  "switch_buffer_zero b =
     (case buf_data b of None \<Rightarrow> Inl Assert_failed
      | Some _ \<Rightarrow> Inr (b\<lparr>buf_used := 0, buf_actually_used := 0, buf_head := 0\<rparr>))"

definition switch_buffer_zwrite ::
  "(nat \<Rightarrow> (nat \<Rightarrow> byte) option) \<Rightarrow> switch_buffer \<Rightarrow> byte list \<Rightarrow>
   fault + (nat \<times> switch_buffer)" where
  "switch_buffer_zwrite realloc_mem b bytes =
     fbind (switch_buffer_write realloc_mem b bytes) (\<lambda>(w, b1).
       if w = 0 then fbind (switch_buffer_zero b1) (\<lambda>b2. switch_buffer_write realloc_mem b2 bytes)
       else Inr (w, b1))"

definition switch_buffer_slide_write ::
  "(nat \<Rightarrow> (nat \<Rightarrow> byte) option) \<Rightarrow> switch_buffer \<Rightarrow> byte list \<Rightarrow>
   fault + (nat \<times> switch_buffer)" where
  "switch_buffer_slide_write realloc_mem b bytes =
     fbind (switch_buffer_write realloc_mem b bytes) (\<lambda>(w, b1).
       if w = 0 then switch_buffer_write realloc_mem (snd (switch_buffer_toss b1 (length bytes))) bytes
       else Inr (w, b1))"

section \<open>Well-formedness and the queue a buffer stands for\<close>

definition buf_wf :: "switch_buffer \<Rightarrow> bool" where
  "buf_wf b \<longleftrightarrow>
     (case buf_data b of None \<Rightarrow> False | Some d \<Rightarrow> length d = buf_datalen b) \<and>
     buf_head b + buf_used b = buf_actually_used b \<and>
     buf_actually_used b \<le> buf_datalen b \<and> buf_datalen b < size_max"

definition buf_contents :: "switch_buffer \<Rightarrow> byte list" where
  "buf_contents b =
     (case buf_data b of None \<Rightarrow> [] | Some d \<Rightarrow> take (buf_used b) (drop (buf_head b) d))"

lemma buf_wfE:
  assumes "buf_wf b"
  obtains d where "buf_data b = Some d" "length d = buf_datalen b"
    "buf_head b + buf_used b = buf_actually_used b"
    "buf_actually_used b \<le> buf_datalen b" "buf_datalen b < size_max"
  using assms by (auto simp: buf_wf_def split: option.splits)

lemma buf_contents_length: "buf_wf b \<Longrightarrow> length (buf_contents b) = buf_used b"
  by (auto elim!: buf_wfE simp: buf_contents_def)

lemma buffer_create_wf:
  "n < size_max \<Longrightarrow> \<exists>b. switch_buffer_create True True i n = (SWITCH_STATUS_SUCCESS, Some b, i + 1)
     \<and> buf_wf b \<and> buf_contents b = [] \<and> \<not> buf_dynamic b"
  by (simp add: switch_buffer_create_def buf_wf_def buf_contents_def)

lemma buffer_toss_spec:
  assumes "buf_wf b"
  shows "buf_wf (snd (switch_buffer_toss b n))"
    and "buf_contents (snd (switch_buffer_toss b n)) = drop n (buf_contents b)"
    and "fst (switch_buffer_toss b n) = length (drop n (buf_contents b))"
    and "buf_datalen (snd (switch_buffer_toss b n)) = buf_datalen b"
    and "buf_dynamic (snd (switch_buffer_toss b n)) = buf_dynamic b"
  using assms
  by (auto elim!: buf_wfE simp: switch_buffer_toss_def buf_wf_def buf_contents_def
      reading_len_def drop_take Let_def add.commute split: option.splits)

lemma buffer_read_spec:
  assumes "buf_wf b"
  shows "\<exists>b'. switch_buffer_read b n =
           Inr (length (take n (buf_contents b)), take n (buf_contents b), b') \<and>
         b' = snd (switch_buffer_toss b n)"
  using assms
  by (auto elim!: buf_wfE simp: switch_buffer_read_def switch_buffer_toss_def buf_contents_def
      reading_len_def mem_simps min_def Let_def split: if_splits)

lemma buffer_peek_spec:
  assumes "buf_wf b"
  shows "switch_buffer_peek b n =
           Inr (length (take n (buf_contents b)), take n (buf_contents b), b)"
  using assms
  by (auto elim!: buf_wfE simp: switch_buffer_peek_def buf_contents_def
      reading_len_def mem_simps min_def Let_def split: if_splits)

lemma buffer_zero_spec:
  assumes "buf_wf b"
  shows "\<exists>b'. switch_buffer_zero b = Inr b' \<and> buf_wf b' \<and> buf_contents b' = [] \<and>
              buf_datalen b' = buf_datalen b \<and> buf_dynamic b' = buf_dynamic b"
proof -
  from assms obtain d where "buf_data b = Some d" by (rule buf_wfE)
  with assms show ?thesis
    by (simp add: switch_buffer_zero_def buf_wf_def buf_contents_def)
qed

section \<open>Writing\<close>

lemma buffer_compact_spec:
  assumes "buf_wf b" "buf_data b = Some d"
  shows "\<exists>d'. buffer_compact b d =
            Inr (b\<lparr>buf_data := Some d', buf_head := 0, buf_actually_used := buf_used b\<rparr>) \<and>
          length d' = buf_datalen b \<and> take (buf_used b) d' = buf_contents b"
proof -
  from assms have len: "length d = buf_datalen b" "buf_head b + buf_used b \<le> length d"
    by (auto elim!: buf_wfE)
  let ?m = "take (buf_used b) (drop (buf_head b) d)"
  have m: "length ?m = buf_used b" using len by simp
  have "mem_read d (buf_head b) (buf_used b) = Inr ?m"
    using len by (simp add: mem_simps)
  moreover have "mem_write d 0 ?m = Inr (?m @ drop (buf_used b) d)"
    using len m by (simp add: mem_simps)
  ultimately show ?thesis
    using len m assms(2)
    by (intro exI [of _ "?m @ drop (buf_used b) d"]) (simp add: buffer_compact_def buf_contents_def)
qed

text \<open>The bytes a buffer takes: they fit the block, or a dynamic buffer may and can grow.\<close>

definition buf_accepts :: "(nat \<Rightarrow> (nat \<Rightarrow> byte) option) \<Rightarrow> switch_buffer \<Rightarrow> nat \<Rightarrow> bool" where
  "buf_accepts realloc_mem b n \<longleftrightarrow>
     buf_used b + n \<le> buf_datalen b \<or>
     buf_dynamic b \<and> (buf_max_len b = 0 \<or> buf_used b + n \<le> buf_max_len b) \<and>
     realloc_mem (buffer_new_size b n) \<noteq> None"

lemma buf_new_size_bounds:
  assumes "buf_datalen b + n < size_max"
  shows "buf_datalen b + n \<le> buffer_new_size b n" "buffer_new_size b n < size_max"
  using assms by (auto simp: buffer_new_size_def Let_def size_arith)
    (simp add: size_add_def)

lemma realloc_block_props:
  assumes "length d \<le> n"
  shows "length (realloc_block fresh d n) = n" "take (length d) (realloc_block fresh d n) = d"
  using assms by (simp_all add: realloc_block_def)

text \<open>The last step of a write: appending behind the unread bytes of a block with room.\<close>

lemma append_step:
  assumes "length d = n" "h + u + length xs \<le> n"
  shows "\<exists>d'. mem_write d (h + u) xs = Inr d' \<and> length d' = n \<and>
          take (u + length xs) (drop h d') = take u (drop h d) @ xs"
  using assms by (intro exI [of _ "take (h + u) d @ xs @ drop (h + u + length xs) d"])
    (simp add: mem_simps drop_take add.commute)

lemma buffer_append_spec:
  assumes wf: "buf_wf b" and d: "buf_data b = Some d"
    and room: "buf_actually_used b + length bytes \<le> buf_datalen b"
  shows "\<exists>b'. fbind (mem_write d (buf_head b + buf_used b) bytes) (\<lambda>d3.
               let b3 = b\<lparr>buf_data := Some d3, buf_used := buf_used b + length bytes,
                          buf_actually_used := buf_actually_used b + length bytes\<rparr>
               in Inr (buf_used b3, b3)) = Inr (buf_used b + length bytes, b') \<and>
             buf_wf b' \<and> buf_contents b' = buf_contents b @ bytes \<and>
             buf_datalen b' = buf_datalen b \<and> buf_dynamic b' = buf_dynamic b"
proof -
  from wf d have len: "length d = buf_datalen b" "buf_head b + buf_used b = buf_actually_used b"
    by (auto elim!: buf_wfE)
  from append_step [OF len(1), of "buf_head b" "buf_used b" bytes] room len(2)
  obtain d' where "mem_write d (buf_head b + buf_used b) bytes = Inr d'"
    "length d' = buf_datalen b"
    "take (buf_used b + length bytes) (drop (buf_head b) d') = take (buf_used b) (drop (buf_head b) d) @ bytes"
    by auto
  then show ?thesis
    using wf d len room by (auto simp: buf_wf_def buf_contents_def Let_def)
qed

text \<open>What compaction and growth leave alone, as one relation.\<close>

definition buf_same :: "switch_buffer \<Rightarrow> switch_buffer \<Rightarrow> bool" where
  "buf_same b b' \<longleftrightarrow>
     buf_wf b' \<and> buf_contents b' = buf_contents b \<and> buf_used b' = buf_used b \<and>
     buf_dynamic b' = buf_dynamic b"

lemma buffer_make_room:
  assumes wf: "buf_wf b" and d: "buf_data b = Some d"
  obtains b1 where
    "(if size_sub (buf_datalen b) (buf_actually_used b) < n then buffer_compact b d else Inr b) = Inr b1"
    "buf_same b b1" "buf_datalen b1 = buf_datalen b" "buf_max_len b1 = buf_max_len b"
    "buffer_new_size b1 = buffer_new_size b"
    "buf_actually_used b1 + n \<le> buf_datalen b1 \<or> buf_head b1 = 0"
proof (cases "size_sub (buf_datalen b) (buf_actually_used b) < n")
  case True
  from buffer_compact_spec [OF wf d] obtain d' where
    c: "buffer_compact b d = Inr (b\<lparr>buf_data := Some d', buf_head := 0, buf_actually_used := buf_used b\<rparr>)"
    "length d' = buf_datalen b" "take (buf_used b) d' = buf_contents b" by blast
  show ?thesis
    by (rule that [of "b\<lparr>buf_data := Some d', buf_head := 0, buf_actually_used := buf_used b\<rparr>"])
      (use True wf c in \<open>auto simp: buf_same_def buf_wf_def buf_contents_def buffer_new_size_def
          fun_eq_iff split: option.splits\<close>)
next
  case False
  show ?thesis
    by (rule that [of b]) (use False wf in \<open>auto simp: buf_same_def size_arith elim!: buf_wfE\<close>)
qed

lemma buffer_grow_spec:
  assumes wf: "buf_wf b" and nw: "buf_datalen b + n < size_max"
    and room: "buf_actually_used b + n \<le> buf_datalen b \<or> buf_head b = 0"
    and must: "buffer_must_grow b n" and re: "realloc_mem (buffer_new_size b n) = Some fresh"
  obtains b2 where "buffer_grow realloc_mem b n = Inr b2" "buf_same b b2"
    "buf_actually_used b2 + n \<le> buf_datalen b2"
proof -
  from wf obtain d where d: "buf_data b = Some d" "length d = buf_datalen b"
    "buf_head b + buf_used b = buf_actually_used b"
    "buf_actually_used b \<le> buf_datalen b" "buf_datalen b < size_max" by (rule buf_wfE)
  have h: "buf_head b = 0"
    using room must d by (auto simp: buffer_must_grow_def size_arith)
  let ?m = "buffer_new_size b n"
  note sz = buf_new_size_bounds [OF nw]
  have "length d \<le> ?m" using sz d by simp
  note r = realloc_block_props [OF this, of fresh]
  have "take (buf_used b) (realloc_block fresh d ?m) = take (buf_used b) d"
    using r(2) d h by (metis add_0 min.absorb1 take_take)
  then show ?thesis
    by (intro that [of "b\<lparr>buf_data := Some (realloc_block fresh d ?m), buf_head := 0, buf_datalen := ?m\<rparr>"])
      (use must re r sz d h wf in \<open>auto simp: buffer_grow_def buf_same_def buf_wf_def buf_contents_def Let_def\<close>)
qed

definition buf_written ::
  "(nat \<Rightarrow> (nat \<Rightarrow> byte) option) \<Rightarrow> switch_buffer \<Rightarrow> byte list \<Rightarrow> nat \<Rightarrow> switch_buffer \<Rightarrow> bool" where
  "buf_written realloc_mem b bytes r b' \<longleftrightarrow>
     buf_wf b' \<and> buf_dynamic b' = buf_dynamic b \<and>
     (\<not> buf_dynamic b \<longrightarrow> buf_datalen b' = buf_datalen b) \<and>
     (if buf_accepts realloc_mem b (length bytes)
      then r = buf_used b + length bytes \<and> buf_contents b' = buf_contents b @ bytes
      else r = 0 \<and> buf_contents b' = buf_contents b)"

lemma buffer_commit_grows:
  assumes wf: "buf_wf b" and nw: "buf_datalen b + length bytes < size_max"
    and room: "buf_actually_used b + length bytes \<le> buf_datalen b \<or> buf_head b = 0"
    and must: "buffer_must_grow b (length bytes)"
  shows "\<exists>r b'. buffer_commit realloc_mem b bytes = Inr (r, b') \<and> buf_written realloc_mem b bytes r b'"
proof (cases "realloc_mem (buffer_new_size b (length bytes))")
  case None
  have "buf_head b = 0"
    using room must wf by (auto elim!: buf_wfE simp: buffer_must_grow_def size_arith)
  then have same: "b\<lparr>buf_head := 0\<rparr> = b" by (cases b) auto
  have "\<not> buf_accepts realloc_mem b (length bytes)"
    using None must wf by (auto elim!: buf_wfE simp: buf_accepts_def buffer_must_grow_def size_arith)
  then show ?thesis
    using None must wf same by (simp add: buffer_commit_def buffer_grow_def buf_written_def Let_def)
next
  case (Some fresh)
  from buffer_grow_spec [where realloc_mem = realloc_mem and fresh = fresh, OF wf nw room must Some]
  obtain b2 where
    b2: "buffer_grow realloc_mem b (length bytes) = Inr b2" "buf_same b b2"
    "buf_actually_used b2 + length bytes \<le> buf_datalen b2" .
  then have wf2: "buf_wf b2" by (simp add: buf_same_def)
  then obtain d2 where d2: "buf_data b2 = Some d2" "buf_head b2 + buf_used b2 = buf_actually_used b2"
    "buf_datalen b2 < size_max" by (rule buf_wfE)
  then have nf: "\<not> size_sub (buf_datalen b2) (buf_used b2) < length bytes"
    using b2(3) by (simp add: size_arith)
  have acc: "buf_accepts realloc_mem b (length bytes)"
    using Some must nw wf by (auto elim!: buf_wfE simp: buf_accepts_def buffer_must_grow_def size_arith)
  have "buf_dynamic b" using must by (simp add: buffer_must_grow_def)
  then show ?thesis
    using buffer_append_spec [OF wf2 d2(1) b2(3)] b2 d2 nf acc
    by (auto simp: buffer_commit_def buf_same_def buf_written_def)
qed

lemma buffer_commit_in_place:
  assumes wf: "buf_wf b"
    and nw: "buf_dynamic b \<longrightarrow> buf_datalen b + length bytes < size_max"
    and room: "buf_actually_used b + length bytes \<le> buf_datalen b \<or> buf_head b = 0"
    and must: "\<not> buffer_must_grow b (length bytes)"
  shows "\<exists>r b'. buffer_commit realloc_mem b bytes = Inr (r, b') \<and> buf_written realloc_mem b bytes r b'"
proof -
  from wf obtain d where d: "buf_data b = Some d" "buf_head b + buf_used b = buf_actually_used b"
    "buf_actually_used b \<le> buf_datalen b" "buf_datalen b < size_max" by (rule buf_wfE)
  have full: "size_sub (buf_datalen b) (buf_used b) < length bytes \<longleftrightarrow>
      buf_datalen b < buf_used b + length bytes"
    using d by (auto simp: size_arith)
  show ?thesis
  proof (cases "buf_used b + length bytes \<le> buf_datalen b")
    case True
    then have "buf_actually_used b + length bytes \<le> buf_datalen b" using room d by auto
    from buffer_append_spec [OF wf d(1) this] True show ?thesis
      using d full must by (auto simp: buffer_commit_def buffer_grow_def buf_written_def buf_accepts_def)
  next
    case False
    then have "\<not> buf_accepts realloc_mem b (length bytes)"
      using must nw d by (auto simp: buf_accepts_def buffer_must_grow_def size_arith)
    then show ?thesis
      using False full must wf by (auto simp: buffer_commit_def buffer_grow_def buf_written_def)
  qed
qed

lemma buffer_write_spec:
  assumes wf: "buf_wf b" and nw: "buf_dynamic b \<longrightarrow> buf_datalen b + length bytes < size_max"
    and ne: "bytes \<noteq> []"
  shows "\<exists>r b'. switch_buffer_write realloc_mem b bytes = Inr (r, b') \<and>
                buf_written realloc_mem b bytes r b'"
proof -
  from wf obtain d where d: "buf_data b = Some d" by (rule buf_wfE)
  from buffer_make_room [OF wf d, of "length bytes"] obtain b1 where
    b1: "(if size_sub (buf_datalen b) (buf_actually_used b) < length bytes
          then buffer_compact b d else Inr b) = Inr b1"
    "buf_same b b1" "buf_datalen b1 = buf_datalen b" "buf_max_len b1 = buf_max_len b"
    "buffer_new_size b1 = buffer_new_size b"
    "buf_actually_used b1 + length bytes \<le> buf_datalen b1 \<or> buf_head b1 = 0" .
  have wf1: "buf_wf b1" using b1 by (simp add: buf_same_def)
  have nw1: "buf_dynamic b1 \<longrightarrow> buf_datalen b1 + length bytes < size_max"
    using nw b1 by (simp add: buf_same_def)
  have "\<exists>r b'. buffer_commit realloc_mem b1 bytes = Inr (r, b') \<and> buf_written realloc_mem b1 bytes r b'"
  proof (cases "buffer_must_grow b1 (length bytes)")
    case True
    then have "buf_dynamic b1" by (simp add: buffer_must_grow_def)
    with nw1 show ?thesis by (intro buffer_commit_grows [OF wf1 _ b1(6) True]) simp
  next
    case False
    show ?thesis by (rule buffer_commit_in_place [OF wf1 nw1 b1(6) False])
  qed
  moreover have "buf_accepts realloc_mem b1 (length bytes) = buf_accepts realloc_mem b (length bytes)"
    using b1(2-5) by (simp add: buf_accepts_def buf_same_def)
  then have "buf_written realloc_mem b1 bytes = buf_written realloc_mem b bytes"
    using b1(2,3) by (simp add: buf_written_def buf_same_def fun_eq_iff)
  ultimately show ?thesis
    using d ne b1(1) by (simp add: switch_buffer_write_def)
qed

section \<open>A fixed-size buffer is a bounded queue of bytes\<close>

datatype buf_op =
  Buf_write "byte list" | Buf_zwrite "byte list" | Buf_slide_write "byte list"
  | Buf_read nat | Buf_peek nat | Buf_toss nat | Buf_zero | Buf_inuse

datatype buf_ret = Ret_len nat | Ret_bytes "byte list" | Ret_void | Ret_fault fault

definition buf_no_realloc :: "nat \<Rightarrow> (nat \<Rightarrow> byte) option" where
  "buf_no_realloc n = None"

fun buf_lift :: "switch_buffer \<Rightarrow> fault + (nat \<times> switch_buffer) \<Rightarrow> buf_ret \<times> switch_buffer" where
  "buf_lift b (Inl e) = (Ret_fault e, b)"
| "buf_lift b (Inr (n, b')) = (Ret_len n, b')"

fun buf_step :: "buf_op \<Rightarrow> switch_buffer \<Rightarrow> buf_ret \<times> switch_buffer" where
  "buf_step (Buf_write xs) b = buf_lift b (switch_buffer_write buf_no_realloc b xs)"
| "buf_step (Buf_zwrite xs) b = buf_lift b (switch_buffer_zwrite buf_no_realloc b xs)"
| "buf_step (Buf_slide_write xs) b = buf_lift b (switch_buffer_slide_write buf_no_realloc b xs)"
| "buf_step (Buf_read n) b =
     (case switch_buffer_read b n of Inl e \<Rightarrow> (Ret_fault e, b) | Inr (_, xs, b') \<Rightarrow> (Ret_bytes xs, b'))"
| "buf_step (Buf_peek n) b =
     (case switch_buffer_peek b n of Inl e \<Rightarrow> (Ret_fault e, b) | Inr (_, xs, b') \<Rightarrow> (Ret_bytes xs, b'))"
| "buf_step (Buf_toss n) b = (case switch_buffer_toss b n of (k, b') \<Rightarrow> (Ret_len k, b'))"
| "buf_step Buf_zero b =
     (case switch_buffer_zero b of Inl e \<Rightarrow> (Ret_fault e, b) | Inr b' \<Rightarrow> (Ret_void, b'))"
| "buf_step Buf_inuse b = (Ret_len (switch_buffer_inuse b), b)"

text \<open>The specification: a capacity and the queued bytes.\<close>

definition fifo_put :: "byte list \<Rightarrow> nat \<times> byte list \<Rightarrow> nat \<times> nat \<times> byte list" where
  "fifo_put xs = (\<lambda>(cap, q).
     if xs = [] then (length q, cap, q)
     else if length q + length xs \<le> cap then (length q + length xs, cap, q @ xs)
     else (0, cap, q))"

fun fifo_step :: "buf_op \<Rightarrow> nat \<times> byte list \<Rightarrow> buf_ret \<times> nat \<times> byte list" where
  "fifo_step (Buf_write xs) s = (case fifo_put xs s of (r, s') \<Rightarrow> (Ret_len r, s'))"
| "fifo_step (Buf_zwrite xs) (cap, q) =
     (case fifo_put xs (cap, q) of (r, s') \<Rightarrow>
        if r = 0 then (case fifo_put xs (cap, []) of (r, s') \<Rightarrow> (Ret_len r, s')) else (Ret_len r, s'))"
| "fifo_step (Buf_slide_write xs) (cap, q) =
     (case fifo_put xs (cap, q) of (r, s') \<Rightarrow>
        if r = 0 then (case fifo_put xs (cap, drop (length xs) q) of (r, s') \<Rightarrow> (Ret_len r, s'))
        else (Ret_len r, s'))"
| "fifo_step (Buf_read n) (cap, q) = (Ret_bytes (take n q), cap, drop n q)"
| "fifo_step (Buf_peek n) (cap, q) = (Ret_bytes (take n q), cap, q)"
| "fifo_step (Buf_toss n) (cap, q) = (Ret_len (length (drop n q)), cap, drop n q)"
| "fifo_step Buf_zero (cap, q) = (Ret_void, cap, [])"
| "fifo_step Buf_inuse (cap, q) = (Ret_len (length q), cap, q)"

definition buf_fixed :: "switch_buffer \<Rightarrow> bool" where
  "buf_fixed b \<longleftrightarrow> buf_wf b \<and> \<not> buf_dynamic b"

definition buf_abs :: "switch_buffer \<Rightarrow> nat \<times> byte list" where
  "buf_abs b = (buf_datalen b, buf_contents b)"

lemma fixed_write:
  assumes "buf_fixed b"
  obtains b' where "switch_buffer_write realloc_mem b xs = Inr (fst (fifo_put xs (buf_abs b)), b')"
    "buf_fixed b'" "buf_abs b' = snd (fifo_put xs (buf_abs b))"
proof (cases "xs = []")
  case True
  from assms obtain d where "buf_data b = Some d" by (auto simp: buf_fixed_def elim: buf_wfE)
  with True assms show ?thesis
    by (intro that [of b])
      (auto simp: switch_buffer_write_def fifo_put_def buf_abs_def buf_fixed_def buf_contents_length)
next
  case False
  from assms have "buf_wf b" "buf_dynamic b \<longrightarrow> buf_datalen b + length xs < size_max"
    by (auto simp: buf_fixed_def)
  from buffer_write_spec [OF this False] obtain r b' where
    "switch_buffer_write realloc_mem b xs = Inr (r, b')" "buf_written realloc_mem b xs r b'" by blast
  then show ?thesis
    using assms False
    by (intro that [of b'])
      (auto simp: fifo_put_def buf_abs_def buf_fixed_def buf_contents_length buf_written_def
        buf_accepts_def split: if_splits)
qed

lemma fixed_toss:
  assumes "buf_fixed b"
  shows "buf_fixed (snd (switch_buffer_toss b n))"
    "buf_abs (snd (switch_buffer_toss b n)) = (fst (buf_abs b), drop n (snd (buf_abs b)))"
    "fst (switch_buffer_toss b n) = length (drop n (snd (buf_abs b)))"
  using assms buffer_toss_spec [of b n] by (auto simp: buf_fixed_def buf_abs_def)

lemma fixed_zero:
  assumes "buf_fixed b"
  obtains b' where "switch_buffer_zero b = Inr b'" "buf_fixed b'" "buf_abs b' = (fst (buf_abs b), [])"
  using assms buffer_zero_spec [of b] by (auto simp: buf_fixed_def buf_abs_def)

definition buf_simulates :: "buf_op \<Rightarrow> switch_buffer \<Rightarrow> bool" where
  "buf_simulates x b \<longleftrightarrow>
     buf_fixed (snd (buf_step x b)) \<and>
     fst (buf_step x b) = fst (fifo_step x (buf_abs b)) \<and>
     buf_abs (snd (buf_step x b)) = snd (fifo_step x (buf_abs b))"

lemma simulates_write:
  assumes "buf_fixed b"
  shows "buf_simulates (Buf_write xs) b"
proof -
  obtain b' where "switch_buffer_write buf_no_realloc b xs = Inr (fst (fifo_put xs (buf_abs b)), b')"
    "buf_fixed b'" "buf_abs b' = snd (fifo_put xs (buf_abs b))" by (rule fixed_write [OF assms])
  then show ?thesis by (simp add: buf_simulates_def split_beta)
qed

lemma fifo_put_zero_unchanged: "fst (fifo_put xs s) = 0 \<Longrightarrow> snd (fifo_put xs s) = s"
  by (cases s) (auto simp: fifo_put_def split: if_splits)

lemma simulates_zwrite:
  assumes "buf_fixed b"
  shows "buf_simulates (Buf_zwrite xs) b"
proof -
  obtain b1 where b1: "switch_buffer_write buf_no_realloc b xs = Inr (fst (fifo_put xs (buf_abs b)), b1)"
    "buf_fixed b1" "buf_abs b1 = snd (fifo_put xs (buf_abs b))" by (rule fixed_write [OF assms])
  obtain b2 where b2: "switch_buffer_zero b1 = Inr b2" "buf_fixed b2" "buf_abs b2 = (fst (buf_abs b1), [])"
    by (rule fixed_zero [OF b1(2)])
  obtain b3 where b3: "switch_buffer_write buf_no_realloc b2 xs = Inr (fst (fifo_put xs (buf_abs b2)), b3)"
    "buf_fixed b3" "buf_abs b3 = snd (fifo_put xs (buf_abs b2))" by (rule fixed_write [OF b2(2)])
  obtain cap q where ab: "buf_abs b = (cap, q)" by fastforce
  show ?thesis
  proof (cases "fst (fifo_put xs (buf_abs b)) = 0")
    case True
    then have "buf_abs b2 = (cap, [])" using fifo_put_zero_unchanged [OF True] b1 b2 ab by simp
    with True b1 b2 b3 ab show ?thesis
      by (simp add: buf_simulates_def switch_buffer_zwrite_def split_beta)
  next
    case False
    with b1 ab show ?thesis by (simp add: buf_simulates_def switch_buffer_zwrite_def split_beta)
  qed
qed

lemma simulates_slide_write:
  assumes "buf_fixed b"
  shows "buf_simulates (Buf_slide_write xs) b"
proof -
  obtain b1 where b1: "switch_buffer_write buf_no_realloc b xs = Inr (fst (fifo_put xs (buf_abs b)), b1)"
    "buf_fixed b1" "buf_abs b1 = snd (fifo_put xs (buf_abs b))" by (rule fixed_write [OF assms])
  let ?b2 = "snd (switch_buffer_toss b1 (length xs))"
  note b2 = fixed_toss [OF b1(2), of "length xs"]
  obtain b3 where b3: "switch_buffer_write buf_no_realloc ?b2 xs = Inr (fst (fifo_put xs (buf_abs ?b2)), b3)"
    "buf_fixed b3" "buf_abs b3 = snd (fifo_put xs (buf_abs ?b2))" by (rule fixed_write [OF b2(1)])
  obtain cap q where ab: "buf_abs b = (cap, q)" by fastforce
  show ?thesis
  proof (cases "fst (fifo_put xs (buf_abs b)) = 0")
    case True
    then have "buf_abs ?b2 = (cap, drop (length xs) q)"
      using fifo_put_zero_unchanged [OF True] b1 b2 ab by simp
    with True b1 b3 ab show ?thesis
      by (simp add: buf_simulates_def switch_buffer_slide_write_def split_beta)
  next
    case False
    with b1 ab show ?thesis by (simp add: buf_simulates_def switch_buffer_slide_write_def split_beta)
  qed
qed

lemma buf_step_simulates:
  assumes "buf_fixed b"
  shows "buf_simulates x b"
proof (cases x)
  case (Buf_read n)
  have wf: "buf_wf b" using assms by (simp add: buf_fixed_def)
  from buffer_read_spec [OF wf, of n] fixed_toss [OF assms, of n] Buf_read show ?thesis
    by (auto simp: buf_simulates_def buf_abs_def)
next
  case (Buf_peek n)
  then show ?thesis
    using assms buffer_peek_spec [of b n] by (auto simp: buf_simulates_def buf_abs_def buf_fixed_def)
next
  case (Buf_toss n)
  then show ?thesis
    using fixed_toss [OF assms, of n] by (cases "buf_abs b") (auto simp: buf_simulates_def split_beta)
next
  case Buf_zero
  obtain b' where "switch_buffer_zero b = Inr b'" "buf_fixed b'" "buf_abs b' = (fst (buf_abs b), [])"
    by (rule fixed_zero [OF assms])
  with Buf_zero show ?thesis by (cases "buf_abs b") (simp add: buf_simulates_def)
next
  case Buf_inuse
  then show ?thesis
    using assms buf_contents_length [of b]
    by (simp add: buf_simulates_def switch_buffer_inuse_def buf_abs_def buf_fixed_def)
qed (simp_all add: assms simulates_write simulates_zwrite simulates_slide_write)

interpretation buf: data_refinement buf_fixed buf_abs buf_step fifo_step
  by unfold_locales (use buf_step_simulates in \<open>auto simp: buf_simulates_def\<close>)

section \<open>Properties\<close>

text \<open>C1: any sequence of writes, reads, peeks, tosses and clears on a fixed-size buffer made by
  \<open>switch_buffer_create\<close> answers exactly what a bounded byte queue of that capacity answers, so no
  operation ever copies out of bounds and no byte is lost, duplicated or reordered.\<close>

theorem buffer_refines_fifo:
  assumes "n < size_max"
    and "switch_buffer_create True True i n = (SWITCH_STATUS_SUCCESS, Some b, j)"
  shows "fst (run_ops buf_step xs b) = fst (run_ops fifo_step xs (n, [])) \<and>
         buf_abs (snd (run_ops buf_step xs b)) = snd (run_ops fifo_step xs (n, []))"
proof -
  have "buf_fixed b" "buf_abs b = (n, [])"
    using assms buffer_create_wf [of n i]
    by (auto simp: buf_fixed_def buf_abs_def switch_buffer_create_def)
  then show ?thesis using buf.run_refines [of b xs] by simp
qed

theorem buffer_refines_fifo_witness:
  "fst (run_ops buf_step [Buf_write [1, 2], Buf_read 1, Buf_slide_write [3, 4], Buf_read 9]
          (\<lparr>buf_data = Some [0, 0, 0], buf_head = 0, buf_used = 0, buf_actually_used = 0,
            buf_datalen = 3, buf_max_len = 0, buf_blocksize = 0, buf_dynamic = False,
            buf_id = 7, buf_loops = 0\<rparr>)) =
   [Ret_len 2, Ret_bytes [1], Ret_len 3, Ret_bytes [2, 3, 4]]"
proof -
  have a: "(3::nat) < size_max" by (simp add: size_max_def)
  have c: "switch_buffer_create True True 7 3 = (SWITCH_STATUS_SUCCESS,
     Some \<lparr>buf_data = Some [0, 0, 0], buf_head = 0, buf_used = 0, buf_actually_used = 0,
            buf_datalen = 3, buf_max_len = 0, buf_blocksize = 0, buf_dynamic = False,
            buf_id = 7, buf_loops = 0\<rparr>, 8)"
    by (simp add: switch_buffer_create_def numeral_3_eq_3)
  show ?thesis
    using buffer_refines_fifo [OF a c, of "[Buf_write [1, 2], Buf_read 1, Buf_slide_write [3, 4], Buf_read 9]"]
    by (simp add: fifo_put_def)
qed

text \<open>a write to any well-formed buffer, dynamic ones included, never faults; it appends all the
  bytes exactly when they fit the block or the buffer may grow and \<open>realloc\<close> succeeds, and otherwise
  returns 0 and leaves the unread bytes unchanged.\<close>

theorem buffer_write_correct:
  assumes "buf_wf b" and "buf_datalen b + length bytes < size_max" and "bytes \<noteq> []"
  shows "\<exists>r b'. switch_buffer_write realloc_mem b bytes = Inr (r, b') \<and> buf_wf b' \<and>
     (if buf_accepts realloc_mem b (length bytes)
      then r = buf_used b + length bytes \<and> buf_contents b' = buf_contents b @ bytes
      else r = 0 \<and> buf_contents b' = buf_contents b)"
proof -
  obtain r b' where "switch_buffer_write realloc_mem b bytes = Inr (r, b')"
    "buf_written realloc_mem b bytes r b'"
    using buffer_write_spec [of b bytes realloc_mem] assms by blast
  then show ?thesis unfolding buf_written_def by blast
qed

theorem buffer_write_correct_witness:
  "\<exists>r b'. switch_buffer_write (\<lambda>n. Some (\<lambda>_. 9))
      \<lparr>buf_data = Some [5], buf_head = 0, buf_used = 1, buf_actually_used = 1,
        buf_datalen = 1, buf_max_len = 8, buf_blocksize = 4, buf_dynamic = True,
        buf_id = 0, buf_loops = 0\<rparr> [6, 7] = Inr (r, b') \<and> r = 3 \<and> buf_contents b' = [5, 6, 7]"
  using buffer_write_correct [of "\<lparr>buf_data = Some [5], buf_head = 0, buf_used = 1, buf_actually_used = 1,
        buf_datalen = 1, buf_max_len = 8, buf_blocksize = 4, buf_dynamic = True,
        buf_id = 0, buf_loops = 0\<rparr>" "[6, 7]" "\<lambda>n. Some (\<lambda>_. 9)"]
  by (auto simp: buf_wf_def size_max_def buf_accepts_def buf_contents_def)

text \<open>\<open>switch_buffer_slide_write\<close> on a fixed-size buffer always takes a chunk that fits the
  capacity, dropping only the oldest bytes, and as many as the chunk is long only when there is no
  room.\<close>

theorem buffer_slide_write_keeps_newest:
  assumes "buf_wf b" and "\<not> buf_dynamic b" and "xs \<noteq> []" and "length xs \<le> buf_datalen b"
  shows "\<exists>r b'. switch_buffer_slide_write realloc_mem b xs = Inr (r, b') \<and> buf_wf b' \<and>
     r = length (buf_contents b') \<and>
     buf_contents b' =
       (if buf_used b + length xs \<le> buf_datalen b then buf_contents b
        else drop (length xs) (buf_contents b)) @ xs"
proof -
  have fx: "buf_fixed b" using assms by (simp add: buf_fixed_def)
  obtain b1 where b1: "switch_buffer_write realloc_mem b xs = Inr (fst (fifo_put xs (buf_abs b)), b1)"
    "buf_fixed b1" "buf_abs b1 = snd (fifo_put xs (buf_abs b))" by (rule fixed_write [OF fx])
  let ?b2 = "snd (switch_buffer_toss b1 (length xs))"
  note b2 = fixed_toss [OF b1(2), of "length xs"]
  obtain b3 where b3: "switch_buffer_write realloc_mem ?b2 xs = Inr (fst (fifo_put xs (buf_abs ?b2)), b3)"
    "buf_fixed b3" "buf_abs b3 = snd (fifo_put xs (buf_abs ?b2))" by (rule fixed_write [OF b2(1)])
  have len: "length (buf_contents b) = buf_used b" "buf_used b \<le> buf_datalen b"
    using assms buf_contents_length by (auto elim!: buf_wfE)
  show ?thesis
    using b1 b2 b3 assms len
    by (auto simp: switch_buffer_slide_write_def fifo_put_def buf_abs_def buf_fixed_def split: if_splits)
qed

theorem buffer_slide_write_keeps_newest_witness:
  "\<exists>r b'. switch_buffer_slide_write (\<lambda>n. None)
      \<lparr>buf_data = Some [1, 2, 3], buf_head = 0, buf_used = 3, buf_actually_used = 3,
        buf_datalen = 3, buf_max_len = 0, buf_blocksize = 0, buf_dynamic = False,
        buf_id = 0, buf_loops = 0\<rparr> [4, 5] = Inr (r, b') \<and> r = 3 \<and> buf_contents b' = [3, 4, 5]"
  using buffer_slide_write_keeps_newest [of "\<lparr>buf_data = Some [1, 2, 3], buf_head = 0, buf_used = 3,
        buf_actually_used = 3, buf_datalen = 3, buf_max_len = 0, buf_blocksize = 0,
        buf_dynamic = False, buf_id = 0, buf_loops = 0\<rparr>" "[4, 5]" "\<lambda>n. None"]
  by (auto simp: buf_wf_def size_max_def buf_contents_def)

end
