(* ===== verification/Ascii_Case.thy ===== *)
theory Ascii_Case
  imports FS_Prelude
begin

unbundle bit_operations_syntax

text \<open>
  The branch-free case mapping of src/include/switch\_utils.h: four (or eight) bytes of a machine
  word are mapped at once with masks and carries. The reference is the byte-wise ASCII mapping;
  the lemmas show that the word routines and the string routines built on them compute it.
\<close>

section \<open>The word routines\<close>

definition switch_toupper :: "uint32 \<Rightarrow> uint32" where
  "switch_toupper eax =
     (let ebx = (0x7f7f7f7f AND eax) + 0x05050505;
          ebx = (0x7f7f7f7f AND ebx) + 0x1a1a1a1a;
          ebx = drop_bit 2 (ebx AND NOT eax) AND 0x20202020
      in eax - ebx)"

definition switch_tolower :: "uint32 \<Rightarrow> uint32" where
  "switch_tolower eax =
     (let ebx = (0x7f7f7f7f AND eax) + 0x25252525;
          ebx = (0x7f7f7f7f AND ebx) + 0x1a1a1a1a;
          ebx = drop_bit 2 (ebx AND NOT eax) AND 0x20202020
      in eax + ebx)"

definition switch_toupper64 :: "uint64 \<Rightarrow> uint64" where
  "switch_toupper64 eax =
     (let ebx = (0x7f7f7f7f7f7f7f7f AND eax) + 0x0505050505050505;
          ebx = (0x7f7f7f7f7f7f7f7f AND ebx) + 0x1a1a1a1a1a1a1a1a;
          ebx = drop_bit 2 (ebx AND NOT eax) AND 0x2020202020202020
      in eax - ebx)"

definition switch_tolower64 :: "uint64 \<Rightarrow> uint64" where
  "switch_tolower64 eax =
     (let ebx = (0x7f7f7f7f7f7f7f7f AND eax) + 0x2525252525252525;
          ebx = (0x7f7f7f7f7f7f7f7f AND ebx) + 0x1a1a1a1a1a1a1a1a;
          ebx = drop_bit 2 (ebx AND NOT eax) AND 0x2020202020202020
      in eax + ebx)"

text \<open>
  A little-endian load and store of a word, for the routines that walk a string in words. A string
  is its bytes before the terminating NUL.
\<close>

primrec lanes_val :: "nat list \<Rightarrow> nat" where
  "lanes_val [] = 0"
| "lanes_val (b # bs) = b + 256 * lanes_val bs"

definition load_le :: "byte list \<Rightarrow> 'a::len word" where
  "load_le bs = of_nat (lanes_val (map unat bs))"

definition store_le :: "nat \<Rightarrow> 'a::len word \<Rightarrow> byte list" where
  "store_le n w = map (\<lambda>i. ucast (drop_bit (8 * i) w)) [0..<n]"

text \<open>
  The 64-bit build's string routines: words while more than eight bytes are left, then single
  characters, which \<open>char\<close> sign-extends on the way into the word routine.
\<close>

function switch_toupper_max :: "byte list \<Rightarrow> byte list" where
  "switch_toupper_max s =
     (if length s > 8
      then store_le 8 (switch_toupper64 (load_le (take 8 s))) @ switch_toupper_max (drop 8 s)
      else map (\<lambda>c. ucast (switch_toupper (scast c))) s)"
  by pat_completeness auto
termination
  by (relation "measure length") auto

function switch_tolower_max :: "byte list \<Rightarrow> byte list" where
  "switch_tolower_max s =
     (if length s > 8
      then store_le 8 (switch_tolower64 (load_le (take 8 s))) @ switch_tolower_max (drop 8 s)
      else map (\<lambda>c. ucast (switch_tolower (scast c))) s)"
  by pat_completeness auto
termination
  by (relation "measure length") auto

declare switch_toupper_max.simps [simp del] switch_tolower_max.simps [simp del]

text \<open>The reference: the ASCII mapping of one byte.\<close>

definition ascii_upper :: "byte \<Rightarrow> byte" where
  "ascii_upper b = (if 0x61 \<le> b \<and> b \<le> 0x7a then b - 0x20 else b)"

definition ascii_lower :: "byte \<Rightarrow> byte" where
  "ascii_lower b = (if 0x41 \<le> b \<and> b \<le> 0x5a then b + 0x20 else b)"

section \<open>Lanes\<close>

abbreviation is_lanes :: "nat list \<Rightarrow> bool" where
  "is_lanes bs \<equiv> \<forall>b\<in>set bs. b < 256"

lemma and_lane:
  fixes a c r s :: nat
  assumes "a < 256" "c < 256"
  shows "(a + 256 * r) AND (c + 256 * s) = (a AND c) + 256 * (r AND s)"
proof -
  let ?z = "(a + 256 * r) AND (c + 256 * s)"
  have "?z mod 256 = a AND c"
    using take_bit_and [of 8 "a + 256 * r" "c + 256 * s"] assms by (simp add: take_bit_eq_mod)
  moreover have "?z div 256 = r AND s"
    using drop_bit_and [of 8 "a + 256 * r" "c + 256 * s"] assms by (simp add: drop_bit_eq_div)
  ultimately show ?thesis by (metis add.commute mod_mult_div_eq mult.commute)
qed

lemma lanes_and:
  assumes "is_lanes xs" "c < 256"
  shows "lanes_val xs AND lanes_val (replicate (length xs) c) = lanes_val (map (\<lambda>b. b AND c) xs)"
  using assms by (induction xs) (simp_all add: and_lane)

lemma lanes_and2:
  assumes "is_lanes xs" "is_lanes ys" "length xs = length ys"
  shows "lanes_val xs AND lanes_val ys = lanes_val (map2 (AND) xs ys)"
  using assms(3,1,2) by (induction xs ys rule: list_induct2) (simp_all add: and_lane)

lemma lanes_add:
  "lanes_val xs + lanes_val (replicate (length xs) c) = lanes_val (map (\<lambda>b. b + c) xs)"
  by (induction xs) (simp_all add: algebra_simps)

lemma lanes_add2:
  "length xs = length ys \<Longrightarrow> lanes_val xs + lanes_val ys = lanes_val (map2 (+) xs ys)"
  by (induction xs ys rule: list_induct2) (simp_all add: algebra_simps)

lemma lanes_diff2:
  assumes "list_all2 (\<le>) ys xs"
  shows "lanes_val ys \<le> lanes_val xs \<and> lanes_val xs - lanes_val ys = lanes_val (map2 (-) xs ys)"
  using assms by (induction ys xs rule: list_all2_induct) auto

lemma lanes_less: "is_lanes xs \<Longrightarrow> lanes_val xs < 256 ^ length xs"
  by (induction xs) auto

lemma lanes_div4:
  "\<forall>b\<in>set xs. 4 dvd b \<Longrightarrow> 4 dvd lanes_val xs \<and> lanes_val xs div 4 = lanes_val (map (\<lambda>b. b div 4) xs)"
  by (induction xs) auto

lemma lanes_inj:
  assumes "length xs = length ys" "is_lanes xs" "is_lanes ys" "lanes_val xs = lanes_val ys"
  shows "xs = ys"
  using assms
proof (induction xs ys rule: list_induct2)
  case (Cons x xs y ys)
  from Cons.prems have "x = y"
    by (metis lanes_val.simps(2) list.set_intros(1) mod_less mod_mult_self2)
  with Cons show ?case by simp
qed simp

text \<open>One byte of the mask computation, and its value on every byte.\<close>

definition lane_mask :: "nat \<Rightarrow> nat \<Rightarrow> nat" where
  "lane_mask k b =
     (let e = (((b AND 127) + k) AND 127) + 26; h = e AND 128 in (h - (h AND b)) div 4)"

lemma nat_and_127: "b AND 127 = b mod 128" for b :: nat
proof -
  have "b AND mask 7 = take_bit 7 b" by (simp only: take_bit_eq_mask)
  then show ?thesis by (simp add: take_bit_eq_mod mask_eq_exp_minus_1)
qed

lemma nat_and_exp: "b AND 2 ^ n = (if bit b n then 2 ^ n else 0)" for b :: nat
  by (rule bit_eqI) (auto simp: bit_simps)

lemma nat_and_128: "b AND 128 = (if odd (b div 128) then 128 else 0)" for b :: nat
  using nat_and_exp [of b 7] by (simp add: bit_iff_odd)

lemma odd_div_128: "x < 256 \<Longrightarrow> odd (x div 128) \<longleftrightarrow> 128 \<le> x" for x :: nat
proof -
  assume x: "x < 256"
  show ?thesis
  proof (cases "x < 128")
    case False
    then have "x div 128 = 1" using x by (intro div_nat_eqI) auto
    with False show ?thesis by simp
  qed simp
qed

lemma lane_mask_eq:
  assumes "b < 256"
  shows "lane_mask k b = (if b < 128 \<and> 102 \<le> (b + k) mod 128 then 32 else 0)"
proof -
  let ?r = "(b + k) mod 128"
  have e: "((b AND 127) + k) AND 127 = ?r" by (simp add: nat_and_127 mod_add_left_eq)
  have r: "?r + 26 < 256" by (rule order_less_trans [of _ "128 + 26"]) auto
  have "128 AND b = (if b < 128 then 0 else 128)"
    using nat_and_128 [of b] odd_div_128 [OF assms] by (simp add: and.commute)
  moreover have "(?r + 26) AND 128 = (if 102 \<le> ?r then 128 else 0)"
    using odd_div_128 [OF r] by (simp add: nat_and_128)
  ultimately show ?thesis by (simp add: lane_mask_def Let_def e)
qed

lemma lane_mask_lower:
  assumes "b < 256"
  shows "lane_mask 0x25 b = (if 0x41 \<le> b \<and> b \<le> 0x5a then 0x20 else 0)"
proof -
  have "(b + 37) mod 128 = (if b < 91 then b + 37 else b - 91)" if "b < 128"
    using that mod_if [of "b + 37" 128] by simp
  with lane_mask_eq [OF assms, of 37] show ?thesis by (auto split: if_splits)
qed

lemma lane_mask_upper:
  assumes "b < 256"
  shows "lane_mask 0x05 b = (if 0x61 \<le> b \<and> b \<le> 0x7a then 0x20 else 0)"
proof -
  have "(b + 5) mod 128 = (if b < 123 then b + 5 else b - 123)" if "b < 128"
    using that mod_if [of "b + 5" 128] by simp
  with lane_mask_eq [OF assms, of 5] show ?thesis by (auto split: if_splits)
qed

section \<open>Words as lanes\<close>

definition has_lanes :: "'a::len word \<Rightarrow> nat list \<Rightarrow> bool" where
  "has_lanes w bs \<longleftrightarrow> unat w = lanes_val bs \<and> is_lanes bs \<and> 8 * length bs = LENGTH('a)"

definition lane_const :: "nat \<Rightarrow> nat \<Rightarrow> 'a::len word" where
  "lane_const n c = of_nat (lanes_val (replicate n c))"

lemma lanes_fit: "is_lanes bs \<Longrightarrow> 8 * length bs = LENGTH('a::len) \<Longrightarrow> lanes_val bs < 2 ^ LENGTH('a)"
  using lanes_less [of bs] power_mult [of "2::nat" 8 "length bs"] by simp

lemma has_lanes_of_nat:
  "is_lanes bs \<Longrightarrow> 8 * length bs = LENGTH('a) \<Longrightarrow> has_lanes (of_nat (lanes_val bs) :: 'a::len word) bs"
  by (simp add: has_lanes_def lanes_fit unat_of_nat)

lemma has_lanes_const:
  "has_lanes (w :: 'a::len word) bs \<Longrightarrow> c < 256 \<Longrightarrow>
   has_lanes (lane_const (length bs) c :: 'a word) (replicate (length bs) c)"
  unfolding lane_const_def by (rule has_lanes_of_nat) (auto simp: has_lanes_def)

lemma has_lanes_and:
  assumes "has_lanes (v :: 'a::len word) xs" "has_lanes (w :: 'a word) ys"
  shows "has_lanes (v AND w) (map2 (AND) xs ys)"
proof -
  have len: "length xs = length ys" using assms by (simp add: has_lanes_def)
  have le: "a AND b \<le> a" for a b :: nat
    by (metis and_nat_def nat_int nat_mono AND_upper1 of_nat_0_le_iff)
  have "a AND b < 256" if "(a, b) \<in> set (zip xs ys)" for a b
    using assms(1) set_zip_leftD [OF that] le_less_trans [OF le [of a b]] by (auto simp: has_lanes_def)
  then have "is_lanes (map2 (AND) xs ys)" by auto
  then show ?thesis
    using assms len by (simp add: has_lanes_def unsigned_and_eq lanes_and2)
qed

lemma has_lanes_add:
  assumes "has_lanes (v :: 'a::len word) xs" "has_lanes (w :: 'a word) ys"
    and "is_lanes (map2 (+) xs ys)"
  shows "has_lanes (v + w) (map2 (+) xs ys)"
proof -
  have len: "length xs = length ys" using assms by (simp add: has_lanes_def)
  have "lanes_val (map2 (+) xs ys) < 2 ^ LENGTH('a)"
    by (rule lanes_fit) (use assms len in \<open>auto simp: has_lanes_def\<close>)
  then have "unat v + unat w < 2 ^ LENGTH('a)"
    using assms len by (simp add: has_lanes_def lanes_add2)
  then show ?thesis
    using assms len by (simp add: has_lanes_def unat_word_ariths lanes_add2)
qed

lemma has_lanes_diff:
  assumes "has_lanes (v :: 'a::len word) xs" "has_lanes (w :: 'a word) ys" "list_all2 (\<le>) ys xs"
  shows "has_lanes (v - w) (map2 (-) xs ys)"
proof -
  have len: "length xs = length ys" using assms by (simp add: has_lanes_def)
  have d: "lanes_val ys \<le> lanes_val xs" "lanes_val xs - lanes_val ys = lanes_val (map2 (-) xs ys)"
    using lanes_diff2 [OF assms(3)] by auto
  then have "w \<le> v" using assms by (simp add: has_lanes_def word_le_nat_alt)
  then have "unat (v - w) = unat v - unat w" by (rule unat_sub)
  moreover have "is_lanes (map2 (-) xs ys)"
    using assms(1) by (auto simp: has_lanes_def dest!: set_zip_leftD intro: le_less_trans [OF diff_le_self])
  ultimately show ?thesis using assms d len by (simp add: has_lanes_def)
qed

lemma has_lanes_drop2:
  assumes "has_lanes (w :: 'a::len word) xs" "\<forall>b\<in>set xs. 4 dvd b"
  shows "has_lanes (drop_bit 2 w) (map (\<lambda>b. b div 4) xs)"
proof -
  have "unat (drop_bit 2 w) = unat w div 4"
    by (simp only: unsigned_drop_bit_eq take_bit_nat_eq_self [OF unsigned_less])
      (simp add: drop_bit_eq_div)
  then show ?thesis
    using assms lanes_div4 [of xs]
    by (auto simp: has_lanes_def intro: le_less_trans [OF div_le_dividend])
qed

lemma word_and_not_eq: "x AND NOT y = x - (x AND y)" for x y :: "'a::len word"
proof -
  have "(x AND NOT y) + (x AND y) = (x AND NOT y) OR (x AND y)"
    by (rule disjunctive_add) (simp add: bit_simps)
  also have "\<dots> = x" by (rule bit_eqI) (auto simp: bit_simps)
  finally show ?thesis by (simp add: eq_diff_eq)
qed

text \<open>The mask computation shared by the four routines, on words of \<open>n\<close> bytes.\<close>

definition swar_mask :: "nat \<Rightarrow> nat \<Rightarrow> 'a::len word \<Rightarrow> 'a word" where
  "swar_mask n k w =
     drop_bit 2 (((lane_const n 127 AND ((lane_const n 127 AND w) + lane_const n k)) + lane_const n 26)
       AND NOT w) AND lane_const n 32"

text \<open>The lane rules in the form the mask computation uses: every lane is a function of \<open>w\<close>'s lane.\<close>

lemma map2_map_map: "map2 f (map g xs) (map h xs) = map (\<lambda>x. f (g x) (h x)) xs"
  by (induction xs) simp_all

lemma lane_id: "has_lanes w bs \<Longrightarrow> has_lanes w (map (\<lambda>b. b) bs)"
  by simp

lemma lane_K:
  "has_lanes (w :: 'a::len word) bs \<Longrightarrow> c < 256 \<Longrightarrow>
   has_lanes (lane_const (length bs) c :: 'a word) (map (\<lambda>_. c) bs)"
  by (simp add: has_lanes_const map_replicate_const)

lemma lane_and:
  "has_lanes v (map f bs) \<Longrightarrow> has_lanes w (map g bs) \<Longrightarrow> has_lanes (v AND w) (map (\<lambda>b. f b AND g b) bs)"
  using has_lanes_and [of v "map f bs" w "map g bs"] by (simp add: map2_map_map)

lemma lane_add:
  "has_lanes v (map f bs) \<Longrightarrow> has_lanes w (map g bs) \<Longrightarrow> \<forall>b\<in>set bs. f b + g b < 256 \<Longrightarrow>
   has_lanes (v + w) (map (\<lambda>b. f b + g b) bs)"
  using has_lanes_add [of v "map f bs" w "map g bs"] by (simp add: map2_map_map)

lemma lane_diff:
  "has_lanes v (map f bs) \<Longrightarrow> has_lanes w (map g bs) \<Longrightarrow> \<forall>b\<in>set bs. g b \<le> f b \<Longrightarrow>
   has_lanes (v - w) (map (\<lambda>b. f b - g b) bs)"
  using has_lanes_diff [of v "map f bs" w "map g bs"]
  by (simp add: map2_map_map list_all2_conv_all_nth)

lemma swar_high_bit:
  "drop_bit 2 (x AND NOT w) AND drop_bit 2 m = drop_bit 2 ((x AND m) - ((x AND m) AND w))"
  for x w m :: "'a::len word"
proof -
  have "drop_bit 2 (x AND NOT w) AND drop_bit 2 m = drop_bit 2 ((x AND m) AND NOT w)"
    by (simp only: drop_bit_and [symmetric] ac_simps)
  then show ?thesis by (simp only: word_and_not_eq)
qed

lemma swar_mask_lanes:
  assumes w: "has_lanes (w :: 'a::len word) bs" and k: "k \<le> 128"
  shows "has_lanes (swar_mask (length bs) k w) (map (lane_mask k) bs)"
proof -
  let ?c = "\<lambda>c. lane_const (length bs) c :: 'a word"
  let ?x = "(?c 127 AND ((?c 127 AND w) + ?c k)) + ?c 26"
  note c = lane_K [OF w] and w' = lane_id [OF w]
  have "has_lanes (?c 127 AND w) (map (\<lambda>b. 127 AND b) bs)"
    by (rule lane_and [OF c w']) simp
  moreover have "(127 AND b) + k < 256" for b :: nat
    using k mod_less_divisor [of 128 b] by (simp add: and.commute [of 127] nat_and_127 del: mod_less_divisor)
  ultimately have "has_lanes ((?c 127 AND w) + ?c k) (map (\<lambda>b. (127 AND b) + k) bs)"
    using k by (intro lane_add c) auto
  then have "has_lanes (?c 127 AND ((?c 127 AND w) + ?c k)) (map (\<lambda>b. 127 AND ((127 AND b) + k)) bs)"
    by (intro lane_and c) auto
  moreover have "(127 AND b) + 26 < 256" for b :: nat
    using mod_less_divisor [of 128 b] by (simp add: and.commute [of 127] nat_and_127 del: mod_less_divisor)
  ultimately have "has_lanes ?x (map (\<lambda>b. (127 AND ((127 AND b) + k)) + 26) bs)"
    by (intro lane_add c) auto
  then have h: "has_lanes (?x AND ?c 128) (map (\<lambda>b. ((127 AND ((127 AND b) + k)) + 26) AND 128) bs)"
    by (intro lane_and c) auto
  let ?h = "\<lambda>b. ((127 AND ((127 AND b) + k)) + 26) AND 128"
  have le: "a AND b \<le> a" for a b :: nat
    by (metis and_nat_def nat_int nat_mono AND_upper1 of_nat_0_le_iff)
  have dv: "4 dvd ?h b - (?h b AND b)" for b
    by (simp add: nat_and_128 and.commute [of 128])
  from has_lanes_drop2 [OF lane_diff [OF h lane_and [OF h w']]] dv le
  have "has_lanes (drop_bit 2 ((?x AND ?c 128) - ((?x AND ?c 128) AND w)))
     (map (\<lambda>b. (?h b - (?h b AND b)) div 4) bs)"
    by (simp add: o_def)
  moreover have "drop_bit 2 (?c 128) = ?c 32"
    using has_lanes_drop2 [OF c, of 128] c [of 32] by (simp add: has_lanes_def o_def word_unat_eq_iff)
  moreover have "lane_mask k = (\<lambda>b. (?h b - (?h b AND b)) div 4)"
    by (rule ext) (simp add: lane_mask_def Let_def and.commute [of 127])
  ultimately show ?thesis
    using swar_high_bit [of ?x w "?c 128"] by (simp only: swar_mask_def)
qed

section \<open>Loads and stores\<close>

lemma load_le_lanes:
  "8 * length bs = LENGTH('a) \<Longrightarrow> has_lanes (load_le bs :: 'a::len word) (map unat bs)"
  unfolding load_le_def
  by (rule has_lanes_of_nat) (auto intro: order_less_le_trans [OF unsigned_less])

lemma lanes_nth: "is_lanes xs \<Longrightarrow> i < length xs \<Longrightarrow> lanes_val xs div 256 ^ i mod 256 = xs ! i"
proof (induction xs arbitrary: i)
  case (Cons x xs)
  then show ?case
    by (cases i) (auto simp: div_mult2_eq)
qed simp

lemma store_le_lanes:
  assumes "has_lanes (w :: 'a::len word) xs"
  shows "store_le (length xs) w = map of_nat xs"
proof (rule nth_equalityI)
  fix i assume "i < length (store_le (length xs) w)"
  then have i: "i < length xs" by (simp add: store_le_def)
  have p: "(256::nat) ^ i = 2 ^ (8 * i)" by (simp add: power_mult)
  have "unat (drop_bit (8 * i) w) = unat w div 256 ^ i"
    by (simp only: unsigned_drop_bit_eq take_bit_nat_eq_self [OF unsigned_less] p)
      (simp only: drop_bit_eq_div)
  then have "unat (ucast (drop_bit (8 * i) w) :: byte) = unat w div 256 ^ i mod 256"
    by (simp only: unsigned_ucast_eq take_bit_eq_mod) simp
  also have "\<dots> = xs ! i" using assms i lanes_nth [of xs i] by (simp add: has_lanes_def)
  also have "\<dots> = unat (of_nat (xs ! i) :: byte)"
    using assms i by (simp add: has_lanes_def unat_of_nat)
  finally have "ucast (drop_bit (8 * i) w) = (of_nat (xs ! i) :: byte)" by (simp add: word_unat_eq_iff)
  then show "store_le (length xs) w ! i = map of_nat xs ! i"
    using i by (simp add: store_le_def)
qed (simp add: store_le_def)

section \<open>The routines compute the ASCII mapping\<close>

lemma lane_const_4: "lane_const 4 c = of_nat (0x01010101 * c)"
proof -
  have "replicate 4 c = [c, c, c, c]" by (simp add: eval_nat_numeral)
  then show ?thesis by (simp add: lane_const_def)
qed

lemma lane_const_8: "lane_const 8 c = of_nat (0x0101010101010101 * c)"
proof -
  have "replicate 8 c = [c, c, c, c, c, c, c, c]" by (simp add: eval_nat_numeral)
  then show ?thesis by (simp add: lane_const_def)
qed

lemma swar_routines:
  "switch_tolower v = v + swar_mask 4 0x25 v" "switch_toupper v = v - swar_mask 4 0x05 v"
  "switch_tolower64 w = w + swar_mask 8 0x25 w" "switch_toupper64 w = w - swar_mask 8 0x05 w"
  by (simp_all only: switch_tolower_def switch_toupper_def switch_tolower64_def switch_toupper64_def
      swar_mask_def lane_const_4 lane_const_8 Let_def) simp_all

definition lower_nat :: "nat \<Rightarrow> nat" where
  "lower_nat b = (if 0x41 \<le> b \<and> b \<le> 0x5a then b + 0x20 else b)"

definition upper_nat :: "nat \<Rightarrow> nat" where
  "upper_nat b = (if 0x61 \<le> b \<and> b \<le> 0x7a then b - 0x20 else b)"

lemma lower_lanes:
  assumes "has_lanes (w :: 'a::len word) bs"
  shows "has_lanes (w + swar_mask (length bs) 0x25 w) (map lower_nat bs)"
proof -
  have b: "is_lanes bs" using assms by (simp add: has_lanes_def)
  then have eq: "map lower_nat bs = map (\<lambda>b. b + lane_mask 0x25 b) bs"
    by (auto simp: lower_nat_def lane_mask_lower)
  have "\<forall>x\<in>set bs. x + lane_mask 0x25 x < 256" using b by (auto simp: lane_mask_lower)
  then show ?thesis
    unfolding eq by (intro lane_add lane_id assms swar_mask_lanes) auto
qed

lemma upper_lanes:
  assumes "has_lanes (w :: 'a::len word) bs"
  shows "has_lanes (w - swar_mask (length bs) 0x05 w) (map upper_nat bs)"
proof -
  have b: "is_lanes bs" using assms by (simp add: has_lanes_def)
  then have eq: "map upper_nat bs = map (\<lambda>b. b - lane_mask 0x05 b) bs"
    by (auto simp: upper_nat_def lane_mask_upper)
  have "\<forall>x\<in>set bs. lane_mask 0x05 x \<le> x" using b by (auto simp: lane_mask_upper)
  then show ?thesis
    unfolding eq by (intro lane_diff lane_id assms swar_mask_lanes) auto
qed

lemma byte_case_nat:
  "of_nat (lower_nat (unat b)) = ascii_lower b" "of_nat (upper_nat (unat b)) = ascii_upper b"
  by (auto simp: lower_nat_def upper_nat_def ascii_lower_def ascii_upper_def word_le_nat_alt)

lemma tolower64_bytes:
  assumes "length bs = 8"
  shows "store_le 8 (switch_tolower64 (load_le bs)) = map ascii_lower bs"
proof -
  have l: "has_lanes (load_le bs :: uint64) (map unat bs)" using assms by (simp add: load_le_lanes)
  from store_le_lanes [OF lower_lanes [OF l]] assms show ?thesis
    by (simp add: swar_routines byte_case_nat o_def)
qed

lemma toupper64_bytes:
  assumes "length bs = 8"
  shows "store_le 8 (switch_toupper64 (load_le bs)) = map ascii_upper bs"
proof -
  have l: "has_lanes (load_le bs :: uint64) (map unat bs)" using assms by (simp add: load_le_lanes)
  from store_le_lanes [OF upper_lanes [OF l]] assms show ?thesis
    by (simp add: swar_routines byte_case_nat o_def)
qed

text \<open>Every 32-bit word is a load of its own bytes, so the lane facts apply to a single character.\<close>

lemma word_lanes:
  fixes w :: "'a::len word"
  assumes "8 * n = LENGTH('a)"
  shows "\<exists>bs. length bs = n \<and> has_lanes w bs"
proof -
  have "\<exists>bs. length bs = n \<and> is_lanes bs \<and> lanes_val bs = m" if "m < 256 ^ n" for m
    using that
  proof (induction n arbitrary: m)
    case (Suc n)
    then have "m div 256 < 256 ^ n" by (simp add: div_less_iff_less_mult mult.commute)
    from Suc.IH [OF this] obtain bs where "length bs = n" "is_lanes bs" "lanes_val bs = m div 256" by blast
    then show ?case by (intro exI [of _ "(m mod 256) # bs"]) simp
  qed simp
  moreover have "(2::nat) ^ LENGTH('a) = 256 ^ n"
    using assms power_mult [of "2::nat" 8 n] by simp
  then have "unat w < 256 ^ n" by (metis unsigned_less)
  ultimately show ?thesis using assms unfolding has_lanes_def by metis
qed

text \<open>Loads and stores undo each other.\<close>

lemma load_store_le:
  assumes "8 * n = LENGTH('a)"
  shows "load_le (store_le n w) = (w :: 'a::len word)"
proof -
  obtain xs where xs: "length xs = n" "has_lanes w xs" using word_lanes [of n w] assms by auto
  then have "map unat (map of_nat xs :: byte list) = xs"
    by (auto simp: has_lanes_def unat_of_nat map_idI list_all_iff)
  moreover have "of_nat (unat w) = w" by simp
  then have "of_nat (lanes_val xs) = w" using xs(2) by (simp only: has_lanes_def)
  ultimately show ?thesis using store_le_lanes [OF xs(2)] xs(1) by (simp add: load_le_def)
qed

lemma store_load_le:
  assumes "8 * length bs = LENGTH('a)"
  shows "store_le (length bs) (load_le bs :: 'a::len word) = bs"
proof -
  have "map of_nat (map unat bs) = bs" by (simp add: map_idI)
  then show ?thesis using store_le_lanes [OF load_le_lanes [OF assms]] by simp
qed

lemma store_le_length [simp]: "length (store_le n w) = n"
  by (simp add: store_le_def)

lemma low_byte_lanes:
  assumes "has_lanes (w :: 'a::len word) (b # bs)"
  shows "(ucast w :: byte) = of_nat b"
  using store_le_lanes [OF assms] by (simp add: store_le_def upt_conv_Cons del: upt_Suc)

lemma word32_lanes:
  obtains b bs where "has_lanes (w :: uint32) (b # bs)" "length bs = 3" "b < 256"
proof -
  obtain xs where xs: "length xs = 4" "has_lanes w xs" using word_lanes [of 4 w] by auto
  then obtain b bs where "xs = b # bs" by (cases xs) auto
  with xs that show ?thesis by (auto simp: has_lanes_def)
qed

lemma tolower_low_byte: "(ucast (switch_tolower w) :: byte) = ascii_lower (ucast w)"
proof -
  obtain b bs where l: "has_lanes w (b # bs)" "length bs = 3" "b < 256" by (rule word32_lanes)
  then have "unat (of_nat b :: byte) = b" by (simp add: unat_of_nat)
  with low_byte_lanes [OF l(1)] lower_lanes [OF l(1)] l(2) show ?thesis
    using byte_case_nat(1) [of "of_nat b"] low_byte_lanes
    by (simp add: swar_routines) fastforce
qed

lemma toupper_low_byte: "(ucast (switch_toupper w) :: byte) = ascii_upper (ucast w)"
proof -
  obtain b bs where l: "has_lanes w (b # bs)" "length bs = 3" "b < 256" by (rule word32_lanes)
  then have "unat (of_nat b :: byte) = b" by (simp add: unat_of_nat)
  with low_byte_lanes [OF l(1)] upper_lanes [OF l(1)] l(2) show ?thesis
    using byte_case_nat(2) [of "of_nat b"] low_byte_lanes
    by (simp add: swar_routines) fastforce
qed

section \<open>Properties\<close>

text \<open>C35: the in-place string case mapping, which works on eight bytes at a time with masks and
  carries, gives for every string exactly the byte-wise ASCII upper and lower casing: no carry leaks
  into a neighbouring byte and bytes above 127 are untouched.\<close>

theorem case_max_is_bytewise:
  "switch_toupper_max s = map ascii_upper s \<and> switch_tolower_max s = map ascii_lower s"
proof
  have c: "ucast (scast b :: uint32) = b" for b :: byte
    by (rule bit_eqI) (auto simp: bit_simps)
  show "switch_toupper_max s = map ascii_upper s"
  proof (induction s rule: switch_toupper_max.induct)
    case (1 s)
    then show ?case
      by (subst switch_toupper_max.simps)
        (auto simp: toupper64_bytes toupper_low_byte c simp flip: map_append)
  qed
  show "switch_tolower_max s = map ascii_lower s"
  proof (induction s rule: switch_tolower_max.induct)
    case (1 s)
    then show ?case
      by (subst switch_tolower_max.simps)
        (auto simp: tolower64_bytes tolower_low_byte c simp flip: map_append)
  qed
qed

end
