(* ===== verification/C_String.thy ===== *)
theory C_String
  imports Ascii_Case
begin

text \<open>
  What the modelled code uses of the C library on strings: character codes, \<open>atoi\<close>, \<open>strcasecmp\<close>
  for equality. A string is the list of its characters before the NUL; plain \<open>char\<close> is signed, so a
  character above 127 compares as a negative number.
\<close>

definition char_code :: "char \<Rightarrow> int" where
  "char_code c = (let n = of_char c :: int in if n < 128 then n else n - 256)"

definition char_byte :: "char \<Rightarrow> byte" where
  "char_byte c = of_char c"

definition strcasecmp_eq :: "string \<Rightarrow> string \<Rightarrow> bool" where
  "strcasecmp_eq s t \<longleftrightarrow> map (ascii_lower \<circ> char_byte) s = map (ascii_lower \<circ> char_byte) t"

definition is_digit :: "char \<Rightarrow> bool" where
  "is_digit c \<longleftrightarrow> char_code c > 47 \<and> char_code c < 58"

definition is_space :: "char \<Rightarrow> bool" where
  "is_space c \<longleftrightarrow> c = CHR 0x20 \<or> (char_code c \<ge> 9 \<and> char_code c \<le> 13)"

definition digit_val :: "char \<Rightarrow> int" where
  "digit_val c = char_code c - 48"

fun digits_val :: "int \<Rightarrow> string \<Rightarrow> int" where
  "digits_val acc [] = acc"
| "digits_val acc (c # cs) = (if is_digit c then digits_val (10 * acc + digit_val c) cs else acc)"

text \<open>\<open>atoi\<close>, with the value unbounded: the C function is undefined where it does not fit an \<open>int\<close>.\<close>

definition atoi :: "string \<Rightarrow> int" where
  "atoi s =
     (case dropWhile is_space s of
        [] \<Rightarrow> 0
      | c # cs \<Rightarrow> if c = CHR ''-'' then - digits_val 0 cs
                  else if c = CHR ''+'' then digits_val 0 cs
                  else digits_val 0 (c # cs))"

text \<open>The tests of src/switch\_utils.c and src/include/switch\_utils.h for an empty string, a number and a true value.\<close>

definition zstr :: "string option \<Rightarrow> bool" where
  "zstr s \<longleftrightarrow> s = None \<or> s = Some []"

definition switch_is_number :: "string \<Rightarrow> bool" where
  "switch_is_number str =
     (let s = (case str of [] \<Rightarrow> [] | c # cs \<Rightarrow> if c = CHR ''-'' \<or> c = CHR ''+'' then cs else str)
      in list_all (\<lambda>c. c = CHR ''.'' \<or> is_digit c) s)"

definition switch_true :: "string option \<Rightarrow> bool" where
  "switch_true expr =
     (case expr of None \<Rightarrow> False
      | Some e \<Rightarrow> list_ex (strcasecmp_eq e) [''yes'', ''on'', ''true'', ''t'', ''enabled'', ''active'', ''allow''] \<or>
          (switch_is_number e \<and> atoi e \<noteq> 0))"

text \<open>Printing with \<open>%u\<close>.\<close>

fun decimal :: "nat \<Rightarrow> string" where
  "decimal n = (if n < 10 then [char_of (48 + n)] else decimal (n div 10) @ [char_of (48 + n mod 10)])"

declare decimal.simps [simp del]

lemma digit_char: "n < 10 \<Longrightarrow> is_digit (char_of (48 + n)) \<and> digit_val (char_of (48 + n)) = int n"
  using of_nat_of_char [of "char_of (48 + n)", where 'a = int, symmetric] by (simp add: is_digit_def digit_val_def char_code_def)

lemma decimal_digits: "list_all is_digit (decimal n)"
  by (induction n rule: decimal.induct) (subst decimal.simps, simp add: digit_char)

lemma digits_val_append: "list_all is_digit xs \<Longrightarrow> digits_val acc (xs @ ys) = digits_val (digits_val acc xs) ys"
  by (induction xs arbitrary: acc) simp_all

lemma decimal_value: "digits_val 0 (decimal n) = int n"
proof (induction n rule: decimal.induct)
  case (1 n)
  show ?case
  proof (cases "n < 10")
    case True
    then show ?thesis by (subst decimal.simps) (simp add: digit_char)
  next
    case False
    then show ?thesis using 1 digit_char [of "n mod 10"]
      by (subst decimal.simps) (simp add: digits_val_append decimal_digits zmod_int zdiv_int)
  qed
qed

lemma decimal_nonempty: "decimal n \<noteq> []"
  by (subst decimal.simps) simp

text \<open>What is printed is read back, up to the first character that is no digit.\<close>

lemma atoi_decimal:
  assumes "rest = [] \<or> \<not> is_digit (hd rest)"
  shows "atoi (decimal n @ rest) = int n"
proof -
  obtain c cs where c: "decimal n = c # cs" by (cases "decimal n") (auto simp: decimal_nonempty)
  then have d: "is_digit c" using decimal_digits [of n] by simp
  then have "\<not> is_space c" "c \<noteq> CHR ''-''" "c \<noteq> CHR ''+''" by (auto simp: is_digit_def is_space_def char_code_def)
  then have "atoi (decimal n @ rest) = digits_val 0 (decimal n @ rest)" by (simp add: atoi_def c)
  also have "\<dots> = digits_val (int n) rest" by (simp add: digits_val_append decimal_digits decimal_value)
  also have "\<dots> = int n" using assms by (cases rest) simp_all
  finally show ?thesis .
qed

lemma strcasecmp_equivp: "equivp strcasecmp_eq"
  by (rule equivpI) (auto simp: reflp_def symp_def transp_def strcasecmp_eq_def)

lemma strcasecmp_refl [simp]: "strcasecmp_eq s s"
  by (simp add: strcasecmp_eq_def)

end
