(* ===== verification/Hash_Table.thy ===== *)
theory Hash_Table
  imports C_String "HOL-Library.Multiset"
begin

unbundle bit_operations_syntax

text \<open>
  src/switch\_hashtable.c, its private header and src/switch\_core\_hash.c: the chained hash table
  every registry of the core is kept in. A bucket is the list of its entries, first entry first;
  an entry keeps the mixed hash value of its key. The table starts at a prime length and moves to
  the next prime of the table \<open>primes\<close> when the entry count passes the load limit.
\<close>

section \<open>Hash functions and key equality\<close>

definition switch_hash_equalkeys :: "string \<Rightarrow> string \<Rightarrow> bool" where
  "switch_hash_equalkeys k1 k2 \<longleftrightarrow> k1 = k2"

definition switch_hash_equalkeys_ci :: "string \<Rightarrow> string \<Rightarrow> bool" where
  "switch_hash_equalkeys_ci k1 k2 \<longleftrightarrow> strcasecmp_eq k1 k2"

definition hash_round :: "uint32 \<Rightarrow> uint32 \<Rightarrow> uint32" where
  "hash_round h c = c + push_bit 6 h + push_bit 16 h - h"

fun hash_chars :: "(char \<Rightarrow> uint32) \<Rightarrow> uint32 \<Rightarrow> string \<Rightarrow> uint32" where
  "hash_chars f h [] = h"
| "hash_chars f h (c # cs) = hash_chars f (hash_round h (f c)) cs"

definition switch_hash_default :: "string \<Rightarrow> uint32" where
  "switch_hash_default ky = hash_chars (\<lambda>c. ucast (char_byte c)) 0 ky"

definition switch_hash_default_ci :: "string \<Rightarrow> uint32" where
  "switch_hash_default_ci ky = hash_chars (\<lambda>c. switch_tolower (ucast (char_byte c))) 0 ky"

section \<open>The table\<close>

record ('k, 'v) entry =
  e_k :: 'k
  e_v :: 'v
  e_h :: uint32
  e_flags :: uint32

record ('k, 'v) hashtable =
  tablelength :: nat
  htable :: "('k, 'v) entry list list"
  entrycount :: nat
  loadlimit :: nat
  primeindex :: nat
  hashfn :: "'k \<Rightarrow> uint32"
  eqfn :: "'k \<Rightarrow> 'k \<Rightarrow> bool"

definition HASHTABLE_FLAG_NONE :: uint32 where "HASHTABLE_FLAG_NONE = 0"
definition HASHTABLE_FLAG_FREE_KEY :: uint32 where "HASHTABLE_FLAG_FREE_KEY = 1"
definition HASHTABLE_FLAG_FREE_VALUE :: uint32 where "HASHTABLE_FLAG_FREE_VALUE = 2"

definition primes :: "nat list" where
  "primes = [53, 97, 193, 389, 769, 1543, 3079, 6151, 12289, 24593, 49157, 98317,
     196613, 393241, 786433, 1572869, 3145739, 6291469, 12582917, 25165843,
     50331653, 100663319, 201326611, 402653189, 805306457, 1610612741]"

definition prime_table_length :: nat where
  "prime_table_length = length primes"

text \<open>
  The load limit is \<open>ceil(size * 0.65f)\<close> in single precision: \<open>0.65f\<close> is \<open>10905190 / 2^24\<close>, and
  the size and the product are each rounded to 24 significant bits, ties to even.
\<close>

fun bit_length :: "nat \<Rightarrow> nat" where
  "bit_length n = (if n = 0 then 0 else Suc (bit_length (n div 2)))"

declare bit_length.simps [simp del]

definition float_round :: "nat \<Rightarrow> nat" where
  "float_round m =
     (let s = bit_length m - 24; q = m div 2 ^ s; r = m mod 2 ^ s in
      if s = 0 then m
      else if 2 * r > 2 ^ s \<or> (2 * r = 2 ^ s \<and> odd q) then (q + 1) * 2 ^ s else q * 2 ^ s)"

definition load_limit :: "nat \<Rightarrow> nat" where
  "load_limit sz = (float_round (float_round sz * 10905190) + (2 ^ 24 - 1)) div 2 ^ 24"

definition indexFor :: "nat \<Rightarrow> uint32 \<Rightarrow> nat" where
  "indexFor len hashvalue = unat hashvalue mod len"

definition mix_hash :: "uint32 \<Rightarrow> uint32" where
  "mix_hash i0 =
     (let i = i0 + NOT (push_bit 9 i0);
          i = i XOR (drop_bit 14 i OR push_bit 18 i);
          i = i + push_bit 4 i
      in i XOR (drop_bit 10 i OR push_bit 22 i))"

definition ht_hash :: "('k, 'v) hashtable \<Rightarrow> 'k \<Rightarrow> uint32" where
  "ht_hash h k = mix_hash (hashfn h k)"

fun find_prime :: "nat list \<Rightarrow> nat \<Rightarrow> nat \<Rightarrow> nat \<times> nat" where
  "find_prime [] pindex minsize = (primes ! 0, pindex)"
| "find_prime (p # ps) pindex minsize =
     (if p > minsize then (p, pindex) else find_prime ps (Suc pindex) minsize)"

definition switch_create_hashtable ::
  "nat \<Rightarrow> ('k \<Rightarrow> uint32) \<Rightarrow> ('k \<Rightarrow> 'k \<Rightarrow> bool) \<Rightarrow> switch_status \<times> ('k, 'v) hashtable option" where
  "switch_create_hashtable minsize hashf eqf =
     (if minsize > 2 ^ 30 then (SWITCH_STATUS_FALSE, None)
      else case find_prime primes 0 minsize of (sz, pindex) \<Rightarrow>
        (SWITCH_STATUS_SUCCESS,
         Some \<lparr>tablelength = sz, htable = replicate sz [], entrycount = 0,
               loadlimit = load_limit sz, primeindex = pindex, hashfn = hashf, eqfn = eqf\<rparr>))"

text \<open>
  Moving the entries on expansion: bucket by bucket, entry by entry, each pushed on the front of its
  new bucket.
\<close>

definition push_entry :: "nat \<Rightarrow> ('k, 'v) entry \<Rightarrow> ('k, 'v) entry list list \<Rightarrow> ('k, 'v) entry list list" where
  "push_entry sz e nt = (let i = indexFor sz (e_h e) in nt[i := e # nt ! i])"

text \<open>
  What the allocator answers during one insert: the new table, the fallback \<open>realloc\<close>, the entry.
  The fallback branch clears its new slots through \<open>newtable[h->tablelength]\<close>, an element it
  has not initialised, so the copy has no defined target.
\<close>

record ht_mem =
  mem_newtable :: bool
  mem_realloc :: bool
  mem_entry :: bool

definition hashtable_expand :: "ht_mem \<Rightarrow> ('k, 'v) hashtable \<Rightarrow> fault + (int \<times> ('k, 'v) hashtable)" where
  "hashtable_expand m h =
     (if primeindex h = prime_table_length - 1 then Inr (0, h)
      else let pindex = Suc (primeindex h); newsize = primes ! pindex in
        if mem_newtable m then
          Inr (-1, h\<lparr>primeindex := pindex,
                     htable := fold (push_entry newsize) (concat (htable h)) (replicate newsize []),
                     tablelength := newsize, loadlimit := load_limit newsize\<rparr>)
        else if mem_realloc m then Inl Out_of_bounds
        else Inr (0, h))"

definition switch_hashtable_count :: "('k, 'v) hashtable \<Rightarrow> nat" where
  "switch_hashtable_count h = entrycount h"

definition switch_hashtable_insert ::
  "ht_mem \<Rightarrow> ('k, 'v) hashtable \<Rightarrow> 'k \<Rightarrow> 'v \<Rightarrow> uint32 \<Rightarrow> fault + (int \<times> ('k, 'v) hashtable)" where
  "switch_hashtable_insert m h k v flags =
     (let h1 = h\<lparr>entrycount := entrycount h + 1\<rparr> in
      fbind (if entrycount h1 > loadlimit h1 then hashtable_expand m h1 else Inr (-1, h1)) (\<lambda>(_, h2).
        if \<not> mem_entry m then Inr (0, h2\<lparr>entrycount := entrycount h2 - 1\<rparr>)
        else let e = \<lparr>e_k = k, e_v = v, e_h = ht_hash h2 k, e_flags = flags\<rparr>
             in Inr (-1, h2\<lparr>htable := push_entry (tablelength h2) e (htable h2)\<rparr>)))"

text \<open>The test both walks share: same mixed hash, then the key comparison.\<close>

definition entry_match :: "('k, 'v) hashtable \<Rightarrow> 'k \<Rightarrow> ('k, 'v) entry \<Rightarrow> bool" where
  "entry_match h k e \<longleftrightarrow> ht_hash h k = e_h e \<and> eqfn h k (e_k e)"

fun chain_search :: "(('k, 'v) entry \<Rightarrow> bool) \<Rightarrow> ('k, 'v) entry list \<Rightarrow> 'v option" where
  "chain_search p [] = None"
| "chain_search p (e # es) = (if p e then Some (e_v e) else chain_search p es)"

definition switch_hashtable_search :: "('k, 'v) hashtable \<Rightarrow> 'k \<Rightarrow> 'v option" where
  "switch_hashtable_search h k =
     chain_search (entry_match h k) (htable h ! indexFor (tablelength h) (ht_hash h k))"

fun chain_remove ::
  "(('k, 'v) entry \<Rightarrow> bool) \<Rightarrow> ('k, 'v) entry list \<Rightarrow> (('k, 'v) entry \<times> ('k, 'v) entry list) option" where
  "chain_remove p [] = None"
| "chain_remove p (e # es) =
     (if p e then Some (e, es)
      else case chain_remove p es of None \<Rightarrow> None | Some (r, es') \<Rightarrow> Some (r, e # es'))"

text \<open>Removal also reports the key it frees, when the entry owns its key.\<close>

definition switch_hashtable_remove ::
  "('k, 'v) hashtable \<Rightarrow> 'k \<Rightarrow> 'v option \<times> 'k option \<times> ('k, 'v) hashtable" where
  "switch_hashtable_remove h k =
     (let i = indexFor (tablelength h) (ht_hash h k) in
      case chain_remove (entry_match h k) (htable h ! i) of
        None \<Rightarrow> (None, None, h)
      | Some (e, es) \<Rightarrow>
          (Some (e_v e),
           if e_flags e AND HASHTABLE_FLAG_FREE_KEY \<noteq> 0 then Some (e_k e) else None,
           h\<lparr>htable := (htable h)[i := es], entrycount := entrycount h - 1\<rparr>))"

text \<open>Destruction returns the keys and the values it frees, in order.\<close>

definition switch_hashtable_destroy :: "('k, 'v) hashtable \<Rightarrow> 'k list \<times> 'v list" where
  "switch_hashtable_destroy h =
     (map e_k (filter (\<lambda>e. e_flags e AND HASHTABLE_FLAG_FREE_KEY \<noteq> 0) (concat (htable h))),
      map e_v (filter (\<lambda>e. e_flags e AND HASHTABLE_FLAG_FREE_VALUE \<noteq> 0) (concat (htable h))))"

section \<open>Iteration\<close>

text \<open>An iterator is a bucket number and the rest of its chain from the current entry on.\<close>

record ('k, 'v) ht_iter =
  it_pos :: nat
  it_e :: "('k, 'v) entry list"

function skip_empty :: "('k, 'v) hashtable \<Rightarrow> nat \<Rightarrow> nat" where
  "skip_empty h pos =
     (if pos < tablelength h \<and> htable h ! pos = [] then skip_empty h (Suc pos) else pos)"
  by pat_completeness auto
termination
  by (relation "measure (\<lambda>(h, pos). tablelength h - pos)") auto

declare skip_empty.simps [simp del]

definition switch_hashtable_next ::
  "('k, 'v) hashtable \<Rightarrow> ('k, 'v) ht_iter \<Rightarrow> ('k, 'v) ht_iter option" where
  "switch_hashtable_next h i =
     (if it_e i \<noteq> [] \<and> tl (it_e i) \<noteq> [] then Some (i\<lparr>it_e := tl (it_e i)\<rparr>)
      else let pos = skip_empty h (if it_e i \<noteq> [] then Suc (it_pos i) else it_pos i) in
           if pos \<ge> tablelength h then None
           else if htable h ! pos \<noteq> [] then Some \<lparr>it_pos = pos, it_e = htable h ! pos\<rparr> else None)"

definition switch_hashtable_first :: "('k, 'v) hashtable \<Rightarrow> ('k, 'v) ht_iter option" where
  "switch_hashtable_first h = switch_hashtable_next h \<lparr>it_pos = 0, it_e = []\<rparr>"

definition switch_hashtable_this :: "('k, 'v) ht_iter \<Rightarrow> ('k \<times> 'v) option" where
  "switch_hashtable_this i =
     (case it_e i of [] \<Rightarrow> None | e # _ \<Rightarrow> Some (e_k e, e_v e))"

lemma skip_empty_ge: "pos \<le> skip_empty h pos"
proof (induction h pos rule: skip_empty.induct)
  case (1 h pos)
  then show ?case by (subst skip_empty.simps) auto
qed

text \<open>
  The client's loop \<open>for (hi = first; hi; hi = next)\<close>, collecting what \<open>this\<close> shows; an iterator
  that is handed out always stands on an entry.
\<close>

function ht_walk :: "('k, 'v) hashtable \<Rightarrow> ('k, 'v) ht_iter option \<Rightarrow> ('k \<times> 'v) list" where
  "ht_walk h None = []"
| "ht_walk h (Some i) =
     (case switch_hashtable_this i of
        None \<Rightarrow> []
      | Some kv \<Rightarrow> kv # ht_walk h (switch_hashtable_next h i))"
  by pat_completeness auto
termination
proof (relation "measures [\<lambda>(h, i). case i of None \<Rightarrow> 0 | Some i \<Rightarrow> tablelength h - it_pos i,
                           \<lambda>(h, i). case i of None \<Rightarrow> 0 | Some i \<Rightarrow> Suc (length (it_e i))]")
  fix h :: "('a, 'b) hashtable" and i :: "('a, 'b) ht_iter" and kv
  assume "switch_hashtable_this i = Some kv"
  then have ne: "it_e i \<noteq> []" by (auto simp: switch_hashtable_this_def)
  have "Suc (it_pos i) \<le> skip_empty h (Suc (it_pos i))" by (rule skip_empty_ge)
  with ne show "((h, switch_hashtable_next h i), (h, Some i)) \<in>
    measures [\<lambda>(h, i). case i of None \<Rightarrow> 0 | Some i \<Rightarrow> tablelength h - it_pos i,
              \<lambda>(h, i). case i of None \<Rightarrow> 0 | Some i \<Rightarrow> Suc (length (it_e i))]"
    by (auto simp: switch_hashtable_next_def Let_def)
qed simp

section \<open>The core's wrappers\<close>

definition switch_core_hash_init_case :: "bool \<Rightarrow> switch_status \<times> (string, 'v) hashtable option" where
  "switch_core_hash_init_case case_sensitive =
     (if case_sensitive then switch_create_hashtable 16 switch_hash_default switch_hash_equalkeys
      else switch_create_hashtable 16 switch_hash_default_ci switch_hash_equalkeys_ci)"

definition switch_core_hash_insert ::
  "ht_mem \<Rightarrow> (string, 'v) hashtable \<Rightarrow> string \<Rightarrow> 'v \<Rightarrow> fault + (switch_status \<times> (string, 'v) hashtable)" where
  "switch_core_hash_insert m hash key data =
     fbind (switch_hashtable_insert m hash key data HASHTABLE_FLAG_FREE_KEY) (\<lambda>(_, h).
       Inr (SWITCH_STATUS_SUCCESS, h))"

definition switch_core_hash_delete ::
  "(string, 'v) hashtable \<Rightarrow> string \<Rightarrow> switch_status \<times> (string, 'v) hashtable" where
  "switch_core_hash_delete hash key = (SWITCH_STATUS_SUCCESS, snd (snd (switch_hashtable_remove hash key)))"

definition switch_core_hash_find :: "(string, 'v) hashtable \<Rightarrow> string \<Rightarrow> 'v option" where
  "switch_core_hash_find hash key = switch_hashtable_search hash key"

section \<open>Invariant\<close>

definition ht_entries :: "('k, 'v) hashtable \<Rightarrow> ('k, 'v) entry list" where
  "ht_entries h = concat (htable h)"

definition buckets_ok :: "nat \<Rightarrow> ('k, 'v) entry list list \<Rightarrow> bool" where
  "buckets_ok n t \<longleftrightarrow> length t = n \<and> (\<forall>i < n. \<forall>e \<in> set (t ! i). indexFor n (e_h e) = i)"

definition ht_shape :: "('k, 'v) hashtable \<Rightarrow> bool" where
  "ht_shape h \<longleftrightarrow>
     buckets_ok (tablelength h) (htable h) \<and>
     primeindex h < prime_table_length \<and> tablelength h = primes ! primeindex h"

definition ht_wf :: "('k, 'v) hashtable \<Rightarrow> bool" where
  "ht_wf h \<longleftrightarrow>
     ht_shape h \<and>
     (\<forall>e \<in> set (ht_entries h). e_h e = ht_hash h (e_k e)) \<and>
     entrycount h = length (ht_entries h)"

lemma primes_pos: "i < prime_table_length \<Longrightarrow> 0 < primes ! i"
proof -
  assume "i < prime_table_length"
  moreover have "\<forall>p \<in> set primes. 0 < p" by (simp add: primes_def)
  ultimately show ?thesis by (simp add: prime_table_length_def)
qed

lemma ht_wf_pos: "ht_wf h \<Longrightarrow> 0 < tablelength h"
  by (simp add: ht_wf_def ht_shape_def primes_pos)

lemma indexFor_less: "0 < n \<Longrightarrow> indexFor n x < n"
  by (simp add: indexFor_def)

lemma concat_update_mset:
  "i < length t \<Longrightarrow> mset (concat (t[i := xs])) + mset (t ! i) = mset (concat t) + mset xs"
proof (induction t arbitrary: i)
  case (Cons y t)
  then show ?case
    by (cases i) (auto simp: ac_simps)
qed simp

lemma push_entry_ok:
  assumes "buckets_ok n t" "0 < n"
  shows "buckets_ok n (push_entry n e t)" "mset (concat (push_entry n e t)) = add_mset e (mset (concat t))"
proof -
  let ?i = "indexFor n (e_h e)"
  have i: "?i < length t" using assms by (simp add: buckets_ok_def indexFor_less)
  show "buckets_ok n (push_entry n e t)"
    using assms i by (auto simp: buckets_ok_def push_entry_def Let_def nth_list_update)
  show "mset (concat (push_entry n e t)) = add_mset e (mset (concat t))"
    using concat_update_mset [OF i, of "e # t ! ?i"] by (simp add: push_entry_def Let_def)
qed

lemma push_entries_ok:
  assumes "buckets_ok n t" "0 < n"
  shows "buckets_ok n (fold (push_entry n) es t) \<and>
         mset (concat (fold (push_entry n) es t)) = mset es + mset (concat t)"
  using assms by (induction es arbitrary: t) (simp_all add: push_entry_ok)

lemma buckets_ok_empty: "buckets_ok n (replicate n [])"
  by (simp add: buckets_ok_def)

lemma concat_replicate_Nil: "concat (replicate n []) = []"
  by (induction n) simp_all

lemma create_find_prime:
  assumes "minsize \<le> 2 ^ 30"
  shows "\<exists>i. find_prime primes 0 minsize = (primes ! i, i) \<and> i < prime_table_length \<and> minsize < primes ! i"
proof -
  have "\<exists>i. find_prime ps j minsize = (ps ! i, j + i) \<and> i < length ps \<and> minsize < ps ! i"
    if "\<exists>p \<in> set ps. minsize < p" for ps j
    using that
  proof (induction ps arbitrary: j)
    case (Cons p ps)
    show ?case
    proof (cases "minsize < p")
      case False
      with Cons obtain i where "find_prime ps (Suc j) minsize = (ps ! i, Suc j + i)"
        "i < length ps" "minsize < ps ! i" by (metis set_ConsD)
      with False show ?thesis by (intro exI [of _ "Suc i"]) simp
    qed auto
  qed simp
  moreover have "\<exists>p \<in> set primes. minsize < p"
    using assms by (intro bexI [of _ 1610612741]) (auto simp: primes_def)
  ultimately show ?thesis by (metis add_0 prime_table_length_def)
qed

lemma create_wf:
  assumes "minsize \<le> 2 ^ 30"
  shows "\<exists>h. switch_create_hashtable minsize f g = (SWITCH_STATUS_SUCCESS, Some h) \<and>
             ht_wf h \<and> ht_entries h = [] \<and> hashfn h = f \<and> eqfn h = g"
  using create_find_prime [OF assms] assms
  by (auto simp: switch_create_hashtable_def ht_wf_def ht_shape_def ht_entries_def buckets_ok_empty concat_replicate_Nil)

section \<open>The operations keep the invariant\<close>

text \<open>What expansion keeps: the entries as a multiset, the functions and the counter.\<close>

definition ht_same :: "('k, 'v) hashtable \<Rightarrow> ('k, 'v) hashtable \<Rightarrow> bool" where
  "ht_same h h' \<longleftrightarrow> mset (ht_entries h') = mset (ht_entries h) \<and> hashfn h' = hashfn h \<and>
     eqfn h' = eqfn h \<and> entrycount h' = entrycount h"

lemma expand_spec:
  assumes wf: "ht_shape h" and mem: "mem_newtable m \<or> \<not> mem_realloc m"
  shows "\<exists>r h'. hashtable_expand m h = Inr (r, h') \<and> ht_shape h' \<and> ht_same h h'"
proof (cases "primeindex h = prime_table_length - 1 \<or> \<not> mem_newtable m")
  case True
  then show ?thesis
    using wf mem by (auto simp: hashtable_expand_def Let_def ht_same_def)
next
  case False
  let ?n = "primes ! Suc (primeindex h)"
  have i: "Suc (primeindex h) < prime_table_length" using False wf by (auto simp: ht_shape_def)
  note ok = push_entries_ok [OF buckets_ok_empty primes_pos [OF i], of "concat (htable h)"]
  show ?thesis
    using False i ok
    by (auto simp: hashtable_expand_def Let_def ht_entries_def concat_replicate_Nil ht_same_def ht_shape_def)
qed

lemma ht_hash_same: "ht_same h h' \<Longrightarrow> ht_hash h' k = ht_hash h k"
  by (simp add: ht_same_def ht_hash_def)

lemma set_same: "ht_same h h' \<Longrightarrow> set (ht_entries h') = set (ht_entries h)"
  by (metis ht_same_def set_mset_mset)

lemma length_same: "ht_same h h' \<Longrightarrow> length (ht_entries h') = length (ht_entries h)"
  by (metis ht_same_def size_mset)

definition new_entry :: "('k, 'v) hashtable \<Rightarrow> 'k \<Rightarrow> 'v \<Rightarrow> uint32 \<Rightarrow> ('k, 'v) entry" where
  "new_entry h k v flags = \<lparr>e_k = k, e_v = v, e_h = ht_hash h k, e_flags = flags\<rparr>"

lemma insert_spec:
  assumes wf: "ht_wf h" and mem: "mem_newtable m \<or> \<not> mem_realloc m" and ent: "mem_entry m"
  shows "\<exists>h'. switch_hashtable_insert m h k v flags = Inr (-1, h') \<and> ht_wf h' \<and>
     hashfn h' = hashfn h \<and> eqfn h' = eqfn h \<and>
     mset (ht_entries h') = add_mset (new_entry h k v flags) (mset (ht_entries h))"
proof -
  let ?h1 = "h\<lparr>entrycount := entrycount h + 1\<rparr>"
  have s1: "ht_shape ?h1" using wf by (auto simp: ht_wf_def ht_shape_def)
  then obtain r2 h2 where
    h2: "(if entrycount ?h1 > loadlimit ?h1 then hashtable_expand m ?h1 else Inr (-1, ?h1)) = Inr (r2, h2)"
    "ht_shape h2" "ht_same ?h1 h2"
    using expand_spec [OF s1 mem] by (cases "entrycount ?h1 > loadlimit ?h1") (auto simp: ht_same_def)
  have e: "new_entry h2 k v flags = new_entry h k v flags"
    using h2(3) by (simp add: new_entry_def ht_hash_def ht_same_def)
  let ?h3 = "h2\<lparr>htable := push_entry (tablelength h2) (new_entry h2 k v flags) (htable h2)\<rparr>"
  have pos: "0 < tablelength h2" using h2(2) by (simp add: ht_shape_def primes_pos)
  have p: "buckets_ok (tablelength h2) (htable ?h3)"
    "mset (ht_entries ?h3) = add_mset (new_entry h k v flags) (mset (ht_entries h))"
    using push_entry_ok [of "tablelength h2" "htable h2" "new_entry h2 k v flags"] h2 pos e
    by (auto simp: ht_shape_def ht_same_def ht_entries_def)
  then have "set (ht_entries ?h3) = insert (new_entry h k v flags) (set (ht_entries h))"
    by (metis set_mset_add_mset_insert set_mset_mset)
  moreover have "length (ht_entries ?h3) = Suc (length (ht_entries h))"
    using p(2) by (metis size_add_mset size_mset)
  ultimately have "ht_wf ?h3"
    using p h2 wf by (auto simp: ht_wf_def ht_shape_def ht_same_def ht_hash_def new_entry_def)
  moreover have "switch_hashtable_insert m h k v flags = Inr (-1, ?h3)"
    unfolding switch_hashtable_insert_def Let_def h2(1) using ent by (simp add: new_entry_def)
  ultimately show ?thesis using p h2(3) by (auto simp: ht_same_def)
qed

lemma chain_remove_None: "chain_remove p es = None \<longleftrightarrow> (\<forall>e\<in>set es. \<not> p e)"
  by (induction es) (auto split: option.splits)

lemma chain_remove_Some:
  "chain_remove p es = Some (r, es') \<Longrightarrow> p r \<and> r \<in> set es \<and> mset es = add_mset r (mset es')"
  by (induction es arbitrary: es') (auto split: if_splits option.splits)

lemma chain_search_eq: "chain_search p es = map_option (e_v \<circ> fst) (chain_remove p es)"
  by (induction es) (auto split: option.splits)

lemma remove_None_spec:
  assumes "chain_remove (entry_match h k) (htable h ! indexFor (tablelength h) (ht_hash h k)) = None"
  shows "switch_hashtable_remove h k = (None, None, h)"
  using assms by (simp add: switch_hashtable_remove_def Let_def)

lemma bucket_subset:
  "ht_wf h \<Longrightarrow> set (htable h ! indexFor (tablelength h) x) \<subseteq> set (ht_entries h)"
  using indexFor_less [OF ht_wf_pos] by (fastforce simp: ht_wf_def ht_shape_def buckets_ok_def ht_entries_def)

lemma buckets_ok_update:
  assumes "buckets_ok n t" "i < length t" "set es \<subseteq> set (t ! i)"
  shows "buckets_ok n (t[i := es])"
  using assms unfolding buckets_ok_def by (metis length_list_update nth_list_update subsetD)

lemma remove_Some_spec:
  assumes wf: "ht_wf h"
    and rem: "chain_remove (entry_match h k) (htable h ! indexFor (tablelength h) (ht_hash h k)) = Some (e, es)"
  shows "\<exists>fk h'. switch_hashtable_remove h k = (Some (e_v e), fk, h') \<and> ht_wf h' \<and>
     hashfn h' = hashfn h \<and> eqfn h' = eqfn h \<and> mset (ht_entries h) = add_mset e (mset (ht_entries h'))"
proof -
  let ?i = "indexFor (tablelength h) (ht_hash h k)"
  let ?h' = "h\<lparr>htable := (htable h)[?i := es], entrycount := entrycount h - 1\<rparr>"
  have i: "?i < length (htable h)"
    using wf indexFor_less [OF ht_wf_pos [OF wf]] by (simp add: ht_wf_def ht_shape_def buckets_ok_def)
  have b: "mset (htable h ! ?i) = add_mset e (mset es)" using chain_remove_Some [OF rem] by blast
  have m: "mset (ht_entries h) = add_mset e (mset (ht_entries ?h'))"
    using concat_update_mset [OF i, of es] b by (simp add: ht_entries_def)
  have "set es \<subseteq> set (htable h ! ?i)" using b by (metis set_mset_mset set_mset_add_mset_insert subset_insertI)
  then have "buckets_ok (tablelength h) ((htable h)[?i := es])"
    using wf i by (intro buckets_ok_update) (auto simp: ht_wf_def ht_shape_def)
  moreover have "set (ht_entries ?h') \<subseteq> set (ht_entries h)"
    using m by (metis set_mset_mset set_mset_add_mset_insert subset_insertI)
  moreover have "length (ht_entries h) = Suc (length (ht_entries ?h'))" using m by (metis size_add_mset size_mset)
  ultimately have "ht_wf ?h'" using wf by (auto simp: ht_wf_def ht_shape_def ht_hash_def)
  then show ?thesis using m rem by (auto simp: switch_hashtable_remove_def Let_def)
qed

section \<open>The key interface, and the table as a dictionary\<close>

text \<open>
  What the table relies on: key equality is an equivalence and equal keys hash alike. Under these
  laws a search finds an entry exactly when one with an equal key is stored.
\<close>

definition keys_unique :: "('k \<Rightarrow> 'k \<Rightarrow> bool) \<Rightarrow> ('k, 'v) entry list \<Rightarrow> bool" where
  "keys_unique eq es \<longleftrightarrow> (\<forall>e\<in>set es. length (filter (\<lambda>e'. eq (e_k e) (e_k e')) es) \<le> 1)"

lemma keys_unique_mset: "mset es = mset es' \<Longrightarrow> keys_unique eq es = keys_unique eq es'"
  unfolding keys_unique_def
  by (metis mset_filter set_mset_mset size_mset)

lemma keys_unique_distinct: "keys_unique (=) es \<Longrightarrow> distinct (map e_k es)"
proof (induction es)
  case (Cons e es)
  then have "filter (\<lambda>e'. e_k e = e_k e') es = []" by (simp add: keys_unique_def)
  moreover have "keys_unique (=) es"
    using Cons.prems by (auto simp: keys_unique_def split: if_splits)
  ultimately show ?case using Cons.IH by (auto simp: filter_empty_conv)
qed simp

datatype ('k, 'v) dict_op = Dict_put 'k 'v | Dict_get 'k | Dict_del 'k

definition mem_plenty :: ht_mem where
  "mem_plenty = \<lparr>mem_newtable = True, mem_realloc = True, mem_entry = True\<rparr>"

fun ht_step :: "('k, 'v) dict_op \<Rightarrow> ('k, 'v) hashtable \<Rightarrow> 'v option \<times> ('k, 'v) hashtable" where
  "ht_step (Dict_get k) h = (switch_hashtable_search h k, h)"
| "ht_step (Dict_del k) h = (case switch_hashtable_remove h k of (v, _, h') \<Rightarrow> (v, h'))"
| "ht_step (Dict_put k v) h =
     (case switch_hashtable_remove h k of (old, _, h1) \<Rightarrow>
        (case switch_hashtable_insert mem_plenty h1 k v HASHTABLE_FLAG_FREE_KEY of
           Inl _ \<Rightarrow> (old, h1) | Inr (_, h2) \<Rightarrow> (old, h2)))"

fun dict_step ::
  "('k \<Rightarrow> 'k \<Rightarrow> bool) \<Rightarrow> ('k, 'v) dict_op \<Rightarrow> ('k \<Rightarrow> 'v option) \<Rightarrow> 'v option \<times> ('k \<Rightarrow> 'v option)" where
  "dict_step eq (Dict_get k) m = (m k, m)"
| "dict_step eq (Dict_del k) m = (m k, \<lambda>k'. if eq k k' then None else m k')"
| "dict_step eq (Dict_put k v) m = (m k, \<lambda>k'. if eq k k' then Some v else m k')"

definition dict_inv :: "('k \<Rightarrow> uint32) \<Rightarrow> ('k \<Rightarrow> 'k \<Rightarrow> bool) \<Rightarrow> ('k, 'v) hashtable \<Rightarrow> bool" where
  "dict_inv hf eq h \<longleftrightarrow> ht_wf h \<and> hashfn h = hf \<and> eqfn h = eq \<and> keys_unique eq (ht_entries h)"

locale hash_keys =
  fixes hf :: "'k \<Rightarrow> uint32"
    and eq :: "'k \<Rightarrow> 'k \<Rightarrow> bool"
  assumes eq_equiv: "equivp eq"
    and eq_hash: "eq a b \<Longrightarrow> hf a = hf b"
begin

lemma eq_refl: "eq a a"
  using eq_equiv by (simp add: equivp_reflp)

lemma eq_cong: "eq a b \<Longrightarrow> eq a = eq b"
  using eq_equiv by (simp add: equivp_def)

lemma eq_sym: "eq a b \<Longrightarrow> eq b a"
  using eq_equiv by (rule equivp_symp)

lemma match_iff:
  assumes "ht_wf h" "hashfn h = hf" "eqfn h = eq" "e \<in> set (ht_entries h)"
  shows "entry_match h k e \<longleftrightarrow> eq k (e_k e)"
  using assms eq_hash [of k "e_k e"] by (auto simp: entry_match_def ht_wf_def ht_hash_def)

lemma in_bucket:
  assumes "ht_wf h" "hashfn h = hf" "eqfn h = eq" "e \<in> set (ht_entries h)" "eq k (e_k e)"
  shows "e \<in> set (htable h ! indexFor (tablelength h) (ht_hash h k))"
proof -
  from assms(4) obtain b where b: "b \<in> set (htable h)" "e \<in> set b"
    by (auto simp: ht_entries_def)
  then obtain i where i: "i < length (htable h)" "e \<in> set (htable h ! i)"
    by (auto simp: in_set_conv_nth [of b])
  then have "indexFor (tablelength h) (e_h e) = i"
    using assms(1) by (auto simp: ht_wf_def ht_shape_def buckets_ok_def)
  moreover have "e_h e = ht_hash h k"
    using assms eq_hash [OF assms(5)] by (simp add: ht_wf_def ht_hash_def)
  ultimately show ?thesis using i by simp
qed

lemma search_None:
  assumes "ht_wf h" "hashfn h = hf" "eqfn h = eq"
  shows "switch_hashtable_search h k = None \<longleftrightarrow> (\<forall>e\<in>set (ht_entries h). \<not> eq k (e_k e))"
  using match_iff [OF assms] in_bucket [OF assms] bucket_subset [OF assms(1)]
  by (fastforce simp: switch_hashtable_search_def chain_search_eq chain_remove_None)

lemma search_Some:
  assumes "ht_wf h" "hashfn h = hf" "eqfn h = eq" "switch_hashtable_search h k = Some v"
  shows "\<exists>e\<in>set (ht_entries h). eq k (e_k e) \<and> e_v e = v"
  using assms(4) match_iff [OF assms(1-3)] bucket_subset [OF assms(1)]
  by (fastforce simp: switch_hashtable_search_def chain_search_eq dest: chain_remove_Some)

lemma unique_entry:
  assumes "keys_unique eq es" "e \<in> set es" "e' \<in> set es" "eq k (e_k e)" "eq k (e_k e')"
  shows "e = e'"
proof (rule ccontr)
  assume ne: "e \<noteq> e'"
  let ?f = "filter (\<lambda>x. eq (e_k e) (e_k x)) es"
  have "eq (e_k e) (e_k e')" using assms(4,5) eq_cong by metis
  then have "{e, e'} \<subseteq> set ?f" using assms(2,3) by (simp add: eq_refl)
  then have "card {e, e'} \<le> card (set ?f)" by (simp add: card_mono)
  also have "\<dots> \<le> length ?f" by (rule card_length)
  also have "\<dots> \<le> 1" using assms(1,2) by (simp add: keys_unique_def)
  finally show False using ne by simp
qed

lemma search_unique:
  assumes "dict_inv hf eq h" "e \<in> set (ht_entries h)" "eq k (e_k e)"
  shows "switch_hashtable_search h k = Some (e_v e)"
proof -
  from assms(1) have h: "ht_wf h" "hashfn h = hf" "eqfn h = eq" "keys_unique eq (ht_entries h)"
    by (auto simp: dict_inv_def)
  from assms search_None [OF h(1-3)] obtain v where v: "switch_hashtable_search h k = Some v" by fastforce
  from search_Some [OF h(1-3) v] unique_entry [OF h(4)] assms(2,3) v show ?thesis by metis
qed

lemma search_char:
  assumes "dict_inv hf eq h"
  shows "switch_hashtable_search h k = Some v \<longleftrightarrow> (\<exists>e\<in>set (ht_entries h). eq k (e_k e) \<and> e_v e = v)"
  using assms search_unique search_Some by (metis (mono_tags, lifting) dict_inv_def)

lemma search_ext:
  assumes "dict_inv hf eq h" "\<And>v. g = Some v \<longleftrightarrow> (\<exists>e\<in>set (ht_entries h). eq k (e_k e) \<and> e_v e = v)"
  shows "switch_hashtable_search h k = g"
  using search_char [OF assms(1), of k] assms(2) by (cases g) (metis option.exhaust)+

lemma keys_unique_add:
  assumes "mset es' = add_mset e (mset es)"
  shows "keys_unique eq es' \<longleftrightarrow> keys_unique eq es \<and> (\<forall>x\<in>set es. \<not> eq (e_k e) (e_k x))"
proof -
  let ?f = "\<lambda>x xs. filter (\<lambda>y. eq (e_k x) (e_k y)) xs"
  have "keys_unique eq es' = keys_unique eq (e # es)" using assms by (intro keys_unique_mset) simp
  also have "\<dots> \<longleftrightarrow> ?f e es = [] \<and> (\<forall>x\<in>set es. length (?f x (e # es)) \<le> 1)"
    by (simp add: keys_unique_def eq_refl)
  also have "\<dots> \<longleftrightarrow> ?f e es = [] \<and> (\<forall>x\<in>set es. length (?f x es) \<le> 1)"
  proof (rule conj_cong [OF refl], rule ball_cong [OF refl])
    fix x assume "?f e es = []" "x \<in> set es"
    then have "\<not> eq (e_k x) (e_k e)" using eq_sym by (auto simp: filter_empty_conv)
    then show "length (?f x (e # es)) \<le> 1 \<longleftrightarrow> length (?f x es) \<le> 1" by simp
  qed
  finally show ?thesis by (auto simp: keys_unique_def filter_empty_conv)
qed

lemma del_effect:
  assumes inv: "dict_inv hf eq h" and rem: "switch_hashtable_remove h k = (v, fk, h')"
  shows "v = switch_hashtable_search h k \<and> dict_inv hf eq h' \<and>
     (\<forall>k'. switch_hashtable_search h' k' = (if eq k k' then None else switch_hashtable_search h k')) \<and>
     (\<forall>e\<in>set (ht_entries h'). \<not> eq k (e_k e))"
proof -
  let ?b = "htable h ! indexFor (tablelength h) (ht_hash h k)"
  from inv have h: "ht_wf h" "hashfn h = hf" "eqfn h = eq" "keys_unique eq (ht_entries h)"
    by (auto simp: dict_inv_def)
  show ?thesis
  proof (cases "chain_remove (entry_match h k) ?b")
    case None
    then have r: "v = None" "h' = h" using rem remove_None_spec [OF None] by auto
    have s: "switch_hashtable_search h k = None"
      using None by (simp add: switch_hashtable_search_def chain_search_eq)
    then have "\<forall>e\<in>set (ht_entries h). \<not> eq k (e_k e)" using search_None [OF h(1-3)] by simp
    moreover have "switch_hashtable_search h k' = None" if "eq k k'" for k'
      using search_None [OF h(1-3)] calculation eq_cong [OF that] by simp
    ultimately show ?thesis using r s inv by auto
  next
    case (Some p)
    then obtain e es where p: "chain_remove (entry_match h k) ?b = Some (e, es)" by (cases p) simp
    from remove_Some_spec [OF h(1) p] rem have r: "v = Some (e_v e)" "ht_wf h'" "hashfn h' = hf" "eqfn h' = eq"
      "mset (ht_entries h) = add_mset e (mset (ht_entries h'))" using h by auto
    have e: "e \<in> set (ht_entries h)" "eq k (e_k e)"
      using chain_remove_Some [OF p] bucket_subset [OF h(1)] match_iff [OF h(1-3)] by blast+
    have u: "keys_unique eq (ht_entries h')" "\<forall>x\<in>set (ht_entries h'). \<not> eq (e_k e) (e_k x)"
      using keys_unique_add [OF r(5)] h(4) by auto
    have inv': "dict_inv hf eq h'" using r u by (simp add: dict_inv_def)
    have S: "set (ht_entries h) = insert e (set (ht_entries h'))"
      using r(5) by (metis set_mset_mset set_mset_add_mset_insert)
    have ek: "eq k = eq (e_k e)" using eq_cong [OF e(2)] .
    have "switch_hashtable_search h' k' = (if eq k k' then None else switch_hashtable_search h k')" for k'
    proof (cases "eq k k'")
      case True
      then show ?thesis using search_None [OF r(2-4)] u(2) ek eq_cong [OF True] by simp
    next
      case False
      then have "\<not> eq k' (e_k e)" using ek eq_sym by metis
      then show ?thesis using False search_char [OF inv, of k'] S by (auto intro!: search_ext [OF inv'])
    qed
    moreover have "switch_hashtable_search h k = Some (e_v e)" by (rule search_unique [OF inv e])
    ultimately show ?thesis using r inv' u ek by simp
  qed
qed

lemma put_effect:
  assumes inv: "dict_inv hf eq h" and fresh: "\<forall>e\<in>set (ht_entries h). \<not> eq k (e_k e)"
  shows "\<exists>h'. switch_hashtable_insert mem_plenty h k v fl = Inr (-1, h') \<and> dict_inv hf eq h' \<and>
     (\<forall>k'. switch_hashtable_search h' k' = (if eq k k' then Some v else switch_hashtable_search h k'))"
proof -
  from inv have h: "ht_wf h" "hashfn h = hf" "eqfn h = eq" "keys_unique eq (ht_entries h)"
    by (auto simp: dict_inv_def)
  from insert_spec [OF h(1), of mem_plenty k v fl] obtain h' where
    r: "switch_hashtable_insert mem_plenty h k v fl = Inr (-1, h')" "ht_wf h'" "hashfn h' = hf" "eqfn h' = eq"
    "mset (ht_entries h') = add_mset (new_entry h k v fl) (mset (ht_entries h))"
    using h by (auto simp: mem_plenty_def)
  have inv': "dict_inv hf eq h'"
    using r h fresh keys_unique_add [OF r(5)] by (simp add: dict_inv_def new_entry_def)
  have S: "set (ht_entries h') = insert (new_entry h k v fl) (set (ht_entries h))"
    using r(5) by (metis set_mset_mset set_mset_add_mset_insert)
  have "switch_hashtable_search h' k' = (if eq k k' then Some v else switch_hashtable_search h k')" for k'
  proof (cases "eq k k'")
    case True
    then show ?thesis
      using search_unique [OF inv', of "new_entry h k v fl" k'] S eq_sym by (simp add: new_entry_def)
  next
    case False
    then have "\<not> eq k' k" using eq_sym by metis
    then show ?thesis
      using False search_char [OF inv, of k'] S by (auto simp: new_entry_def intro!: search_ext [OF inv'])
  qed
  then show ?thesis using r inv' by blast
qed

lemma ht_step_refines:
  assumes "dict_inv hf eq h"
  shows "dict_inv hf eq (snd (ht_step x h)) \<and>
     fst (ht_step x h) = fst (dict_step eq x (switch_hashtable_search h)) \<and>
     switch_hashtable_search (snd (ht_step x h)) = snd (dict_step eq x (switch_hashtable_search h))"
proof (cases x)
  case (Dict_get k)
  then show ?thesis using assms by simp
next
  case (Dict_del k)
  obtain v fk h' where "switch_hashtable_remove h k = (v, fk, h')" by (metis prod_cases3)
  then show ?thesis using Dict_del del_effect [OF assms] by auto
next
  case (Dict_put k v)
  obtain old fk h1 where rem: "switch_hashtable_remove h k = (old, fk, h1)" by (metis prod_cases3)
  note d = del_effect [OF assms rem]
  obtain h' where "switch_hashtable_insert mem_plenty h1 k v HASHTABLE_FLAG_FREE_KEY = Inr (-1, h')"
    "dict_inv hf eq h'"
    "\<forall>k'. switch_hashtable_search h' k' = (if eq k k' then Some v else switch_hashtable_search h1 k')"
    using put_effect [of h1 k v HASHTABLE_FLAG_FREE_KEY] d by metis
  then show ?thesis using Dict_put rem d by auto
qed

end

sublocale hash_keys \<subseteq> dict: data_refinement "dict_inv hf eq" switch_hashtable_search ht_step "dict_step eq"
  using ht_step_refines by unfold_locales auto

section \<open>The two key disciplines of the core\<close>

lemma unat_byte_word: "unat (ucast (b :: byte) :: uint32) = unat b" "unat b < 256"
proof -
  show l: "unat b < 256" using unsigned_less [of b, where ?'a = nat] by simp
  then have "unat b < 2 ^ 32" by simp
  then show "unat (ucast b :: uint32) = unat b" by (simp add: unsigned_ucast_eq take_bit_nat_eq_self)
qed

lemma tolower_byte: "switch_tolower (ucast (b :: byte)) = ucast (ascii_lower b)"
proof -
  have u: "has_lanes (ucast b :: uint32) [unat b, 0, 0, 0]"
    by (simp add: has_lanes_def unat_byte_word)
  have "unat (switch_tolower (ucast b)) = lower_nat (unat b)"
    using lower_lanes [OF u] by (simp add: swar_routines has_lanes_def lower_nat_def numeral_eq_Suc)
  also have "\<dots> = unat (ascii_lower b)"
    by (auto simp: lower_nat_def ascii_lower_def word_le_nat_alt unat_word_ariths)
  also have "\<dots> = unat (ucast (ascii_lower b) :: uint32)"
    by (simp add: unat_byte_word)
  finally show ?thesis by (simp add: word_unat_eq_iff)
qed

lemma hash_chars_map:
  "map f s = map g t \<Longrightarrow> hash_chars f h s = hash_chars g h t"
  by (induction s arbitrary: t h) (auto simp: map_eq_Cons_conv)

lemma hash_default_ci_eq:
  assumes "switch_hash_equalkeys_ci a b"
  shows "switch_hash_default_ci a = switch_hash_default_ci b"
  unfolding switch_hash_default_ci_def
proof (rule hash_chars_map)
  have "map (\<lambda>c. ascii_lower (char_byte c)) a = map (\<lambda>c. ascii_lower (char_byte c)) b"
    using assms by (simp add: switch_hash_equalkeys_ci_def strcasecmp_eq_def o_def)
  then have "map ucast (map (\<lambda>c. ascii_lower (char_byte c)) a) = map ucast (map (\<lambda>c. ascii_lower (char_byte c)) b)"
    by simp
  then show "map (\<lambda>c. switch_tolower (ucast (char_byte c))) a = map (\<lambda>c. switch_tolower (ucast (char_byte c))) b"
    by (simp add: tolower_byte o_def)
qed

interpretation cs_keys: hash_keys switch_hash_default switch_hash_equalkeys
  by unfold_locales (auto simp: switch_hash_equalkeys_def fun_eq_iff intro!: equivpI reflpI sympI transpI)

interpretation ci_keys: hash_keys switch_hash_default_ci switch_hash_equalkeys_ci
proof
  show "equivp switch_hash_equalkeys_ci"
    using strcasecmp_equivp by (simp add: switch_hash_equalkeys_ci_def [abs_def])
qed (rule hash_default_ci_eq)

lemma empty_dict:
  assumes "ht_wf h" "ht_entries h = []"
  shows "dict_inv (hashfn h) (eqfn h) h" "switch_hashtable_search h = (\<lambda>_. None)"
proof -
  show "dict_inv (hashfn h) (eqfn h) h" using assms by (simp add: dict_inv_def keys_unique_def)
  have "htable h ! indexFor (tablelength h) x = []" for x
    using bucket_subset [OF assms(1), of x] assms(2) by simp
  then show "switch_hashtable_search h = (\<lambda>_. None)"
    by (simp add: switch_hashtable_search_def fun_eq_iff)
qed

section \<open>Iteration covers the table\<close>

lemma skip_empty_skips:
  assumes "length (htable h) = tablelength h"
  shows "concat (drop (skip_empty h pos) (htable h)) = concat (drop pos (htable h)) \<and>
     (skip_empty h pos < tablelength h \<longrightarrow> htable h ! skip_empty h pos \<noteq> [])"
  using assms
proof (induction h pos rule: skip_empty.induct)
  case (1 h pos)
  show ?case
  proof (cases "pos < tablelength h \<and> htable h ! pos = []")
    case True
    then have "drop pos (htable h) = [] # drop (Suc pos) (htable h)"
      using 1(2) by (metis Cons_nth_drop_Suc)
    then show ?thesis using 1 True by (simp add: skip_empty.simps [of h pos])
  qed (auto simp: skip_empty.simps [of h pos])
qed

definition kv :: "('k, 'v) entry \<Rightarrow> 'k \<times> 'v" where
  "kv e = (e_k e, e_v e)"

lemma ht_walk_from:
  assumes "length (htable h) = tablelength h" "it_e i \<noteq> []" "it_pos i < tablelength h"
  shows "ht_walk h (Some i) = map kv (it_e i @ concat (drop (Suc (it_pos i)) (htable h)))"
  using assms
proof (induction h "Some i" arbitrary: i rule: ht_walk.induct)
  case (2 h i)
  obtain e es where ie: "it_e i = e # es" using 2(3) by (cases "it_e i") auto
  then have t: "switch_hashtable_this i = Some (kv e)" by (simp add: switch_hashtable_this_def kv_def)
  show ?case
  proof (cases es)
    case Nil
    let ?p = "skip_empty h (Suc (it_pos i))"
    note sk = skip_empty_skips [OF 2(2), of "Suc (it_pos i)"]
    show ?thesis
    proof (cases "?p < tablelength h")
      case True
      then have n: "switch_hashtable_next h i = Some \<lparr>it_pos = ?p, it_e = htable h ! ?p\<rparr>"
        using sk ie Nil by (simp add: switch_hashtable_next_def Let_def)
      have "concat (drop ?p (htable h)) = htable h ! ?p @ concat (drop (Suc ?p) (htable h))"
        using True 2(2) by (metis Cons_nth_drop_Suc concat.simps(2))
      then show ?thesis using 2(1) [OF t n] 2(2) True sk t n ie Nil by simp
    next
      case False
      then have "switch_hashtable_next h i = None"
        using ie Nil by (simp add: switch_hashtable_next_def Let_def)
      then show ?thesis using sk False 2(2) t ie Nil by simp
    qed
  next
    case (Cons e' es')
    then have n: "switch_hashtable_next h i = Some (i\<lparr>it_e := es\<rparr>)"
      using ie by (simp add: switch_hashtable_next_def)
    then show ?thesis using 2(1) [OF t n] 2(2,4) t n ie Cons by simp
  qed
qed

lemma ht_walk_all:
  assumes "length (htable h) = tablelength h"
  shows "ht_walk h (switch_hashtable_first h) = map kv (ht_entries h)"
proof -
  let ?p = "skip_empty h 0"
  note sk = skip_empty_skips [OF assms, of 0]
  show ?thesis
  proof (cases "?p < tablelength h")
    case True
    have "concat (drop ?p (htable h)) = htable h ! ?p @ concat (drop (Suc ?p) (htable h))"
      using True assms by (metis Cons_nth_drop_Suc concat.simps(2))
    then show ?thesis using sk True ht_walk_from [OF assms, of "\<lparr>it_pos = ?p, it_e = htable h ! ?p\<rparr>"]
      by (simp add: switch_hashtable_first_def switch_hashtable_next_def Let_def ht_entries_def)
  next
    case False
    then show ?thesis using sk assms
      by (simp add: switch_hashtable_first_def switch_hashtable_next_def Let_def ht_entries_def)
  qed
qed


section \<open>Growth\<close>

text \<open>
  The load factor: the stored limit is the one of the table's length, and the count stays within it
  until the last prime is reached.
\<close>

definition ht_loaded :: "('k, 'v) hashtable \<Rightarrow> bool" where
  "ht_loaded h \<longleftrightarrow> loadlimit h = load_limit (tablelength h) \<and>
     (primeindex h < prime_table_length - 1 \<longrightarrow> entrycount h \<le> loadlimit h)"

definition load_limits :: "nat list" where
  "load_limits = [35, 64, 126, 253, 500, 1003, 2002, 3999, 7988, 15986, 31953, 63907, 127799, 255607, 511182, 1022365, 2044731, 4089455, 8178896, 16357798, 32715572, 65431156, 130862288, 261724560, 523449152, 1046898240]"

lemma load_limits_eq: "map load_limit primes = load_limits"
  by (simp add: primes_def load_limits_def load_limit_def float_round_def bit_length.simps Let_def)

lemma load_limits_grow: "Suc i < prime_table_length \<Longrightarrow> load_limit (primes ! i) < load_limit (primes ! Suc i)"
proof -
  assume i: "Suc i < prime_table_length"
  have "sorted_wrt (<) load_limits" by (simp add: load_limits_def)
  moreover have l: "length load_limits = prime_table_length"
    by (metis length_map load_limits_eq prime_table_length_def)
  ultimately have "load_limits ! i < load_limits ! Suc i" using i by (simp add: sorted_wrt_nth_less)
  then show ?thesis
    using i by (simp add: load_limits_eq [symmetric] prime_table_length_def)
qed

lemma expand_loaded:
  assumes "ht_shape h" "ht_loaded (h\<lparr>entrycount := c\<rparr>)" "entrycount h = Suc c" "mem_newtable m"
    "hashtable_expand m h = Inr (r, h')"
  shows "ht_loaded h'"
proof (cases "primeindex h = prime_table_length - 1")
  case True
  then show ?thesis using assms by (auto simp: hashtable_expand_def ht_loaded_def)
next
  case False
  then have i: "Suc (primeindex h) < prime_table_length" using assms(1) by (auto simp: ht_shape_def)
  then have "primeindex h < prime_table_length - 1" by simp
  then have "c \<le> load_limit (primes ! primeindex h)" using assms(1,2) by (simp add: ht_loaded_def ht_shape_def)
  also have "\<dots> < load_limit (primes ! Suc (primeindex h))" by (rule load_limits_grow [OF i])
  finally show ?thesis using False assms by (auto simp: hashtable_expand_def Let_def ht_loaded_def)
qed

lemma insert_loaded:
  assumes wf: "ht_wf h" "ht_loaded h" and mem: "mem_newtable m" "mem_entry m"
    and ins: "switch_hashtable_insert m h k v flags = Inr (r, h')"
  shows "ht_loaded h'"
proof -
  let ?h1 = "h\<lparr>entrycount := entrycount h + 1\<rparr>"
  have s1: "ht_shape ?h1" using wf by (auto simp: ht_wf_def ht_shape_def)
  obtain r2 h2 where
    h2: "(if entrycount ?h1 > loadlimit ?h1 then hashtable_expand m ?h1 else Inr (-1, ?h1)) = Inr (r2, h2)"
    using expand_spec [OF s1, of m] mem by (cases "entrycount ?h1 > loadlimit ?h1") auto
  have "ht_loaded h2"
  proof (cases "entrycount ?h1 > loadlimit ?h1")
    case True
    then show ?thesis
      using expand_loaded [OF s1, of "entrycount h" m r2 h2] h2 mem wf by simp
  next
    case False
    then show ?thesis using h2 wf by (auto simp: ht_loaded_def)
  qed
  moreover have "h' = h2\<lparr>htable := htable h'\<rparr>"
    using ins mem unfolding switch_hashtable_insert_def Let_def h2 by auto
  ultimately show ?thesis unfolding ht_loaded_def by (metis hashtable.ext_inject hashtable.simps(1,3,4,5) hashtable.surjective hashtable.update_convs(2))
qed

lemma insert_fail_spec:
  assumes wf: "ht_wf h" and mem: "mem_newtable m \<or> \<not> mem_realloc m" and ent: "\<not> mem_entry m"
  shows "\<exists>h'. switch_hashtable_insert m h k v flags = Inr (0, h') \<and> ht_wf h' \<and>
     mset (ht_entries h') = mset (ht_entries h)"
proof -
  let ?h1 = "h\<lparr>entrycount := entrycount h + 1\<rparr>"
  have s1: "ht_shape ?h1" using wf by (auto simp: ht_wf_def ht_shape_def)
  obtain r2 h2 where
    h2: "(if entrycount ?h1 > loadlimit ?h1 then hashtable_expand m ?h1 else Inr (-1, ?h1)) = Inr (r2, h2)"
    "ht_shape h2" "ht_same ?h1 h2"
    using expand_spec [OF s1 mem] s1 by (cases "entrycount ?h1 > loadlimit ?h1") (auto simp: ht_same_def)
  let ?h3 = "h2\<lparr>entrycount := entrycount h2 - 1\<rparr>"
  have "mset (ht_entries ?h3) = mset (ht_entries h)" using h2(3) by (simp add: ht_same_def ht_entries_def)
  moreover have "ht_wf ?h3"
    using h2(2,3) wf set_same [OF h2(3)] length_same [OF h2(3)]
    by (auto simp: ht_wf_def ht_shape_def ht_same_def ht_hash_def ht_entries_def)
  moreover have "switch_hashtable_insert m h k v flags = Inr (0, ?h3)"
    unfolding switch_hashtable_insert_def Let_def h2(1) using ent by simp
  ultimately show ?thesis by blast
qed

section \<open>Properties\<close>

text \<open>C2: a table made by \<open>switch_core_hash_init_case\<close> answers every sequence of lookups, deletions
  and replacing insertions as a dictionary does, with keys compared exactly or, for the
  case-insensitive kind, ignoring ASCII case; growth on the way is not observable.\<close>

theorem core_hash_refines_dictionary:
  "\<exists>h. switch_core_hash_init_case case_sensitive = (SWITCH_STATUS_SUCCESS, Some h) \<and>
     fst (run_ops ht_step xs h) =
     fst (run_ops (dict_step (if case_sensitive then (=) else strcasecmp_eq)) xs (\<lambda>_. None))"
proof -
  have m: "(16::nat) \<le> 2 ^ 30" by simp
  show ?thesis
  proof (cases case_sensitive)
    case True
    then obtain h :: "(string, 'a) hashtable" where h: "switch_core_hash_init_case case_sensitive = (SWITCH_STATUS_SUCCESS, Some h)"
      "ht_wf h" "ht_entries h = []" "hashfn h = switch_hash_default" "eqfn h = switch_hash_equalkeys"
      using create_wf [OF m, of switch_hash_default switch_hash_equalkeys]
      by (auto simp: switch_core_hash_init_case_def)
    moreover have "switch_hash_equalkeys = (=)" by (simp add: switch_hash_equalkeys_def fun_eq_iff)
    ultimately show ?thesis
      using True cs_keys.dict.run_refines [of h xs] empty_dict [OF h(2,3)] by auto
  next
    case False
    then obtain h :: "(string, 'a) hashtable" where h: "switch_core_hash_init_case case_sensitive = (SWITCH_STATUS_SUCCESS, Some h)"
      "ht_wf h" "ht_entries h = []" "hashfn h = switch_hash_default_ci" "eqfn h = switch_hash_equalkeys_ci"
      using create_wf [OF m, of switch_hash_default_ci switch_hash_equalkeys_ci]
      by (auto simp: switch_core_hash_init_case_def)
    moreover have "switch_hash_equalkeys_ci = strcasecmp_eq" by (simp add: switch_hash_equalkeys_ci_def fun_eq_iff)
    ultimately show ?thesis
      using False ci_keys.dict.run_refines [of h xs] empty_dict [OF h(2,3)] by auto
  qed
qed

text \<open>after any sequence of operations on a case-sensitive table, the iteration
  \<open>switch_core_hash_first\<close> / \<open>next\<close> / \<open>this\<close> ends, shows every key exactly once, and shows a pair
  exactly when \<open>switch_core_hash_find\<close> returns that value for that key.\<close>

theorem core_hash_iteration_complete:
  "\<exists>h0. switch_core_hash_init_case True = (SWITCH_STATUS_SUCCESS, Some h0) \<and>
     (let h = snd (run_ops ht_step xs h0); w = ht_walk h (switch_hashtable_first h) in
      distinct (map fst w) \<and> length w = switch_hashtable_count h \<and>
      (\<forall>k v. ((k, v) \<in> set w) = (switch_core_hash_find h k = Some v)))"
proof -
  have m: "(16::nat) \<le> 2 ^ 30" by simp
  obtain h0 :: "(string, 'a) hashtable" where h0: "switch_core_hash_init_case True = (SWITCH_STATUS_SUCCESS, Some h0)"
    "ht_wf h0" "ht_entries h0 = []" "hashfn h0 = switch_hash_default" "eqfn h0 = switch_hash_equalkeys"
    using create_wf [OF m, of switch_hash_default switch_hash_equalkeys]
    by (auto simp: switch_core_hash_init_case_def)
  let ?h = "snd (run_ops ht_step xs h0)"
  have inv: "dict_inv switch_hash_default switch_hash_equalkeys ?h"
    using cs_keys.dict.run_refines [of h0 xs] empty_dict(1) [OF h0(2,3)] h0 by simp
  then have w: "ht_walk ?h (switch_hashtable_first ?h) = map kv (ht_entries ?h)"
    "switch_hashtable_count ?h = length (ht_entries ?h)"
    by (auto intro!: ht_walk_all simp: dict_inv_def ht_wf_def ht_shape_def buckets_ok_def switch_hashtable_count_def)
  have f: "(switch_core_hash_find ?h k = Some v) = (\<exists>e\<in>set (ht_entries ?h). k = e_k e \<and> e_v e = v)" for k v
    using cs_keys.search_char [OF inv, of k v] by (simp add: switch_core_hash_find_def switch_hash_equalkeys_def)
  have "distinct (map e_k (ht_entries ?h))"
    using inv by (intro keys_unique_distinct) (simp add: dict_inv_def switch_hash_equalkeys_def [abs_def])
  then show ?thesis using h0(1) w f by (force simp: Let_def kv_def o_def)
qed

text \<open>an insertion into a well-formed table keeps the table well formed whatever the allocator
  answers, short of the broken \<open>realloc\<close> fallback: it adds exactly the new entry, or, when no entry
  can be allocated, returns 0 and keeps the entries; when the larger table can be allocated the
  entry count stays within the load limit of the table's prime length.\<close>

theorem hash_insert_outcome:
  assumes "ht_wf h" and "mem_newtable m \<or> \<not> mem_realloc m"
  shows "\<exists>r h'. switch_hashtable_insert m h k v flags = Inr (r, h') \<and> ht_wf h' \<and>
     (if mem_entry m
      then r = -1 \<and> mset (ht_entries h') = add_mset (new_entry h k v flags) (mset (ht_entries h))
      else r = 0 \<and> mset (ht_entries h') = mset (ht_entries h)) \<and>
     (mem_newtable m \<and> mem_entry m \<and> ht_loaded h \<longrightarrow> ht_loaded h')"
proof (cases "mem_entry m")
  case True
  then show ?thesis using insert_spec [OF assms True] insert_loaded [OF assms(1)] by metis
next
  case False
  then show ?thesis using insert_fail_spec [OF assms False] by auto
qed

theorem hash_insert_outcome_witness:
  "\<exists>r h'. switch_hashtable_insert mem_plenty
      (the (snd (switch_core_hash_init_case True))) ''k'' (7::nat) 0 = Inr (r, h') \<and> r = -1 \<and>
     map e_v (ht_entries h') = [7]"
proof -
  obtain h :: "(string, nat) hashtable" where h: "switch_core_hash_init_case True = (SWITCH_STATUS_SUCCESS, Some h)"
    "ht_wf h" "ht_entries h = []"
    using create_wf [of 16 switch_hash_default switch_hash_equalkeys]
    by (auto simp: switch_core_hash_init_case_def)
  obtain r h' where "switch_hashtable_insert mem_plenty h ''k'' 7 0 = Inr (r, h')" "r = -1"
    "mset (ht_entries h') = {#new_entry h ''k'' 7 0#}"
    using hash_insert_outcome [OF h(2), of mem_plenty "''k''" 7 0] h(3) by (auto simp: mem_plenty_def)
  then show ?thesis using h(1) by (auto simp: new_entry_def)
qed

end
