(* ===== verification/Switch_Queue.thy ===== *)
theory Switch_Queue
  imports FS_Prelude
begin

text \<open>
  The bounded queue behind \<open>switch_queue_t\<close>: libs/apr-util/misc/apr\_queue.c and its wrappers in
  src/switch\_apr.c. The queue is a ring: \<open>q_out\<close> is the next filled slot, \<open>q_in\<close> the next empty one.
  Every operation runs under the queue's mutex; locking a live mutex and signalling a live condition
  variable succeed. What other threads did while a caller slept in \<open>apr_thread_cond_wait\<close> is the
  parameter \<open>woken\<close>: the answer of the wait and the queue found on waking.
\<close>

datatype apr_status = APR_SUCCESS | APR_EOF | APR_EAGAIN | APR_EINTR | APR_TIMEUP

record 'a apr_queue =
  q_data :: "'a list"
  nelts :: nat
  q_in :: nat
  q_out :: nat
  q_bounds :: nat
  full_waiters :: nat
  empty_waiters :: nat
  terminated :: bool

definition apr_queue_full :: "'a apr_queue \<Rightarrow> bool" where
  "apr_queue_full q \<longleftrightarrow> nelts q = q_bounds q"

definition apr_queue_empty :: "'a apr_queue \<Rightarrow> bool" where
  "apr_queue_empty q \<longleftrightarrow> nelts q = 0"

definition apr_queue_create :: "'a \<Rightarrow> nat \<Rightarrow> apr_status \<times> 'a apr_queue" where
  "apr_queue_create nul queue_capacity =
     (APR_SUCCESS,
      \<lparr>q_data = replicate queue_capacity nul, nelts = 0, q_in = 0, q_out = 0, q_bounds = queue_capacity,
       full_waiters = 0, empty_waiters = 0, terminated = False\<rparr>)"

text \<open>The two bodies shared by the blocking and the non-blocking calls.\<close>

definition queue_put :: "'a \<Rightarrow> 'a apr_queue \<Rightarrow> 'a apr_queue" where
  "queue_put d q =
     q\<lparr>q_data := (q_data q)[q_in q := d], q_in := (q_in q + 1) mod q_bounds q, nelts := nelts q + 1\<rparr>"

definition queue_take :: "'a apr_queue \<Rightarrow> 'a \<times> 'a apr_queue" where
  "queue_take q =
     (q_data q ! q_out q, q\<lparr>nelts := nelts q - 1, q_out := (q_out q + 1) mod q_bounds q\<rparr>)"

definition apr_queue_push ::
  "('a apr_queue \<Rightarrow> apr_status \<times> 'a apr_queue) \<Rightarrow> 'a apr_queue \<Rightarrow> 'a \<Rightarrow> apr_status \<times> 'a apr_queue" where
  "apr_queue_push woken q d =
     (if terminated q then (APR_EOF, q)
      else if apr_queue_full q then
        (case woken (q\<lparr>full_waiters := full_waiters q + 1\<rparr>) of (rv, q1) \<Rightarrow>
           let q2 = q1\<lparr>full_waiters := full_waiters q1 - 1\<rparr> in
           if rv \<noteq> APR_SUCCESS then (rv, q2)
           else if apr_queue_full q2 then (if terminated q2 then APR_EOF else APR_EINTR, q2)
           else (APR_SUCCESS, queue_put d q2))
      else (APR_SUCCESS, queue_put d q))"

definition apr_queue_trypush :: "'a apr_queue \<Rightarrow> 'a \<Rightarrow> apr_status \<times> 'a apr_queue" where
  "apr_queue_trypush q d =
     (if terminated q then (APR_EOF, q)
      else if apr_queue_full q then (APR_EAGAIN, q)
      else (APR_SUCCESS, queue_put d q))"

definition apr_queue_size :: "'a apr_queue \<Rightarrow> nat" where
  "apr_queue_size q = nelts q"

definition apr_queue_pop ::
  "('a apr_queue \<Rightarrow> apr_status \<times> 'a apr_queue) \<Rightarrow> 'a apr_queue \<Rightarrow> apr_status \<times> 'a option \<times> 'a apr_queue" where
  "apr_queue_pop woken q =
     (if terminated q then (APR_EOF, None, q)
      else if apr_queue_empty q then
        (case woken (q\<lparr>empty_waiters := empty_waiters q + 1\<rparr>) of (rv, q1) \<Rightarrow>
           let q2 = q1\<lparr>empty_waiters := empty_waiters q1 - 1\<rparr> in
           if rv \<noteq> APR_SUCCESS then (rv, None, q2)
           else if apr_queue_empty q2 then (if terminated q2 then APR_EOF else APR_EINTR, None, q2)
           else case queue_take q2 of (d, q3) \<Rightarrow> (APR_SUCCESS, Some d, q3))
      else case queue_take q of (d, q3) \<Rightarrow> (APR_SUCCESS, Some d, q3))"

text \<open>The timed pop differs only in the wait it makes, so it is the same function of its answer.\<close>

definition apr_queue_pop_timeout ::
  "('a apr_queue \<Rightarrow> apr_status \<times> 'a apr_queue) \<Rightarrow> 'a apr_queue \<Rightarrow> apr_status \<times> 'a option \<times> 'a apr_queue" where
  "apr_queue_pop_timeout timedwait q =
     (if terminated q then (APR_EOF, None, q)
      else if apr_queue_empty q then
        (case timedwait (q\<lparr>empty_waiters := empty_waiters q + 1\<rparr>) of (rv, q1) \<Rightarrow>
           let q2 = q1\<lparr>empty_waiters := empty_waiters q1 - 1\<rparr> in
           if rv \<noteq> APR_SUCCESS then (rv, None, q2)
           else if apr_queue_empty q2 then (if terminated q2 then APR_EOF else APR_EINTR, None, q2)
           else case queue_take q2 of (d, q3) \<Rightarrow> (APR_SUCCESS, Some d, q3))
      else case queue_take q of (d, q3) \<Rightarrow> (APR_SUCCESS, Some d, q3))"

definition apr_queue_trypop :: "'a apr_queue \<Rightarrow> apr_status \<times> 'a option \<times> 'a apr_queue" where
  "apr_queue_trypop q =
     (if terminated q then (APR_EOF, None, q)
      else if apr_queue_empty q then (APR_EAGAIN, None, q)
      else case queue_take q of (d, q3) \<Rightarrow> (APR_SUCCESS, Some d, q3))"

definition apr_queue_interrupt_all :: "'a apr_queue \<Rightarrow> apr_status \<times> 'a apr_queue" where
  "apr_queue_interrupt_all q = (APR_SUCCESS, q)"

definition apr_queue_term :: "'a apr_queue \<Rightarrow> apr_status \<times> 'a apr_queue" where
  "apr_queue_term q = apr_queue_interrupt_all (q\<lparr>terminated := True\<rparr>)"

text \<open>
  The wrappers retry while the call was interrupted; \<open>apr_queue_trypush\<close> is never interrupted. The
  blocking wrapper is given the answers of its successive waits.
\<close>

definition switch_queue_trypush :: "'a apr_queue \<Rightarrow> 'a \<Rightarrow> apr_status \<times> 'a apr_queue" where
  "switch_queue_trypush q d = apr_queue_trypush q d"

definition switch_queue_trypop :: "'a apr_queue \<Rightarrow> apr_status \<times> 'a option \<times> 'a apr_queue" where
  "switch_queue_trypop q = apr_queue_trypop q"

definition switch_queue_size :: "'a apr_queue \<Rightarrow> nat" where
  "switch_queue_size q = apr_queue_size q"

fun switch_queue_push ::
  "('a apr_queue \<Rightarrow> apr_status \<times> 'a apr_queue) list \<Rightarrow> 'a apr_queue \<Rightarrow> 'a \<Rightarrow> (apr_status \<times> 'a apr_queue) option" where
  "switch_queue_push [] q d = None"
| "switch_queue_push (w # ws) q d =
     (case apr_queue_push w q d of (s, q') \<Rightarrow>
        if s = APR_EINTR then switch_queue_push ws q' d else Some (s, q'))"

section \<open>The ring as a list\<close>

definition q_wf :: "'a apr_queue \<Rightarrow> bool" where
  "q_wf q \<longleftrightarrow> 0 < q_bounds q \<and> length (q_data q) = q_bounds q \<and> q_out q < q_bounds q \<and>
     nelts q \<le> q_bounds q \<and> q_in q = (q_out q + nelts q) mod q_bounds q"

definition q_list :: "'a apr_queue \<Rightarrow> 'a list" where
  "q_list q = map (\<lambda>i. q_data q ! ((q_out q + i) mod q_bounds q)) [0..<nelts q]"

lemma q_list_length [simp]: "length (q_list q) = nelts q"
  by (simp add: q_list_def)

lemma ring_index_neq:
  fixes i j n c :: nat
  assumes "i < j" "j < n"
  shows "(c + i) mod n \<noteq> (c + j) mod n"
proof
  assume "(c + i) mod n = (c + j) mod n"
  then have "n dvd (c + j) - (c + i)" by (metis mod_eq_dvd_iff_nat assms(1) add_le_mono le_refl less_imp_le)
  then show False using assms by (auto dest: dvd_imp_le)
qed

lemma queue_put_spec:
  assumes "q_wf q" "\<not> apr_queue_full q"
  shows "q_wf (queue_put d q)" "q_list (queue_put d q) = q_list q @ [d]"
proof -
  have n: "nelts q < q_bounds q" using assms by (auto simp: q_wf_def apr_queue_full_def)
  show "q_wf (queue_put d q)"
    using assms n by (auto simp: q_wf_def queue_put_def mod_Suc_eq)
  have l: "q_in q < length (q_data q)" using assms by (simp add: q_wf_def)
  have "q_data (queue_put d q) ! ((q_out q + i) mod q_bounds q) = q_data q ! ((q_out q + i) mod q_bounds q)"
    if "i < nelts q" for i
    using ring_index_neq [OF that n, of "q_out q"] assms(1) by (simp add: queue_put_def q_wf_def)
  moreover have "q_data (queue_put d q) ! ((q_out q + nelts q) mod q_bounds q) = d"
    using assms(1) l by (simp add: queue_put_def q_wf_def)
  moreover have "q_out (queue_put d q) = q_out q" "q_bounds (queue_put d q) = q_bounds q"
    "nelts (queue_put d q) = Suc (nelts q)" by (simp_all add: queue_put_def)
  ultimately show "q_list (queue_put d q) = q_list q @ [d]"
    by (auto simp: q_list_def)
qed

lemma queue_take_spec:
  assumes "q_wf q" "\<not> apr_queue_empty q"
  shows "q_wf (snd (queue_take q))" "q_list q = fst (queue_take q) # q_list (snd (queue_take q))"
proof -
  have n: "0 < nelts q" using assms by (simp add: apr_queue_empty_def)
  have "(Suc (q_out q) + (nelts q - 1)) = q_out q + nelts q" using n by simp
  then have m: "(Suc (q_out q) mod q_bounds q + (nelts q - 1)) mod q_bounds q = (q_out q + nelts q) mod q_bounds q"
    by (metis mod_add_left_eq)
  then show "q_wf (snd (queue_take q))"
    using assms n by (auto simp: q_wf_def queue_take_def)
  have "[0..<nelts q] = 0 # map Suc [0..<nelts q - 1]"
    using n by (simp add: map_Suc_upt upt_conv_Cons)
  then have "q_list q = q_data q ! (q_out q mod q_bounds q) #
     map (\<lambda>i. q_data q ! ((q_out q + Suc i) mod q_bounds q)) [0..<nelts q - 1]"
    by (simp add: q_list_def o_def)
  moreover have "(Suc (q_out q) mod q_bounds q + i) mod q_bounds q = (q_out q + Suc i) mod q_bounds q" for i
    by (simp add: mod_add_left_eq)
  ultimately show "q_list q = fst (queue_take q) # q_list (snd (queue_take q))"
    using assms by (simp add: q_list_def queue_take_def q_wf_def)
qed

section \<open>The contract clients use\<close>

datatype 'a q_op = Q_trypush 'a | Q_trypop | Q_size | Q_term
datatype 'a q_ret = QR_status apr_status | QR_item apr_status "'a option" | QR_size nat

fun q_step :: "'a q_op \<Rightarrow> 'a apr_queue \<Rightarrow> 'a q_ret \<times> 'a apr_queue" where
  "q_step (Q_trypush d) q = (case switch_queue_trypush q d of (s, q') \<Rightarrow> (QR_status s, q'))"
| "q_step Q_trypop q = (case switch_queue_trypop q of (s, r, q') \<Rightarrow> (QR_item s r, q'))"
| "q_step Q_size q = (QR_size (switch_queue_size q), q)"
| "q_step Q_term q = (case apr_queue_term q of (s, q') \<Rightarrow> (QR_status s, q'))"

text \<open>The abstract queue: capacity, closed flag, items in order.\<close>

type_synonym 'a aqueue = "nat \<times> bool \<times> 'a list"

fun aq_step :: "'a q_op \<Rightarrow> 'a aqueue \<Rightarrow> 'a q_ret \<times> 'a aqueue" where
  "aq_step (Q_trypush d) (c, t, xs) =
     (if t then (QR_status APR_EOF, (c, t, xs))
      else if length xs = c then (QR_status APR_EAGAIN, (c, t, xs))
      else (QR_status APR_SUCCESS, (c, t, xs @ [d])))"
| "aq_step Q_trypop (c, t, xs) =
     (if t then (QR_item APR_EOF None, (c, t, xs))
      else case xs of [] \<Rightarrow> (QR_item APR_EAGAIN None, (c, t, []))
         | x # xs' \<Rightarrow> (QR_item APR_SUCCESS (Some x), (c, t, xs')))"
| "aq_step Q_size (c, t, xs) = (QR_size (length xs), (c, t, xs))"
| "aq_step Q_term (c, t, xs) = (QR_status APR_SUCCESS, (c, True, xs))"

definition q_abs :: "'a apr_queue \<Rightarrow> 'a aqueue" where
  "q_abs q = (q_bounds q, terminated q, q_list q)"

lemma q_list_upd [simp]: "q_list (q\<lparr>terminated := b\<rparr>) = q_list q"
  by (simp add: q_list_def)

lemma queue_frame [simp]:
  "q_bounds (queue_put d q) = q_bounds q" "terminated (queue_put d q) = terminated q"
  "q_bounds (snd (queue_take q)) = q_bounds q" "terminated (snd (queue_take q)) = terminated q"
  by (simp_all add: queue_put_def queue_take_def)

lemma trypush_spec:
  assumes "q_wf q" "\<not> terminated q"
  shows "switch_queue_trypush q d =
    (if nelts q = q_bounds q then (APR_EAGAIN, q) else (APR_SUCCESS, queue_put d q))"
  using assms by (simp add: switch_queue_trypush_def apr_queue_trypush_def apr_queue_full_def)

lemma q_step_refines:
  assumes "q_wf q"
  shows "q_wf (snd (q_step x q)) \<and> fst (q_step x q) = fst (aq_step x (q_abs q)) \<and>
         q_abs (snd (q_step x q)) = snd (aq_step x (q_abs q))"
proof (cases x)
  case (Q_trypush d)
  then show ?thesis
    using assms queue_put_spec [OF assms, of d]
    by (auto simp: q_abs_def switch_queue_trypush_def apr_queue_trypush_def apr_queue_full_def)
next
  case Q_trypop
  show ?thesis
  proof (cases "terminated q \<or> apr_queue_empty q")
    case True
    moreover have "q_list q = []" if "apr_queue_empty q"
      using that by (simp add: q_list_def apr_queue_empty_def)
    ultimately show ?thesis
      using assms Q_trypop by (auto simp: q_abs_def switch_queue_trypop_def apr_queue_trypop_def)
  next
    case False
    then show ?thesis
      using Q_trypop queue_take_spec [OF assms]
      by (simp add: q_abs_def switch_queue_trypop_def apr_queue_trypop_def split_beta)
  qed
next
  case Q_size
  then show ?thesis using assms by (simp add: q_abs_def switch_queue_size_def apr_queue_size_def)
next
  case Q_term
  then show ?thesis
    using assms by (simp add: q_abs_def apr_queue_term_def apr_queue_interrupt_all_def q_wf_def)
qed

interpretation sq: data_refinement q_wf q_abs q_step aq_step
  using q_step_refines by unfold_locales auto

section \<open>Properties\<close>

text \<open>C19: the ring behind \<open>switch_queue_t\<close> answers every sequence of non-blocking pushes and pops, size
  queries and termination as a bounded first-in first-out list: \<open>EAGAIN\<close> exactly when full or
  empty, \<open>EOF\<close> after termination.\<close>

theorem queue_refines_fifo:
  assumes "0 < n"
  shows "fst (run_ops q_step xs (snd (apr_queue_create nul n))) = fst (run_ops aq_step xs (n, False, []))"
proof -
  have "q_wf (snd (apr_queue_create nul n))" "q_abs (snd (apr_queue_create nul n)) = (n, False, [])"
    using assms by (simp_all add: apr_queue_create_def q_wf_def q_abs_def q_list_def)
  then show ?thesis using sq.run_refines by metis
qed

theorem queue_refines_fifo_witness:
  "fst (run_ops q_step [Q_trypush 1, Q_trypush 2, Q_trypush 3, Q_trypop, Q_trypush 4, Q_trypop]
     (snd (apr_queue_create (0::nat) 2))) =
   [QR_status APR_SUCCESS, QR_status APR_SUCCESS, QR_status APR_EAGAIN, QR_item APR_SUCCESS (Some 1),
    QR_status APR_SUCCESS, QR_item APR_SUCCESS (Some 2)]"
  using queue_refines_fifo [of 2 "[Q_trypush 1, Q_trypush 2, Q_trypush 3, Q_trypop, Q_trypush 4, Q_trypop]" "0::nat"]
  by simp

text \<open>a blocking push whose wait leaves the queue well formed never overwrites an item: on success
  the item is appended to what the queue held when it was woken, otherwise that content is kept.\<close>

theorem queue_push_appends:
  assumes "q_wf q" "\<And>q. q_wf q \<Longrightarrow> q_wf (snd (woken q))"
    and "apr_queue_push woken q d = (s, q')"
  shows "q_wf q' \<and>
     (\<exists>seen. (seen = q_list q \<or> seen = q_list (snd (woken (q\<lparr>full_waiters := full_waiters q + 1\<rparr>)))) \<and>
       q_list q' = (if s = APR_SUCCESS then seen @ [d] else seen))"
proof (cases "terminated q \<or> \<not> apr_queue_full q")
  case True
  then show ?thesis
    using assms(1,3) queue_put_spec [OF assms(1), of d] by (auto simp: apr_queue_push_def split: if_splits)
next
  case False
  obtain rv q1 where w: "woken (q\<lparr>full_waiters := full_waiters q + 1\<rparr>) = (rv, q1)" by fastforce
  let ?q2 = "q1\<lparr>full_waiters := full_waiters q1 - 1\<rparr>"
  have "q_wf (q\<lparr>full_waiters := full_waiters q + 1\<rparr>)" using assms(1) by (simp add: q_wf_def)
  then have "q_wf q1" using assms(2) w by (metis snd_conv)
  then have q2: "q_wf ?q2" "q_list ?q2 = q_list q1" by (simp_all add: q_wf_def q_list_def)
  then show ?thesis
    using False assms(3) w queue_put_spec [OF q2(1), of d]
    by (auto simp: apr_queue_push_def Let_def split: if_splits)
qed

theorem queue_push_appends_witness:
  "q_list (snd (apr_queue_push
       (\<lambda>q. (APR_SUCCESS, if apr_queue_empty q then q else snd (queue_take q)))
       \<lparr>q_data = [5::nat], nelts = 1, q_in = 0, q_out = 0, q_bounds = 1, full_waiters = 0,
         empty_waiters = 0, terminated = False\<rparr> 6)) = [6]"
proof -
  let ?w = "\<lambda>q :: nat apr_queue. (APR_SUCCESS, if apr_queue_empty q then q else snd (queue_take q))"
  let ?q = "\<lparr>q_data = [5::nat], nelts = 1, q_in = 0, q_out = 0, q_bounds = 1, full_waiters = 0,
         empty_waiters = 0, terminated = False\<rparr>"
  let ?r = "(APR_SUCCESS, \<lparr>q_data = [6::nat], nelts = 1, q_in = 0, q_out = 0, q_bounds = 1, full_waiters = 0,
         empty_waiters = 0, terminated = False\<rparr>)"
  have wf: "q_wf ?q" by (simp add: q_wf_def)
  have w: "q_wf (snd (?w q))" if "q_wf q" for q using that by (auto simp: queue_take_spec(1))
  have r: "apr_queue_push ?w ?q 6 = ?r"
    by (simp add: apr_queue_push_def apr_queue_full_def apr_queue_empty_def queue_take_def queue_put_def)
  from queue_push_appends [OF wf w r] obtain seen where "q_list (snd ?r) = seen @ [6]" by auto
  moreover have "length (q_list (snd ?r)) = 1" by simp
  ultimately show ?thesis unfolding r by auto
qed

end
