(* ===== verification/Separate.thy ===== *)
theory Separate
  imports FS_Prelude
begin

text \<open>
  The string splitter of src/switch\_utils.c (\<open>switch_separate_string\<close> and its helpers), which the
  dialplan, the API commands and the DTMF code use to cut argument lists in place. A string is the
  list of its characters before the NUL; the fields are returned as a list, at most \<open>arraylen\<close> of
  them. Both scanners step over the character after a backslash, so a backslash that ends the buffer
  makes them read past the terminating NUL: that is the fault \<open>Out_of_bounds\<close>.
\<close>

abbreviation (input) ESCAPE_META :: char where "ESCAPE_META \<equiv> CHR 0x5C"
abbreviation (input) QUOTE :: char where "QUOTE \<equiv> CHR 0x27"
abbreviation (input) DQUOTE :: char where "DQUOTE \<equiv> CHR 0x22"
abbreviation (input) SPACE :: char where "SPACE \<equiv> CHR 0x20"
abbreviation (input) NUL :: char where "NUL \<equiv> CHR 0x00"

definition unescape_char :: "char \<Rightarrow> char" where
  "unescape_char escaped =
     (if escaped = CHR ''n'' then CHR 0x0A
      else if escaped = CHR ''r'' then CHR 0x0D
      else if escaped = CHR ''t'' then CHR 0x09
      else if escaped = CHR ''s'' then SPACE
      else escaped)"

definition escape_one :: "char \<Rightarrow> string" where
  "escape_one c =
     (if c = CHR 0x0A then [ESCAPE_META, CHR ''n'']
      else if c = CHR 0x0D then [ESCAPE_META, CHR ''r'']
      else if c = CHR 0x09 then [ESCAPE_META, CHR ''t'']
      else if c = SPACE then [ESCAPE_META, CHR ''s'']
      else if c = CHR ''$'' then [ESCAPE_META, CHR ''$'']
      else [c])"

text \<open>
  \<open>switch_escape_string\<close> never looks at \<open>outlen\<close>: it writes the escaped text and its NUL, which is out
  of bounds when the buffer is shorter. \<open>switch_escape_string_pool\<close> sizes the buffer itself.
\<close>

definition switch_escape_string :: "string \<Rightarrow> nat \<Rightarrow> fault + string" where
  "switch_escape_string s outlen =
     (let o' = concat (map escape_one s) in
      if length o' + 1 \<le> outlen then Inr o' else Inl Out_of_bounds)"

definition switch_escape_string_pool :: "string \<Rightarrow> fault + string" where
  "switch_escape_string_pool s = switch_escape_string s (length s * 2 + 1)"

text \<open>
  \<open>switch_escape_char\<close>: the escape character before every occurrence of a delimiter, once for each
  time the delimiter is listed.
\<close>

definition switch_escape_char :: "string \<Rightarrow> string \<Rightarrow> char \<Rightarrow> string" where
  "switch_escape_char s delim esc =
     concat (map (\<lambda>p. replicate (length (filter (\<lambda>d. p = d) delim)) esc @ [p]) s)"

section \<open>cleanup\_separated\_string\<close>

text \<open>
  \<open>cleanup_put\<close> is the copy of one character outside an escape; \<open>dest\<close> is kept reversed and \<open>end\<close> is
  the length the result is cut to.
\<close>

fun cleanup_loop ::
  "char \<Rightarrow> bool \<Rightarrow> string \<Rightarrow> nat option \<Rightarrow> string \<Rightarrow> string \<times> nat option" where
  "cleanup_loop delim inside_quotes dest en [] = (rev dest, en)"
| "cleanup_loop delim inside_quotes dest en (c # cs) =
     (if c = ESCAPE_META \<and> cs \<noteq> [] \<and>
         (hd cs = QUOTE \<or> hd cs = DQUOTE \<or> (delim \<noteq> NUL \<and> hd cs = delim) \<or> hd cs = ESCAPE_META \<or>
          unescape_char (hd cs) \<noteq> hd cs)
      then let e = (if hd cs = QUOTE \<or> hd cs = DQUOTE \<or> (delim \<noteq> NUL \<and> hd cs = delim) \<or> hd cs = ESCAPE_META
                    then hd cs else unescape_char (hd cs))
           in cleanup_loop delim inside_quotes (e # dest) (Some (Suc (length dest))) (tl cs)
      else if c = QUOTE \<and> (inside_quotes \<or> QUOTE \<in> set cs)
      then cleanup_loop delim (\<not> inside_quotes) dest (if inside_quotes then en else Some (length dest)) cs
      else cleanup_loop delim inside_quotes (c # dest)
             (if c \<noteq> SPACE \<or> inside_quotes then Some (Suc (length dest)) else en) cs)"

definition cleanup_separated_string :: "string \<Rightarrow> char \<Rightarrow> string" where
  "cleanup_separated_string str delim =
     (let ptr = dropWhile (\<lambda>c. c = SPACE) str in
      case cleanup_loop delim False [] None ptr of
        (dest, None) \<Rightarrow> ptr
      | (dest, Some n) \<Rightarrow> take n dest)"

section \<open>The scanners\<close>

text \<open>
  \<open>n\<close> is the number of array slots still free after the current field; when the last slot is taken
  the rest of the buffer is its field. \<open>acc\<close> is the current field, reversed.
\<close>

fun scan_char_delim :: "char \<Rightarrow> nat \<Rightarrow> bool \<Rightarrow> string \<Rightarrow> string \<Rightarrow> fault + string list" where
  "scan_char_delim delim n inside_quotes acc [] = Inr [rev acc]"
| "scan_char_delim delim n inside_quotes acc (c # cs) =
     (if c = ESCAPE_META then
        (case cs of [] \<Rightarrow> Inl Out_of_bounds
         | d # ds \<Rightarrow> scan_char_delim delim n inside_quotes (d # c # acc) ds)
      else if c = QUOTE \<and> (inside_quotes \<or> QUOTE \<in> set cs) then
        scan_char_delim delim n (\<not> inside_quotes) (c # acc) cs
      else if c = delim \<and> \<not> inside_quotes then
        (if cs = [] then Inr [rev acc]
         else if n = 1 then Inr [rev acc, cs]
         else fbind (scan_char_delim delim (n - 1) False [] cs) (\<lambda>fs. Inr (rev acc # fs)))
      else scan_char_delim delim n inside_quotes (c # acc) cs)"

definition separate_string_char_delim :: "string \<Rightarrow> char \<Rightarrow> nat \<Rightarrow> fault + string list" where
  "separate_string_char_delim buf delim arraylen =
     fbind (if buf = [] \<or> arraylen = 0 then Inr []
            else if arraylen = 1 then Inr [buf]
            else scan_char_delim delim (arraylen - 1) False [] buf)
       (\<lambda>fs. Inr (map (\<lambda>f. cleanup_separated_string f delim) fs))"

function scan_blank_delim :: "nat \<Rightarrow> bool \<Rightarrow> string \<Rightarrow> string \<Rightarrow> fault + string list" where
  "scan_blank_delim n inside_quotes acc [] = Inr [rev acc]"
| "scan_blank_delim n inside_quotes acc (c # cs) =
     (if c = ESCAPE_META then
        (case cs of [] \<Rightarrow> Inl Out_of_bounds
         | d # ds \<Rightarrow> scan_blank_delim n inside_quotes (d # c # acc) ds)
      else if c = QUOTE then scan_blank_delim n (\<not> inside_quotes) (c # acc) cs
      else if c = SPACE \<and> \<not> inside_quotes then
        (if dropWhile (\<lambda>c. c = SPACE) cs = [] then Inr [rev acc]
         else if n = 1 then Inr [rev acc, dropWhile (\<lambda>c. c = SPACE) cs]
         else fbind (scan_blank_delim (n - 1) False [] (dropWhile (\<lambda>c. c = SPACE) cs))
                (\<lambda>fs. Inr (rev acc # fs)))
      else scan_blank_delim n inside_quotes (c # acc) cs)"
  by pat_completeness auto
termination
  by (relation "measure (\<lambda>(n, q, acc, s). length s)") (auto simp: less_Suc_eq_le length_dropWhile_le)

definition separate_string_blank_delim :: "string \<Rightarrow> nat \<Rightarrow> fault + string list" where
  "separate_string_blank_delim buf arraylen =
     fbind (if buf = [] \<or> arraylen = 0 then Inr []
            else if arraylen = 1 then Inr [buf]
            else scan_blank_delim (arraylen - 1) False
                   (rev (takeWhile (\<lambda>c. c = SPACE) buf)) (dropWhile (\<lambda>c. c = SPACE) buf))
       (\<lambda>fs. Inr (map (\<lambda>f. cleanup_separated_string f NUL) fs))"

fun delim_override :: "string \<Rightarrow> char \<Rightarrow> string \<times> char" where
  "delim_override (a # b # d # e # rest) delim =
     (if a = CHR ''^'' \<and> b = CHR ''^'' then (e # rest, d) else (a # b # d # e # rest, delim))"
| "delim_override buf delim = (buf, delim)"

definition switch_separate_string :: "string \<Rightarrow> char \<Rightarrow> nat \<Rightarrow> fault + string list" where
  "switch_separate_string buf delim arraylen =
     (if arraylen = 0 then Inr []
      else case delim_override buf delim of (buf', delim') \<Rightarrow>
        if delim' = SPACE then separate_string_blank_delim buf' arraylen
        else separate_string_char_delim buf' delim' arraylen)"

text \<open>The plain splitter on a delimiter string: no quoting, no clean-up.\<close>

fun strstr_split :: "string \<Rightarrow> string \<Rightarrow> string \<Rightarrow> (string \<times> string) option" where
  "strstr_split delim acc s =
     (if take (length delim) s = delim
      then Some (rev acc, if delim = [] then [] else drop (length delim) s)
      else case s of [] \<Rightarrow> None | c # cs \<Rightarrow> strstr_split delim (c # acc) cs)"

declare strstr_split.simps [simp del]

primrec split_on :: "nat \<Rightarrow> string \<Rightarrow> string \<Rightarrow> string list" where
  "split_on 0 delim s = [s]"
| "split_on (Suc n) delim s =
     (case strstr_split delim [] s of None \<Rightarrow> [s] | Some (a, b) \<Rightarrow> a # split_on n delim b)"

definition switch_separate_string_string :: "string \<Rightarrow> string \<Rightarrow> nat \<Rightarrow> fault + string list" where
  "switch_separate_string_string buf delim arraylen =
     (if arraylen = 0 then Inl Out_of_bounds else Inr (split_on (arraylen - 1) delim buf))"

section \<open>Writing a field so that it reads back\<close>

text \<open>The escapes the clean-up undoes, as a field writer for the delimiter \<open>d\<close>.\<close>

definition protect :: "char \<Rightarrow> char \<Rightarrow> string" where
  "protect d c =
     (if c = QUOTE \<or> c = ESCAPE_META \<or> c = d then [ESCAPE_META, c]
      else if c = SPACE then [ESCAPE_META, CHR ''s'']
      else [c])"

definition protect_field :: "char \<Rightarrow> string \<Rightarrow> string" where
  "protect_field d f = concat (map (protect d) f)"

fun join_fields :: "char \<Rightarrow> string list \<Rightarrow> string" where
  "join_fields d [] = []"
| "join_fields d [f] = protect_field d f"
| "join_fields d (f # fs) = protect_field d f @ [d] @ join_fields d fs"

definition usable_delim :: "char \<Rightarrow> bool" where
  "usable_delim d \<longleftrightarrow> d \<notin> {NUL, ESCAPE_META, QUOTE, SPACE, CHR ''s''}"

lemma protect_field_simps [simp]:
  "protect_field d [] = []" "protect_field d (c # f) = protect d c @ protect_field d f"
  by (simp_all add: protect_field_def)

lemma cleanup_protect:
  assumes "usable_delim d"
  shows "cleanup_loop d False dest en (protect_field d f @ []) =
    (rev dest @ f, if f = [] then en else Some (length dest + length f))"
  using assms
  by (induction f arbitrary: dest en)
    (auto simp: protect_def usable_delim_def unescape_char_def Let_def)

lemma protect_head: "usable_delim d \<Longrightarrow> dropWhile (\<lambda>c. c = SPACE) (protect_field d f) = protect_field d f"
  by (cases f) (auto simp: protect_def usable_delim_def)

lemma protect_nil [simp]: "protect_field d f = [] \<longleftrightarrow> f = []"
  by (cases f) (auto simp: protect_def)

lemma cleanup_field:
  assumes "usable_delim d"
  shows "cleanup_separated_string (protect_field d f) d = f"
  using cleanup_protect [OF assms, of "[]" None f] protect_head [OF assms, of f]
  by (auto simp: cleanup_separated_string_def Let_def)

lemma scan_protect:
  assumes "usable_delim d"
  shows "scan_char_delim d n False acc (protect_field d f @ s) =
         scan_char_delim d n False (rev (protect_field d f) @ acc) s"
  using assms
proof (induction f arbitrary: acc)
  case (Cons c f)
  then show ?case
    by (auto simp: protect_def usable_delim_def)
qed simp

lemma scan_join:
  assumes "usable_delim d" "fs \<noteq> []" "last fs \<noteq> []" "length fs \<le> Suc n" "0 < n"
  shows "scan_char_delim d n False [] (join_fields d fs) = Inr (map (protect_field d) fs)"
  using assms(2-)
proof (induction fs arbitrary: n)
  case (Cons f fs)
  note scan = scan_protect [OF assms(1), of n "[]" f]
  show ?case
  proof (cases fs)
    case Nil
    then show ?thesis using scan [of "[]"] by simp
  next
    case (Cons g gs)
    have d: "d \<noteq> ESCAPE_META" "d \<noteq> QUOTE" using assms(1) by (auto simp: usable_delim_def)
    have ne: "join_fields d fs \<noteq> []"
      using Cons Cons.prems(2) by (cases gs) auto
    have step: "scan_char_delim d n False [] (join_fields d (f # fs)) =
      scan_char_delim d n False (rev (protect_field d f)) (d # join_fields d fs)"
      using scan [of "d # join_fields d fs"] Cons by simp
    show ?thesis
    proof (cases "n = 1")
      case True
      then have "gs = []" using Cons.prems(3) Cons by simp
      then show ?thesis unfolding step using True Cons ne d by simp
    next
      case False
      then have "scan_char_delim d (n - 1) False [] (join_fields d fs) = Inr (map (protect_field d) fs)"
        using Cons.prems Cons by (intro Cons.IH) auto
      then show ?thesis using False ne d by (simp add: step)
    qed
  qed
qed simp

section \<open>Bounds and faults\<close>

lemma scan_char_length:
  "scan_char_delim d n q acc s = Inr fs \<Longrightarrow> 0 < n \<Longrightarrow> length fs \<le> Suc n"
proof (induction d n q acc s arbitrary: fs rule: scan_char_delim.induct)
  case (2 delim n q acc c cs)
  then show ?case by (auto simp: fbind_eq_Inr split: if_splits list.splits)
qed auto

lemma scan_blank_cases:
  obtains (esc) "c = ESCAPE_META" | (quote) "c \<noteq> ESCAPE_META" "c = QUOTE"
    | (blank) "c \<noteq> ESCAPE_META" "c \<noteq> QUOTE" "c = SPACE \<and> \<not> q"
    | (other) "c \<noteq> ESCAPE_META" "c \<noteq> QUOTE" "\<not> (c = SPACE \<and> \<not> q)"
  by blast

lemma scan_blank_steps:
  "scan_blank_delim n q acc (QUOTE # cs) = scan_blank_delim n (\<not> q) (QUOTE # acc) cs"
  "c \<noteq> ESCAPE_META \<Longrightarrow> c \<noteq> QUOTE \<Longrightarrow> \<not> (c = SPACE \<and> \<not> q) \<Longrightarrow>
   scan_blank_delim n q acc (c # cs) = scan_blank_delim n q (c # acc) cs"
  by (simp, simp only: scan_blank_delim.simps if_False)

lemma scan_blank_length:
  "scan_blank_delim n q acc s = Inr fs \<Longrightarrow> 0 < n \<Longrightarrow> length fs \<le> Suc n"
proof (induction n q acc s arbitrary: fs rule: scan_blank_delim.induct)
  case (2 n q acc c cs)
  show ?case
  proof (cases rule: scan_blank_cases [where c = c and q = q])
    case esc
    then show ?thesis using "2.IH"(1) "2.prems" by (auto split: list.splits)
  next
    case quote
    then show ?thesis using "2.IH"(2) "2.prems" by simp
  next
    case blank
    note IH = "2.IH"(3) [OF blank]
    show ?thesis
    proof (cases "dropWhile (\<lambda>c. c = SPACE) cs = [] \<or> n = 1")
      case True
      then have "fs = [rev acc] \<or> fs = [rev acc, dropWhile (\<lambda>c. c = SPACE) cs]"
        using blank "2.prems"(1)
        by (cases "dropWhile (\<lambda>c. c = SPACE) cs = []") (simp_all del: dropWhile_eq_Nil_conv)
      then show ?thesis using "2.prems"(2) by auto
    next
      case False
      then obtain gs where "scan_blank_delim (n - 1) False [] (dropWhile (\<lambda>c. c = SPACE) cs) = Inr gs"
        "fs = rev acc # gs"
        using blank "2.prems"(1) by (simp add: fbind_eq_Inr del: dropWhile_eq_Nil_conv) blast
      then show ?thesis using IH False "2.prems"(2) by fastforce
    qed
  next
    case other
    then show ?thesis using "2.IH"(4) "2.prems" by (simp only: scan_blank_steps simp_thms)
  qed
qed auto

text \<open>A buffer in which every backslash is followed by a character.\<close>

fun escapes_closed :: "string \<Rightarrow> bool" where
  "escapes_closed [] = True"
| "escapes_closed (c # cs) =
     (if c = ESCAPE_META then (case cs of [] \<Rightarrow> False | d # ds \<Rightarrow> escapes_closed ds) else escapes_closed cs)"

lemma escapes_closed_blank: "escapes_closed s \<Longrightarrow> escapes_closed (dropWhile (\<lambda>c. c = SPACE) s)"
  by (induction s rule: escapes_closed.induct) (auto split: list.splits)

lemma scan_char_cases:
  obtains (esc) "c = ESCAPE_META"
    | (quote) "c \<noteq> ESCAPE_META" "c = QUOTE \<and> (q \<or> QUOTE \<in> set cs)"
    | (delim) "c \<noteq> ESCAPE_META" "\<not> (c = QUOTE \<and> (q \<or> QUOTE \<in> set cs))" "c = d \<and> \<not> q"
    | (other) "c \<noteq> ESCAPE_META" "\<not> (c = QUOTE \<and> (q \<or> QUOTE \<in> set cs))" "\<not> (c = d \<and> \<not> q)"
  by blast

lemma scan_char_total: "escapes_closed s \<Longrightarrow> \<exists>fs. scan_char_delim d n q acc s = Inr fs"
proof (induction d n q acc s rule: scan_char_delim.induct)
  case (2 delim n q acc c cs)
  show ?case
  proof (cases rule: scan_char_cases [where c = c and q = q and cs = cs and d = delim])
    case esc
    then show ?thesis using "2.IH"(1) "2.prems" by (auto split: list.splits)
  next
    case quote
    then show ?thesis using "2.IH"(2) "2.prems" by simp
  next
    case delim
    then have "cs = [] \<or> n = 1 \<or> (\<exists>fs. scan_char_delim delim (n - 1) False [] cs = Inr fs)"
      using "2.IH"(3) "2.prems" by fastforce
    then show ?thesis using delim by (auto split: if_splits)
  next
    case other
    then have "\<exists>fs. scan_char_delim delim n q (c # acc) cs = Inr fs" using "2.IH"(4) "2.prems" by simp
    then show ?thesis using other by (simp only: scan_char_delim.simps if_False)
  qed
qed simp

lemma scan_blank_total: "escapes_closed s \<Longrightarrow> \<exists>fs. scan_blank_delim n q acc s = Inr fs"
proof (induction n q acc s rule: scan_blank_delim.induct)
  case (2 n q acc c cs)
  show ?case
  proof (cases rule: scan_blank_cases [where c = c and q = q])
    case esc
    then show ?thesis using "2.IH"(1) "2.prems" by (auto split: list.splits)
  next
    case quote
    then show ?thesis using "2.IH"(2) "2.prems" by simp
  next
    case blank
    note IH = "2.IH"(3) [OF blank]
    have "escapes_closed (dropWhile (\<lambda>c. c = SPACE) cs)"
      using "2.prems" blank escapes_closed_blank by simp
    then show ?thesis
      using IH blank by (cases "dropWhile (\<lambda>c. c = SPACE) cs = []"; cases "n = 1") auto
  next
    case other
    then show ?thesis using "2.IH"(4) "2.prems" by (simp only: scan_blank_steps escapes_closed.simps if_False simp_thms)
  qed
qed simp


lemma separate_join:
  assumes "usable_delim d" and "fs \<noteq> []" and "last fs \<noteq> []" and "length fs \<le> arraylen"
    and "take 2 (join_fields d fs) \<noteq> ''^^''"
  shows "switch_separate_string (join_fields d fs) d arraylen = Inr fs"
proof -
  have ne: "join_fields d fs \<noteq> []"
    using assms(2,3) by (cases fs; cases "tl fs") auto
  have d: "d \<noteq> SPACE" using assms(1) by (simp add: usable_delim_def)
  have raw: "(if join_fields d fs = [] \<or> arraylen = 0 then Inr []
       else if arraylen = 1 then Inr [join_fields d fs]
       else scan_char_delim d (arraylen - 1) False [] (join_fields d fs)) = (Inr (map (protect_field d) fs) :: fault + _)"
  proof (cases "arraylen = 1")
    case True
    then obtain f where "fs = [f]" using assms(2,4) by (cases fs) auto
    then show ?thesis using True ne by simp
  next
    case False
    have "0 < arraylen" using assms(2,4) by (cases fs) auto
    with False show ?thesis using ne scan_join [OF assms(1-3), of "arraylen - 1"] assms(4) by simp
  qed
  have "separate_string_char_delim (join_fields d fs) d arraylen = Inr fs"
    unfolding separate_string_char_delim_def raw using cleanup_field [OF assms(1)]
    by (simp add: o_def map_idI)
  moreover have "arraylen \<noteq> 0" using assms(2,4) by (cases fs) auto
  moreover have "delim_override (join_fields d fs) d = (join_fields d fs, d)"
    using assms(5) by (cases "(join_fields d fs, d)" rule: delim_override.cases) auto
  ultimately show ?thesis using d by (simp add: switch_separate_string_def)
qed

section \<open>Properties\<close>

text \<open>C28: any list of fields, written with the documented backslash escapes and joined by a delimiter, is
  read back by \<open>switch_separate_string\<close> exactly, whatever characters the fields hold, as long as
  they fit the array, the last one is not empty and the text does not open with the delimiter
  override \<open>^^\<close>.\<close>

theorem separate_string_reads_back:
  assumes "usable_delim d" and "fs \<noteq> []" and "last fs \<noteq> []" and "length fs \<le> arraylen"
    and "take 2 (join_fields d fs) \<noteq> ''^^''"
  shows "switch_separate_string (join_fields d fs) d arraylen = Inr fs"
  using assms by (rule separate_join)

theorem separate_string_reads_back_witness:
  "switch_separate_string (join_fields CHR '','' [''a,b'', [], [SPACE, QUOTE, ESCAPE_META]]) CHR '','' 3 =
     Inr [''a,b'', [], [SPACE, QUOTE, ESCAPE_META]]"
  by (rule separate_string_reads_back) (simp_all add: usable_delim_def protect_def numeral_2_eq_2)

text \<open>on a buffer whose backslashes are all followed by a character the splitter never reads past
  the terminating NUL, and it never stores more fields than the array holds.\<close>

theorem separate_string_safe:
  assumes "escapes_closed (fst (delim_override buf d))"
  shows "\<exists>fs. switch_separate_string buf d arraylen = Inr fs \<and> length fs \<le> arraylen"
proof -
  have c: "\<exists>fs. separate_string_char_delim s e arraylen = Inr fs \<and> length fs \<le> arraylen"
    if cl: "escapes_closed s" for s e
  proof -
    obtain fs where "scan_char_delim e (arraylen - 1) False [] s = Inr fs" using scan_char_total [OF cl] by blast
    with scan_char_length [OF this] show ?thesis by (auto simp: separate_string_char_delim_def)
  qed
  have b: "\<exists>fs. separate_string_blank_delim s arraylen = Inr fs \<and> length fs \<le> arraylen"
    if cl: "escapes_closed s" for s
  proof -
    obtain fs where "scan_blank_delim (arraylen - 1) False (rev (takeWhile (\<lambda>c. c = SPACE) s))
      (dropWhile (\<lambda>c. c = SPACE) s) = Inr fs" using scan_blank_total [OF escapes_closed_blank [OF cl]] by blast
    with scan_blank_length [OF this] show ?thesis by (auto simp: separate_string_blank_delim_def)
  qed
  show ?thesis
    using assms b c by (auto simp: switch_separate_string_def split: prod.splits)
qed

theorem separate_string_safe_witness:
  "\<exists>fs. switch_separate_string ''^^:a:b'' CHR '','' 2 = Inr fs \<and> length fs \<le> 2"
  by (rule separate_string_safe) simp

text \<open>plain text that ends in a single backslash drives the scanner past the terminating NUL, for any
  ordinary delimiter and any array of at least two slots.\<close>

theorem separate_string_trailing_backslash:
  assumes "2 \<le> arraylen" and "CHR ''^'' \<notin> set s" and "\<forall>c\<in>set s. c \<notin> {ESCAPE_META, QUOTE, SPACE, d}"
    and "d \<notin> {SPACE, ESCAPE_META, QUOTE}"
  shows "switch_separate_string (s @ [ESCAPE_META]) d arraylen = Inl Out_of_bounds"
proof -
  have "scan_char_delim d n False acc (s @ [ESCAPE_META]) = Inl Out_of_bounds" for n acc
    using assms(3,4) by (induction s arbitrary: acc) auto
  moreover have "delim_override (s @ [ESCAPE_META]) d = (s @ [ESCAPE_META], d)"
    using assms(2) by (cases "(s @ [ESCAPE_META], d)" rule: delim_override.cases) (auto simp: append_eq_Cons_conv)
  ultimately show ?thesis
    using assms(1,4) by (simp add: switch_separate_string_def separate_string_char_delim_def)
qed

theorem separate_string_trailing_backslash_witness:
  "switch_separate_string (''ab'' @ [ESCAPE_META]) CHR '','' 10 = Inl Out_of_bounds"
  by (rule separate_string_trailing_backslash) simp_all

text \<open>\<open>switch_escape_string_pool\<close> never overruns the buffer it allocates, and the clean-up of the
  splitter restores the escaped text when it holds no backslash, quote or dollar sign.\<close>

theorem escape_string_roundtrip:
  assumes "\<forall>c\<in>set s. c \<notin> {ESCAPE_META, QUOTE, CHR ''$''}"
  shows "\<exists>e. switch_escape_string_pool s = Inr e \<and> cleanup_separated_string e NUL = s"
proof -
  let ?e = "concat (map escape_one s)"
  have len: "length ?e \<le> length s * 2"
    by (induction s) (auto simp: escape_one_def)
  have loop: "cleanup_loop NUL False dest en ?e =
    (rev dest @ s, if s = [] then en else Some (length dest + length s))" for dest en
    using assms by (induction s arbitrary: dest en) (auto simp: escape_one_def unescape_char_def Let_def)
  have hd: "dropWhile (\<lambda>c. c = SPACE) ?e = ?e"
    by (cases s) (auto simp: escape_one_def)
  have "s = [] \<longleftrightarrow> ?e = []" by (cases s) (auto simp: escape_one_def)
  with loop [of "[]" None] hd have "cleanup_separated_string ?e NUL = s"
    by (auto simp: cleanup_separated_string_def Let_def)
  with len show ?thesis by (simp add: switch_escape_string_pool_def switch_escape_string_def Let_def)
qed

theorem escape_string_roundtrip_witness:
  "\<exists>e. switch_escape_string_pool '' a b'' = Inr e \<and> cleanup_separated_string e NUL = '' a b''"
  by (rule escape_string_roundtrip) simp

end
