(* ===== verification/Dtmf.thy ===== *)
theory Dtmf
  imports C_String Separate Switch_Queue
begin

unbundle bit_operations_syntax

text \<open>
  DTMF digits on a channel (src/switch\_channel.c) and the digit-duration limits of the core
  (src/switch\_core.c). A channel keeps two bounded queues: the digits received and not yet read, and
  a log of the digits already read. The session's receive hook and the channel variable that marks
  digits as sensitive are parameters.
\<close>

section \<open>Duration limits\<close>

record dtmf_runtime =
  max_dtmf_duration :: uint32
  min_dtmf_duration :: uint32
  default_dtmf_duration :: uint32

definition SWITCH_MIN_DTMF_DURATION :: uint32 where "SWITCH_MIN_DTMF_DURATION = 400"
definition SWITCH_MAX_DTMF_DURATION :: uint32 where "SWITCH_MAX_DTMF_DURATION = 192000"
definition SWITCH_DEFAULT_DTMF_DURATION :: uint32 where "SWITCH_DEFAULT_DTMF_DURATION = 2000"

definition runtime_init :: dtmf_runtime where
  "runtime_init =
     \<lparr>max_dtmf_duration = SWITCH_MAX_DTMF_DURATION, min_dtmf_duration = SWITCH_MIN_DTMF_DURATION,
      default_dtmf_duration = SWITCH_DEFAULT_DTMF_DURATION\<rparr>"

definition switch_core_max_dtmf_duration :: "dtmf_runtime \<Rightarrow> uint32 \<Rightarrow> uint32 \<times> dtmf_runtime" where
  "switch_core_max_dtmf_duration rt duration =
     (let rt' =
        (if duration \<noteq> 0 then
           let d = (if duration > SWITCH_MAX_DTMF_DURATION then SWITCH_MAX_DTMF_DURATION else duration);
               d = (if d < SWITCH_MIN_DTMF_DURATION then SWITCH_MIN_DTMF_DURATION else d);
               rt1 = rt\<lparr>max_dtmf_duration := d\<rparr>
           in if d < min_dtmf_duration rt1 then rt1\<lparr>min_dtmf_duration := d\<rparr> else rt1
         else rt)
      in (max_dtmf_duration rt', rt'))"

definition switch_core_default_dtmf_duration :: "dtmf_runtime \<Rightarrow> uint32 \<Rightarrow> uint32 \<times> dtmf_runtime" where
  "switch_core_default_dtmf_duration rt duration =
     (let rt' =
        (if duration \<noteq> 0 then
           let d = (if duration < SWITCH_MIN_DTMF_DURATION then SWITCH_MIN_DTMF_DURATION else duration);
               d = (if d > SWITCH_MAX_DTMF_DURATION then SWITCH_MAX_DTMF_DURATION else d);
               rt1 = rt\<lparr>default_dtmf_duration := d\<rparr>;
               rt2 = (if d < min_dtmf_duration rt1 then rt1\<lparr>min_dtmf_duration := d\<rparr> else rt1)
           in if d > max_dtmf_duration rt2 then rt2\<lparr>max_dtmf_duration := d\<rparr> else rt2
         else rt)
      in (default_dtmf_duration rt', rt'))"

definition switch_core_min_dtmf_duration :: "dtmf_runtime \<Rightarrow> uint32 \<Rightarrow> uint32 \<times> dtmf_runtime" where
  "switch_core_min_dtmf_duration rt duration =
     (let rt' =
        (if duration \<noteq> 0 then
           let d = (if duration < SWITCH_MIN_DTMF_DURATION then SWITCH_MIN_DTMF_DURATION else duration);
               d = (if d > SWITCH_MAX_DTMF_DURATION then SWITCH_MAX_DTMF_DURATION else d);
               rt1 = rt\<lparr>min_dtmf_duration := d\<rparr>
           in if d > max_dtmf_duration rt1 then rt1\<lparr>max_dtmf_duration := d\<rparr> else rt1
         else rt)
      in (min_dtmf_duration rt', rt'))"

section \<open>Digits and queues\<close>

datatype dtmf_source =
  SWITCH_DTMF_UNKNOWN | SWITCH_DTMF_INBAND_AUDIO | SWITCH_DTMF_RTP | SWITCH_DTMF_ENDPOINT | SWITCH_DTMF_APP

record dtmf =
  dt_digit :: char
  dt_duration :: uint32
  dt_flags :: uint32
  dt_source :: dtmf_source

definition DTMF_FLAG_SKIP_PROCESS :: uint32 where "DTMF_FLAG_SKIP_PROCESS = 1"
definition DTMF_FLAG_SENSITIVE :: uint32 where "DTMF_FLAG_SENSITIVE = 2"
definition SWITCH_DTMF_LOG_LEN :: nat where "SWITCH_DTMF_LOG_LEN = 1000"

definition dtmf_sensitive :: "dtmf \<Rightarrow> bool" where
  "dtmf_sensitive d \<longleftrightarrow> dt_flags d AND DTMF_FLAG_SENSITIVE \<noteq> 0"

definition is_dtmf :: "char \<Rightarrow> bool" where
  "is_dtmf c \<longleftrightarrow>
     (let key = char_code c in
      (key > 47 \<and> key < 58) \<or> (key > 64 \<and> key < 69) \<or> (key > 96 \<and> key < 101) \<or>
      key = 35 \<or> key = 42 \<or> key = 87 \<or> key = 119 \<or> key = 70 \<or> key = 102)"

definition no_digit :: dtmf where
  "no_digit = \<lparr>dt_digit = CHR 0x00, dt_duration = 0, dt_flags = 0, dt_source = SWITCH_DTMF_UNKNOWN\<rparr>"

record dtmf_channel =
  dtmf_queue :: "dtmf apr_queue"
  dtmf_log_queue :: "dtmf apr_queue"

definition switch_channel_has_dtmf :: "dtmf_channel \<Rightarrow> nat" where
  "switch_channel_has_dtmf ch = switch_queue_size (dtmf_queue ch)"

text \<open>Pushing, dropping the oldest digit while the queue refuses; 101 refusals give up.\<close>

fun push_dropping :: "nat \<Rightarrow> dtmf \<Rightarrow> dtmf apr_queue \<Rightarrow> bool \<times> dtmf apr_queue" where
  "push_dropping n dt q =
     (case switch_queue_trypush q dt of (s, q1) \<Rightarrow>
        if s = APR_SUCCESS then (True, q1)
        else case switch_queue_trypop q1 of (_, _, q2) \<Rightarrow>
          if n = 0 then (False, q2) else push_dropping (n - 1) dt q2)"

declare push_dropping.simps [simp del]

definition clamp_queued :: "dtmf_runtime \<Rightarrow> dtmf \<Rightarrow> dtmf" where
  "clamp_queued rt d =
     (let d1 =
        (if dt_digit d \<noteq> CHR ''w'' \<and> dt_digit d \<noteq> CHR ''W'' then
           if dt_duration d > max_dtmf_duration rt then d\<lparr>dt_duration := max_dtmf_duration rt\<rparr>
           else if dt_duration d < min_dtmf_duration rt then d\<lparr>dt_duration := min_dtmf_duration rt\<rparr>
           else d
         else d)
      in if dt_duration d1 = 0 then d1\<lparr>dt_duration := default_dtmf_duration rt\<rparr> else d1)"

definition switch_channel_queue_dtmf ::
  "dtmf_runtime \<Rightarrow> bool \<Rightarrow> (dtmf \<Rightarrow> bool) \<Rightarrow> dtmf_channel \<Rightarrow> dtmf \<Rightarrow> switch_status \<times> dtmf_channel" where
  "switch_channel_queue_dtmf rt sensitive recv_dtmf ch d =
     (let new_dtmf = (if sensitive then d\<lparr>dt_flags := dt_flags d OR DTMF_FLAG_SENSITIVE\<rparr> else d) in
      if \<not> recv_dtmf d then (SWITCH_STATUS_FALSE, ch)
      else if is_dtmf (dt_digit new_dtmf) then
        (case push_dropping 100 (clamp_queued rt new_dtmf) (dtmf_queue ch) of (ok, q) \<Rightarrow>
           (if ok then SWITCH_STATUS_SUCCESS else SWITCH_STATUS_FALSE, ch\<lparr>dtmf_queue := q\<rparr>))
      else (SWITCH_STATUS_SUCCESS, ch))"

text \<open>
  Reading a digit. Besides the digit the call hands out (or fires) a DTMF event unless the digit is
  sensitive; the queue's node ends up in the log, freed, or, for a sensitive digit, neither.
\<close>

datatype node_fate = Node_logged | Node_freed | Node_leaked

definition clamp_read :: "dtmf_runtime \<Rightarrow> dtmf \<Rightarrow> dtmf" where
  "clamp_read rt d =
     (if dt_duration d > max_dtmf_duration rt then d\<lparr>dt_duration := max_dtmf_duration rt\<rparr>
      else if dt_duration d < min_dtmf_duration rt then d\<lparr>dt_duration := min_dtmf_duration rt\<rparr>
      else if dt_duration d = 0 then d\<lparr>dt_duration := default_dtmf_duration rt\<rparr>
      else d)"

definition log_read :: "dtmf \<Rightarrow> dtmf apr_queue \<Rightarrow> node_fate \<times> dtmf apr_queue" where
  "log_read d lq =
     (if dtmf_sensitive d then (Node_leaked, lq)
      else case switch_queue_trypush lq d of (s, lq') \<Rightarrow>
        (if s = APR_SUCCESS then Node_logged else Node_freed, lq'))"

record dtmf_read =
  rd_dtmf :: dtmf
  rd_event :: bool
  rd_node :: node_fate

definition switch_channel_dequeue_dtmf ::
  "dtmf_runtime \<Rightarrow> dtmf_channel \<Rightarrow> switch_status \<times> dtmf_read option \<times> dtmf_channel" where
  "switch_channel_dequeue_dtmf rt ch =
     (case switch_queue_trypop (dtmf_queue ch) of
        (s, Some dt, q) \<Rightarrow>
          (case log_read dt (dtmf_log_queue ch) of (fate, lq) \<Rightarrow>
             (SWITCH_STATUS_SUCCESS,
              Some \<lparr>rd_dtmf = clamp_read rt dt, rd_event = (\<not> dtmf_sensitive dt), rd_node = fate\<rparr>,
              ch\<lparr>dtmf_queue := q, dtmf_log_queue := lq\<rparr>))
      | (s, None, q) \<Rightarrow> (SWITCH_STATUS_FALSE, None, ch\<lparr>dtmf_queue := q\<rparr>))"

text \<open>\<open>len - 1\<close> is unsigned: a zero-length buffer does not stop the loop before the queue is empty.\<close>

fun dequeue_chars :: "dtmf_runtime \<Rightarrow> nat \<Rightarrow> nat \<Rightarrow> dtmf_channel \<Rightarrow> string \<times> dtmf_channel" where
  "dequeue_chars rt limit 0 ch = ([], ch)"
| "dequeue_chars rt limit (Suc fuel) ch =
     (if limit = 0 then ([], ch)
      else case switch_channel_dequeue_dtmf rt ch of
          (SWITCH_STATUS_SUCCESS, Some r, ch') \<Rightarrow>
            (case dequeue_chars rt (limit - 1) fuel ch' of (cs, ch'') \<Rightarrow> (dt_digit (rd_dtmf r) # cs, ch''))
        | (_, _, ch') \<Rightarrow> ([], ch'))"

definition switch_channel_dequeue_dtmf_string ::
  "dtmf_runtime \<Rightarrow> dtmf_channel \<Rightarrow> nat \<Rightarrow> fault + (nat \<times> string \<times> dtmf_channel)" where
  "switch_channel_dequeue_dtmf_string rt ch len =
     (case dequeue_chars rt (size_sub len 1) (Suc (nelts (dtmf_queue ch))) ch of (cs, ch') \<Rightarrow>
        if length cs \<le> len then Inr (length cs, cs, ch') else Inl Out_of_bounds)"

fun flush_loop :: "bool \<Rightarrow> nat \<Rightarrow> dtmf_channel \<Rightarrow> dtmf_channel" where
  "flush_loop hungup 0 ch = ch"
| "flush_loop hungup (Suc fuel) ch =
     (case switch_queue_trypop (dtmf_queue ch) of
        (_, None, q) \<Rightarrow> ch\<lparr>dtmf_queue := q\<rparr>
      | (_, Some dt, q) \<Rightarrow>
          flush_loop hungup fuel
            (ch\<lparr>dtmf_queue := q,
               dtmf_log_queue := (if hungup then dtmf_log_queue ch
                                  else snd (switch_queue_trypush (dtmf_log_queue ch) dt))\<rparr>))"

definition switch_channel_flush_dtmf :: "bool \<Rightarrow> dtmf_channel \<Rightarrow> dtmf_channel" where
  "switch_channel_flush_dtmf hungup ch = flush_loop hungup (Suc (nelts (dtmf_queue ch))) ch"

section \<open>Digit strings\<close>

text \<open>\<open>arg_duration\<close> is the length given after an \<open>@\<close>, in milliseconds, as samples.\<close>

definition arg_duration :: "dtmf_runtime \<Rightarrow> string \<Rightarrow> string \<times> uint32" where
  "arg_duration rt arg =
     (let dflt = default_dtmf_duration rt in
      if CHR ''@'' \<in> set arg then
        let p = tl (dropWhile (\<lambda>c. c \<noteq> CHR ''@'') arg); dur = atoi p in
        (takeWhile (\<lambda>c. c \<noteq> CHR ''@'') arg,
         if dur > sint (min_dtmf_duration rt) div 8 then word_of_int (dur * 8) else dflt)
      else (arg, dflt))"

definition clamp_string :: "dtmf_runtime \<Rightarrow> uint32 \<Rightarrow> uint32" where
  "clamp_string rt dur =
     (if dur > max_dtmf_duration rt then max_dtmf_duration rt
      else if dur < min_dtmf_duration rt then min_dtmf_duration rt
      else if dur = 0 then default_dtmf_duration rt else dur)"

fun queue_digits ::
  "dtmf_runtime \<Rightarrow> bool \<Rightarrow> (dtmf \<Rightarrow> bool) \<Rightarrow> dtmf \<Rightarrow> string \<Rightarrow> nat \<times> dtmf_channel \<Rightarrow> nat \<times> dtmf_channel" where
  "queue_digits rt sensitive recv d [] st = st"
| "queue_digits rt sensitive recv d (c # cs) (sent, ch) =
     (if is_dtmf c then
        let d' = d\<lparr>dt_digit := c, dt_duration := clamp_string rt (dt_duration d)\<rparr> in
        case switch_channel_queue_dtmf rt sensitive recv ch d' of (s, ch') \<Rightarrow>
          queue_digits rt sensitive recv d' cs
            (if s = SWITCH_STATUS_SUCCESS then sent + 1 else sent, ch')
      else queue_digits rt sensitive recv d cs (sent, ch))"

fun queue_args ::
  "dtmf_runtime \<Rightarrow> bool \<Rightarrow> (dtmf \<Rightarrow> bool) \<Rightarrow> dtmf \<Rightarrow> string list \<Rightarrow> nat \<times> dtmf_channel \<Rightarrow> nat \<times> dtmf_channel" where
  "queue_args rt sensitive recv d [] st = st"
| "queue_args rt sensitive recv d (a # as) st =
     (case arg_duration rt a of (digits, dur) \<Rightarrow>
        queue_args rt sensitive recv d as
          (queue_digits rt sensitive recv (d\<lparr>dt_duration := dur\<rparr>) digits st))"

definition switch_channel_queue_dtmf_string ::
  "dtmf_runtime \<Rightarrow> bool \<Rightarrow> (dtmf \<Rightarrow> bool) \<Rightarrow> dtmf_channel \<Rightarrow> string \<Rightarrow> fault + (switch_status \<times> dtmf_channel)" where
  "switch_channel_queue_dtmf_string rt sensitive recv ch s =
     (if s = [] then Inr (SWITCH_STATUS_FALSE, ch)
      else let tilde = (hd s = CHR ''~''); s' = (if tilde then tl s else s);
               d = \<lparr>dt_digit = CHR 0x00, dt_duration = default_dtmf_duration rt,
                     dt_flags = (if tilde then 0 else DTMF_FLAG_SKIP_PROCESS), dt_source = SWITCH_DTMF_APP\<rparr>
           in fbind (switch_separate_string s' CHR ''+'' 256) (\<lambda>argv.
                case queue_args rt sensitive recv d argv (0, ch) of (sent, ch') \<Rightarrow>
                  Inr (if sent > 0 then SWITCH_STATUS_SUCCESS else SWITCH_STATUS_FALSE, ch')))"


section \<open>Limits stay ordered\<close>

definition rt_ok :: "dtmf_runtime \<Rightarrow> bool" where
  "rt_ok rt \<longleftrightarrow> SWITCH_MIN_DTMF_DURATION \<le> min_dtmf_duration rt \<and>
     min_dtmf_duration rt \<le> max_dtmf_duration rt \<and> max_dtmf_duration rt \<le> SWITCH_MAX_DTMF_DURATION"

lemma min_le_max: "SWITCH_MIN_DTMF_DURATION \<le> SWITCH_MAX_DTMF_DURATION" "0 < SWITCH_MIN_DTMF_DURATION"
  by (simp_all add: SWITCH_MIN_DTMF_DURATION_def SWITCH_MAX_DTMF_DURATION_def)

lemma limits_ok:
  assumes "rt_ok rt"
  shows "rt_ok (snd (switch_core_max_dtmf_duration rt d))" "rt_ok (snd (switch_core_min_dtmf_duration rt d))"
    "rt_ok (snd (switch_core_default_dtmf_duration rt d))"
  using assms min_le_max
  by (auto simp: rt_ok_def switch_core_max_dtmf_duration_def switch_core_min_dtmf_duration_def
      switch_core_default_dtmf_duration_def Let_def not_less)

lemma clamp_queued_bounds:
  assumes "rt_ok rt" "dt_digit d \<noteq> CHR ''w''" "dt_digit d \<noteq> CHR ''W''"
  shows "min_dtmf_duration rt \<le> dt_duration (clamp_queued rt d) \<and>
         dt_duration (clamp_queued rt d) \<le> max_dtmf_duration rt"
  using assms min_le_max by (auto simp: rt_ok_def clamp_queued_def Let_def not_less)

lemma clamp_queued_digit [simp]: "dt_digit (clamp_queued rt d) = dt_digit d" "dt_flags (clamp_queued rt d) = dt_flags d"
  by (simp_all add: clamp_queued_def Let_def)

lemma clamp_read_digit [simp]: "dt_digit (clamp_read rt d) = dt_digit d"
  by (simp add: clamp_read_def)

section \<open>The queues\<close>

definition live_queue :: "'a apr_queue \<Rightarrow> bool" where
  "live_queue q \<longleftrightarrow> q_wf q \<and> \<not> terminated q"

definition dtmf_ok :: "dtmf_channel \<Rightarrow> bool" where
  "dtmf_ok ch \<longleftrightarrow> live_queue (dtmf_queue ch) \<and> live_queue (dtmf_log_queue ch)"

lemma live_trypush:
  assumes "live_queue q"
  shows "\<exists>q'. switch_queue_trypush q d = (if nelts q = q_bounds q then APR_EAGAIN else APR_SUCCESS, q') \<and>
    live_queue q' \<and> q_bounds q' = q_bounds q \<and>
    q_list q' = (if nelts q = q_bounds q then q_list q else q_list q @ [d])"
  using assms queue_put_spec [of q d]
  by (auto simp: live_queue_def switch_queue_trypush_def apr_queue_trypush_def apr_queue_full_def)

lemma live_trypop:
  assumes "live_queue q"
  shows "case q_list q of
      [] \<Rightarrow> switch_queue_trypop q = (APR_EAGAIN, None, q)
    | x # xs \<Rightarrow> \<exists>q'. switch_queue_trypop q = (APR_SUCCESS, Some x, q') \<and> live_queue q' \<and>
        q_bounds q' = q_bounds q \<and> q_list q' = xs"
proof (cases "nelts q = 0")
  case True
  then have "q_list q = []" by (simp add: q_list_def)
  then show ?thesis
    using assms True by (simp add: live_queue_def switch_queue_trypop_def apr_queue_trypop_def apr_queue_empty_def)
next
  case False
  then have ne: "\<not> apr_queue_empty q" by (simp add: apr_queue_empty_def)
  with assms queue_take_spec [of q] show ?thesis
    by (auto simp: live_queue_def switch_queue_trypop_def apr_queue_trypop_def split_beta split: list.splits)
qed

lemma live_trypop_Nil: "live_queue q \<Longrightarrow> q_list q = [] \<Longrightarrow> switch_queue_trypop q = (APR_EAGAIN, None, q)"
  using live_trypop [of q] by simp

lemma live_trypop_Cons:
  assumes "live_queue q" "q_list q = x # xs"
  obtains q' where "switch_queue_trypop q = (APR_SUCCESS, Some x, q')" "live_queue q'"
    "q_bounds q' = q_bounds q" "q_list q' = xs"
  using live_trypop [OF assms(1)] assms(2) by auto

text \<open>A full queue loses exactly its oldest digit.\<close>

definition keep_newest :: "nat \<Rightarrow> 'a list \<Rightarrow> 'a list" where
  "keep_newest cap xs = (if length xs = cap then tl xs else xs)"

lemma push_dropping_spec:
  assumes "live_queue q"
  shows "\<exists>q'. push_dropping 100 dt q = (True, q') \<and> live_queue q' \<and> q_bounds q' = q_bounds q \<and>
     q_list q' = keep_newest (q_bounds q) (q_list q) @ [dt]"
proof (cases "nelts q = q_bounds q")
  case False
  then show ?thesis
    using live_trypush [OF assms, of dt]
    by (subst push_dropping.simps) (auto simp: keep_newest_def)
next
  case True
  then have full: "switch_queue_trypush q dt = (APR_EAGAIN, q)"
    using assms by (simp add: live_queue_def trypush_spec)
  have "q_list q \<noteq> []" using assms True by (auto simp: live_queue_def q_wf_def simp flip: length_greater_0_conv)
  then obtain x xs where xs: "q_list q = x # xs" by (cases "q_list q") auto
  from live_trypop_Cons [OF assms xs] obtain q1 where
    q1: "switch_queue_trypop q = (APR_SUCCESS, Some x, q1)" "live_queue q1" "q_bounds q1 = q_bounds q" "q_list q1 = xs"
    by blast
  have "nelts q1 \<noteq> q_bounds q1" using q1 xs True by (metis Suc_n_not_le_n length_Cons order_refl q_list_length)
  then have "\<exists>q'. push_dropping 99 dt q1 = (True, q') \<and> live_queue q' \<and> q_bounds q' = q_bounds q \<and> q_list q' = xs @ [dt]"
    using live_trypush [OF q1(2), of dt] q1 by (subst push_dropping.simps) auto
  moreover have "keep_newest (q_bounds q) (q_list q) = xs"
    using True xs by (metis keep_newest_def list.sel(3) q_list_length)
  ultimately show ?thesis using full q1 by (subst push_dropping.simps) simp
qed

lemma queue_dtmf_spec:
  assumes "dtmf_ok ch" "recv d" "is_dtmf (dt_digit d)"
  shows "\<exists>ch'. switch_channel_queue_dtmf rt sensitive recv ch d = (SWITCH_STATUS_SUCCESS, ch') \<and> dtmf_ok ch' \<and>
     dtmf_log_queue ch' = dtmf_log_queue ch \<and> q_bounds (dtmf_queue ch') = q_bounds (dtmf_queue ch) \<and>
     q_list (dtmf_queue ch') = keep_newest (q_bounds (dtmf_queue ch)) (q_list (dtmf_queue ch)) @
       [clamp_queued rt (if sensitive then d\<lparr>dt_flags := dt_flags d OR DTMF_FLAG_SENSITIVE\<rparr> else d)]"
  using assms push_dropping_spec [of "dtmf_queue ch"
      "clamp_queued rt (if sensitive then d\<lparr>dt_flags := dt_flags d OR DTMF_FLAG_SENSITIVE\<rparr> else d)"]
  by (auto simp: switch_channel_queue_dtmf_def dtmf_ok_def Let_def)

lemma dequeue_dtmf_spec:
  assumes "dtmf_ok ch" "q_list (dtmf_queue ch) = d # ds"
  shows "\<exists>r ch'. switch_channel_dequeue_dtmf rt ch = (SWITCH_STATUS_SUCCESS, Some r, ch') \<and> dtmf_ok ch' \<and>
     rd_dtmf r = clamp_read rt d \<and> rd_event r = (\<not> dtmf_sensitive d) \<and>
     q_list (dtmf_queue ch') = ds \<and> q_bounds (dtmf_queue ch') = q_bounds (dtmf_queue ch) \<and>
     q_list (dtmf_log_queue ch') =
       (if dtmf_sensitive d \<or> nelts (dtmf_log_queue ch) = q_bounds (dtmf_log_queue ch)
        then q_list (dtmf_log_queue ch) else q_list (dtmf_log_queue ch) @ [d])"
proof -
  from assms have lv: "live_queue (dtmf_queue ch)" "live_queue (dtmf_log_queue ch)" by (auto simp: dtmf_ok_def)
  from live_trypop_Cons [OF lv(1) assms(2)] obtain q' where
    q': "switch_queue_trypop (dtmf_queue ch) = (APR_SUCCESS, Some d, q')" "live_queue q'"
    "q_bounds q' = q_bounds (dtmf_queue ch)" "q_list q' = ds" by blast
  from live_trypush [OF lv(2), of d] obtain l' where
    l': "switch_queue_trypush (dtmf_log_queue ch) d =
      (if nelts (dtmf_log_queue ch) = q_bounds (dtmf_log_queue ch) then APR_EAGAIN else APR_SUCCESS, l')"
    "live_queue l'"
    "q_list l' = (if nelts (dtmf_log_queue ch) = q_bounds (dtmf_log_queue ch) then q_list (dtmf_log_queue ch)
                  else q_list (dtmf_log_queue ch) @ [d])" by blast
  show ?thesis
    using q' l' lv by (simp add: switch_channel_dequeue_dtmf_def log_read_def dtmf_ok_def)
qed

lemma queue_digits_spec:
  assumes "dtmf_ok ch" "\<forall>d. recv d" "\<forall>c\<in>set s. is_dtmf c"
    "nelts (dtmf_queue ch) + length s \<le> q_bounds (dtmf_queue ch)"
  shows "\<exists>ch'. queue_digits rt sens recv d s (sent, ch) = (sent + length s, ch') \<and> dtmf_ok ch' \<and>
     map dt_digit (q_list (dtmf_queue ch')) = map dt_digit (q_list (dtmf_queue ch)) @ s"
  using assms
proof (induction s arbitrary: d sent ch)
  case (Cons c s)
  let ?d = "d\<lparr>dt_digit := c, dt_duration := clamp_string rt (dt_duration d)\<rparr>"
  have "is_dtmf (dt_digit ?d)" "recv ?d" using Cons.prems by auto
  with queue_dtmf_spec [of ch recv ?d rt sens] Cons.prems(1) obtain ch1 where
    ch1: "switch_channel_queue_dtmf rt sens recv ch ?d = (SWITCH_STATUS_SUCCESS, ch1)" "dtmf_ok ch1"
    "q_bounds (dtmf_queue ch1) = q_bounds (dtmf_queue ch)"
    "q_list (dtmf_queue ch1) = keep_newest (q_bounds (dtmf_queue ch)) (q_list (dtmf_queue ch)) @
       [clamp_queued rt (if sens then ?d\<lparr>dt_flags := dt_flags ?d OR DTMF_FLAG_SENSITIVE\<rparr> else ?d)]"
    by auto
  have k: "keep_newest (q_bounds (dtmf_queue ch)) (q_list (dtmf_queue ch)) = q_list (dtmf_queue ch)"
    using Cons.prems(4) by (simp add: keep_newest_def)
  then have "nelts (dtmf_queue ch1) = Suc (nelts (dtmf_queue ch))"
    using ch1(4) by (metis length_append_singleton q_list_length)
  then have room: "nelts (dtmf_queue ch1) + length s \<le> q_bounds (dtmf_queue ch1)" using Cons.prems(4) ch1(3) by simp
  from Cons.IH [OF ch1(2) Cons.prems(2) _ room, of ?d "sent + 1"] Cons.prems(3) ch1 k show ?case
    by (auto simp: Let_def)
qed simp

lemma dequeue_chars_spec:
  assumes "dtmf_ok ch" "nelts (dtmf_queue ch) < fuel" "nelts (dtmf_queue ch) \<le> limit"
  shows "\<exists>ch'. dequeue_chars rt limit fuel ch = (map dt_digit (q_list (dtmf_queue ch)), ch') \<and>
     dtmf_ok ch' \<and> q_list (dtmf_queue ch') = []"
  using assms
proof (induction fuel arbitrary: limit ch)
  case (Suc fuel)
  show ?case
  proof (cases "q_list (dtmf_queue ch)")
    case Nil
    then have "switch_queue_trypop (dtmf_queue ch) = (APR_EAGAIN, None, dtmf_queue ch)"
      using Suc.prems(1) live_trypop_Nil [of "dtmf_queue ch"] by (simp add: dtmf_ok_def)
    then show ?thesis using Suc.prems(1) Nil by (simp add: switch_channel_dequeue_dtmf_def)
  next
    case (Cons d ds)
    from dequeue_dtmf_spec [OF Suc.prems(1) Cons, of rt] obtain r ch1 where
      ch1: "switch_channel_dequeue_dtmf rt ch = (SWITCH_STATUS_SUCCESS, Some r, ch1)" "dtmf_ok ch1"
      "rd_dtmf r = clamp_read rt d" "q_list (dtmf_queue ch1) = ds" by blast
    have n: "nelts (dtmf_queue ch1) = length ds" "nelts (dtmf_queue ch) = Suc (length ds)"
      using ch1(4) Cons by (metis q_list_length, metis length_Cons q_list_length)
    have "nelts (dtmf_queue ch1) < fuel" "nelts (dtmf_queue ch1) \<le> limit - 1"
      using n Suc.prems(2,3) by linarith+
    from Suc.IH [OF ch1(2) this] obtain ch2 where
      "dequeue_chars rt (limit - 1) fuel ch1 = (map dt_digit ds, ch2)" "dtmf_ok ch2" "q_list (dtmf_queue ch2) = []"
      unfolding ch1(4) by blast
    moreover have "limit \<noteq> 0" using n(2) Suc.prems(3) by simp
    ultimately show ?thesis using ch1(1,3) Cons by simp
  qed
qed simp

lemma flush_loop_spec:
  assumes "dtmf_ok ch" "nelts (dtmf_queue ch) < fuel"
  shows "dtmf_ok (flush_loop hungup fuel ch) \<and> q_list (dtmf_queue (flush_loop hungup fuel ch)) = [] \<and>
     q_list (dtmf_log_queue (flush_loop hungup fuel ch)) =
       (if hungup then q_list (dtmf_log_queue ch)
        else q_list (dtmf_log_queue ch) @
          take (q_bounds (dtmf_log_queue ch) - nelts (dtmf_log_queue ch)) (q_list (dtmf_queue ch)))"
  using assms
proof (induction fuel arbitrary: ch)
  case (Suc fuel)
  from Suc.prems have lv: "live_queue (dtmf_queue ch)" "live_queue (dtmf_log_queue ch)" by (auto simp: dtmf_ok_def)
  show ?case
  proof (cases "q_list (dtmf_queue ch)")
    case Nil
    then show ?thesis using live_trypop_Nil [OF lv(1)] Suc.prems(1) by simp
  next
    case (Cons d ds)
    from live_trypop_Cons [OF lv(1) Cons] obtain q' where
      q': "switch_queue_trypop (dtmf_queue ch) = (APR_SUCCESS, Some d, q')" "live_queue q'" "q_list q' = ds" by blast
    from live_trypush [OF lv(2), of d] obtain l' where
      l': "snd (switch_queue_trypush (dtmf_log_queue ch) d) = l'" "live_queue l'"
      "q_bounds l' = q_bounds (dtmf_log_queue ch)"
      "q_list l' = (if nelts (dtmf_log_queue ch) = q_bounds (dtmf_log_queue ch) then q_list (dtmf_log_queue ch)
                    else q_list (dtmf_log_queue ch) @ [d])" by auto
    let ?ch = "ch\<lparr>dtmf_queue := q', dtmf_log_queue := (if hungup then dtmf_log_queue ch else l')\<rparr>"
    have n: "nelts q' < fuel" using q' Cons Suc.prems(2) by (metis Suc_less_SucD length_Cons q_list_length)
    have ok: "dtmf_ok ?ch" using q' l' lv by (simp add: dtmf_ok_def)
    have b: "nelts (dtmf_log_queue ch) \<le> q_bounds (dtmf_log_queue ch)" using lv(2) by (simp add: live_queue_def q_wf_def)
    have ln: "nelts l' = length (q_list l')" by simp
    have step: "flush_loop hungup (Suc fuel) ch = flush_loop hungup fuel ?ch" using q'(1) l'(1) by simp
    have tk: "q_list (dtmf_log_queue ch) @ take (q_bounds (dtmf_log_queue ch) - nelts (dtmf_log_queue ch)) (d # ds) =
      q_list l' @ take (q_bounds l' - nelts l') ds"
    proof (cases "nelts (dtmf_log_queue ch) = q_bounds (dtmf_log_queue ch)")
      case True
      then show ?thesis unfolding ln using l'(3,4) by simp
    next
      case False
      then have "q_bounds (dtmf_log_queue ch) - nelts (dtmf_log_queue ch) =
        Suc (q_bounds (dtmf_log_queue ch) - Suc (nelts (dtmf_log_queue ch)))" using b by simp
      then show ?thesis unfolding ln using l'(3,4) False by simp
    qed
    show ?thesis
      unfolding step using Suc.IH [OF ok] n tk q'(3) Cons by simp
  qed
qed simp

lemma dtmf_chars_plain: "is_dtmf c \<Longrightarrow> c \<notin> {CHR ''+'', CHR ''@'', CHR ''~'', CHR ''^'', QUOTE, ESCAPE_META, SPACE}"
  by (auto simp: is_dtmf_def char_code_def Let_def)

section \<open>Properties\<close>

text \<open>the three duration setters keep the core's DTMF limits ordered and within the compiled-in
  bounds, so that a queued digit (other than a pause \<open>w\<close>/\<open>W\<close>) always has a duration between them.\<close>

theorem dtmf_limits_ordered:
  assumes "rt_ok rt"
  shows "rt_ok (snd (switch_core_max_dtmf_duration rt v)) \<and> rt_ok (snd (switch_core_min_dtmf_duration rt v)) \<and>
     rt_ok (snd (switch_core_default_dtmf_duration rt v)) \<and>
     (dt_digit d \<noteq> CHR ''w'' \<and> dt_digit d \<noteq> CHR ''W'' \<longrightarrow>
        min_dtmf_duration rt \<le> dt_duration (clamp_queued rt d) \<and>
        dt_duration (clamp_queued rt d) \<le> max_dtmf_duration rt)"
  using limits_ok [OF assms, of v] clamp_queued_bounds [OF assms, of d] by simp

theorem dtmf_limits_ordered_witness:
  "rt_ok (snd (switch_core_max_dtmf_duration runtime_init 100)) \<and>
   min_dtmf_duration (snd (switch_core_max_dtmf_duration runtime_init 100)) = 400"
proof -
  have "rt_ok runtime_init"
    by (simp add: rt_ok_def runtime_init_def SWITCH_MIN_DTMF_DURATION_def SWITCH_MAX_DTMF_DURATION_def)
  from dtmf_limits_ordered [OF this, of 100] show ?thesis
    by (simp add: switch_core_max_dtmf_duration_def runtime_init_def SWITCH_MIN_DTMF_DURATION_def
        SWITCH_MAX_DTMF_DURATION_def)
qed

text \<open>C37: a string of digits queued on a channel whose queue is empty and has room for it, and whose receive
  hook accepts every digit, is read back in order and complete by \<open>switch_channel_dequeue_dtmf_string\<close> into a
  buffer with room, and the queue is empty afterwards.\<close>

theorem dtmf_string_roundtrip:
  assumes "dtmf_ok ch" and "q_list (dtmf_queue ch) = []" and "\<forall>d. recv d"
    and "s \<noteq> []" and "\<forall>c\<in>set s. is_dtmf c" and "length s \<le> q_bounds (dtmf_queue ch)"
    and "length s < len" and "len < size_max"
  shows "\<exists>ch1 ch2. switch_channel_queue_dtmf_string rt sens recv ch s = Inr (SWITCH_STATUS_SUCCESS, ch1) \<and>
     switch_channel_dequeue_dtmf_string rt ch1 len = Inr (length s, s, ch2) \<and> q_list (dtmf_queue ch2) = []"
proof -
  have plain: "\<forall>c\<in>set s. c \<notin> {CHR ''+'', CHR ''@'', CHR ''~'', CHR ''^'', QUOTE, ESCAPE_META, SPACE}"
    using assms(5) dtmf_chars_plain by blast
  then have pf: "protect_field CHR ''+'' s = s"
    by (induction s) (auto simp: protect_def)
  have "take 2 s \<noteq> ''^^''" using plain by (cases s) auto
  then have sep: "switch_separate_string s CHR ''+'' 256 = Inr [s]"
    using separate_join [of "CHR ''+''" "[s]" 256] assms(4) by (simp add: usable_delim_def pf)
  have hd: "hd s \<noteq> CHR ''~''" "CHR ''@'' \<notin> set s" using plain assms(4) by (auto simp: hd_in_set)
  have n0: "nelts (dtmf_queue ch) = 0" using assms(2) by (metis list.size(3) q_list_length)
  define d where "d = \<lparr>dt_digit = CHR 0x00, dt_duration = default_dtmf_duration rt,
    dt_flags = DTMF_FLAG_SKIP_PROCESS, dt_source = SWITCH_DTMF_APP\<rparr>"
  obtain ch1 where ch1: "queue_digits rt sens recv (d\<lparr>dt_duration := default_dtmf_duration rt\<rparr>) s (0, ch) = (length s, ch1)"
    "dtmf_ok ch1" "map dt_digit (q_list (dtmf_queue ch1)) = s"
    using queue_digits_spec [OF assms(1,3,5), of rt sens "d\<lparr>dt_duration := default_dtmf_duration rt\<rparr>" 0]
      assms(2,6) n0 by auto
  then have q: "switch_channel_queue_dtmf_string rt sens recv ch s = Inr (SWITCH_STATUS_SUCCESS, ch1)"
    using sep hd assms(4)
    by (simp add: switch_channel_queue_dtmf_string_def Let_def arg_duration_def d_def)
  have n1: "nelts (dtmf_queue ch1) = length s" using ch1(3) by (metis length_map q_list_length)
  have sub: "size_sub len 1 = len - 1" using assms(7,8) by (intro size_sub_no_wrap) auto
  have lim: "nelts (dtmf_queue ch1) \<le> len - 1" using n1 assms(7) by simp
  from dequeue_chars_spec [OF ch1(2) lessI lim, of rt] obtain ch2 where
    "dequeue_chars rt (len - 1) (Suc (nelts (dtmf_queue ch1))) ch1 = (s, ch2)" "q_list (dtmf_queue ch2) = []"
    using ch1(3) by auto
  then show ?thesis using q sub assms(7) by (auto simp: switch_channel_dequeue_dtmf_string_def)
qed

theorem dtmf_string_roundtrip_witness:
  "\<exists>ch1 ch2. switch_channel_queue_dtmf_string runtime_init True (\<lambda>_. True)
       \<lparr>dtmf_queue = snd (apr_queue_create no_digit 1000), dtmf_log_queue = snd (apr_queue_create no_digit 1000)\<rparr>
       ''12#'' = Inr (SWITCH_STATUS_SUCCESS, ch1) \<and>
     switch_channel_dequeue_dtmf_string runtime_init ch1 8 = Inr (3, ''12#'', ch2) \<and> q_list (dtmf_queue ch2) = []"
proof -
  let ?ch = "\<lparr>dtmf_queue = snd (apr_queue_create no_digit 1000), dtmf_log_queue = snd (apr_queue_create no_digit 1000)\<rparr>"
  have ok: "dtmf_ok ?ch" "q_list (dtmf_queue ?ch) = []" "q_bounds (dtmf_queue ?ch) = 1000"
    by (simp_all add: dtmf_ok_def live_queue_def q_wf_def apr_queue_create_def q_list_def)
  have d: "\<forall>c\<in>set ''12#''. is_dtmf c" by (simp add: is_dtmf_def char_code_def)
  show ?thesis
    using dtmf_string_roundtrip [of ?ch "\<lambda>_. True" "''12#''" 8 runtime_init True] ok d
    by (simp add: size_max_def numeral_3_eq_3)
qed

text \<open>reading a digit returns the oldest one; a digit marked sensitive is never written to the digit
  log and never announced in an event, any other one is logged while the log has room.\<close>

theorem dequeue_dtmf_privacy:
  assumes "dtmf_ok ch" and "q_list (dtmf_queue ch) = d # ds"
  shows "\<exists>r ch'. switch_channel_dequeue_dtmf rt ch = (SWITCH_STATUS_SUCCESS, Some r, ch') \<and>
     dt_digit (rd_dtmf r) = dt_digit d \<and> q_list (dtmf_queue ch') = ds \<and>
     rd_event r = (\<not> dtmf_sensitive d) \<and>
     q_list (dtmf_log_queue ch') =
       (if dtmf_sensitive d \<or> nelts (dtmf_log_queue ch) = q_bounds (dtmf_log_queue ch)
        then q_list (dtmf_log_queue ch) else q_list (dtmf_log_queue ch) @ [d])"
  using dequeue_dtmf_spec [OF assms, of rt] by fastforce

theorem dequeue_dtmf_privacy_witness:
  "\<exists>r ch'. switch_channel_dequeue_dtmf runtime_init
      \<lparr>dtmf_queue = queue_put \<lparr>dt_digit = CHR ''5'', dt_duration = 2000, dt_flags = 2, dt_source = SWITCH_DTMF_RTP\<rparr>
           (snd (apr_queue_create no_digit 1)),
        dtmf_log_queue = snd (apr_queue_create no_digit 1)\<rparr> = (SWITCH_STATUS_SUCCESS, Some r, ch') \<and>
     dt_digit (rd_dtmf r) = CHR ''5'' \<and> \<not> rd_event r \<and> q_list (dtmf_log_queue ch') = []"
proof -
  let ?d = "\<lparr>dt_digit = CHR ''5'', dt_duration = 2000, dt_flags = 2, dt_source = SWITCH_DTMF_RTP\<rparr>"
  let ?ch = "\<lparr>dtmf_queue = queue_put ?d (snd (apr_queue_create no_digit 1)),
    dtmf_log_queue = snd (apr_queue_create no_digit 1)\<rparr>"
  have ok: "dtmf_ok ?ch" "q_list (dtmf_queue ?ch) = [?d]" "dtmf_sensitive ?d" "q_list (dtmf_log_queue ?ch) = []"
    by (simp_all add: dtmf_ok_def live_queue_def q_wf_def apr_queue_create_def queue_put_def q_list_def
        dtmf_sensitive_def DTMF_FLAG_SENSITIVE_def)
  from dequeue_dtmf_privacy [OF ok(1,2), of runtime_init] ok(3,4) show ?thesis by auto
qed

text \<open>flushing empties the digit queue; unless the channel is hung up, every flushed digit that fits
  is moved to the log, digits marked sensitive included.\<close>

theorem flush_dtmf_moves_to_log:
  assumes "dtmf_ok ch"
  shows "q_list (dtmf_queue (switch_channel_flush_dtmf hungup ch)) = [] \<and>
     q_list (dtmf_log_queue (switch_channel_flush_dtmf hungup ch)) =
       (if hungup then q_list (dtmf_log_queue ch)
        else q_list (dtmf_log_queue ch) @
          take (q_bounds (dtmf_log_queue ch) - nelts (dtmf_log_queue ch)) (q_list (dtmf_queue ch)))"
  using flush_loop_spec [OF assms, of "Suc (nelts (dtmf_queue ch))" hungup]
  by (simp add: switch_channel_flush_dtmf_def)

theorem flush_dtmf_moves_to_log_witness:
  "q_list (dtmf_log_queue (switch_channel_flush_dtmf False
      \<lparr>dtmf_queue = queue_put \<lparr>dt_digit = CHR ''5'', dt_duration = 2000, dt_flags = 2, dt_source = SWITCH_DTMF_RTP\<rparr>
           (snd (apr_queue_create no_digit 1)),
        dtmf_log_queue = snd (apr_queue_create no_digit 1)\<rparr>)) =
   [\<lparr>dt_digit = CHR ''5'', dt_duration = 2000, dt_flags = 2, dt_source = SWITCH_DTMF_RTP\<rparr>]"
proof -
  let ?d = "\<lparr>dt_digit = CHR ''5'', dt_duration = 2000, dt_flags = 2, dt_source = SWITCH_DTMF_RTP\<rparr>"
  let ?ch = "\<lparr>dtmf_queue = queue_put ?d (snd (apr_queue_create no_digit 1)),
    dtmf_log_queue = snd (apr_queue_create no_digit 1)\<rparr>"
  have ok: "dtmf_ok ?ch" "q_list (dtmf_queue ?ch) = [?d]" "q_list (dtmf_log_queue ?ch) = []"
    "q_bounds (dtmf_log_queue ?ch) = 1" "nelts (dtmf_log_queue ?ch) = 0"
    by (simp_all add: dtmf_ok_def live_queue_def q_wf_def apr_queue_create_def queue_put_def q_list_def)
  from flush_dtmf_moves_to_log [OF ok(1), of False] ok(2-5) show ?thesis by simp
qed

end
