(* ===== verification/Channel_Names.thy ===== *)
theory Channel_Names
  imports C_String
begin

text \<open>
  The name tables of src/switch\_channel.c: hang-up causes, call states, device states and channel
  states, with the lookups in both directions. Causes are kept as their numbers, the values of
  \<open>switch_call_cause_t\<close>.
\<close>

section \<open>Hang-up causes\<close>

definition SWITCH_CAUSE_NONE :: int where "SWITCH_CAUSE_NONE = 0"
definition SWITCH_CAUSE_NORMAL_CLEARING :: int where "SWITCH_CAUSE_NORMAL_CLEARING = 16"
definition SWITCH_CAUSE_INTERWORKING :: int where "SWITCH_CAUSE_INTERWORKING = 127"

definition CAUSE_CHART :: "(string \<times> int) list" where
  "CAUSE_CHART =
     [(''NONE'', 0), (''UNALLOCATED_NUMBER'', 1), (''NO_ROUTE_TRANSIT_NET'', 2),
      (''NO_ROUTE_DESTINATION'', 3), (''CHANNEL_UNACCEPTABLE'', 6), (''CALL_AWARDED_DELIVERED'', 7),
      (''NORMAL_CLEARING'', 16), (''USER_BUSY'', 17), (''NO_USER_RESPONSE'', 18),
      (''NO_ANSWER'', 19), (''SUBSCRIBER_ABSENT'', 20), (''CALL_REJECTED'', 21),
      (''NUMBER_CHANGED'', 22), (''REDIRECTION_TO_NEW_DESTINATION'', 23), (''EXCHANGE_ROUTING_ERROR'', 25),
      (''DESTINATION_OUT_OF_ORDER'', 27), (''INVALID_NUMBER_FORMAT'', 28), (''FACILITY_REJECTED'', 29),
      (''RESPONSE_TO_STATUS_ENQUIRY'', 30), (''NORMAL_UNSPECIFIED'', 31), (''NORMAL_CIRCUIT_CONGESTION'', 34),
      (''NETWORK_OUT_OF_ORDER'', 38), (''NORMAL_TEMPORARY_FAILURE'', 41), (''SWITCH_CONGESTION'', 42),
      (''ACCESS_INFO_DISCARDED'', 43), (''REQUESTED_CHAN_UNAVAIL'', 44), (''PRE_EMPTED'', 45),
      (''FACILITY_NOT_SUBSCRIBED'', 50), (''OUTGOING_CALL_BARRED'', 52), (''INCOMING_CALL_BARRED'', 54),
      (''BEARERCAPABILITY_NOTAUTH'', 57), (''BEARERCAPABILITY_NOTAVAIL'', 58), (''SERVICE_UNAVAILABLE'', 63),
      (''BEARERCAPABILITY_NOTIMPL'', 65), (''CHAN_NOT_IMPLEMENTED'', 66), (''FACILITY_NOT_IMPLEMENTED'', 69),
      (''SERVICE_NOT_IMPLEMENTED'', 79), (''INVALID_CALL_REFERENCE'', 81), (''INCOMPATIBLE_DESTINATION'', 88),
      (''INVALID_MSG_UNSPECIFIED'', 95), (''MANDATORY_IE_MISSING'', 96), (''MESSAGE_TYPE_NONEXIST'', 97),
      (''WRONG_MESSAGE'', 98), (''IE_NONEXIST'', 99), (''INVALID_IE_CONTENTS'', 100),
      (''WRONG_CALL_STATE'', 101), (''RECOVERY_ON_TIMER_EXPIRE'', 102), (''MANDATORY_IE_LENGTH_ERROR'', 103),
      (''PROTOCOL_ERROR'', 111), (''INTERWORKING'', 127), (''SUCCESS'', 142),
      (''ORIGINATOR_CANCEL'', 487), (''CRASH'', 500), (''SYSTEM_SHUTDOWN'', 501),
      (''LOSE_RACE'', 502), (''MANAGER_REQUEST'', 503), (''BLIND_TRANSFER'', 600),
      (''ATTENDED_TRANSFER'', 601), (''ALLOTTED_TIMEOUT'', 602), (''USER_CHALLENGE'', 603),
      (''MEDIA_TIMEOUT'', 604), (''PICKED_OFF'', 605), (''USER_NOT_REGISTERED'', 606),
      (''PROGRESS_TIMEOUT'', 607), (''INVALID_GATEWAY'', 608), (''GATEWAY_DOWN'', 609),
      (''INVALID_URL'', 610), (''INVALID_PROFILE'', 611), (''NO_PICKUP'', 612)]"

fun name_of :: "(string \<times> 'a) list \<Rightarrow> 'a \<Rightarrow> string" where
  "name_of [] v = ''UNKNOWN''"
| "name_of ((n, w) # t) v = (if w = v then n else name_of t v)"

fun value_of :: "(string \<times> 'a) list \<Rightarrow> 'a \<Rightarrow> string \<Rightarrow> 'a" where
  "value_of [] dflt s = dflt"
| "value_of ((n, w) # t) dflt s = (if strcasecmp_eq n s then w else value_of t dflt s)"

definition switch_channel_cause2str :: "int \<Rightarrow> string" where
  "switch_channel_cause2str cause = name_of CAUSE_CHART cause"

definition first_is_digit :: "string \<Rightarrow> bool" where
  "first_is_digit s \<longleftrightarrow> s \<noteq> [] \<and> is_digit (hd s)"

definition switch_channel_str2cause :: "string \<Rightarrow> int" where
  "switch_channel_str2cause s =
     (if first_is_digit s then atoi s else value_of CAUSE_CHART SWITCH_CAUSE_NONE s)"

definition switch_channel_cause_q850 :: "int \<Rightarrow> int" where
  "switch_channel_cause_q850 cause =
     (if cause \<le> SWITCH_CAUSE_INTERWORKING then cause else SWITCH_CAUSE_NORMAL_CLEARING)"

section \<open>Call states and device states\<close>

datatype switch_channel_callstate =
  CCS_DOWN | CCS_DIALING | CCS_RINGING | CCS_EARLY | CCS_ACTIVE | CCS_HELD | CCS_RING_WAIT | CCS_HANGUP
  | CCS_UNHOLD

fun callstate_num :: "switch_channel_callstate \<Rightarrow> int" where
  "callstate_num CCS_DOWN = 0" | "callstate_num CCS_DIALING = 1" | "callstate_num CCS_RINGING = 2"
| "callstate_num CCS_EARLY = 3" | "callstate_num CCS_ACTIVE = 4" | "callstate_num CCS_HELD = 5"
| "callstate_num CCS_RING_WAIT = 6" | "callstate_num CCS_HANGUP = 7" | "callstate_num CCS_UNHOLD = 8"

definition CALLSTATE_CHART :: "(string \<times> int) list" where
  "CALLSTATE_CHART =
     [(''DOWN'', callstate_num CCS_DOWN), (''DIALING'', callstate_num CCS_DIALING),
      (''RINGING'', callstate_num CCS_RINGING), (''EARLY'', callstate_num CCS_EARLY),
      (''ACTIVE'', callstate_num CCS_ACTIVE), (''HELD'', callstate_num CCS_HELD),
      (''RING_WAIT'', callstate_num CCS_RING_WAIT), (''HANGUP'', callstate_num CCS_HANGUP),
      (''UNHOLD'', callstate_num CCS_UNHOLD)]"

definition switch_channel_callstate2str :: "int \<Rightarrow> string" where
  "switch_channel_callstate2str callstate = name_of CALLSTATE_CHART callstate"

definition switch_channel_str2callstate :: "string \<Rightarrow> int" where
  "switch_channel_str2callstate s = (if first_is_digit s then atoi s else value_of CALLSTATE_CHART 0 s)"

datatype switch_device_state = SDS_DOWN | SDS_RINGING | SDS_ACTIVE | SDS_ACTIVE_MULTI | SDS_HELD | SDS_HANGUP

definition DEVICE_STATE_CHART :: "(string \<times> switch_device_state) list" where
  "DEVICE_STATE_CHART =
     [(''DOWN'', SDS_DOWN), (''RINGING'', SDS_RINGING), (''ACTIVE'', SDS_ACTIVE),
      (''ACTIVE_MULTI'', SDS_ACTIVE_MULTI), (''HELD'', SDS_HELD), (''HANGUP'', SDS_HANGUP)]"

definition switch_channel_device_state2str :: "switch_device_state \<Rightarrow> string" where
  "switch_channel_device_state2str device_state = name_of DEVICE_STATE_CHART device_state"

section \<open>Channel states\<close>

datatype switch_channel_state =
  CS_NEW | CS_INIT | CS_ROUTING | CS_SOFT_EXECUTE | CS_EXECUTE | CS_EXCHANGE_MEDIA | CS_PARK
  | CS_CONSUME_MEDIA | CS_HIBERNATE | CS_RESET | CS_HANGUP | CS_REPORTING | CS_DESTROY | CS_NONE

fun state_num :: "switch_channel_state \<Rightarrow> nat" where
  "state_num CS_NEW = 0" | "state_num CS_INIT = 1" | "state_num CS_ROUTING = 2" | "state_num CS_SOFT_EXECUTE = 3"
| "state_num CS_EXECUTE = 4" | "state_num CS_EXCHANGE_MEDIA = 5" | "state_num CS_PARK = 6" | "state_num CS_CONSUME_MEDIA = 7"
| "state_num CS_HIBERNATE = 8" | "state_num CS_RESET = 9" | "state_num CS_HANGUP = 10" | "state_num CS_REPORTING = 11"
| "state_num CS_DESTROY = 12" | "state_num CS_NONE = 13"

lemma state_num_inj: "state_num a = state_num b \<Longrightarrow> a = b"
  by (cases a; cases b) simp_all

text \<open>The enumeration's order, which the code compares with.\<close>

instantiation switch_channel_state :: linorder
begin

definition less_eq_switch_channel_state :: "switch_channel_state \<Rightarrow> switch_channel_state \<Rightarrow> bool" where
  "less_eq_switch_channel_state a b \<longleftrightarrow> state_num a \<le> state_num b"

definition less_switch_channel_state :: "switch_channel_state \<Rightarrow> switch_channel_state \<Rightarrow> bool" where
  "less_switch_channel_state a b \<longleftrightarrow> state_num a < state_num b"

instance
  by standard (auto simp: less_eq_switch_channel_state_def less_switch_channel_state_def intro: state_num_inj)

end

lemmas state_order = less_eq_switch_channel_state_def less_switch_channel_state_def

definition state_names :: "(string \<times> switch_channel_state) list" where
  "state_names =
     [(''CS_NEW'', CS_NEW), (''CS_INIT'', CS_INIT), (''CS_ROUTING'', CS_ROUTING), (''CS_SOFT_EXECUTE'', CS_SOFT_EXECUTE),
      (''CS_EXECUTE'', CS_EXECUTE), (''CS_EXCHANGE_MEDIA'', CS_EXCHANGE_MEDIA), (''CS_PARK'', CS_PARK), (''CS_CONSUME_MEDIA'', CS_CONSUME_MEDIA),
      (''CS_HIBERNATE'', CS_HIBERNATE), (''CS_RESET'', CS_RESET), (''CS_HANGUP'', CS_HANGUP), (''CS_REPORTING'', CS_REPORTING),
      (''CS_DESTROY'', CS_DESTROY), (''CS_NONE'', CS_NONE)]"

definition switch_channel_state_name :: "switch_channel_state \<Rightarrow> string" where
  "switch_channel_state_name state = fst (state_names ! state_num state)"

definition switch_channel_name_state :: "string \<Rightarrow> switch_channel_state" where
  "switch_channel_name_state name = value_of state_names CS_DESTROY name"

section \<open>Lookup in a chart\<close>

text \<open>A chart is usable in both directions when neither its values nor its names (ignoring case) repeat.\<close>

definition folded :: "string \<Rightarrow> byte list" where
  "folded s = map (ascii_lower \<circ> char_byte) s"

definition chart_ok :: "(string \<times> 'a) list \<Rightarrow> bool" where
  "chart_ok t \<longleftrightarrow> distinct (map (folded \<circ> fst) t) \<and> distinct (map snd t)"

lemma strcasecmp_folded: "strcasecmp_eq s t \<longleftrightarrow> folded s = folded t"
  by (simp add: strcasecmp_eq_def folded_def)

lemma name_of_chart: "chart_ok t \<Longrightarrow> (n, v) \<in> set t \<Longrightarrow> name_of t v = n"
  by (induction t v rule: name_of.induct) (force simp: chart_ok_def)+

lemma value_of_chart:
  "chart_ok t \<Longrightarrow> (n, v) \<in> set t \<Longrightarrow> strcasecmp_eq n s \<Longrightarrow> value_of t dflt s = v"
  by (induction t dflt s rule: value_of.induct) (force simp: chart_ok_def strcasecmp_folded)+

lemma value_of_default: "(\<forall>(n, v) \<in> set t. \<not> strcasecmp_eq n s) \<Longrightarrow> value_of t dflt s = dflt"
  by (induction t dflt s rule: value_of.induct) auto

text \<open>Names in capitals stay distinct when case is folded away.\<close>

definition capitals :: string where
  "capitals = ''ABCDEFGHIJKLMNOPQRSTUVWXYZ_''"

lemma folded_inj: "inj_on folded (lists (set capitals))"
proof -
  have "distinct (map (ascii_lower \<circ> char_byte) capitals)" by code_simp
  then have "inj_on (ascii_lower \<circ> char_byte) (set capitals)" by (simp add: distinct_map)
  then show ?thesis unfolding folded_def [abs_def] by (intro inj_on_mapI) (auto simp: inj_on_def lists_eq_set)
qed

lemma chart_ok_capitals:
  assumes "distinct (map fst t)" "distinct (map snd t)" "\<forall>n \<in> set (map fst t). set n \<subseteq> set capitals"
  shows "chart_ok t"
proof -
  have "inj_on folded (set (map fst t))"
    by (rule inj_on_subset [OF folded_inj]) (use assms(3) in \<open>auto simp: lists_eq_set\<close>)
  then have "distinct (map folded (map fst t))" using assms(1) by (simp only: distinct_map)
  then show ?thesis using assms(2) by (simp add: chart_ok_def)
qed

lemma cause_chart_ok: "chart_ok CAUSE_CHART"
  by (rule chart_ok_capitals) (simp_all add: CAUSE_CHART_def capitals_def)

lemma state_names_ok: "chart_ok state_names"
  by (rule chart_ok_capitals) (simp_all add: state_names_def capitals_def)

lemma callstate_chart_ok: "chart_ok CALLSTATE_CHART"
  by (rule chart_ok_capitals) (simp_all add: CALLSTATE_CHART_def capitals_def)

lemma is_digit_set: "is_digit c \<Longrightarrow> c \<in> set ''0123456789''"
proof -
  assume "is_digit c"
  moreover have "(of_char c :: int) < 256"
    using nat_of_char_less_256 [of c] of_nat_of_char [of c, where 'a = int] by linarith
  ultimately have "47 < (of_char c :: int)" "(of_char c :: int) < 58"
    by (auto simp: is_digit_def char_code_def Let_def split: if_splits)
  then have "47 < (of_char c :: nat)" "(of_char c :: nat) < 58"
    using of_nat_of_char [of c, where 'a = int] by linarith+
  then have "(of_char c :: nat) \<in> {48, 49, 50, 51, 52, 53, 54, 55, 56, 57}"
    by (simp only: insert_iff empty_iff) arith
  also have "\<dots> = of_char ` set ''0123456789''" by simp
  finally show ?thesis by (auto simp only: image_iff of_char_eq_iff)
qed

lemma digit_not_capital:
  "is_digit d \<Longrightarrow> u \<in> set capitals \<Longrightarrow> ascii_lower (char_byte d) \<noteq> ascii_lower (char_byte u)"
proof -
  have "\<forall>d\<in>set ''0123456789''. \<forall>u\<in>set capitals. ascii_lower (char_byte d) \<noteq> ascii_lower (char_byte u)"
    by code_simp
  then show "is_digit d \<Longrightarrow> u \<in> set capitals \<Longrightarrow> ?thesis" using is_digit_set by blast
qed

lemma folded_capital_no_digit:
  assumes "set n \<subseteq> set capitals" "strcasecmp_eq n s"
  shows "\<not> first_is_digit s"
proof
  assume d: "first_is_digit s"
  then obtain c cs where s: "s = c # cs" "is_digit c" by (cases s) (auto simp: first_is_digit_def)
  then obtain u us where "n = u # us" "ascii_lower (char_byte u) = ascii_lower (char_byte c)"
    using assms(2) by (cases n) (auto simp: strcasecmp_eq_def)
  then show False using digit_not_capital [OF s(2), of u] assms(1) by simp
qed

lemma cause_names_capitals: "\<forall>n \<in> set (map fst CAUSE_CHART). set n \<subseteq> set capitals"
  by (simp add: CAUSE_CHART_def capitals_def)

section \<open>Properties\<close>

text \<open>every hang-up cause of the chart survives printing and reading, whatever the case it is
  written in, and a name outside the chart reads as \<open>NONE\<close>.\<close>

theorem cause_names_roundtrip:
  assumes "(n, c) \<in> set CAUSE_CHART" and "strcasecmp_eq n s"
  shows "switch_channel_cause2str c = n \<and> switch_channel_str2cause s = c"
proof -
  have "set n \<subseteq> set capitals" using cause_names_capitals assms(1) by force
  then show ?thesis
    using assms name_of_chart [OF cause_chart_ok] value_of_chart [OF cause_chart_ok] folded_capital_no_digit
    by (simp add: switch_channel_cause2str_def switch_channel_str2cause_def)
qed

theorem cause_names_roundtrip_witness:
  "switch_channel_cause2str 17 = ''USER_BUSY'' \<and> switch_channel_str2cause ''user_Busy'' = 17"
  by (rule cause_names_roundtrip) (simp add: CAUSE_CHART_def, code_simp)

text \<open>a channel state's name reads back as the state in any case, and every name that is none of
  the table's reads as \<open>CS_DESTROY\<close>.\<close>

theorem state_names_roundtrip:
  "(strcasecmp_eq (switch_channel_state_name st) s \<longrightarrow> switch_channel_name_state s = st) \<and>
   ((\<forall>st. \<not> strcasecmp_eq (switch_channel_state_name st) s) \<longrightarrow> switch_channel_name_state s = CS_DESTROY)"
proof -
  have m: "(switch_channel_state_name st, st) \<in> set state_names" for st
    by (cases st) (simp_all add: switch_channel_state_name_def state_names_def)
  have "\<exists>st. p = (switch_channel_state_name st, st)" if "p \<in> set state_names" for p
    using that by (auto simp: state_names_def switch_channel_state_name_def)
  then show ?thesis
    using value_of_chart [OF state_names_ok m] value_of_default [of state_names s CS_DESTROY]
    by (fastforce simp: switch_channel_name_state_def)
qed

theorem state_names_roundtrip_witness:
  "switch_channel_name_state ''cs_park'' = CS_PARK"
proof -
  have "strcasecmp_eq (switch_channel_state_name CS_PARK) ''cs_park''" by code_simp
  then show ?thesis using state_names_roundtrip [of CS_PARK "''cs_park''"] by simp
qed

end
