(* ===== verification/Channel_State.thy ===== *)
theory Channel_State
  imports Channel_Names
begin

unbundle bit_operations_syntax

text \<open>
  The channel's state machine, flags, hold accounting and hang-up (src/switch\_channel.c). The record
  keeps the fields of \<open>struct switch_channel\<close> these functions read or write; what they ask of other
  components (events fired, variables set, signals to the session) is appended to the trace
  \<open>ch_effects\<close>, in call order. Flag arrays are functions of the flag number. \<open>caller_profile\<close> with its
  time table is optional, and following it when it is absent is the fault \<open>Null_pointer\<close>. Locking is
  not modelled: each function is one step of its caller.
\<close>

section \<open>Data\<close>

datatype call_direction = SWITCH_CALL_DIRECTION_INBOUND | SWITCH_CALL_DIRECTION_OUTBOUND

definition CF_ANSWERED :: nat where "CF_ANSWERED = 1"
definition CF_OUTBOUND :: nat where "CF_OUTBOUND = 2"
definition CF_EARLY_MEDIA :: nat where "CF_EARLY_MEDIA = 3"
definition CF_BRIDGE_ORIGINATOR :: nat where "CF_BRIDGE_ORIGINATOR = 4"
definition CF_TRANSFER :: nat where "CF_TRANSFER = 6"
definition CF_BRIDGED :: nat where "CF_BRIDGED = 9"
definition CF_TAGGED :: nat where "CF_TAGGED = 12"
definition CF_PROXY_MODE :: nat where "CF_PROXY_MODE = 15"
definition CF_BLOCK_STATE :: nat where "CF_BLOCK_STATE = 35"
definition CF_ORIGINATOR :: nat where "CF_ORIGINATOR = 40"
definition CF_NOT_READY :: nat where "CF_NOT_READY = 45"
definition CF_LEG_HOLDING :: nat where "CF_LEG_HOLDING = 49"
definition CF_RECOVERED :: nat where "CF_RECOVERED = 56"
definition CF_DIALPLAN :: nat where "CF_DIALPLAN = 59"
definition CF_VIDEO_PASSIVE :: nat where "CF_VIDEO_PASSIVE = 113"
definition CF_HANGUP_HELD :: nat where "CF_HANGUP_HELD = 121"
definition CF_FLAG_MAX :: nat where "CF_FLAG_MAX = 123"

datatype channel_event =
  EVENT_CHANNEL_STATE | EVENT_CHANNEL_CALLSTATE | EVENT_CHANNEL_HANGUP | EVENT_CHANNEL_HOLD | EVENT_CHANNEL_UNHOLD

datatype ch_effect =
  Fire channel_event
| Check_device_state switch_channel_callstate
| Set_variable string "string option"
| Set_variable_partner string string
| Thread_launch
| Kill_channel
| Signal_state_change
| Hangup_state
| Wake_video_thread
| Transfer_recordings

record channel_times =
  last_hold :: int
  hold_accum :: int

record hold_record =
  hr_on :: int
  hr_off :: int
  hr_uuid :: "string option"

record device_node =
  dn_callstate :: switch_channel_callstate
  dn_direction :: call_direction

record switch_channel =
  ch_direction :: call_direction
  ch_logical_direction :: call_direction
  ch_state :: switch_channel_state
  ch_running_state :: switch_channel_state
  ch_callstate :: switch_channel_callstate
  ch_flags :: "nat \<Rightarrow> uint32"
  ch_caps :: "nat \<Rightarrow> uint32"
  ch_state_flags :: "nat \<Rightarrow> byte"
  ch_private_flags :: uint32
  ch_times :: "channel_times option"
  ch_hangup_cause :: int
  ch_ocf_hangup :: bool
  ch_hold_record :: "hold_record list"
  ch_device_node :: "device_node option"
  ch_effects :: "ch_effect list"

definition emit :: "ch_effect list \<Rightarrow> switch_channel \<Rightarrow> switch_channel" where
  "emit es ch = ch\<lparr>ch_effects := ch_effects ch @ es\<rparr>"

section \<open>Flags and capabilities\<close>

definition switch_channel_test_flag :: "switch_channel \<Rightarrow> nat \<Rightarrow> uint32" where
  "switch_channel_test_flag ch flag = ch_flags ch flag"

definition put_flag :: "nat \<Rightarrow> uint32 \<Rightarrow> switch_channel \<Rightarrow> switch_channel" where
  "put_flag flag v ch = ch\<lparr>ch_flags := (ch_flags ch)(flag := v)\<rparr>"

definition switch_channel_set_cap_value :: "switch_channel \<Rightarrow> nat \<Rightarrow> uint32 \<Rightarrow> switch_channel" where
  "switch_channel_set_cap_value ch cap value = ch\<lparr>ch_caps := (ch_caps ch)(cap := value)\<rparr>"

definition switch_channel_clear_cap :: "switch_channel \<Rightarrow> nat \<Rightarrow> switch_channel" where
  "switch_channel_clear_cap ch cap = ch\<lparr>ch_caps := (ch_caps ch)(cap := 0)\<rparr>"

definition switch_channel_test_cap :: "switch_channel \<Rightarrow> nat \<Rightarrow> uint32" where
  "switch_channel_test_cap ch cap = (if ch_caps ch cap \<noteq> 0 then 1 else 0)"

definition switch_channel_set_private_flag :: "switch_channel \<Rightarrow> uint32 \<Rightarrow> switch_channel" where
  "switch_channel_set_private_flag ch flags = ch\<lparr>ch_private_flags := ch_private_flags ch OR flags\<rparr>"

definition switch_channel_clear_private_flag :: "switch_channel \<Rightarrow> uint32 \<Rightarrow> switch_channel" where
  "switch_channel_clear_private_flag ch flags = ch\<lparr>ch_private_flags := ch_private_flags ch AND NOT flags\<rparr>"

definition switch_channel_test_private_flag :: "switch_channel \<Rightarrow> uint32 \<Rightarrow> uint32" where
  "switch_channel_test_private_flag ch flags = ch_private_flags ch AND flags"

definition switch_channel_set_state_flag :: "switch_channel \<Rightarrow> nat \<Rightarrow> switch_channel" where
  "switch_channel_set_state_flag ch flag = ch\<lparr>ch_state_flags := (ch_state_flags ch)(0 := 1, flag := 1)\<rparr>"

definition switch_channel_clear_state_flag :: "switch_channel \<Rightarrow> nat \<Rightarrow> switch_channel" where
  "switch_channel_clear_state_flag ch flag = ch\<lparr>ch_state_flags := (ch_state_flags ch)(flag := 0)\<rparr>"

definition flag_variables :: "nat \<Rightarrow> string option \<Rightarrow> switch_channel \<Rightarrow> switch_channel" where
  "flag_variables flag v ch =
     (let ch1 = (if flag = CF_OUTBOUND then emit [Set_variable ''is_outbound'' v] ch else ch)
      in if flag = CF_RECOVERED then emit [Set_variable ''recovered'' v] ch1 else ch1)"

definition switch_channel_set_flag_recursive :: "switch_channel \<Rightarrow> nat \<Rightarrow> switch_channel" where
  "switch_channel_set_flag_recursive ch flag =
     flag_variables flag (Some ''true'') (put_flag flag (ch_flags ch flag + 1) ch)"

definition switch_channel_clear_flag_recursive :: "switch_channel \<Rightarrow> nat \<Rightarrow> switch_channel" where
  "switch_channel_clear_flag_recursive ch flag =
     (let ch1 = (if ch_flags ch flag \<noteq> 0 then put_flag flag (ch_flags ch flag - 1) ch else ch)
      in if flag = CF_OUTBOUND then emit [Set_variable ''is_outbound'' None] ch1 else ch1)"

definition switch_channel_up_nosig :: "switch_channel \<Rightarrow> bool" where
  "switch_channel_up_nosig ch \<longleftrightarrow> ch_state ch < CS_HANGUP"

definition switch_channel_down_nosig :: "switch_channel \<Rightarrow> bool" where
  "switch_channel_down_nosig ch \<longleftrightarrow> ch_state ch \<ge> CS_HANGUP"

definition switch_channel_perform_set_callstate ::
  "switch_channel \<Rightarrow> switch_channel_callstate \<Rightarrow> switch_channel" where
  "switch_channel_perform_set_callstate ch callstate =
     (if ch_callstate ch = callstate then ch
      else emit ((if callstate \<noteq> CCS_HANGUP then [Check_device_state callstate] else []) @
                 [Fire EVENT_CHANNEL_CALLSTATE])
             (ch\<lparr>ch_callstate := callstate,
                ch_device_node := map_option (\<lambda>d. d\<lparr>dn_callstate := callstate\<rparr>) (ch_device_node ch)\<rparr>))"

text \<open>
  Setting and clearing a flag. \<open>now1\<close> and \<open>now2\<close> are the two readings of the clock, \<open>brto\<close> the
  partner's uuid, if any.
\<close>

definition set_device_direction :: "call_direction \<Rightarrow> switch_channel \<Rightarrow> switch_channel" where
  "set_device_direction d ch = ch\<lparr>ch_device_node := map_option (\<lambda>n. n\<lparr>dn_direction := d\<rparr>) (ch_device_node ch)\<rparr>"

definition begin_hold :: "int \<Rightarrow> int \<Rightarrow> string option \<Rightarrow> switch_channel \<Rightarrow> fault + switch_channel" where
  "begin_hold now1 now2 brto ch0 =
     (let ch = switch_channel_perform_set_callstate ch0 CCS_HELD in
      case ch_times ch of
        None \<Rightarrow> Inl Null_pointer
      | Some t \<Rightarrow> Inr (ch\<lparr>ch_times := Some (t\<lparr>last_hold := now1\<rparr>),
                          ch_hold_record := \<lparr>hr_on = now2, hr_off = 0, hr_uuid = brto\<rparr> # ch_hold_record ch\<rparr>))"

definition set_flag_head :: "nat \<Rightarrow> uint32 \<Rightarrow> switch_channel \<Rightarrow> switch_channel" where
  "set_flag_head flag value ch =
     (let ch1 = put_flag flag value ch;
          ch2 = (if flag = CF_ORIGINATOR \<and> switch_channel_test_flag ch1 CF_ANSWERED \<noteq> 0 \<and> switch_channel_up_nosig ch1
                 then switch_channel_perform_set_callstate ch1 CCS_RING_WAIT else ch1)
      in if flag = CF_DIALPLAN then
           if ch_direction ch2 = SWITCH_CALL_DIRECTION_INBOUND
           then set_device_direction SWITCH_CALL_DIRECTION_INBOUND
                  (ch2\<lparr>ch_logical_direction := SWITCH_CALL_DIRECTION_OUTBOUND\<rparr>)
           else set_device_direction SWITCH_CALL_DIRECTION_OUTBOUND
                  (ch2\<lparr>ch_logical_direction := SWITCH_CALL_DIRECTION_INBOUND\<rparr>)
         else ch2)"

definition switch_channel_set_flag_value ::
  "int \<Rightarrow> int \<Rightarrow> string option \<Rightarrow> switch_channel \<Rightarrow> nat \<Rightarrow> uint32 \<Rightarrow> fault + switch_channel" where
  "switch_channel_set_flag_value now1 now2 brto ch flag value =
     (let HELD = (flag = CF_LEG_HOLDING \<and> ch_flags ch flag = 0 \<and> ch_flags ch CF_ANSWERED \<noteq> 0);
          ch3 = set_flag_head flag value ch
      in fbind (if HELD then begin_hold now1 now2 brto ch3 else Inr ch3)
           (\<lambda>ch4. Inr (flag_variables flag (Some ''true'') ch4)))"

definition end_hold :: "int \<Rightarrow> int \<Rightarrow> switch_channel \<Rightarrow> fault + switch_channel" where
  "end_hold now1 now2 ch0 =
     (let ch = switch_channel_perform_set_callstate ch0 CCS_UNHOLD in
      case ch_times ch of
        None \<Rightarrow> Inl Null_pointer
      | Some t \<Rightarrow>
          let ch1 = (if last_hold t \<noteq> 0
                     then ch\<lparr>ch_times := Some (t\<lparr>hold_accum := hold_accum t + (now1 - last_hold t)\<rparr>)\<rparr> else ch);
              ch2 = (case ch_hold_record ch1 of [] \<Rightarrow> ch1
                     | hr # hrs \<Rightarrow> ch1\<lparr>ch_hold_record := hr\<lparr>hr_off := now2\<rparr> # hrs\<rparr>)
          in Inr (switch_channel_perform_set_callstate ch2 CCS_ACTIVE))"

definition clear_flag_head :: "nat \<Rightarrow> switch_channel \<Rightarrow> switch_channel" where
  "clear_flag_head flag ch =
     (let ch1 = put_flag flag 0 ch
      in if flag = CF_DIALPLAN \<and> ch_direction ch1 = SWITCH_CALL_DIRECTION_OUTBOUND
         then set_device_direction SWITCH_CALL_DIRECTION_INBOUND
                (ch1\<lparr>ch_logical_direction := SWITCH_CALL_DIRECTION_OUTBOUND\<rparr>)
         else ch1)"

definition clear_flag_tail :: "nat \<Rightarrow> bool \<Rightarrow> switch_channel \<Rightarrow> switch_channel" where
  "clear_flag_tail flag CLEAR ch3 =
     (let ch4 = (if flag = CF_ORIGINATOR \<and> switch_channel_test_flag ch3 CF_ANSWERED \<noteq> 0 \<and> switch_channel_up_nosig ch3
                 then switch_channel_perform_set_callstate ch3 CCS_ACTIVE else ch3);
          ch6 = flag_variables flag None ch4
      in if flag = CF_VIDEO_PASSIVE \<and> CLEAR then emit [Wake_video_thread] ch6 else ch6)"

definition switch_channel_clear_flag :: "int \<Rightarrow> int \<Rightarrow> switch_channel \<Rightarrow> nat \<Rightarrow> fault + switch_channel" where
  "switch_channel_clear_flag now1 now2 ch flag =
     (let ACTIVE = (flag = CF_LEG_HOLDING \<and> ch_flags ch flag \<noteq> 0 \<and> ch_flags ch CF_ANSWERED \<noteq> 0);
          CLEAR = (flag = CF_VIDEO_PASSIVE \<and> ch_flags ch flag \<noteq> 0);
          ch2 = clear_flag_head flag ch
      in fbind (if ACTIVE then end_hold now1 now2 ch2 else Inr ch2)
           (\<lambda>ch3. Inr (clear_flag_tail flag CLEAR ch3)))"

text \<open>\<open>flip\<close>: the variable \<open>flip_record_on_hold\<close> is true and there is a partner session.\<close>

definition switch_channel_mark_hold ::
  "int \<Rightarrow> int \<Rightarrow> string option \<Rightarrow> bool \<Rightarrow> switch_channel \<Rightarrow> bool \<Rightarrow> fault + switch_channel" where
  "switch_channel_mark_hold now1 now2 brto flip ch on =
     fbind (if on = (switch_channel_test_flag ch CF_LEG_HOLDING \<noteq> 0) then Inr ch
            else fbind (if on then switch_channel_set_flag_value now1 now2 brto ch CF_LEG_HOLDING 1
                        else switch_channel_clear_flag now1 now2 ch CF_LEG_HOLDING)
                   (\<lambda>ch1. Inr (emit [Fire (if on then EVENT_CHANNEL_HOLD else EVENT_CHANNEL_UNHOLD)] ch1)))
       (\<lambda>ch2. Inr (if on \<and> flip then emit [Transfer_recordings] ch2 else ch2))"

section \<open>States\<close>

text \<open>
  \<open>careful_set\<close> tries the thread mutex, then up to a hundred times the session mutex, and writes the
  value in every case; \<open>session_try\<close> answers the tries.
\<close>

fun try_session :: "(nat \<Rightarrow> bool) \<Rightarrow> nat \<Rightarrow> nat \<Rightarrow> nat" where
  "try_session session_try x 0 = x"
| "try_session session_try x (Suc n) = (if session_try x then x else try_session session_try (Suc x) n)"

definition careful_set :: "bool \<Rightarrow> (nat \<Rightarrow> bool) \<Rightarrow> 'a \<Rightarrow> 'a \<Rightarrow> 'a" where
  "careful_set thread_try session_try state val =
     (if thread_try then val
      else let x = try_session session_try 0 100 in
           if x < 100 then val else if x = 100 then val else state)"

definition pending_flags :: "switch_channel \<Rightarrow> switch_channel" where
  "pending_flags ch =
     (if ch_state_flags ch 0 \<noteq> 0 then
        ch\<lparr>ch_flags := (\<lambda>x. if 1 \<le> x \<and> x < CF_FLAG_MAX \<and> ch_state_flags ch x \<noteq> 0 then 1 else ch_flags ch x),
           ch_state_flags := (\<lambda>x. if x = 0 \<or> (1 \<le> x \<and> x < CF_FLAG_MAX \<and> ch_state_flags ch x \<noteq> 0) then 0
                                  else ch_state_flags ch x)\<rparr>
      else ch)"

definition running_callstate :: "switch_channel_state \<Rightarrow> switch_channel \<Rightarrow> switch_channel" where
  "running_callstate state ch2 =
     (if ch_direction ch2 = SWITCH_CALL_DIRECTION_INBOUND \<and> state < CS_HANGUP then
        if state = CS_ROUTING then switch_channel_perform_set_callstate ch2 CCS_RINGING
        else if switch_channel_test_flag ch2 CF_ANSWERED \<noteq> 0 then switch_channel_perform_set_callstate ch2 CCS_ACTIVE
        else if switch_channel_test_flag ch2 CF_EARLY_MEDIA \<noteq> 0 then switch_channel_perform_set_callstate ch2 CCS_EARLY
        else ch2
      else ch2)"

definition switch_channel_perform_set_running_state ::
  "bool \<Rightarrow> (nat \<Rightarrow> bool) \<Rightarrow> switch_channel \<Rightarrow> switch_channel_state \<Rightarrow> fault + switch_channel" where
  "switch_channel_perform_set_running_state thread_try session_try ch state =
     fbind (switch_channel_clear_flag 0 0 (pending_flags ch) CF_TAGGED) (\<lambda>ch1.
       let ch2 = ch1\<lparr>ch_running_state := careful_set thread_try session_try (ch_running_state ch1) state\<rparr> in
       if state \<le> CS_DESTROY then Inr (emit [Fire EVENT_CHANNEL_STATE] (running_callstate state ch2))
       else Inr ch2)"

text \<open>The transition table of \<open>switch_channel_perform_set_state\<close>.\<close>

fun state_change_ok :: "switch_channel_state \<Rightarrow> switch_channel_state \<Rightarrow> bool" where
  "state_change_ok CS_NEW state = True"
| "state_change_ok CS_RESET state = True"
| "state_change_ok CS_INIT state =
     (state \<in> {CS_EXCHANGE_MEDIA, CS_SOFT_EXECUTE, CS_ROUTING, CS_EXECUTE, CS_PARK, CS_CONSUME_MEDIA, CS_HIBERNATE, CS_RESET})"
| "state_change_ok CS_EXCHANGE_MEDIA state =
     (state \<in> {CS_SOFT_EXECUTE, CS_ROUTING, CS_EXECUTE, CS_PARK, CS_CONSUME_MEDIA, CS_HIBERNATE, CS_RESET})"
| "state_change_ok CS_SOFT_EXECUTE state =
     (state \<in> {CS_EXCHANGE_MEDIA, CS_ROUTING, CS_EXECUTE, CS_PARK, CS_CONSUME_MEDIA, CS_HIBERNATE, CS_RESET})"
| "state_change_ok CS_PARK state =
     (state \<in> {CS_EXCHANGE_MEDIA, CS_ROUTING, CS_EXECUTE, CS_SOFT_EXECUTE, CS_HIBERNATE, CS_RESET, CS_CONSUME_MEDIA})"
| "state_change_ok CS_CONSUME_MEDIA state =
     (state \<in> {CS_EXCHANGE_MEDIA, CS_ROUTING, CS_EXECUTE, CS_SOFT_EXECUTE, CS_HIBERNATE, CS_RESET, CS_PARK})"
| "state_change_ok CS_HIBERNATE state =
     (state \<in> {CS_EXCHANGE_MEDIA, CS_INIT, CS_ROUTING, CS_EXECUTE, CS_SOFT_EXECUTE, CS_PARK, CS_CONSUME_MEDIA, CS_RESET})"
| "state_change_ok CS_ROUTING state =
     (state \<in> {CS_EXCHANGE_MEDIA, CS_EXECUTE, CS_SOFT_EXECUTE, CS_PARK, CS_CONSUME_MEDIA, CS_HIBERNATE, CS_RESET})"
| "state_change_ok CS_EXECUTE state =
     (state \<in> {CS_EXCHANGE_MEDIA, CS_SOFT_EXECUTE, CS_ROUTING, CS_PARK, CS_CONSUME_MEDIA, CS_HIBERNATE, CS_RESET})"
| "state_change_ok CS_HANGUP state = (state \<in> {CS_REPORTING, CS_DESTROY})"
| "state_change_ok CS_REPORTING state = (state = CS_DESTROY)"
| "state_change_ok CS_DESTROY state = False"
| "state_change_ok CS_NONE state = False"

definition switch_channel_perform_set_state ::
  "bool \<Rightarrow> (nat \<Rightarrow> bool) \<Rightarrow> switch_channel \<Rightarrow> switch_channel_state \<Rightarrow> fault + (switch_channel_state \<times> switch_channel)" where
  "switch_channel_perform_set_state thread_try session_try ch state =
     (if \<not> state \<le> CS_DESTROY then Inl Assert_failed
      else let last_state = ch_state ch in
        if \<not> last_state \<le> CS_DESTROY then Inl Assert_failed
        else if last_state = state then Inr (ch_state ch, ch)
        else if last_state \<ge> CS_HANGUP \<and> state < last_state then Inr (ch_state ch, ch)
        else if state_change_ok last_state state then
          let ch1 = ch\<lparr>ch_state := careful_set thread_try session_try (ch_state ch) state\<rparr>;
              ch2 = (if state = CS_HANGUP \<and> ch_hangup_cause ch1 = 0
                     then ch1\<lparr>ch_hangup_cause := SWITCH_CAUSE_NORMAL_CLEARING\<rparr> else ch1);
              ch3 = emit [Signal_state_change] ch2
          in Inr (ch_state ch3, ch3)
        else if \<not> ch_state ch \<ge> CS_HANGUP then Inl Assert_failed
        else Inr (ch_state ch, ch))"

definition switch_channel_state_change_pending :: "bool \<Rightarrow> switch_channel \<Rightarrow> bool" where
  "switch_channel_state_change_pending in_thread ch \<longleftrightarrow>
     (if switch_channel_down_nosig ch \<or> \<not> in_thread then False else ch_running_state ch \<noteq> ch_state ch)"

text \<open>
  \<open>switch_channel_test_ready\<close>, after the signal data have been parsed: \<open>codecs\<close> says whether the
  session has a read and a write codec, \<open>in_thread\<close> whether the session runs in its thread.
\<close>

definition switch_channel_test_ready :: "bool \<Rightarrow> bool \<Rightarrow> switch_channel \<Rightarrow> bool \<Rightarrow> bool \<Rightarrow> bool" where
  "switch_channel_test_ready in_thread codecs ch check_ready check_media =
     (let ret = (check_media \<and>
           (switch_channel_test_flag ch CF_ANSWERED \<noteq> 0 \<or> switch_channel_test_flag ch CF_EARLY_MEDIA \<noteq> 0) \<and>
           switch_channel_test_flag ch CF_PROXY_MODE = 0 \<and> codecs)
      in if check_media \<and> \<not> ret then ret
         else if \<not> check_ready then ret
         else ch_hangup_cause ch = 0 \<and> ch_state ch > CS_ROUTING \<and> ch_state ch < CS_HANGUP \<and> ch_state ch \<noteq> CS_RESET \<and>
              switch_channel_test_flag ch CF_TRANSFER = 0 \<and> switch_channel_test_flag ch CF_NOT_READY = 0 \<and>
              \<not> switch_channel_state_change_pending in_thread ch)"

section \<open>Hang-up\<close>

text \<open>What the session answers during a hang-up, and the readings of the clock.\<close>

record hangup_env =
  he_now1 :: int
  he_now2 :: int
  he_now3 :: int
  he_partner :: "string option"
  he_proto_cause :: "string option"
  he_running :: bool
  he_started :: bool

definition close_hold :: "int \<Rightarrow> switch_channel \<Rightarrow> switch_channel" where
  "close_hold now ch =
     (case ch_hold_record ch of
        [] \<Rightarrow> ch
      | hr # hrs \<Rightarrow> if hr_off hr = 0 then ch\<lparr>ch_hold_record := hr\<lparr>hr_off := now\<rparr> # hrs\<rparr> else ch)"

definition hangup_effects :: "hangup_env \<Rightarrow> switch_channel \<Rightarrow> int \<Rightarrow> ch_effect list" where
  "hangup_effects env ch cause =
     [Set_variable_partner ''last_bridge_hangup_cause'' (switch_channel_cause2str cause)] @
     (case he_proto_cause env of None \<Rightarrow> []
      | Some v \<Rightarrow> [Set_variable_partner ''last_bridge_proto_specific_hangup_cause'' v]) @
     (if switch_channel_test_flag ch CF_BRIDGE_ORIGINATOR \<noteq> 0 then [Set_variable ''last_bridge_role'' (Some ''originator'')]
      else if switch_channel_test_flag ch CF_BRIDGED \<noteq> 0 then [Set_variable ''last_bridge_role'' (Some ''originatee'')]
      else []) @
     (if \<not> he_running env \<and> \<not> he_started env then [Thread_launch] else []) @
     [Fire EVENT_CHANNEL_HANGUP, Kill_channel, Signal_state_change, Hangup_state]"

definition hangup_unhold :: "hangup_env \<Rightarrow> switch_channel \<Rightarrow> fault + switch_channel" where
  "hangup_unhold env ch1 =
     (if switch_channel_test_flag ch1 CF_LEG_HOLDING \<noteq> 0 then
        fbind (switch_channel_mark_hold (he_now1 env) (he_now2 env) (he_partner env) False ch1 False) (\<lambda>ch2.
          switch_channel_set_flag_value 0 0 None ch2 CF_HANGUP_HELD 1)
      else Inr ch1)"

definition hangup_live :: "hangup_env \<Rightarrow> int \<Rightarrow> switch_channel \<Rightarrow> switch_channel" where
  "hangup_live env hangup_cause ch4 =
     (if ch_state ch4 < CS_HANGUP then
        let ch5 = (close_hold (he_now3 env) ch4)\<lparr>ch_state := CS_HANGUP, ch_hangup_cause := hangup_cause\<rparr>
        in emit (hangup_effects env ch5 hangup_cause) ch5
      else ch4)"

definition switch_channel_perform_hangup ::
  "hangup_env \<Rightarrow> switch_channel \<Rightarrow> int \<Rightarrow> fault + (switch_channel_state \<times> switch_channel)" where
  "switch_channel_perform_hangup env ch hangup_cause =
     (let ok = (\<not> ch_ocf_hangup ch); ch1 = ch\<lparr>ch_ocf_hangup := True\<rparr> in
      fbind (hangup_unhold env ch1) (\<lambda>ch3.
        if \<not> ok then Inr (ch_state ch3, ch3)
        else fbind (switch_channel_clear_flag 0 0 ch3 CF_BLOCK_STATE) (\<lambda>ch4.
          let ch6 = hangup_live env hangup_cause ch4 in Inr (ch_state ch6, ch6))))"

section \<open>What the operations leave alone\<close>

text \<open>The part of a channel the flag and hold operations never touch.\<close>

definition core_of :: "switch_channel \<Rightarrow> switch_channel_state \<times> switch_channel_state \<times> int \<times> bool \<times> (nat \<Rightarrow> byte)" where
  "core_of ch = (ch_state ch, ch_running_state ch, ch_hangup_cause ch, ch_ocf_hangup ch, ch_state_flags ch)"

named_theorems ch_frame \<open>effect of the flag operations on the channel's core, flags and times\<close>

lemma frame_simple [ch_frame]:
  "core_of (emit es ch) = core_of ch" "core_of (put_flag f v ch) = core_of ch"
  "core_of (switch_channel_perform_set_callstate ch cs) = core_of ch"
  "core_of (set_device_direction d ch) = core_of ch"
  "core_of (ch\<lparr>ch_logical_direction := d\<rparr>) = core_of ch"
  "core_of (close_hold t ch) = core_of ch"
  by (simp_all add: core_of_def emit_def put_flag_def switch_channel_perform_set_callstate_def set_device_direction_def
      close_hold_def split: list.splits)

lemma flags_simple [ch_frame]:
  "ch_flags (emit es ch) = ch_flags ch" "ch_flags (put_flag f v ch) = (ch_flags ch)(f := v)"
  "ch_flags (switch_channel_perform_set_callstate ch cs) = ch_flags ch"
  "ch_flags (set_device_direction d ch) = ch_flags ch"
  "ch_flags (close_hold t ch) = ch_flags ch"
  by (simp_all add: emit_def put_flag_def switch_channel_perform_set_callstate_def set_device_direction_def
      close_hold_def split: list.splits)

lemma times_simple [ch_frame]:
  "ch_times (emit es ch) = ch_times ch" "ch_times (put_flag f v ch) = ch_times ch"
  "ch_times (switch_channel_perform_set_callstate ch cs) = ch_times ch"
  "ch_times (set_device_direction d ch) = ch_times ch"
  by (simp_all add: emit_def put_flag_def switch_channel_perform_set_callstate_def set_device_direction_def)

lemma head_tail_frame [ch_frame]:
  "core_of (flag_variables f v ch) = core_of ch" "ch_flags (flag_variables f v ch) = ch_flags ch"
  "core_of (set_flag_head f w ch) = core_of ch" "ch_flags (set_flag_head f w ch) = (ch_flags ch)(f := w)"
  "core_of (clear_flag_head f ch) = core_of ch" "ch_flags (clear_flag_head f ch) = (ch_flags ch)(f := 0)"
  "core_of (clear_flag_tail f c ch) = core_of ch" "ch_flags (clear_flag_tail f c ch) = ch_flags ch"
  "core_of (running_callstate st ch) = core_of ch" "ch_flags (running_callstate st ch) = ch_flags ch"
  by (simp_all add: flag_variables_def set_flag_head_def clear_flag_head_def clear_flag_tail_def
      running_callstate_def frame_simple flags_simple Let_def)

lemma hold_frame:
  "begin_hold n1 n2 b ch = Inr ch' \<Longrightarrow> core_of ch' = core_of ch \<and> ch_flags ch' = ch_flags ch"
  "end_hold n1 n2 ch = Inr ch' \<Longrightarrow> core_of ch' = core_of ch \<and> ch_flags ch' = ch_flags ch"
  by (auto simp: begin_hold_def end_hold_def Let_def core_of_def switch_channel_perform_set_callstate_def emit_def
      split: option.splits if_splits list.splits)

lemma set_flag_frame:
  assumes "switch_channel_set_flag_value n1 n2 b ch f v = Inr ch'"
  shows "core_of ch' = core_of ch \<and> ch_flags ch' = (ch_flags ch)(f := v)"
  using assms
  by (auto simp: switch_channel_set_flag_value_def Let_def fbind_eq_Inr ch_frame split: if_splits dest!: hold_frame(1))

lemma clear_flag_frame:
  assumes "switch_channel_clear_flag n1 n2 ch f = Inr ch'"
  shows "core_of ch' = core_of ch \<and> ch_flags ch' = (ch_flags ch)(f := 0)"
  using assms
  by (auto simp: switch_channel_clear_flag_def Let_def fbind_eq_Inr ch_frame split: if_splits dest!: hold_frame(2))

lemma mark_hold_frame:
  assumes "switch_channel_mark_hold n1 n2 b flip ch on = Inr ch'"
  shows "core_of ch' = core_of ch"
  using assms
  by (auto simp: switch_channel_mark_hold_def fbind_eq_Inr ch_frame split: if_splits
      dest!: set_flag_frame clear_flag_frame)

lemma try_session_le: "try_session t x n \<le> x + n"
  by (induction n arbitrary: x) (auto, metis add_Suc le_Suc_eq add_Suc_right)

lemma careful_set_val [simp]: "careful_set a t s v = v"
  using try_session_le [of t 0 100] by (auto simp: careful_set_def Let_def)

section \<open>Reachable channels\<close>

inductive ch_step :: "switch_channel \<Rightarrow> switch_channel \<Rightarrow> bool" where
  set_state: "switch_channel_perform_set_state tt st ch state = Inr (r, ch') \<Longrightarrow> ch_step ch ch'"
| set_running: "switch_channel_perform_set_running_state tt st ch state = Inr ch' \<Longrightarrow> ch_step ch ch'"
| hang_up: "switch_channel_perform_hangup env ch cause = Inr (r, ch') \<Longrightarrow> ch_step ch ch'"
| set_flag: "switch_channel_set_flag_value n1 n2 b ch f v = Inr ch' \<Longrightarrow> ch_step ch ch'"
| clear_flag: "switch_channel_clear_flag n1 n2 ch f = Inr ch' \<Longrightarrow> ch_step ch ch'"
| mark_hold: "switch_channel_mark_hold n1 n2 b flip ch on = Inr ch' \<Longrightarrow> ch_step ch ch'"
| set_callstate: "ch_step ch (switch_channel_perform_set_callstate ch cs)"
| set_state_flag: "ch_step ch (switch_channel_set_state_flag ch f)"
| set_flag_rec: "ch_step ch (switch_channel_set_flag_recursive ch f)"
| clear_flag_rec: "ch_step ch (switch_channel_clear_flag_recursive ch f)"

inductive ch_reach :: "switch_channel \<Rightarrow> switch_channel \<Rightarrow> bool" where
  here: "ch_reach ch ch"
| more: "ch_reach ch ch1 \<Longrightarrow> ch_step ch1 ch2 \<Longrightarrow> ch_reach ch ch2"

text \<open>\<open>down_later a b\<close>: \<open>b\<close> is at least as far in the tear-down as \<open>a\<close>, with the cause unchanged.\<close>

definition down_later :: "switch_channel \<Rightarrow> switch_channel \<Rightarrow> bool" where
  "down_later a b \<longleftrightarrow> (CS_HANGUP \<le> ch_state a \<longrightarrow>
     ch_state a \<le> ch_state b \<and> ch_hangup_cause b = ch_hangup_cause a) \<and>
     (ch_ocf_hangup a \<longrightarrow> ch_ocf_hangup b)"

lemma down_later_core: "core_of b = core_of a \<Longrightarrow> down_later a b"
  by (simp add: down_later_def core_of_def)

lemma down_later_trans: "down_later a b \<Longrightarrow> down_later b c \<Longrightarrow> down_later a c"
  unfolding down_later_def by (metis order_trans)

lemma set_state_later:
  assumes "switch_channel_perform_set_state tt st ch state = Inr (r, ch')"
  shows "down_later ch ch'"
  using assms
  by (auto simp: switch_channel_perform_set_state_def Let_def down_later_def emit_def not_less not_le split: if_splits)

lemma running_later:
  assumes "switch_channel_perform_set_running_state tt st ch state = Inr ch'"
  shows "down_later ch ch'"
proof -
  have p: "ch_state (pending_flags ch) = ch_state ch" "ch_hangup_cause (pending_flags ch) = ch_hangup_cause ch"
    "ch_ocf_hangup (pending_flags ch) = ch_ocf_hangup ch" by (simp_all add: pending_flags_def)
  from assms obtain c where c: "switch_channel_clear_flag 0 0 (pending_flags ch) CF_TAGGED = Inr c"
    "core_of ch' = core_of (c\<lparr>ch_running_state := state\<rparr>)"
    by (auto simp: switch_channel_perform_set_running_state_def Let_def fbind_eq_Inr ch_frame split: if_splits)
  then show ?thesis using clear_flag_frame [OF c(1)] p by (simp add: core_of_def down_later_def)
qed

lemma hangup_unhold_frame: "hangup_unhold env ch = Inr ch' \<Longrightarrow> core_of ch' = core_of ch"
  by (auto simp: hangup_unhold_def fbind_eq_Inr split: if_splits dest!: mark_hold_frame set_flag_frame)

lemma hangup_live_later: "down_later ch (hangup_live env cause ch)"
  by (auto simp: hangup_live_def Let_def down_later_def emit_def close_hold_def split: list.splits)

lemma hangup_later:
  assumes "switch_channel_perform_hangup env ch cause = Inr (r, ch')"
  shows "down_later ch ch'"
proof -
  let ?c1 = "ch\<lparr>ch_ocf_hangup := True\<rparr>"
  from assms obtain c3 where c3: "hangup_unhold env ?c1 = Inr c3"
    "ch' = c3 \<or> (\<exists>c4. switch_channel_clear_flag 0 0 c3 CF_BLOCK_STATE = Inr c4 \<and> ch' = hangup_live env cause c4)"
    by (auto simp: switch_channel_perform_hangup_def Let_def fbind_eq_Inr split: if_splits)
  have "down_later ch ?c1" by (simp add: down_later_def)
  moreover have "down_later ?c1 c3" using down_later_core hangup_unhold_frame [OF c3(1)] by blast
  moreover have "down_later c3 ch'"
    using c3(2) clear_flag_frame down_later_core hangup_live_later down_later_trans by metis
  ultimately show ?thesis using down_later_trans by blast
qed

lemma ch_step_later: "ch_step ch ch' \<Longrightarrow> down_later ch ch'"
proof (induction rule: ch_step.induct)
  case (set_state tt st ch state r ch')
  then show ?case by (rule set_state_later)
next
  case (set_running tt st ch state ch')
  then show ?case by (rule running_later)
next
  case (hang_up env ch cause r ch')
  then show ?case by (rule hangup_later)
next
  case (set_flag n1 n2 b ch f v ch')
  then show ?case using set_flag_frame down_later_core by blast
next
  case (clear_flag n1 n2 ch f ch')
  then show ?case using clear_flag_frame down_later_core by blast
next
  case (mark_hold n1 n2 b flip ch on ch')
  then show ?case using mark_hold_frame down_later_core by blast
next
  case (set_callstate ch cs)
  then show ?case by (simp add: down_later_core ch_frame)
next
  case (set_state_flag ch f)
  then show ?case by (simp add: down_later_def switch_channel_set_state_flag_def)
next
  case (set_flag_rec ch f)
  then show ?case by (simp add: down_later_core ch_frame switch_channel_set_flag_recursive_def Let_def)
next
  case (clear_flag_rec ch f)
  then show ?case by (simp add: down_later_core ch_frame switch_channel_clear_flag_recursive_def Let_def)
qed

lemma ch_reach_later: "ch_reach ch ch' \<Longrightarrow> down_later ch ch'"
proof (induction rule: ch_reach.induct)
  case (here ch)
  then show ?case by (simp add: down_later_core)
next
  case (more ch ch1 ch2)
  then show ?case using ch_step_later down_later_trans by blast
qed

section \<open>Hang-up and hold in detail\<close>

lemma clear_flag_plain:
  "f \<noteq> CF_LEG_HOLDING \<Longrightarrow>
   switch_channel_clear_flag n1 n2 ch f =
     Inr (clear_flag_tail f (f = CF_VIDEO_PASSIVE \<and> ch_flags ch f \<noteq> 0) (clear_flag_head f ch))"
  by (simp add: switch_channel_clear_flag_def Let_def)

lemma set_flag_plain:
  "f \<noteq> CF_LEG_HOLDING \<Longrightarrow>
   switch_channel_set_flag_value n1 n2 b ch f v = Inr (flag_variables f (Some ''true'') (set_flag_head f v ch))"
  by (simp add: switch_channel_set_flag_value_def Let_def)

lemmas holding_flags = CF_LEG_HOLDING_def CF_HANGUP_HELD_def CF_BLOCK_STATE_def CF_TAGGED_def CF_ANSWERED_def
  CF_VIDEO_PASSIVE_def CF_ORIGINATOR_def CF_OUTBOUND_def CF_RECOVERED_def CF_DIALPLAN_def CF_FLAG_MAX_def

lemma holding_head_tail:
  "set_flag_head CF_LEG_HOLDING v ch = put_flag CF_LEG_HOLDING v ch"
  "clear_flag_head CF_LEG_HOLDING ch = put_flag CF_LEG_HOLDING 0 ch"
  "flag_variables CF_LEG_HOLDING v' ch = ch" "clear_flag_tail CF_LEG_HOLDING c ch = ch"
  by (simp_all add: set_flag_head_def clear_flag_head_def flag_variables_def clear_flag_tail_def Let_def holding_flags)

lemma unhold_ok:
  assumes "ch_flags ch CF_LEG_HOLDING \<noteq> 0 \<and> ch_flags ch CF_ANSWERED \<noteq> 0 \<longrightarrow> ch_times ch \<noteq> None"
  shows "\<exists>ch'. hangup_unhold env ch = Inr ch' \<and> core_of ch' = core_of ch \<and> ch_flags ch' CF_LEG_HOLDING = 0"
proof (cases "ch_flags ch CF_LEG_HOLDING = 0")
  case True
  then show ?thesis by (simp add: hangup_unhold_def switch_channel_test_flag_def)
next
  case False
  have "\<exists>c. switch_channel_clear_flag (he_now1 env) (he_now2 env) ch CF_LEG_HOLDING = Inr c"
    using assms False
    by (auto simp: switch_channel_clear_flag_def Let_def fbind_def holding_head_tail end_hold_def ch_frame)
  then obtain c where c: "switch_channel_clear_flag (he_now1 env) (he_now2 env) ch CF_LEG_HOLDING = Inr c" by blast
  let ?c2 = "emit [Fire EVENT_CHANNEL_UNHOLD] c"
  have mh: "switch_channel_mark_hold (he_now1 env) (he_now2 env) (he_partner env) False ch False = Inr ?c2"
    using False c by (simp add: switch_channel_mark_hold_def switch_channel_test_flag_def)
  let ?c3 = "flag_variables CF_HANGUP_HELD (Some ''true'') (set_flag_head CF_HANGUP_HELD 1 ?c2)"
  have "hangup_unhold env ch = Inr ?c3"
    using False mh set_flag_plain [of CF_HANGUP_HELD 0 0 None ?c2 1]
    by (simp add: hangup_unhold_def switch_channel_test_flag_def holding_flags)
  moreover have "core_of ?c3 = core_of ch" "ch_flags ?c3 CF_LEG_HOLDING = 0"
    using clear_flag_frame [OF c] by (simp_all add: ch_frame, simp add: holding_flags)
  ultimately show ?thesis by blast
qed

lemma hangup_spec:
  assumes "\<not> ch_ocf_hangup ch" "ch_state ch < CS_HANGUP"
    "ch_flags ch CF_LEG_HOLDING \<noteq> 0 \<and> ch_flags ch CF_ANSWERED \<noteq> 0 \<longrightarrow> ch_times ch \<noteq> None"
  shows "\<exists>ch'. switch_channel_perform_hangup env ch cause = Inr (CS_HANGUP, ch') \<and>
     ch_state ch' = CS_HANGUP \<and> ch_hangup_cause ch' = cause \<and> ch_ocf_hangup ch' \<and>
     ch_flags ch' CF_LEG_HOLDING = 0 \<and> ch_flags ch' CF_BLOCK_STATE = 0"
proof -
  let ?c1 = "ch\<lparr>ch_ocf_hangup := True\<rparr>"
  obtain c3 where c3: "hangup_unhold env ?c1 = Inr c3" "core_of c3 = core_of ?c1" "ch_flags c3 CF_LEG_HOLDING = 0"
    using unhold_ok [of ?c1 env] assms(3) by auto
  have "CF_BLOCK_STATE \<noteq> CF_LEG_HOLDING" by (simp add: holding_flags)
  then obtain c4 where c4: "switch_channel_clear_flag 0 0 c3 CF_BLOCK_STATE = Inr c4"
    using clear_flag_plain by blast
  from clear_flag_frame [OF c4] c3 have
    f4: "core_of c4 = core_of ?c1" "ch_flags c4 CF_LEG_HOLDING = 0" "ch_flags c4 CF_BLOCK_STATE = 0"
    using \<open>CF_BLOCK_STATE \<noteq> CF_LEG_HOLDING\<close> by auto
  then have "ch_state c4 < CS_HANGUP" "ch_ocf_hangup c4" using assms(2) by (simp_all add: core_of_def)
  then have "ch_state (hangup_live env cause c4) = CS_HANGUP" "ch_hangup_cause (hangup_live env cause c4) = cause"
    "ch_ocf_hangup (hangup_live env cause c4)" "ch_flags (hangup_live env cause c4) = ch_flags c4"
    by (simp_all add: hangup_live_def Let_def emit_def close_hold_def split: list.splits)
  then show ?thesis
    using c3(1) c4 f4 assms(1) by (simp add: switch_channel_perform_hangup_def Let_def)
qed

lemma hangup_again:
  assumes "ch_ocf_hangup ch" "ch_flags ch CF_LEG_HOLDING = 0"
  shows "switch_channel_perform_hangup env ch cause = Inr (ch_state ch, ch)"
  using assms by (simp add: switch_channel_perform_hangup_def Let_def hangup_unhold_def switch_channel_test_flag_def)

section \<open>Properties\<close>

text \<open>C3: once a channel is hung up it stays down: no sequence of state requests, hang-ups, flag changes
  or hold changes moves it to an earlier state, changes its hang-up cause, or makes
  \<open>switch_channel_ready\<close> true again.\<close>

theorem hangup_is_final:
  assumes "ch_reach ch ch'" and "CS_HANGUP \<le> ch_state ch"
  shows "ch_state ch \<le> ch_state ch' \<and> ch_hangup_cause ch' = ch_hangup_cause ch \<and>
     \<not> switch_channel_test_ready in_thread codecs ch' True check_media"
proof -
  have l: "ch_state ch \<le> ch_state ch'" "ch_hangup_cause ch' = ch_hangup_cause ch"
    using ch_reach_later [OF assms(1)] assms(2) by (auto simp: down_later_def)
  then have "\<not> ch_state ch' < CS_HANGUP" using assms(2) by (simp add: not_less)
  with l show ?thesis by (auto simp: switch_channel_test_ready_def Let_def)
qed

definition idle_channel :: switch_channel where
  "idle_channel =
     \<lparr>ch_direction = SWITCH_CALL_DIRECTION_INBOUND, ch_logical_direction = SWITCH_CALL_DIRECTION_INBOUND,
      ch_state = CS_EXECUTE, ch_running_state = CS_EXECUTE, ch_callstate = CCS_ACTIVE,
      ch_flags = (\<lambda>f. if f = CF_ANSWERED then 1 else 0), ch_caps = (\<lambda>_. 0), ch_state_flags = (\<lambda>_. 0),
      ch_private_flags = 0, ch_times = Some \<lparr>last_hold = 0, hold_accum = 0\<rparr>, ch_hangup_cause = 0,
      ch_ocf_hangup = False, ch_hold_record = [], ch_device_node = None, ch_effects = []\<rparr>"

theorem hangup_is_final_witness:
  "\<not> switch_channel_test_ready True True (idle_channel\<lparr>ch_state := CS_REPORTING, ch_hangup_cause := 17,
       ch_effects := [Signal_state_change]\<rparr>) True False"
proof -
  let ?a = "idle_channel\<lparr>ch_state := CS_HANGUP, ch_hangup_cause := 17\<rparr>"
  let ?b = "idle_channel\<lparr>ch_state := CS_REPORTING, ch_hangup_cause := 17, ch_effects := [Signal_state_change]\<rparr>"
  have "switch_channel_perform_set_state True (\<lambda>_. True) ?a CS_REPORTING = Inr (CS_REPORTING, ?b)"
    by (simp add: switch_channel_perform_set_state_def idle_channel_def state_order emit_def)
  then have "ch_reach ?a ?b" using ch_reach.intros ch_step.set_state by blast
  from hangup_is_final [OF this, of True True False] show ?thesis by simp
qed

text \<open>C36: what a request for a state does to a channel, for every pair of states. \<open>CS_NONE\<close>, requested or held, fails an
  assertion. The state the channel is in, and on a channel that is down an earlier state, change nothing. A
  new or resetting channel takes every other state; any other live channel takes the states from \<open>CS_ROUTING\<close>
  to \<open>CS_RESET\<close>, and a hibernating one also \<open>CS_INIT\<close>; a channel that is down takes the later states. A state
  taken is set and announced to the session, the rest of the channel stays, and a hang-up without a cause gets
  normal clearing. Every other request fails an assertion: a channel that is running is not hung up, reported
  or destroyed by a state request.\<close>

theorem set_state_outcome:
  "switch_channel_perform_set_state tt st ch state =
     (if state = CS_NONE \<or> ch_state ch = CS_NONE then Inl Assert_failed
      else if state = ch_state ch \<or> CS_HANGUP \<le> ch_state ch \<and> state < ch_state ch then Inr (ch_state ch, ch)
      else if ch_state ch \<in> {CS_NEW, CS_RESET} \<or> CS_ROUTING \<le> state \<and> state \<le> CS_RESET \<or>
              ch_state ch = CS_HIBERNATE \<and> state = CS_INIT \<or> CS_HANGUP \<le> ch_state ch
      then Inr (state, ch\<lparr>ch_state := state,
             ch_hangup_cause := (if state = CS_HANGUP \<and> ch_hangup_cause ch = 0 then 16 else ch_hangup_cause ch),
             ch_effects := ch_effects ch @ [Signal_state_change]\<rparr>)
      else Inl Assert_failed)"
  by (cases "ch_state ch"; cases state)
    (simp_all add: switch_channel_perform_set_state_def Let_def emit_def state_order SWITCH_CAUSE_NORMAL_CLEARING_def)

text \<open>hanging up a live channel sets the state and the given cause, ends a hold and clears
  \<open>CF_BLOCK_STATE\<close>; every later hang-up, with any cause, changes nothing at all.\<close>

theorem hangup_once:
  assumes "\<not> ch_ocf_hangup ch" and "ch_state ch < CS_HANGUP"
    and "ch_flags ch CF_LEG_HOLDING \<noteq> 0 \<and> ch_flags ch CF_ANSWERED \<noteq> 0 \<longrightarrow> ch_times ch \<noteq> None"
  shows "\<exists>ch'. switch_channel_perform_hangup env ch cause = Inr (CS_HANGUP, ch') \<and>
     ch_state ch' = CS_HANGUP \<and> ch_hangup_cause ch' = cause \<and>
     ch_flags ch' CF_LEG_HOLDING = 0 \<and> ch_flags ch' CF_BLOCK_STATE = 0 \<and>
     switch_channel_perform_hangup env' ch' cause' = Inr (CS_HANGUP, ch')"
  using hangup_spec [OF assms, of env cause] hangup_again by metis

definition quiet_env :: hangup_env where
  "quiet_env = \<lparr>he_now1 = 1, he_now2 = 2, he_now3 = 3, he_partner = None, he_proto_cause = None,
     he_running = True, he_started = True\<rparr>"

theorem hangup_once_witness:
  "\<exists>ch'. switch_channel_perform_hangup quiet_env idle_channel 17 = Inr (CS_HANGUP, ch') \<and>
     ch_hangup_cause ch' = 17 \<and> switch_channel_perform_hangup quiet_env ch' 16 = Inr (CS_HANGUP, ch')"
  using hangup_once [of idle_channel quiet_env 17 quiet_env 16] by (auto simp: idle_channel_def state_order)

text \<open>entering a state applies the flags that were queued for the next state change, exactly those,
  clears the queue, and clears \<open>CF_TAGGED\<close>; the running state becomes the one entered.\<close>

theorem running_state_applies_pending:
  "\<exists>ch'. switch_channel_perform_set_running_state tt st ch state = Inr ch' \<and> ch_running_state ch' = state \<and>
     ch_state ch' = ch_state ch \<and> ch_flags ch' CF_TAGGED = 0 \<and>
     (\<forall>f. ch_flags ch' f =
        (if f = CF_TAGGED then 0
         else if ch_state_flags ch 0 \<noteq> 0 \<and> 1 \<le> f \<and> f < CF_FLAG_MAX \<and> ch_state_flags ch f \<noteq> 0 then 1 else ch_flags ch f)) \<and>
     (\<forall>f. ch_state_flags ch' f =
        (if ch_state_flags ch 0 \<noteq> 0 \<and> f < CF_FLAG_MAX then 0 else ch_state_flags ch f))"
proof -
  have ne: "CF_TAGGED \<noteq> CF_LEG_HOLDING" by (simp add: holding_flags)
  obtain c where c: "switch_channel_clear_flag 0 0 (pending_flags ch) CF_TAGGED = Inr c"
    using clear_flag_plain [OF ne] by blast
  let ?c2 = "c\<lparr>ch_running_state := state\<rparr>"
  obtain ch' where ch': "switch_channel_perform_set_running_state tt st ch state = Inr ch'"
    "core_of ch' = core_of ?c2" "ch_flags ch' = ch_flags ?c2"
    using c by (cases "state \<le> CS_DESTROY") (simp_all add: switch_channel_perform_set_running_state_def ch_frame)
  have f: "ch_flags c = (ch_flags (pending_flags ch))(CF_TAGGED := 0)" "core_of c = core_of (pending_flags ch)"
    using clear_flag_frame [OF c] by auto
  have sf: "ch_state_flags (pending_flags ch) f =
      (if ch_state_flags ch 0 \<noteq> 0 \<and> f < CF_FLAG_MAX then 0 else ch_state_flags ch f)" for f
    by (auto simp: pending_flags_def holding_flags)
  show ?thesis
    using ch' f sf by (auto simp: core_of_def pending_flags_def)
qed

text \<open>putting an answered leg on hold at \<open>t1\<close> and taking it off at \<open>t2\<close> adds \<open>t2 - t1\<close> to the
  accumulated hold time, leaves one closed hold record with both times, and returns the channel to the
  active call state.\<close>

theorem hold_accounting:
  assumes "ch_flags ch CF_LEG_HOLDING = 0" and "ch_flags ch CF_ANSWERED \<noteq> 0" and "ch_times ch = Some t" and "t1 \<noteq> 0"
  shows "\<exists>ch1 ch2. switch_channel_mark_hold t1 t1 brto False ch True = Inr ch1 \<and> ch_callstate ch1 = CCS_HELD \<and>
     switch_channel_mark_hold t2 t2 brto False ch1 False = Inr ch2 \<and> ch_callstate ch2 = CCS_ACTIVE \<and>
     ch_flags ch2 CF_LEG_HOLDING = 0 \<and>
     map_option hold_accum (ch_times ch2) = Some (hold_accum t + (t2 - t1)) \<and>
     ch_hold_record ch2 = \<lparr>hr_on = t1, hr_off = t2, hr_uuid = brto\<rparr> # ch_hold_record ch"
proof -
  have ne: "CF_ANSWERED \<noteq> CF_LEG_HOLDING" by (simp add: holding_flags)
  show ?thesis
    using assms ne
    by (simp add: switch_channel_mark_hold_def switch_channel_test_flag_def switch_channel_set_flag_value_def
        switch_channel_clear_flag_def Let_def holding_head_tail begin_hold_def end_hold_def
        switch_channel_perform_set_callstate_def put_flag_def emit_def)
qed

theorem hold_accounting_witness:
  "\<exists>ch1 ch2. switch_channel_mark_hold 10 10 None False idle_channel True = Inr ch1 \<and> ch_callstate ch1 = CCS_HELD \<and>
     switch_channel_mark_hold 25 25 None False ch1 False = Inr ch2 \<and>
     map_option hold_accum (ch_times ch2) = Some 15"
  using hold_accounting [of idle_channel "\<lparr>last_hold = 0, hold_accum = 0\<rparr>" 10 None 25]
  by (auto simp: idle_channel_def holding_flags)

end
