(* ===== verification/Port_Allocator.thy ===== *)
theory Port_Allocator
  imports Switch_Queue
begin

unbundle bit_operations_syntax

text \<open>
  The RTP port allocator, src/switch\_core\_port\_allocator.c. \<open>track\<close> holds one cell per port: 1 for
  a port in use, 0 for a free one, -4 to -1 for a port that is cooling down. \<open>rand()\<close> and the socket
  probes of \<open>test_port\<close> are parameters, indexed by the round of the search loop; the loop itself has
  no bound in the code, so it takes fuel.
\<close>

definition SPF_ODD :: uint32 where "SPF_ODD = 1"
definition SPF_EVEN :: uint32 where "SPF_EVEN = 2"
definition SPF_ROBUST_TCP :: uint32 where "SPF_ROBUST_TCP = 4"
definition SPF_ROBUST_UDP :: uint32 where "SPF_ROBUST_UDP = 8"

record port_allocator =
  pa_start :: uint16
  pa_end :: uint16
  pa_next :: uint16
  pa_track :: "int list"
  pa_track_len :: nat
  pa_track_used :: nat
  pa_flags :: uint32

definition pa_even :: "uint32 \<Rightarrow> bool" where "pa_even fl \<longleftrightarrow> fl AND SPF_EVEN \<noteq> 0"
definition pa_odd :: "uint32 \<Rightarrow> bool" where "pa_odd fl \<longleftrightarrow> fl AND SPF_ODD \<noteq> 0"

definition round_start :: "bool \<Rightarrow> bool \<Rightarrow> uint16 \<Rightarrow> uint16" where
  "round_start ev od start =
     (if \<not> (ev \<and> od) then
        if ev then (if start mod 2 \<noteq> 0 then start + 1 else start)
        else if od then (if start mod 2 = 0 then start + 1 else start)
        else start
      else start)"

definition round_end :: "bool \<Rightarrow> bool \<Rightarrow> uint16 \<Rightarrow> uint16" where
  "round_end ev od end' =
     (if \<not> (ev \<and> od) then
        if ev then (if end' mod 2 \<noteq> 0 then end' - 1 else end')
        else if od then (if end' mod 2 = 0 then end' - 1 else end')
        else end'
      else end')"

text \<open>\<open>(end - start) + 2\<close> is an \<open>int\<close> stored in a \<open>uint32_t\<close>.\<close>

definition track_length :: "bool \<Rightarrow> bool \<Rightarrow> uint16 \<Rightarrow> uint16 \<Rightarrow> nat" where
  "track_length ev od start end' =
     (let n = nat ((uint end' - uint start + 2) mod 2 ^ 32)
      in if \<not> (ev \<and> od) then n div 2 else n)"

definition switch_core_port_allocator_new :: "uint32 \<Rightarrow> uint16 \<Rightarrow> uint16 \<Rightarrow> uint32 \<Rightarrow> port_allocator" where
  "switch_core_port_allocator_new runtime_flags start end' flags =
     (let ev = pa_even flags; od = pa_odd flags;
          s = round_start ev od start; e = round_end ev od end';
          n = track_length ev od s e
      in \<lparr>pa_start = s, pa_end = e, pa_next = s, pa_track = replicate (n + 2) 0, pa_track_len = n,
          pa_track_used = 0, pa_flags = flags OR runtime_flags\<rparr>)"

text \<open>The walk from the random index: \<open>r\<close> counts down the tries left.\<close>

definition cool :: "int \<Rightarrow> int" where
  "cool v = (if v < 0 then v + 1 else v)"

definition next_index :: "nat \<Rightarrow> nat \<Rightarrow> nat" where
  "next_index len i = (if i + 1 \<ge> len then 0 else i + 1)"

fun find_free :: "nat \<Rightarrow> nat \<Rightarrow> int list \<Rightarrow> nat \<Rightarrow> int list \<times> nat \<times> nat" where
  "find_free len 0 t i = (t, i, 0)"
| "find_free len (Suc r) t i =
     (if t ! i \<noteq> 0 then find_free len r (t[i := cool (t ! i)]) (next_index len i) else (t, i, Suc r))"

definition port_of :: "port_allocator \<Rightarrow> nat \<Rightarrow> uint16" where
  "port_of a i =
     (if pa_even (pa_flags a) \<and> pa_odd (pa_flags a) then word_of_nat (i + unat (pa_start a))
      else word_of_nat (i + unat (pa_start a) div 2) * 2)"

definition port_usable :: "(uint16 \<Rightarrow> bool) \<Rightarrow> (uint16 \<Rightarrow> bool) \<Rightarrow> uint32 \<Rightarrow> uint16 \<Rightarrow> bool" where
  "port_usable udp_ok tcp_ok flags port =
     (let r = True;
          r = (if flags AND SPF_ROBUST_UDP \<noteq> 0 then udp_ok port else r)
      in if flags AND SPF_ROBUST_TCP \<noteq> 0 then tcp_ok port else r)"

fun request_loop ::
  "(nat \<Rightarrow> nat) \<Rightarrow> (nat \<Rightarrow> uint16 \<Rightarrow> bool) \<Rightarrow> (nat \<Rightarrow> uint16 \<Rightarrow> bool) \<Rightarrow> nat \<Rightarrow> nat \<Rightarrow>
   port_allocator \<Rightarrow> (switch_status \<times> uint16 \<times> port_allocator) option" where
  "request_loop rand udp tcp rnd 0 a = None"
| "request_loop rand udp tcp rnd (Suc fuel) a =
     (if pa_track_used a < pa_track_len a then
        (case find_free (pa_track_len a) (pa_track_len a) (pa_track a) (rand rnd mod pa_track_len a) of
           (t, i, r) \<Rightarrow>
             if r > 0 then
               if port_usable (udp rnd) (tcp rnd) (pa_flags a) (port_of a i)
               then Some (SWITCH_STATUS_SUCCESS, port_of a i,
                          a\<lparr>pa_track := t[i := 1], pa_track_used := pa_track_used a + 1\<rparr>)
               else request_loop rand udp tcp (Suc rnd) fuel (a\<lparr>pa_track := t[i := -4]\<rparr>)
             else request_loop rand udp tcp (Suc rnd) fuel (a\<lparr>pa_track := t\<rparr>))
      else Some (SWITCH_STATUS_FALSE, 0, a))"

definition switch_core_port_allocator_request_port ::
  "(nat \<Rightarrow> nat) \<Rightarrow> (nat \<Rightarrow> uint16 \<Rightarrow> bool) \<Rightarrow> (nat \<Rightarrow> uint16 \<Rightarrow> bool) \<Rightarrow> nat \<Rightarrow>
   port_allocator \<Rightarrow> (switch_status \<times> uint16 \<times> port_allocator) option" where
  "switch_core_port_allocator_request_port rand udp tcp fuel a = request_loop rand udp tcp 0 fuel a"

text \<open>Freeing indexes the track with no upper bound check.\<close>

definition switch_core_port_allocator_free_port ::
  "port_allocator \<Rightarrow> uint16 \<Rightarrow> fault + (switch_status \<times> port_allocator)" where
  "switch_core_port_allocator_free_port a port =
     (if port < pa_start a then Inr (SWITCH_STATUS_GENERR, a)
      else let d = unat port - unat (pa_start a);
               i = (if \<not> (pa_even (pa_flags a) \<and> pa_odd (pa_flags a)) then d div 2 else d)
           in if i \<ge> length (pa_track a) then Inl Out_of_bounds
              else if pa_track a ! i > 0
              then Inr (SWITCH_STATUS_SUCCESS, a\<lparr>pa_track := (pa_track a)[i := -4], pa_track_used := pa_track_used a - 1\<rparr>)
              else Inr (SWITCH_STATUS_FALSE, a))"

section \<open>The track\<close>

definition used_cells :: "nat \<Rightarrow> int list \<Rightarrow> nat set" where
  "used_cells len t = {i. i < len \<and> t ! i = 1}"

definition pa_wf :: "port_allocator \<Rightarrow> bool" where
  "pa_wf a \<longleftrightarrow> length (pa_track a) = pa_track_len a + 2 \<and>
     (\<forall>i < pa_track_len a. -4 \<le> pa_track a ! i \<and> pa_track a ! i \<le> 1) \<and>
     (\<forall>i < length (pa_track a). pa_track_len a \<le> i \<longrightarrow> pa_track a ! i = 0) \<and>
     pa_track_used a = card (used_cells (pa_track_len a) (pa_track a))"

lemma next_index_mod: "i < len \<Longrightarrow> next_index len i = (i + 1) mod len"
  by (auto simp: next_index_def mod_if)

text \<open>Whatever the walk does, each cell is either kept or cooled once, and a stop with tries left is at a free cell.\<close>

lemma find_free_cells:
  assumes "find_free len r t i = (t', i', r')" "i < len" "len \<le> length t"
  shows "length t' = length t \<and> i' < len \<and> (0 < r' \<longrightarrow> t' ! i' = 0) \<and> (\<forall>j. len \<le> j \<longrightarrow> t' ! j = t ! j)"
  using assms
proof (induction len r t i arbitrary: t' i' r' rule: find_free.induct)
  case (2 len r t i)
  have n: "next_index len i < len" using "2.prems"(2) by (auto simp: next_index_def)
  show ?case
  proof (cases "t ! i = 0")
    case True
    then show ?thesis using "2.prems" by auto
  next
    case False
    then have "length t' = length (t[i := cool (t ! i)]) \<and> i' < len \<and> (0 < r' \<longrightarrow> t' ! i' = 0) \<and>
      (\<forall>j. len \<le> j \<longrightarrow> t' ! j = t[i := cool (t ! i)] ! j)"
      using "2.prems" n by (intro "2.IH") auto
    then show ?thesis using "2.prems"(2) by auto
  qed
qed auto

lemma cool_range: "-4 \<le> v \<Longrightarrow> v \<le> 1 \<Longrightarrow> -4 \<le> cool v \<and> cool v \<le> 1"
  by (auto simp: cool_def)

lemma cool_one [simp]: "cool v = 1 \<longleftrightarrow> v = 1"
  by (auto simp: cool_def)

lemma find_free_range:
  assumes "find_free len r t i = (t', i', r')" "i < len" "len \<le> length t" "\<forall>j < len. -4 \<le> t ! j \<and> t ! j \<le> 1"
  shows "(\<forall>j < len. -4 \<le> t' ! j \<and> t' ! j \<le> 1) \<and> (\<forall>j < len. t' ! j = 1 \<longleftrightarrow> t ! j = 1)"
  using assms
proof (induction len r t i arbitrary: t' i' r' rule: find_free.induct)
  case (2 len r t i)
  have n: "next_index len i < len" using "2.prems"(2) by (auto simp: next_index_def)
  show ?case
  proof (cases "t ! i = 0")
    case True
    then show ?thesis using "2.prems" by auto
  next
    case False
    have "\<forall>j < len. -4 \<le> t[i := cool (t ! i)] ! j \<and> t[i := cool (t ! i)] ! j \<le> 1"
      using "2.prems"(2-4) cool_range by (auto simp: nth_list_update)
    moreover have "\<forall>j < len. t[i := cool (t ! i)] ! j = 1 \<longleftrightarrow> t ! j = 1"
      using "2.prems"(2,3) by (auto simp: nth_list_update)
    ultimately show ?thesis using "2.IH" [OF False, of t' i' r'] "2.prems"(1,3) n False by auto
  qed
qed auto

text \<open>A walk that uses up its tries has cooled every cell it passed, once.\<close>

lemma find_free_full:
  assumes "find_free len r t i = (t', i', 0)" "i < len" "len \<le> length t" "r \<le> len"
  shows "(\<forall>k < r. t ! ((i + k) mod len) \<noteq> 0 \<and> t' ! ((i + k) mod len) = cool (t ! ((i + k) mod len))) \<and>
         (\<forall>j. (\<forall>k < r. j \<noteq> (i + k) mod len) \<longrightarrow> t' ! j = t ! j)"
  using assms
proof (induction r arbitrary: t i)
  case (Suc r)
  let ?t = "t[i := cool (t ! i)]" and ?n = "next_index len i"
  have ne: "t ! i \<noteq> 0" and rec: "find_free len r ?t ?n = (t', i', 0)"
    using Suc.prems(1) by (auto split: if_splits)
  have n: "?n = (i + 1) mod len" "?n < len" using Suc.prems(2) next_index_mod by (auto simp: next_index_def)
  have shift: "(?n + k) mod len = (i + Suc k) mod len" for k by (simp add: n(1) mod_add_left_eq)
  note IH = Suc.IH [OF rec n(2)]
  have away: "(i + Suc k) mod len \<noteq> i" if "Suc k < len" for k
    using ring_index_neq [of 0 "Suc k" len i] that Suc.prems(2) by auto
  have i1: "t' ! i = cool (t ! i)"
  proof -
    have "\<forall>k < r. i \<noteq> (?n + k) mod len" using away Suc.prems(4) shift by (metis Suc_le_eq Suc_less_eq less_trans_Suc le_imp_less_Suc not_less_eq)
    then have "t' ! i = ?t ! i" using IH Suc.prems(3,4) by simp
    then show ?thesis using Suc.prems(2,3) by simp
  qed
  show ?case
  proof (intro conjI allI impI)
    fix k assume "k < Suc r"
    then show "t ! ((i + k) mod len) \<noteq> 0" and "t' ! ((i + k) mod len) = cool (t ! ((i + k) mod len))"
    proof -
      have "t ! ((i + k) mod len) \<noteq> 0 \<and> t' ! ((i + k) mod len) = cool (t ! ((i + k) mod len))"
      proof (cases k)
        case 0
        then show ?thesis using ne i1 Suc.prems(2) by simp
      next
        case (Suc m)
        then have m: "m < r" using \<open>k < Suc r\<close> by simp
        then have "Suc m < len" using Suc.prems(4) by simp
        then have "(i + k) mod len \<noteq> i" using away Suc by simp
        then have "?t ! ((i + k) mod len) = t ! ((i + k) mod len)" by simp
        moreover have "?t ! ((?n + m) mod len) \<noteq> 0 \<and> t' ! ((?n + m) mod len) = cool (?t ! ((?n + m) mod len))"
          using IH m Suc.prems(3,4) by simp
        ultimately show ?thesis unfolding shift Suc by simp
      qed
      then show "t ! ((i + k) mod len) \<noteq> 0" and "t' ! ((i + k) mod len) = cool (t ! ((i + k) mod len))" by auto
    qed
  next
    fix j assume j: "\<forall>k < Suc r. j \<noteq> (i + k) mod len"
    then have "j \<noteq> i" using Suc.prems(2) by (metis add.right_neutral mod_less zero_less_Suc)
    moreover have "\<forall>k < r. j \<noteq> (?n + k) mod len" unfolding shift using j by (metis Suc_less_eq)
    ultimately show "t' ! j = t ! j" using IH Suc.prems(3,4) by simp
  qed
qed simp

lemma find_free_round:
  assumes "find_free len len t i = (t', i', 0)" "i < len" "len \<le> length t" "j < len"
  shows "t ! j \<noteq> 0 \<and> t' ! j = cool (t ! j)"
proof -
  obtain k where "k < len" "(i + k) mod len = j"
  proof (cases "i \<le> j")
    case True
    then show ?thesis using that [of "j - i"] assms(4) by simp
  next
    case False
    then have "(i + (len - i + j)) mod len = j" using assms(2,4) by simp
    then show ?thesis using that [of "len - i + j"] False assms(2) by simp
  qed
  then show ?thesis using find_free_full [OF assms(1-3)] by auto
qed

section \<open>Requests\<close>

lemma used_finite: "finite (used_cells len t)" "used_cells len t \<subseteq> {..<len}"
  by (auto simp: used_cells_def)

text \<open>What a round leaves alone: everything but the cells and the counter.\<close>

definition pa_same :: "port_allocator \<Rightarrow> port_allocator \<Rightarrow> bool" where
  "pa_same a b \<longleftrightarrow> pa_start b = pa_start a \<and> pa_end b = pa_end a \<and> pa_track_len b = pa_track_len a \<and>
     pa_flags b = pa_flags a"

definition pa_used :: "port_allocator \<Rightarrow> nat set" where
  "pa_used a = used_cells (pa_track_len a) (pa_track a)"

lemma round_wf:
  assumes "pa_wf a" "find_free (pa_track_len a) (pa_track_len a) (pa_track a) i = (t, i', r)" "i < pa_track_len a"
  shows "pa_wf (a\<lparr>pa_track := t\<rparr>) \<and> pa_used (a\<lparr>pa_track := t\<rparr>) = pa_used a \<and> i' < pa_track_len a \<and>
     (0 < r \<longrightarrow> t ! i' = 0)"
proof -
  have len: "pa_track_len a \<le> length (pa_track a)" using assms(1) by (simp add: pa_wf_def)
  note c = find_free_cells [OF assms(2,3) len]
  have "\<forall>j < pa_track_len a. -4 \<le> pa_track a ! j \<and> pa_track a ! j \<le> 1" using assms(1) by (simp add: pa_wf_def)
  note g = find_free_range [OF assms(2,3) len this]
  have u: "used_cells (pa_track_len a) t = used_cells (pa_track_len a) (pa_track a)"
    using g by (auto simp: used_cells_def)
  show ?thesis using assms(1) c g u by (auto simp: pa_wf_def pa_used_def)
qed

lemma cell_update_wf:
  assumes "pa_wf a" "i < pa_track_len a" "pa_track a ! i = 0"
  shows "pa_wf (a\<lparr>pa_track := (pa_track a)[i := -4]\<rparr>)"
    "pa_used (a\<lparr>pa_track := (pa_track a)[i := -4]\<rparr>) = pa_used a"
    "pa_wf (a\<lparr>pa_track := (pa_track a)[i := 1], pa_track_used := pa_track_used a + 1\<rparr>)"
    "pa_used (a\<lparr>pa_track := (pa_track a)[i := 1], pa_track_used := pa_track_used a + 1\<rparr>) = insert i (pa_used a)"
    "i \<notin> pa_used a"
proof -
  let ?n = "pa_track_len a" and ?t = "pa_track a"
  have l: "i < length ?t" using assms(1,2) by (simp add: pa_wf_def)
  show n: "i \<notin> pa_used a" using assms(3) by (simp add: pa_used_def used_cells_def)
  have u4: "used_cells ?n (?t[i := -4]) = used_cells ?n ?t"
    using assms(3) l by (auto simp: used_cells_def nth_list_update)
  have u1: "used_cells ?n (?t[i := 1]) = insert i (used_cells ?n ?t)"
    using assms(2) l by (auto simp: used_cells_def nth_list_update)
  show "pa_wf (a\<lparr>pa_track := ?t[i := -4]\<rparr>)" "pa_used (a\<lparr>pa_track := ?t[i := -4]\<rparr>) = pa_used a"
    using assms u4 by (auto simp: pa_wf_def pa_used_def nth_list_update)
  show "pa_wf (a\<lparr>pa_track := ?t[i := 1], pa_track_used := pa_track_used a + 1\<rparr>)"
    "pa_used (a\<lparr>pa_track := ?t[i := 1], pa_track_used := pa_track_used a + 1\<rparr>) = insert i (pa_used a)"
    using assms u1 n used_finite(1) [of ?n ?t] by (auto simp: pa_wf_def pa_used_def nth_list_update)
qed

definition granted :: "port_allocator \<Rightarrow> uint16 \<Rightarrow> port_allocator \<Rightarrow> bool" where
  "granted a p a' \<longleftrightarrow> (\<exists>i < pa_track_len a. p = port_of a i \<and> i \<notin> pa_used a \<and> pa_used a' = insert i (pa_used a)) \<and>
     pa_wf a' \<and> pa_same a a'"

lemma port_of_same: "pa_same a b \<Longrightarrow> port_of b = port_of a"
  by (auto simp: pa_same_def port_of_def)

lemma request_loop_spec:
  assumes "pa_wf a" "request_loop rand udp tcp rnd fuel a = Some (s, p, a')"
  shows "(s = SWITCH_STATUS_SUCCESS \<and> granted a p a') \<or>
     (s = SWITCH_STATUS_FALSE \<and> p = 0 \<and> pa_used a' = pa_used a \<and> pa_wf a' \<and> pa_same a a' \<and>
      pa_track_used a = pa_track_len a)"
  using assms
proof (induction fuel arbitrary: rnd a)
  case (Suc fuel)
  show ?case
  proof (cases "pa_track_used a < pa_track_len a")
    case False
    have "card (pa_used a) \<le> card {..<pa_track_len a}"
      unfolding pa_used_def by (intro card_mono used_finite) simp
    then have "pa_track_used a \<le> pa_track_len a" using Suc.prems(1) by (simp add: pa_wf_def pa_used_def)
    then show ?thesis using False Suc.prems by (auto simp: pa_same_def)
  next
    case True
    let ?i = "rand rnd mod pa_track_len a"
    obtain t i r where f: "find_free (pa_track_len a) (pa_track_len a) (pa_track a) ?i = (t, i, r)"
      by (metis prod_cases3)
    have il: "?i < pa_track_len a" using True by simp
    let ?b = "a\<lparr>pa_track := t\<rparr>"
    note b = round_wf [OF Suc.prems(1) f il]
    have same: "pa_same a ?b" by (simp add: pa_same_def)
    show ?thesis
    proof (cases "0 < r")
      case r: True
      have z: "pa_track ?b ! i = 0" "i < pa_track_len ?b" "pa_wf ?b" using b r by auto
      note u = cell_update_wf [OF z(3,2,1)]
      show ?thesis
      proof (cases "port_usable (udp rnd) (tcp rnd) (pa_flags a) (port_of a i)")
        case ok: True
        then have "s = SWITCH_STATUS_SUCCESS" "p = port_of a i"
          "a' = ?b\<lparr>pa_track := (pa_track ?b)[i := 1], pa_track_used := pa_track_used ?b + 1\<rparr>"
          using Suc.prems(2) True f r by auto
        then show ?thesis using u(3-5) b by (auto simp: granted_def pa_same_def)
      next
        case no: False
        let ?c = "?b\<lparr>pa_track := (pa_track ?b)[i := -4]\<rparr>"
        have "request_loop rand udp tcp (Suc rnd) fuel ?c = Some (s, p, a')"
          using Suc.prems(2) True f r no by simp
        from Suc.IH [OF u(1) this] u(2) b show ?thesis
          by (auto simp: granted_def pa_same_def port_of_def)
      qed
    next
      case r: False
      then have "request_loop rand udp tcp (Suc rnd) fuel ?b = Some (s, p, a')"
        using Suc.prems(2) True f by simp
      from Suc.IH [OF _ this] b show ?thesis by (auto simp: granted_def pa_same_def port_of_def)
    qed
  qed
qed simp

text \<open>Without the robustness probes a request ends within five rounds.\<close>

definition not_robust :: "uint32 \<Rightarrow> bool" where
  "not_robust fl \<longleftrightarrow> fl AND SPF_ROBUST_UDP = 0 \<and> fl AND SPF_ROBUST_TCP = 0"

lemma request_ends:
  assumes "pa_wf a" "not_robust (pa_flags a)" "pa_track_used a < pa_track_len a"
    "j < pa_track_len a" "pa_track a ! j \<le> 0" "nat (- (pa_track a ! j)) < fuel"
  shows "\<exists>p a'. request_loop rand udp tcp rnd fuel a = Some (SWITCH_STATUS_SUCCESS, p, a')"
  using assms
proof (induction fuel arbitrary: rnd a)
  case (Suc fuel)
  let ?i = "rand rnd mod pa_track_len a"
  obtain t i r where f: "find_free (pa_track_len a) (pa_track_len a) (pa_track a) ?i = (t, i, r)"
    by (metis prod_cases3)
  have il: "?i < pa_track_len a" using Suc.prems(3) by simp
  let ?b = "a\<lparr>pa_track := t\<rparr>"
  note b = round_wf [OF Suc.prems(1) f il]
  show ?case
  proof (cases "0 < r")
    case True
    then show ?thesis using f Suc.prems(2,3) by (simp add: port_usable_def not_robust_def)
  next
    case False
    have "pa_track_len a \<le> length (pa_track a)" using Suc.prems(1) by (simp add: pa_wf_def)
    with False f find_free_round [of "pa_track_len a" "pa_track a" ?i t i j] il Suc.prems(4)
    have c: "pa_track a ! j \<noteq> 0" "t ! j = cool (pa_track a ! j)" by auto
    then have lt: "pa_track ?b ! j \<le> 0" "nat (- (pa_track ?b ! j)) < fuel"
      using Suc.prems(5,6) by (auto simp: cool_def)
    have "\<exists>p a'. request_loop rand udp tcp (Suc rnd) fuel ?b = Some (SWITCH_STATUS_SUCCESS, p, a')"
      using b lt Suc.prems(2-4) by (intro Suc.IH) auto
    then show ?thesis using f False Suc.prems(3) by simp
  qed
qed simp

lemma request_succeeds:
  assumes "pa_wf a" "not_robust (pa_flags a)" "pa_track_used a < pa_track_len a" "5 \<le> fuel"
  shows "\<exists>p a'. request_loop rand udp tcp rnd fuel a = Some (SWITCH_STATUS_SUCCESS, p, a')"
proof -
  have "pa_used a \<noteq> {..<pa_track_len a}"
    using assms(1,3) by (auto simp: pa_wf_def pa_used_def)
  then obtain j where j: "j < pa_track_len a" "j \<notin> pa_used a"
    using used_finite(2) [of "pa_track_len a" "pa_track a"] by (auto simp: pa_used_def)
  then have "pa_track a ! j \<noteq> 1" "-4 \<le> pa_track a ! j" "pa_track a ! j \<le> 1"
    using assms(1) by (auto simp: pa_used_def used_cells_def pa_wf_def)
  then show ?thesis using request_ends [OF assms(1-3) j(1)] assms(4) by auto
qed

section \<open>Even port ranges\<close>

definition even_range :: "port_allocator \<Rightarrow> bool" where
  "even_range a \<longleftrightarrow> pa_even (pa_flags a) \<and> \<not> pa_odd (pa_flags a) \<and> even (unat (pa_start a)) \<and>
     even (unat (pa_end a)) \<and> pa_start a \<le> pa_end a \<and>
     pa_track_len a = (unat (pa_end a) - unat (pa_start a)) div 2 + 1"

definition pa_ports :: "port_allocator \<Rightarrow> uint16 set" where
  "pa_ports a = port_of a ` pa_used a"

lemma unat16: "unat (w :: uint16) < 65536"
  using unsigned_less [of w, where 'a = nat] by simp

lemma word16_double: "(word_of_nat n :: uint16) * 2 = word_of_nat (2 * n)"
  by simp

lemma port_of_half:
  "\<not> (pa_even (pa_flags a) \<and> pa_odd (pa_flags a)) \<Longrightarrow> port_of a i = word_of_nat (2 * (i + unat (pa_start a) div 2))"
  unfolding port_of_def by (simp only: if_False word16_double)

lemma even_port:
  assumes "even_range a" "i < pa_track_len a"
  shows "unat (port_of a i) = unat (pa_start a) + 2 * i" "unat (pa_start a) + 2 * i \<le> unat (pa_end a)"
proof -
  have le: "unat (pa_start a) \<le> unat (pa_end a)" using assms(1) by (simp add: even_range_def word_le_nat_alt)
  have "2 * i \<le> unat (pa_end a) - unat (pa_start a)" using assms by (auto simp: even_range_def)
  then show u: "unat (pa_start a) + 2 * i \<le> unat (pa_end a)" using le by simp
  have "2 * (i + unat (pa_start a) div 2) = unat (pa_start a) + 2 * i" using assms(1) by (auto simp: even_range_def)
  moreover have "port_of a i = word_of_nat (2 * (i + unat (pa_start a) div 2))"
    using assms(1) by (intro port_of_half) (simp add: even_range_def)
  ultimately have "port_of a i = word_of_nat (unat (pa_start a) + 2 * i)" by (simp only:)
  moreover have "unat (pa_start a) + 2 * i < 65536" using u unat16 [of "pa_end a"] by simp
  ultimately show "unat (port_of a i) = unat (pa_start a) + 2 * i"
    by (simp add: unat_of_nat del: of_nat_mult of_nat_add)
qed

lemma even_port_inj: "even_range a \<Longrightarrow> inj_on (port_of a) {..<pa_track_len a}"
proof (rule inj_onI)
  fix i j assume a: "even_range a" "i \<in> {..<pa_track_len a}" "j \<in> {..<pa_track_len a}" "port_of a i = port_of a j"
  have "unat (pa_start a) + 2 * i = unat (pa_start a) + 2 * j"
    using even_port(1) [OF a(1), of i] even_port(1) [OF a(1), of j] a by (metis lessThan_iff)
  then show "i = j" by simp
qed

lemma pa_used_sub: "pa_used a \<subseteq> {..<pa_track_len a}"
  by (auto simp: pa_used_def used_cells_def)

lemma port_in_use:
  assumes "even_range a" "i < pa_track_len a"
  shows "port_of a i \<in> pa_ports a \<longleftrightarrow> i \<in> pa_used a"
  unfolding pa_ports_def using inj_on_image_mem_iff [OF even_port_inj [OF assms(1)] _ pa_used_sub, of i] assms(2) by simp

lemma even_range_same: "pa_same a b \<Longrightarrow> even_range a \<Longrightarrow> even_range b"
  by (simp add: pa_same_def even_range_def)

lemma granted_even:
  assumes "even_range a" "granted a p a'"
  shows "even_range a' \<and> pa_wf a' \<and> p \<notin> pa_ports a \<and> pa_ports a' = insert p (pa_ports a) \<and>
     pa_start a \<le> p \<and> p \<le> pa_end a \<and> even (unat p)"
proof -
  from assms(2) obtain i where i: "i < pa_track_len a" "p = port_of a i" "i \<notin> pa_used a"
    "pa_used a' = insert i (pa_used a)" "pa_wf a'" "pa_same a a'" by (auto simp: granted_def)
  have "port_of a i \<notin> pa_ports a" using port_in_use [OF assms(1) i(1)] i(3) by simp
  moreover have "even (unat p)" using even_port(1) [OF assms(1) i(1)] i(2) assms(1) by (simp add: even_range_def)
  moreover have "pa_start a \<le> p" "p \<le> pa_end a"
    using even_port [OF assms(1) i(1)] i(2) by (simp_all add: word_le_nat_alt)
  ultimately show ?thesis
    using i even_range_same [OF i(6) assms(1)] by (simp add: pa_ports_def port_of_same [OF i(6)])
qed

lemma free_even:
  assumes "even_range a" "pa_wf a" "i < pa_track_len a"
  shows "switch_core_port_allocator_free_port a (port_of a i) =
    (if i \<in> pa_used a
     then Inr (SWITCH_STATUS_SUCCESS, a\<lparr>pa_track := (pa_track a)[i := -4], pa_track_used := pa_track_used a - 1\<rparr>)
     else Inr (SWITCH_STATUS_FALSE, a))"
proof -
  have p: "unat (port_of a i) = unat (pa_start a) + 2 * i" by (rule even_port(1) [OF assms(1,3)])
  then have "\<not> port_of a i < pa_start a" by (simp add: word_less_nat_alt)
  moreover have "i < length (pa_track a)" using assms(2,3) by (simp add: pa_wf_def)
  moreover have "pa_track a ! i > 0 \<longleftrightarrow> i \<in> pa_used a"
    using assms(2,3) by (auto simp: pa_wf_def pa_used_def used_cells_def)
  ultimately show ?thesis
    using p assms(1) by (simp add: switch_core_port_allocator_free_port_def Let_def even_range_def)
qed

lemma release_wf:
  assumes "pa_wf a" "i \<in> pa_used a"
  shows "pa_wf (a\<lparr>pa_track := (pa_track a)[i := -4], pa_track_used := pa_track_used a - 1\<rparr>)"
    "pa_used (a\<lparr>pa_track := (pa_track a)[i := -4], pa_track_used := pa_track_used a - 1\<rparr>) = pa_used a - {i}"
proof -
  let ?n = "pa_track_len a" and ?t = "pa_track a"
  have i: "i < ?n" "i < length ?t" using assms by (auto simp: pa_used_def used_cells_def pa_wf_def)
  have u: "used_cells ?n (?t[i := -4]) = used_cells ?n ?t - {i}"
    using i by (auto simp: used_cells_def nth_list_update)
  then show "pa_used (a\<lparr>pa_track := ?t[i := -4], pa_track_used := pa_track_used a - 1\<rparr>) = pa_used a - {i}"
    by (simp add: pa_used_def)
  show "pa_wf (a\<lparr>pa_track := ?t[i := -4], pa_track_used := pa_track_used a - 1\<rparr>)"
    using assms i u used_finite(1) [of ?n ?t] by (auto simp: pa_wf_def pa_used_def nth_list_update)
qed

lemma replicate_zero_wf:
  "pa_wf \<lparr>pa_start = s, pa_end = e, pa_next = s, pa_track = replicate (n + 2) 0, pa_track_len = n,
     pa_track_used = 0, pa_flags = fl\<rparr>"
  by (auto simp: pa_wf_def used_cells_def nth_replicate simp del: replicate.simps replicate_Suc)

section \<open>Properties\<close>

text \<open>C23: on an even range without robustness probes a request ends (within five rounds of the search,
  whatever \<open>rand\<close> returns) with success exactly when a port is left; the port granted is even, lies in
  the range, was not in use, and is the only one that becomes in use.\<close>

theorem port_request_grants:
  assumes "even_range a" and "pa_wf a" and "not_robust (pa_flags a)" and "5 \<le> fuel"
  shows "\<exists>s p a'. switch_core_port_allocator_request_port rand udp tcp fuel a = Some (s, p, a') \<and>
     even_range a' \<and> pa_wf a' \<and>
     (if pa_track_used a < pa_track_len a
      then s = SWITCH_STATUS_SUCCESS \<and> p \<notin> pa_ports a \<and> pa_ports a' = insert p (pa_ports a) \<and>
           pa_start a \<le> p \<and> p \<le> pa_end a \<and> even (unat p)
      else s = SWITCH_STATUS_FALSE \<and> p = 0 \<and> pa_ports a' = pa_ports a)"
proof (cases "pa_track_used a < pa_track_len a")
  case True
  from request_succeeds [OF assms(2,3) True assms(4), of rand udp tcp 0] obtain p a' where
    r: "request_loop rand udp tcp 0 fuel a = Some (SWITCH_STATUS_SUCCESS, p, a')" by blast
  from request_loop_spec [OF assms(2) r] have "granted a p a'" by auto
  from granted_even [OF assms(1) this] r True show ?thesis
    by (simp add: switch_core_port_allocator_request_port_def)
next
  case False
  then have "request_loop rand udp tcp 0 fuel a = Some (SWITCH_STATUS_FALSE, 0, a)"
    using assms(4) by (cases fuel) auto
  then show ?thesis using False assms by (simp add: switch_core_port_allocator_request_port_def)
qed

definition small_pool :: port_allocator where
  "small_pool = switch_core_port_allocator_new 0 16384 16386 SPF_EVEN"

lemma small_pool_ok: "even_range small_pool" "pa_wf small_pool" "not_robust (pa_flags small_pool)"
  "pa_track_len small_pool = 2" "pa_track_used small_pool = 0"
proof -
  show "pa_wf small_pool"
    by (simp only: small_pool_def switch_core_port_allocator_new_def Let_def replicate_zero_wf)
  show "even_range small_pool" "not_robust (pa_flags small_pool)" "pa_track_len small_pool = 2"
    "pa_track_used small_pool = 0"
    by (simp_all add: small_pool_def switch_core_port_allocator_new_def Let_def round_start_def round_end_def
        track_length_def even_range_def not_robust_def pa_even_def pa_odd_def SPF_EVEN_def SPF_ODD_def
        SPF_ROBUST_UDP_def SPF_ROBUST_TCP_def)
qed

theorem port_request_grants_witness:
  "\<exists>p a'. switch_core_port_allocator_request_port (\<lambda>_. 7) (\<lambda>_ _. False) (\<lambda>_ _. False) 5 small_pool =
     Some (SWITCH_STATUS_SUCCESS, p, a') \<and> p \<notin> pa_ports small_pool \<and> pa_ports a' = insert p (pa_ports small_pool)"
  using port_request_grants [OF small_pool_ok(1-3) order_refl, of "\<lambda>_. 7" "\<lambda>_ _. False" "\<lambda>_ _. False"]
    small_pool_ok(4,5) by auto



text \<open>on an even range, freeing a port that is in use succeeds and releases exactly that port;
  freeing a port of the range that is not in use is refused and changes nothing.\<close>

theorem port_free_releases:
  assumes "even_range a" and "pa_wf a" and "i < pa_track_len a"
  shows "if port_of a i \<in> pa_ports a
     then \<exists>a'. switch_core_port_allocator_free_port a (port_of a i) = Inr (SWITCH_STATUS_SUCCESS, a') \<and>
            even_range a' \<and> pa_wf a' \<and> pa_ports a' = pa_ports a - {port_of a i}
     else switch_core_port_allocator_free_port a (port_of a i) = Inr (SWITCH_STATUS_FALSE, a)"
proof -
  note m = port_in_use [OF assms(1,3)]
  let ?b = "a\<lparr>pa_track := (pa_track a)[i := -4], pa_track_used := pa_track_used a - 1\<rparr>"
  have same: "pa_same a ?b" by (simp add: pa_same_def)
  have "port_of a ` (pa_used a - {i}) = port_of a ` pa_used a - {port_of a i}"
    using inj_on_image_set_diff [OF even_port_inj [OF assms(1)], of "pa_used a" "{i}"] pa_used_sub assms(3)
    by auto
  then have rel: "i \<in> pa_used a \<Longrightarrow> pa_ports ?b = pa_ports a - {port_of a i}"
    unfolding pa_ports_def port_of_same [OF same] using release_wf(2) [OF assms(2), of i] by simp
  show ?thesis
  proof (cases "i \<in> pa_used a")
    case True
    then show ?thesis
      using free_even [OF assms] m rel release_wf(1) [OF assms(2) True] even_range_same [OF same assms(1)] by simp
  next
    case False
    then show ?thesis using free_even [OF assms] m by simp
  qed
qed

theorem port_free_releases_witness:
  "switch_core_port_allocator_free_port small_pool (port_of small_pool 1) = Inr (SWITCH_STATUS_FALSE, small_pool)"
proof -
  have "pa_ports small_pool = {}"
    using small_pool_ok(2,5) used_finite(1) [of "pa_track_len small_pool" "pa_track small_pool"]
    by (simp add: pa_wf_def pa_ports_def pa_used_def)
  then show ?thesis using port_free_releases [OF small_pool_ok(1,2), of 1] small_pool_ok(4) by simp
qed

text \<open>an allocator for odd ports (\<open>SPF_ODD\<close> alone) hands out even ports: the port of its first cell is
  one below the start of the range, and freeing that port is refused, so the cell is never released.\<close>

theorem port_odd_range_leaks:
  assumes "pa_odd (pa_flags a)" and "\<not> pa_even (pa_flags a)" and "odd (unat (pa_start a))"
  shows "even (unat (port_of a i)) \<and> port_of a 0 = pa_start a - 1 \<and>
     switch_core_port_allocator_free_port a (port_of a 0) = Inr (SWITCH_STATUS_GENERR, a)"
proof -
  have p: "port_of a j = word_of_nat (2 * (j + unat (pa_start a) div 2))" for j
    using assms(1,2) by (intro port_of_half) simp
  have "unat (port_of a i) = (2 * (i + unat (pa_start a) div 2)) mod 65536"
    unfolding p by (simp add: unat_of_nat del: of_nat_mult of_nat_add)
  also have "even \<dots>" by (subst dvd_mod_iff) simp_all
  finally have e: "even (unat (port_of a i))" .
  have h: "2 * (unat (pa_start a) div 2) = unat (pa_start a) - 1" "0 < unat (pa_start a)"
    using assms(3) by (auto elim: oddE)
  have m: "unat (pa_start a - 1) = unat (pa_start a) - 1"
    using h(2) by (simp add: unat_sub word_le_nat_alt)
  moreover have "unat (port_of a 0) = unat (pa_start a) - 1"
    unfolding p using h unat16 [of "pa_start a"] by (simp add: unat_of_nat m del: of_nat_mult of_nat_add)
  ultimately have q: "port_of a 0 = pa_start a - 1" "port_of a 0 < pa_start a"
    using h(2) by (simp_all add: word_unat_eq_iff word_less_nat_alt)
  with e show ?thesis by (simp add: switch_core_port_allocator_free_port_def)
qed

theorem port_odd_range_leaks_witness:
  "port_of (switch_core_port_allocator_new 0 5001 5009 SPF_ODD) 0 = 5000"
proof -
  let ?a = "switch_core_port_allocator_new 0 5001 5009 SPF_ODD"
  have "pa_odd (pa_flags ?a)" "\<not> pa_even (pa_flags ?a)" "pa_start ?a = 5001" "odd (unat (pa_start ?a))"
    by (simp_all add: switch_core_port_allocator_new_def Let_def round_start_def pa_even_def pa_odd_def
        SPF_EVEN_def SPF_ODD_def)
  with port_odd_range_leaks [of ?a 0] show ?thesis by simp
qed

end
