(* ===== verification/Event.thy ===== *)
theory Event
  imports C_String Separate
begin

text \<open>
  Event headers, src/switch\_event.c: the ordered, case-insensitive, multi-valued header lists that
  carry channel variables, events and requests. The header list is a list in chain order
  (\<open>last_header\<close> is its last element); \<open>array\<close> with \<open>idx\<close> is the list \<open>h_array\<close>; \<open>value\<close> is
  optional because it is a pointer. Allocation never fails (the code asserts it), and who owns a
  string is not modelled.
\<close>

section \<open>Data\<close>

record event_header =
  h_name :: string
  h_value :: "string option"
  h_array :: "string list"
  h_hash :: uint32

record switch_event =
  ev_id :: nat
  ev_subclass :: "string option"
  ev_headers :: "event_header list"
  ev_body :: "string option"
  ev_uniq :: bool

text \<open>The bits of \<open>switch_stack_t\<close> the code tests.\<close>

record stack_flags =
  st_top :: bool
  st_unshift :: bool
  st_push :: bool

definition STACK_BOTTOM :: stack_flags where
  "STACK_BOTTOM = \<lparr>st_top = False, st_unshift = False, st_push = False\<rparr>"
definition STACK_TOP :: stack_flags where
  "STACK_TOP = \<lparr>st_top = True, st_unshift = False, st_push = False\<rparr>"
definition STACK_PUSH :: stack_flags where
  "STACK_PUSH = \<lparr>st_top = False, st_unshift = False, st_push = True\<rparr>"
definition STACK_UNSHIFT :: stack_flags where
  "STACK_UNSHIFT = \<lparr>st_top = False, st_unshift = True, st_push = False\<rparr>"

fun ci_hash_loop :: "uint32 \<Rightarrow> string \<Rightarrow> uint32" where
  "ci_hash_loop hash [] = hash"
| "ci_hash_loop hash (p # ps) = ci_hash_loop (hash * 33 + ucast (ascii_lower (char_byte p))) ps"

definition switch_ci_hashfunc_default :: "string \<Rightarrow> uint32" where
  "switch_ci_hashfunc_default key = ci_hash_loop 0 key"

section \<open>Lookup and deletion\<close>

definition header_match :: "string \<Rightarrow> event_header \<Rightarrow> bool" where
  "header_match name hp \<longleftrightarrow>
     (h_hash hp = 0 \<or> switch_ci_hashfunc_default name = h_hash hp) \<and> strcasecmp_eq (h_name hp) name"

definition switch_event_get_header_ptr :: "switch_event \<Rightarrow> string \<Rightarrow> event_header option" where
  "switch_event_get_header_ptr ev name = find (header_match name) (ev_headers ev)"

definition switch_event_get_header_idx :: "switch_event \<Rightarrow> string \<Rightarrow> int \<Rightarrow> string option" where
  "switch_event_get_header_idx ev name idx =
     (case switch_event_get_header_ptr ev name of
        Some hp \<Rightarrow> if idx > -1 then (if idx < int (length (h_array hp)) then Some (h_array hp ! nat idx) else None)
                   else h_value hp
      | None \<Rightarrow> if name = ''_body'' then ev_body ev else None)"

definition switch_event_get_header :: "switch_event \<Rightarrow> string \<Rightarrow> string option" where
  "switch_event_get_header ev name = switch_event_get_header_idx ev name (-1)"

definition switch_event_get_body :: "switch_event \<Rightarrow> string option" where
  "switch_event_get_body ev = ev_body ev"

definition del_match :: "string \<Rightarrow> string option \<Rightarrow> event_header \<Rightarrow> bool" where
  "del_match name val hp \<longleftrightarrow> header_match name hp \<and> (zstr val \<or> h_value hp = val)"

definition switch_event_del_header_val ::
  "switch_event \<Rightarrow> string \<Rightarrow> string option \<Rightarrow> switch_status \<times> switch_event" where
  "switch_event_del_header_val ev name val =
     (if \<exists>hp \<in> set (ev_headers ev). del_match name val hp then SWITCH_STATUS_SUCCESS else SWITCH_STATUS_FALSE,
      ev\<lparr>ev_headers := filter (\<lambda>hp. \<not> del_match name val hp) (ev_headers ev)\<rparr>)"

definition switch_event_del_header :: "switch_event \<Rightarrow> string \<Rightarrow> switch_event" where
  "switch_event_del_header ev name = snd (switch_event_del_header_val ev name None)"

definition switch_event_rename_header :: "switch_event \<Rightarrow> string \<Rightarrow> string \<Rightarrow> switch_status \<times> switch_event" where
  "switch_event_rename_header ev name new_name =
     (if \<exists>hp \<in> set (ev_headers ev). header_match name hp then SWITCH_STATUS_SUCCESS else SWITCH_STATUS_FALSE,
      ev\<lparr>ev_headers := map (\<lambda>hp. if header_match name hp
           then hp\<lparr>h_name := new_name, h_hash := switch_ci_hashfunc_default new_name\<rparr> else hp) (ev_headers ev)\<rparr>)"

section \<open>Adding\<close>

definition new_header :: "string \<Rightarrow> event_header" where
  "new_header name = \<lparr>h_name = name, h_value = None, h_array = [], h_hash = 0\<rparr>"

fun join_array :: "string list \<Rightarrow> string" where
  "join_array [] = []"
| "join_array [x] = x"
| "join_array (x # y # ys) = x @ ''|:'' @ join_array (y # ys)"

text \<open>The label \<open>redraw\<close>: the value is rewritten from the array, unless the array is empty.\<close>

definition redraw :: "event_header \<Rightarrow> event_header" where
  "redraw h =
     (if h_array h = [] then h
      else h\<lparr>h_value := Some ((if length (h_array h) > 1 then ''ARRAY::'' else []) @ join_array (h_array h))\<rparr>)"

definition push_value :: "stack_flags \<Rightarrow> string \<Rightarrow> event_header \<Rightarrow> event_header" where
  "push_value st data h =
     (let arr = (if h_array h = [] then (case h_value h of None \<Rightarrow> [] | Some v \<Rightarrow> [v]) else h_array h)
      in redraw (h\<lparr>h_value := (if h_array h = [] then None else h_value h),
                   h_array := (if st_push st then arr @ [data] else data # arr)\<rparr>))"

text \<open>Assignment to an index: an existing slot is replaced without redrawing the value.\<close>

definition set_index :: "nat \<Rightarrow> string \<Rightarrow> event_header \<Rightarrow> event_header" where
  "set_index i data h =
     (if i < length (h_array h) then h\<lparr>h_array := (h_array h)[i := data]\<rparr>
      else redraw (h\<lparr>h_array := h_array h @ replicate (i - length (h_array h)) [] @ [data]\<rparr>))"

fun update_first :: "('a \<Rightarrow> bool) \<Rightarrow> ('a \<Rightarrow> 'a) \<Rightarrow> 'a list \<Rightarrow> 'a list" where
  "update_first p f [] = []"
| "update_first p f (x # xs) = (if p x then f x # xs else x # update_first p f xs)"

definition link_header :: "stack_flags \<Rightarrow> event_header \<Rightarrow> switch_event \<Rightarrow> switch_event" where
  "link_header st h ev =
     (let h' = h\<lparr>h_hash := switch_ci_hashfunc_default (h_name h)\<rparr>
      in ev\<lparr>ev_headers := (if st_top st then h' # ev_headers ev else ev_headers ev @ [h'])\<rparr>)"

fun contains :: "string \<Rightarrow> string \<Rightarrow> bool" where
  "contains pat s \<longleftrightarrow> take (length pat) s = pat \<or> (case s of [] \<Rightarrow> False | _ # cs \<Rightarrow> contains pat cs)"

declare contains.simps [simp del]

definition switch_event_set_body :: "switch_event \<Rightarrow> string option \<Rightarrow> switch_event" where
  "switch_event_set_body ev body = ev\<lparr>ev_body := body\<rparr>"

text \<open>\<open>split_index\<close>: the name before a bracket and the number after it.\<close>

definition split_index :: "string \<Rightarrow> string \<times> int option" where
  "split_index name =
     (if CHR ''['' \<in> set name
      then (takeWhile (\<lambda>c. c \<noteq> CHR ''['') name, Some (atoi (tl (dropWhile (\<lambda>c. c \<noteq> CHR ''['') name))))
      else (name, None))"

definition add_indexed :: "stack_flags \<Rightarrow> string \<Rightarrow> int \<Rightarrow> string \<Rightarrow> switch_event \<Rightarrow> switch_event" where
  "add_indexed st name index data ev =
     (case switch_event_get_header_ptr ev name of
        Some _ \<Rightarrow>
          if index > -1 \<and> index \<le> 4000
          then ev\<lparr>ev_headers := update_first (header_match name) (set_index (nat index) data) (ev_headers ev)\<rparr>
          else ev
      | None \<Rightarrow>
          let ev1 = (if ev_uniq ev then switch_event_del_header ev name else ev) in
          if index > -1 \<and> index \<le> 4000
          then link_header st (set_index (nat index) data (new_header name)) ev1 else ev1)"

text \<open>The values after \<open>ARRAY::\<close>, cut at every \<open>|:\<close>; the code counts the separators first and gives
  the splitter as many slots.\<close>

definition array_items :: "string \<Rightarrow> string list" where
  "array_items s = split_on (length s) ''|:'' s"

lemma strstr_split_length:
  "strstr_split delim acc s = Some (a, b) \<Longrightarrow> delim \<noteq> [] \<Longrightarrow> length a + length delim + length b = length acc + length s"
proof (induction delim acc s rule: strstr_split.induct)
  case (1 delim acc s)
  show ?case
  proof (cases "take (length delim) s = delim")
    case True
    then have "length delim \<le> length s" by (metis length_take min.absorb_iff2 min.commute)
    then show ?thesis using 1 True by (auto simp: strstr_split.simps [of delim acc s])
  next
    case False
    then show ?thesis using 1 by (auto simp: strstr_split.simps [of delim acc s] split: list.splits)
  qed
qed

lemma split_on_weight: "(\<Sum>x\<leftarrow>split_on n ''|:'' s. 2 * length x + 3) \<le> 2 * length s + 3"
proof (induction n arbitrary: s)
  case (Suc n)
  show ?case
  proof (cases "strstr_split ''|:'' [] s")
    case (Some p)
    then obtain a b where p: "strstr_split ''|:'' [] s = Some (a, b)" by (cases p) auto
    from strstr_split_length [OF this] Suc.IH [of b] p show ?thesis by simp
  qed simp
qed simp

function (sequential) base_add_header :: "stack_flags \<Rightarrow> string \<Rightarrow> string \<Rightarrow> switch_event \<Rightarrow> switch_event"
  and add_items :: "string \<Rightarrow> string list \<Rightarrow> switch_event \<Rightarrow> switch_event" where
  "base_add_header st header_name data ev0 =
     (let ev = (if header_name = ''_body'' then switch_event_set_body ev0 (Some data) else ev0) in
      case split_index header_name of
        (name, Some index) \<Rightarrow> add_indexed st name index data ev
      | (name, None) \<Rightarrow>
          if (st_push st \<or> st_unshift st) \<and> switch_event_get_header_ptr ev name \<noteq> None
          then ev\<lparr>ev_headers := update_first (header_match name) (push_value st data) (ev_headers ev)\<rparr>
          else if data = [] then switch_event_del_header ev name
          else let ev1 = (if ev_uniq ev then switch_event_del_header ev name else ev) in
            if contains ''ARRAY::'' data then
              if length data < 8 then ev1 else add_items name (array_items (drop 7 data)) ev1
            else if st_push st \<or> st_unshift st then link_header st (push_value st data (new_header name)) ev1
            else link_header st ((new_header name)\<lparr>h_value := Some data\<rparr>) ev1)"
| "add_items name [] ev = ev"
| "add_items name (d # ds) ev = add_items name ds (base_add_header STACK_PUSH name d ev)"
  by pat_completeness auto

termination
proof (relation "measure (case_sum (\<lambda>(st, n, d, ev). 2 * length d + 1)
    (\<lambda>(n, ds, ev). \<Sum>x\<leftarrow>ds. 2 * length x + 3))", goal_cases)
  case (2 st header_name data)
  then show ?case using split_on_weight [of "length data - 7" "drop 7 data"] by (simp add: array_items_def)
qed auto

declare base_add_header.simps [simp del]

definition switch_event_add_array :: "switch_event \<Rightarrow> string \<Rightarrow> string \<Rightarrow> int \<times> switch_event" where
  "switch_event_add_array ev var val =
     (if length val < 8 then (-1, ev) else (0, add_items var (array_items (drop 7 val)) ev))"

definition switch_event_add_header_string ::
  "switch_event \<Rightarrow> stack_flags \<Rightarrow> string \<Rightarrow> string option \<Rightarrow> switch_status \<times> switch_event" where
  "switch_event_add_header_string ev st name data =
     (case data of Some d \<Rightarrow> (SWITCH_STATUS_SUCCESS, base_add_header st name d ev)
      | None \<Rightarrow> (SWITCH_STATUS_GENERR, ev))"

definition switch_event_set_subclass_name :: "switch_event \<Rightarrow> string option \<Rightarrow> switch_status \<times> switch_event" where
  "switch_event_set_subclass_name ev subclass =
     (case subclass of None \<Rightarrow> (SWITCH_STATUS_GENERR, ev)
      | Some n \<Rightarrow>
          (SWITCH_STATUS_SUCCESS,
           snd (switch_event_add_header_string (switch_event_del_header (ev\<lparr>ev_subclass := Some n\<rparr>) ''Event-Subclass'')
                  STACK_BOTTOM ''Event-Subclass'' (Some n))))"

section \<open>Merging and copying\<close>

definition copy_header :: "event_header \<Rightarrow> switch_event \<Rightarrow> switch_event" where
  "copy_header hp ev =
     (if h_array hp \<noteq> [] then fold (\<lambda>v e. snd (switch_event_add_header_string e STACK_PUSH (h_name hp) (Some v))) (h_array hp) ev
      else snd (switch_event_add_header_string ev STACK_BOTTOM (h_name hp) (h_value hp)))"

definition switch_event_merge :: "switch_event \<Rightarrow> switch_event \<Rightarrow> switch_event" where
  "switch_event_merge ev tomerge = fold copy_header (ev_headers tomerge) ev"

text \<open>Numbers of \<open>switch_event_types_t\<close>; \<open>prep\<close> is what \<open>switch_event_prep_for_delivery\<close> adds.\<close>

definition SWITCH_EVENT_CUSTOM :: nat where "SWITCH_EVENT_CUSTOM = 0"
definition SWITCH_EVENT_CLONE :: nat where "SWITCH_EVENT_CLONE = 1"
definition SWITCH_EVENT_MESSAGE :: nat where "SWITCH_EVENT_MESSAGE = 37"
definition SWITCH_EVENT_REQUEST_PARAMS :: nat where "SWITCH_EVENT_REQUEST_PARAMS = 62"
definition SWITCH_EVENT_CHANNEL_DATA :: nat where "SWITCH_EVENT_CHANNEL_DATA = 63"

definition uniq_type :: "nat \<Rightarrow> bool" where
  "uniq_type event_id \<longleftrightarrow> event_id = SWITCH_EVENT_REQUEST_PARAMS \<or> event_id = SWITCH_EVENT_CHANNEL_DATA \<or>
     event_id = SWITCH_EVENT_MESSAGE"

lemmas event_types = SWITCH_EVENT_CUSTOM_def SWITCH_EVENT_CLONE_def SWITCH_EVENT_MESSAGE_def
  SWITCH_EVENT_REQUEST_PARAMS_def SWITCH_EVENT_CHANNEL_DATA_def

definition switch_event_create_subclass ::
  "(switch_event \<Rightarrow> switch_event) \<Rightarrow> nat \<Rightarrow> string option \<Rightarrow> switch_status \<times> switch_event option" where
  "switch_event_create_subclass prep event_id subclass_name =
     (if event_id \<noteq> SWITCH_EVENT_CLONE \<and> event_id \<noteq> SWITCH_EVENT_CUSTOM \<and> subclass_name \<noteq> None
      then (SWITCH_STATUS_GENERR, None)
      else let ev = \<lparr>ev_id = 0, ev_subclass = None, ev_headers = [], ev_body = None, ev_uniq = uniq_type event_id\<rparr>;
               ev1 = (if event_id \<noteq> SWITCH_EVENT_CLONE then prep (ev\<lparr>ev_id := event_id\<rparr>) else ev)
           in (SWITCH_STATUS_SUCCESS,
               Some (case subclass_name of None \<Rightarrow> ev1
                     | Some n \<Rightarrow> snd (switch_event_add_header_string (ev1\<lparr>ev_subclass := Some n\<rparr>) STACK_BOTTOM ''Event-Subclass'' (Some n)))))"

definition switch_event_dup ::
  "(switch_event \<Rightarrow> switch_event) \<Rightarrow> switch_event \<Rightarrow> switch_status \<times> switch_event option" where
  "switch_event_dup prep todup =
     (case switch_event_create_subclass prep SWITCH_EVENT_CLONE (ev_subclass todup) of
        (_, None) \<Rightarrow> (SWITCH_STATUS_GENERR, None)
      | (_, Some ev) \<Rightarrow>
          let ev1 = ev\<lparr>ev_id := ev_id todup, ev_uniq := ev_uniq todup\<rparr>;
              ev2 = fold (\<lambda>hp e. if ev_subclass todup \<noteq> None \<and> h_name hp = ''Event-Subclass'' then e else copy_header hp e)
                      (ev_headers todup) ev1
          in (SWITCH_STATUS_SUCCESS,
              Some (case ev_body todup of None \<Rightarrow> ev2 | Some b \<Rightarrow> ev2\<lparr>ev_body := Some b\<rparr>)))"

section \<open>Names are matched ignoring case\<close>

definition hash_ok :: "switch_event \<Rightarrow> bool" where
  "hash_ok ev \<longleftrightarrow> (\<forall>hp \<in> set (ev_headers ev). h_hash hp = switch_ci_hashfunc_default (h_name hp))"

lemma ci_hash_loop_cong:
  "list_all2 (\<lambda>x y. ascii_lower (char_byte x) = ascii_lower (char_byte y)) a b \<Longrightarrow> ci_hash_loop h a = ci_hash_loop h b"
  by (induction a b arbitrary: h rule: list_all2_induct) simp_all

lemma ci_hash_cong: "strcasecmp_eq a b \<Longrightarrow> switch_ci_hashfunc_default a = switch_ci_hashfunc_default b"
  unfolding switch_ci_hashfunc_default_def strcasecmp_eq_def
  by (rule ci_hash_loop_cong) (simp add: list.rel_eq [symmetric] list.rel_map)

lemma strcasecmp_sym: "strcasecmp_eq a b \<longleftrightarrow> strcasecmp_eq b a"
  by (auto simp: strcasecmp_eq_def)

lemma strcasecmp_trans: "strcasecmp_eq a b \<Longrightarrow> strcasecmp_eq b c \<Longrightarrow> strcasecmp_eq a c"
  by (simp add: strcasecmp_eq_def)

lemma header_match_iff:
  "h_hash hp = switch_ci_hashfunc_default (h_name hp) \<Longrightarrow> header_match n hp \<longleftrightarrow> strcasecmp_eq (h_name hp) n"
  by (auto simp: header_match_def dest: ci_hash_cong)

lemma find_hash_ok:
  "hash_ok ev \<Longrightarrow> switch_event_get_header_ptr ev n = find (\<lambda>hp. strcasecmp_eq (h_name hp) n) (ev_headers ev)"
  unfolding switch_event_get_header_ptr_def hash_ok_def
  by (rule find_cong) (auto simp: header_match_iff)

lemma del_hash_ok:
  assumes "hash_ok ev"
  shows "hash_ok (switch_event_del_header ev n)"
    "ev_headers (switch_event_del_header ev n) = filter (\<lambda>hp. \<not> strcasecmp_eq (h_name hp) n) (ev_headers ev)"
    "ev_body (switch_event_del_header ev n) = ev_body ev" "ev_uniq (switch_event_del_header ev n) = ev_uniq ev"
proof -
  show h: "ev_headers (switch_event_del_header ev n) = filter (\<lambda>hp. \<not> strcasecmp_eq (h_name hp) n) (ev_headers ev)"
    using assms by (auto simp: switch_event_del_header_def switch_event_del_header_val_def del_match_def zstr_def
        hash_ok_def header_match_iff intro!: filter_cong)
  show "hash_ok (switch_event_del_header ev n)" using assms unfolding hash_ok_def h by simp
qed (simp_all add: switch_event_del_header_def switch_event_del_header_val_def)

lemma find_filter_other:
  assumes "\<And>x. p x \<Longrightarrow> q x"
  shows "find p (filter q xs) = find p xs"
  using assms by (induction xs) auto

lemma find_append: "find p (xs @ ys) = (case find p xs of None \<Rightarrow> find p ys | Some x \<Rightarrow> Some x)"
  by (induction xs) auto

text \<open>A name without an index that does not touch the body.\<close>

definition plain_name :: "string \<Rightarrow> bool" where
  "plain_name n \<longleftrightarrow> CHR ''['' \<notin> set n \<and> n \<noteq> ''_body''"

definition plain_data :: "string \<Rightarrow> bool" where
  "plain_data d \<longleftrightarrow> d \<noteq> [] \<and> \<not> contains ''ARRAY::'' d"

definition scalar :: "string \<Rightarrow> string \<Rightarrow> event_header" where
  "scalar n d = \<lparr>h_name = n, h_value = Some d, h_array = [], h_hash = switch_ci_hashfunc_default n\<rparr>"

lemma add_scalar:
  assumes "plain_name n" "plain_data d" "\<not> st_push st" "\<not> st_unshift st"
  shows "base_add_header st n d ev =
    (let ev1 = (if ev_uniq ev then switch_event_del_header ev n else ev)
     in ev1\<lparr>ev_headers := (if st_top st then scalar n d # ev_headers ev1 else ev_headers ev1 @ [scalar n d])\<rparr>)"
  using assms
  by (simp add: base_add_header.simps plain_name_def plain_data_def split_index_def link_header_def new_header_def
      scalar_def Let_def)

lemma get_header_find:
  "switch_event_get_header ev n =
     (case switch_event_get_header_ptr ev n of Some hp \<Rightarrow> h_value hp | None \<Rightarrow> if n = ''_body'' then ev_body ev else None)"
  by (simp add: switch_event_get_header_def switch_event_get_header_idx_def split: option.splits)

lemma scalar_hash_ok: "hash_ok ev \<Longrightarrow> plain_name n \<Longrightarrow> plain_data d \<Longrightarrow> \<not> st_push st \<Longrightarrow> \<not> st_unshift st \<Longrightarrow>
  hash_ok (base_add_header st n d ev)"
  using del_hash_ok(1) [of ev n]
  by (auto simp: add_scalar Let_def hash_ok_def scalar_def)

lemma add_scalar_lookup:
  assumes "hash_ok ev" "ev_uniq ev" "plain_name n" "plain_data d" "\<not> st_push st" "\<not> st_unshift st"
  shows "switch_event_get_header (base_add_header st n d ev) m =
    (if strcasecmp_eq n m then Some d else switch_event_get_header ev m)"
proof -
  let ?ev1 = "switch_event_del_header ev n" and ?ev2 = "base_add_header st n d ev"
  let ?p = "\<lambda>hp. strcasecmp_eq (h_name hp) m"
  have ev2: "?ev2 = ?ev1\<lparr>ev_headers := (if st_top st then scalar n d # ev_headers ?ev1 else ev_headers ?ev1 @ [scalar n d])\<rparr>"
    using add_scalar [OF assms(3-6)] assms(2) by (simp add: Let_def)
  have ok2: "hash_ok ?ev2" by (rule scalar_hash_ok [OF assms(1,3-6)])
  have hd: "ev_headers ?ev1 = filter (\<lambda>hp. \<not> strcasecmp_eq (h_name hp) n) (ev_headers ev)" using del_hash_ok [OF assms(1)] by simp
  have body: "ev_body ?ev2 = ev_body ev" using ev2 del_hash_ok(3) [OF assms(1)] by simp
  show ?thesis
  proof (cases "strcasecmp_eq n m")
    case True
    have "strcasecmp_eq x n" if "strcasecmp_eq x m" for x
      using True that by (simp add: strcasecmp_eq_def)
    then have "find ?p (ev_headers ?ev1) = None" unfolding hd find_None_iff by auto
    then have "switch_event_get_header_ptr ?ev2 m = Some (scalar n d)"
      using True ev2 find_hash_ok [OF ok2] by (auto simp: find_append scalar_def)
    then show ?thesis using True by (simp add: get_header_find scalar_def)
  next
    case False
    have "find ?p (ev_headers ?ev1) = find ?p (ev_headers ev)"
      unfolding hd using False by (intro find_filter_other) (auto simp: strcasecmp_eq_def)
    then have "switch_event_get_header_ptr ?ev2 m = switch_event_get_header_ptr ev m"
      using False ev2 find_hash_ok [OF ok2] find_hash_ok [OF assms(1)]
      by (auto simp: find_append scalar_def split: option.splits)
    then show ?thesis using False body by (simp add: get_header_find split: option.splits)
  qed
qed

section \<open>Arrays\<close>

definition draw :: "string list \<Rightarrow> string" where
  "draw xs = (if length xs > 1 then ''ARRAY::'' else []) @ join_array xs"

definition array_header :: "string \<Rightarrow> string list \<Rightarrow> event_header" where
  "array_header n xs = \<lparr>h_name = n, h_value = Some (draw xs), h_array = xs, h_hash = switch_ci_hashfunc_default n\<rparr>"

text \<open>A value that can be an array item: not itself an array, and without the separator.\<close>

definition item_ok :: "string \<Rightarrow> bool" where
  "item_ok x \<longleftrightarrow> \<not> contains ''ARRAY::'' x \<and> \<not> contains ''|:'' x"

lemma push_first:
  assumes "plain_name n" "item_ok x" "x \<noteq> []" "switch_event_get_header_ptr ev n = None" "hash_ok ev"
  shows "base_add_header STACK_PUSH n x ev = ev\<lparr>ev_headers := ev_headers ev @ [array_header n [x]]\<rparr>"
proof -
  have "switch_event_del_header ev n = ev"
    using assms(4,5) find_hash_ok [OF assms(5)] del_hash_ok(2-4) [OF assms(5), of n]
    by (auto simp: find_None_iff switch_event_del_header_def switch_event_del_header_val_def intro!: switch_event.equality filter_True)
  then show ?thesis
    using assms
    by (simp add: base_add_header.simps plain_name_def item_ok_def split_index_def link_header_def new_header_def
        push_value_def redraw_def array_header_def draw_def STACK_PUSH_def Let_def)
qed

lemma update_first_last: "\<forall>x \<in> set xs. \<not> p x \<Longrightarrow> p y \<Longrightarrow> update_first p f (xs @ [y]) = xs @ [f y]"
  by (induction xs) auto

lemma find_last_header:
  assumes "\<forall>h \<in> set hs. \<not> header_match n h"
  shows "find (header_match n) (hs @ [array_header n xs]) = Some (array_header n xs)"
proof -
  have "find (header_match n) hs = None" using assms by (auto simp: find_None_iff)
  then show ?thesis by (simp add: find_append header_match_def array_header_def)
qed

lemma push_next:
  assumes "plain_name n" "\<forall>h \<in> set hs. \<not> header_match n h" "xs \<noteq> []"
    "ev_headers ev = hs @ [array_header n xs]"
  shows "base_add_header STACK_PUSH n x ev = ev\<lparr>ev_headers := hs @ [array_header n (xs @ [x])]\<rparr>"
proof -
  have m: "header_match n (array_header n xs)" by (simp add: header_match_def array_header_def)
  have "push_value STACK_PUSH x (array_header n xs) = array_header n (xs @ [x])"
    using assms(3) by (simp add: push_value_def redraw_def array_header_def draw_def STACK_PUSH_def Let_def)
  then show ?thesis
    using assms(1,4) find_last_header [OF assms(2), of xs] update_first_last [OF assms(2) m]
    by (simp add: base_add_header.simps plain_name_def split_index_def STACK_PUSH_def switch_event_get_header_ptr_def Let_def)
qed

lemma push_rest:
  assumes "plain_name n" "\<forall>h \<in> set hs. \<not> header_match n h" "xs \<noteq> []"
    "ev_headers ev = hs @ [array_header n xs]"
  shows "add_items n ys ev = ev\<lparr>ev_headers := hs @ [array_header n (xs @ ys)]\<rparr>"
  using assms(3,4)
proof (induction ys arbitrary: xs ev)
  case (Cons y ys)
  show ?case
    using push_next [OF assms(1,2) Cons.prems, of y]
      Cons.IH [of "xs @ [y]" "ev\<lparr>ev_headers := hs @ [array_header n (xs @ [y])]\<rparr>"] by simp
qed simp

lemma push_all:
  assumes "plain_name n" "item_ok x" "x \<noteq> []" "hash_ok ev" "switch_event_get_header_ptr ev n = None"
  shows "add_items n (x # xs) ev = ev\<lparr>ev_headers := ev_headers ev @ [array_header n (x # xs)]\<rparr>"
proof -
  have "\<forall>h \<in> set (ev_headers ev). \<not> header_match n h"
    using assms(5) by (auto simp: switch_event_get_header_ptr_def find_None_iff)
  from push_rest [OF assms(1) this, of "[x]"] push_first [OF assms(1-3,5,4)] show ?thesis by simp
qed

lemma strstr_found:
  "\<not> contains ''|:'' x \<Longrightarrow> strstr_split ''|:'' acc (x @ ''|:'' @ r) = Some (rev acc @ x, r)"
proof (induction x arbitrary: acc)
  case (Cons c x)
  have "\<not> contains ''|:'' x" "take 2 (c # x) \<noteq> ''|:''"
    using Cons.prems by (simp_all add: contains.simps [of _ "c # x"])
  moreover from this(2) have "take (length ''|:'') ((c # x) @ ''|:'' @ r) \<noteq> ''|:''"
    by (cases x) auto
  ultimately show ?case
    using Cons.IH [of "c # acc"] by (simp add: strstr_split.simps [of _ acc "c # x @ _"])
qed (simp add: strstr_split.simps)

lemma strstr_none: "\<not> contains ''|:'' x \<Longrightarrow> strstr_split ''|:'' acc x = None"
proof (induction x arbitrary: acc)
  case (Cons c x)
  have "\<not> contains ''|:'' x" "take 2 (c # x) \<noteq> ''|:''"
    using Cons.prems by (simp_all add: contains.simps [of _ "c # x"])
  then show ?case using Cons.IH by (simp add: strstr_split.simps [of _ acc "c # x"] numeral_2_eq_2)
qed (simp add: strstr_split.simps)

lemma split_join:
  "xs \<noteq> [] \<Longrightarrow> \<forall>x \<in> set xs. \<not> contains ''|:'' x \<Longrightarrow> length xs \<le> Suc n \<Longrightarrow> split_on n ''|:'' (join_array xs) = xs"
proof (induction n arbitrary: xs)
  case 0
  then show ?case by (cases xs) auto
next
  case (Suc n)
  then obtain x ys where xs: "xs = x # ys" by (cases xs) auto
  show ?case
  proof (cases ys)
    case Nil
    then show ?thesis using Suc.prems xs strstr_none [of x "[]"] by simp
  next
    case (Cons y zs)
    then have "split_on n ''|:'' (join_array ys) = ys" using Suc.prems xs by (intro Suc.IH) auto
    then show ?thesis using Suc.prems xs Cons strstr_found [of x "[]" "join_array ys"] by simp
  qed
qed

lemma join_array_length: "length xs \<le> Suc (length (join_array xs))"
  by (induction xs rule: join_array.induct) auto

lemma array_items_join:
  "xs \<noteq> [] \<Longrightarrow> \<forall>x \<in> set xs. \<not> contains ''|:'' x \<Longrightarrow> array_items (join_array xs) = xs"
  unfolding array_items_def by (rule split_join) (auto simp: join_array_length)

lemma draw_is_array: "length xs > 1 \<Longrightarrow> contains ''ARRAY::'' (draw xs) \<and> 8 \<le> length (draw xs) \<and> drop 7 (draw xs) = join_array xs"
proof -
  assume l: "length xs > 1"
  then obtain x y ys where "xs = x # y # ys" by (cases xs; cases "tl xs") auto
  then show ?thesis using l by (simp add: draw_def contains.simps)
qed

lemma add_drawn:
  assumes "plain_name n" "hash_ok ev" "switch_event_get_header_ptr ev n = None" "length xs > 1"
    "\<forall>x \<in> set xs. item_ok x" "hd xs \<noteq> []"
  shows "base_add_header STACK_BOTTOM n (draw xs) ev = ev\<lparr>ev_headers := ev_headers ev @ [array_header n xs]\<rparr>"
proof -
  obtain x ys where xs: "xs = x # ys" using assms(4) by (cases xs) auto
  have it: "array_items (join_array xs) = xs" using assms(4,5) by (intro array_items_join) (auto simp: item_ok_def)
  have del: "switch_event_del_header ev n = ev"
    using assms(2,3) find_hash_ok [OF assms(2)]
    by (auto simp: find_None_iff switch_event_del_header_def switch_event_del_header_val_def del_match_def
        switch_event_get_header_ptr_def intro!: switch_event.equality filter_True)
  have "base_add_header STACK_BOTTOM n (draw xs) ev = add_items n xs ev"
    using draw_is_array [OF assms(4)] assms(1) it del
    by (auto simp: base_add_header.simps plain_name_def split_index_def STACK_BOTTOM_def Let_def)
  also have "\<dots> = ev\<lparr>ev_headers := ev_headers ev @ [array_header n xs]\<rparr>"
    unfolding xs using assms xs by (intro push_all) auto
  finally show ?thesis .
qed

section \<open>Copying\<close>

text \<open>A header as the operations above leave it: either a plain scalar or an array whose value is its
  drawing.\<close>

definition header_ok :: "event_header \<Rightarrow> bool" where
  "header_ok hp \<longleftrightarrow> plain_name (h_name hp) \<and> h_hash hp = switch_ci_hashfunc_default (h_name hp) \<and>
     (case h_array hp of
        [] \<Rightarrow> (case h_value hp of Some d \<Rightarrow> plain_data d | None \<Rightarrow> False)
      | x # xs \<Rightarrow> item_ok x \<and> x \<noteq> [] \<and> h_value hp = Some (draw (x # xs)))"

definition names_distinct :: "event_header list \<Rightarrow> bool" where
  "names_distinct hs \<longleftrightarrow> sorted_wrt (\<lambda>a b. \<not> strcasecmp_eq (h_name a) (h_name b)) hs"

lemma del_absent:
  assumes "switch_event_get_header_ptr ev n = None"
  shows "switch_event_del_header ev n = ev"
  using assms
  by (auto simp: find_None_iff switch_event_del_header_def switch_event_del_header_val_def del_match_def
      switch_event_get_header_ptr_def intro!: switch_event.equality filter_True)

lemma push_fold: "fold (\<lambda>v e. snd (switch_event_add_header_string e STACK_PUSH n (Some v))) xs ev = add_items n xs ev"
  by (induction xs arbitrary: ev) (simp_all add: switch_event_add_header_string_def)

lemma copy_header_appends:
  assumes "header_ok hp" "hash_ok ev" "switch_event_get_header_ptr ev (h_name hp) = None"
  shows "copy_header hp ev = ev\<lparr>ev_headers := ev_headers ev @ [hp]\<rparr>"
proof (cases "h_array hp")
  case Nil
  then obtain d where d: "h_value hp = Some d" "plain_data d" "plain_name (h_name hp)"
      "h_hash hp = switch_ci_hashfunc_default (h_name hp)"
    using assms(1) by (auto simp: header_ok_def split: option.splits)
  then have "scalar (h_name hp) d = hp" using Nil by (simp add: scalar_def)
  then show ?thesis
    using Nil d del_absent [OF assms(3)] add_scalar [OF d(3,2), of STACK_BOTTOM ev]
    by (simp add: copy_header_def switch_event_add_header_string_def STACK_BOTTOM_def Let_def)
next
  case (Cons x xs)
  then have "item_ok x" "x \<noteq> []" "plain_name (h_name hp)" "array_header (h_name hp) (x # xs) = hp"
    using assms(1) by (auto simp: header_ok_def array_header_def)
  then show ?thesis
    using Cons push_all [OF _ _ _ assms(2,3), of x xs] unfolding copy_header_def push_fold by simp
qed

lemma copy_headers:
  assumes "\<forall>hp \<in> set hs. header_ok hp" "names_distinct (ev_headers ev @ hs)" "hash_ok ev"
  shows "fold copy_header hs ev = ev\<lparr>ev_headers := ev_headers ev @ hs\<rparr>"
  using assms
proof (induction hs arbitrary: ev)
  case (Cons hp hs)
  have "switch_event_get_header_ptr ev (h_name hp) = None"
    using Cons.prems(2) find_hash_ok [OF Cons.prems(3)] by (auto simp: find_None_iff names_distinct_def sorted_wrt_append)
  then have c: "copy_header hp ev = ev\<lparr>ev_headers := ev_headers ev @ [hp]\<rparr>"
    using Cons.prems by (intro copy_header_appends) auto
  have "hash_ok (ev\<lparr>ev_headers := ev_headers ev @ [hp]\<rparr>)"
    using Cons.prems(1,3) by (auto simp: hash_ok_def header_ok_def)
  then show ?case using c Cons.IH [of "ev\<lparr>ev_headers := ev_headers ev @ [hp]\<rparr>"] Cons.prems by simp
qed simp

section \<open>Properties\<close>

text \<open>C34: on an event with unique headers (channel variables, request parameters), setting a header makes
  that name, in any case, read back the new value, whatever was there before, and leaves every other
  name as it was. The name has no opening bracket, which would assign a slot of an array, and is not
  \<open>_body\<close>; the value is not empty, which would delete the header, and has no \<open>ARRAY::\<close>, which would be
  split; and the header is not pushed or unshifted onto an array.\<close>

theorem event_header_map_law:
  assumes "hash_ok ev" "ev_uniq ev" "plain_name n" "plain_data d" "\<not> st_push st" "\<not> st_unshift st"
  shows "fst (switch_event_add_header_string ev st n (Some d)) = SWITCH_STATUS_SUCCESS \<and>
    hash_ok (snd (switch_event_add_header_string ev st n (Some d))) \<and>
    switch_event_get_header (snd (switch_event_add_header_string ev st n (Some d))) m =
      (if strcasecmp_eq n m then Some d else switch_event_get_header ev m)"
  using add_scalar_lookup [OF assms] scalar_hash_ok [OF assms(1,3-6)]
  by (simp add: switch_event_add_header_string_def)

definition sample_event :: switch_event where
  "sample_event = \<lparr>ev_id = 7, ev_subclass = None,
     ev_headers = [scalar ''Foo'' ''1'', array_header ''list'' [''a'', ''b''], scalar ''Bar'' ''2''],
     ev_body = None, ev_uniq = True\<rparr>"

lemma sample_hash_ok: "hash_ok sample_event"
  by (simp add: hash_ok_def sample_event_def scalar_def array_header_def)

lemma sample_names: "plain_name ''foo''" "plain_data ''9''" "plain_name ''new''"
  by (code_simp)+

theorem event_header_map_law_witness:
  "switch_event_get_header (snd (switch_event_add_header_string sample_event STACK_TOP ''foo'' (Some ''9''))) ''FOO'' = Some ''9'' \<and>
   switch_event_get_header (snd (switch_event_add_header_string sample_event STACK_TOP ''foo'' (Some ''9''))) ''bar'' = Some ''2''"
proof -
  have u: "ev_uniq sample_event" by (simp add: sample_event_def)
  note law = event_header_map_law [OF sample_hash_ok u sample_names(1,2), of STACK_TOP]
  have "strcasecmp_eq ''foo'' ''FOO''" "\<not> strcasecmp_eq ''foo'' ''bar''" by code_simp+
  moreover have "switch_event_get_header sample_event ''bar'' = Some ''2''" by code_simp
  ultimately show ?thesis using law [of "''FOO''"] law [of "''bar''"] by (simp add: STACK_TOP_def)
qed

text \<open>arrays survive being flattened. Pushing two or more items one after the other under a fresh name
  stores exactly them, reading by index returns each, reading the whole value gives one string, and
  adding that string to any other event without the name rebuilds the identical header there.\<close>

theorem event_array_roundtrip:
  assumes "plain_name n" "hash_ok ev" "switch_event_get_header_ptr ev n = None" "hash_ok ev'"
    "switch_event_get_header_ptr ev' n = None" "length xs > 1" "\<forall>x \<in> set xs. item_ok x" "hd xs \<noteq> []"
  shows "let pushed = fold (\<lambda>x e. base_add_header STACK_PUSH n x e) xs ev in
     (\<forall>i < length xs. switch_event_get_header_idx pushed n (int i) = Some (xs ! i)) \<and>
     switch_event_get_header_idx pushed n (int (length xs)) = None \<and>
     (\<exists>v. switch_event_get_header pushed n = Some v \<and>
        switch_event_get_header_ptr (base_add_header STACK_BOTTOM n v ev') n = switch_event_get_header_ptr pushed n)"
proof -
  obtain x ys where xs: "xs = x # ys" using assms(6) by (cases xs) auto
  have f: "fold (\<lambda>x e. base_add_header STACK_PUSH n x e) xs ev = add_items n xs ev" for xs ev
    by (induction xs arbitrary: ev) auto
  have pushed: "add_items n xs ev = ev\<lparr>ev_headers := ev_headers ev @ [array_header n xs]\<rparr>"
    unfolding xs using assms xs by (intro push_all) auto
  have nm: "\<forall>h \<in> set (ev_headers e). \<not> header_match n h" if "switch_event_get_header_ptr e n = None" for e
    using that by (auto simp: switch_event_get_header_ptr_def find_None_iff)
  have p: "switch_event_get_header_ptr (add_items n xs ev) n = Some (array_header n xs)"
    unfolding pushed using find_last_header [OF nm [OF assms(3)]] by (simp add: switch_event_get_header_ptr_def)
  have q: "switch_event_get_header_ptr (base_add_header STACK_BOTTOM n (draw xs) ev') n = Some (array_header n xs)"
    unfolding add_drawn [OF assms(1,4-8)] using find_last_header [OF nm [OF assms(5)]]
    by (simp add: switch_event_get_header_ptr_def)
  show ?thesis
    unfolding f Let_def using p q
    by (simp add: switch_event_get_header_idx_def get_header_find array_header_def)
qed

theorem event_array_roundtrip_witness:
  "\<exists>v. switch_event_get_header (fold (\<lambda>x e. base_add_header STACK_PUSH ''new'' x e) [''u'', '''', ''w''] sample_event) ''new'' = Some v \<and>
     switch_event_get_header_ptr (base_add_header STACK_BOTTOM ''new'' v sample_event) ''new'' =
     switch_event_get_header_ptr (fold (\<lambda>x e. base_add_header STACK_PUSH ''new'' x e) [''u'', '''', ''w''] sample_event) ''new''"
proof -
  have a: "switch_event_get_header_ptr sample_event ''new'' = None" by code_simp
  have "\<forall>x \<in> set [''u'', '''', ''w'']. item_ok x" by code_simp
  from event_array_roundtrip [OF sample_names(3) sample_hash_ok a sample_hash_ok a _ this] show ?thesis
    unfolding Let_def by simp
qed

text \<open>assigning to an existing slot of an array changes what reading that slot returns but not what
  reading the header returns: the flattened value keeps the old items.\<close>

theorem event_index_assignment_stale:
  assumes "hash_ok ev" "switch_event_get_header_ptr ev n = Some hp" "i < length (h_array hp)" "i \<le> 4000"
  shows "let ev' = add_indexed st n (int i) d ev in
     switch_event_get_header_idx ev' n (int i) = Some d \<and>
     switch_event_get_header ev' n = switch_event_get_header ev n"
proof -
  let ?f = "set_index i d"
  have keep: "header_match n (?f h) = header_match n h" if "i < length (h_array h)" for h
    using that by (simp add: set_index_def header_match_def)
  have "find (header_match n) (update_first (header_match n) ?f hs) = map_option ?f (find (header_match n) hs)"
    if "find (header_match n) hs = Some hp" for hs
    using that assms(3) by (induction hs) (auto simp: keep split: if_splits)
  then have "switch_event_get_header_ptr (add_indexed st n (int i) d ev) n = Some (?f hp)"
    using assms(2,4) by (simp add: add_indexed_def switch_event_get_header_ptr_def)
  then show ?thesis
    using assms(2,3) by (simp add: switch_event_get_header_idx_def get_header_find set_index_def Let_def)
qed

theorem event_index_assignment_stale_witness:
  "switch_event_get_header_idx (add_indexed STACK_BOTTOM ''list'' 1 ''z'' sample_event) ''list'' 1 = Some ''z'' \<and>
   switch_event_get_header (add_indexed STACK_BOTTOM ''list'' 1 ''z'' sample_event) ''list'' = Some ''ARRAY::a|:b''"
proof -
  have p: "switch_event_get_header_ptr sample_event ''list'' = Some (array_header ''list'' [''a'', ''b''])"
    by code_simp
  have "switch_event_get_header sample_event ''list'' = Some ''ARRAY::a|:b''" by code_simp
  then show ?thesis
    using event_index_assignment_stale [OF sample_hash_ok p, of 1 STACK_BOTTOM "''z''"]
    by (simp add: Let_def array_header_def)
qed

text \<open>deleting a header removes every header of that name in any case and nothing else, keeps the order
  of the rest, and reports whether there was one.\<close>

theorem event_del_header_correct:
  assumes "hash_ok ev"
  shows "let (st, ev') = switch_event_del_header_val ev n None in
     (st = SWITCH_STATUS_SUCCESS \<longleftrightarrow> switch_event_get_header_ptr ev n \<noteq> None) \<and>
     switch_event_get_header_ptr ev' n = None \<and>
     (\<forall>m. \<not> strcasecmp_eq m n \<longrightarrow> switch_event_get_header_ptr ev' m = switch_event_get_header_ptr ev m) \<and>
     ev_headers ev' = filter (\<lambda>hp. \<not> strcasecmp_eq (h_name hp) n) (ev_headers ev)"
proof -
  let ?ev' = "switch_event_del_header ev n"
  note d = del_hash_ok [OF assms, of n]
  have st: "fst (switch_event_del_header_val ev n None) = SWITCH_STATUS_SUCCESS \<longleftrightarrow> switch_event_get_header_ptr ev n \<noteq> None"
    by (auto simp: switch_event_del_header_val_def del_match_def zstr_def switch_event_get_header_ptr_def find_None_iff)
  have "switch_event_get_header_ptr ?ev' n = None"
    unfolding find_hash_ok [OF d(1)] d(2) by (auto simp: find_None_iff)
  moreover have "switch_event_get_header_ptr ?ev' m = switch_event_get_header_ptr ev m" if "\<not> strcasecmp_eq m n" for m
    unfolding find_hash_ok [OF d(1)] find_hash_ok [OF assms] d(2)
    using that by (intro find_filter_other) (auto simp: strcasecmp_eq_def)
  ultimately show ?thesis using st d(2) by (auto simp: switch_event_del_header_def split: prod.splits)
qed

theorem event_del_header_correct_witness:
  "fst (switch_event_del_header_val sample_event ''FOO'' None) = SWITCH_STATUS_SUCCESS \<and>
   switch_event_get_header_ptr (snd (switch_event_del_header_val sample_event ''FOO'' None)) ''FOO'' = None"
proof -
  have "switch_event_get_header_ptr sample_event ''FOO'' \<noteq> None" by code_simp
  then show ?thesis using event_del_header_correct [OF sample_hash_ok, of "''FOO''"] by (simp add: split_beta)
qed

text \<open>duplicating an event copies it: the same type, flags and body and the same headers in the same
  order, arrays included, for an event whose headers have distinct names and well-formed values.\<close>

theorem event_dup_identical:
  assumes "\<forall>hp \<in> set (ev_headers ev). header_ok hp" "names_distinct (ev_headers ev)" "ev_subclass ev = None"
  shows "switch_event_dup prep ev = (SWITCH_STATUS_SUCCESS, Some ev)"
proof -
  let ?e = "\<lparr>ev_id = ev_id ev, ev_subclass = None, ev_headers = [], ev_body = None, ev_uniq = ev_uniq ev\<rparr>"
  have "fold copy_header (ev_headers ev) ?e = ?e\<lparr>ev_headers := ev_headers ev\<rparr>"
    using copy_headers [of "ev_headers ev" ?e] assms by (simp add: hash_ok_def)
  then show ?thesis
    using assms(3)
    by (cases ev) (auto simp: switch_event_dup_def switch_event_create_subclass_def Let_def split: option.splits)
qed

theorem event_dup_identical_witness:
  "switch_event_dup id sample_event = (SWITCH_STATUS_SUCCESS, Some sample_event)"
proof -
  have "\<forall>hp \<in> set (ev_headers sample_event). header_ok hp" by code_simp
  moreover have "names_distinct (ev_headers sample_event)" by code_simp
  ultimately show ?thesis by (rule event_dup_identical) (simp add: sample_event_def)
qed

end
