(* ===== verification/Scheduler.thy ===== *)
theory Scheduler
  imports Event
begin

unbundle bit_operations_syntax

text \<open>
  The task scheduler, src/switch\_scheduler.c: a list of tasks under one mutex, scanned by one thread
  that runs the due tasks itself, with the mutex released, or in threads of their own. The first part
  models each function as it is written; the second is the interleaved system, one step per stretch of
  code between two points where the mutex is free or the clock is read, so that other threads' calls
  fall where the code lets them. A callback is a function on the task it is given by address. Times are
  unbounded integers (\<open>int64_t\<close> seconds). An event pushed to the queue is appended to \<open>s_events\<close>.
\<close>

section \<open>Data\<close>

record sched_task =
  t_created :: int
  t_runtime :: int
  t_cmd_id :: uint32
  t_repeat :: uint32
  t_group :: string
  t_id :: uint32
  t_hash :: uint32

record task_container =
  tc_task :: sched_task
  tc_executed :: int
  tc_in_thread :: bool
  tc_destroyed :: nat
  tc_running :: bool
  tc_func :: "sched_task \<Rightarrow> sched_task"
  tc_flags :: uint32
  tc_desc :: string

datatype sched_kind = EVENT_ADD_SCHEDULE | EVENT_RE_SCHEDULE | EVENT_DEL_SCHEDULE

record sched_event =
  se_kind :: sched_kind
  se_id :: uint32
  se_desc :: string
  se_group :: string
  se_runtime :: int

record sched_globals =
  s_tasks :: "task_container list"
  s_task_id :: uint32
  s_events :: "sched_event list"

definition SSHF_OWN_THREAD :: uint32 where "SSHF_OWN_THREAD = 1"
definition SSHF_NO_DEL :: uint32 where "SSHF_NO_DEL = 4"

definition own_thread :: "task_container \<Rightarrow> bool" where
  "own_thread tp \<longleftrightarrow> tc_flags tp AND SSHF_OWN_THREAD \<noteq> 0"

definition no_del :: "task_container \<Rightarrow> bool" where
  "no_del tp \<longleftrightarrow> tc_flags tp AND SSHF_NO_DEL \<noteq> 0"

definition tid :: "task_container \<Rightarrow> uint32" where
  "tid tp = t_id (tc_task tp)"

definition task_event :: "sched_kind \<Rightarrow> task_container \<Rightarrow> sched_event" where
  "task_event k tp = \<lparr>se_kind = k, se_id = tid tp, se_desc = tc_desc tp, se_group = t_group (tc_task tp),
     se_runtime = t_runtime (tc_task tp)\<rparr>"

section \<open>Running tasks\<close>

definition switch_scheduler_execute :: "int \<Rightarrow> task_container \<Rightarrow> task_container \<times> sched_event list" where
  "switch_scheduler_execute now tp0 =
     (let tp1 = tp0\<lparr>tc_task := tc_func tp0 (tc_task tp0)\<rparr>;
          tp = (if t_repeat (tc_task tp1) \<noteq> 0
                then tp1\<lparr>tc_task := (tc_task tp1)\<lparr>t_runtime := now + uint (t_repeat (tc_task tp1))\<rparr>\<rparr> else tp1)
      in if t_runtime (tc_task tp) > tc_executed tp
         then (tp\<lparr>tc_executed := 0\<rparr>, [task_event EVENT_RE_SCHEDULE tp])
         else (tp\<lparr>tc_destroyed := 1\<rparr>, []))"

definition task_own_thread :: "int \<Rightarrow> task_container \<Rightarrow> task_container \<times> sched_event list" where
  "task_own_thread now tp = (let (tp1, es) = switch_scheduler_execute now tp in (tp1\<lparr>tc_in_thread := False\<rparr>, es))"

text \<open>One round of the first loop of \<open>task_thread_loop\<close>: \<open>now\<close> is read when the task is looked at, \<open>now'\<close>
  after its callback. A task with its own thread is only handed over here.\<close>

definition due :: "int \<Rightarrow> task_container \<Rightarrow> bool" where
  "due now tp \<longleftrightarrow> now \<ge> t_runtime (tc_task tp) \<and> \<not> tc_in_thread tp"

definition visit_task :: "bool \<Rightarrow> int \<Rightarrow> int \<Rightarrow> task_container \<Rightarrow> task_container \<times> sched_event list" where
  "visit_task done now now' tp =
     (if done then (tp\<lparr>tc_destroyed := 1\<rparr>, [])
      else if tc_destroyed tp \<noteq> 0 then (tp, [])
      else if due now tp then
        let tp1 = tp\<lparr>tc_executed := now\<rparr> in
        if own_thread tp1 then (tp1\<lparr>tc_in_thread := True\<rparr>, [])
        else let (tp2, es) = switch_scheduler_execute now' (tp1\<lparr>tc_running := True\<rparr>) in (tp2\<lparr>tc_running := False\<rparr>, es)
      else (tp, []))"

fun visit_all :: "bool \<Rightarrow> (nat \<Rightarrow> int) \<Rightarrow> nat \<Rightarrow> task_container list \<Rightarrow> task_container list \<times> sched_event list" where
  "visit_all done clock k [] = ([], [])"
| "visit_all done clock k (tp # tps) =
     (let (tp', es) = visit_task done (clock k) (clock (k + 1)) tp;
          (tps', es') = visit_all done clock (k + 2) tps
      in (tp' # tps', es @ es'))"

definition sweepable :: "task_container \<Rightarrow> bool" where
  "sweepable tp \<longleftrightarrow> tc_destroyed tp \<noteq> 0 \<and> \<not> tc_in_thread tp"

definition sweep :: "sched_globals \<Rightarrow> sched_globals" where
  "sweep g = g\<lparr>s_tasks := filter (\<lambda>tp. \<not> sweepable tp) (s_tasks g),
     s_events := s_events g @ map (task_event EVENT_DEL_SCHEDULE) (filter sweepable (s_tasks g))\<rparr>"

definition task_thread_loop :: "bool \<Rightarrow> (nat \<Rightarrow> int) \<Rightarrow> sched_globals \<Rightarrow> bool \<times> sched_globals" where
  "task_thread_loop done clock g =
     (let (tps, es) = visit_all done clock 0 (s_tasks g)
      in (done, sweep (g\<lparr>s_tasks := tps, s_events := s_events g @ es\<rparr>)))"

section \<open>Adding and deleting\<close>

text \<open>The loop that draws the id: \<open>++globals.task_id\<close> until it is not zero.\<close>

definition next_task_id :: "uint32 \<Rightarrow> uint32" where
  "next_task_id i = (if i + 1 \<noteq> 0 then i + 1 else i + 2)"

definition new_container ::
  "int \<Rightarrow> int \<Rightarrow> (sched_task \<Rightarrow> sched_task) \<Rightarrow> string option \<Rightarrow> string option \<Rightarrow> uint32 \<Rightarrow> uint32 \<Rightarrow> uint32 \<Rightarrow> task_container" where
  "new_container now task_runtime func desc gname cmd_id flags i =
     (let grp = (case gname of Some x \<Rightarrow> x | None \<Rightarrow> ''none'') in
      \<lparr>tc_task = \<lparr>t_created = now, t_runtime = (if task_runtime < now then task_runtime + now else task_runtime),
         t_cmd_id = cmd_id, t_repeat = (if task_runtime < now then word_of_int task_runtime else 0),
         t_group = grp, t_id = i, t_hash = switch_ci_hashfunc_default grp\<rparr>,
       tc_executed = 0, tc_in_thread = False, tc_destroyed = 0, tc_running = False, tc_func = func,
       tc_flags = flags, tc_desc = (case desc of Some x \<Rightarrow> x | None \<Rightarrow> ''none'')\<rparr>)"

definition switch_scheduler_add_task ::
  "int \<Rightarrow> int \<Rightarrow> (sched_task \<Rightarrow> sched_task) \<Rightarrow> string option \<Rightarrow> string option \<Rightarrow> uint32 \<Rightarrow> uint32 \<Rightarrow> sched_globals \<Rightarrow>
   uint32 \<times> sched_globals" where
  "switch_scheduler_add_task now task_runtime func desc gname cmd_id flags g =
     (let i = next_task_id (s_task_id g);
          container = new_container now task_runtime func desc gname cmd_id flags i
      in (i, g\<lparr>s_tasks := s_tasks g @ [container], s_task_id := i,
               s_events := s_events g @ [task_event EVENT_ADD_SCHEDULE container]\<rparr>))"

fun del_id_scan :: "uint32 \<Rightarrow> task_container list \<Rightarrow> uint32 \<times> task_container list" where
  "del_id_scan i [] = (0, [])"
| "del_id_scan i (tp # tps) =
     (if tid tp = i then
        if no_del tp then (0, tp # tps)
        else if tc_running tp then (0, tp # tps)
        else (1, tp\<lparr>tc_destroyed := tc_destroyed tp + 1\<rparr> # tps)
      else let (n, tps') = del_id_scan i tps in (n, tp # tps'))"

definition switch_scheduler_del_task_id :: "uint32 \<Rightarrow> sched_globals \<Rightarrow> uint32 \<times> sched_globals" where
  "switch_scheduler_del_task_id i g = (let (n, tps) = del_id_scan i (s_tasks g) in (n, g\<lparr>s_tasks := tps\<rparr>))"

definition group_hit :: "string \<Rightarrow> task_container \<Rightarrow> bool" where
  "group_hit gname tp \<longleftrightarrow> tc_destroyed tp = 0 \<and>
     switch_ci_hashfunc_default gname = t_hash (tc_task tp) \<and> t_group (tc_task tp) = gname \<and> \<not> no_del tp"

definition switch_scheduler_del_task_group :: "string option \<Rightarrow> sched_globals \<Rightarrow> uint32 \<times> sched_globals" where
  "switch_scheduler_del_task_group gname g =
     (case gname of None \<Rightarrow> (0, g)
      | Some grp \<Rightarrow>
          if grp = [] then (0, g)
          else (of_nat (length (filter (group_hit grp) (s_tasks g))),
                g\<lparr>s_tasks := map (\<lambda>tp. if group_hit grp tp then tp\<lparr>tc_destroyed := tc_destroyed tp + 1\<rparr> else tp) (s_tasks g)\<rparr>))"


section \<open>The interleaved system\<close>

text \<open>
  Where the scheduler thread is: between two passes, about to look at the task at an index, inside the
  callback of one with the mutex released, or between the two loops of a pass. Additions append and
  deletions only mark, so an index stays on its task until the sweep. \<open>Add\<close>, \<open>Del_id\<close> and \<open>Del_group\<close>
  are other threads' calls, possible only where the mutex is free; \<open>Thread_end\<close> is a task's own thread,
  which takes no mutex.
\<close>

datatype sched_pc = Idle | Scan bool nat | Exec nat | Swept bool

fun mutex_free :: "sched_pc \<Rightarrow> bool" where
  "mutex_free (Scan _ _) = False"
| "mutex_free _ = True"

datatype sched_act = Add | Del_id | Del_group | Thread_end | Loop

inductive sched_step :: "sched_act \<Rightarrow> sched_pc \<times> sched_globals \<Rightarrow> sched_pc \<times> sched_globals \<Rightarrow> bool" where
  add: "mutex_free pc \<Longrightarrow>
     sched_step Add (pc, g) (pc, snd (switch_scheduler_add_task now rt func desc grp cmd flags g))"
| del_id: "mutex_free pc \<Longrightarrow> sched_step Del_id (pc, g) (pc, snd (switch_scheduler_del_task_id i g))"
| del_group: "mutex_free pc \<Longrightarrow> sched_step Del_group (pc, g) (pc, snd (switch_scheduler_del_task_group grp g))"
| thread_end: "i < length (s_tasks g) \<Longrightarrow> tc_in_thread (s_tasks g ! i) \<Longrightarrow> task_own_thread now (s_tasks g ! i) = (tp, es) \<Longrightarrow>
     sched_step Thread_end (pc, g) (pc, g\<lparr>s_tasks := (s_tasks g)[i := tp], s_events := s_events g @ es\<rparr>)"
| start: "sched_step Loop (Idle, g) (Scan done 0, g)"
| mark: "i < length (s_tasks g) \<Longrightarrow>
     sched_step Loop (Scan True i, g) (Scan True (Suc i), g\<lparr>s_tasks := (s_tasks g)[i := (s_tasks g ! i)\<lparr>tc_destroyed := 1\<rparr>]\<rparr>)"
| skip: "i < length (s_tasks g) \<Longrightarrow> tc_destroyed (s_tasks g ! i) \<noteq> 0 \<or> \<not> due now (s_tasks g ! i) \<Longrightarrow>
     sched_step Loop (Scan False i, g) (Scan False (Suc i), g)"
| spawn: "i < length (s_tasks g) \<Longrightarrow> tc_destroyed (s_tasks g ! i) = 0 \<Longrightarrow> due now (s_tasks g ! i) \<Longrightarrow> own_thread (s_tasks g ! i) \<Longrightarrow>
     sched_step Loop (Scan False i, g)
       (Scan False (Suc i), g\<lparr>s_tasks := (s_tasks g)[i := (s_tasks g ! i)\<lparr>tc_executed := now, tc_in_thread := True\<rparr>]\<rparr>)"
| call: "i < length (s_tasks g) \<Longrightarrow> tc_destroyed (s_tasks g ! i) = 0 \<Longrightarrow> due now (s_tasks g ! i) \<Longrightarrow> \<not> own_thread (s_tasks g ! i) \<Longrightarrow>
     sched_step Loop (Scan False i, g)
       (Exec i, g\<lparr>s_tasks := (s_tasks g)[i := (s_tasks g ! i)\<lparr>tc_executed := now, tc_running := True\<rparr>]\<rparr>)"
| ret: "switch_scheduler_execute now (s_tasks g ! i) = (tp, es) \<Longrightarrow>
     sched_step Loop (Exec i, g)
       (Scan False (Suc i), g\<lparr>s_tasks := (s_tasks g)[i := tp\<lparr>tc_running := False\<rparr>], s_events := s_events g @ es\<rparr>)"
| scanned: "sched_step Loop (Scan done (length (s_tasks g)), g) (Swept done, g)"
| swept: "sched_step Loop (Swept done, g) (Idle, sweep g)"

text \<open>States reached with \<open>n\<close> additions, by callbacks that leave a task's id alone.\<close>

definition keeps_id :: "(sched_task \<Rightarrow> sched_task) \<Rightarrow> bool" where
  "keeps_id f \<longleftrightarrow> (\<forall>t. t_id (f t) = t_id t)"

definition callbacks_ok :: "sched_globals \<Rightarrow> bool" where
  "callbacks_ok g \<longleftrightarrow> (\<forall>tp \<in> set (s_tasks g). keeps_id (tc_func tp))"

definition sched_init :: sched_globals where
  "sched_init = \<lparr>s_tasks = [], s_task_id = 0, s_events = []\<rparr>"

inductive sched_reach :: "nat \<Rightarrow> sched_pc \<times> sched_globals \<Rightarrow> bool" where
  init: "sched_reach 0 (Idle, sched_init)"
| step: "sched_reach n s \<Longrightarrow> sched_step a s s' \<Longrightarrow> callbacks_ok (snd s') \<Longrightarrow> sched_reach (if a = Add then Suc n else n) s'"

section \<open>Task identity and execution status\<close>

lemma tid_update [simp]:
  "tid (tp\<lparr>tc_in_thread := b\<rparr>) = tid tp" "tid (tp\<lparr>tc_running := b\<rparr>) = tid tp"
  "tid (tp\<lparr>tc_executed := x\<rparr>) = tid tp" "tid (tp\<lparr>tc_destroyed := d\<rparr>) = tid tp"
  by (simp_all add: tid_def)

lemma execute_keeps:
  assumes "switch_scheduler_execute now tp = (tp', es)" "keeps_id (tc_func tp)"
  shows "tid tp' = tid tp" "tc_func tp' = tc_func tp" "tc_in_thread tp' = tc_in_thread tp"
    "tc_running tp' = tc_running tp" "tc_flags tp' = tc_flags tp"
    "tc_destroyed tp' = tc_destroyed tp \<or> tc_destroyed tp' = 1"
  using assms by (auto simp: switch_scheduler_execute_def keeps_id_def tid_def Let_def split: if_splits)

lemma own_thread_keeps:
  assumes "task_own_thread now tp = (tp', es)" "keeps_id (tc_func tp)"
  shows "tid tp' = tid tp" "tc_running tp' = tc_running tp" "\<not> tc_in_thread tp'"
  using assms execute_keeps [of now tp] by (auto simp: task_own_thread_def split: prod.splits)

lemma del_id_scan_keeps:
  "map tid (snd (del_id_scan i tps)) = map tid tps \<and> map tc_running (snd (del_id_scan i tps)) = map tc_running tps \<and>
   map tc_in_thread (snd (del_id_scan i tps)) = map tc_in_thread tps \<and> map tc_flags (snd (del_id_scan i tps)) = map tc_flags tps"
  by (induction tps) (auto simp: tid_def split: prod.splits)

text \<open>The invariant: ids are the numbers drawn so far in order, and the mark \<open>running\<close> is on the task in
  the scheduler's hands and on no other.\<close>

definition ids_ok :: "nat \<Rightarrow> sched_globals \<Rightarrow> bool" where
  "ids_ok n g \<longleftrightarrow> s_task_id g = of_nat n \<and> sorted_wrt (<) (map tid (s_tasks g)) \<and>
     (\<forall>tp \<in> set (s_tasks g). 0 < tid tp \<and> tid tp \<le> of_nat n)"

definition running_ok :: "sched_pc \<times> sched_globals \<Rightarrow> bool" where
  "running_ok s \<longleftrightarrow> (\<forall>i < length (s_tasks (snd s)). tc_running (s_tasks (snd s) ! i) \<longleftrightarrow> fst s = Exec i) \<and>
     (\<forall>i. fst s = Exec i \<longrightarrow> i < length (s_tasks (snd s)))"

lemma ids_ok_same:
  "ids_ok n g \<Longrightarrow> map tid (s_tasks g') = map tid (s_tasks g) \<Longrightarrow> s_task_id g' = s_task_id g \<Longrightarrow> ids_ok n g'"
proof -
  assume a: "ids_ok n g" "map tid (s_tasks g') = map tid (s_tasks g)" "s_task_id g' = s_task_id g"
  have "tid ` set (s_tasks g') = tid ` set (s_tasks g)" using a(2) by (metis list.set_map)
  then have "\<forall>tp \<in> set (s_tasks g'). 0 < tid tp \<and> tid tp \<le> of_nat n"
    using a(1) unfolding ids_ok_def by (metis imageE imageI)
  then show ?thesis using a by (simp add: ids_ok_def)
qed

lemma update_tid: "tid tp = tid (xs ! i) \<Longrightarrow> map tid (xs[i := tp]) = map tid xs"
  by (metis list_update_id map_update)

lemma next_id_word:
  assumes "Suc n < 2 ^ 32"
  shows "next_task_id (of_nat n) = of_nat (Suc n)" "(of_nat n :: uint32) < of_nat (Suc n)"
proof -
  have "unat (of_nat (Suc n) :: uint32) = Suc n" "unat (of_nat n :: uint32) = n"
    using assms by (simp_all add: unat_of_nat take_bit_nat_eq_self del: of_nat_Suc)
  then show "(of_nat n :: uint32) < of_nat (Suc n)" by (simp add: word_less_nat_alt del: of_nat_Suc)
  then have "(of_nat (Suc n) :: uint32) \<noteq> 0" by auto
  then show "next_task_id (of_nat n) = of_nat (Suc n)" by (simp add: next_task_id_def add.commute)
qed

lemma ids_add:
  assumes "ids_ok n g" "Suc n < 2 ^ 32"
  shows "ids_ok (Suc n) (snd (switch_scheduler_add_task now rt func desc grp cmd flags g))"
proof -
  note w = next_id_word [OF assms(2)]
  have pos: "0 < (of_nat (Suc n) :: uint32)" using w(2) by (rule le_less_trans [rotated]) simp
  have t: "tid (new_container now rt func desc grp cmd flags i) = i" for i
    by (simp add: tid_def new_container_def Let_def)
  have le: "tid tp < of_nat (Suc n)" if "tp \<in> set (s_tasks g)" for tp
    using assms(1) that w(2) by (auto simp: ids_ok_def simp del: of_nat_Suc dest: le_less_trans)
  show ?thesis
    using assms(1) w pos le
    by (auto simp: ids_ok_def switch_scheduler_add_task_def Let_def t sorted_wrt_append less_imp_le simp del: of_nat_Suc)
qed

lemma filter_sorted: "sorted_wrt (<) (map f xs) \<Longrightarrow> sorted_wrt (<) (map f (filter p xs))"
  by (induction xs) auto

lemma ids_sweep: "ids_ok n g \<Longrightarrow> ids_ok n (sweep g)"
  by (auto simp: ids_ok_def sweep_def intro: filter_sorted)

lemma group_keeps:
  "map tid (s_tasks (snd (switch_scheduler_del_task_group grp g))) = map tid (s_tasks g)"
  "map tc_running (s_tasks (snd (switch_scheduler_del_task_group grp g))) = map tc_running (s_tasks g)"
  "map tc_in_thread (s_tasks (snd (switch_scheduler_del_task_group grp g))) = map tc_in_thread (s_tasks g)"
  "s_task_id (snd (switch_scheduler_del_task_group grp g)) = s_task_id g"
  by (auto simp: switch_scheduler_del_task_group_def tid_def split: option.splits)

lemma del_id_keeps:
  "map tid (s_tasks (snd (switch_scheduler_del_task_id i g))) = map tid (s_tasks g)"
  "map tc_running (s_tasks (snd (switch_scheduler_del_task_id i g))) = map tc_running (s_tasks g)"
  "map tc_in_thread (s_tasks (snd (switch_scheduler_del_task_id i g))) = map tc_in_thread (s_tasks g)"
  "s_task_id (snd (switch_scheduler_del_task_id i g)) = s_task_id g"
  using del_id_scan_keeps [of i "s_tasks g"] by (auto simp: switch_scheduler_del_task_id_def split: prod.splits)

lemma ids_step:
  assumes "sched_step a (pc, g) s'" "ids_ok n g" "callbacks_ok g" "running_ok (pc, g)"
    "(if a = Add then Suc n else n) < 2 ^ 32"
  shows "ids_ok (if a = Add then Suc n else n) (snd s')"
  using assms(1)
proof (cases rule: sched_step.cases)
  case (add now rt func desc grp cmd flags)
  then show ?thesis using ids_add [of n] assms(2,5) by simp
next
  case (thread_end i now tp es)
  have "keeps_id (tc_func (s_tasks g ! i))" using assms(3) thread_end by (simp add: callbacks_ok_def)
  then show ?thesis using thread_end own_thread_keeps(1) by (auto intro!: ids_ok_same [OF assms(2)] update_tid)
next
  case (ret now i tp es)
  have "keeps_id (tc_func (s_tasks g ! i))" using assms(3,4) ret by (simp add: callbacks_ok_def running_ok_def)
  then have "tid (tp\<lparr>tc_running := False\<rparr>) = tid (s_tasks g ! i)"
    using execute_keeps(1) ret by simp
  then show ?thesis using ret by (auto intro!: ids_ok_same [OF assms(2)] update_tid)
next
  case (swept d)
  then show ?thesis using ids_sweep assms(2) by simp
qed (use assms(2) in \<open>auto simp: group_keeps del_id_keeps intro!: ids_ok_same [OF assms(2)] update_tid\<close>)

lemma running_same:
  "running_ok (pc, g) \<Longrightarrow> map tc_running (s_tasks g') = map tc_running (s_tasks g) \<Longrightarrow> running_ok (pc, g')"
proof -
  assume r: "running_ok (pc, g)" and m: "map tc_running (s_tasks g') = map tc_running (s_tasks g)"
  have l: "length (s_tasks g') = length (s_tasks g)" using m by (rule map_eq_imp_length_eq)
  have "tc_running (s_tasks g' ! i) = tc_running (s_tasks g ! i)" if "i < length (s_tasks g)" for i
    using m that l by (metis nth_map)
  then show ?thesis using r l by (simp add: running_ok_def)
qed

lemma running_add:
  assumes "running_ok (pc, g)"
  shows "running_ok (pc, snd (switch_scheduler_add_task now rt func desc grp cmd flags g))"
proof -
  have "\<not> tc_running (new_container now rt func desc grp cmd flags i)" for i
    by (simp add: new_container_def Let_def)
  then show ?thesis
    using assms by (auto simp: running_ok_def switch_scheduler_add_task_def Let_def nth_append)
qed

lemma running_sweep: "running_ok (Swept d, g) \<Longrightarrow> running_ok (Idle, sweep g)"
proof -
  assume "running_ok (Swept d, g)"
  then have "\<forall>tp \<in> set (s_tasks g). \<not> tc_running tp" by (auto simp: running_ok_def in_set_conv_nth)
  then have "\<forall>tp \<in> set (s_tasks (sweep g)). \<not> tc_running tp" by (simp add: sweep_def)
  then show ?thesis by (auto simp: running_ok_def)
qed

lemma running_step:
  assumes "sched_step a (pc, g) s'" "callbacks_ok g" "running_ok (pc, g)"
  shows "running_ok s'"
  using assms(1)
proof (cases rule: sched_step.cases)
  case (thread_end i now tp es)
  have "keeps_id (tc_func (s_tasks g ! i))" using assms(2) thread_end by (simp add: callbacks_ok_def)
  then have "tc_running tp = tc_running (s_tasks g ! i)" using thread_end own_thread_keeps(2) by blast
  then show ?thesis using assms(3) thread_end by (auto simp: running_ok_def nth_list_update)
next
  case (mark i)
  then show ?thesis using assms(3) by (auto simp: running_ok_def nth_list_update)
next
  case (spawn i now)
  then show ?thesis using assms(3) by (auto simp: running_ok_def nth_list_update)
next
  case (call i now)
  then show ?thesis using assms(3) by (auto simp: running_ok_def nth_list_update)
next
  case (ret now i tp es)
  then show ?thesis using assms(3) by (auto simp: running_ok_def nth_list_update)
qed (use assms(3) in \<open>auto simp: running_add running_sweep group_keeps del_id_keeps intro: running_same\<close>,
  (auto simp: running_ok_def)?)

lemma reach_inv:
  "sched_reach n s \<Longrightarrow> n < 2 ^ 32 \<Longrightarrow> ids_ok n (snd s) \<and> running_ok s \<and> callbacks_ok (snd s)"
proof (induction rule: sched_reach.induct)
  case init
  then show ?case by (simp add: ids_ok_def running_ok_def callbacks_ok_def sched_init_def)
next
  case (step n s a s')
  have "n < 2 ^ 32" using step.prems by (auto split: if_splits)
  then have inv: "ids_ok n (snd s)" "running_ok s" "callbacks_ok (snd s)" using step.IH by auto
  have s: "sched_step a (fst s, snd s) s'" using step.hyps(2) by simp
  show ?case
    using ids_step [OF s inv(1,3) _ step.prems] running_step [OF s inv(3)] inv(2) step.hyps(3) by simp
qed

text \<open>A step other than the sweep loses no task.\<close>

lemma step_keeps_tasks:
  assumes "sched_step a (pc, g) (pc', g')" "callbacks_ok g" "running_ok (pc, g)"
  shows "set (map tid (s_tasks g)) \<subseteq> set (map tid (s_tasks g')) \<or> (\<exists>d. pc = Swept d) \<and> g' = sweep g"
  using assms(1)
proof (cases rule: sched_step.cases)
  case (add now rt func desc grp cmd flags)
  then show ?thesis by (auto simp: switch_scheduler_add_task_def Let_def)
next
  case (thread_end i now tp es)
  have "keeps_id (tc_func (s_tasks g ! i))" using assms(2) thread_end by (simp add: callbacks_ok_def)
  then have "tid tp = tid (s_tasks g ! i)" using thread_end own_thread_keeps(1) by blast
  then show ?thesis using thread_end update_tid [of tp "s_tasks g" i] by simp
next
  case (ret now i tp es)
  have "keeps_id (tc_func (s_tasks g ! i))" using assms(2,3) ret by (simp add: callbacks_ok_def running_ok_def)
  then have "tid (tp\<lparr>tc_running := False\<rparr>) = tid (s_tasks g ! i)" using execute_keeps(1) ret by simp
  then show ?thesis using ret update_tid [of "tp\<lparr>tc_running := False\<rparr>" "s_tasks g" i] by simp
next
  case (swept d)
  then show ?thesis by simp
qed (simp_all only: group_keeps del_id_keeps subset_refl simp_thms, simp_all add: update_tid)

lemma visit_all_length [simp]: "length (fst (visit_all done clock k tps)) = length tps"
  by (induction tps arbitrary: k) (simp_all add: Let_def split_beta)

lemma visit_all_nth:
  "i < length tps \<Longrightarrow> fst (visit_all done clock k tps) ! i =
     fst (visit_task done (clock (k + 2 * i)) (clock (k + 2 * i + 1)) (tps ! i))"
proof (induction tps arbitrary: i k)
  case (Cons tp tps)
  then show ?case by (cases i) (simp_all add: Let_def split_beta)
qed simp

lemma loop_tasks:
  "s_tasks (snd (task_thread_loop done clock g)) = filter (\<lambda>tp. \<not> sweepable tp) (fst (visit_all done clock 0 (s_tasks g)))"
  by (simp add: task_thread_loop_def sweep_def split_beta)

lemma loop_del_event:
  "i < length (s_tasks g) \<Longrightarrow> sweepable (fst (visit_all done clock 0 (s_tasks g)) ! i) \<Longrightarrow>
   task_event EVENT_DEL_SCHEDULE (fst (visit_all done clock 0 (s_tasks g)) ! i) \<in> set (s_events (snd (task_thread_loop done clock g)))"
  by (auto simp: task_thread_loop_def sweep_def split_beta intro!: imageI nth_mem)

section \<open>Properties\<close>

definition sample_func :: "sched_task \<Rightarrow> sched_task" where
  "sample_func t = t"

definition one_task :: sched_globals where
  "one_task = snd (switch_scheduler_add_task 100 150 sample_func None (Some ''grp'') 7 SSHF_NO_DEL sched_init)"

lemma one_task_eq:
  "one_task = \<lparr>s_tasks = [new_container 100 150 sample_func None (Some ''grp'') 7 SSHF_NO_DEL 1], s_task_id = 1,
     s_events = [task_event EVENT_ADD_SCHEDULE (new_container 100 150 sample_func None (Some ''grp'') 7 SSHF_NO_DEL 1)]\<rparr>"
  by (simp add: one_task_def switch_scheduler_add_task_def sched_init_def next_task_id_def Let_def)

lemma one_task_reach: "sched_reach 1 (Idle, one_task)"
proof -
  have "sched_step Add (Idle, sched_init) (Idle, one_task)"
    unfolding one_task_def by (rule sched_step.add) simp
  from sched_reach.step [OF sched_reach.init this]
  show ?thesis by (simp add: callbacks_ok_def one_task_eq new_container_def Let_def keeps_id_def sample_func_def)
qed

text \<open>C38: in every state the scheduler can reach with fewer than 2 to the 32 additions, whatever the
  interleaving, task ids are distinct and not zero, the list is in the order of addition, and the
  task marked running is exactly the one whose callback the scheduler thread is in.\<close>

theorem scheduler_identity:
  assumes "sched_reach n (pc, g)" "n < 2 ^ 32"
  shows "distinct (map tid (s_tasks g)) \<and> 0 \<notin> set (map tid (s_tasks g)) \<and> sorted (map tid (s_tasks g)) \<and>
    (\<forall>i < length (s_tasks g). tc_running (s_tasks g ! i) \<longleftrightarrow> pc = Exec i)"
proof -
  have ids: "ids_ok n g" and run: "running_ok (pc, g)" using reach_inv [OF assms] by auto
  have "sorted_wrt (<) (map tid (s_tasks g))" using ids by (simp add: ids_ok_def)
  then have "distinct (map tid (s_tasks g))" "sorted (map tid (s_tasks g))" by (simp_all add: strict_sorted_iff)
  moreover have "0 \<notin> set (map tid (s_tasks g))" using ids by (auto simp: ids_ok_def)
  ultimately show ?thesis using run by (simp add: running_ok_def)
qed

theorem scheduler_identity_witness:
  "distinct (map tid (s_tasks one_task)) \<and> 0 \<notin> set (map tid (s_tasks one_task)) \<and> length (s_tasks one_task) = 1"
  using scheduler_identity [OF one_task_reach] by (simp add: one_task_eq)

text \<open>C4: a task whose callback is executing, in the scheduler thread or in its own, is never freed: no step
  of any thread takes it off the list before that execution ends.\<close>

theorem executing_task_not_freed:
  assumes "sched_reach n (pc, g)" "n < 2 ^ 32" "sched_step a (pc, g) (pc', g')" "tp \<in> set (s_tasks g)"
    "tc_in_thread tp \<or> tc_running tp"
  shows "\<exists>tp' \<in> set (s_tasks g'). tid tp' = tid tp"
proof -
  have inv: "running_ok (pc, g)" "callbacks_ok g" using reach_inv [OF assms(1,2)] by auto
  from step_keeps_tasks [OF assms(3) inv(2,1)] show ?thesis
  proof
    assume "set (map tid (s_tasks g)) \<subseteq> set (map tid (s_tasks g'))"
    then have "tid tp \<in> set (map tid (s_tasks g'))" using assms(4) by auto
    then show ?thesis by auto
  next
    assume s: "(\<exists>d. pc = Swept d) \<and> g' = sweep g"
    then have "\<not> tc_running tp" using inv(1) assms(4) by (auto simp: running_ok_def in_set_conv_nth)
    then show ?thesis using s assms(4,5) by (auto simp: sweepable_def sweep_def)
  qed
qed

definition called_task :: sched_globals where
  "called_task = one_task\<lparr>s_tasks := (s_tasks one_task)[0 := (s_tasks one_task ! 0)\<lparr>tc_executed := 160, tc_running := True\<rparr>]\<rparr>"

lemma called_task_reach: "sched_reach 1 (Exec 0, called_task)"
proof -
  have f: "keeps_id sample_func" by (simp add: keeps_id_def sample_func_def)
  then have "sched_reach 1 (Scan False 0, one_task)"
    using sched_reach.step [OF one_task_reach sched_step.start, of False]
    by (simp add: callbacks_ok_def one_task_eq new_container_def Let_def)
  moreover have "sched_step Loop (Scan False 0, one_task) (Exec 0, called_task)"
    unfolding called_task_def
    by (rule sched_step.call) (simp_all add: one_task_eq new_container_def Let_def due_def own_thread_def SSHF_OWN_THREAD_def SSHF_NO_DEL_def)
  ultimately show ?thesis
    using f sched_reach.step [of 1 "(Scan False 0, one_task)" Loop "(Exec 0, called_task)"]
    by (simp add: callbacks_ok_def called_task_def one_task_eq new_container_def Let_def)
qed

theorem executing_task_not_freed_witness:
  "\<exists>tp' \<in> set (s_tasks (snd (switch_scheduler_del_task_group (Some ''grp'') called_task))). tid tp' = 1"
proof -
  let ?tp = "s_tasks called_task ! 0"
  have "?tp \<in> set (s_tasks called_task)" "tc_in_thread ?tp \<or> tc_running ?tp" "tid ?tp = 1"
    by (simp_all add: called_task_def one_task_eq tid_def new_container_def Let_def)
  moreover have "sched_step Del_group (Exec 0, called_task)
      (Exec 0, snd (switch_scheduler_del_task_group (Some ''grp'') called_task))"
    by (rule sched_step.del_group) simp
  ultimately show ?thesis using executing_task_not_freed [OF called_task_reach] by fastforce
qed

text \<open>an undeletable task is left exactly as it was by every deletion, by id or by group; a deletion
  by group marks every other live task of the group, the running one included, and no other task, and
  counts them; a deletion by id marks the task of that id unless it is undeletable or running.\<close>

theorem scheduler_delete_correct:
  assumes "i < length (s_tasks g)" "distinct (map tid (s_tasks g))"
    "t_hash (tc_task (s_tasks g ! i)) = switch_ci_hashfunc_default (t_group (tc_task (s_tasks g ! i)))" "grp \<noteq> []"
  shows "let tp = s_tasks g ! i;
      by_group = s_tasks (snd (switch_scheduler_del_task_group (Some grp) g)) ! i;
      (n, g') = switch_scheduler_del_task_id (tid tp) g
    in (no_del tp \<longrightarrow> by_group = tp \<and> s_tasks g' ! i = tp \<and> n = 0) \<and>
       (t_group (tc_task tp) = grp \<and> \<not> no_del tp \<longrightarrow> tc_destroyed by_group \<noteq> 0) \<and>
       (t_group (tc_task tp) \<noteq> grp \<longrightarrow> by_group = tp) \<and>
       (\<not> no_del tp \<longrightarrow> n = (if tc_running tp then 0 else 1) \<and>
          s_tasks g' ! i = (if tc_running tp then tp else tp\<lparr>tc_destroyed := tc_destroyed tp + 1\<rparr>))"
proof -
  have scan: "del_id_scan (tid (tps ! i)) tps =
      (if no_del (tps ! i) \<or> tc_running (tps ! i) then (0, tps)
       else (1, tps[i := (tps ! i)\<lparr>tc_destroyed := tc_destroyed (tps ! i) + 1\<rparr>]))"
    if "i < length tps" "distinct (map tid tps)" for i tps
    using that
  proof (induction tps arbitrary: i)
    case (Cons tp tps)
    then show ?case by (cases i) auto
  qed simp
  show ?thesis
    using assms scan [OF assms(1,2)]
    by (simp add: switch_scheduler_del_task_id_def switch_scheduler_del_task_group_def group_hit_def Let_def)
qed

theorem scheduler_delete_correct_witness:
  "s_tasks (snd (switch_scheduler_del_task_group (Some ''grp'') called_task)) ! 0 = s_tasks called_task ! 0 \<and>
   fst (switch_scheduler_del_task_id 1 called_task) = 0"
proof -
  let ?tp = "s_tasks called_task ! 0"
  have "length (s_tasks called_task) = 1" "tid ?tp = 1" "no_del ?tp"
    "t_hash (tc_task ?tp) = switch_ci_hashfunc_default (t_group (tc_task ?tp))" "distinct (map tid (s_tasks called_task))"
    by (simp_all add: called_task_def one_task_eq tid_def no_del_def new_container_def SSHF_NO_DEL_def Let_def)
  then show ?thesis using scheduler_delete_correct [of 0 called_task "''grp''"] by (auto simp: Let_def split_beta)
qed

text \<open>one pass of the scheduler over live tasks it runs itself. A task that is not due stays as it is;
  a due repeating task stays, due again its interval after its callback ended; a due one-shot task whose
  callback does not move it is removed, with a deletion event; and the pass at shutdown leaves only
  tasks still inside their own thread.\<close>

theorem scheduler_pass_outcome:
  assumes "i < length (s_tasks g)" "tp = s_tasks g ! i" "tc_destroyed tp = 0" "\<not> tc_in_thread tp" "\<not> own_thread tp"
    "tc_func tp (tc_task tp) = tc_task tp" "now = clock (2 * i)" "now' = clock (2 * i + 1)" "now \<le> now'"
    "g' = snd (task_thread_loop False clock g)"
  shows "(now < t_runtime (tc_task tp) \<longrightarrow> tp \<in> set (s_tasks g')) \<and>
    (t_runtime (tc_task tp) \<le> now \<and> t_repeat (tc_task tp) \<noteq> 0 \<longrightarrow>
       (\<exists>tp' \<in> set (s_tasks g'). tid tp' = tid tp \<and> tc_destroyed tp' = 0 \<and>
          t_runtime (tc_task tp') = now' + uint (t_repeat (tc_task tp)))) \<and>
    (t_runtime (tc_task tp) \<le> now \<and> t_repeat (tc_task tp) = 0 \<longrightarrow>
       task_event EVENT_DEL_SCHEDULE tp \<in> set (s_events g')) \<and>
    (\<forall>tp' \<in> set (s_tasks (snd (task_thread_loop True clock g))). tc_in_thread tp')"
proof -
  let ?v = "fst (visit_task False now now' tp)"
  have nth: "fst (visit_all False clock 0 (s_tasks g)) ! i = ?v"
    using visit_all_nth [OF assms(1), of False clock 0] assms by simp
  then have mem: "?v \<in> set (fst (visit_all False clock 0 (s_tasks g)))"
    using assms(1) nth_mem by (metis visit_all_length)
  have keep: "\<not> sweepable ?v \<Longrightarrow> ?v \<in> set (s_tasks g')" using mem assms(10) by (simp add: loop_tasks)
  have "now < t_runtime (tc_task tp) \<longrightarrow> tp \<in> set (s_tasks g')"
    using keep assms(3,4) by (auto simp: visit_task_def due_def sweepable_def)
  moreover have "\<exists>tp' \<in> set (s_tasks g'). tid tp' = tid tp \<and> tc_destroyed tp' = 0 \<and>
      t_runtime (tc_task tp') = now' + uint (t_repeat (tc_task tp))"
    if "t_runtime (tc_task tp) \<le> now" "t_repeat (tc_task tp) \<noteq> 0"
  proof -
    have "uint (t_repeat (tc_task tp)) \<noteq> 0" using that(2) by (simp add: unsigned_eq_0_iff)
    then have "0 < uint (t_repeat (tc_task tp))" using uint_ge_0 [of "t_repeat (tc_task tp)"] by linarith
    then have "now < now' + uint (t_repeat (tc_task tp))" using assms(9) by linarith
    then have "\<not> sweepable ?v" "tid ?v = tid tp" "tc_destroyed ?v = 0" "t_runtime (tc_task ?v) = now' + uint (t_repeat (tc_task tp))"
      using that assms(3-6)
      by (simp_all add: visit_task_def due_def own_thread_def switch_scheduler_execute_def sweepable_def tid_def Let_def)
    then show ?thesis using keep by blast
  qed
  moreover have "task_event EVENT_DEL_SCHEDULE tp \<in> set (s_events g')"
    if "t_runtime (tc_task tp) \<le> now" "t_repeat (tc_task tp) = 0"
  proof -
    have "sweepable ?v" "task_event EVENT_DEL_SCHEDULE ?v = task_event EVENT_DEL_SCHEDULE tp"
      using that assms(3-6)
      by (simp_all add: visit_task_def due_def own_thread_def switch_scheduler_execute_def sweepable_def task_event_def tid_def Let_def)
    then show ?thesis using loop_del_event [OF assms(1), of False clock] nth assms(10) by simp
  qed
  moreover have "tc_in_thread tp'" if "tp' \<in> set (s_tasks (snd (task_thread_loop True clock g)))" for tp'
    using that visit_all_nth [of _ "s_tasks g" True clock 0]
    by (auto simp: loop_tasks in_set_conv_nth visit_task_def sweepable_def)
  ultimately show ?thesis by blast
qed

theorem scheduler_pass_outcome_witness:
  "task_event EVENT_DEL_SCHEDULE (s_tasks one_task ! 0) \<in> set (s_events (snd (task_thread_loop False (\<lambda>_. 200) one_task)))"
  using scheduler_pass_outcome [of 0 one_task "s_tasks one_task ! 0" 200 "\<lambda>_. 200" 200 "snd (task_thread_loop False (\<lambda>_. 200) one_task)"]
  by (simp add: one_task_eq new_container_def Let_def own_thread_def SSHF_OWN_THREAD_def SSHF_NO_DEL_def sample_func_def)

lemma new_container_tid: "tid (new_container now rt func desc grp cmd flags i) = i"
  by (simp add: tid_def new_container_def Let_def)

text \<open>adding a task returns a fresh id and appends one live task. A time at or after now is kept as the
  time to run; any earlier value is taken as an interval, also when the caller meant a moment that has
  just passed: the task then first runs that whole epoch time later and repeats.\<close>

theorem scheduler_add_task_time:
  assumes "ids_ok n g" "Suc n < 2 ^ 32" "0 < rt"
  shows "let (i, g') = switch_scheduler_add_task now rt func desc grp cmd flags g; tp = last (s_tasks g') in
     i \<noteq> 0 \<and> i \<notin> set (map tid (s_tasks g)) \<and> tid tp = i \<and> butlast (s_tasks g') = s_tasks g \<and> tc_destroyed tp = 0 \<and>
     (now \<le> rt \<longrightarrow> t_runtime (tc_task tp) = rt \<and> t_repeat (tc_task tp) = 0) \<and>
     (rt < now \<longrightarrow> t_runtime (tc_task tp) = now + rt \<and> now < t_runtime (tc_task tp) \<and> t_repeat (tc_task tp) = word_of_int rt)"
proof -
  note w = next_id_word [OF assms(2)]
  have i: "next_task_id (s_task_id g) = of_nat (Suc n)" using assms(1) w(1) by (simp add: ids_ok_def del: of_nat_Suc)
  have "0 < (of_nat (Suc n) :: uint32)" using w(2) by (rule le_less_trans [rotated]) simp
  moreover have "of_nat (Suc n) \<notin> tid ` set (s_tasks g)"
    using assms(1) w(2) by (auto simp: ids_ok_def simp del: of_nat_Suc dest: le_less_trans)
  ultimately show ?thesis
    using i assms(3)
    by (simp add: switch_scheduler_add_task_def new_container_tid Let_def del: of_nat_Suc)
      (simp add: new_container_def Let_def)
qed

theorem scheduler_add_task_time_witness:
  "t_runtime (tc_task (last (s_tasks (snd (switch_scheduler_add_task 1700000000 1699999999 sample_func None None 0 0 sched_init)))))
   = 3399999999"
proof -
  have "ids_ok 0 sched_init" by (simp add: ids_ok_def sched_init_def)
  from scheduler_add_task_time [OF this, of 1699999999 1700000000 sample_func None None 0 0]
  show ?thesis by (simp add: Let_def split_beta)
qed

end
