(* ===== verification/Text_Codec.thy ===== *)
theory Text_Codec
  imports C_String
begin

text \<open>
  The text encodings of src/switch\_utils.c: base 64, URL escapes, XML entities and the telephone-event
  digits. An output buffer of \<open>olen\<close> bytes is the list written so far; a write past \<open>olen\<close> is the
  fault \<open>Out_of_bounds\<close>. The accumulators \<open>b\<close> are 32 bits wide and wrap.
\<close>

section \<open>Base 64\<close>

definition put_char :: "nat \<Rightarrow> 'a list \<Rightarrow> 'a \<Rightarrow> fault + 'a list" where
  "put_char olen out c = (if length out < olen then Inr (out @ [c]) else Inl Out_of_bounds)"

definition switch_b64_table :: string where
  "switch_b64_table = ''ABCDEFGHIJKLMNOPQRSTUVWXYZabcdefghijklmnopqrstuvwxyz0123456789+/''"

text \<open>\<open>(int)olen\<close> keeps the low 32 bits of a size, as a signed number.\<close>

definition cast_int :: "nat \<Rightarrow> int" where
  "cast_int n = signed_take_bit 31 (int n)"

lemma cast_int_id: "n < 2 ^ 31 \<Longrightarrow> cast_int n = int n"
  unfolding cast_int_def by (rule signed_take_bit_int_eq_self) simp_all

text \<open>The inner loop: a character for every six bits; the flag says that the buffer is full.\<close>

function b64_groups :: "nat \<Rightarrow> uint32 \<Rightarrow> nat \<Rightarrow> string \<Rightarrow> fault + (bool \<times> nat \<times> string)" where
  "b64_groups olen b l out =
     (if l \<ge> 6 then
        fbind (put_char olen out (switch_b64_table ! (unat (drop_bit (l - 6) b) mod 64))) (\<lambda>out'.
          if int (length out') \<ge> cast_int olen - 1 then Inr (True, l - 6, out') else b64_groups olen b (l - 6) out')
      else Inr (False, l, out))"
  by pat_completeness auto

termination
  by (relation "measure (\<lambda>(olen, b, l, out). l)") auto

declare b64_groups.simps [simp del]

fun b64_bytes :: "nat \<Rightarrow> byte list \<Rightarrow> uint32 \<Rightarrow> nat \<Rightarrow> string \<Rightarrow> fault + (bool \<times> uint32 \<times> nat \<times> string)" where
  "b64_bytes olen [] b l out = Inr (False, b, l, out)"
| "b64_bytes olen (x # xs) b l out =
     (let b' = push_bit 8 b + ucast x in
      fbind (b64_groups olen b' (l + 8) out) (\<lambda>(full, l', out').
        if full then Inr (True, b', l', out') else b64_bytes olen xs b' l' out'))"

function b64_pad :: "nat \<Rightarrow> nat \<Rightarrow> string \<Rightarrow> fault + string" where
  "b64_pad olen l out =
     (if l < 6 \<and> int (length out) < cast_int olen - 1
      then fbind (put_char olen out (CHR ''='')) (b64_pad olen (l + 2)) else Inr out)"
  by pat_completeness auto

termination
  by (relation "measure (\<lambda>(olen, l, out). 6 - l)") auto

declare b64_pad.simps [simp del]

definition b64_rest :: "nat \<Rightarrow> uint32 \<Rightarrow> nat \<Rightarrow> string \<Rightarrow> fault + string" where
  "b64_rest olen b l out =
     fbind (if l > 0 then put_char olen out (switch_b64_table ! (unat (push_bit (6 - l) (b mod 16)) mod 64)) else Inr out)
       (\<lambda>out'. if l \<noteq> 0 then b64_pad olen l out' else Inr out')"

text \<open>The text written, without the terminating NUL, whose own write is the last check.\<close>

definition switch_b64_encode :: "byte list \<Rightarrow> nat \<Rightarrow> fault + string" where
  "switch_b64_encode inp olen =
     fbind (b64_bytes olen inp 0 0 []) (\<lambda>(full, b, l, out).
       fbind (if full then Inr out else b64_rest olen b l out) (\<lambda>out'.
         fbind (put_char olen out' (CHR 0x00)) (\<lambda>_. Inr out')))"

text \<open>\<open>l64\<close>: the place of a character in the table, or \<open>None\<close> for -1. The table has an entry for every
  index from 0 to 255 and \<open>char\<close> is signed, so that a character above 127 reads before it.\<close>

fun index_of :: "'a \<Rightarrow> 'a list \<Rightarrow> nat option" where
  "index_of c [] = None"
| "index_of c (x # xs) = (if x = c then Some 0 else map_option Suc (index_of c xs))"

function b64_octets :: "nat \<Rightarrow> uint32 \<Rightarrow> nat \<Rightarrow> byte list \<Rightarrow> fault + (bool \<times> nat \<times> byte list)" where
  "b64_octets olen b l out =
     (if l \<ge> 8 then
        fbind (put_char olen out (ucast (drop_bit (l - 8) b) :: byte)) (\<lambda>out'.
          if length out' \<ge> size_sub olen 2 then Inr (True, l - 8, out') else b64_octets olen b (l - 8) out')
      else Inr (False, l, out))"
  by pat_completeness auto

termination
  by (relation "measure (\<lambda>(olen, b, l, out). l)") auto

declare b64_octets.simps [simp del]

fun b64_chars :: "nat \<Rightarrow> string \<Rightarrow> uint32 \<Rightarrow> nat \<Rightarrow> byte list \<Rightarrow> fault + byte list" where
  "b64_chars olen [] b l out = Inr out"
| "b64_chars olen (c # cs) b l out =
     (if char_code c < 0 then Inl Out_of_bounds
      else case index_of c switch_b64_table of
        None \<Rightarrow> b64_chars olen cs b l out
      | Some i \<Rightarrow>
          let b' = push_bit 6 b + of_nat i in
          fbind (b64_octets olen b' (l + 6) out) (\<lambda>(full, l', out').
            if full then Inr out' else b64_chars olen cs b' l' out'))"

text \<open>The bytes decoded; the number returned counts the terminating NUL too.\<close>

definition switch_b64_decode :: "string \<Rightarrow> nat \<Rightarrow> fault + (nat \<times> byte list)" where
  "switch_b64_decode inp olen =
     fbind (b64_chars olen inp 0 0 []) (\<lambda>out.
       fbind (put_char olen out 0) (\<lambda>out'. Inr (length out', out)))"

section \<open>URL escapes\<close>

definition urlunsafe :: string where
  "urlunsafe = [CHR 0x0D, CHR 0x0A, CHR 0x20, CHR 0x22] @ ''#%&+:;<=>?@['' @ [CHR 0x5C] @ '']^'' @ [CHR 0x60] @ ''{|}''"

definition hex_digits :: string where
  "hex_digits = ''0123456789ABCDEF''"

text \<open>\<open>char\<close> is signed: a character above 127 is below the space.\<close>

definition url_special :: "char \<Rightarrow> bool" where
  "url_special c \<longleftrightarrow> char_code c < 32 \<or> char_code c > 126 \<or> c \<in> set urlunsafe"

definition url_escape :: "char \<Rightarrow> string" where
  "url_escape c = [CHR ''%'', hex_digits ! (of_char c div 16), hex_digits ! (of_char c mod 16)]"

fun url_loop :: "nat \<Rightarrow> string \<Rightarrow> string \<Rightarrow> string" where
  "url_loop len [] buf = buf"
| "url_loop len (c # cs) buf =
     (if length buf \<ge> len then buf
      else if url_special c then
        if length buf + 3 > len then buf else url_loop len cs (buf @ url_escape c)
      else url_loop len cs (buf @ [c]))"

definition switch_url_encode :: "string \<Rightarrow> nat \<Rightarrow> fault + string" where
  "switch_url_encode url len =
     (let buf = url_loop (size_sub len 1) url [] in if length buf < len then Inr buf else Inl Out_of_bounds)"

text \<open>\<open>scan\<close> is \<open>sscanf\<close> with the format \<open>%2x\<close> on the text after the percent sign.\<close>

fun switch_url_decode :: "(string \<Rightarrow> nat option) \<Rightarrow> string \<Rightarrow> string" where
  "switch_url_decode scan [] = []"
| "switch_url_decode scan (c # cs) =
     (if c = CHR ''%'' \<and> length (c # cs) > 2 then
        case scan cs of
          Some tmp \<Rightarrow> char_of tmp # switch_url_decode scan (drop 2 cs)
        | None \<Rightarrow> c # switch_url_decode scan cs
      else c # switch_url_decode scan cs)"

section \<open>XML entities\<close>

definition amp_entity :: "char \<Rightarrow> string" where
  "amp_entity c =
     (if c = CHR 0x22 then ''&quot;''
      else if c = CHR 0x27 then ''&apos;''
      else if c = CHR ''&'' then ''&amp;''
      else if c = CHR ''<'' then ''&lt;''
      else if c = CHR ''>'' then ''&gt;''
      else [c])"

text \<open>The string is given with its terminating NUL, which is copied like any other character and ends the
  loop; a piece that does not fit ends it too.\<close>

fun amp_loop :: "nat \<Rightarrow> string \<Rightarrow> string \<Rightarrow> string" where
  "amp_loop len [] buf = buf"
| "amp_loop len (c # cs) buf =
     (if length buf < len then
        if length buf + length (amp_entity c) > size_sub len 1 then buf
        else if c = CHR 0x00 then buf @ [c]
        else amp_loop len cs (buf @ amp_entity c)
      else buf)"

definition switch_amp_encode :: "string \<Rightarrow> nat \<Rightarrow> string" where
  "switch_amp_encode s len = amp_loop len (s @ [CHR 0x00]) []"

section \<open>Telephone events\<close>

definition RFC2833_CHARS :: string where
  "RFC2833_CHARS = ''0123456789*#ABCDF''"

definition switch_rfc2833_to_char :: "int \<Rightarrow> char" where
  "switch_rfc2833_to_char event =
     (if event > -1 \<and> event < int (length RFC2833_CHARS) + 1 then (RFC2833_CHARS @ [CHR 0x00]) ! nat event else CHR 0x00)"

definition upper_char :: "char \<Rightarrow> char" where
  "upper_char c = char_of (unat (switch_toupper (word_of_int (char_code c))))"

definition switch_char_to_rfc2833 :: "char \<Rightarrow> byte" where
  "switch_char_to_rfc2833 key =
     (case index_of (upper_char key) RFC2833_CHARS of Some i \<Rightarrow> of_nat i | None \<Rightarrow> 0)"

section \<open>Regrouping bits\<close>

text \<open>Both directions of base 64 read off one number: \<open>nval B ds\<close> is the number with digits \<open>ds\<close> in base \<open>B\<close>.\<close>

definition nval :: "nat \<Rightarrow> nat list \<Rightarrow> nat" where
  "nval B ds = foldl (\<lambda>a d. a * B + d) 0 ds"

lemma nval_Nil [simp]: "nval B [] = 0"
  by (simp add: nval_def)

lemma nval_snoc [simp]: "nval B (ds @ [d]) = nval B ds * B + d"
  by (simp add: nval_def)

lemma nval_inj:
  "length xs = length ys \<Longrightarrow> \<forall>x \<in> set xs. x < B \<Longrightarrow> \<forall>y \<in> set ys. y < B \<Longrightarrow> nval B xs = nval B ys \<Longrightarrow> xs = ys"
proof (induction xs arbitrary: ys rule: rev_induct)
  case (snoc x xs)
  obtain ys' y where ys: "ys = ys' @ [y]" using snoc.prems(1) by (cases ys rule: rev_cases) auto
  have e: "nval B xs * B + x = nval B ys' * B + y" "x < B" "y < B" using snoc.prems ys by simp_all
  from e(1) have "(nval B xs * B + x) mod B = (nval B ys' * B + y) mod B" "(nval B xs * B + x) div B = (nval B ys' * B + y) div B"
    by simp_all
  then have "x = y" "nval B xs = nval B ys'" using e(2,3) by simp_all
  then show ?case using snoc ys by simp
qed simp

lemma shift_out: "(N :: nat) div 2 ^ k = N div 2 ^ (k + w) * 2 ^ w + N div 2 ^ k mod 2 ^ w"
proof -
  have "N div 2 ^ (k + w) = N div 2 ^ k div 2 ^ w" by (simp add: div_mult2_eq power_add)
  then show ?thesis by (simp add: div_mult_mod_eq)
qed

lemma acc_bits:
  assumes "k + w \<le> 32"
  shows "unat (drop_bit k (of_nat N :: uint32)) mod 2 ^ w = N div 2 ^ k mod 2 ^ w"
proof -
  have "take_bit w (drop_bit k (take_bit 32 N)) = take_bit w (drop_bit k N)"
    using assms by (intro bit_eqI) (auto simp: bit_simps)
  moreover have "unat (drop_bit k (of_nat N :: uint32)) = drop_bit k (take_bit 32 N)"
    by (simp add: unat_drop_bit_eq unsigned_of_nat)
  ultimately show ?thesis by (simp only: take_bit_eq_mod drop_bit_eq_div)
qed

lemma acc_push:
  "push_bit 8 (of_nat N :: uint32) + ucast (x :: byte) = of_nat (N * 256 + unat x)"
  "push_bit 6 (of_nat N :: uint32) + of_nat i = of_nat (N * 64 + i)"
  by (simp_all add: push_bit_eq_mult mult.commute)

definition b64_char :: "nat \<Rightarrow> char" where
  "b64_char i = switch_b64_table ! i"

lemma groups_spec:
  assumes "N div 2 ^ l = nval 64 is" "l \<le> 32" "6 * length is + l + 6 < 6 * olen" "\<forall>i \<in> set is. i < 64"
    and small: "olen < 2 ^ 31"
  shows "\<exists>js l'. b64_groups olen (of_nat N) l (map b64_char is) = Inr (False, l', map b64_char js) \<and> l' < 6 \<and>
    6 * length is + l = 6 * length js + l' \<and> nval 64 js = N div 2 ^ l' \<and> (\<forall>i \<in> set js. i < 64)"
  using assms(1-4)
proof (induction l arbitrary: "is" rule: less_induct)
  case (less l)
  show ?case
  proof (cases "l < 6")
    case True
    then show ?thesis using less.prems by (intro exI [of _ "is"] exI [of _ l]) (simp add: b64_groups.simps [of olen _ l])
  next
    case False
    define k where "k = l - 6"
    define i where "i = N div 2 ^ k mod 64"
    have l: "l = k + 6" using False by (simp add: k_def)
    have idx: "unat (drop_bit k (of_nat N :: uint32)) mod 64 = i"
      using acc_bits [of k 6 N] less.prems(2) l by (simp add: i_def)
    have val: "N div 2 ^ k = nval 64 (is @ [i])"
      using shift_out [of N k 6] less.prems(1) l by (simp add: i_def)
    have put: "b64_groups olen (of_nat N) l (map b64_char is) = b64_groups olen (of_nat N) k (map b64_char (is @ [i]))"
      using less.prems(3) idx unfolding l
      by (subst b64_groups.simps) (simp add: put_char_def b64_char_def cast_int_id [OF small])
    have "k < l" "6 * length (is @ [i]) + k + 6 < 6 * olen" "k \<le> 32" "\<forall>j \<in> set (is @ [i]). j < 64"
      using less.prems l by (auto simp: i_def)
    from less.IH [OF this(1) val this(3,2,4)] show ?thesis unfolding put using l by (simp add: ac_simps)
  qed
qed

lemma bytes_spec:
  assumes "N div 2 ^ l = nval 64 is" "l < 6" "6 * length is + 8 * length xs + l + 6 < 6 * olen" "\<forall>i \<in> set is. i < 64"
    and small: "olen < 2 ^ 31"
  shows "\<exists>js l'. b64_bytes olen xs (of_nat N) l (map b64_char is) =
      Inr (False, of_nat (foldl (\<lambda>a x. a * 256 + unat x) N xs), l', map b64_char js) \<and> l' < 6 \<and>
    6 * length is + 8 * length xs + l = 6 * length js + l' \<and>
    nval 64 js = foldl (\<lambda>a x. a * 256 + unat x) N xs div 2 ^ l' \<and> (\<forall>i \<in> set js. i < 64)"
  using assms(1-4)
proof (induction xs arbitrary: N l "is")
  case Nil
  then show ?case by (intro exI [of _ "is"]) simp
next
  case (Cons x xs)
  let ?N = "N * 256 + unat x"
  have ux: "unat x < 256" using unsigned_less [of x] by simp
  have "(2 :: nat) ^ (l + 8) = 256 * 2 ^ l" by (simp add: power_add)
  then have "?N div 2 ^ (l + 8) = (?N div 256) div 2 ^ l" by (simp only: div_mult2_eq)
  also have "?N div 256 = N" using ux by simp
  finally have v: "?N div 2 ^ (l + 8) = nval 64 is" using Cons.prems(1) by simp
  have room: "6 * length is + (l + 8) + 6 < 6 * olen" "l + 8 \<le> 32" using Cons.prems(2,3) by simp_all
  obtain js k where js: "b64_groups olen (of_nat ?N) (l + 8) (map b64_char is) = Inr (False, k, map b64_char js)"
    "k < 6" "6 * length is + (l + 8) = 6 * length js + k" "nval 64 js = ?N div 2 ^ k" "\<forall>i \<in> set js. i < 64"
    using groups_spec [OF v room(2,1) Cons.prems(4) small] by auto
  have "6 * length js + 8 * length xs + k + 6 < 6 * olen" using Cons.prems(3) js(3) by simp
  from Cons.IH [OF js(4) [symmetric] js(2) this js(5)] obtain ks l' where
    ks: "b64_bytes olen xs (of_nat ?N) k (map b64_char js) =
      Inr (False, of_nat (foldl (\<lambda>a x. a * 256 + unat x) ?N xs), l', map b64_char ks)" "l' < 6"
    "6 * length js + 8 * length xs + k = 6 * length ks + l'" "nval 64 ks = foldl (\<lambda>a x. a * 256 + unat x) ?N xs div 2 ^ l'"
    "\<forall>i \<in> set ks. i < 64" by blast
  have "b64_bytes olen (x # xs) (of_nat N) l (map b64_char is) = b64_bytes olen xs (of_nat ?N) k (map b64_char js)"
    using js(1) by (simp add: acc_push(1) Let_def del: of_nat_add of_nat_mult)
  then show ?case using ks js(3) by (intro exI [of _ ks] exI [of _ l']) simp
qed

definition bytes_val :: "byte list \<Rightarrow> nat" where
  "bytes_val xs = nval 256 (map unat xs)"

lemma foldl_bytes: "foldl (\<lambda>a x. a * 256 + unat x) 0 xs = bytes_val xs"
  by (simp add: bytes_val_def nval_def foldl_map)

text \<open>The text of a list of bytes: as many digits as cover its bits, and padding to a multiple of four.\<close>

lemma rest_spec:
  assumes "l \<in> {0, 2, 4}" "nval 64 is = N div 2 ^ l" "length is + 4 < olen" "\<forall>i \<in> set is. i < 64"
    and small: "olen < 2 ^ 31"
  shows "\<exists>js pad. b64_rest olen (of_nat N) l (map b64_char is) = Inr (map b64_char js @ replicate pad (CHR ''='')) \<and>
    nval 64 js = (if l = 0 then N else N * 2 ^ (6 - l)) \<and> length js = length is + (if l = 0 then 0 else 1) \<and>
    (\<forall>i \<in> set js. i < 64) \<and> pad \<le> 2"
proof (cases "l = 0")
  case True
  then show ?thesis using assms by (intro exI [of _ "is"] exI [of _ 0]) (simp add: b64_rest_def)
next
  case False
  define i where "i = N mod 2 ^ l * 2 ^ (6 - l)"
  have m16: "unat ((of_nat N :: uint32) mod 16) = N mod 16"
  proof -
    have "unat ((of_nat N :: uint32) mod 16) = N mod 2 ^ 32 mod 16" by (simp add: unat_mod unsigned_of_nat take_bit_eq_mod)
    also have "\<dots> = N mod 16" by (rule mod_mod_cancel) simp
    finally show ?thesis .
  qed
  have "unat (push_bit (6 - l) ((of_nat N :: uint32) mod 16)) = N mod 16 * 2 ^ (6 - l)"
  proof -
    have "N mod 16 * 2 ^ (6 - l) < 16 * 2 ^ 4" using assms(1) False by (intro mult_less_le_imp_less) auto
    then have "N mod 16 * 2 ^ (6 - l) < 2 ^ 32" by simp
    moreover have "unat (push_bit (6 - l) ((of_nat N :: uint32) mod 16)) = take_bit 32 (push_bit (6 - l) (N mod 16))"
      using m16 by (simp add: unsigned_push_bit_eq)
    ultimately show ?thesis by (simp add: push_bit_eq_mult take_bit_nat_eq_self)
  qed
  moreover have "N mod 16 * 2 ^ (6 - l) mod 64 = i"
  proof -
    have "N mod 16 mod 4 = N mod 4" by (rule mod_mod_cancel) simp
    then have "N mod 16 * 16 mod 64 = N mod 4 * 16" using mod_mult_mult2 [of "N mod 16" 16 4] by simp
    moreover have "N mod 16 * 4 mod 64 = N mod 16 * 4" by (rule mod_less) (simp add: mult_less_cancel2 [of _ 4 16, simplified])
    ultimately show ?thesis using assms(1) False by (auto simp: i_def)
  qed
  ultimately have idx: "unat (push_bit (6 - l) ((of_nat N :: uint32) mod 16)) mod 64 = i" by simp
  have r2: "replicate 2 (CHR ''='') = ''==''" by (simp add: numeral_2_eq_2)
  have pad: "b64_pad olen l out = Inr (out @ replicate ((6 - l) div 2) (CHR ''=''))" if "length out + 3 < olen" for out
    using that assms(1) False
    by (auto simp: b64_pad.simps put_char_def r2 cast_int_id [OF small])
  have "nval 64 (is @ [i]) = N * 2 ^ (6 - l)"
  proof -
    have e: "(64 :: nat) = 2 ^ l * 2 ^ (6 - l)" using assms(1) by auto
    have "nval 64 (is @ [i]) = N div 2 ^ l * (2 ^ l * 2 ^ (6 - l)) + i" unfolding e [symmetric] using assms(2) by simp
    also have "\<dots> = (N div 2 ^ l * 2 ^ l + N mod 2 ^ l) * 2 ^ (6 - l)" unfolding i_def by (simp only: distrib_right mult.assoc)
    also have "\<dots> = N * 2 ^ (6 - l)" by (simp only: div_mult_mod_eq)
    finally show ?thesis .
  qed
  moreover have "i < 64" using assms(1) False by (auto simp: i_def)
  ultimately show ?thesis
    using False assms(3,4) idx pad [of "map b64_char (is @ [i])"] assms(1)
    by (intro exI [of _ "is @ [i]"] exI [of _ "(6 - l) div 2"]) (auto simp: b64_rest_def put_char_def b64_char_def)
qed

lemma b64_char_index: "i < 64 \<Longrightarrow> index_of (b64_char i) switch_b64_table = Some i \<and> \<not> char_code (b64_char i) < 0"
proof -
  have "\<forall>i \<in> set [0..<64]. index_of (b64_char i) switch_b64_table = Some i \<and> \<not> char_code (b64_char i) < 0"
    by code_simp
  then show "i < 64 \<Longrightarrow> index_of (b64_char i) switch_b64_table = Some i \<and> \<not> char_code (b64_char i) < 0" by simp
qed

lemma b64_pad_skipped: "b64_chars olen (replicate n (CHR ''='')) b l out = Inr out"
proof -
  have "index_of (CHR ''='') switch_b64_table = None" "\<not> char_code (CHR ''='') < 0" by code_simp+
  then show ?thesis by (induction n) simp_all
qed

text \<open>Decoding digits: the bytes are the digits of the same number in base 256.\<close>

lemma chars_spec:
  assumes "M div 2 ^ l = bytes_val out" "l < 8" "8 * length out + 6 * length is + l + 16 < 8 * olen" "olen < size_max"
    "\<forall>i \<in> set is. i < 64"
  shows "\<exists>ys l'. b64_chars olen (map b64_char is @ replicate n (CHR ''='')) (of_nat M) l out = Inr ys \<and> l' < 8 \<and>
    8 * length out + 6 * length is + l = 8 * length ys + l' \<and>
    bytes_val ys = foldl (\<lambda>a i. a * 64 + i) M is div 2 ^ l'"
  using assms
proof (induction "is" arbitrary: M l out)
  case Nil
  then show ?case by (intro exI [of _ out] exI [of _ l]) (simp add: b64_pad_skipped)
next
  case (Cons i "is")
  have i: "i < 64" "index_of (b64_char i) switch_b64_table = Some i" "\<not> char_code (b64_char i) < 0"
    using Cons.prems(5) b64_char_index [of i] by auto
  let ?M = "M * 64 + i"
  have "(2 :: nat) ^ (l + 6) = 64 * 2 ^ l" by (simp add: power_add)
  then have "?M div 2 ^ (l + 6) = (?M div 64) div 2 ^ l" by (simp only: div_mult2_eq)
  also have "?M div 64 = M" using i(1) by simp
  finally have v: "?M div 2 ^ (l + 6) = bytes_val out" using Cons.prems(1) by simp
  have step: "b64_chars olen (map b64_char (i # is) @ replicate n (CHR ''='')) (of_nat M) l out =
      fbind (b64_octets olen (of_nat ?M) (l + 6) out) (\<lambda>(full, l', out').
        if full then Inr out' else b64_chars olen (map b64_char is @ replicate n (CHR ''='')) (of_nat ?M) l' out')"
    using i by (simp add: acc_push(2) Let_def del: of_nat_add of_nat_mult)
  show ?case
  proof (cases "l + 6 < 8")
    case True
    have "b64_octets olen (of_nat ?M) (l + 6) out = Inr (False, l + 6, out)"
      using True by (subst b64_octets.simps) simp
    moreover have "8 * length out + 6 * length is + (l + 6) + 16 < 8 * olen" using Cons.prems(3) by simp
    note Cons.IH [OF v True this Cons.prems(4)]
    ultimately show ?thesis unfolding step using Cons.prems(5) by (simp add: ac_simps)
  next
    case False
    define k where "k = l + 6 - 8"
    have k: "l + 6 = k + 8" "k < 8" using False Cons.prems(2) by (auto simp: k_def)
    define y where "y = (ucast (drop_bit k (of_nat ?M :: uint32)) :: byte)"
    have uy: "unat y = ?M div 2 ^ k mod 256"
      using acc_bits [of k 8 ?M] k by (simp add: y_def unsigned_ucast_eq take_bit_eq_mod del: of_nat_add of_nat_mult)
    have vy: "?M div 2 ^ k = bytes_val (out @ [y])"
      using shift_out [of ?M k 8] v k(1) uy by (simp add: bytes_val_def)
    have oct: "b64_octets olen (of_nat ?M) (l + 6) out = Inr (False, k, out @ [y])"
    proof -
      have "2 \<le> olen" "length out < olen" "Suc (length out) < olen - 2" using Cons.prems(3) k by simp_all
      then show ?thesis using Cons.prems(4) k unfolding k(1)
        by (subst b64_octets.simps)
          (simp add: put_char_def y_def [symmetric] size_sub_no_wrap b64_octets.simps [of olen _ k] del: of_nat_add of_nat_mult)
    qed
    have r: "8 * length (out @ [y]) + 6 * length is + k + 16 < 8 * olen" using Cons.prems(3) k by simp
    obtain ys l' where ys: "b64_chars olen (map b64_char is @ replicate n (CHR ''='')) (of_nat ?M) k (out @ [y]) = Inr ys"
      "l' < 8" "8 * length (out @ [y]) + 6 * length is + k = 8 * length ys + l'"
      "bytes_val ys = foldl (\<lambda>a i. a * 64 + i) ?M is div 2 ^ l'"
      using Cons.IH [OF vy k(2) r Cons.prems(4)] Cons.prems(5) by auto
    then show ?thesis unfolding step oct using k by (intro exI [of _ ys] exI [of _ l']) simp
  qed
qed

lemma bytes_val_inj: "length xs = length ys \<Longrightarrow> bytes_val xs = bytes_val ys \<Longrightarrow> xs = ys"
proof -
  assume l: "length xs = length ys" and v: "bytes_val xs = bytes_val ys"
  have "unat (x :: byte) < 256" for x using unsigned_less [of x] by simp
  then have "map unat xs = map unat ys" using l v by (intro nval_inj [of _ _ 256]) (auto simp: bytes_val_def)
  then show ?thesis by (auto intro: map_injective injI)
qed

section \<open>Escapes\<close>

definition url_piece :: "char \<Rightarrow> string" where
  "url_piece c = (if url_special c then url_escape c else [c])"

definition url_text :: "string \<Rightarrow> string" where
  "url_text s = concat (map url_piece s)"

lemma url_text_simps [simp]: "url_text [] = []" "url_text (c # s) = url_piece c @ url_text s"
  by (simp_all add: url_text_def)

text \<open>The loop writes whole pieces only, and stops at the first that does not fit.\<close>

lemma url_loop_prefix:
  assumes "length buf \<le> len"
  shows "\<exists>k. url_loop len s buf = buf @ url_text (take k s) \<and> length (buf @ url_text (take k s)) \<le> len \<and>
    (length (buf @ url_text s) \<le> len \<longrightarrow> take k s = s)"
  using assms
proof (induction s arbitrary: buf)
  case (Cons c s)
  have p: "length (url_piece c) = (if url_special c then 3 else 1)" by (simp add: url_piece_def url_escape_def)
  show ?case
  proof (cases "length buf + length (url_piece c) \<le> len")
    case True
    then have "url_loop len (c # s) buf = url_loop len s (buf @ url_piece c)"
      using p by (auto simp: url_piece_def split: if_splits)
    moreover obtain k where "url_loop len s (buf @ url_piece c) = (buf @ url_piece c) @ url_text (take k s)"
      "length ((buf @ url_piece c) @ url_text (take k s)) \<le> len"
      "length ((buf @ url_piece c) @ url_text s) \<le> len \<longrightarrow> take k s = s"
      using Cons.IH [of "buf @ url_piece c"] True by auto
    ultimately show ?thesis by (intro exI [of _ "Suc k"]) simp
  next
    case False
    then have "url_loop len (c # s) buf = buf" using Cons.prems p by (auto split: if_splits)
    then show ?thesis using False Cons.prems by (intro exI [of _ 0]) simp
  qed
qed simp

definition scans_hex :: "(string \<Rightarrow> nat option) \<Rightarrow> bool" where
  "scans_hex scan \<longleftrightarrow> (\<forall>i < 16. \<forall>j < 16. \<forall>r. scan (hex_digits ! i # hex_digits ! j # r) = Some (16 * i + j))"

lemma url_decode_text: "scans_hex scan \<Longrightarrow> switch_url_decode scan (url_text s) = s"
proof (induction s)
  case (Cons c s)
  show ?case
  proof (cases "url_special c")
    case True
    have "of_char c < (256 :: nat)" by simp
    then have "of_char c div 16 < (16 :: nat)" "of_char c mod 16 < (16 :: nat)" by linarith+
    then have "scan (hex_digits ! (of_char c div 16) # hex_digits ! (of_char c mod 16) # r) = Some (of_char c)" for r
      using Cons.prems unfolding scans_hex_def by (metis mult_div_mod_eq)
    then show ?thesis using True Cons by (simp add: url_piece_def url_escape_def)
  next
    case False
    moreover have "url_special (CHR ''%'')" by code_simp
    ultimately show ?thesis using Cons by (auto simp: url_piece_def)
  qed
qed simp

definition amp_text :: "string \<Rightarrow> string" where
  "amp_text s = concat (map amp_entity s)"

lemma amp_entity_no_nul: "c \<noteq> CHR 0x00 \<Longrightarrow> CHR 0x00 \<notin> set (amp_entity c)" "amp_entity c \<noteq> []"
  by (auto simp: amp_entity_def)

lemma amp_loop_spec:
  assumes "CHR 0x00 \<notin> set s" "length buf < len" "len < size_max" "CHR 0x00 \<notin> set buf"
  shows "let out = amp_loop len (s @ [CHR 0x00]) buf in length out < len \<and>
    (if length (buf @ amp_text s) + 1 < len then out = buf @ amp_text s @ [CHR 0x00] else CHR 0x00 \<notin> set out)"
  using assms
proof (induction s arbitrary: buf)
  case Nil
  have "amp_entity (CHR 0x00) = [CHR 0x00]" by (simp add: amp_entity_def)
  then show ?case using Nil by (auto simp: amp_text_def size_sub_no_wrap)
next
  case (Cons c s)
  have c: "c \<noteq> CHR 0x00" "CHR 0x00 \<notin> set s" using Cons.prems(1) by auto
  have t: "amp_text (c # s) = amp_entity c @ amp_text s" by (simp add: amp_text_def)
  show ?case
  proof (cases "length buf + length (amp_entity c) > len - 1")
    case True
    then have "amp_loop len ((c # s) @ [CHR 0x00]) buf = buf" using Cons.prems by (simp add: size_sub_no_wrap)
    then show ?thesis using True Cons.prems t by simp
  next
    case False
    then have "amp_loop len ((c # s) @ [CHR 0x00]) buf = amp_loop len (s @ [CHR 0x00]) (buf @ amp_entity c)"
      using Cons.prems c by (simp add: size_sub_no_wrap)
    note e = this
    have l: "length (buf @ amp_entity c) < len" using False Cons.prems(2) by simp
    have n: "CHR 0x00 \<notin> set (buf @ amp_entity c)" using Cons.prems(4) amp_entity_no_nul(1) [OF c(1)] by simp
    show ?thesis using Cons.IH [OF c(2) l Cons.prems(3) n] unfolding e t Let_def append_assoc .
  qed
qed

lemma upper_char_byte: "upper_char c = char_of (unat (ascii_upper (char_byte c)))"
proof -
  let ?w = "switch_toupper (word_of_int (char_code c))"
  have "(ucast (word_of_int (char_code c) :: uint32) :: byte) = char_byte c"
  proof -
    have "(ucast (word_of_int k :: uint32) :: byte) = word_of_int k" for k
      by (rule bit_word_eqI) (simp add: bit_simps)
    moreover have "(word_of_int (char_code c) :: byte) = of_int (of_char c)" by (simp add: char_code_def Let_def)
    ultimately show ?thesis using of_int_of_char [of c, where 'a = byte] by (simp add: char_byte_def)
  qed
  then have "ascii_upper (char_byte c) = ucast ?w" by (simp add: toupper_low_byte)
  then have "unat (ascii_upper (char_byte c)) = unat ?w mod 256" by (simp add: unsigned_ucast_eq take_bit_eq_mod)
  then show ?thesis by (simp add: upper_char_def)
qed

lemma rfc2833_digits:
  assumes "e < 17"
  shows "switch_char_to_rfc2833 (switch_rfc2833_to_char (int e)) = of_nat e"
proof -
  have "\<forall>e \<in> set [0..<17]. char_of (unat (ascii_upper (char_byte (RFC2833_CHARS ! e)))) = RFC2833_CHARS ! e \<and>
      index_of (RFC2833_CHARS ! e) RFC2833_CHARS = Some e \<and> length RFC2833_CHARS = 17" by code_simp
  then show ?thesis
    using assms by (simp add: switch_char_to_rfc2833_def switch_rfc2833_to_char_def upper_char_byte nth_append)
qed

text \<open>From 2 GB on the cast makes the size negative: the encoder stops after its first character.\<close>

lemma b64_encode_huge_buffer:
  assumes "2 ^ 31 \<le> olen" and "olen < 2 ^ 32"
  shows "switch_b64_encode [x] olen = Inr [switch_b64_table ! (unat (drop_bit 2 (ucast x :: uint32)) mod 64)]"
proof -
  have "cast_int olen < 0"
  proof -
    have "olen div 2 ^ 31 = 1" by (rule div_nat_eqI) (use assms in simp_all)
    then have "int olen div 2 ^ 31 = 1" using zdiv_int [of olen "2 ^ 31"] by simp
    then have "bit (int olen) 31" by (simp add: bit_iff_odd)
    then show ?thesis unfolding cast_int_def by (simp add: signed_take_bit_negative_iff)
  qed
  then show ?thesis using assms
    by (simp add: switch_b64_encode_def b64_groups.simps put_char_def Let_def)
qed

section \<open>Properties\<close>

text \<open>C24: whatever bytes are encoded into a buffer with room for them and of less than 2 GB, decoding the text into a
  buffer with room gives back exactly those bytes, and neither direction writes outside its buffer. The room
  asked for is six bytes more than four for every three bytes, and four bytes more than the bytes themselves.\<close>

theorem b64_roundtrip:
  assumes "8 * length xs + 36 < 6 * olen" "8 * length xs + 24 < 8 * dlen" "olen < 2 ^ 31" "dlen < size_max"
  shows "\<exists>txt. switch_b64_encode xs olen = Inr txt \<and> switch_b64_decode txt dlen = Inr (length xs + 1, xs)"
proof -
  let ?N = "bytes_val xs"
  obtain "is" l where e: "b64_bytes olen xs 0 0 [] = Inr (False, of_nat ?N, l, map b64_char is)" "l < 6"
    "8 * length xs = 6 * length is + l" "nval 64 is = ?N div 2 ^ l" "\<forall>i \<in> set is. i < 64"
    using bytes_spec [of 0 0 "[]" xs olen] assms(1,3) by (auto simp: foldl_bytes)
  have l: "l \<in> {0, 2, 4}"
  proof -
    have "even l" using e(3) by presburger
    then show ?thesis using e(2) by (auto elim!: evenE)
  qed
  obtain js pad where r: "b64_rest olen (of_nat ?N) l (map b64_char is) = Inr (map b64_char js @ replicate pad (CHR ''=''))"
    "nval 64 js = (if l = 0 then ?N else ?N * 2 ^ (6 - l))" "length js = length is + (if l = 0 then 0 else 1)"
    "\<forall>i \<in> set js. i < 64" "pad \<le> 2"
    using rest_spec [OF l e(4) _ e(5), of olen] assms(1,3) e(3) by auto
  let ?txt = "map b64_char js @ replicate pad (CHR ''='')"
  have enc: "switch_b64_encode xs olen = Inr ?txt"
    using e(1,3) r(1,3,5) assms(1) by (simp add: switch_b64_encode_def put_char_def split: if_splits)
  obtain ys l' where d: "b64_chars dlen ?txt 0 0 [] = Inr ys" "l' < 8" "6 * length js = 8 * length ys + l'"
    "bytes_val ys = nval 64 js div 2 ^ l'"
    using chars_spec [of 0 0 "[]" js dlen pad] assms(2,4) r(3,4) e(3)
    by (auto simp: bytes_val_def nval_def split: if_splits)
  define c where "c = (if l = 0 then 0 else 6 - l)"
  have c: "c < 8" "8 * length ys + l' = 8 * length xs + c"
    using d(3) r(3) e(3) l by (auto simp: c_def split: if_splits)
  then have "(8 * length ys + l') div 8 = (8 * length xs + c) div 8" by simp
  then have "length ys = length xs" using c(1) d(2) by simp
  then have "length ys = length xs \<and> l' = (if l = 0 then 0 else 6 - l)" using c(2) by (simp add: c_def)
  then have "ys = xs" using d(4) r(2) by (intro bytes_val_inj) (auto split: if_splits)
  then show ?thesis using enc d(1) assms(2) by (auto simp: switch_b64_decode_def put_char_def)
qed

theorem b64_roundtrip_witness:
  "\<exists>txt. switch_b64_encode [0, 255, 16, 131] 20 = Inr txt \<and> switch_b64_decode txt 20 = Inr (5, [0, 255, 16, 131])"
proof -
  have l: "length [0, 255, 16, 131 :: byte] + 1 = 5" by simp
  from b64_roundtrip [of "[0, 255, 16, 131]" 20 20] show ?thesis unfolding l by (simp add: size_max_def)
qed

text \<open>\<open>switch_url_encode\<close> never leaves its buffer and never cuts an escape in two: it writes the encoding
  of the longest prefix it can, of the whole text when that fits, and decoding gives that prefix back.
  \<open>scan\<close> is the C library's \<open>sscanf\<close> of two hexadecimal digits.\<close>

theorem url_encode_decode:
  assumes "scans_hex scan" "0 < len" "len < size_max"
  shows "\<exists>txt k. switch_url_encode s len = Inr txt \<and> length txt < len \<and> switch_url_decode scan txt = take k s \<and>
    (length (url_text s) < len \<longrightarrow> take k s = s)"
proof -
  obtain k where k: "url_loop (len - 1) s [] = url_text (take k s)" "length (url_text (take k s)) \<le> len - 1"
    "length (url_text s) \<le> len - 1 \<longrightarrow> take k s = s"
    using url_loop_prefix [of "[]" "len - 1" s] by auto
  then have "switch_url_encode s len = Inr (url_text (take k s))"
    using assms(2,3) by (simp add: switch_url_encode_def size_sub_no_wrap Let_def)
  then show ?thesis using k assms url_decode_text by (intro exI [of _ "url_text (take k s)"] exI [of _ k]) auto
qed

definition scan_two :: "string \<Rightarrow> nat option" where
  "scan_two s =
     (case s of a # b # _ \<Rightarrow> (case (index_of a hex_digits, index_of b hex_digits) of (Some i, Some j) \<Rightarrow> Some (16 * i + j) | _ \<Rightarrow> None)
      | _ \<Rightarrow> None)"

lemma scan_two_ok: "scans_hex scan_two"
proof -
  have "\<forall>i \<in> set [0..<16]. index_of (hex_digits ! i) hex_digits = Some i" by code_simp
  then show ?thesis by (simp add: scans_hex_def scan_two_def)
qed

theorem url_encode_decode_witness:
  "\<exists>txt k. switch_url_encode ''a b'' 10 = Inr txt \<and> switch_url_decode scan_two txt = take k ''a b'' \<and> take k ''a b'' = ''a b''"
proof -
  have "length (url_text ''a b'') < 10" by code_simp
  then show ?thesis using url_encode_decode [OF scan_two_ok, of 10 "''a b''"] by (auto simp: size_max_def)
qed

text \<open>\<open>switch_amp_encode\<close> stays inside its buffer for every input; the output is the whole encoded text
  with its terminating NUL when two bytes are left for it, and otherwise has no NUL at all.\<close>

theorem amp_encode_outcome:
  assumes "CHR 0x00 \<notin> set s" "0 < len" "len < size_max"
  shows "length (switch_amp_encode s len) < len \<and>
    (if length (amp_text s) + 1 < len then switch_amp_encode s len = amp_text s @ [CHR 0x00]
     else CHR 0x00 \<notin> set (switch_amp_encode s len))"
  using amp_loop_spec [OF assms(1), of "[]" len] assms(2,3) by (simp add: switch_amp_encode_def Let_def)

theorem amp_encode_outcome_witness:
  "switch_amp_encode ''a<b'' 9 = amp_text ''a<b'' @ [CHR 0x00] \<and> CHR 0x00 \<notin> set (switch_amp_encode ''a<b'' 7)"
proof -
  have l: "length (amp_text ''a<b'') = 6" by code_simp
  show ?thesis using amp_encode_outcome [of "''a<b''" 9] amp_encode_outcome [of "''a<b''" 7] l by (simp add: size_max_def)
qed

end
