(* ===== verification/Network_List.thy ===== *)
theory Network_List
  imports Separate C_String
begin

unbundle bit_operations_syntax

text \<open>
  Access lists, src/switch\_utils.c: networks in CIDR notation with a verdict each, and the verdict of
  the most specific network an address is in. \<open>ip_t\<close> is a union of a 32-bit number and a 16-byte IPv6
  address, modelled as its 16 bytes; the number is the first four, little-endian. \<open>pton4\<close> and \<open>pton6\<close>
  are the C library's \<open>inet_pton\<close>, with the bytes in network order; the code does not look at its
  result, so that what it leaves alone when it fails is whatever the memory held, the parameter \<open>junk\<close>.
  Shifting a 32-bit number by 32 is undefined in C; \<open>ones_shr_32\<close> is what the processor makes of it.
\<close>

section \<open>Data\<close>

datatype af = AF_UNSPEC | AF_INET | AF_INET6

type_synonym ip_t = "byte list"

definition ip_v4 :: "ip_t \<Rightarrow> uint32" where
  "ip_v4 ip = load_le (take 4 ip)"

record network_node =
  nn_ip :: ip_t
  nn_mask :: ip_t
  nn_bits :: uint32
  nn_family :: af
  nn_ok :: bool
  nn_token :: "string option"
  nn_str :: string

record network_list =
  nl_nodes :: "network_node list"
  nl_default :: bool
  nl_name :: string

record inet_env =
  pton4 :: "string \<Rightarrow> byte list option"
  pton6 :: "string \<Rightarrow> byte list option"
  ip_junk :: "byte list"
  mask_junk :: "byte list"
  ones_shr_32 :: uint32

definition switch_network_list_create :: "string \<Rightarrow> bool \<Rightarrow> network_list" where
  "switch_network_list_create name default_type = \<lparr>nl_nodes = [], nl_default = default_type, nl_name = name\<rparr>"

section \<open>Matching\<close>

definition switch_test_subnet :: "uint32 \<Rightarrow> uint32 \<Rightarrow> uint32 \<Rightarrow> bool" where
  "switch_test_subnet ip net msk =
     (if msk \<noteq> 0 then net AND msk = ip AND msk else if net \<noteq> 0 then net = ip else True)"

definition unspecified :: "ip_t \<Rightarrow> bool" where
  "unspecified ip \<longleftrightarrow> (\<forall>b \<in> set ip. b = 0)"

definition switch_testv6_subnet :: "ip_t \<Rightarrow> ip_t \<Rightarrow> ip_t \<Rightarrow> bool" where
  "switch_testv6_subnet ip net msk =
     (if \<not> unspecified msk then map2 (AND) net msk = map2 (AND) ip msk
      else if \<not> unspecified net then net = ip else True)"

text \<open>The state of the loop: verdict, most bits so far, token written.\<close>

fun best_node :: "(network_node \<Rightarrow> bool) \<Rightarrow> network_node list \<Rightarrow> bool \<times> uint32 \<times> string option option \<Rightarrow>
    bool \<times> uint32 \<times> string option option" where
  "best_node hit [] st = st"
| "best_node hit (n # ns) (ok, bits, tok) =
     (if nn_bits n > bits \<and> hit n then best_node hit ns (nn_ok n, nn_bits n, Some (nn_token n))
      else best_node hit ns (ok, bits, tok))"

definition v4_hit :: "uint32 \<Rightarrow> network_node \<Rightarrow> bool" where
  "v4_hit ip n \<longleftrightarrow> nn_family n \<noteq> AF_INET6 \<and> switch_test_subnet ip (ip_v4 (nn_ip n)) (ip_v4 (nn_mask n))"

definition v6_hit :: "ip_t \<Rightarrow> network_node \<Rightarrow> bool" where
  "v6_hit ip n \<longleftrightarrow> nn_family n \<noteq> AF_INET \<and> switch_testv6_subnet ip (nn_ip n) (nn_mask n)"

definition switch_network_list_validate_ip_token :: "network_list \<Rightarrow> uint32 \<Rightarrow> bool \<times> string option option" where
  "switch_network_list_validate_ip_token nl ip =
     (case best_node (v4_hit ip) (nl_nodes nl) (nl_default nl, 0, None) of (ok, _, tok) \<Rightarrow> (ok, tok))"

definition switch_network_list_validate_ip6_token :: "network_list \<Rightarrow> ip_t \<Rightarrow> bool \<times> string option option" where
  "switch_network_list_validate_ip6_token nl ip =
     (case best_node (v6_hit ip) (nl_nodes nl) (nl_default nl, 0, None) of (ok, _, tok) \<Rightarrow> (ok, tok))"

section \<open>Building lists\<close>

definition htonl_bytes :: "ip_t \<Rightarrow> ip_t" where
  "htonl_bytes ip = rev (take 4 ip) @ drop 4 ip"

definition write_prefix :: "byte list \<Rightarrow> byte list \<Rightarrow> byte list" where
  "write_prefix new old = new @ drop (length new) old"

text \<open>\<open>switch_inet_pton\<close> into a block: nothing is written when the text is no address.\<close>

definition pton_into :: "byte list option \<Rightarrow> byte list \<Rightarrow> byte list" where
  "pton_into r old = (case r of Some bs \<Rightarrow> write_prefix bs old | None \<Rightarrow> old)"

fun v6_mask :: "nat \<Rightarrow> nat \<Rightarrow> byte list" where
  "v6_mask n 0 = []"
| "v6_mask n (Suc i) =
     (if n \<ge> 8 then 0xFF # v6_mask (n - 8) i else (0xFF AND NOT (drop_bit n 0xFF)) # v6_mask 0 i)"

definition v4_mask :: "uint32 \<Rightarrow> nat \<Rightarrow> uint32" where
  "v4_mask ones32 bits = 0xFFFFFFFF AND NOT (if bits < 32 then drop_bit bits 0xFFFFFFFF else ones32)"

definition switch_parse_cidr :: "inet_env \<Rightarrow> string \<Rightarrow> int + ip_t \<times> ip_t \<times> uint32" where
  "switch_parse_cidr env s =
     (let host = take 126 s in
      if CHR ''/'' \<notin> set host then Inl (-1)
      else let bits = atoi (tl (dropWhile (\<lambda>c. c \<noteq> CHR ''/'') host));
               h = takeWhile (\<lambda>c. c \<noteq> CHR ''/'') host in
        if CHR '':'' \<in> set s then
          if bits < 0 \<or> bits > 128 then Inl (-2)
          else Inr (pton_into (pton6 env h) (ip_junk env), v6_mask (nat bits) 16, word_of_int bits)
        else if bits < 0 \<or> bits > 32 then Inl (-2)
        else Inr (htonl_bytes (pton_into (pton4 env h) (ip_junk env)),
                  write_prefix (store_le 4 (v4_mask (ones_shr_32 env) (nat bits))) (mask_junk env),
                  word_of_int bits))"

definition switch_network_list_perform_add_cidr_token ::
  "inet_env \<Rightarrow> network_list \<Rightarrow> string \<Rightarrow> bool \<Rightarrow> string option \<Rightarrow> switch_status \<times> network_list" where
  "switch_network_list_perform_add_cidr_token env nl cidr_str ok token =
     (case switch_parse_cidr env cidr_str of
        Inl _ \<Rightarrow> (SWITCH_STATUS_GENERR, nl)
      | Inr (ip, msk, bits) \<Rightarrow>
          (SWITCH_STATUS_SUCCESS,
           nl\<lparr>nl_nodes := \<lparr>nn_ip = ip, nn_mask = msk, nn_bits = bits,
                nn_family = (if CHR '':'' \<in> set cidr_str then AF_INET6 else AF_INET), nn_ok = ok,
                nn_token = (case token of Some t \<Rightarrow> if t = [] then None else Some t | None \<Rightarrow> None),
                nn_str = cidr_str\<rparr> # nl_nodes nl\<rparr>))"

fun add_cidrs :: "inet_env \<Rightarrow> network_list \<Rightarrow> string list \<Rightarrow> bool \<Rightarrow> string option \<Rightarrow> switch_status \<Rightarrow> switch_status \<times> network_list" where
  "add_cidrs env nl [] ok token status = (status, nl)"
| "add_cidrs env nl (c # cs) ok token status =
     (case switch_network_list_perform_add_cidr_token env nl c ok token of
        (this_status, nl') \<Rightarrow> add_cidrs env nl' cs ok token (if this_status \<noteq> SWITCH_STATUS_SUCCESS then this_status else status))"

definition switch_network_list_add_cidr_token ::
  "inet_env \<Rightarrow> network_list \<Rightarrow> string \<Rightarrow> bool \<Rightarrow> string option \<Rightarrow> fault + switch_status \<times> network_list" where
  "switch_network_list_add_cidr_token env nl cidr_str ok token =
     (if CHR '','' \<in> set cidr_str
      then fbind (switch_separate_string cidr_str (CHR '','') 32) (\<lambda>argv. Inr (add_cidrs env nl argv ok token SWITCH_STATUS_SUCCESS))
      else Inr (switch_network_list_perform_add_cidr_token env nl cidr_str ok token))"

definition mask_bits :: "uint32 \<Rightarrow> uint32" where
  "mask_bits v0 =
     (let v1 = v0 - (drop_bit 1 v0 AND 0x55555555);
          v2 = (v1 AND 0x33333333) + (drop_bit 2 v1 AND 0x33333333)
      in drop_bit 24 (((v2 + drop_bit 4 v2) AND 0x0F0F0F0F) * 0x01010101))"

text \<open>The node comes from zeroed memory, so its other bytes and its family are zero.\<close>

definition switch_network_list_add_host_mask ::
  "inet_env \<Rightarrow> network_list \<Rightarrow> string \<Rightarrow> string \<Rightarrow> bool \<Rightarrow> switch_status \<times> network_list" where
  "switch_network_list_add_host_mask env nl host mask_str ok =
     (let ip = pton_into (pton4 env host) (ip_junk env);
          msk = pton_into (pton4 env mask_str) (mask_junk env) in
      (SWITCH_STATUS_SUCCESS,
       nl\<lparr>nl_nodes := \<lparr>nn_ip = rev (take 4 ip) @ replicate 12 0, nn_mask = rev (take 4 msk) @ replicate 12 0,
            nn_bits = mask_bits (ip_v4 msk), nn_family = AF_UNSPEC, nn_ok = ok, nn_token = None,
            nn_str = host @ '':'' @ mask_str\<rparr> # nl_nodes nl\<rparr>))"

section \<open>The most specific network\<close>

text \<open>The first of the nodes with the most bits among those that hit.\<close>

definition most_specific :: "network_node list \<Rightarrow> network_node option" where
  "most_specific M = find (\<lambda>n. \<forall>m \<in> set M. nn_bits m \<le> nn_bits n) M"

lemma find_in_filter:
  assumes "\<And>x. x \<in> set xs \<Longrightarrow> p x \<Longrightarrow> q x"
  shows "find p (filter q xs) = find p xs"
  using assms by (induction xs) auto

lemma most_specific_Cons:
  assumes "M1 = filter (\<lambda>m. nn_bits n < nn_bits m) M0"
  shows "most_specific (n # M0) = (case most_specific M1 of None \<Rightarrow> Some n | Some m \<Rightarrow> Some m)"
proof (cases "M1 = []")
  case True
  then have "\<forall>m \<in> set M0. nn_bits m \<le> nn_bits n" using assms by (auto simp: filter_empty_conv not_less)
  then show ?thesis using True by (simp add: most_specific_def)
next
  case False
  then obtain b where b: "b \<in> set M0" "nn_bits n < nn_bits b" using assms by (auto simp: filter_empty_conv)
  let ?p = "\<lambda>x. \<forall>m \<in> set (n # M0). nn_bits m \<le> nn_bits x"
  have "find ?p (n # M0) = find ?p M0" using b by (auto simp: not_le)
  also have "\<dots> = find ?p M1"
    unfolding assms by (rule find_in_filter [symmetric]) (use b in \<open>auto dest: less_le_trans\<close>)
  also have "\<dots> = find (\<lambda>x. \<forall>m \<in> set M1. nn_bits m \<le> nn_bits x) M1"
  proof (rule find_cong)
    fix x assume "x \<in> set M1"
    then have "nn_bits n < nn_bits x" using assms by simp
    then show "?p x = (\<forall>m \<in> set M1. nn_bits m \<le> nn_bits x)"
      unfolding assms by (auto simp: less_imp_le)
  qed simp
  finally have e: "most_specific (n # M0) = most_specific M1" by (simp add: most_specific_def)
  have "\<exists>x \<in> set M1. \<forall>m \<in> set M1. nn_bits m \<le> nn_bits x"
  proof -
    have "Max (nn_bits ` set M1) \<in> nn_bits ` set M1" using False by (intro Max_in) auto
    then obtain x where "x \<in> set M1" "nn_bits x = Max (nn_bits ` set M1)" by (metis imageE)
    then show ?thesis by (intro bexI [of _ x]) (simp_all add: Max_ge)
  qed
  then have "most_specific M1 \<noteq> None" by (auto simp: most_specific_def find_None_iff)
  then show ?thesis using e by auto
qed

lemma best_node_spec:
  "best_node hit ns (ok, bits, tok) =
     (case most_specific (filter (\<lambda>n. bits < nn_bits n \<and> hit n) ns) of
        None \<Rightarrow> (ok, bits, tok) | Some n \<Rightarrow> (nn_ok n, nn_bits n, Some (nn_token n)))"
proof (induction ns arbitrary: ok bits tok)
  case (Cons n ns)
  show ?case
  proof (cases "bits < nn_bits n \<and> hit n")
    case True
    let ?M0 = "filter (\<lambda>m. bits < nn_bits m \<and> hit m) ns"
    have "filter (\<lambda>m. nn_bits n < nn_bits m \<and> hit m) ns = filter (\<lambda>m. nn_bits n < nn_bits m) ?M0"
      using True by (auto intro!: filter_cong simp: dest: less_trans)
    then show ?thesis
      using True Cons.IH [of "nn_ok n" "nn_bits n" "Some (nn_token n)"] most_specific_Cons [of _ n ?M0]
      by (auto split: option.splits)
  next
    case False
    then show ?thesis by (auto simp: Cons.IH)
  qed
qed (simp add: most_specific_def)

section \<open>Masks\<close>

lemma uint32_eq: "a = b \<longleftrightarrow> (\<forall>k < 32. bit a k = bit b k)" for a b :: uint32
  by (auto intro: bit_word_eqI)

lemma all_ones: "(0xFFFFFFFF :: uint32) = - 1"
  by simp

lemma v4_mask_bit: "bits < 32 \<Longrightarrow> k < 32 \<Longrightarrow> bit (v4_mask ones32 bits) k \<longleftrightarrow> 32 - bits \<le> k"
  unfolding v4_mask_def all_ones by (auto simp: bit_simps)

text \<open>Two addresses agree on the first \<open>n\<close> bits.\<close>

definition same_net4 :: "nat \<Rightarrow> uint32 \<Rightarrow> uint32 \<Rightarrow> bool" where
  "same_net4 n a b \<longleftrightarrow> (\<forall>i < n. bit a (31 - i) = bit b (31 - i))"

lemma and_mask_eq:
  assumes "bits < 32"
  shows "a AND v4_mask ones32 bits = b AND v4_mask ones32 bits \<longleftrightarrow> same_net4 bits a b"
proof -
  have "a AND v4_mask ones32 bits = b AND v4_mask ones32 bits \<longleftrightarrow> (\<forall>k < 32. 32 - bits \<le> k \<longrightarrow> bit a k = bit b k)"
    using v4_mask_bit [OF assms] by (auto simp: uint32_eq bit_simps)
  also have "\<dots> \<longleftrightarrow> same_net4 bits a b"
  proof
    assume h: "\<forall>k < 32. 32 - bits \<le> k \<longrightarrow> bit a k = bit b k"
    have "bit a (31 - i) = bit b (31 - i)" if "i < bits" for i
      using h [rule_format, of "31 - i"] assms that by simp
    then show "same_net4 bits a b" by (simp add: same_net4_def)
  next
    assume h: "same_net4 bits a b"
    have "bit a k = bit b k" if "k < 32" "32 - bits \<le> k" for k
      using h that assms unfolding same_net4_def by (auto dest!: spec [of _ "31 - k"])
    then show "\<forall>k < 32. 32 - bits \<le> k \<longrightarrow> bit a k = bit b k" by blast
  qed
  finally show ?thesis .
qed

lemma same_net4_all: "same_net4 32 a b \<longleftrightarrow> a = b"
proof
  assume h: "same_net4 32 a b"
  have "bit a k = bit b k" if "k < 32" for k
    using h that unfolding same_net4_def by (auto dest!: spec [of _ "31 - k"])
  then show "a = b" by (simp add: uint32_eq)
qed (simp add: same_net4_def)

lemma v4_mask_zero: "0 < bits \<Longrightarrow> bits < 32 \<Longrightarrow> v4_mask ones32 bits \<noteq> 0"
  using v4_mask_bit [of bits 31 ones32] by auto

lemma test_subnet_cidr:
  assumes "0 < bits" "bits \<le> 32" "bits = 32 \<longrightarrow> ones32 = 0 \<or> ones32 = - 1 \<and> net \<noteq> 0"
  shows "switch_test_subnet ip net (v4_mask ones32 bits) \<longleftrightarrow> same_net4 bits net ip"
proof (cases "bits < 32")
  case True
  then show ?thesis using and_mask_eq [OF True] v4_mask_zero [OF assms(1) True] by (simp add: switch_test_subnet_def)
next
  case False
  then have b: "bits = 32" using assms(2) by simp
  then have "v4_mask ones32 bits = (if ones32 = 0 then - 1 else 0)" using assms(3) by (auto simp: v4_mask_def)
  then show ?thesis using b assms(3) same_net4_all by (auto simp: switch_test_subnet_def)
qed

lemma v6_mask_length [simp]: "length (v6_mask n i) = i"
  by (induction n i rule: v6_mask.induct) simp_all

lemma byte_ones: "(0xFF :: byte) = - 1"
  by simp

lemma v6_mask_bit: "j < i \<Longrightarrow> k < 8 \<Longrightarrow> bit (v6_mask n i ! j) k \<longleftrightarrow> 8 * j + (7 - k) < n"
proof (induction n i arbitrary: j rule: v6_mask.induct)
  case (2 n i)
  show ?case
  proof (cases "n \<ge> 8")
    case True
    then show ?thesis using 2 by (cases j) (auto simp: byte_ones bit_minus_1_iff)
  next
    case False
    then show ?thesis using 2 by (cases j) (auto simp: byte_ones bit_simps)
  qed
qed simp

definition same_net6 :: "nat \<Rightarrow> ip_t \<Rightarrow> ip_t \<Rightarrow> bool" where
  "same_net6 n a b \<longleftrightarrow> (\<forall>i < n. bit (a ! (i div 8)) (7 - i mod 8) = bit (b ! (i div 8)) (7 - i mod 8))"

lemma byte_and_eq: "x AND m = y AND m \<longleftrightarrow> (\<forall>k < 8. bit m k \<longrightarrow> bit x k = bit y k)" for x y m :: byte
proof -
  have "x = y \<longleftrightarrow> (\<forall>k < 8. bit x k = bit y k)" for x y :: byte by (auto intro: bit_word_eqI)
  then show ?thesis by (auto simp: bit_simps)
qed

lemma and_mask6_eq:
  assumes "length a = 16" "length b = 16" "n \<le> 128"
  shows "map2 (AND) a (v6_mask n 16) = map2 (AND) b (v6_mask n 16) \<longleftrightarrow> same_net6 n a b"
proof -
  have "map2 (AND) a (v6_mask n 16) = map2 (AND) b (v6_mask n 16) \<longleftrightarrow>
      (\<forall>j < 16. a ! j AND v6_mask n 16 ! j = b ! j AND v6_mask n 16 ! j)"
    using assms by (simp add: list_eq_iff_nth_eq)
  also have "\<dots> \<longleftrightarrow> (\<forall>j < 16. \<forall>k < 8. 8 * j + (7 - k) < n \<longrightarrow> bit (a ! j) k = bit (b ! j) k)"
    by (simp add: byte_and_eq v6_mask_bit)
  also have "\<dots> \<longleftrightarrow> same_net6 n a b"
  proof
    assume h: "\<forall>j < 16. \<forall>k < 8. 8 * j + (7 - k) < n \<longrightarrow> bit (a ! j) k = bit (b ! j) k"
    have "bit (a ! (i div 8)) (7 - i mod 8) = bit (b ! (i div 8)) (7 - i mod 8)" if "i < n" for i
    proof -
      have "i mod 8 < 8" by simp
      then have "8 * (i div 8) + (7 - (7 - i mod 8)) = i" by simp
      then show ?thesis using h [rule_format, of "i div 8" "7 - i mod 8"] that assms(3) by simp
    qed
    then show "same_net6 n a b" by (simp add: same_net6_def)
  next
    assume h: "same_net6 n a b"
    have "bit (a ! j) k = bit (b ! j) k" if "k < 8" "8 * j + (7 - k) < n" for j k
    proof -
      define r where "r = 7 - k"
      have r: "r < 8" "k = 7 - r" using that(1) by (auto simp: r_def)
      then have d: "(8 * j + (7 - k)) div 8 = j" "7 - (8 * j + (7 - k)) mod 8 = k" by (simp_all flip: r_def)
      show ?thesis using h that(2) unfolding same_net6_def by (metis d)
    qed
    then show "\<forall>j < 16. \<forall>k < 8. 8 * j + (7 - k) < n \<longrightarrow> bit (a ! j) k = bit (b ! j) k" by blast
  qed
  finally show ?thesis .
qed

lemma test_subnet_cidr6:
  assumes "length ip = 16" "length net = 16" "0 < n" "n \<le> 128"
  shows "switch_testv6_subnet ip net (v6_mask n 16) \<longleftrightarrow> same_net6 n net ip"
proof -
  have "bit (v6_mask n 16 ! 0) 7" using v6_mask_bit [of 0 16 7 n] assms(3) by simp
  then have "v6_mask n 16 ! 0 \<noteq> 0" by auto
  then have "\<not> unspecified (v6_mask n 16)" unfolding unspecified_def by (metis nth_mem v6_mask_length zero_less_numeral)
  then show ?thesis using and_mask6_eq assms by (simp add: switch_testv6_subnet_def)
qed

lemma parse_v4:
  assumes "switch_parse_cidr env s = Inr (ip, msk, bits)" "CHR '':'' \<notin> set s"
  obtains n where "n \<le> 32" "bits = of_nat n" "ip_v4 msk = v4_mask (ones_shr_32 env) n"
proof -
  define z where "z = atoi (tl (dropWhile (\<lambda>c. c \<noteq> CHR ''/'') (take 126 s)))"
  have z: "\<not> (z < 0 \<or> z > 32)" "bits = word_of_int z"
    "msk = write_prefix (store_le 4 (v4_mask (ones_shr_32 env) (nat z))) (mask_junk env)"
    using assms unfolding switch_parse_cidr_def Let_def z_def by (auto split: if_splits)
  have "ip_v4 msk = v4_mask (ones_shr_32 env) (nat z)"
    using load_store_le [of 4, where 'a = 32] unfolding z(3) ip_v4_def write_prefix_def by (simp add: store_le_def)
  moreover have "nat z \<le> 32" using z(1) by linarith
  ultimately show ?thesis using that [of "nat z"] z(1,2) by simp
qed

lemma parse_v6:
  assumes "switch_parse_cidr env s = Inr (ip, msk, bits)" "CHR '':'' \<in> set s"
  obtains n where "n \<le> 128" "bits = of_nat n" "msk = v6_mask n 16"
proof -
  define z where "z = atoi (tl (dropWhile (\<lambda>c. c \<noteq> CHR ''/'') (take 126 s)))"
  have z: "\<not> (z < 0 \<or> z > 128)" "bits = word_of_int z" "msk = v6_mask (nat z) 16"
    using assms unfolding switch_parse_cidr_def Let_def z_def by (auto split: if_splits)
  then have "nat z \<le> 128" by linarith
  then show ?thesis using that [of "nat z"] z by simp
qed

text \<open>A node put in front of a list: it decides when it hits and nothing more specific does.\<close>

lemma front_node:
  assumes "0 < nn_bits n"
  shows "hit n \<Longrightarrow> \<forall>m \<in> set ns. hit m \<longrightarrow> nn_bits m \<le> nn_bits n \<Longrightarrow>
      best_node hit (n # ns) (d, 0, None) = (nn_ok n, nn_bits n, Some (nn_token n))"
    "\<not> hit n \<Longrightarrow> best_node hit (n # ns) st = best_node hit ns st"
proof -
  assume h: "hit n" "\<forall>m \<in> set ns. hit m \<longrightarrow> nn_bits m \<le> nn_bits n"
  then have "filter (\<lambda>m. nn_bits n < nn_bits m \<and> hit m) ns = []" by (auto simp: filter_empty_conv)
  then show "best_node hit (n # ns) (d, 0, None) = (nn_ok n, nn_bits n, Some (nn_token n))"
    using h(1) assms by (simp add: best_node_spec [of hit ns] most_specific_def)
qed (cases st; simp)

section \<open>Counting the bits of a mask\<close>

definition popcount :: "uint32 \<Rightarrow> nat" where
  "popcount w = length (filter (bit w) [0..<32])"

definition byte_pop :: "nat \<Rightarrow> nat" where
  "byte_pop x = length (filter (bit x) [0, 1, 2, 3, 4, 5, 6, 7])"

definition pop_step1 :: "nat \<Rightarrow> nat" where "pop_step1 x = x - (x div 2 AND 0x55)"
definition pop_step2 :: "nat \<Rightarrow> nat" where "pop_step2 x = (x AND 0x33) + (x div 4 AND 0x33)"
definition pop_step3 :: "nat \<Rightarrow> nat" where "pop_step3 x = x mod 16 + x div 16"

definition pop_ok :: "nat \<Rightarrow> bool" where
  "pop_ok x \<longleftrightarrow> (x div 2 AND 0x55) \<le> x \<and> pop_step1 x < 256 \<and> pop_step2 (pop_step1 x) < 256 \<and>
     pop_step2 (pop_step1 x) mod 16 \<le> 4 \<and> pop_step2 (pop_step1 x) div 16 \<le> 4 \<and>
     pop_step3 (pop_step2 (pop_step1 x)) = byte_pop x"

lemma pop_ok_bits:
  "pop_ok (of_bool b0 + 2 * of_bool b1 + 4 * of_bool b2 + 8 * of_bool b3 + 16 * of_bool b4 + 32 * of_bool b5 +
     64 * of_bool b6 + 128 * of_bool b7)"
  by (cases b0; cases b1; cases b2; cases b3; cases b4; cases b5; cases b6; cases b7)
    (simp_all add: pop_ok_def pop_step1_def pop_step2_def pop_step3_def byte_pop_def bit_Suc_0_iff numeral_2_eq_2 [symmetric] numeral_3_eq_3 [symmetric])

lemma pop_ok_byte: "x < 256 \<Longrightarrow> pop_ok x"
proof -
  assume x: "x < 256"
  have l: "[0..<8] = [0, 1, 2, 3, 4, 5, 6, 7 :: nat]" by code_simp
  have "x = horner_sum of_bool 2 (map (bit x) [0..<8])"
    using x by (simp only: horner_sum_bit_eq_take_bit) (simp add: take_bit_nat_eq_self)
  also have "\<dots> = of_bool (bit x 0) + 2 * of_bool (bit x 1) + 4 * of_bool (bit x 2) + 8 * of_bool (bit x 3) +
     16 * of_bool (bit x 4) + 32 * of_bool (bit x 5) + 64 * of_bool (bit x 6) + 128 * of_bool (bit x 7)"
    unfolding l by (simp only: list.map horner_sum_simps) (simp add: algebra_simps del: of_bool_eq_iff)
  finally show ?thesis using pop_ok_bits by metis
qed

lemma and_low: "c < 2 ^ m \<Longrightarrow> u < 2 ^ m \<Longrightarrow> (u + 2 ^ m * t) AND c = u AND c" for c u t :: nat
proof -
  assume "c < 2 ^ m" "u < 2 ^ m"
  then have c: "take_bit m c = c" and u: "take_bit m (u + 2 ^ m * t) = u"
    by (simp_all add: take_bit_nat_eq_self take_bit_eq_mod)
  have "(u + 2 ^ m * t) AND c = (u + 2 ^ m * t) AND take_bit m c" by (simp only: c)
  also have "\<dots> = take_bit m (u + 2 ^ m * t) AND take_bit m c"
    by (rule bit_eqI) (auto simp: bit_simps)
  finally show ?thesis by (simp only: c u)
qed

lemma lanes_shift_and:
  assumes "is_lanes xs" "k + m = 8" "c < 2 ^ m"
  shows "lanes_val xs div 2 ^ k AND lanes_val (replicate (length xs) c) = lanes_val (map (\<lambda>b. b div 2 ^ k AND c) xs)"
  using assms(1)
proof (induction xs)
  case (Cons x xs)
  let ?X = "lanes_val xs"
  have km: "(256 :: nat) = 2 ^ k * 2 ^ m" using assms(2) by (simp flip: power_add)
  have c: "c < 256"
  proof -
    have "(2 :: nat) ^ m \<le> 2 ^ 8" using assms(2) by (intro power_increasing) auto
    then show ?thesis using assms(3) by simp
  qed
  have u: "x div 2 ^ k < 2 ^ m" using Cons.prems km by (simp add: less_mult_imp_div_less mult.commute)
  have "(x + 256 * ?X) div 2 ^ k = (x + 2 ^ m * ?X * 2 ^ k) div 2 ^ k" by (simp add: km ac_simps)
  also have "\<dots> = x div 2 ^ k + 2 ^ m * ?X" by simp
  also have "\<dots> = (x div 2 ^ k + 2 ^ m * (?X mod 2 ^ k)) + 256 * (?X div 2 ^ k)"
  proof -
    define q r where "q = ?X div 2 ^ k" and "r = ?X mod 2 ^ k"
    have "?X = r + 2 ^ k * q" by (simp add: q_def r_def)
    then have "2 ^ m * ?X = 2 ^ m * r + 2 ^ k * 2 ^ m * q" by (simp add: algebra_simps)
    then show ?thesis unfolding km q_def r_def by simp
  qed
  finally have s: "(x + 256 * ?X) div 2 ^ k = (x div 2 ^ k + 2 ^ m * (?X mod 2 ^ k)) + 256 * (?X div 2 ^ k)" .
  have "x div 2 ^ k + 2 ^ m * (?X mod 2 ^ k) < 256"
  proof -
    have "?X mod 2 ^ k + 1 \<le> 2 ^ k" by (simp add: Suc_leI)
    then have "2 ^ m * (?X mod 2 ^ k + 1) \<le> 256" unfolding km by (metis mult.commute mult_le_mono2)
    then show ?thesis using u by simp
  qed
  then show ?case
    using Cons and_lane [OF _ c] and_low [OF assms(3) u] by (simp add: s)
qed simp

lemma lanes_nibble_sum:
  assumes "\<forall>b \<in> set xs. b < 256 \<and> b mod 16 \<le> 4 \<and> b div 16 \<le> 4"
  shows "(lanes_val xs + lanes_val xs div 16) AND lanes_val (replicate (length xs) 15) = lanes_val (map pop_step3 xs)"
  using assms
proof (induction xs)
  case (Cons x xs)
  let ?X = "lanes_val xs"
  have X: "?X mod 16 \<le> 4"
  proof (cases xs)
    case (Cons y ys)
    then have "?X mod 16 = y mod 16" by (simp add: mod_add_right_eq [symmetric, of _ _ 16] mod_mult_left_eq [symmetric])
    then show ?thesis using Cons.prems Cons by simp
  qed simp
  have x: "x mod 16 \<le> 4" "x div 16 \<le> 4" using Cons.prems by simp_all
  have xx: "x = x mod 16 + 16 * (x div 16)" by simp
  have "(x + 256 * ?X) div 16 = x div 16 + 16 * ?X" by simp
  also have "\<dots> = x div 16 + 16 * (?X mod 16) + 256 * (?X div 16)" using mod_mult_div_eq [of ?X 16] by linarith
  finally have s: "(x + 256 * ?X) + (x + 256 * ?X) div 16 = (x + x div 16 + 16 * (?X mod 16)) + 256 * (?X + ?X div 16)" by simp
  have lt: "x + x div 16 + 16 * (?X mod 16) < 256" using X x xx by linarith
  have "(x + x div 16 + 16 * (?X mod 16)) AND 15 = pop_step3 x"
  proof -
    have e: "x + x div 16 + 16 * (?X mod 16) = (x mod 16 + x div 16) + 2 ^ 4 * (x div 16 + ?X mod 16)" using xx by simp
    have "(x mod 16 + x div 16) AND 15 = (x mod 16 + x div 16) mod 16"
      using and_exp_eq_0_iff_not_bit take_bit_eq_mod [of 4 "x mod 16 + x div 16"] take_bit_eq_mask [of 4 "x mod 16 + x div 16"]
      by (simp add: mask_eq_exp_minus_1)
    then show ?thesis using x unfolding e by (subst and_low) (simp_all add: pop_step3_def)
  qed
  then show ?case using Cons and_lane [OF lt, of 15] by (simp add: s del: distrib_left_numeral)
qed simp

lemma has_lanes_shift_and:
  assumes "has_lanes (w :: uint32) xs" "k + m = 8" "c < 2 ^ m"
  shows "has_lanes (drop_bit k w AND lane_const (length xs) c) (map (\<lambda>b. b div 2 ^ k AND c) xs)"
proof -
  have c: "c < 256"
  proof -
    have "(2 :: nat) ^ m \<le> 2 ^ 8" using assms(2) by (intro power_increasing) auto
    then show ?thesis using assms(3) by simp
  qed
  have "unat (drop_bit k w) = unat w div 2 ^ k" unfolding unat_drop_bit_eq by (simp add: drop_bit_eq_div)
  then have "unat (drop_bit k w AND lane_const (length xs) c) = lanes_val xs div 2 ^ k AND lanes_val (replicate (length xs) c)"
    using assms(1) has_lanes_const [OF assms(1) c] by (simp only: has_lanes_def unsigned_and_eq)
  also have "\<dots> = lanes_val (map (\<lambda>b. b div 2 ^ k AND c) xs)"
    using assms by (intro lanes_shift_and) (auto simp: has_lanes_def)
  finally have v: "unat (drop_bit k w AND lane_const (length xs) c) = lanes_val (map (\<lambda>b. b div 2 ^ k AND c) xs)" .
  have "u AND c \<le> c" for u :: nat by (metis and_nat_def nat_int nat_mono AND_upper2 of_nat_0_le_iff)
  then have "is_lanes (map (\<lambda>b. b div 2 ^ k AND c) xs)" using c by (auto intro: le_less_trans)
  then show ?thesis using v assms(1) by (simp add: has_lanes_def)
qed

lemma bit_lane:
  assumes "has_lanes (w :: uint32) xs" "j < 4" "k < 8"
  shows "bit w (8 * j + k) = bit (xs ! j) k"
proof -
  have "xs ! j = unat w div 256 ^ j mod 256" using assms lanes_nth [of xs j] by (simp add: has_lanes_def)
  also have "\<dots> = take_bit 8 (drop_bit (8 * j) (unat w))" by (simp add: take_bit_eq_mod drop_bit_eq_div power_mult)
  finally have x: "xs ! j = take_bit 8 (drop_bit (8 * j) (unat w))" .
  show ?thesis unfolding x using assms(2,3) by (simp add: bit_simps)
qed

lemma popcount_lanes:
  assumes "has_lanes w xs"
  shows "popcount w = byte_pop (xs ! 0) + byte_pop (xs ! 1) + byte_pop (xs ! 2) + byte_pop (xs ! 3)"
proof -
  have l: "[0..<32] = map ((+) (8 * 0)) [0, 1, 2, 3, 4, 5, 6, 7] @ map ((+) (8 * 1)) [0, 1, 2, 3, 4, 5, 6, 7] @
      map ((+) (8 * 2)) [0, 1, 2, 3, 4, 5, 6, 7] @ map ((+) (8 * 3)) [0, 1, 2, 3, 4, 5, 6, 7 :: nat]" by code_simp
  have b: "length (filter (bit w) (map ((+) (8 * j)) [0, 1, 2, 3, 4, 5, 6, 7])) = byte_pop (xs ! j)" if "j < 4" for j
  proof -
    have "filter (bit w \<circ> (+) (8 * j)) [0, 1, 2, 3, 4, 5, 6, 7] = filter (bit (xs ! j)) [0, 1, 2, 3, 4, 5, 6, 7]"
    proof (rule filter_cong [OF refl])
      fix k :: nat assume "k \<in> set [0, 1, 2, 3, 4, 5, 6, 7]"
      then have "k < 8" by auto
      then show "(bit w \<circ> (+) (8 * j)) k = bit (xs ! j) k" using bit_lane [OF assms that] by simp
    qed
    then show ?thesis by (simp only: filter_map length_map byte_pop_def)
  qed
  show ?thesis unfolding popcount_def l by (simp only: filter_append length_append b)
qed

lemma sum_of_bytes:
  assumes "a + b + c + d < (256 :: nat)"
  shows "(a + 256 * (b + 256 * (c + 256 * d))) * 0x01010101 mod 2 ^ 32 div 2 ^ 24 = a + b + c + d"
proof -
  define R where "R = a + 256 * (a + b) + 65536 * (a + b + c)"
  define K where "K = (b + c + d) + 256 * (c + d) + 65536 * d"
  have R: "R < 2 ^ 24" using assms unfolding R_def by simp
  have "(a + 256 * (b + 256 * (c + 256 * d))) * 0x01010101 = (R + 2 ^ 24 * (a + b + c + d)) + 2 ^ 32 * K"
    unfolding R_def K_def by simp
  moreover have "R + 2 ^ 24 * (a + b + c + d) < 2 ^ 32" using R assms by simp
  ultimately have "(a + 256 * (b + 256 * (c + 256 * d))) * 0x01010101 mod 2 ^ 32 = R + 2 ^ 24 * (a + b + c + d)"
    by (simp only: mod_mult_self2 mod_less)
  then show ?thesis using R by simp
qed

lemma mask_bits_value: "mask_bits w = of_nat (popcount w)"
proof -
  obtain xs where len: "length xs = 4" and w: "has_lanes w xs" using word_lanes [of 4 w] by auto
  obtain a b c d where xs: "xs = [a, b, c, d]" using len by (auto simp: eval_nat_numeral length_Suc_conv)
  have ok: "pop_ok x" if "x \<in> set xs" for x using w that pop_ok_byte by (simp add: has_lanes_def)
  have k: "(0x55555555 :: uint32) = lane_const (length xs) 0x55" "(0x33333333 :: uint32) = lane_const (length xs) 0x33"
    "(0x0F0F0F0F :: uint32) = lane_const (length xs) 15" by (simp_all add: len lane_const_4)
  define v1 where "v1 = w - (drop_bit 1 w AND 0x55555555)"
  define v2 where "v2 = (v1 AND 0x33333333) + (drop_bit 2 v1 AND 0x33333333)"
  have v1: "has_lanes v1 (map pop_step1 xs)"
  proof -
    have "list_all2 (\<le>) (map (\<lambda>b. b div 2 ^ 1 AND 0x55) xs) xs"
      using ok by (simp add: list_all2_conv_all_nth pop_ok_def)
    from has_lanes_diff [OF w has_lanes_shift_and [OF w, of 1 7 "0x55"] this] show ?thesis
      unfolding v1_def k(1) pop_step1_def by (simp add: map2_map_map [of _ "\<lambda>b. b", simplified])
  qed
  have l1: "length (map pop_step1 xs) = length xs" by simp
  have v2: "has_lanes v2 (map (pop_step2 \<circ> pop_step1) xs)"
  proof -
    have s: "map2 (+) (map (\<lambda>b. b div 2 ^ 0 AND 0x33) (map pop_step1 xs)) (map (\<lambda>b. b div 2 ^ 2 AND 0x33) (map pop_step1 xs)) =
        map (pop_step2 \<circ> pop_step1) xs" by (simp add: xs pop_step2_def)
    have "is_lanes (map (pop_step2 \<circ> pop_step1) xs)" using ok by (auto simp: pop_ok_def)
    then show ?thesis
      using has_lanes_add [OF has_lanes_shift_and [OF v1, of 0 8 "0x33"] has_lanes_shift_and [OF v1, of 2 6 "0x33"]]
      unfolding v2_def k(2) l1 s by simp
  qed
  let ?ys = "map (pop_step2 \<circ> pop_step1) xs"
  have ys: "\<forall>b \<in> set ?ys. b < 256 \<and> b mod 16 \<le> 4 \<and> b div 16 \<le> 4" using ok by (auto simp: pop_ok_def)
  have s3: "map pop_step3 ?ys = map byte_pop xs" using ok by (auto simp: pop_ok_def)
  have u2: "unat v2 = lanes_val ?ys" using v2 by (simp add: has_lanes_def)
  have small: "lanes_val ?ys + lanes_val ?ys div 16 < 2 ^ 32"
  proof -
    have y68: "y \<le> 68" if "y \<in> set ?ys" for y
    proof -
      have "y mod 16 \<le> 4" "y div 16 \<le> 4" using ys that by blast+
      then show ?thesis using div_mult_mod_eq [of y 16] by linarith
    qed
    have "(pop_step2 \<circ> pop_step1) a \<le> 68" "(pop_step2 \<circ> pop_step1) b \<le> 68" "(pop_step2 \<circ> pop_step1) c \<le> 68"
      "(pop_step2 \<circ> pop_step1) d \<le> 68" by (rule y68, simp add: xs)+
    then have "lanes_val ?ys \<le> 68 + 256 * (68 + 256 * (68 + 256 * 68))" unfolding xs by simp
    then show ?thesis by simp
  qed
  define v3 where "v3 = (v2 + drop_bit 4 v2) AND 0x0F0F0F0F"
  have "unat (v2 + drop_bit 4 v2) = lanes_val ?ys + lanes_val ?ys div 16"
    using small by (simp add: unat_word_ariths u2 unat_drop_bit_eq drop_bit_eq_div)
  note sum = this
  have c15: "unat (lane_const (length xs) 15 :: uint32) = lanes_val (replicate (length ?ys) 15)"
    using has_lanes_const [OF w, of 15] by (simp only: has_lanes_def length_map)
  have "unat v3 = lanes_val (map byte_pop xs)"
    unfolding v3_def k(3) unsigned_and_eq sum c15 lanes_nibble_sum [OF ys] s3 ..
  then have v3: "unat v3 = byte_pop a + 256 * (byte_pop b + 256 * (byte_pop c + 256 * byte_pop d))" by (simp add: xs)
  have p8: "byte_pop x \<le> 8" for x unfolding byte_pop_def by (rule order.trans [OF length_filter_le]) simp
  have lt: "byte_pop a + byte_pop b + byte_pop c + byte_pop d < 256"
    using p8 [of a] p8 [of b] p8 [of c] p8 [of d] by linarith
  have "unat (drop_bit 24 (v3 * 0x01010101)) = unat v3 * 0x01010101 mod 2 ^ 32 div 2 ^ 24"
    by (simp add: unat_drop_bit_eq drop_bit_eq_div unat_word_ariths)
  also have "\<dots> = popcount w" unfolding v3 sum_of_bytes [OF lt] popcount_lanes [OF w] xs by simp
  finally have "unat (mask_bits w) = popcount w" by (simp only: mask_bits_def Let_def v1_def v2_def v3_def)
  moreover have "(of_nat (unat (mask_bits w)) :: uint32) = mask_bits w" by simp
  ultimately show ?thesis by (simp only:)
qed

section \<open>Lists of networks\<close>

text \<open>
  A network as it is configured: an address in text, \<open>h\<close>, which stands for the bytes \<open>a\<close>, the length \<open>n\<close> of
  the prefix, a verdict and a token.
\<close>

datatype acl_entry =
    Net4 (acl_host: string) (acl_addr: "byte list") (acl_prefix: nat) (acl_allow: bool) (acl_token: "string option")
  | Net6 (acl_host: string) (acl_addr: "byte list") (acl_prefix: nat) (acl_allow: bool) (acl_token: "string option")

definition acl_text :: "acl_entry \<Rightarrow> string" where
  "acl_text e = acl_host e @ CHR ''/'' # decimal (acl_prefix e)"

text \<open>
  \<open>inet_pton\<close> reads the address; the text fits the 126 characters the parser copies; where a shift by 32
  does not clear a number, the IPv4 network 0.0.0.0/32 is excluded, since it matches every address then.
\<close>

fun acl_entry_ok :: "inet_env \<Rightarrow> acl_entry \<Rightarrow> bool" where
  "acl_entry_ok env (Net4 h a n ok t) \<longleftrightarrow>
     CHR ''/'' \<notin> set h \<and> CHR '':'' \<notin> set h \<and> CHR '','' \<notin> set h \<and> length (acl_text (Net4 h a n ok t)) \<le> 126 \<and> t \<noteq> Some [] \<and>
     pton4 env h = Some a \<and> length a = 4 \<and> n \<le> 32 \<and> (n = 32 \<longrightarrow> ones_shr_32 env = 0 \<or> ones_shr_32 env = - 1 \<and> a \<noteq> [0, 0, 0, 0])"
| "acl_entry_ok env (Net6 h a n ok t) \<longleftrightarrow>
     CHR ''/'' \<notin> set h \<and> CHR '':'' \<in> set h \<and> CHR '','' \<notin> set h \<and> length (acl_text (Net6 h a n ok t)) \<le> 126 \<and> t \<noteq> Some [] \<and>
     pton6 env h = Some a \<and> length a = 16 \<and> n \<le> 128"

definition acl_add :: "inet_env \<Rightarrow> acl_entry \<Rightarrow> fault + network_list \<Rightarrow> fault + network_list" where
  "acl_add env e r = fbind r (\<lambda>nl. fbind (switch_network_list_add_cidr_token env nl (acl_text e) (acl_allow e) (acl_token e)) (\<lambda>(_, nl'). Inr nl'))"

text \<open>The first \<open>n\<close> bits of two addresses, most significant bit of the first byte first.\<close>

definition same_prefix :: "nat \<Rightarrow> byte list \<Rightarrow> byte list \<Rightarrow> bool" where
  "same_prefix n a b \<longleftrightarrow> (\<forall>i < n. bit (a ! (i div 8)) (7 - i mod 8) = bit (b ! (i div 8)) (7 - i mod 8))"

fun acl_contains4 :: "byte list \<Rightarrow> acl_entry \<Rightarrow> bool" where
  "acl_contains4 b (Net4 h a n ok t) \<longleftrightarrow> 0 < n \<and> same_prefix n a b"
| "acl_contains4 b (Net6 h a n ok t) \<longleftrightarrow> False"

fun acl_contains6 :: "byte list \<Rightarrow> acl_entry \<Rightarrow> bool" where
  "acl_contains6 b (Net4 h a n ok t) \<longleftrightarrow> False"
| "acl_contains6 b (Net6 h a n ok t) \<longleftrightarrow> 0 < n \<and> same_prefix n a b"

definition acl_verdict :: "bool \<Rightarrow> acl_entry list \<Rightarrow> bool \<times> string option option" where
  "acl_verdict dflt es =
     (case find (\<lambda>e. \<forall>m \<in> set es. acl_prefix m \<le> acl_prefix e) es of
        None \<Rightarrow> (dflt, None)
      | Some e \<Rightarrow> (acl_allow e, Some (acl_token e)))"

text \<open>The node an entry becomes.\<close>

fun acl_node :: "inet_env \<Rightarrow> acl_entry \<Rightarrow> network_node" where
  "acl_node env (Net4 h a n ok t) =
     \<lparr>nn_ip = rev a @ drop 4 (ip_junk env), nn_mask = write_prefix (store_le 4 (v4_mask (ones_shr_32 env) n)) (mask_junk env),
      nn_bits = of_nat n, nn_family = AF_INET, nn_ok = ok, nn_token = t, nn_str = acl_text (Net4 h a n ok t)\<rparr>"
| "acl_node env (Net6 h a n ok t) =
     \<lparr>nn_ip = a, nn_mask = v6_mask n 16, nn_bits = of_nat n, nn_family = AF_INET6, nn_ok = ok, nn_token = t,
      nn_str = acl_text (Net6 h a n ok t)\<rparr>"

lemma decimal_no_sep [simp]: "CHR ''/'' \<notin> set (decimal n)" "CHR '':'' \<notin> set (decimal n)" "CHR '','' \<notin> set (decimal n)"
  using decimal_digits [of n] by (auto simp: list_all_iff is_digit_def char_code_def)

lemma cidr_split:
  assumes "CHR ''/'' \<notin> set h"
  shows "takeWhile (\<lambda>c. c \<noteq> CHR ''/'') (h @ CHR ''/'' # r) = h" "tl (dropWhile (\<lambda>c. c \<noteq> CHR ''/'') (h @ CHR ''/'' # r)) = r"
proof -
  have "\<forall>c \<in> set h. c \<noteq> CHR ''/''" using assms by auto
  then show "takeWhile (\<lambda>c. c \<noteq> CHR ''/'') (h @ CHR ''/'' # r) = h" "tl (dropWhile (\<lambda>c. c \<noteq> CHR ''/'') (h @ CHR ''/'' # r)) = r"
    by simp_all
qed

lemma acl_add_node:
  assumes "acl_entry_ok env e" and "length (ip_junk env) = 16"
  shows "acl_add env e (Inr nl) = Inr (nl\<lparr>nl_nodes := acl_node env e # nl_nodes nl\<rparr>)"
proof -
  have h: "CHR ''/'' \<notin> set (acl_host e)" "CHR '','' \<notin> set (acl_host e)" "length (acl_text e) \<le> 126" "acl_token e \<noteq> Some []"
    using assms(1) by (cases e; simp)+
  have z: "atoi (decimal (acl_prefix e)) = int (acl_prefix e)" using atoi_decimal [of "[]"] by simp
  have t: "take 126 (acl_text e) = acl_text e" using h(3) by simp
  note s = cidr_split [OF h(1), of "decimal (acl_prefix e)", folded acl_text_def]
  have "CHR '','' \<notin> set (acl_text e)" "CHR ''/'' \<in> set (acl_text e)" using h(2) by (simp_all add: acl_text_def)
  moreover have "switch_network_list_perform_add_cidr_token env nl (acl_text e) (acl_allow e) (acl_token e) =
      (SWITCH_STATUS_SUCCESS, nl\<lparr>nl_nodes := acl_node env e # nl_nodes nl\<rparr>)"
  proof (cases e)
    case (Net4 hs a n ok tk)
    have "CHR '':'' \<notin> set (acl_text e)" using assms(1) Net4 by (simp add: acl_text_def)
    moreover have "n \<le> 32" "pton4 env hs = Some a" "length a = 4" using assms(1) Net4 by auto
    ultimately show ?thesis using h(4) z s t \<open>CHR ''/'' \<in> set (acl_text e)\<close> Net4
      by (auto simp: switch_network_list_perform_add_cidr_token_def switch_parse_cidr_def Let_def pton_into_def write_prefix_def htonl_bytes_def split: option.split)
  next
    case (Net6 hs a n ok tk)
    have "CHR '':'' \<in> set (acl_text e)" using assms(1) Net6 by (simp add: acl_text_def)
    moreover have "n \<le> 128" "pton6 env hs = Some a" "length a = 16" using assms(1) Net6 by auto
    ultimately show ?thesis using h(4) z s t assms(2) \<open>CHR ''/'' \<in> set (acl_text e)\<close> Net6
      by (auto simp: switch_network_list_perform_add_cidr_token_def switch_parse_cidr_def Let_def pton_into_def write_prefix_def split: option.split)
  qed
  ultimately show ?thesis by (simp add: acl_add_def switch_network_list_add_cidr_token_def)
qed

lemma acl_build:
  assumes "list_all (acl_entry_ok env) es" and "length (ip_junk env) = 16"
  shows "fold (acl_add env) es (Inr nl) = Inr (nl\<lparr>nl_nodes := map (acl_node env) (rev es) @ nl_nodes nl\<rparr>)"
  using assms(1) by (induction es arbitrary: nl) (simp_all add: acl_add_node assms(2))

text \<open>Bytes in network order as the number the code compares.\<close>

lemma load_rev_bit:
  assumes "length a = 4" and "i < 32"
  shows "bit (load_le (rev a) :: uint32) (31 - i) = bit (a ! (i div 8)) (7 - i mod 8)"
proof -
  have l: "has_lanes (load_le (rev a) :: uint32) (map unat (rev a))" by (rule load_le_lanes) (use assms in simp)
  have i: "31 - i = 8 * (3 - i div 8) + (7 - i mod 8)" "i div 8 \<le> 3"
    using assms(2) mult_div_mod_eq [of 8 i] by linarith+
  have "bit (load_le (rev a) :: uint32) (31 - i) = bit (map unat (rev a) ! (3 - i div 8)) (7 - i mod 8)"
    unfolding i(1) by (rule bit_lane [OF l]) simp_all
  also have "map unat (rev a) ! (3 - i div 8) = unat (a ! (i div 8))" using assms i(2) by (simp add: rev_nth)
  finally show ?thesis by (simp add: bit_simps)
qed

lemma same_net4_prefix: "length a = 4 \<Longrightarrow> length b = 4 \<Longrightarrow> n \<le> 32 \<Longrightarrow> same_net4 n (load_le (rev a)) (load_le (rev b)) \<longleftrightarrow> same_prefix n a b"
  by (auto simp: same_net4_def same_prefix_def load_rev_bit)

lemma load_rev_zero: "length a = 4 \<Longrightarrow> load_le (rev a) = (0 :: uint32) \<Longrightarrow> a = [0, 0, 0, 0]"
proof -
  assume l: "length a = 4" and z: "load_le (rev a) = (0 :: uint32)"
  have "\<not> bit (a ! j) k" if "j < 4" "k < 8" for j k
  proof -
    define r where "r = 7 - k"
    have r: "r < 8" "k = 7 - r" using that(2) by (auto simp: r_def)
    have i: "(8 * j + r) div 8 = j" "7 - (8 * j + r) mod 8 = k" "8 * j + r < 32" using r that(1) by simp_all
    have "bit (a ! j) k = bit (0 :: uint32) (31 - (8 * j + r))" using load_rev_bit [OF l i(3)] unfolding i(1,2) z by simp
    then show ?thesis by simp
  qed
  then have "a ! j = 0" if "j < 4" for j using that by (intro bit_word_eqI) simp
  then have "\<forall>j < 4. a ! j = [0, 0, 0, 0] ! j" by (simp add: numeral_eq_Suc All_less_Suc)
  then show ?thesis using l by (intro nth_equalityI) simp_all
qed

lemma acl_node_bits:
  "acl_entry_ok env e \<Longrightarrow> 0 < nn_bits (acl_node env e) \<longleftrightarrow> 0 < acl_prefix e"
  "acl_entry_ok env e \<Longrightarrow> acl_entry_ok env m \<Longrightarrow> nn_bits (acl_node env m) \<le> nn_bits (acl_node env e) \<longleftrightarrow> acl_prefix m \<le> acl_prefix e"
proof -
  have b: "unat (nn_bits (acl_node env e)) = acl_prefix e" if "acl_entry_ok env e" for e
    using that by (cases e) (auto simp: unat_of_nat)
  show "acl_entry_ok env e \<Longrightarrow> 0 < nn_bits (acl_node env e) \<longleftrightarrow> 0 < acl_prefix e" using b [of e] by (simp add: word_less_nat_alt)
  show "acl_entry_ok env e \<Longrightarrow> acl_entry_ok env m \<Longrightarrow> nn_bits (acl_node env m) \<le> nn_bits (acl_node env e) \<longleftrightarrow> acl_prefix m \<le> acl_prefix e"
    using b [of e] b [of m] by (simp add: word_le_nat_alt)
qed

lemma acl_node_hit4:
  assumes "acl_entry_ok env e" and "length b = 4"
  shows "0 < nn_bits (acl_node env e) \<and> v4_hit (load_le (rev b)) (acl_node env e) \<longleftrightarrow> acl_contains4 b e"
proof (cases e)
  case (Net4 h a n ok t)
  have a: "length a = 4" "n \<le> 32" "n = 32 \<longrightarrow> ones_shr_32 env = 0 \<or> ones_shr_32 env = - 1 \<and> a \<noteq> [0, 0, 0, 0]" using assms(1) Net4 by auto
  have m: "ip_v4 (nn_mask (acl_node env e)) = v4_mask (ones_shr_32 env) n" "ip_v4 (nn_ip (acl_node env e)) = load_le (rev a)"
    using load_store_le [of 4, where 'a = 32] a(1) Net4 by (simp_all add: ip_v4_def write_prefix_def store_le_def)
  have "n = 32 \<longrightarrow> ones_shr_32 env = 0 \<or> ones_shr_32 env = - 1 \<and> (load_le (rev a) :: uint32) \<noteq> 0"
    using a(3) load_rev_zero [OF a(1)] by auto
  then show ?thesis
    using test_subnet_cidr [of n "ones_shr_32 env" "load_le (rev a)" "load_le (rev b)"] a(2) same_net4_prefix [OF a(1) assms(2) a(2)]
      acl_node_bits(1) [OF assms(1)] m Net4 by (auto simp: v4_hit_def)
next
  case (Net6 h a n ok t)
  then show ?thesis by (simp add: v4_hit_def)
qed

lemma acl_node_hit6:
  assumes "acl_entry_ok env e" and "length b = 16"
  shows "0 < nn_bits (acl_node env e) \<and> v6_hit b (acl_node env e) \<longleftrightarrow> acl_contains6 b e"
proof (cases e)
  case (Net4 h a n ok t)
  then show ?thesis by (simp add: v6_hit_def)
next
  case (Net6 h a n ok t)
  then have "length a = 16" "n \<le> 128" using assms(1) by auto
  then show ?thesis using test_subnet_cidr6 [of b a n] assms(2) acl_node_bits(1) [OF assms(1)] Net6
    by (auto simp: v6_hit_def same_net6_def same_prefix_def)
qed

lemma find_map: "find P (map f xs) = map_option f (find (P \<circ> f) xs)"
  by (induction xs) simp_all

lemma acl_verdict_nodes:
  assumes "list_all (acl_entry_ok env) es" and "\<And>e. acl_entry_ok env e \<Longrightarrow> 0 < nn_bits (acl_node env e) \<and> hit (acl_node env e) \<longleftrightarrow> inside e"
  shows "best_node hit (map (acl_node env) es) (d, 0, None) =
    (case find (\<lambda>e. \<forall>m \<in> set (filter inside es). acl_prefix m \<le> acl_prefix e) (filter inside es) of
       None \<Rightarrow> (d, 0, None) | Some e \<Rightarrow> (acl_allow e, nn_bits (acl_node env e), Some (acl_token e)))"
proof -
  have f: "filter (\<lambda>n. 0 < nn_bits n \<and> hit n) (map (acl_node env) es) = map (acl_node env) (filter inside es)"
    using assms by (auto simp: filter_map list_all_iff intro!: filter_cong arg_cong [of _ _ "map _"])
  have ok: "acl_entry_ok env e" if "e \<in> set (filter inside es)" for e using that assms(1) by (simp add: list_all_iff)
  have c: "find ((\<lambda>n. \<forall>m \<in> set (map (acl_node env) (filter inside es)). nn_bits m \<le> nn_bits n) \<circ> acl_node env) (filter inside es) =
      find (\<lambda>e. \<forall>m \<in> set (filter inside es). acl_prefix m \<le> acl_prefix e) (filter inside es)"
  proof (rule find_cong [OF refl])
    fix e assume "e \<in> set (filter inside es)"
    then show "((\<lambda>n. \<forall>m \<in> set (map (acl_node env) (filter inside es)). nn_bits m \<le> nn_bits n) \<circ> acl_node env) e =
        (\<forall>m \<in> set (filter inside es). acl_prefix m \<le> acl_prefix e)"
      using ok acl_node_bits(2) by (simp del: set_filter)
  qed
  have n: "nn_ok (acl_node env e) = acl_allow e" "nn_token (acl_node env e) = acl_token e" for e by (cases e; simp)+
  show ?thesis unfolding best_node_spec most_specific_def f find_map c by (simp add: n split: option.split)
qed

section \<open>Properties\<close>

text \<open>C25: a list is created and given networks in the notation address/prefix, each with a verdict and a token. The verdict on an IPv4 or IPv6 address is then that of the network of its family with the longest prefix among those of one bit or more whose prefix agrees bit for bit with the address, the one added last among equally long ones, together with that network's token; an address no such network contains gets the list's default. A network with a prefix of zero bits, such as 0.0.0.0/0, counts for no address. The network 0.0.0.0/32 is included only where the processor's shift by 32 gives zero.\<close>

theorem acl_most_specific:
  assumes "list_all (acl_entry_ok env) es" and "length (ip_junk env) = 16" and "length b4 = 4" and "length b6 = 16"
  shows "\<exists>nl. fold (acl_add env) es (Inr (switch_network_list_create name dflt)) = Inr nl \<and>
    switch_network_list_validate_ip_token nl (load_le (rev b4)) = acl_verdict dflt (filter (acl_contains4 b4) (rev es)) \<and>
    switch_network_list_validate_ip6_token nl b6 = acl_verdict dflt (filter (acl_contains6 b6) (rev es))"
proof -
  let ?nl = "(switch_network_list_create name dflt)\<lparr>nl_nodes := map (acl_node env) (rev es)\<rparr>"
  have "fold (acl_add env) es (Inr (switch_network_list_create name dflt)) = Inr ?nl"
    using acl_build [OF assms(1,2), of "switch_network_list_create name dflt"] by (simp add: switch_network_list_create_def)
  moreover have r: "list_all (acl_entry_ok env) (rev es)" using assms(1) by simp
  note v = acl_verdict_nodes [OF r acl_node_hit4 [OF _ assms(3)]] acl_verdict_nodes [OF r acl_node_hit6 [OF _ assms(4)]]
  have "switch_network_list_validate_ip_token ?nl (load_le (rev b4)) = acl_verdict dflt (filter (acl_contains4 b4) (rev es))"
    "switch_network_list_validate_ip6_token ?nl b6 = acl_verdict dflt (filter (acl_contains6 b6) (rev es))"
    by (simp_all add: switch_network_list_validate_ip_token_def switch_network_list_validate_ip6_token_def switch_network_list_create_def
        v acl_verdict_def split: option.split)
  ultimately show ?thesis by blast
qed

definition demo_env :: inet_env where
  "demo_env = \<lparr>pton4 = (\<lambda>s. if s = ''10.0.0.0'' then Some [10, 0, 0, 0] else if s = ''10.1.0.0'' then Some [10, 1, 0, 0] else None),
     pton6 = (\<lambda>s. if s = ''fe80::'' then Some (0xFE # 0x80 # replicate 14 0) else None),
     ip_junk = replicate 16 7, mask_junk = replicate 16 7, ones_shr_32 = - 1\<rparr>"

definition demo_entries :: "acl_entry list" where
  "demo_entries =
     [Net4 ''10.0.0.0'' [10, 0, 0, 0] 8 True None, Net4 ''10.1.0.0'' [10, 1, 0, 0] 16 False (Some ''guest''),
      Net6 ''fe80::'' (0xFE # 0x80 # replicate 14 0) 10 True None]"

theorem acl_most_specific_witness:
  "\<exists>nl. fold (acl_add demo_env) demo_entries (Inr (switch_network_list_create ''lan'' False)) = Inr nl \<and>
    switch_network_list_validate_ip_token nl (load_le (rev [10, 1, 2, 3])) = (False, Some (Some ''guest'')) \<and>
    switch_network_list_validate_ip6_token nl (0xFE # 0xBF # replicate 14 1) = (True, Some None)"
proof -
  have ok: "list_all (acl_entry_ok demo_env) demo_entries" "length (ip_junk demo_env) = 16" by code_simp+
  have v: "acl_verdict False (filter (acl_contains4 [10, 1, 2, 3]) (rev demo_entries)) = (False, Some (Some ''guest''))"
    "acl_verdict False (filter (acl_contains6 (0xFE # 0xBF # replicate 14 1)) (rev demo_entries)) = (True, Some None)" by code_simp+
  from acl_most_specific [OF ok, of "[10, 1, 2, 3]" "0xFE # 0xBF # replicate 14 1" "''lan''" False] show ?thesis unfolding v by simp
qed

text \<open>adding an IPv4 network with a prefix of one bit or more gives its verdict to exactly the addresses
  that share that prefix, unless a more specific network of the list contains them, and changes no other
  address. For a prefix of 32 bits this holds whichever way the processor shifts by 32.\<close>

theorem acl_add_cidr_effect:
  assumes "switch_parse_cidr env s = Inr (net, msk, bits)" "CHR '':'' \<notin> set s" "bits \<noteq> 0"
    "bits = 32 \<longrightarrow> ones_shr_32 env = 0 \<or> ones_shr_32 env = - 1 \<and> ip_v4 net \<noteq> 0"
    "switch_network_list_perform_add_cidr_token env nl s ok token = (st, nl')"
  shows "st = SWITCH_STATUS_SUCCESS \<and>
    (same_net4 (unat bits) (ip_v4 net) ip \<and> (\<forall>n \<in> set (nl_nodes nl). v4_hit ip n \<longrightarrow> nn_bits n \<le> bits) \<longrightarrow>
       fst (switch_network_list_validate_ip_token nl' ip) = ok) \<and>
    (\<not> same_net4 (unat bits) (ip_v4 net) ip \<longrightarrow>
       switch_network_list_validate_ip_token nl' ip = switch_network_list_validate_ip_token nl ip)"
proof -
  obtain n where n: "n \<le> 32" "bits = of_nat n" "ip_v4 msk = v4_mask (ones_shr_32 env) n"
    by (rule parse_v4 [OF assms(1,2)])
  have u: "unat bits = n" using n by (simp add: unat_of_nat)
  have b: "0 < n" "n = 32 \<longrightarrow> bits = 32" "0 < bits" using assms(3) n(2) by (auto simp: word_neq_0_conv intro: gr0I)
  obtain x where x: "nl' = nl\<lparr>nl_nodes := x # nl_nodes nl\<rparr>" "st = SWITCH_STATUS_SUCCESS" "nn_ip x = net" "nn_mask x = msk"
    "nn_bits x = bits" "nn_family x = AF_INET" "nn_ok x = ok"
    using assms(1,2,5) by (auto simp: switch_network_list_perform_add_cidr_token_def)
  have hit: "v4_hit ip x \<longleftrightarrow> same_net4 n (ip_v4 net) ip"
    using test_subnet_cidr [OF b(1) n(1)] assms(4) b(2) n(3) x by (auto simp: v4_hit_def)
  show ?thesis
    using x hit u front_node [of x "v4_hit ip" "nl_nodes nl"] b(3)
    by (auto simp: switch_network_list_validate_ip_token_def)
qed

definition demo_list :: network_list where
  "demo_list = switch_network_list_create ''acl'' False"

lemmas demo_simps = switch_parse_cidr_def Let_def demo_env_def pton_into_def write_prefix_def htonl_bytes_def atoi_def
  is_space_def is_digit_def digit_val_def char_code_def

lemma demo_parse:
  "\<exists>msk. switch_parse_cidr demo_env ''10.0.0.0/8'' = Inr ([0, 0, 0, 10] @ replicate 12 7, msk, 8)"
  "\<exists>msk. switch_parse_cidr demo_env ''10.0.0.0/0'' = Inr ([0, 0, 0, 10] @ replicate 12 7, msk, 0)"
  "\<exists>msk. switch_parse_cidr demo_env ''fe80::/10'' = Inr (0xFE # 0x80 # replicate 14 0, msk, 10)"
  by (simp_all add: demo_simps)

lemma demo_empty: "nl_nodes demo_list = []"
  by (simp add: demo_list_def switch_network_list_create_def)

theorem acl_add_cidr_effect_witness:
  "fst (switch_network_list_validate_ip_token
     (snd (switch_network_list_perform_add_cidr_token demo_env demo_list ''10.0.0.0/8'' True None)) 0x0A010203)"
proof -
  obtain msk where p: "switch_parse_cidr demo_env ''10.0.0.0/8'' = Inr ([0, 0, 0, 10] @ replicate 12 7, msk, 8)"
    using demo_parse(1) by blast
  have "same_net4 8 0x0A000000 0x0A010203" using and_mask_eq [of 8 "0x0A000000" 0 "0x0A010203"] by (simp add: v4_mask_def)
  then have "same_net4 (unat (8 :: uint32)) (ip_v4 ([0, 0, 0, 10] @ replicate 12 7)) 0x0A010203"
    by (simp add: ip_v4_def load_le_def)
  then show ?thesis
    using acl_add_cidr_effect [OF p, of demo_list True None] demo_empty
    by (cases "switch_network_list_perform_add_cidr_token demo_env demo_list ''10.0.0.0/8'' True None") simp
qed

text \<open>the same for an IPv6 network.\<close>

theorem acl_add_cidr6_effect:
  assumes "switch_parse_cidr env s = Inr (net, msk, bits)" "CHR '':'' \<in> set s" "bits \<noteq> 0"
    "switch_network_list_perform_add_cidr_token env nl s ok token = (st, nl')" "length net = 16" "length ip = 16"
  shows "st = SWITCH_STATUS_SUCCESS \<and>
    (same_net6 (unat bits) net ip \<and> (\<forall>n \<in> set (nl_nodes nl). v6_hit ip n \<longrightarrow> nn_bits n \<le> bits) \<longrightarrow>
       fst (switch_network_list_validate_ip6_token nl' ip) = ok) \<and>
    (\<not> same_net6 (unat bits) net ip \<longrightarrow>
       switch_network_list_validate_ip6_token nl' ip = switch_network_list_validate_ip6_token nl ip)"
proof -
  obtain n where n: "n \<le> 128" "bits = of_nat n" "msk = v6_mask n 16" by (rule parse_v6 [OF assms(1,2)])
  have u: "unat bits = n" using n by (simp add: unat_of_nat)
  have b: "0 < n" "0 < bits" using assms(3) n(2) by (auto simp: word_neq_0_conv intro: gr0I)
  obtain x where x: "nl' = nl\<lparr>nl_nodes := x # nl_nodes nl\<rparr>" "st = SWITCH_STATUS_SUCCESS" "nn_ip x = net" "nn_mask x = msk"
    "nn_bits x = bits" "nn_family x = AF_INET6" "nn_ok x = ok"
    using assms(1,2,4) by (auto simp: switch_network_list_perform_add_cidr_token_def)
  have hit: "v6_hit ip x \<longleftrightarrow> same_net6 n net ip"
    using test_subnet_cidr6 [OF assms(6,5) b(1) n(1)] n(3) x by (simp add: v6_hit_def)
  show ?thesis
    using x hit u front_node [of x "v6_hit ip" "nl_nodes nl"] b(2)
    by (auto simp: switch_network_list_validate_ip6_token_def)
qed

theorem acl_add_cidr6_effect_witness:
  "fst (switch_network_list_validate_ip6_token
     (snd (switch_network_list_perform_add_cidr_token demo_env demo_list ''fe80::/10'' True None))
     (0xFE # 0xBF # replicate 14 1))"
proof -
  obtain msk where p: "switch_parse_cidr demo_env ''fe80::/10'' = Inr (0xFE # 0x80 # replicate 14 0, msk, 10)"
    using demo_parse(3) by blast
  have "same_net6 10 (0xFE # 0x80 # replicate 14 0) (0xFE # 0xBF # replicate 14 1)" by code_simp
  then show ?thesis
    using acl_add_cidr6_effect [OF p, of demo_list True None _ _ "0xFE # 0xBF # replicate 14 1"] demo_empty
    by (cases "switch_network_list_perform_add_cidr_token demo_env demo_list ''fe80::/10'' True None") simp
qed

text \<open>a network with a prefix of zero bits, which contains every address, is accepted and never has any
  effect on a verdict.\<close>

theorem acl_zero_prefix_ignored:
  assumes "switch_parse_cidr env s = Inr (net, msk, 0)"
    "switch_network_list_perform_add_cidr_token env nl s ok token = (st, nl')"
  shows "st = SWITCH_STATUS_SUCCESS \<and> nl_nodes nl' \<noteq> nl_nodes nl \<and>
    switch_network_list_validate_ip_token nl' ip = switch_network_list_validate_ip_token nl ip \<and>
    switch_network_list_validate_ip6_token nl' ip6 = switch_network_list_validate_ip6_token nl ip6"
  using assms
  by (auto simp: switch_network_list_perform_add_cidr_token_def switch_network_list_validate_ip_token_def
      switch_network_list_validate_ip6_token_def)

theorem acl_zero_prefix_ignored_witness:
  "switch_network_list_validate_ip_token
     (snd (switch_network_list_perform_add_cidr_token demo_env demo_list ''10.0.0.0/0'' True None)) 0x0A010203 =
   switch_network_list_validate_ip_token demo_list 0x0A010203"
proof -
  obtain msk where p: "switch_parse_cidr demo_env ''10.0.0.0/0'' = Inr ([0, 0, 0, 10] @ replicate 12 7, msk, 0)"
    using demo_parse(2) by blast
  show ?thesis using acl_zero_prefix_ignored [OF p]
    by (cases "switch_network_list_perform_add_cidr_token demo_env demo_list ''10.0.0.0/0'' True None") simp
qed

text \<open>the bit trick of \<open>switch_network_list_add_host_mask\<close> counts the bits set in the mask, for all masks.\<close>

theorem host_mask_counts_bits:
  "nn_bits (hd (nl_nodes (snd (switch_network_list_add_host_mask env nl host mask_str ok)))) =
     of_nat (popcount (ip_v4 (pton_into (pton4 env mask_str) (mask_junk env))))"
  by (simp add: switch_network_list_add_host_mask_def Let_def mask_bits_value)

end
