(* ===== verification/Jitter_Buffer.thy ===== *)
theory Jitter_Buffer
  imports FS_Prelude
begin

text \<open>
  The jitter buffer (src/switch\_stfu.c, src/include/switch\_stfu.h) and its activation by an RTP
  session (src/switch\_rtp.c).

  The three queues of an instance are a function of their member name and the queue pointers hold
  such a name, so that swapping the pointers and resetting them are the assignments of the code. A
  frame pointer is the slot of a queue or its concealment frame. Integers have the width of the C
  declarations, signed ones are compared with \<open>sint\<close>. An environment says whether a
  logger is installed (one early return of \<open>stfu_n_read_a_frame\<close> depends on it), which
  allocations succeed, and how many nested calls the stack holds: \<open>_stfu_n_reset\<close> and
  \<open>stfu_n_sync\<close> call each other. The callback is recorded with the report it can read. Divisions
  by \<open>samples_per_packet\<close>, failed assertions, accesses outside the frame array and the
  exhausted stack are faults. Log output and \<open>stfu_n_destroy\<close> are not modelled.
\<close>

unbundle bit_operations_syntax

section \<open>Data\<close>

definition STFU_DATALEN :: nat where
  "STFU_DATALEN = 16384"

datatype stfu_status = STFU_IT_FAILED | STFU_IT_WORKED | STFU_IM_DONE | STFU_ITS_TOO_LATE

record stfu_frame =
  f_ts :: uint32
  f_seq :: uint16
  f_pt :: uint32
  f_data :: "byte list"
  f_dlen :: nat
  f_was_read :: bool
  f_plc :: bool

record stfu_queue =
  jq_array :: "stfu_frame list"
  jq_int_frame :: stfu_frame
  jq_real_array_size :: uint32
  jq_array_size :: uint32
  jq_array_len :: uint32
  jq_wr_len :: uint32
  jq_last_index :: uint32
  jq_last_jitter :: uint32

datatype queue_id = A_queue | B_queue | C_queue

datatype frame_ref = Slot queue_id nat | Int_frame queue_id

record stfu_report =
  r_qlen :: uint32
  r_packet_in_count :: uint32
  r_clean_count :: uint32
  r_consecutive_good_count :: uint32
  r_consecutive_bad_count :: uint32

record stfu_instance =
  jb_queues :: "queue_id \<Rightarrow> stfu_queue"
  jb_in_queue :: queue_id
  jb_out_queue :: queue_id
  jb_old_queue :: queue_id
  jb_last_frame :: "frame_ref option"
  jb_cur_ts :: uint32
  jb_cur_seq :: uint16
  jb_last_wr_ts :: uint32
  jb_last_rd_ts :: uint32
  jb_samples_per_packet :: uint32
  jb_samples_per_second :: uint32
  jb_miss_count :: uint32
  jb_max_plc :: uint32
  jb_qlen :: uint32
  jb_most_qlen :: uint32
  jb_max_qlen :: uint32
  jb_orig_qlen :: uint32
  jb_packet_count :: uint32
  jb_consecutive_good_count :: uint32
  jb_consecutive_bad_count :: uint32
  jb_period_good_count :: uint32
  jb_period_bad_count :: uint32
  jb_period_packet_in_count :: uint32
  jb_period_packet_out_count :: uint32
  jb_period_missing_count :: uint32
  jb_period_need_range :: uint32
  jb_period_need_range_avg :: uint32
  jb_period_clean_count :: uint32
  jb_session_clean_count :: uint32
  jb_session_missing_count :: uint32
  jb_session_packet_in_count :: uint32
  jb_session_packet_out_count :: uint32
  jb_sync_out :: uint32
  jb_sync_in :: uint32
  jb_ts_offset :: uint32
  jb_ts_drift :: uint32
  jb_max_drift :: uint32
  jb_drift_dropped_packets :: uint32
  jb_drift_max_dropped :: uint32
  jb_ts_diff :: uint32
  jb_last_ts_diff :: uint32
  jb_same_ts :: uint32
  jb_period_time :: uint32
  jb_decrement_time :: uint32
  jb_plc_len :: uint32
  jb_plc_pt :: uint32
  jb_diff :: uint32
  jb_diff_total :: uint32
  jb_ready :: bool
  jb_debug :: bool
  jb_name :: string
  jb_callback :: "nat option"
  jb_udata :: nat
  jb_calls :: "(nat \<times> nat \<times> stfu_report) list"

record stfu_env =
  env_log :: bool
  env_instance :: bool
  env_frames :: "nat \<Rightarrow> bool"
  env_stack :: nat

definition zero_frame :: stfu_frame where
  "zero_frame = \<lparr>f_ts = 0, f_seq = 0, f_pt = 0, f_data = replicate STFU_DATALEN 0, f_dlen = 0,
     f_was_read = False, f_plc = False\<rparr>"

definition zero_queue :: stfu_queue where
  "zero_queue = \<lparr>jq_array = [], jq_int_frame = zero_frame, jq_real_array_size = 0,
     jq_array_size = 0, jq_array_len = 0, jq_wr_len = 0, jq_last_index = 0, jq_last_jitter = 0\<rparr>"

definition zero_instance :: stfu_instance where
  "zero_instance = \<lparr>jb_queues = (\<lambda>_. zero_queue), jb_in_queue = A_queue, jb_out_queue = A_queue,
     jb_old_queue = A_queue, jb_last_frame = None, jb_cur_ts = 0, jb_cur_seq = 0, jb_last_wr_ts = 0,
     jb_last_rd_ts = 0, jb_samples_per_packet = 0, jb_samples_per_second = 0, jb_miss_count = 0,
     jb_max_plc = 0, jb_qlen = 0, jb_most_qlen = 0, jb_max_qlen = 0, jb_orig_qlen = 0,
     jb_packet_count = 0, jb_consecutive_good_count = 0, jb_consecutive_bad_count = 0,
     jb_period_good_count = 0, jb_period_bad_count = 0, jb_period_packet_in_count = 0,
     jb_period_packet_out_count = 0, jb_period_missing_count = 0, jb_period_need_range = 0,
     jb_period_need_range_avg = 0, jb_period_clean_count = 0, jb_session_clean_count = 0,
     jb_session_missing_count = 0, jb_session_packet_in_count = 0, jb_session_packet_out_count = 0,
     jb_sync_out = 0, jb_sync_in = 0, jb_ts_offset = 0, jb_ts_drift = 0, jb_max_drift = 0,
     jb_drift_dropped_packets = 0, jb_drift_max_dropped = 0, jb_ts_diff = 0, jb_last_ts_diff = 0,
     jb_same_ts = 0, jb_period_time = 0, jb_decrement_time = 0, jb_plc_len = 0, jb_plc_pt = 0,
     jb_diff = 0, jb_diff_total = 0, jb_ready = False, jb_debug = False, jb_name = [],
     jb_callback = None, jb_udata = 0, jb_calls = []\<rparr>"

definition queue_of :: "queue_id \<Rightarrow> stfu_instance \<Rightarrow> stfu_queue" where
  "queue_of q i = jb_queues i q"

definition set_queue :: "queue_id \<Rightarrow> (stfu_queue \<Rightarrow> stfu_queue) \<Rightarrow> stfu_instance \<Rightarrow> stfu_instance" where
  "set_queue q f i = i\<lparr>jb_queues := (jb_queues i)(q := f (jb_queues i q))\<rparr>"

definition frame_at :: "stfu_instance \<Rightarrow> frame_ref \<Rightarrow> stfu_frame" where
  "frame_at i r = (case r of Slot q k \<Rightarrow> jq_array (jb_queues i q) ! k | Int_frame q \<Rightarrow> jq_int_frame (jb_queues i q))"

text \<open>\<open>abs\<close> of the C library on an unsigned difference: the most negative value is its own.\<close>

definition c_abs :: "uint32 \<Rightarrow> uint32" where
  "c_abs w = (if sint w < 0 then - w else w)"

definition least1 :: "uint32 \<Rightarrow> uint32" where
  "least1 z = (if z \<noteq> 0 then z else 1)"

definition c_div :: "uint32 \<Rightarrow> uint32 \<Rightarrow> fault + uint32" where
  "c_div a b = (if b = 0 then Inl Division_by_zero else Inr (a div b))"

section \<open>Creation and size\<close>

definition stfu_n_resize_aqueue :: "stfu_env \<Rightarrow> stfu_queue \<Rightarrow> uint32 \<Rightarrow> fault + stfu_queue" where
  "stfu_n_resize_aqueue E q qlen =
     (if qlen \<le> jq_real_array_size q
      then Inr (q\<lparr>jq_array_size := qlen,
                  jq_array_len := (if qlen < jq_array_len q then qlen else jq_array_len q)\<rparr>)
      else if env_frames E (unat qlen)
      then Inr (q\<lparr>jq_array := take (unat (jq_array_size q)) (jq_array q) @
                     replicate (unat qlen - unat (jq_array_size q)) zero_frame,
                  jq_real_array_size := qlen, jq_array_size := qlen\<rparr>)
      else Inl Assert_failed)"

definition stfu_n_init_aqueue :: "stfu_env \<Rightarrow> stfu_queue \<Rightarrow> uint32 \<Rightarrow> fault + stfu_queue" where
  "stfu_n_init_aqueue E q qlen =
     (if env_frames E (unat qlen)
      then Inr (q\<lparr>jq_array := replicate (unat qlen) zero_frame, jq_real_array_size := qlen,
                  jq_array_size := qlen,
                  jq_int_frame := (jq_int_frame q)\<lparr>f_plc := True, f_data := replicate STFU_DATALEN 255\<rparr>\<rparr>)
      else Inl Assert_failed)"

definition stfu_n_call_me :: "stfu_instance \<Rightarrow> nat option \<Rightarrow> nat \<Rightarrow> stfu_instance" where
  "stfu_n_call_me i callback udata = i\<lparr>jb_callback := callback, jb_udata := udata\<rparr>"

definition stfu_n_debug :: "stfu_instance \<Rightarrow> string option \<Rightarrow> stfu_instance" where
  "stfu_n_debug i name =
     (case name of Some n \<Rightarrow> i\<lparr>jb_name := n, jb_debug := True\<rparr>
      | None \<Rightarrow> i\<lparr>jb_name := ''none'', jb_debug := False\<rparr>)"

definition stfu_n_report :: "stfu_instance \<Rightarrow> stfu_report" where
  "stfu_n_report i = \<lparr>r_qlen = jb_qlen i, r_packet_in_count = jb_period_packet_in_count i,
     r_clean_count = jb_period_clean_count i, r_consecutive_good_count = jb_consecutive_good_count i,
     r_consecutive_bad_count = jb_consecutive_bad_count i\<rparr>"

definition stfu_n_get_drift :: "stfu_instance \<Rightarrow> int" where
  "stfu_n_get_drift i = sint (jb_ts_drift i)"

definition stfu_n_get_most_qlen :: "stfu_instance \<Rightarrow> int" where
  "stfu_n_get_most_qlen i = sint (jb_most_qlen i)"

text \<open>The length \<open>stfu_n_resize\<close> works with, unless it fails.\<close>

definition resize_target :: "stfu_instance \<Rightarrow> uint32 \<Rightarrow> uint32 option" where
  "resize_target i qlen =
     (if jb_qlen i = jb_max_qlen i then None
      else if jb_max_qlen i \<noteq> 0 \<and> jb_max_qlen i < qlen
      then (if jb_qlen i < jb_max_qlen i then Some (jb_max_qlen i) else None)
      else Some qlen)"

definition stfu_n_resize :: "stfu_env \<Rightarrow> stfu_instance \<Rightarrow> uint32 \<Rightarrow> fault + (stfu_status \<times> stfu_instance)" where
  "stfu_n_resize E i qlen =
     (case resize_target i qlen of None \<Rightarrow> Inr (STFU_IT_FAILED, i)
      | Some n \<Rightarrow>
        fbind (stfu_n_resize_aqueue E (jb_queues i A_queue) n) (\<lambda>a.
        fbind (stfu_n_resize_aqueue E (jb_queues i B_queue) n) (\<lambda>b.
        fbind (stfu_n_resize_aqueue E (jb_queues i C_queue) n) (\<lambda>c.
          Inr (STFU_IT_WORKED,
            i\<lparr>jb_queues := case_queue_id a b c,
              jb_most_qlen := (if jb_most_qlen i < n then n else jb_most_qlen i),
              jb_qlen := n, jb_max_plc := 5, jb_last_frame := None\<rparr>)))))"

definition stfu_n_init :: "stfu_env \<Rightarrow> uint32 \<Rightarrow> uint32 \<Rightarrow> uint32 \<Rightarrow> uint32 \<Rightarrow> uint32 \<Rightarrow> fault + stfu_instance option" where
  "stfu_n_init E qlen max_qlen samples_per_packet samples_per_second max_drift_ms =
     (if \<not> env_instance E then Inr None else
      let sps = (if samples_per_second \<noteq> 0 then samples_per_second else 8000) in
      fbind (stfu_n_init_aqueue E zero_queue qlen) (\<lambda>a.
      fbind (stfu_n_init_aqueue E zero_queue qlen) (\<lambda>b.
      fbind (stfu_n_init_aqueue E zero_queue qlen) (\<lambda>c.
      fbind (c_div (sps * 20) samples_per_packet) (\<lambda>period.
      fbind (c_div (sps * 15) samples_per_packet) (\<lambda>decrement.
        Inr (Some (zero_instance\<lparr>jb_qlen := qlen, jb_max_qlen := max_qlen, jb_orig_qlen := qlen,
          jb_samples_per_packet := samples_per_packet, jb_queues := case_queue_id a b c,
          jb_max_drift := - (max_drift_ms * (samples_per_second div 1000)),
          jb_drift_max_dropped :=
            (if max_drift_ms \<noteq> 0 \<and> samples_per_packet \<noteq> 0 then (samples_per_second * 2) div samples_per_packet else 0),
          jb_in_queue := A_queue, jb_out_queue := B_queue, jb_old_queue := C_queue,
          jb_name := ''none'', jb_max_plc := qlen div 2, jb_samples_per_second := sps,
          jb_period_time := period, jb_decrement_time := decrement\<rparr>))))))))"

section \<open>Reset and synchronisation\<close>

definition stfu_n_reset_counters :: "stfu_instance \<Rightarrow> stfu_instance" where
  "stfu_n_reset_counters i =
     i\<lparr>jb_calls := (case jb_callback i of None \<Rightarrow> jb_calls i
          | Some f \<Rightarrow> jb_calls i @ [(f, jb_udata i, stfu_n_report i)]),
       jb_consecutive_good_count := 0, jb_consecutive_bad_count := 0, jb_period_good_count := 0,
       jb_period_clean_count := 0, jb_period_bad_count := 0, jb_period_packet_in_count := 0,
       jb_period_packet_out_count := 0, jb_period_missing_count := 0, jb_period_need_range := 0,
       jb_period_need_range_avg := 0, jb_diff := 0, jb_diff_total := 0\<rparr>"

text \<open>What \<open>_stfu_n_reset\<close> does before and after its call of \<open>stfu_n_sync\<close>.\<close>

definition reset_queues :: "stfu_instance \<Rightarrow> stfu_instance" where
  "reset_queues i =
     stfu_n_reset_counters
      (i\<lparr>jb_ready := False, jb_in_queue := A_queue, jb_out_queue := B_queue, jb_old_queue := C_queue,
         jb_queues := (jb_queues i)
           (A_queue := (jb_queues i A_queue)\<lparr>jq_array_len := 0, jq_last_jitter := 0\<rparr>,
            B_queue := (jb_queues i B_queue)\<lparr>jq_array_len := 0, jq_wr_len := 0, jq_last_jitter := 0\<rparr>),
         jb_last_frame := None\<rparr>)"

definition reset_position :: "stfu_instance \<Rightarrow> stfu_instance" where
  "reset_position i = i\<lparr>jb_cur_ts := 0, jb_cur_seq := 0, jb_last_wr_ts := 0, jb_last_rd_ts := 0,
     jb_miss_count := 0, jb_packet_count := 0, jb_ts_offset := 0\<rparr>"

fun stfu_n_reset_at :: "nat \<Rightarrow> stfu_instance \<Rightarrow> fault + stfu_instance"
  and stfu_n_sync_at :: "nat \<Rightarrow> stfu_instance \<Rightarrow> uint32 \<Rightarrow> fault + stfu_instance" where
  "stfu_n_reset_at 0 i = Inl Stack_exhausted"
| "stfu_n_reset_at (Suc d) i = fbind (stfu_n_sync_at d (reset_queues i) 1) (\<lambda>j. Inr (reset_position j))"
| "stfu_n_sync_at 0 i packets = Inl Stack_exhausted"
| "stfu_n_sync_at (Suc d) i packets =
     (if jb_qlen i < packets then stfu_n_reset_at d i
      else Inr (i\<lparr>jb_sync_out := packets, jb_sync_in := packets\<rparr>))"

definition stfu_n_reset :: "stfu_env \<Rightarrow> stfu_instance \<Rightarrow> fault + stfu_instance" where
  "stfu_n_reset E i = stfu_n_reset_at (env_stack E) i"

definition stfu_n_sync :: "stfu_env \<Rightarrow> stfu_instance \<Rightarrow> uint32 \<Rightarrow> fault + stfu_instance" where
  "stfu_n_sync E i packets = stfu_n_sync_at (env_stack E) i packets"

definition stfu_n_swap :: "stfu_instance \<Rightarrow> stfu_instance" where
  "stfu_n_swap i =
     (let last_in = jb_in_queue i; last_out = jb_out_queue i; last_old = jb_old_queue i;
          i1 = i\<lparr>jb_ready := True, jb_in_queue := last_old, jb_out_queue := last_in, jb_old_queue := last_out\<rparr>;
          i2 = set_queue (jb_in_queue i1) (\<lambda>q. q\<lparr>jq_array_len := 0\<rparr>) i1;
          i3 = set_queue (jb_out_queue i2) (\<lambda>q. q\<lparr>jq_wr_len := 0\<rparr>) i2;
          i4 = i3\<lparr>jb_last_frame := None, jb_miss_count := 0\<rparr>;
          i5 = set_queue (jb_in_queue i4) (\<lambda>q. q\<lparr>jq_last_index := 0\<rparr>) i4
      in set_queue (jb_out_queue i5) (\<lambda>q. q\<lparr>jq_last_index := 0, jq_last_jitter := 0\<rparr>) i5)"

section \<open>Adding a packet\<close>

text \<open>The steps of \<open>stfu_n_add_data\<close> in order. First, learning the packet size; the flag says go on.\<close>

definition learn_size :: "stfu_instance \<Rightarrow> uint32 \<Rightarrow> bool \<times> stfu_instance" where
  "learn_size i ts =
     (if jb_samples_per_packet i = 0 \<and> ts \<noteq> 0 \<and> jb_last_rd_ts i \<noteq> 0
      then let i1 = i\<lparr>jb_ts_diff := ts - jb_last_rd_ts i\<rparr>;
               i2 = (if jb_last_ts_diff i1 = jb_ts_diff i1
                     then let i3 = i1\<lparr>jb_same_ts := jb_same_ts i1 + 1\<rparr> in
                       if jb_same_ts i3 = 5
                       then let i4 = i3\<lparr>jb_samples_per_packet := jb_ts_diff i3\<rparr> in
                         if jb_max_drift i4 \<noteq> 0 \<and> jb_samples_per_packet i4 \<noteq> 0
                         then i4\<lparr>jb_drift_max_dropped := (jb_samples_per_second i4 * 2) div jb_samples_per_packet i4\<rparr>
                         else i4
                       else i3
                     else i1\<lparr>jb_same_ts := 0\<rparr>);
               i5 = i2\<lparr>jb_last_ts_diff := jb_ts_diff i2\<rparr>
           in if jb_samples_per_packet i5 = 0 then (False, i5\<lparr>jb_last_rd_ts := ts\<rparr>) else (True, i5)
      else (True, i))"

definition set_drift :: "stfu_instance \<Rightarrow> uint32 \<Rightarrow> uint32 \<Rightarrow> stfu_instance" where
  "set_drift i ts timer_ts =
     (let i1 = (if ts \<noteq> 0 \<and> jb_ts_offset i = 0 then i\<lparr>jb_ts_offset := timer_ts - ts\<rparr> else i);
          i2 = i1\<lparr>jb_ts_drift := ts + (jb_ts_offset i1 - timer_ts)\<rparr>
      in if jb_ts_offset i2 \<noteq> 0 \<and> 0 < sint (jb_ts_drift i2)
         then let i3 = i2\<lparr>jb_ts_offset := timer_ts - ts\<rparr> in
           i3\<lparr>jb_ts_drift := ts + (jb_ts_offset i3 - timer_ts)\<rparr>
         else i2)"

definition check_drift :: "stfu_env \<Rightarrow> stfu_instance \<Rightarrow> uint32 \<Rightarrow> uint32 \<Rightarrow> fault + stfu_instance" where
  "check_drift E i ts timer_ts =
     (if timer_ts = 0 then Inr i else
      let i1 = set_drift i ts timer_ts in
      if jb_max_drift i1 = 0 then Inr i1
      else if sint (jb_ts_drift i1) < sint (jb_max_drift i1)
      then let i2 = i1\<lparr>jb_drift_dropped_packets := jb_drift_dropped_packets i1 + 1\<rparr> in
        if jb_drift_dropped_packets i2 < jb_drift_max_dropped i2 then stfu_n_sync E i2 1 else Inr i2
      else Inr (i1\<lparr>jb_drift_dropped_packets := 0\<rparr>))"

definition UINT_MAX :: uint32 where
  "UINT_MAX = 4294967295"

definition too_late :: "stfu_instance \<Rightarrow> uint32 \<Rightarrow> bool" where
  "too_late i ts \<longleftrightarrow> jb_last_wr_ts i \<noteq> 0 \<and> ts \<le> jb_last_wr_ts i \<and>
     (jb_last_wr_ts i \<noteq> UINT_MAX \<or> ts = jb_last_wr_ts i)"

definition in_sequence :: "stfu_instance \<Rightarrow> uint32 \<Rightarrow> bool" where
  "in_sequence i ts \<longleftrightarrow> ts \<noteq> 0 \<and> ts = jb_last_rd_ts i + jb_samples_per_packet i \<or>
     4294900000 < jb_last_rd_ts i \<and> ts < 5000"

definition check_ts :: "stfu_env \<Rightarrow> stfu_instance \<Rightarrow> uint32 \<Rightarrow> fault + (bool \<times> stfu_instance)" where
  "check_ts E i ts =
     (if jb_sync_in i \<noteq> 0 then Inr (True, i\<lparr>jb_sync_in := 0\<rparr>)
      else if too_late i ts
      then fbind (stfu_n_sync E
             (set_queue (jb_in_queue i) (\<lambda>q. if jq_array_len q < jq_array_size q
                then q\<lparr>jq_array_len := jq_array_len q + 1\<rparr> else q) i) 1)
             (\<lambda>j. Inr (in_sequence i ts, j))
      else Inr (in_sequence i ts, i))"

definition count_in :: "stfu_instance \<Rightarrow> bool \<Rightarrow> stfu_instance" where
  "count_in i good_ts =
     (let i1 = (if good_ts then i\<lparr>jb_period_clean_count := jb_period_clean_count i + 1,
                                  jb_session_clean_count := jb_session_clean_count i + 1\<rparr> else i)
      in i1\<lparr>jb_period_packet_in_count := jb_period_packet_in_count i1 + 1,
            jb_session_packet_in_count := jb_session_packet_in_count i1 + 1,
            jb_period_need_range_avg := jb_period_need_range i1 div least1 (jb_period_missing_count i1)\<rparr>)"

definition adapt_size :: "stfu_env \<Rightarrow> stfu_instance \<Rightarrow> fault + stfu_instance" where
  "adapt_size E i =
     (if jb_qlen i * 2 < jb_period_missing_count i
      then fbind (stfu_n_resize E i (jb_qlen i + 1)) (\<lambda>(_, j). Inr (stfu_n_reset_counters j))
      else if jb_orig_qlen i < jb_qlen i \<and>
        (jb_decrement_time i < jb_consecutive_good_count i \<or> jb_decrement_time i < jb_period_clean_count i)
      then fbind (stfu_n_resize E i (jb_qlen i - 1)) (\<lambda>(_, j).
        let j1 = stfu_n_reset_counters j in stfu_n_sync E j1 (jb_qlen j1))
      else Inr i)"

definition measure_diff :: "stfu_instance \<Rightarrow> uint32 \<Rightarrow> fault + stfu_instance" where
  "measure_diff i ts =
     fbind (if jb_last_wr_ts i \<noteq> 0
            then (if ts < 1000 \<and> UINT_MAX - 1000 < jb_last_wr_ts i
                  then fbind (c_div ((UINT_MAX - jb_last_wr_ts i) + ts) (jb_samples_per_packet i)) (\<lambda>d. Inr (c_abs d))
                  else if ts \<noteq> 0 then c_div (c_abs (jb_last_wr_ts i - ts)) (jb_samples_per_packet i)
                  else Inr 0)
            else Inr 0)
       (\<lambda>d. Inr (i\<lparr>jb_diff := d, jb_diff_total := jb_diff_total i + d\<rparr>))"

definition end_period :: "stfu_env \<Rightarrow> stfu_instance \<Rightarrow> fault + stfu_instance" where
  "end_period E i =
     (if jb_period_time i < jb_period_packet_in_count i
      then let i1 = i\<lparr>jb_period_packet_in_count := 0\<rparr> in
        fbind (if jb_period_missing_count i1 = 0 \<and> jb_orig_qlen i1 < jb_qlen i1
               then fbind (stfu_n_resize E i1 (jb_qlen i1 - 1)) (\<lambda>(_, j). stfu_n_sync E j (jb_qlen j))
               else Inr i1)
          (\<lambda>j. Inr (stfu_n_reset_counters j))
      else Inr i)"

definition in_full :: "stfu_instance \<Rightarrow> bool" where
  "in_full i \<longleftrightarrow> jq_array_len (jb_queues i (jb_in_queue i)) = jq_array_size (jb_queues i (jb_in_queue i))"

definition write_frame :: "stfu_frame \<Rightarrow> uint32 \<Rightarrow> uint16 \<Rightarrow> uint32 \<Rightarrow> byte list \<Rightarrow> stfu_frame" where
  "write_frame f ts seq pt d =
     (let cplen = min (length d) STFU_DATALEN in
      f\<lparr>f_data := take cplen d @ drop cplen (f_data f), f_pt := pt, f_ts := ts, f_seq := seq,
        f_dlen := cplen, f_was_read := False\<rparr>)"

definition store_frame :: "stfu_instance \<Rightarrow> uint32 \<Rightarrow> uint16 \<Rightarrow> uint32 \<Rightarrow> byte list \<Rightarrow> fault + stfu_instance" where
  "store_frame i ts seq pt d =
     (let w = jb_in_queue i; index = jq_array_len (jb_queues i w);
          i1 = set_queue w (\<lambda>q. q\<lparr>jq_array_len := index + 1\<rparr>) i in
      if \<not> index < jq_array_size (jb_queues i1 w) then Inl Assert_failed
      else if length (jq_array (jb_queues i1 w)) \<le> unat index then Inl Out_of_bounds
      else let i2 = (if in_full i1 then stfu_n_swap i1 else i1);
               i3 = i2\<lparr>jb_last_rd_ts := ts, jb_packet_count := jb_packet_count i2 + 1\<rparr>
           in Inr (set_queue w (\<lambda>q. q\<lparr>jq_array := (jq_array q)
                [unat index := write_frame (jq_array q ! unat index) ts seq pt d]\<rparr>) i3))"

definition stfu_n_add_data :: "stfu_env \<Rightarrow> stfu_instance \<Rightarrow> uint32 \<Rightarrow> uint16 \<Rightarrow> uint32 \<Rightarrow> byte list \<Rightarrow> uint32 \<Rightarrow> bool \<Rightarrow>
    fault + (stfu_status \<times> stfu_instance)" where
  "stfu_n_add_data E i ts seq pt d timer_ts is_last =
     (let (go, i1) = learn_size i ts in
      if \<not> go then Inr (STFU_IT_FAILED, i1) else
      fbind (check_drift E i1 ts timer_ts) (\<lambda>i2.
      fbind (check_ts E i2 ts) (\<lambda>(good_ts, i3).
      fbind (adapt_size E (count_in i3 good_ts)) (\<lambda>i4.
      fbind (measure_diff i4 ts) (\<lambda>i5.
      fbind (end_period E i5) (\<lambda>i6.
        let i7 = (if is_last \<or> in_full i6 then stfu_n_swap i6 else i6) in
        if is_last then Inr (STFU_IM_DONE, i7)
        else fbind (store_frame i7 ts seq pt d) (\<lambda>i8. Inr (STFU_IT_WORKED, i8))))))))"

section \<open>Reading a frame\<close>

definition mark_read :: "queue_id \<Rightarrow> nat \<Rightarrow> stfu_instance \<Rightarrow> stfu_instance" where
  "mark_read q k i =
     (set_queue q (\<lambda>qu. qu\<lparr>jq_last_index := of_nat k,
        jq_array := (jq_array qu)[k := (jq_array qu ! k)\<lparr>f_was_read := True\<rparr>]\<rparr>) i)
      \<lparr>jb_period_packet_out_count := jb_period_packet_out_count i + 1,
       jb_session_packet_out_count := jb_session_packet_out_count i + 1\<rparr>"

fun best_unread :: "uint32 \<Rightarrow> stfu_frame list \<Rightarrow> nat \<Rightarrow> nat \<Rightarrow> int \<times> nat option \<Rightarrow> fault + nat option" where
  "best_unread cur arr k 0 (d, best) = Inr best"
| "best_unread cur arr k (Suc n) (d, best) =
     (if k < length arr then
        let f = arr ! k; cur_diff = sint (c_abs (f_ts f - cur)) in
        best_unread cur arr (Suc k) n (if \<not> f_was_read f \<and> cur_diff < d then (cur_diff, Some k) else (d, best))
      else Inl Out_of_bounds)"

definition stfu_n_find_any_frame :: "stfu_instance \<Rightarrow> queue_id \<Rightarrow> fault + (frame_ref option \<times> stfu_instance)" where
  "stfu_n_find_any_frame i q =
     fbind (best_unread (jb_cur_ts i) (jq_array (jb_queues i q)) 0 (unat (jq_real_array_size (jb_queues i q))) (1000000, None))
       (\<lambda>best. case best of None \<Rightarrow> Inr (None, i) | Some k \<Rightarrow> Inr (Some (Slot q k), mark_read q k i))"

fun scan_frames :: "(stfu_frame \<Rightarrow> bool) \<Rightarrow> stfu_frame list \<Rightarrow> nat \<Rightarrow> nat \<Rightarrow> fault + nat option" where
  "scan_frames P arr k 0 = Inr None"
| "scan_frames P arr k (Suc n) =
     (if k < length arr then if P (arr ! k) then Inr (Some k) else scan_frames P arr (Suc k) n
      else Inl Out_of_bounds)"

definition frame_between :: "uint32 \<Rightarrow> uint32 \<Rightarrow> stfu_frame \<Rightarrow> bool" where
  "frame_between min_ts max_ts f \<longleftrightarrow> f_ts f = max_ts \<or> min_ts < f_ts f \<and> f_ts f < max_ts"

definition stfu_n_find_frame :: "stfu_instance \<Rightarrow> queue_id \<Rightarrow> uint32 \<Rightarrow> uint32 \<Rightarrow> fault + (frame_ref option \<times> stfu_instance)" where
  "stfu_n_find_frame i q min_ts max_ts =
     fbind (scan_frames (frame_between min_ts max_ts) (jq_array (jb_queues i q)) 0 (unat (jq_array_size (jb_queues i q))))
       (\<lambda>hit. case hit of None \<Rightarrow> Inr (None, i) | Some k \<Rightarrow> Inr (Some (Slot q k), mark_read q k i))"

definition adopt :: "frame_ref option \<Rightarrow> stfu_instance \<Rightarrow> stfu_instance" where
  "adopt r i = (case r of None \<Rightarrow> i
     | Some f \<Rightarrow> i\<lparr>jb_cur_ts := f_ts (frame_at i f), jb_cur_seq := f_seq (frame_at i f)\<rparr>)"

text \<open>The first timestamp to play; \<open>None\<close> is the early return taken only with a logger and debugging on.\<close>

definition start_ts :: "stfu_env \<Rightarrow> stfu_instance \<Rightarrow> fault + stfu_instance option" where
  "start_ts E i =
     (let out = jb_queues i (jb_out_queue i); verbose = env_log E \<and> jb_debug i in
      fbind (scan_frames (\<lambda>f. \<not> f_was_read f \<or> verbose) (jq_array out) 0 (unat (jq_array_len out))) (\<lambda>hit.
        case hit of None \<Rightarrow> Inr (Some i)
        | Some k \<Rightarrow> let f = jq_array out ! k in
            if \<not> f_was_read f then Inr (Some (i\<lparr>jb_cur_ts := f_ts f, jb_cur_seq := f_seq f\<rparr>))
            else Inr None))"

definition next_ts :: "stfu_env \<Rightarrow> stfu_instance \<Rightarrow> fault + stfu_instance option" where
  "next_ts E i =
     (if jb_cur_ts i = 0 \<and> jb_last_wr_ts i < 1000 then start_ts E i
      else Inr (Some (i\<lparr>jb_cur_ts := jb_cur_ts i + jb_samples_per_packet i, jb_cur_seq := jb_cur_seq i + 1\<rparr>)))"

definition find_in_queues :: "stfu_instance \<Rightarrow> fault + (frame_ref option \<times> stfu_instance)" where
  "find_in_queues i =
     fbind (stfu_n_find_frame i (jb_out_queue i) (jb_last_wr_ts i) (jb_cur_ts i)) (\<lambda>(r, i1).
       if r \<noteq> None
       then Inr (r, set_queue (jb_out_queue i1) (\<lambda>q. if jq_array_len q \<noteq> 0 then q\<lparr>jq_array_len := jq_array_len q - 1\<rparr> else q) i1)
       else fbind (stfu_n_find_frame i1 (jb_in_queue i1) (jb_last_wr_ts i1) (jb_cur_ts i1)) (\<lambda>(r2, i2).
         if r2 \<noteq> None then Inr (r2, i2)
         else stfu_n_find_frame i2 (jb_old_queue i2) (jb_last_wr_ts i2) (jb_cur_ts i2)))"

definition sync_frame :: "frame_ref option \<Rightarrow> stfu_instance \<Rightarrow> fault + (frame_ref option \<times> stfu_instance)" where
  "sync_frame r i =
     (if jb_sync_out i = 0 then Inr (r, i)
      else if r \<noteq> None then Inr (r, i\<lparr>jb_sync_out := 0\<rparr>)
      else fbind (stfu_n_find_any_frame i (jb_out_queue i)) (\<lambda>(r1, i1).
        Inr (r1, (adopt r1 i1)\<lparr>jb_sync_out := 0\<rparr>)))"

text \<open>Accounting for a missing frame; the flag says that the frame is behind the last packet in.\<close>

definition note_missing :: "stfu_instance \<Rightarrow> fault + (bool \<times> stfu_instance)" where
  "note_missing i =
     (let delay = jb_cur_ts i - jb_last_rd_ts i in
      fbind (c_div (c_abs delay) (jb_samples_per_packet i)) (\<lambda>need.
        let i1 = i\<lparr>jb_period_missing_count := jb_period_missing_count i + 1,
                   jb_session_missing_count := jb_session_missing_count i + 1,
                   jb_period_need_range := jb_period_need_range i + need\<rparr>;
            i2 = (if jb_orig_qlen i1 * 100 < jb_packet_count i1 \<and> 0 < sint delay \<and> jb_qlen i1 < need \<and> need < jb_qlen i1 + 5
                  then i1\<lparr>jb_packet_count := 0\<rparr> else i1)
        in Inr (sint delay < 0, i2)))"

definition play_frame :: "frame_ref \<Rightarrow> stfu_instance \<Rightarrow> stfu_instance" where
  "play_frame r i =
     (let f = frame_at i r;
          i1 = i\<lparr>jb_consecutive_good_count := jb_consecutive_good_count i + 1,
                 jb_period_good_count := jb_period_good_count i + 1, jb_consecutive_bad_count := 0,
                 jb_last_frame := Some r\<rparr>;
          i2 = set_queue (jb_out_queue i1) (\<lambda>q. q\<lparr>jq_wr_len := jq_wr_len q + 1\<rparr>) i1
      in i2\<lparr>jb_last_wr_ts := f_ts f, jb_miss_count := 0,
            jb_plc_len := (if f_dlen f \<noteq> 0 then of_nat (f_dlen f) else jb_plc_len i2),
            jb_plc_pt := f_pt f\<rparr>)"

definition conceal :: "stfu_instance \<Rightarrow> fault + (frame_ref \<times> stfu_instance)" where
  "conceal i =
     fbind (stfu_n_find_any_frame i (jb_out_queue i)) (\<lambda>(r, i1).
       case r of
         Some f \<Rightarrow> let i2 = adopt r i1 in
           Inr (f, i2\<lparr>jb_last_wr_ts := jb_cur_ts i2, jb_miss_count := jb_miss_count i2 + 1\<rparr>)
       | None \<Rightarrow>
           Inr (Int_frame (jb_out_queue i1),
             (set_queue (jb_out_queue i1) (\<lambda>q. q\<lparr>jq_int_frame := (jq_int_frame q)
                \<lparr>f_dlen := unat (jb_plc_len i1), f_pt := jb_plc_pt i1, f_ts := jb_cur_ts i1, f_seq := jb_cur_seq i1\<rparr>\<rparr>) i1)
             \<lparr>jb_last_wr_ts := jb_cur_ts i1, jb_miss_count := jb_miss_count i1 + 1\<rparr>))"

definition miss_frame :: "stfu_env \<Rightarrow> stfu_instance \<Rightarrow> fault + (frame_ref option \<times> stfu_instance)" where
  "miss_frame E i =
     fbind (note_missing i) (\<lambda>(behind, i1).
       if behind then fbind (stfu_n_reset E i1) (\<lambda>i2. Inr (None, i2))
       else fbind (conceal (i1\<lparr>jb_consecutive_bad_count := jb_consecutive_bad_count i1 + 1,
                jb_period_bad_count := jb_period_bad_count i1 + 1, jb_consecutive_good_count := 0\<rparr>)) (\<lambda>(f, i2).
         if jb_max_plc i2 < jb_miss_count i2 then fbind (stfu_n_reset E i2) (\<lambda>i3. Inr (None, i3))
         else Inr (Some f, i2)))"

definition stfu_n_read_a_frame :: "stfu_env \<Rightarrow> stfu_instance \<Rightarrow> fault + (frame_ref option \<times> stfu_instance)" where
  "stfu_n_read_a_frame E i =
     (if jb_samples_per_packet i = 0 then Inr (None, i)
      else if \<not> jb_ready i then Inr (None, i)
      else fbind (next_ts E i) (\<lambda>started. case started of None \<Rightarrow> Inr (None, i)
      | Some i1 \<Rightarrow>
        fbind (find_in_queues i1) (\<lambda>(r0, i2).
        fbind (sync_frame r0 (adopt r0 i2)) (\<lambda>(r, i3).
          if jb_cur_ts i3 = 0 then Inr (None, i3)
          else case r of
            Some f \<Rightarrow> Inr (Some f, play_frame f i3)
          | None \<Rightarrow> miss_frame E i3))))"

fun next_frame_in :: "uint32 \<Rightarrow> stfu_queue list \<Rightarrow> fault + stfu_frame option" where
  "next_frame_in target [] = Inr None"
| "next_frame_in target (q # qs) =
     fbind (scan_frames (\<lambda>f. target < f_ts f) (jq_array q) 0 (unat (jq_array_size q))) (\<lambda>hit.
       case hit of Some k \<Rightarrow> Inr (Some (jq_array q ! k)) | None \<Rightarrow> next_frame_in target qs)"

definition stfu_n_copy_next_frame :: "stfu_instance \<Rightarrow> uint32 \<Rightarrow> uint16 \<Rightarrow> uint16 \<Rightarrow> fault + stfu_frame option" where
  "stfu_n_copy_next_frame jb timestamp seq distance =
     next_frame_in (timestamp + (ucast distance - 1) * jb_samples_per_packet jb)
       [jb_queues jb (jb_out_queue jb), jb_queues jb (jb_in_queue jb), jb_queues jb (jb_old_queue jb)]"

section \<open>Activation by an RTP session\<close>

definition switch_rtp_activate_jitter_buffer ::
    "stfu_env \<Rightarrow> bool \<Rightarrow> nat \<Rightarrow> nat \<Rightarrow> stfu_instance option \<Rightarrow> uint32 \<Rightarrow> uint32 \<Rightarrow> uint32 \<Rightarrow> uint32 \<Rightarrow> uint32 \<Rightarrow>
     fault + (switch_status \<times> stfu_instance option)" where
  "switch_rtp_activate_jitter_buffer E rtp_ready jb_callback_fn session jb queue_frames max_queue_frames
       samples_per_packet samples_per_second max_drift =
     (if \<not> rtp_ready then Inr (SWITCH_STATUS_FALSE, jb) else
      let qf = (if queue_frames < 1 then 3 else queue_frames);
          mqf = (if max_queue_frames < qf then qf * 3 else max_queue_frames) in
      fbind (case jb of Some i \<Rightarrow> fbind (stfu_n_resize E i qf) (\<lambda>(_, j). Inr (Some j))
             | None \<Rightarrow> stfu_n_init E qf (if mqf \<noteq> 0 then mqf else 50) samples_per_packet samples_per_second max_drift)
        (\<lambda>jb1. case jb1 of
           Some i \<Rightarrow> Inr (SWITCH_STATUS_SUCCESS, Some (stfu_n_call_me i (Some jb_callback_fn) session))
         | None \<Rightarrow> Inr (SWITCH_STATUS_FALSE, None)))"


section \<open>Well-formed instances\<close>

definition frame_ok :: "stfu_frame \<Rightarrow> bool" where
  "frame_ok f \<longleftrightarrow> length (f_data f) = STFU_DATALEN \<and> f_dlen f \<le> STFU_DATALEN"

definition queue_ok :: "uint32 \<Rightarrow> uint32 \<Rightarrow> stfu_queue \<Rightarrow> bool" where
  "queue_ok n m q \<longleftrightarrow> length (jq_array q) = unat (jq_real_array_size q) \<and> jq_array_size q = n \<and>
     n \<le> jq_real_array_size q \<and> jq_real_array_size q \<le> m \<and> jq_array_len q \<le> n \<and>
     (\<forall>f \<in> set (jq_array q). frame_ok f) \<and> frame_ok (jq_int_frame q)"

text \<open>
  The invariant of an instance whose length never exceeds \<open>mx\<close>; with \<open>st\<close> set, an instance that has
  grown to \<open>mx\<close>.
\<close>

definition jb_wf :: "bool \<Rightarrow> uint32 \<Rightarrow> stfu_env \<Rightarrow> stfu_instance \<Rightarrow> bool" where
  "jb_wf st mx E i \<longleftrightarrow> jb_samples_per_packet i \<noteq> 0 \<and> jb_qlen i \<noteq> 0 \<and> jb_orig_qlen i \<noteq> 0 \<and>
     jb_max_qlen i = mx \<and> jb_qlen i \<le> mx \<and> (st \<longrightarrow> jb_qlen i = mx) \<and>
     (\<forall>q. queue_ok (jb_qlen i) mx (jb_queues i q)) \<and>
     distinct [jb_in_queue i, jb_out_queue i, jb_old_queue i] \<and> unat (jb_plc_len i) \<le> STFU_DATALEN \<and>
     (\<forall>n \<le> unat mx. env_frames E n) \<and> 3 \<le> env_stack E"

lemma queue_ok_counts [simp]:
  "queue_ok n m (q\<lparr>jq_wr_len := a\<rparr>) = queue_ok n m q"
  "queue_ok n m (q\<lparr>jq_last_index := b\<rparr>) = queue_ok n m q"
  "queue_ok n m (q\<lparr>jq_last_jitter := c\<rparr>) = queue_ok n m q"
  by (simp_all add: queue_ok_def)

lemma zero_frame_ok [simp]: "frame_ok zero_frame"
  by (simp add: frame_ok_def zero_frame_def)

lemma set_queue_simps [simp]:
  "jb_queues (set_queue q f i) = (jb_queues i)(q := f (jb_queues i q))"
  "jb_in_queue (set_queue q f i) = jb_in_queue i"
  "jb_out_queue (set_queue q f i) = jb_out_queue i"
  "jb_old_queue (set_queue q f i) = jb_old_queue i"
  "jb_samples_per_packet (set_queue q f i) = jb_samples_per_packet i"
  "jb_qlen (set_queue q f i) = jb_qlen i"
  "jb_orig_qlen (set_queue q f i) = jb_orig_qlen i"
  "jb_max_qlen (set_queue q f i) = jb_max_qlen i"
  "jb_plc_len (set_queue q f i) = jb_plc_len i"
  "jb_cur_ts (set_queue q f i) = jb_cur_ts i"
  "jb_last_wr_ts (set_queue q f i) = jb_last_wr_ts i"
  "jb_period_missing_count (set_queue q f i) = jb_period_missing_count i"
  "jb_ready (set_queue q f i) = jb_ready i"
  "jb_sync_out (set_queue q f i) = jb_sync_out i"
  by (simp_all add: set_queue_def)

lemma jb_wf_set_queue:
  "jb_wf st mx E i \<Longrightarrow> (\<And>x. queue_ok (jb_qlen i) mx x \<Longrightarrow> queue_ok (jb_qlen i) mx (f x)) \<Longrightarrow>
   jb_wf st mx E (set_queue q f i)"
  by (simp add: jb_wf_def)

lemma jb_wf_cong:
  assumes "jb_wf st mx E i" "jb_queues j = jb_queues i" "jb_in_queue j = jb_in_queue i" "jb_out_queue j = jb_out_queue i"
    "jb_old_queue j = jb_old_queue i" "jb_samples_per_packet j = jb_samples_per_packet i" "jb_qlen j = jb_qlen i"
    "jb_orig_qlen j = jb_orig_qlen i" "jb_max_qlen j = jb_max_qlen i" "jb_plc_len j = jb_plc_len i"
  shows "jb_wf st mx E j"
  using assms by (simp add: jb_wf_def)

lemma reset_counters_wf: "jb_wf st mx E i \<Longrightarrow> jb_wf st mx E (stfu_n_reset_counters i)"
  by (simp add: jb_wf_def stfu_n_reset_counters_def)

lemma reset_queues_wf: "jb_wf st mx E i \<Longrightarrow> jb_wf st mx E (reset_queues i)"
  unfolding reset_queues_def by (rule reset_counters_wf) (simp add: jb_wf_def queue_ok_def)

lemma reset_position_wf: "jb_wf st mx E i \<Longrightarrow> jb_wf st mx E (reset_position i)"
  by (simp add: jb_wf_def reset_position_def)

lemma reset_queues_qlen [simp]: "jb_qlen (reset_queues i) = jb_qlen i"
  by (simp add: reset_queues_def stfu_n_reset_counters_def)

lemma word_pos_ge_1: "(w :: uint32) \<noteq> 0 \<Longrightarrow> \<not> w < 1"
  by (simp add: word_less_nat_alt unat_eq_0)

lemma sync_small_at: "jb_wf st mx E i \<Longrightarrow> \<not> jb_qlen i < n \<Longrightarrow> succeeds (jb_wf st mx E) (stfu_n_sync_at (Suc d) i n)"
  by (auto intro: jb_wf_cong)

lemma reset_at_wf: "jb_wf st mx E i \<Longrightarrow> succeeds (jb_wf st mx E) (stfu_n_reset_at (Suc (Suc d)) i)"
proof -
  assume i: "jb_wf st mx E i"
  then have "\<not> jb_qlen i < 1" by (simp add: jb_wf_def word_pos_ge_1)
  then have s: "succeeds (jb_wf st mx E) (stfu_n_sync_at (Suc d) (reset_queues i) 1)"
    by (intro sync_small_at reset_queues_wf i) simp
  have "stfu_n_reset_at (Suc (Suc d)) i =
      fbind (stfu_n_sync_at (Suc d) (reset_queues i) 1) (\<lambda>j. Inr (reset_position j))"
    by (rule stfu_n_reset_at.simps)
  also have "succeeds (jb_wf st mx E) \<dots>"
    using s by (rule succeeds_bind) (simp add: reset_position_wf)
  finally show ?thesis .
qed

lemma stack_levels: "jb_wf st mx E i \<Longrightarrow> \<exists>d. env_stack E = Suc (Suc (Suc d))"
  by (metis add_Suc_right jb_wf_def nat_le_iff_add numeral_3_eq_3 plus_1_eq_Suc add.commute add_0_right)

lemma reset_wf: "jb_wf st mx E i \<Longrightarrow> succeeds (jb_wf st mx E) (stfu_n_reset E i)"
  using stack_levels [of st mx E i] reset_at_wf [of st mx E i] unfolding stfu_n_reset_def by metis

lemma sync_wf: "jb_wf st mx E i \<Longrightarrow> succeeds (jb_wf st mx E) (stfu_n_sync E i n)"
proof -
  assume i: "jb_wf st mx E i"
  then obtain d where d: "env_stack E = Suc (Suc (Suc d))" using stack_levels by blast
  show ?thesis
  proof (cases "jb_qlen i < n")
    case True
    then show ?thesis using reset_at_wf [OF i, of d]
      by (simp add: stfu_n_sync_def d del: stfu_n_reset_at.simps)
  next
    case False
    then show ?thesis using sync_small_at [OF i] by (simp add: stfu_n_sync_def d del: stfu_n_sync_at.simps)
  qed
qed

lemma resize_aqueue_wf:
  assumes q: "queue_ok n m q" and "n' \<le> m" "\<forall>k \<le> unat m. env_frames E k"
  shows "succeeds (queue_ok n' m) (stfu_n_resize_aqueue E q n')"
proof (cases "n' \<le> jq_real_array_size q")
  case True
  then show ?thesis using q by (auto simp: stfu_n_resize_aqueue_def queue_ok_def)
next
  case False
  have "env_frames E (unat n')" using assms by (simp add: word_le_nat_alt)
  moreover have "unat (jq_array_size q) \<le> unat (jq_real_array_size q)" "unat (jq_real_array_size q) < unat n'"
    using q False by (auto simp: queue_ok_def word_le_nat_alt)
  ultimately show ?thesis using q False assms(2)
    by (auto simp: stfu_n_resize_aqueue_def queue_ok_def word_le_nat_alt dest: in_set_takeD)
qed

lemma resize_target_bound:
  "resize_target i n = Some k \<Longrightarrow> n \<noteq> 0 \<Longrightarrow> jb_qlen i \<le> jb_max_qlen i \<Longrightarrow> jb_qlen i \<noteq> 0 \<Longrightarrow> k \<noteq> 0 \<and> k \<le> jb_max_qlen i"
  by (auto simp: resize_target_def split: if_splits)

lemma resize_wf:
  assumes i: "jb_wf st mx E i" and n: "n \<noteq> 0"
  shows "succeeds (\<lambda>(s, j). jb_wf st mx E j) (stfu_n_resize E i n)"
proof (cases "resize_target i n")
  case None
  then show ?thesis using i by (simp add: stfu_n_resize_def)
next
  case (Some k)
  have k: "k \<noteq> 0" "k \<le> mx" "\<not> st"
    using resize_target_bound [OF Some n] i Some by (auto simp: jb_wf_def resize_target_def)
  have r: "succeeds (queue_ok k mx) (stfu_n_resize_aqueue E (jb_queues i q) k)" for q
    using i k by (intro resize_aqueue_wf [of "jb_qlen i"]) (auto simp: jb_wf_def)
  have wf: "jb_wf st mx E (i\<lparr>jb_queues := case_queue_id a b c, jb_most_qlen := mq, jb_qlen := k, jb_max_plc := 5, jb_last_frame := None\<rparr>)"
    if "queue_ok k mx a" "queue_ok k mx b" "queue_ok k mx c" for a b c mq
    using i k that by (auto simp: jb_wf_def split: queue_id.splits)
  show ?thesis
    unfolding stfu_n_resize_def Some option.case
    by (rule succeeds_bind [OF r], rule succeeds_bind [OF r], rule succeeds_bind [OF r]) (simp add: wf)
qed

lemma swap_wf: "jb_wf st mx E i \<Longrightarrow> jb_wf st mx E (stfu_n_swap i)"
  by (auto simp: jb_wf_def stfu_n_swap_def Let_def queue_ok_def)


lemma learn_size_known: "jb_samples_per_packet i \<noteq> 0 \<Longrightarrow> learn_size i ts = (True, i)"
  by (simp add: learn_size_def)

lemma set_drift_wf: "jb_wf st mx E i \<Longrightarrow> jb_wf st mx E (set_drift i ts timer)"
  by (simp add: jb_wf_def set_drift_def Let_def)

lemma check_drift_wf: "jb_wf st mx E i \<Longrightarrow> succeeds (jb_wf st mx E) (check_drift E i ts timer)"
  unfolding check_drift_def Let_def
  by (auto intro!: sync_wf intro: jb_wf_cong [OF set_drift_wf [of st mx E i ts timer]] set_drift_wf)

lemma check_ts_wf: "jb_wf st mx E i \<Longrightarrow> succeeds (\<lambda>(g, j). jb_wf st mx E j) (check_ts E i ts)"
proof -
  assume i: "jb_wf st mx E i"
  have "queue_ok n m q \<Longrightarrow> jq_array_len q < jq_array_size q \<Longrightarrow> queue_ok n m (q\<lparr>jq_array_len := jq_array_len q + 1\<rparr>)"
    for n m q by (auto simp: queue_ok_def inc_le)
  then have "jb_wf st mx E (set_queue (jb_in_queue i) (\<lambda>q. if jq_array_len q < jq_array_size q
      then q\<lparr>jq_array_len := jq_array_len q + 1\<rparr> else q) i)"
    by (intro jb_wf_set_queue [OF i]) auto
  from sync_wf [OF this, of 1] show ?thesis
    unfolding check_ts_def using i by (auto intro!: succeeds_bind intro: jb_wf_cong)
qed

lemma count_in_wf: "jb_wf st mx E i \<Longrightarrow> jb_wf st mx E (count_in i g)"
  by (simp add: jb_wf_def count_in_def Let_def)

lemma word_pred_pos: "(a :: uint32) < b \<Longrightarrow> a \<noteq> 0 \<Longrightarrow> b - 1 \<noteq> 0"
  by (auto simp: word_less_nat_alt unat_eq_0)

lemma adapt_size_wf: "jb_wf st mx E i \<Longrightarrow> succeeds (jb_wf st mx E) (adapt_size E i)"
proof -
  assume i: "jb_wf st mx E i"
  then have orig: "jb_orig_qlen i \<noteq> 0" by (simp add: jb_wf_def)
  have grow: "succeeds (\<lambda>(s, j). jb_wf st mx E j) (stfu_n_resize E i (jb_qlen i + 1))"
  proof (cases "jb_qlen i + 1 = 0")
    case True
    then have "jb_qlen i = - 1" by (simp add: eq_neg_iff_add_eq_0)
    then have "jb_qlen i = jb_max_qlen i" using i by (simp add: jb_wf_def word_order.extremum_unique)
    then show ?thesis using i by (simp add: stfu_n_resize_def resize_target_def)
  qed (rule resize_wf [OF i])
  have shrink: "succeeds (\<lambda>(s, j). jb_wf st mx E j) (stfu_n_resize E i (jb_qlen i - 1))" if "jb_orig_qlen i < jb_qlen i"
    using that by (intro resize_wf [OF i] word_pred_pos [OF _ orig])
  show ?thesis
    unfolding adapt_size_def using i
    by (auto simp: Let_def intro!: succeeds_bind [OF grow] succeeds_bind [OF shrink] reset_counters_wf sync_wf)
qed

lemma measure_diff_wf: "jb_wf st mx E i \<Longrightarrow> succeeds (jb_wf st mx E) (measure_diff i ts)"
proof -
  assume i: "jb_wf st mx E i"
  then have "jb_samples_per_packet i \<noteq> 0" by (simp add: jb_wf_def)
  then show ?thesis unfolding measure_diff_def
    by (auto simp: c_div_def intro: jb_wf_cong [OF i])
qed

lemma end_period_wf: "jb_wf st mx E i \<Longrightarrow> succeeds (jb_wf st mx E) (end_period E i)"
proof -
  assume i: "jb_wf st mx E i"
  define i1 where "i1 = i\<lparr>jb_period_packet_in_count := 0\<rparr>"
  have i1: "jb_wf st mx E i1" unfolding i1_def by (rule jb_wf_cong [OF i]) simp_all
  then have "jb_orig_qlen i1 \<noteq> 0" by (simp add: jb_wf_def)
  then have shrink: "succeeds (\<lambda>(s, j). jb_wf st mx E j) (stfu_n_resize E i1 (jb_qlen i1 - 1))" if "jb_orig_qlen i1 < jb_qlen i1"
    using that by (intro resize_wf [OF i1] word_pred_pos)
  have "succeeds (jb_wf st mx E) (if jb_period_missing_count i1 = 0 \<and> jb_orig_qlen i1 < jb_qlen i1
      then fbind (stfu_n_resize E i1 (jb_qlen i1 - 1)) (\<lambda>(_, j). stfu_n_sync E j (jb_qlen j)) else Inr i1)"
    using i1 by (auto intro!: succeeds_bind [OF shrink] sync_wf)
  then have "succeeds (jb_wf st mx E) (fbind (if jb_period_missing_count i1 = 0 \<and> jb_orig_qlen i1 < jb_qlen i1
      then fbind (stfu_n_resize E i1 (jb_qlen i1 - 1)) (\<lambda>(_, j). stfu_n_sync E j (jb_qlen j)) else Inr i1)
      (\<lambda>j. Inr (stfu_n_reset_counters j)))"
    by (rule succeeds_bind) (simp add: reset_counters_wf)
  then show ?thesis unfolding end_period_def Let_def i1_def [symmetric] using i by simp
qed

lemma write_frame_ok: "frame_ok f \<Longrightarrow> frame_ok (write_frame f ts seq pt d)"
  by (simp add: frame_ok_def write_frame_def Let_def)

lemma queue_ok_update:
  "queue_ok n m q \<Longrightarrow> (frame_ok (jq_array q ! k) \<Longrightarrow> frame_ok f) \<Longrightarrow> k < length (jq_array q) \<Longrightarrow>
   queue_ok n m (q\<lparr>jq_array := (jq_array q)[k := f]\<rparr>)"
  by (auto simp: queue_ok_def dest!: set_update_subset_insert [THEN subsetD])

lemma store_frame_wf:
  assumes i: "jb_wf st mx E i" and room: "\<not> in_full i"
  shows "succeeds (jb_wf st mx E) (store_frame i ts seq pt d)"
proof -
  define w where "w = jb_in_queue i"
  define k where "k = jq_array_len (jb_queues i w)"
  define i1 where "i1 = set_queue w (\<lambda>q. q\<lparr>jq_array_len := k + 1\<rparr>) i"
  have q: "queue_ok (jb_qlen i) mx (jb_queues i w)" using i by (simp add: jb_wf_def)
  have less: "k < jb_qlen i" using room q by (auto simp: in_full_def w_def k_def queue_ok_def)
  then have q1: "queue_ok (jb_qlen i) mx ((jb_queues i w)\<lparr>jq_array_len := k + 1\<rparr>)"
    using q by (auto simp: queue_ok_def inc_le)
  have i1: "jb_wf st mx E i1" using i q1 by (simp add: i1_def jb_wf_def)
  define i2 where "i2 = (if in_full i1 then stfu_n_swap i1 else i1)"
  have i2: "jb_wf st mx E i2" using i1 by (simp add: i2_def swap_wf)
  define i3 where "i3 = i2\<lparr>jb_last_rd_ts := ts, jb_packet_count := jb_packet_count i2 + 1\<rparr>"
  have i3: "jb_wf st mx E i3" unfolding i3_def by (rule jb_wf_cong [OF i2]) simp_all
  have len: "unat k < length (jq_array (jb_queues i w))"
    using q less by (auto simp: queue_ok_def word_le_nat_alt word_less_nat_alt)
  have arr: "jq_array (jb_queues i3 w) = jq_array (jb_queues i w)"
    by (simp add: i3_def i2_def i1_def stfu_n_swap_def Let_def)
  have q3: "queue_ok (jb_qlen i3) mx (jb_queues i3 w)" using i3 by (simp add: jb_wf_def)
  have u: "queue_ok (jb_qlen i3) mx ((jb_queues i3 w)\<lparr>jq_array := (jq_array (jb_queues i3 w))
      [unat k := write_frame (jq_array (jb_queues i3 w) ! unat k) ts seq pt d]\<rparr>)"
    using len arr by (intro queue_ok_update [OF q3] write_frame_ok) simp_all
  have "jb_wf st mx E (set_queue w (\<lambda>q. q\<lparr>jq_array := (jq_array q)[unat k := write_frame (jq_array q ! unat k) ts seq pt d]\<rparr>) i3)"
    using i3 u by (simp add: jb_wf_def)
  moreover have "jq_array_size (jb_queues i1 w) = jb_qlen i" "length (jq_array (jb_queues i1 w)) = length (jq_array (jb_queues i w))"
    using q by (simp_all add: i1_def queue_ok_def)
  ultimately show ?thesis
    using less len unfolding store_frame_def Let_def w_def [symmetric] k_def [symmetric] i1_def [symmetric]
      i2_def [symmetric] i3_def [symmetric] by simp
qed

lemma swap_room: "jb_wf st mx E i \<Longrightarrow> \<not> in_full (stfu_n_swap i)"
  by (auto simp: jb_wf_def in_full_def stfu_n_swap_def Let_def queue_ok_def)

lemma add_data_wf: "jb_wf st mx E i \<Longrightarrow> succeeds (\<lambda>(s, j). jb_wf st mx E j) (stfu_n_add_data E i ts seq pt d timer l)"
proof -
  assume i: "jb_wf st mx E i"
  then have known: "learn_size i ts = (True, i)" by (simp add: learn_size_known jb_wf_def)
  have tail: "succeeds (\<lambda>(s, j). jb_wf st mx E j)
      (let i7 = (if l \<or> in_full j then stfu_n_swap j else j) in
       if l then Inr (STFU_IM_DONE, i7) else fbind (store_frame i7 ts seq pt d) (\<lambda>i8. Inr (STFU_IT_WORKED, i8)))"
    if j: "jb_wf st mx E j" for j
  proof -
    define i7 where "i7 = (if l \<or> in_full j then stfu_n_swap j else j)"
    have "jb_wf st mx E i7" "\<not> in_full i7" using j swap_room [OF j] by (simp_all add: i7_def swap_wf)
    then show ?thesis unfolding Let_def i7_def [symmetric]
      by (auto intro!: succeeds_bind [OF store_frame_wf])
  qed
  show ?thesis
    unfolding stfu_n_add_data_def known Let_def prod.case
    using tail unfolding Let_def
    by (auto intro!: succeeds_bind [OF check_drift_wf [OF i]] succeeds_bind [OF check_ts_wf]
      succeeds_bind [OF adapt_size_wf] succeeds_bind [OF measure_diff_wf] succeeds_bind [OF end_period_wf] count_in_wf)
qed


definition scan_hit :: "(stfu_frame \<Rightarrow> bool) \<Rightarrow> stfu_frame list \<Rightarrow> nat \<Rightarrow> nat \<Rightarrow> nat option \<Rightarrow> bool" where
  "scan_hit P arr k m hit = (case hit of None \<Rightarrow> \<forall>j \<in> {k..<m}. \<not> P (arr ! j)
     | Some h \<Rightarrow> h \<in> {k..<m} \<and> P (arr ! h) \<and> (\<forall>j \<in> {k..<h}. \<not> P (arr ! j)))"

lemma scan_hit_step: "\<not> P (arr ! k) \<Longrightarrow> k < m \<Longrightarrow> scan_hit P arr (Suc k) m hit \<Longrightarrow> scan_hit P arr k m hit"
  unfolding scan_hit_def by (force split: option.splits simp: Suc_le_eq le_less)

lemma scan_frames_spec:
  "k + n \<le> length arr \<Longrightarrow> succeeds (scan_hit P arr k (k + n)) (scan_frames P arr k n)"
proof (induction n arbitrary: k)
  case (Suc n)
  show ?case
  proof (cases "P (arr ! k)")
    case False
    have "k < length arr" using Suc.prems by simp
    then have "scan_frames P arr k (Suc n) = scan_frames P arr (Suc k) n" using False by simp
    then show ?thesis using Suc.IH [of "Suc k"] Suc.prems False
      by (auto elim!: succeeds_mono intro: scan_hit_step)
  qed (use Suc.prems in \<open>auto simp: scan_hit_def\<close>)
qed (simp add: scan_hit_def)

lemma best_unread_spec:
  "k + n \<le> length arr \<Longrightarrow> (case b of None \<Rightarrow> True | Some h \<Rightarrow> h < length arr \<and> \<not> f_was_read (arr ! h)) \<Longrightarrow>
   succeeds (\<lambda>hit. case hit of None \<Rightarrow> True | Some h \<Rightarrow> h < length arr \<and> \<not> f_was_read (arr ! h)) (best_unread cur arr k n (d, b))"
proof (induction n arbitrary: k d b)
  case (Suc n)
  then show ?case by (auto simp: Let_def split: option.splits)
qed simp

definition ref_ok :: "stfu_instance \<Rightarrow> frame_ref \<Rightarrow> bool" where
  "ref_ok i r = (case r of Slot q k \<Rightarrow> k < length (jq_array (jb_queues i q)) | Int_frame q \<Rightarrow> True)"

lemma jb_wf_frames:
  "jb_wf st mx E i \<Longrightarrow> k < length (jq_array (jb_queues i q)) \<Longrightarrow> frame_ok (jq_array (jb_queues i q) ! k)"
  "jb_wf st mx E i \<Longrightarrow> frame_ok (jq_int_frame (jb_queues i q))"
  unfolding jb_wf_def queue_ok_def using nth_mem by blast+

lemma ref_ok_frame: "jb_wf st mx E i \<Longrightarrow> ref_ok i r \<Longrightarrow> frame_ok (frame_at i r)"
  by (cases r) (auto simp: ref_ok_def frame_at_def intro: jb_wf_frames)

lemma mark_read_wf: "jb_wf st mx E i \<Longrightarrow> k < length (jq_array (jb_queues i q)) \<Longrightarrow> jb_wf st mx E (mark_read q k i) \<and> ref_ok (mark_read q k i) (Slot q k)"
proof -
  assume i: "jb_wf st mx E i" and k: "k < length (jq_array (jb_queues i q))"
  have "queue_ok (jb_qlen i) mx (jb_queues i q)" using i by (simp add: jb_wf_def)
  from queue_ok_update [OF this, of k "(jq_array (jb_queues i q) ! k)\<lparr>f_was_read := True\<rparr>"]
  show ?thesis using i k by (simp add: mark_read_def jb_wf_def ref_ok_def frame_ok_def queue_ok_def)
qed

definition found_ok :: "bool \<Rightarrow> uint32 \<Rightarrow> stfu_env \<Rightarrow> frame_ref option \<times> stfu_instance \<Rightarrow> bool" where
  "found_ok st mx E x = (case x of (r, i) \<Rightarrow> jb_wf st mx E i \<and> (case r of None \<Rightarrow> True | Some f \<Rightarrow> ref_ok i f))"

lemma find_any_wf: "jb_wf st mx E i \<Longrightarrow> succeeds (found_ok st mx E) (stfu_n_find_any_frame i q)"
proof -
  assume i: "jb_wf st mx E i"
  then have "0 + unat (jq_real_array_size (jb_queues i q)) \<le> length (jq_array (jb_queues i q))" by (simp add: jb_wf_def queue_ok_def)
  from best_unread_spec [OF this, of None] show ?thesis
    unfolding stfu_n_find_any_frame_def
    by (rule succeeds_bind) (auto simp: found_ok_def i mark_read_wf [OF i] split: option.splits)
qed

lemma find_frame_wf: "jb_wf st mx E i \<Longrightarrow> succeeds (found_ok st mx E) (stfu_n_find_frame i q a b)"
proof -
  assume i: "jb_wf st mx E i"
  then have le: "0 + unat (jq_array_size (jb_queues i q)) \<le> length (jq_array (jb_queues i q))"
    by (simp add: jb_wf_def queue_ok_def word_le_nat_alt)
  from scan_frames_spec [OF this] show ?thesis
    unfolding stfu_n_find_frame_def
    by (rule succeeds_bind) (use le in \<open>auto simp: found_ok_def scan_hit_def i mark_read_wf [OF i] split: option.splits\<close>)
qed

lemma start_ts_wf: "jb_wf st mx E i \<Longrightarrow> succeeds (\<lambda>s. case s of None \<Rightarrow> True | Some j \<Rightarrow> jb_wf st mx E j) (start_ts E i)"
proof -
  assume i: "jb_wf st mx E i"
  then have "0 + unat (jq_array_len (jb_queues i (jb_out_queue i))) \<le> length (jq_array (jb_queues i (jb_out_queue i)))"
    by (auto simp: jb_wf_def queue_ok_def word_le_nat_alt intro: order_trans)
  from scan_frames_spec [OF this] show ?thesis
    unfolding start_ts_def Let_def
    by (rule succeeds_bind) (auto simp: i intro: jb_wf_cong [OF i] split: option.splits)
qed

lemma next_ts_wf: "jb_wf st mx E i \<Longrightarrow> succeeds (\<lambda>s. case s of None \<Rightarrow> True | Some j \<Rightarrow> jb_wf st mx E j) (next_ts E i)"
  by (auto simp: next_ts_def intro!: start_ts_wf intro: jb_wf_cong)

lemma ref_ok_cong: "(\<And>q. jq_array (jb_queues j q) = jq_array (jb_queues i q)) \<Longrightarrow> ref_ok j r = ref_ok i r"
  by (simp add: ref_ok_def split: frame_ref.splits)

lemma found_ok_cong:
  assumes "found_ok st mx E (r, i)" "jb_wf st mx E j" "\<And>q. jq_array (jb_queues j q) = jq_array (jb_queues i q)"
  shows "found_ok st mx E (r, j)"
  using assms ref_ok_cong [of j i] by (auto simp: found_ok_def split: option.splits)

lemma find_in_queues_wf: "jb_wf st mx E i \<Longrightarrow> succeeds (found_ok st mx E) (find_in_queues i)"
proof -
  assume i: "jb_wf st mx E i"
  let ?dec = "\<lambda>q. if jq_array_len q \<noteq> 0 then q\<lparr>jq_array_len := jq_array_len q - 1\<rparr> else q"
  have dec: "queue_ok n m q \<Longrightarrow> queue_ok n m (?dec q)" for n m q
    by (auto simp: queue_ok_def word_le_nat_alt unat_minus_one intro: order_trans)
  have first: "found_ok st mx E (r, set_queue (jb_out_queue j) ?dec j)" if "found_ok st mx E (r, j)" for r j
    using that by (rule found_ok_cong) (use that dec in \<open>auto simp: found_ok_def intro!: jb_wf_set_queue\<close>)
  have rest: "succeeds (found_ok st mx E) (fbind (stfu_n_find_frame j (jb_in_queue j) (jb_last_wr_ts j) (jb_cur_ts j)) (\<lambda>(r2, i2).
         if r2 \<noteq> None then Inr (r2, i2)
         else stfu_n_find_frame i2 (jb_old_queue i2) (jb_last_wr_ts i2) (jb_cur_ts i2)))" if "jb_wf st mx E j" for j
    by (rule succeeds_bind [OF find_frame_wf [OF that]]) (auto simp: found_ok_def intro!: find_frame_wf split: option.splits)
  have wf: "jb_wf st mx E j" if "found_ok st mx E (r, j)" for r j using that by (simp add: found_ok_def)
  show ?thesis unfolding find_in_queues_def
    by (rule succeeds_bind [OF find_frame_wf [OF i]]) (auto simp only: prod.case if_split succeeds_Inr intro!: first rest dest: wf)
qed

lemma adopt_wf: "found_ok st mx E (r, i) \<Longrightarrow> found_ok st mx E (r, adopt r i)"
proof -
  assume r: "found_ok st mx E (r, i)"
  then have "jb_wf st mx E (adopt r i)"
    by (cases r) (auto simp: adopt_def found_ok_def elim: jb_wf_cong)
  with r show ?thesis
    by (rule found_ok_cong) (auto simp: adopt_def split: option.splits)
qed

lemma sync_frame_wf: "found_ok st mx E (r, i) \<Longrightarrow> succeeds (found_ok st mx E) (sync_frame r i)"
proof -
  assume r: "found_ok st mx E (r, i)"
  then have i: "jb_wf st mx E i" by (simp add: found_ok_def)
  have s: "found_ok st mx E (r', j\<lparr>jb_sync_out := 0\<rparr>)" if "found_ok st mx E (r', j)" for r' j
    using that by (rule found_ok_cong) (use that in \<open>auto simp: found_ok_def intro: jb_wf_cong\<close>)
  show ?thesis unfolding sync_frame_def
    using r by (auto intro!: s succeeds_bind [OF find_any_wf [OF i]] adopt_wf simp del: succeeds_Inr simp: succeeds_Inr)
qed

lemma note_missing_wf: "jb_wf st mx E i \<Longrightarrow> succeeds (\<lambda>(b, j). jb_wf st mx E j) (note_missing i)"
proof -
  assume i: "jb_wf st mx E i"
  then have "jb_samples_per_packet i \<noteq> 0" by (simp add: jb_wf_def)
  then show ?thesis by (auto simp: note_missing_def Let_def c_div_def intro: jb_wf_cong [OF i])
qed

lemma play_frame_wf:
  assumes "jb_wf st mx E i" "ref_ok i f"
  shows "found_ok st mx E (Some f, play_frame f i)"
proof -
  have "frame_ok (frame_at i f)" using assms by (rule ref_ok_frame)
  then have "f_dlen (frame_at i f) \<le> 16384" by (simp add: frame_ok_def STFU_DATALEN_def)
  then have "unat (of_nat (f_dlen (frame_at i f)) :: uint32) \<le> STFU_DATALEN"
    by (simp add: unat_of_nat STFU_DATALEN_def take_bit_eq_mod order_trans [OF mod_less_eq_dividend])
  then have "jb_wf st mx E (play_frame f i)" using assms(1)
    by (simp add: play_frame_def Let_def jb_wf_def)
  moreover have "ref_ok (play_frame f i) f"
    using assms(2) by (subst ref_ok_cong [of _ i]) (simp_all add: play_frame_def Let_def)
  ultimately show ?thesis by (simp add: found_ok_def)
qed

lemma conceal_wf: "jb_wf st mx E i \<Longrightarrow> succeeds (\<lambda>(f, j). found_ok st mx E (Some f, j)) (conceal i)"
proof -
  assume i: "jb_wf st mx E i"
  have hit: "found_ok st mx E (Some f, (adopt (Some f) j)\<lparr>jb_last_wr_ts := a, jb_miss_count := b\<rparr>)" if "found_ok st mx E (Some f, j)" for f j a b
    using adopt_wf [OF that] by (rule found_ok_cong) (use adopt_wf [OF that] in \<open>auto simp: found_ok_def intro: jb_wf_cong\<close>)
  have plc: "jb_wf st mx E (set_queue q (\<lambda>qu. qu\<lparr>jq_int_frame := (jq_int_frame qu)
                \<lparr>f_dlen := unat (jb_plc_len j), f_pt := x, f_ts := y, f_seq := z\<rparr>\<rparr>) j
             \<lparr>jb_last_wr_ts := a, jb_miss_count := b\<rparr>)" if "jb_wf st mx E j" for q j x y z a b
    using that by (simp add: jb_wf_def queue_ok_def frame_ok_def)
  show ?thesis unfolding conceal_def
    by (rule succeeds_bind [OF find_any_wf [OF i]])
      (auto simp: Let_def intro!: hit split: option.splits, auto simp: found_ok_def ref_ok_def intro!: plc)
qed

lemma found_none: "jb_wf st mx E j \<Longrightarrow> found_ok st mx E (None, j)"
  by (simp add: found_ok_def)

lemma miss_frame_wf: "jb_wf st mx E i \<Longrightarrow> succeeds (found_ok st mx E) (miss_frame E i)"
proof -
  assume i: "jb_wf st mx E i"
  have reset: "succeeds (found_ok st mx E) (fbind (stfu_n_reset E j) (\<lambda>k. Inr (None, k)))" if "jb_wf st mx E j" for j
    by (rule succeeds_bind [OF reset_wf [OF that]]) (simp add: found_none)
  have wf: "jb_wf st mx E j" if "found_ok st mx E (r, j)" for r j using that by (simp add: found_ok_def)
  have c: "succeeds (\<lambda>(f, j). found_ok st mx E (Some f, j)) (conceal (j\<lparr>jb_consecutive_bad_count := a,
      jb_period_bad_count := b, jb_consecutive_good_count := c\<rparr>))" if "jb_wf st mx E j" for j a b c
    by (intro conceal_wf jb_wf_cong [OF that]) simp_all
  have d: "succeeds (found_ok st mx E) (case x of (f, i2) \<Rightarrow> if jb_max_plc i2 < jb_miss_count i2
      then fbind (stfu_n_reset E i2) (\<lambda>i3. Inr (None, i3)) else Inr (Some f, i2))"
    if "case x of (f, j) \<Rightarrow> found_ok st mx E (Some f, j)" for x
    using that by (cases x) (auto intro!: reset dest: wf)
  show ?thesis unfolding miss_frame_def
    by (rule succeeds_bind [OF note_missing_wf [OF i]])
      (auto intro!: reset succeeds_bind [OF c d] simp del: split_paired_All dest: wf elim: wf)
qed

lemma read_wf: "jb_wf st mx E i \<Longrightarrow> succeeds (found_ok st mx E) (stfu_n_read_a_frame E i)"
proof -
  assume i: "jb_wf st mx E i"
  have finish: "succeeds (found_ok st mx E) (if jb_cur_ts j = 0 then Inr (None, j) else case r of Some f \<Rightarrow> Inr (Some f, play_frame f j)
      | None \<Rightarrow> miss_frame E j)" if "found_ok st mx E (r, j)" for r j
    using that miss_frame_wf [of st mx E j] play_frame_wf [of st mx E j] by (auto simp: found_ok_def split: option.splits)
  have search: "succeeds (found_ok st mx E) (fbind (find_in_queues j) (\<lambda>(r0, i2). fbind (sync_frame r0 (adopt r0 i2)) (\<lambda>(r, i3).
      if jb_cur_ts i3 = 0 then Inr (None, i3) else case r of Some f \<Rightarrow> Inr (Some f, play_frame f i3)
      | None \<Rightarrow> miss_frame E i3)))" if "jb_wf st mx E j" for j
    by (rule succeeds_bind [OF find_in_queues_wf [OF that]])
      (auto intro!: succeeds_bind [OF sync_frame_wf [OF adopt_wf]] finish)
  have "succeeds (found_ok st mx E) (fbind (next_ts E i) (\<lambda>s. case s of None \<Rightarrow> Inr (None, i) | Some j \<Rightarrow>
      fbind (find_in_queues j) (\<lambda>(r0, i2). fbind (sync_frame r0 (adopt r0 i2)) (\<lambda>(r, i3).
      if jb_cur_ts i3 = 0 then Inr (None, i3) else case r of Some f \<Rightarrow> Inr (Some f, play_frame f i3)
      | None \<Rightarrow> miss_frame E i3))))"
    by (rule succeeds_bind [OF next_ts_wf [OF i]]) (auto intro: found_none i search split: option.splits)
  then show ?thesis unfolding stfu_n_read_a_frame_def using i by (simp add: found_none)
qed


section \<open>Runs of a jitter buffer\<close>

datatype jb_op =
    Add_data uint32 uint16 uint32 "byte list" uint32 bool
  | Read_frame
  | Reset
  | Sync uint32
  | Resize uint32
  | Call_me "nat option" nat
  | Debug "string option"

fun jb_exec :: "stfu_env \<Rightarrow> jb_op \<Rightarrow> stfu_instance \<Rightarrow> fault + stfu_instance" where
  "jb_exec E (Add_data ts seq pt d timer l) i = fbind (stfu_n_add_data E i ts seq pt d timer l) (\<lambda>(s, j). Inr j)"
| "jb_exec E Read_frame i = fbind (stfu_n_read_a_frame E i) (\<lambda>(r, j). Inr j)"
| "jb_exec E Reset i = stfu_n_reset E i"
| "jb_exec E (Sync n) i = stfu_n_sync E i n"
| "jb_exec E (Resize n) i = fbind (stfu_n_resize E i n) (\<lambda>(s, j). Inr j)"
| "jb_exec E (Call_me f u) i = Inr (stfu_n_call_me i f u)"
| "jb_exec E (Debug n) i = Inr (stfu_n_debug i n)"

primrec jb_run :: "stfu_env \<Rightarrow> jb_op list \<Rightarrow> stfu_instance \<Rightarrow> fault + stfu_instance" where
  "jb_run E [] i = Inr i"
| "jb_run E (x # xs) i = fbind (jb_exec E x i) (jb_run E xs)"

lemma jb_exec_wf: "jb_wf st mx E i \<Longrightarrow> x \<noteq> Resize 0 \<Longrightarrow> succeeds (jb_wf st mx E) (jb_exec E x i)"
proof (cases x)
  case (Add_data ts seq pt d timer l)
  assume "jb_wf st mx E i"
  then show ?thesis unfolding Add_data jb_exec.simps by (rule succeeds_bind [OF add_data_wf]) auto
next
  case Read_frame
  assume "jb_wf st mx E i"
  then show ?thesis unfolding Read_frame jb_exec.simps by (rule succeeds_bind [OF read_wf]) (auto simp: found_ok_def)
next
  case (Resize n)
  assume "jb_wf st mx E i" "x \<noteq> Resize 0"
  then show ?thesis unfolding Resize jb_exec.simps by (intro succeeds_bind [OF resize_wf]) auto
next
  case (Debug n)
  assume "jb_wf st mx E i"
  then show ?thesis by (cases n) (auto simp: Debug stfu_n_debug_def elim: jb_wf_cong)
qed (auto intro: reset_wf sync_wf jb_wf_cong simp: stfu_n_call_me_def)

lemma jb_run_wf: "jb_wf st mx E i \<Longrightarrow> Resize 0 \<notin> set xs \<Longrightarrow> succeeds (jb_wf st mx E) (jb_run E xs i)"
proof (induction xs arbitrary: i)
  case (Cons x xs)
  have "succeeds (jb_wf st mx E) (fbind (jb_exec E x i) (jb_run E xs))"
    by (rule succeeds_bind [OF jb_exec_wf]) (use Cons in auto)
  then show ?case by simp
qed simp

lemma init_aqueue_wf:
  "\<forall>k \<le> unat m. env_frames E k \<Longrightarrow> n \<le> m \<Longrightarrow> succeeds (\<lambda>q. queue_ok n m q \<and> jq_array_len q = 0 \<and>
     jq_array q = replicate (unat n) zero_frame) (stfu_n_init_aqueue E zero_queue n)"
  by (auto simp: stfu_n_init_aqueue_def queue_ok_def zero_queue_def frame_ok_def word_le_nat_alt zero_frame_def)

lemma init_wf:
  assumes "n \<noteq> 0" "n \<le> mx" "spp \<noteq> 0" "env_instance E" "\<forall>k \<le> unat mx. env_frames E k" "3 \<le> env_stack E"
  shows "succeeds (\<lambda>r. case r of Some i \<Rightarrow> jb_wf False mx E i | None \<Rightarrow> False) (stfu_n_init E n mx spp sps drift)"
proof -
  have q: "succeeds (\<lambda>q. queue_ok n mx q) (stfu_n_init_aqueue E zero_queue n)"
    using init_aqueue_wf [OF assms(5,2)] by (rule succeeds_mono) simp
  have s: "succeeds (\<lambda>r. case r of Some i \<Rightarrow> jb_wf False mx E i | None \<Rightarrow> False)
      (fbind (stfu_n_init_aqueue E zero_queue n) (\<lambda>a. fbind (stfu_n_init_aqueue E zero_queue n) (\<lambda>b.
       fbind (stfu_n_init_aqueue E zero_queue n) (g a b))))"
    if "\<And>a b c. queue_ok n mx a \<Longrightarrow> queue_ok n mx b \<Longrightarrow> queue_ok n mx c \<Longrightarrow>
        succeeds (\<lambda>r. case r of Some i \<Rightarrow> jb_wf False mx E i | None \<Rightarrow> False) (g a b c)" for g
    by (rule succeeds_bind [OF q], rule succeeds_bind [OF q], rule succeeds_bind [OF q]) (rule that)
  show ?thesis
    unfolding stfu_n_init_def Let_def using assms
    by (auto intro!: s simp: c_div_def jb_wf_def zero_instance_def split: queue_id.splits)
qed


lemma init_some:
  assumes "n \<noteq> 0" "n \<le> mx" "spp \<noteq> 0" "env_instance E" "\<forall>k \<le> unat mx. env_frames E k" "3 \<le> env_stack E"
  shows "\<exists>i. stfu_n_init E n mx spp sps drift = Inr (Some i) \<and> jb_wf False mx E i"
  using init_wf [OF assms, of sps drift] by (auto simp: succeeds_def split: option.splits)

lemma reset_zero_at: "jb_qlen i = 0 \<Longrightarrow> stfu_n_reset_at d i = Inl Stack_exhausted \<and> (n \<noteq> 0 \<longrightarrow> stfu_n_sync_at d i n = Inl Stack_exhausted)"
proof (induction d arbitrary: i n)
  case (Suc d)
  have "stfu_n_sync_at d (reset_queues i) 1 = Inl Stack_exhausted" using Suc.IH [of "reset_queues i" 1] Suc.prems by simp
  moreover have "0 < n \<longleftrightarrow> n \<noteq> 0" by (simp add: word_neq_0_conv)
  ultimately show ?case using Suc.IH [of i] Suc.prems by auto
qed simp

section \<open>Properties\<close>

definition roomy_env :: stfu_env where
  "roomy_env = \<lparr>env_log = False, env_instance = True, env_frames = (\<lambda>_. True), env_stack = 3\<rparr>"

text \<open>C27: a jitter buffer is created with a length of at least one frame, at most the maximum, and a number of
  samples per packet that is not zero, and memory is not exhausted. Whatever packets, reads, resets and
  resizes to lengths other than zero it then sees, in any order, it never divides by zero, never fails an
  assertion, never leaves its frame arrays and needs no more than three nested calls; its length stays
  between one and the maximum, and every frame it hands out fits the frame data, so that copying its
  declared length is safe. (A resize to zero is excluded: the next reset recurses without end.)\<close>

theorem jitter_buffer_safe:
  assumes "n \<noteq> 0" "n \<le> mx" "spp \<noteq> 0" "env_instance E" "\<forall>k \<le> unat mx. env_frames E k" "3 \<le> env_stack E"
    and "Resize 0 \<notin> set ops"
  shows "\<exists>i j r k. stfu_n_init E n mx spp sps drift = Inr (Some i) \<and> jb_run E ops i = Inr j \<and>
    0 < jb_qlen j \<and> jb_qlen j \<le> mx \<and> stfu_n_read_a_frame E j = Inr (r, k) \<and>
    (\<forall>f. r = Some f \<longrightarrow> f_dlen (frame_at k f) \<le> length (f_data (frame_at k f)))"
proof -
  obtain i where i: "stfu_n_init E n mx spp sps drift = Inr (Some i)" "jb_wf False mx E i"
    using init_some [OF assms(1-6)] by blast
  obtain j where j: "jb_run E ops i = Inr j" "jb_wf False mx E j"
    using jb_run_wf [OF i(2) assms(7)] unfolding succeeds_def by blast
  obtain r k where r: "stfu_n_read_a_frame E j = Inr (r, k)" "found_ok False mx E (r, k)"
    using read_wf [OF j(2)] unfolding succeeds_def by auto
  have "f_dlen (frame_at k f) \<le> length (f_data (frame_at k f))" if "r = Some f" for f
    using r(2) that ref_ok_frame [of False mx E k f] by (simp add: found_ok_def frame_ok_def)
  moreover have "0 < jb_qlen j" "jb_qlen j \<le> mx" using j(2) by (simp_all add: jb_wf_def word_gt_0)
  ultimately show ?thesis using i(1) j(1) r(1) by blast
qed

theorem jitter_buffer_safe_witness:
  "\<exists>i j r k. stfu_n_init roomy_env 3 6 160 8000 0 = Inr (Some i) \<and>
    jb_run roomy_env [Add_data 1000 1 0 [7] 0 False, Read_frame, Resize 5, Reset] i = Inr j \<and>
    0 < jb_qlen j \<and> jb_qlen j \<le> 6 \<and> stfu_n_read_a_frame roomy_env j = Inr (r, k) \<and>
    (\<forall>f. r = Some f \<longrightarrow> f_dlen (frame_at k f) \<le> length (f_data (frame_at k f)))"
  by (rule jitter_buffer_safe) (simp_all add: roomy_env_def)

text \<open>a jitter buffer that has grown to its maximal length keeps that length for ever: \<open>stfu_n_resize\<close>
  refuses every request there, also one for a shorter buffer, whatever else happens.\<close>

theorem jitter_buffer_max_is_final:
  assumes "n \<noteq> 0" "n \<le> mx" "spp \<noteq> 0" "env_instance E" "\<forall>k \<le> unat mx. env_frames E k" "3 \<le> env_stack E"
    and "Resize 0 \<notin> set xs" "Resize 0 \<notin> set ys"
    and "stfu_n_init E n mx spp sps drift = Inr (Some i)" "jb_run E xs i = Inr j" "jb_qlen j = mx"
  shows "\<exists>k. jb_run E ys j = Inr k \<and> jb_qlen k = mx"
proof -
  have "jb_wf False mx E i" using init_some [OF assms(1-6), of sps drift] assms(9) by auto
  from jb_run_wf [OF this assms(7)] have "jb_wf False mx E j" using assms(10) by (simp add: succeeds_def)
  then have "jb_wf True mx E j" using assms(11) by (simp add: jb_wf_def)
  from jb_run_wf [OF this assms(8)] show ?thesis by (auto simp: succeeds_def jb_wf_def)
qed

theorem jitter_buffer_max_is_final_witness:
  "\<exists>i k. stfu_n_init roomy_env 4 4 160 8000 0 = Inr (Some i) \<and> jb_run roomy_env [Resize 2, Read_frame] i = Inr k \<and> jb_qlen k = 4"
proof -
  obtain i where i: "stfu_n_init roomy_env 4 4 160 8000 0 = Inr (Some i)"
    using init_some [of 4 4 160 roomy_env 8000 0] by (auto simp: roomy_env_def)
  moreover have "jb_qlen i = 4" using i
    by (auto simp: stfu_n_init_def Let_def fbind_eq_Inr split: if_splits)
  ultimately show ?thesis
    using jitter_buffer_max_is_final [of 4 4 160 roomy_env "[]" "[Resize 2, Read_frame]" 8000 0 i i]
    by (auto simp: roomy_env_def)
qed

text \<open>a jitter buffer of length zero cannot be reset, synchronised or refilled: the reset and the
  synchronisation call each other until the stack is exhausted, however large it is; and one created
  for packets of no samples divides by zero, so that the code that learns the packet size from the
  stream never runs.\<close>

theorem jitter_buffer_zero_faults:
  "(jb_qlen i = 0 \<longrightarrow> stfu_n_reset E i = Inl Stack_exhausted \<and> (packets \<noteq> 0 \<longrightarrow> stfu_n_sync E i packets = Inl Stack_exhausted)) \<and>
   (env_instance E \<and> env_frames E (unat n) \<longrightarrow> stfu_n_init E n mx 0 sps drift = Inl Division_by_zero)"
  using reset_zero_at [of i "env_stack E" packets]
  by (simp add: stfu_n_reset_def stfu_n_sync_def stfu_n_init_def stfu_n_init_aqueue_def c_div_def Let_def)

theorem jitter_buffer_zero_faults_witness:
  "jb_qlen zero_instance = 0 \<and> stfu_n_reset roomy_env zero_instance = Inl Stack_exhausted \<and>
   stfu_n_sync roomy_env zero_instance 1 = Inl Stack_exhausted \<and> stfu_n_init roomy_env 3 6 0 8000 0 = Inl Division_by_zero"
  using jitter_buffer_zero_faults [of zero_instance roomy_env 1 3 6 8000 0]
  by (simp add: zero_instance_def roomy_env_def)

end
