(* ===== verification/Jitter_Order.thy ===== *)
theory Jitter_Order
  imports Jitter_Buffer "HOL-Library.Multiset"
begin

text \<open>
  What the jitter buffer is for: a buffer of packets that arrived in any order, the earliest first,
  is played in the order of the timestamps, complete and unchanged.
\<close>

section \<open>One buffer of packets\<close>

type_synonym packet = "uint32 \<times> uint16 \<times> uint32 \<times> byte list"

definition frame_packet :: "stfu_frame \<Rightarrow> packet" where
  "frame_packet f = (f_ts f, f_seq f, f_pt f, take (f_dlen f) (f_data f))"

fun add_packets :: "stfu_env \<Rightarrow> (packet \<times> uint32) list \<Rightarrow> stfu_instance \<Rightarrow> fault + stfu_instance" where
  "add_packets E [] i = Inr i"
| "add_packets E (((ts, seq, pt, d), timer) # ps) i =
     fbind (stfu_n_add_data E i ts seq pt d timer False) (\<lambda>(s, j). add_packets E ps j)"

fun read_frames :: "stfu_env \<Rightarrow> nat \<Rightarrow> stfu_instance \<Rightarrow> fault + (packet option list \<times> stfu_instance)" where
  "read_frames E 0 i = Inr ([], i)"
| "read_frames E (Suc n) i =
     fbind (stfu_n_read_a_frame E i) (\<lambda>(r, j).
     fbind (read_frames E n j) (\<lambda>(rs, k).
       Inr (map_option (\<lambda>f. frame_packet (frame_at j f)) r # rs, k)))"

text \<open>What the packets of a first buffer can change before they are stored is not in the core.\<close>

definition jb_core :: "stfu_instance \<Rightarrow> _" where
  "jb_core i = (jb_queues i, (jb_in_queue i, jb_out_queue i, jb_old_queue i), (jb_samples_per_packet i, jb_qlen i,
     jb_orig_qlen i), (jb_period_missing_count i, jb_last_wr_ts i, jb_cur_ts i))"

lemma sync_core: "jb_wf st mx E i \<Longrightarrow> succeeds (\<lambda>j. jb_core j = jb_core i) (stfu_n_sync E i 1)"
proof -
  assume i: "jb_wf st mx E i"
  then obtain d where "env_stack E = Suc d" using stack_levels by blast
  moreover have "\<not> jb_qlen i < 1" using i by (simp add: jb_wf_def word_pos_ge_1)
  ultimately show ?thesis by (simp add: stfu_n_sync_def jb_core_def)
qed

lemma set_drift_core: "jb_core (set_drift i ts timer) = jb_core i"
  by (simp add: set_drift_def Let_def jb_core_def)

lemma check_drift_core: "jb_wf st mx E i \<Longrightarrow> succeeds (\<lambda>j. jb_core j = jb_core i) (check_drift E i ts timer)"
proof -
  assume i: "jb_wf st mx E i"
  define i1 where "i1 = set_drift i ts timer"
  have i1: "jb_wf st mx E i1" "jb_core i1 = jb_core i" using i by (simp_all add: i1_def set_drift_wf set_drift_core)
  have "succeeds (\<lambda>j. jb_core j = jb_core i) (stfu_n_sync E (i1\<lparr>jb_drift_dropped_packets := a\<rparr>) 1)" for a
  proof -
    have "jb_wf st mx E (i1\<lparr>jb_drift_dropped_packets := a\<rparr>)" by (rule jb_wf_cong [OF i1(1)]) simp_all
    from sync_core [OF this] show ?thesis using i1(2) by (simp add: jb_core_def)
  qed
  then show ?thesis unfolding check_drift_def Let_def i1_def [symmetric]
    using i1(2) by (auto simp: jb_core_def)
qed

definition calm :: "stfu_instance \<Rightarrow> bool" where
  "calm i \<longleftrightarrow> jb_qlen i = jb_orig_qlen i \<and> jb_period_missing_count i = 0 \<and> jb_last_wr_ts i = 0"

lemma calm_core: "jb_core j = jb_core i \<Longrightarrow> calm j = calm i"
  by (simp add: calm_def jb_core_def)

lemma check_ts_core: "calm i \<Longrightarrow> succeeds (\<lambda>(g, j). jb_core j = jb_core i) (check_ts E i ts)"
  by (simp add: check_ts_def too_late_def calm_def jb_core_def)

lemma count_in_core: "jb_core (count_in i g) = jb_core i"
  by (simp add: count_in_def Let_def jb_core_def)

lemma adapt_size_calm: "calm i \<Longrightarrow> adapt_size E i = Inr i"
  by (simp add: adapt_size_def calm_def)

lemma measure_diff_core: "calm i \<Longrightarrow> succeeds (\<lambda>j. jb_core j = jb_core i) (measure_diff i ts)"
  by (simp add: measure_diff_def calm_def jb_core_def)

lemma end_period_core: "calm i \<Longrightarrow> succeeds (\<lambda>j. jb_core j = jb_core i) (end_period E i)"
  by (auto simp: end_period_def calm_def jb_core_def Let_def stfu_n_reset_counters_def)

lemma add_calm:
  assumes i: "jb_wf st mx E i" and c: "calm i" and room: "\<not> in_full i"
  shows "\<exists>j. jb_core j = jb_core i \<and>
    stfu_n_add_data E i ts seq pt d timer False = fbind (store_frame j ts seq pt d) (\<lambda>k. Inr (STFU_IT_WORKED, k))"
proof -
  have known: "learn_size i ts = (True, i)" using i by (simp add: learn_size_known jb_wf_def)
  obtain i2 where i2: "check_drift E i ts timer = Inr i2" "jb_core i2 = jb_core i"
    using check_drift_core [OF i] unfolding succeeds_def by blast
  have c2: "calm i2" using c calm_core [OF i2(2)] by simp
  obtain g i3 where i3: "check_ts E i2 ts = Inr (g, i3)" "jb_core i3 = jb_core i2"
    using check_ts_core [OF c2] unfolding succeeds_def by blast
  define i4 where "i4 = count_in i3 g"
  have i4: "jb_core i4 = jb_core i" using i2 i3 by (simp add: i4_def count_in_core)
  have c4: "calm i4" using c calm_core [OF i4] by simp
  obtain i5 where i5: "measure_diff i4 ts = Inr i5" "jb_core i5 = jb_core i4"
    using measure_diff_core [OF c4] unfolding succeeds_def by blast
  have c5: "calm i5" using c4 calm_core [OF i5(2)] by simp
  obtain i6 where i6: "end_period E i5 = Inr i6" "jb_core i6 = jb_core i5"
    using end_period_core [OF c5] unfolding succeeds_def by blast
  have core: "jb_core i6 = jb_core i" using i4 i5 i6 by simp
  have "\<not> in_full i6" using room core by (simp add: in_full_def jb_core_def)
  then have "stfu_n_add_data E i ts seq pt d timer False = fbind (store_frame i6 ts seq pt d) (\<lambda>k. Inr (STFU_IT_WORKED, k))"
    by (simp add: stfu_n_add_data_def known i2(1) i3(1) i4_def [symmetric] adapt_size_calm [OF c4] i5(1) i6(1) Let_def)
  then show ?thesis using core by blast
qed

text \<open>An instance that holds the first \<open>ps\<close> packets of its first buffer, unread, and one with a full buffer to play.\<close>

definition holds :: "uint32 \<Rightarrow> uint32 \<Rightarrow> packet list \<Rightarrow> stfu_instance \<Rightarrow> bool" where
  "holds n spp ps i \<longleftrightarrow> jb_qlen i = n \<and> jb_samples_per_packet i = spp \<and> jb_cur_ts i = 0 \<and> calm i \<and>
     map frame_packet (take (length ps) (jq_array (jb_queues i A_queue))) = ps \<and>
     (\<forall>f \<in> set (take (length ps) (jq_array (jb_queues i A_queue))). \<not> f_was_read f) \<and>
     jq_array_len (jb_queues i A_queue) = of_nat (length ps)"

definition filling :: "uint32 \<Rightarrow> uint32 \<Rightarrow> packet list \<Rightarrow> stfu_instance \<Rightarrow> bool" where
  "filling n spp ps i \<longleftrightarrow> holds n spp ps i \<and> length ps < unat n \<and>
     jb_in_queue i = A_queue \<and> jb_out_queue i = B_queue \<and> jb_old_queue i = C_queue"

definition filled :: "uint32 \<Rightarrow> uint32 \<Rightarrow> packet list \<Rightarrow> stfu_instance \<Rightarrow> bool" where
  "filled n spp ps i \<longleftrightarrow> holds n spp ps i \<and> length ps = unat n \<and> jb_ready i \<and> jb_out_queue i = A_queue"

lemma write_frame_packet: "length d \<le> STFU_DATALEN \<Longrightarrow> frame_packet (write_frame f ts seq pt d) = (ts, seq, pt, d)"
  by (simp add: frame_packet_def write_frame_def Let_def min_def)

lemma store_filling:
  assumes q: "queue_ok n mx (jb_queues i A_queue)" and f: "filling n spp ps i" and d: "length d \<le> STFU_DATALEN"
  shows "succeeds (\<lambda>j. if Suc (length ps) < unat n then filling n spp (ps @ [(ts, seq, pt, d)]) j
     else filled n spp (ps @ [(ts, seq, pt, d)]) j) (store_frame i ts seq pt d)"
proof -
  let ?A = "jb_queues i A_queue" and ?k = "length ps"
  have len: "jq_array_len ?A = of_nat ?k" "?k < unat n" using f by (auto simp: filling_def holds_def)
  have small: "unat (of_nat x :: uint32) = x" if "x \<le> unat n" for x
  proof -
    have "unat n < 2 ^ LENGTH(32)" by (rule unsigned_less)
    with that show ?thesis by (simp add: unat_of_nat take_bit_eq_mod)
  qed
  have k: "unat (of_nat ?k :: uint32) = ?k" using len(2) by (simp add: small)
  have kn: "(of_nat ?k :: uint32) < n" using len(2) k by (simp add: word_less_nat_alt)
  have n: "jq_array_size ?A = n" "?k < length (jq_array ?A)"
    using q len by (auto simp: queue_ok_def word_le_nat_alt)
  have full: "of_nat ?k + 1 = n \<longleftrightarrow> Suc ?k = unat n"
  proof -
    have "unat (of_nat ?k + 1 :: uint32) = Suc ?k" using small [of "Suc ?k"] len(2) by (simp add: add.commute)
    then show ?thesis by (metis word_unat_eq_iff)
  qed
  show ?thesis
    using f d len n kn k full
    by (auto simp: store_frame_def Let_def filling_def filled_def holds_def in_full_def stfu_n_swap_def calm_def
      take_Suc_conv_app_nth write_frame_packet write_frame_def [of _ _ _ _ d, THEN arg_cong [where f = f_was_read]])
qed


lemma filling_core: "jb_core j = jb_core i \<Longrightarrow> filling n spp ps j = filling n spp ps i"
  by (auto simp: filling_def holds_def calm_def jb_core_def)

lemma add_filling:
  assumes i: "jb_wf st mx E i" and f: "filling n spp ps i" and d: "length d \<le> STFU_DATALEN"
  shows "succeeds (\<lambda>(s, j). jb_wf st mx E j \<and> (if Suc (length ps) < unat n then filling n spp (ps @ [(ts, seq, pt, d)]) j
     else filled n spp (ps @ [(ts, seq, pt, d)]) j)) (stfu_n_add_data E i ts seq pt d timer False)"
proof -
  have q: "queue_ok n mx (jb_queues i A_queue)" and c: "calm i" using i f by (auto simp: jb_wf_def filling_def holds_def)
  have "unat n < 2 ^ LENGTH(32)" by (rule unsigned_less)
  then have "(of_nat (length ps) :: uint32) \<noteq> n" using f by (auto simp: filling_def unat_of_nat take_bit_eq_mod)
  then have "\<not> in_full i" using f q by (auto simp: in_full_def filling_def holds_def queue_ok_def)
  from add_calm [OF i c this] obtain j where j: "jb_core j = jb_core i"
    "stfu_n_add_data E i ts seq pt d timer False = fbind (store_frame j ts seq pt d) (\<lambda>k. Inr (STFU_IT_WORKED, k))" by blast
  have fj: "filling n spp ps j" using f filling_core [OF j(1)] by simp
  obtain r k where k: "stfu_n_add_data E i ts seq pt d timer False = Inr (r, k)" "jb_wf st mx E k"
    using add_data_wf [OF i, of ts seq pt d timer False] unfolding succeeds_def by blast
  have "store_frame j ts seq pt d = Inr k" using k(1) j(2) by (auto simp: fbind_eq_Inr)
  moreover have qj: "queue_ok n mx (jb_queues j A_queue)" using q j(1) by (simp add: jb_core_def)
  ultimately show ?thesis using store_filling [OF qj fj d, of ts seq pt] k by simp
qed

lemma add_packets_filling:
  assumes "jb_wf st mx E i" "filling n spp qs i" "length qs + length ps = unat n" "ps \<noteq> []"
    "\<forall>p \<in> set ps. case p of ((ts, seq, pt, d), timer) \<Rightarrow> length d \<le> STFU_DATALEN"
  shows "succeeds (\<lambda>j. jb_wf st mx E j \<and> filled n spp (qs @ map fst ps) j) (add_packets E ps i)"
  using assms
proof (induction ps arbitrary: qs i)
  case (Cons p ps)
  obtain ts seq pt d timer where p: "p = ((ts, seq, pt, d), timer)" by (cases p, cases "fst p") auto
  have d: "length d \<le> STFU_DATALEN" using Cons.prems(5) by (simp add: p)
  have "succeeds (\<lambda>j. jb_wf st mx E j \<and> filled n spp (qs @ map fst (p # ps)) j)
      (case x of (s, j) \<Rightarrow> add_packets E ps j)"
    if x: "case x of (s, j) \<Rightarrow> jb_wf st mx E j \<and> (if Suc (length qs) < unat n then filling n spp (qs @ [(ts, seq, pt, d)]) j
      else filled n spp (qs @ [(ts, seq, pt, d)]) j)" for x
  proof (cases ps)
    case Nil
    then show ?thesis using x Cons.prems(3) by (auto simp: p)
  next
    case (Cons a list)
    then have "Suc (length qs) < unat n" using Cons.prems(3) by simp
    then show ?thesis using x Cons Cons.IH [of "snd x" "qs @ [(ts, seq, pt, d)]"] Cons.prems by (auto simp: p)
  qed
  then show ?case unfolding p add_packets.simps
    by (rule succeeds_bind [OF add_filling [OF Cons.prems(1,2) d]]) (simp add: p)
qed simp


definition tick :: "uint32 \<Rightarrow> uint32 \<Rightarrow> nat \<Rightarrow> uint32" where
  "tick t0 spp k = t0 + of_nat k * spp"

text \<open>One packet for every tick from \<open>t0\<close> on, the earliest first, the others in any order.\<close>

definition one_per_tick :: "uint32 \<Rightarrow> uint32 \<Rightarrow> packet list \<Rightarrow> bool" where
  "one_per_tick t0 spp ps \<longleftrightarrow> t0 \<noteq> 0 \<and> spp \<noteq> 0 \<and> unat t0 + (length ps - 1) * unat spp < 2 ^ 32 \<and>
     mset (map fst ps) = mset (map (tick t0 spp) [0..<length ps]) \<and> fst (hd ps) = t0"

lemma unat_tick:
  assumes "one_per_tick t0 spp ps" "k < length ps"
  shows "unat (tick t0 spp k) = unat t0 + k * unat spp"
proof -
  have "unat t0 + (length ps - 1) * unat spp < 2 ^ 32" using assms(1) unfolding one_per_tick_def by blast
  moreover have "k * unat spp \<le> (length ps - 1) * unat spp" using assms(2) by (intro mult_right_mono) auto
  ultimately have "unat t0 + k * unat spp < 2 ^ 32" by linarith
  moreover have "tick t0 spp k = of_nat (unat t0 + k * unat spp)" by (simp add: tick_def)
  ultimately show ?thesis by (simp only: unat_of_nat) (simp add: take_bit_eq_mod)
qed

lemma tick_order:
  assumes "one_per_tick t0 spp ps" "j < length ps" "k < length ps"
  shows "tick t0 spp j < tick t0 spp k \<longleftrightarrow> j < k" and "tick t0 spp j = tick t0 spp k \<longleftrightarrow> j = k"
proof -
  have spp: "0 < unat spp" using assms(1) by (simp add: one_per_tick_def unat_gt_0)
  show "tick t0 spp j < tick t0 spp k \<longleftrightarrow> j < k"
    using spp by (simp add: word_less_nat_alt unat_tick [OF assms(1)] assms(2,3))
  show "tick t0 spp j = tick t0 spp k \<longleftrightarrow> j = k"
    using spp by (simp add: word_unat_eq_iff unat_tick [OF assms(1)] assms(2,3))
qed

lemma tick_pos: "one_per_tick t0 spp ps \<Longrightarrow> k < length ps \<Longrightarrow> 0 < tick t0 spp k"
  using unat_tick [of t0 spp ps k] by (simp add: word_less_nat_alt one_per_tick_def unat_gt_0)

lemma packet_times:
  assumes o: "one_per_tick t0 spp ps"
  shows "fst ` set ps = tick t0 spp ` {..<length ps}" and "distinct (map fst ps)"
proof -
  have m: "mset (map fst ps) = mset (map (tick t0 spp) [0..<length ps])" using o unfolding one_per_tick_def by blast
  from mset_eq_setD [OF m] show "fst ` set ps = tick t0 spp ` {..<length ps}" by (simp add: atLeast0LessThan)
  have "distinct (map (tick t0 spp) [0..<length ps])"
    by (auto simp: distinct_map inj_on_def tick_order(2) [OF o])
  then show "distinct (map fst ps)" using m by (metis mset_eq_imp_distinct_iff)
qed

text \<open>The instance after \<open>k\<close> of the packets have been read.\<close>

definition playing :: "uint32 \<Rightarrow> uint32 \<Rightarrow> packet list \<Rightarrow> nat \<Rightarrow> stfu_instance \<Rightarrow> bool" where
  "playing t0 spp ps k i \<longleftrightarrow> jb_samples_per_packet i = spp \<and> jb_ready i \<and> jb_out_queue i = A_queue \<and>
     unat (jb_qlen i) = length ps \<and>
     map frame_packet (take (length ps) (jq_array (jb_queues i A_queue))) = ps \<and>
     (if k = 0 then jb_cur_ts i = 0 \<and> jb_last_wr_ts i = 0 \<and> jq_array_len (jb_queues i A_queue) \<noteq> 0 \<and>
        \<not> f_was_read (jq_array (jb_queues i A_queue) ! 0)
      else jb_cur_ts i = tick t0 spp (k - 1) \<and> jb_last_wr_ts i = tick t0 spp (k - 1))"

lemma frame_packet_ts: "fst (frame_packet f) = f_ts f"
  by (simp add: frame_packet_def)

lemma stored_packet:
  "map frame_packet (take (length ps) arr) = ps \<Longrightarrow> length ps \<le> length arr \<Longrightarrow> h < length ps \<Longrightarrow> frame_packet (arr ! h) = ps ! h"
proof -
  assume e: "map frame_packet (take (length ps) arr) = ps" and l: "length ps \<le> length arr" and h: "h < length ps"
  have "frame_packet (arr ! h) = map frame_packet (take (length ps) arr) ! h" using l h by simp
  then show ?thesis unfolding e .
qed

lemma scan_tick:
  assumes o: "one_per_tick t0 spp ps" and k: "k < length ps" and arr: "map frame_packet (take (length ps) arr) = ps"
    and len: "length ps \<le> length arr" and lo: "lo = (if k = 0 then 0 else tick t0 spp (k - 1))"
  shows "\<exists>h < length ps. scan_frames (frame_between lo (tick t0 spp k)) arr 0 (length ps) = Inr (Some h) \<and>
     fst (ps ! h) = tick t0 spp k"
proof -
  have ts: "f_ts (arr ! h) = fst (ps ! h)" if "h < length ps" for h
    using stored_packet [OF arr len that] by (simp flip: frame_packet_ts)
  obtain hit where hit: "scan_frames (frame_between lo (tick t0 spp k)) arr 0 (length ps) = Inr hit"
    "scan_hit (frame_between lo (tick t0 spp k)) arr 0 (length ps) hit"
    using scan_frames_spec [of 0 "length ps" arr "frame_between lo (tick t0 spp k)"] len unfolding succeeds_def by auto
  have "tick t0 spp k \<in> fst ` set ps" using packet_times(1) [OF o] k by auto
  then obtain g where g: "g < length ps" "fst (ps ! g) = tick t0 spp k" by (auto simp: in_set_conv_nth)
  then have "hit \<noteq> None" using hit(2) ts [of g] by (cases hit) (auto simp: scan_hit_def frame_between_def)
  then obtain h where h: "hit = Some h" "h < length ps" "frame_between lo (tick t0 spp k) (arr ! h)"
    using hit(2) by (auto simp: scan_hit_def)
  have "fst (ps ! h) \<in> tick t0 spp ` {..<length ps}" using packet_times(1) [OF o] h(2) by (metis image_eqI nth_mem)
  then obtain j where j: "j < length ps" "fst (ps ! h) = tick t0 spp j" by auto
  have "j = k"
  proof (rule ccontr)
    assume "j \<noteq> k"
    then have "lo < tick t0 spp j" "j < k" using h(3) ts [OF h(2)] j tick_order [OF o j(1) k]
      by (auto simp: frame_between_def)
    moreover have "k - 1 < length ps" using k by simp
    ultimately show False using lo tick_order(1) [OF o _ j(1), of "k - 1"] by auto
  qed
  then show ?thesis using hit h j by auto
qed

lemma next_ts_playing:
  assumes w: "jb_wf st mx E i" and o: "one_per_tick t0 spp ps" and p: "playing t0 spp ps k i" and k: "k < length ps"
  shows "\<exists>s. next_ts E i = Inr (Some (i\<lparr>jb_cur_ts := tick t0 spp k, jb_cur_seq := s\<rparr>))"
proof (cases "k = 0")
  case True
  let ?A = "jb_queues i A_queue"
  have q: "queue_ok (jb_qlen i) mx ?A" using w by (simp add: jb_wf_def)
  have len: "length ps \<le> length (jq_array ?A)" using q p by (auto simp: queue_ok_def playing_def word_le_nat_alt)
  have "unat (jq_array_len ?A) \<noteq> 0" using p True by (simp add: playing_def unat_eq_0)
  then obtain m where m: "unat (jq_array_len ?A) = Suc m" by (metis not0_implies_Suc)
  have "f_ts (jq_array ?A ! 0) = fst (ps ! 0)"
    using p len k stored_packet [of ps "jq_array ?A" 0] by (simp add: playing_def True flip: frame_packet_ts)
  also have "\<dots> = tick t0 spp k" using o k True by (simp add: one_per_tick_def tick_def hd_conv_nth)
  finally show ?thesis using p len k True m
    by (auto simp: next_ts_def start_ts_def playing_def Let_def)
next
  case False
  have "0 < tick t0 spp (k - 1)" using tick_pos [OF o] k by simp
  moreover have "tick t0 spp (k - 1) + spp = tick t0 spp k" using False by (cases k) (simp_all add: tick_def algebra_simps)
  ultimately show ?thesis using p False by (auto simp: next_ts_def playing_def)
qed


definition play_view :: "stfu_instance \<Rightarrow> uint32 \<times> bool \<times> queue_id \<times> uint32" where
  "play_view i = (jb_samples_per_packet i, jb_ready i, jb_out_queue i, jb_qlen i)"

lemma mark_read_out [simp]: "jb_out_queue (mark_read q k i) = jb_out_queue i"
  by (simp add: mark_read_def)

lemma play_frame_view:
  "play_view (play_frame r i) = play_view i"
  "jq_array (jb_queues (play_frame r i) q) = jq_array (jb_queues i q)"
  "jb_cur_ts (play_frame r i) = jb_cur_ts i"
  "jb_last_wr_ts (play_frame r i) = f_ts (frame_at i r)"
  by (simp_all add: play_frame_def Let_def play_view_def)

lemma mark_read_view:
  "play_view (set_queue q f (mark_read q k i)) = play_view i"
  "jq_array (jb_queues (mark_read q k i) q) = (jq_array (jb_queues i q))[k := (jq_array (jb_queues i q) ! k)\<lparr>f_was_read := True\<rparr>]"
  by (simp_all add: mark_read_def play_view_def)

lemma read_found:
  assumes "jb_samples_per_packet i \<noteq> 0" "jb_ready i" "next_ts E i = Inr (Some i1)" "find_in_queues i1 = Inr (Some f, i2)"
    "sync_frame (Some f) (adopt (Some f) i2) = Inr (Some f, i3)" "jb_cur_ts i3 \<noteq> 0"
  shows "stfu_n_read_a_frame E i = Inr (Some f, play_frame f i3)"
  using assms by (simp add: stfu_n_read_a_frame_def)

lemma read_playing:
  assumes w: "jb_wf st mx E i" and o: "one_per_tick t0 spp ps" and p: "playing t0 spp ps k i" and k: "k < length ps"
  shows "succeeds (\<lambda>(r, j). jb_wf st mx E j \<and> playing t0 spp ps (Suc k) j \<and>
     (\<exists>f. r = Some f \<and> frame_packet (frame_at j f) \<in> set ps \<and> fst (frame_packet (frame_at j f)) = tick t0 spp k))
     (stfu_n_read_a_frame E i)"
proof -
  let ?A = "jb_queues i A_queue"
  have q: "queue_ok (jb_qlen i) mx ?A" using w by (simp add: jb_wf_def)
  have len: "length ps \<le> length (jq_array ?A)" "unat (jq_array_size ?A) = length ps"
    using q p by (auto simp: queue_ok_def playing_def word_le_nat_alt)
  have arr: "map frame_packet (take (length ps) (jq_array ?A)) = ps" using p by (simp add: playing_def)
  obtain s where s: "next_ts E i = Inr (Some (i\<lparr>jb_cur_ts := tick t0 spp k, jb_cur_seq := s\<rparr>))"
    using next_ts_playing [OF w o p k] by blast
  define lo where "lo = (if k = 0 then 0 else tick t0 spp (k - 1))"
  have lo: "jb_last_wr_ts i = lo" using p by (auto simp: playing_def lo_def split: if_splits)
  obtain h where h: "h < length ps" "fst (ps ! h) = tick t0 spp k"
    "scan_frames (frame_between lo (tick t0 spp k)) (jq_array ?A) 0 (length ps) = Inr (Some h)"
    using scan_tick [OF o k arr len(1) lo_def] by blast
  have ph: "frame_packet (jq_array ?A ! h) = ps ! h" using stored_packet [OF arr len(1) h(1)] .
  moreover have "f_ts (jq_array ?A ! h) = tick t0 spp k" using h(2) by (simp add: ph flip: frame_packet_ts)
  ultimately have ph: "frame_packet (jq_array ?A ! h) = ps ! h" "f_ts (jq_array ?A ! h) = tick t0 spp k" .
  have pos: "tick t0 spp k \<noteq> 0" using tick_pos [OF o k] by simp
  define f where "f = (jq_array ?A ! h)\<lparr>f_was_read := True\<rparr>"
  have f: "frame_packet f = ps ! h" "f_ts f = tick t0 spp k" using ph by (simp_all add: f_def frame_packet_def)
  have upd: "map frame_packet (take (length ps) ((jq_array ?A)[h := f])) = ps"
    using arr h(1) f(1) by (simp add: take_update_swap map_update list_update_same_conv)
  have h_len: "h < length (jq_array ?A)" using h(1) len(1) by simp
  obtain r j where rj: "stfu_n_read_a_frame E i = Inr (r, j)" "found_ok st mx E (r, j)"
    using read_wf [OF w] unfolding succeeds_def by auto
  define i1 where "i1 = i\<lparr>jb_cur_ts := tick t0 spp k, jb_cur_seq := s\<rparr>"
  define i2 where "i2 = set_queue A_queue (\<lambda>q. if jq_array_len q \<noteq> 0 then q\<lparr>jq_array_len := jq_array_len q - 1\<rparr> else q) (mark_read A_queue h i1)"
  have found: "find_in_queues i1 = Inr (Some (Slot A_queue h), i2)"
    using p lo h(3) len(2) by (simp add: find_in_queues_def stfu_n_find_frame_def i1_def i2_def playing_def)
  have i2: "jq_array (jb_queues i2 A_queue) = (jq_array ?A)[h := f]" "play_view i2 = play_view i1"
    by (simp_all add: i2_def i1_def mark_read_view f_def)
  define i3 where "i3 = adopt (Some (Slot A_queue h)) i2"
  have i3: "jq_array (jb_queues i3 A_queue) = (jq_array ?A)[h := f]" "play_view i3 = play_view i2" "jb_cur_ts i3 = tick t0 spp k"
    using f(2) h_len by (simp_all add: i3_def adopt_def play_view_def frame_at_def i2(1))
  define i4 where "i4 = (if jb_sync_out i3 = 0 then i3 else i3\<lparr>jb_sync_out := 0\<rparr>)"
  have i4: "sync_frame (Some (Slot A_queue h)) i3 = Inr (Some (Slot A_queue h), i4)"
    "jq_array (jb_queues i4 A_queue) = (jq_array ?A)[h := f]" "play_view i4 = play_view i3" "jb_cur_ts i4 = tick t0 spp k"
    using i3 by (simp_all add: sync_frame_def i4_def play_view_def)
  have "stfu_n_read_a_frame E i = Inr (Some (Slot A_queue h), play_frame (Slot A_queue h) i4)"
    using p o pos i4(4) by (intro read_found [OF _ _ s [folded i1_def] found i4(1) [unfolded i3_def]]) (auto simp: playing_def one_per_tick_def)
  then have rj': "r = Some (Slot A_queue h)" "j = play_frame (Slot A_queue h) i4" using rj(1) by simp_all
  have "play_view j = play_view i" "jq_array (jb_queues j A_queue) = (jq_array ?A)[h := f]"
      "jb_cur_ts j = tick t0 spp k" "jb_last_wr_ts j = tick t0 spp k"
    using f(2) h_len by (simp_all add: rj'(2) play_frame_view i4 i3 i2 frame_at_def) (simp add: play_view_def i1_def)
  then have run: "r = Some (Slot A_queue h) \<and> jq_array (jb_queues j A_queue) = (jq_array ?A)[h := f] \<and>
      jb_samples_per_packet j = spp \<and> jb_ready j \<and> jb_out_queue j = A_queue \<and> jb_qlen j = jb_qlen i \<and>
      jb_cur_ts j = tick t0 spp k \<and> jb_last_wr_ts j = tick t0 spp k"
    using p rj'(1) by (simp add: play_view_def playing_def)
  then have "frame_at j (Slot A_queue h) = f" using h_len by (simp add: frame_at_def)
  moreover have "playing t0 spp ps (Suc k) j" using run p upd by (simp add: playing_def)
  ultimately show ?thesis using run rj f h(1,2) by (simp add: found_ok_def)
qed

lemma read_frames_playing:
  assumes "jb_wf st mx E i" "one_per_tick t0 spp ps" "playing t0 spp ps k i" "k + n = length ps"
  shows "succeeds (\<lambda>(rs, j). \<exists>fs. rs = map Some fs \<and> set fs \<subseteq> set ps \<and> map fst fs = map (tick t0 spp) [k..<k + n])
     (read_frames E n i)"
  using assms
proof (induction n arbitrary: k i)
  case (Suc n)
  have step: "succeeds (\<lambda>(rs, j). \<exists>fs. rs = map Some fs \<and> set fs \<subseteq> set ps \<and> map fst fs = map (tick t0 spp) [k..<k + Suc n])
      (fbind (read_frames E n j) (\<lambda>(rs, l). Inr (map_option (\<lambda>f. frame_packet (frame_at j f)) r # rs, l)))"
    if j: "jb_wf st mx E j" "playing t0 spp ps (Suc k) j" and f: "r = Some f" "frame_packet (frame_at j f) \<in> set ps"
      "fst (frame_packet (frame_at j f)) = tick t0 spp k" for r j f
  proof (rule succeeds_bind [OF Suc.IH [OF j(1) Suc.prems(2) j(2)]])
    show "Suc k + n = length ps" using Suc.prems(4) by simp
    fix x assume "case x of (rs, l) \<Rightarrow> \<exists>fs. rs = map Some fs \<and> set fs \<subseteq> set ps \<and> map fst fs = map (tick t0 spp) [Suc k..<Suc k + n]"
    then obtain fs l where fs: "x = (map Some fs, l)" "set fs \<subseteq> set ps" "map fst fs = map (tick t0 spp) [Suc k..<Suc k + n]"
      by (cases x) auto
    have "map fst (frame_packet (frame_at j f) # fs) = map (tick t0 spp) [k..<k + Suc n]"
      using fs(3) f(3) by (simp add: upt_conv_Cons del: upt_Suc)
    then show "succeeds (\<lambda>(rs, j). \<exists>fs. rs = map Some fs \<and> set fs \<subseteq> set ps \<and> map fst fs = map (tick t0 spp) [k..<k + Suc n])
        (case x of (rs, l) \<Rightarrow> Inr (map_option (\<lambda>f. frame_packet (frame_at j f)) r # rs, l))"
      using fs(2) f(1,2) by (auto simp: fs(1) simp del: upt_Suc intro!: exI [of _ "frame_packet (frame_at j f) # fs"])
  qed
  show ?case unfolding read_frames.simps
    by (rule succeeds_bind [OF read_playing [OF Suc.prems(1,2,3)]]) (use Suc.prems(4) step in auto)
qed simp

lemma ticks_sorted:
  assumes o: "one_per_tick t0 spp ps" and fs: "set fs \<subseteq> set ps" "map fst fs = map (tick t0 spp) [0..<length ps]"
  shows "fs = sort_key fst ps"
proof -
  have d: "distinct (map fst ps)" by (rule packet_times(2) [OF o])
  have df: "distinct (map fst fs)" unfolding fs(2) by (auto simp: distinct_map inj_on_def tick_order(2) [OF o])
  have "fst ` set fs = fst ` set ps" using arg_cong [OF fs(2), of set] packet_times(1) [OF o] by (simp add: atLeast0LessThan)
  then have set: "set fs = set ps" using fs(1) d by (metis distinct_map inj_on_image_eq_iff order_refl)
  have le: "tick t0 spp a \<le> tick t0 spp b" if "a \<le> b" "b < length ps" for a b
    using that tick_order [OF o, of a b] by (cases "a = b") (auto simp: less_imp_le)
  have "sorted (map fst fs)" unfolding fs(2) by (auto simp: sorted_iff_nth_mono intro: le)
  then show ?thesis
    using d df set by (intro map_sorted_distinct_set_unique [of fst]) (auto simp: distinct_map intro: inj_on_subset)
qed


lemma init_filling:
  "stfu_n_init E n mx spp sps drift = Inr (Some i) \<Longrightarrow> n \<noteq> 0 \<Longrightarrow> filling n spp [] i"
  by (auto simp: stfu_n_init_def Let_def fbind_eq_Inr stfu_n_init_aqueue_def c_div_def zero_instance_def zero_queue_def
    filling_def holds_def calm_def unat_gt_0 split: if_splits)

lemma filled_playing: "filled n spp ps i \<Longrightarrow> n \<noteq> 0 \<Longrightarrow> jb_wf st mx E i \<Longrightarrow> playing t0 spp ps 0 i"
proof -
  assume f: "filled n spp ps i" and n: "n \<noteq> 0" and w: "jb_wf st mx E i"
  have len: "length ps = unat n" and pos: "length ps \<noteq> 0" using f n by (auto simp: filled_def unat_eq_0)
  have "queue_ok n mx (jb_queues i A_queue)" using w f by (auto simp: jb_wf_def filled_def holds_def)
  then have "length ps \<le> length (jq_array (jb_queues i A_queue))" by (simp add: queue_ok_def len word_le_nat_alt)
  then have "jq_array (jb_queues i A_queue) ! 0 \<in> set (take (length ps) (jq_array (jb_queues i A_queue)))"
    using pos by (metis in_set_conv_nth length_take min.absorb2 nth_take not_gr_zero)
  moreover have "(of_nat (length ps) :: uint32) \<noteq> 0" using n by (simp add: len)
  ultimately show ?thesis using f by (auto simp: playing_def filled_def holds_def calm_def)
qed

section \<open>Properties\<close>

text \<open>C26: a fresh jitter buffer that is given a buffer-full of packets, one for every tick and the earliest
  first but otherwise in any order, with any timer, plays exactly these packets, undamaged and sorted by
  their timestamps.\<close>

theorem jitter_buffer_reorders:
  assumes "n \<noteq> 0" "n \<le> mx" "env_instance E" "\<forall>k \<le> unat mx. env_frames E k" "3 \<le> env_stack E"
    and "length ps = unat n" "one_per_tick t0 spp (map fst ps)"
    and "\<forall>p \<in> set ps. case p of ((ts, seq, pt, d), timer) \<Rightarrow> length d \<le> STFU_DATALEN"
  shows "\<exists>i j k. stfu_n_init E n mx spp sps drift = Inr (Some i) \<and> add_packets E ps i = Inr j \<and>
    read_frames E (unat n) j = Inr (map Some (sort_key fst (map fst ps)), k)"
proof -
  have "spp \<noteq> 0" using assms(7) by (simp add: one_per_tick_def)
  from init_some [OF assms(1,2) this assms(3-5)] obtain i where
    i: "stfu_n_init E n mx spp sps drift = Inr (Some i)" "jb_wf False mx E i" by blast
  have "ps \<noteq> []" "length [] + length ps = unat n" using assms(1,6) by (auto simp: unat_eq_0)
  from add_packets_filling [OF i(2) init_filling [OF i(1) assms(1)] this(2,1) assms(8)] obtain j where
    j: "add_packets E ps i = Inr j" "jb_wf False mx E j" "filled n spp (map fst ps) j"
    unfolding succeeds_def by auto
  from read_frames_playing [OF j(2) assms(7) filled_playing [OF j(3) assms(1) j(2)], of "unat n"] obtain fs k where
    "read_frames E (unat n) j = Inr (map Some fs, k)" "set fs \<subseteq> set (map fst ps)"
    "map fst fs = map (tick t0 spp) [0..<length (map fst ps)]"
    unfolding succeeds_def using assms(6) by auto
  then show ?thesis using i(1) j(1) ticks_sorted [OF assms(7)] by blast
qed

definition late_packet :: "(packet \<times> uint32) list" where
  "late_packet = [((1000, 1, 0, [7]), 0), ((1320, 3, 0, [9]), 0), ((1160, 2, 0, [8]), 0)]"

theorem jitter_buffer_reorders_witness:
  "one_per_tick 1000 160 (map fst late_packet) \<and>
   (\<exists>i j k. stfu_n_init roomy_env 3 6 160 8000 0 = Inr (Some i) \<and> add_packets roomy_env late_packet i = Inr j \<and>
     read_frames roomy_env 3 j =
       Inr ([Some (1000, 1, 0, [7]), Some (1160, 2, 0, [8]), Some (1320, 3, 0, [9])], k))"
proof -
  have o: "one_per_tick 1000 160 (map fst late_packet)"
    by (simp add: one_per_tick_def late_packet_def tick_def numeral_3_eq_3)
  have "sort_key fst (map fst late_packet) = [(1000, 1, 0, [7]), (1160, 2, 0, [8]), (1320, 3, 0, [9])]"
    by (simp add: late_packet_def)
  then show ?thesis
    using o jitter_buffer_reorders [of 3 6 roomy_env late_packet 1000 160 8000 0]
    by (simp add: roomy_env_def STFU_DATALEN_def late_packet_def)
qed

end
