(* ===== verification/State_Handlers.thy ===== *)
theory State_Handlers
  imports FS_Prelude
begin

text \<open>
  The registries of state handlers: the table of a channel (src/switch\_channel.c) and the table of the
  core (src/switch\_core.c). A registry is an array of \<open>SWITCH_MAX_STATE_HANDLERS\<close> pointers with the
  number of the next free slot; a handler table is known by a number and an empty slot is \<open>None\<close>.
  Reading or writing beyond the array is out of bounds.
\<close>

definition SWITCH_MAX_STATE_HANDLERS :: nat where
  "SWITCH_MAX_STATE_HANDLERS = 30"

record handler_registry =
  hr_handlers :: "nat option list"
  hr_index :: nat

definition empty_registry :: handler_registry where
  "empty_registry = \<lparr>hr_handlers = replicate SWITCH_MAX_STATE_HANDLERS None, hr_index = 0\<rparr>"

definition slot :: "handler_registry \<Rightarrow> nat \<Rightarrow> fault + nat option" where
  "slot r k = (if k < length (hr_handlers r) then Inr (hr_handlers r ! k) else Inl Out_of_bounds)"

fun first_index :: "('a \<Rightarrow> bool) \<Rightarrow> 'a list \<Rightarrow> nat option" where
  "first_index P [] = None"
| "first_index P (x # xs) = (if P x then Some 0 else map_option Suc (first_index P xs))"

text \<open>Taking the next free slot; the slot number is advanced also when the table is full.\<close>

definition take_slot :: "handler_registry \<Rightarrow> nat \<Rightarrow> fault + (int \<times> handler_registry)" where
  "take_slot r h =
     (let index = hr_index r; r1 = r\<lparr>hr_index := index + 1\<rparr> in
      if SWITCH_MAX_STATE_HANDLERS \<le> hr_index r1 then Inr (-1, r1)
      else if index < length (hr_handlers r1)
      then Inr (int index, r1\<lparr>hr_handlers := (hr_handlers r1)[index := Some h]\<rparr>)
      else Inl Out_of_bounds)"

definition switch_channel_add_state_handler :: "handler_registry \<Rightarrow> nat \<Rightarrow> fault + (int \<times> handler_registry)" where
  "switch_channel_add_state_handler r h =
     (case first_index (\<lambda>x. x = Some h) (hr_handlers r) of
        Some x \<Rightarrow> Inr (int x, r)
      | None \<Rightarrow> take_slot r h)"

definition switch_channel_get_state_handler :: "handler_registry \<Rightarrow> nat \<Rightarrow> fault + nat option" where
  "switch_channel_get_state_handler r index =
     (if SWITCH_MAX_STATE_HANDLERS \<le> index \<or> hr_index r < index then Inr None else slot r index)"

text \<open>Copying the handlers to keep, of the first \<open>n\<close> slots from \<open>k\<close> on, into an array of \<open>cap\<close> pointers.\<close>

fun keep_handlers :: "nat \<Rightarrow> (nat option \<Rightarrow> bool) \<Rightarrow> handler_registry \<Rightarrow> nat \<Rightarrow> nat \<Rightarrow> nat option list \<Rightarrow> fault + nat option list" where
  "keep_handlers cap P r k 0 kept = Inr kept"
| "keep_handlers cap P r k (Suc n) kept =
     fbind (slot r k) (\<lambda>h.
       if P h then if length kept < cap then keep_handlers cap P r (Suc k) n (kept @ [h]) else Inl Out_of_bounds
       else keep_handlers cap P r (Suc k) n kept)"

definition keeps_handler :: "(nat \<Rightarrow> bool) \<Rightarrow> nat option \<Rightarrow> nat option \<Rightarrow> bool" where
  "keeps_handler sticky state_handler h =
     (case state_handler of Some s \<Rightarrow> h \<noteq> Some s | None \<Rightarrow> (case h of Some x \<Rightarrow> sticky x | None \<Rightarrow> False))"

definition switch_channel_clear_state_handler :: "(nat \<Rightarrow> bool) \<Rightarrow> handler_registry \<Rightarrow> nat option \<Rightarrow> fault + handler_registry" where
  "switch_channel_clear_state_handler sticky r state_handler =
     fbind (keep_handlers SWITCH_MAX_STATE_HANDLERS (keeps_handler sticky state_handler) r 0 (hr_index r) []) (\<lambda>kept.
       Inr \<lparr>hr_handlers = kept @ replicate (SWITCH_MAX_STATE_HANDLERS - length kept) None, hr_index = length kept\<rparr>)"

definition switch_core_add_state_handler :: "handler_registry \<Rightarrow> nat \<Rightarrow> fault + (int \<times> handler_registry)" where
  "switch_core_add_state_handler runtime h = take_slot runtime h"

definition switch_core_get_state_handler :: "handler_registry \<Rightarrow> nat \<Rightarrow> fault + nat option" where
  "switch_core_get_state_handler runtime index =
     (if SWITCH_MAX_STATE_HANDLERS \<le> index \<or> hr_index runtime < index then Inr None else slot runtime index)"

definition switch_core_remove_state_handler :: "handler_registry \<Rightarrow> nat \<Rightarrow> fault + handler_registry" where
  "switch_core_remove_state_handler runtime state_handler =
     fbind (keep_handlers (SWITCH_MAX_STATE_HANDLERS + 1) (\<lambda>h. h \<noteq> Some state_handler) runtime 0 (hr_index runtime) []) (\<lambda>kept.
       Inr \<lparr>hr_handlers = kept @ replicate (hr_index runtime - length kept) None @ drop (hr_index runtime) (hr_handlers runtime),
            hr_index = length kept\<rparr>)"

section \<open>Registries with their handlers in front\<close>

definition registry :: "nat list \<Rightarrow> handler_registry" where
  "registry hs = \<lparr>hr_handlers = map Some hs @ replicate (SWITCH_MAX_STATE_HANDLERS - length hs) None, hr_index = length hs\<rparr>"

lemma empty_registry_list: "empty_registry = registry []"
  by (simp add: empty_registry_def registry_def)

lemma first_index_Some: "h \<in> set hs \<Longrightarrow> \<exists>k < length hs. first_index (\<lambda>x. x = Some h) (map Some hs @ ys) = Some k \<and> hs ! k = h"
  by (induction hs) (auto simp: nth_Cons split: nat.splits)

lemma first_index_None: "(\<forall>x \<in> set xs. \<not> P x) \<Longrightarrow> first_index P xs = None"
  by (induction xs) auto

lemma slot_registry:
  "length hs < SWITCH_MAX_STATE_HANDLERS \<Longrightarrow> k < SWITCH_MAX_STATE_HANDLERS \<Longrightarrow>
   slot (registry hs) k = Inr (if k < length hs then Some (hs ! k) else None)"
  by (simp add: slot_def registry_def nth_append)

lemma keep_registry:
  assumes "length hs < SWITCH_MAX_STATE_HANDLERS" "k + n \<le> length hs" "length kept + n \<le> cap"
  shows "keep_handlers cap P (registry hs) k n kept = Inr (kept @ map Some (filter (\<lambda>h. P (Some h)) (take n (drop k hs))))"
  using assms
proof (induction n arbitrary: k kept)
  case (Suc n)
  have k: "k < length hs" using Suc.prems(2) by simp
  then have "slot (registry hs) k = Inr (Some (hs ! k))" using Suc.prems(1) by (simp add: slot_registry)
  moreover have "take (Suc n) (drop k hs) = hs ! k # take n (drop (Suc k) hs)"
    using k by (simp add: Cons_nth_drop_Suc [symmetric])
  ultimately show ?case using Suc.IH [of "Suc k"] Suc.prems by auto
qed simp

lemma keep_all_registry:
  "length hs < SWITCH_MAX_STATE_HANDLERS \<Longrightarrow> length hs \<le> cap \<Longrightarrow>
   keep_handlers cap P (registry hs) 0 (length hs) [] = Inr (map Some (filter (\<lambda>h. P (Some h)) hs))"
  using keep_registry [of hs 0 "length hs" "[]" cap P] by simp

lemma registry_index [simp]: "hr_index (registry hs) = length hs"
  by (simp add: registry_def)

lemma add_registry:
  assumes "length hs < 29"
  shows "switch_channel_add_state_handler (registry hs) h =
      (case first_index (\<lambda>x. x = h) hs of Some k \<Rightarrow> Inr (int k, registry hs) | None \<Rightarrow> Inr (int (length hs), registry (hs @ [h])))"
proof -
  have f: "first_index (\<lambda>x. x = Some h) (map Some hs @ replicate n None) = first_index (\<lambda>x. x = h) hs" for n
    by (induction hs) (auto intro: first_index_None)
  have r: "replicate (30 - length hs) (None :: nat option) = None # replicate (30 - Suc (length hs)) None"
  proof -
    have "30 - length hs = Suc (29 - length hs)" "30 - Suc (length hs) = 29 - length hs" using assms by simp_all
    then show ?thesis by (simp only: replicate_Suc)
  qed
  have u: "(map Some hs @ replicate (30 - length hs) None)[length hs := Some h] =
      map Some hs @ Some h # replicate (30 - Suc (length hs)) None"
    unfolding r by (simp add: list_update_append)
  show ?thesis
    using assms by (auto simp: switch_channel_add_state_handler_def registry_def f take_slot_def SWITCH_MAX_STATE_HANDLERS_def
      u Let_def split: option.splits)
qed

lemma clear_registry:
  assumes "length hs < 29"
  shows "switch_channel_clear_state_handler sticky (registry hs) s =
      Inr (registry (filter (\<lambda>x. case s of Some h \<Rightarrow> x \<noteq> h | None \<Rightarrow> sticky x) hs))"
proof -
  have "keep_handlers SWITCH_MAX_STATE_HANDLERS (keeps_handler sticky s) (registry hs) 0 (length hs) [] =
      Inr (map Some (filter (\<lambda>x. case s of Some h \<Rightarrow> x \<noteq> h | None \<Rightarrow> sticky x) hs))"
    using assms keep_all_registry [of hs SWITCH_MAX_STATE_HANDLERS "keeps_handler sticky s"]
    by (cases s) (simp_all add: SWITCH_MAX_STATE_HANDLERS_def keeps_handler_def)
  then show ?thesis by (simp add: switch_channel_clear_state_handler_def registry_def)
qed

lemma get_registry:
  "length hs < 29 \<Longrightarrow> switch_channel_get_state_handler (registry hs) k = Inr (if k < length hs then Some (hs ! k) else None)"
  by (auto simp: switch_channel_get_state_handler_def slot_registry SWITCH_MAX_STATE_HANDLERS_def)

lemma keep_beyond:
  "k + n > length (hr_handlers r) \<Longrightarrow> k \<le> length (hr_handlers r) \<Longrightarrow> keep_handlers cap P r k n kept = Inl Out_of_bounds"
proof (induction n arbitrary: k kept)
  case (Suc n)
  show ?case
  proof (cases "k < length (hr_handlers r)")
    case True
    then show ?thesis using Suc by (auto simp: slot_def)
  qed (simp add: slot_def)
qed simp

section \<open>Properties\<close>

text \<open>while fewer than twenty-nine handlers are registered, the table of a channel behaves as a list
  without repetitions: adding finds a known handler and appends a new one, clearing removes exactly
  the given handler, or every handler that is not sticky, and keeps the order of the rest, and reading
  the slots from zero on gives the handlers up to the first empty slot.\<close>

theorem state_handlers_list_law:
  assumes "length hs < 29"
  shows "switch_channel_add_state_handler (registry hs) h =
      (case first_index (\<lambda>x. x = h) hs of Some k \<Rightarrow> Inr (int k, registry hs) | None \<Rightarrow> Inr (int (length hs), registry (hs @ [h]))) \<and>
    switch_channel_clear_state_handler sticky (registry hs) s =
      Inr (registry (filter (\<lambda>x. case s of Some g \<Rightarrow> x \<noteq> g | None \<Rightarrow> sticky x) hs)) \<and>
    switch_channel_get_state_handler (registry hs) k = Inr (if k < length hs then Some (hs ! k) else None)"
  using assms by (simp add: add_registry clear_registry get_registry)

theorem state_handlers_list_law_witness:
  "switch_channel_add_state_handler (registry [7, 4]) 5 = Inr (2, registry [7, 4, 5]) \<and>
   switch_channel_clear_state_handler (\<lambda>_. False) (registry [7, 4]) (Some 7) = Inr (registry [4]) \<and>
   switch_channel_get_state_handler (registry [7, 4]) 1 = Inr (Some 4)"
  using state_handlers_list_law [of "[7, 4]" 5 "\<lambda>_. False" "Some 7" 1] by simp

text \<open>the table takes twenty-nine handlers. Every further one is refused, but the refusal advances the
  slot number; after two refusals clearing a handler, or all of them, reads beyond the array.\<close>

theorem state_handlers_overflow:
  assumes "length hs = 29" "a \<notin> set hs" "b \<notin> set hs"
  shows "\<exists>r1 r2. switch_channel_add_state_handler (registry hs) a = Inr (-1, r1) \<and>
    switch_channel_add_state_handler r1 b = Inr (-1, r2) \<and>
    switch_channel_clear_state_handler sticky r2 s = Inl Out_of_bounds \<and>
    switch_core_remove_state_handler r2 g = Inl Out_of_bounds"
proof -
  let ?arr = "map Some hs @ [None]"
  have none: "first_index (\<lambda>x. x = Some h) ?arr = None" if "h \<notin> set hs" for h
    using that by (intro first_index_None) auto
  have r: "registry hs = \<lparr>hr_handlers = ?arr, hr_index = 29\<rparr>"
    using assms(1) by (simp add: registry_def SWITCH_MAX_STATE_HANDLERS_def)
  define r2 where "r2 = \<lparr>hr_handlers = ?arr, hr_index = 31\<rparr>"
  have "keep_handlers cap P r2 0 (hr_index r2) [] = Inl Out_of_bounds" for cap P
    using assms(1) by (intro keep_beyond) (simp_all add: r2_def)
  then have "switch_channel_clear_state_handler sticky r2 s = Inl Out_of_bounds" "switch_core_remove_state_handler r2 g = Inl Out_of_bounds"
    by (simp_all add: switch_channel_clear_state_handler_def switch_core_remove_state_handler_def)
  moreover have "switch_channel_add_state_handler (registry hs) a = Inr (-1, \<lparr>hr_handlers = ?arr, hr_index = 30\<rparr>)"
    "switch_channel_add_state_handler \<lparr>hr_handlers = ?arr, hr_index = 30\<rparr> b = Inr (-1, r2)"
    using none assms by (simp_all add: switch_channel_add_state_handler_def r take_slot_def SWITCH_MAX_STATE_HANDLERS_def r2_def)
  ultimately show ?thesis by blast
qed

theorem state_handlers_overflow_witness:
  "\<exists>r1 r2. switch_channel_add_state_handler (registry [0..<29]) 50 = Inr (-1, r1) \<and>
    switch_channel_add_state_handler r1 51 = Inr (-1, r2) \<and>
    switch_channel_clear_state_handler (\<lambda>_. True) r2 (Some 3) = Inl Out_of_bounds \<and>
    switch_core_remove_state_handler r2 3 = Inl Out_of_bounds"
  by (rule state_handlers_overflow) simp_all

end
