(* ===== verification/Session_Run.thy ===== *)
theory Session_Run
  imports Channel_State Separate State_Handlers
begin

text \<open>
  The life of a session (src/switch\_core\_state\_machine.c): the loop that runs the handlers of each
  channel state, the standard behaviour of the states and the tear-down states.

  A handler table is known by a number and the environment \<open>run_env\<close> gives its functions, as it gives
  every other call the loop makes into modules, dialplans, applications, the API and other threads;
  such a call maps a session to a session, possibly with a status. \<open>se_trace\<close> records which handlers,
  standard behaviours and applications ran and which events were fired, in order. Variables, presence, video and
  recovery bookkeeping are effects of the environment or of \<open>ch_effects\<close>.
\<close>

section \<open>Sessions\<close>

definition CF_BLEG :: nat where "CF_BLEG = 60"
definition CF_REDIRECT :: nat where "CF_REDIRECT = 8"
definition CF_RESET :: nat where "CF_RESET = 26"
definition CF_REPORTING :: nat where "CF_REPORTING = 37"
definition CF_THREAD_SLEEPING :: nat where "CF_THREAD_SLEEPING = 43"
definition CF_SIGNAL_BRIDGE_TTL :: nat where "CF_SIGNAL_BRIDGE_TTL = 46"
definition CF_EARLY_HANGUP :: nat where "CF_EARLY_HANGUP = 51"
definition CF_ZOMBIE_EXEC :: nat where "CF_ZOMBIE_EXEC = 67"
definition CF_CONFIRM_BLIND_TRANSFER :: nat where "CF_CONFIRM_BLIND_TRANSFER = 80"
definition CF_RECOVERING :: nat where "CF_RECOVERING = 84"
definition CF_RECOVERING_BRIDGE :: nat where "CF_RECOVERING_BRIDGE = 85"
definition CF_NO_CDR :: nat where "CF_NO_CDR = 88"

definition SWITCH_CAUSE_NO_ROUTE_DESTINATION :: int where "SWITCH_CAUSE_NO_ROUTE_DESTINATION = 3"
definition SWITCH_CAUSE_DESTINATION_OUT_OF_ORDER :: int where "SWITCH_CAUSE_DESTINATION_OUT_OF_ORDER = 27"
definition SWITCH_CAUSE_WRONG_CALL_STATE :: int where "SWITCH_CAUSE_WRONG_CALL_STATE = 101"
definition SWITCH_CAUSE_LOSE_RACE :: int where "SWITCH_CAUSE_LOSE_RACE = 502"

record application =
  application_name :: string
  application_data :: "string option"

datatype run_event =
    Driver switch_channel_state
  | Channel_handler nat switch_channel_state
  | Core_handler nat switch_channel_state
  | Standard switch_channel_state
  | Execute application
  | Fire_create
  | Fire_originate
  | Fire_hangup_complete string
  | Presence string

record caller_profile =
  cp_dialplan :: "string option"
  cp_caller_extension :: "nat option"

record session =
  se_channel :: switch_channel
  se_handlers :: handler_registry
  se_caller_profile :: "caller_profile option"
  se_queued_extension :: "nat option"
  se_extensions :: "nat \<Rightarrow> application list"
  se_ssf_hangup :: bool
  se_thread_running :: bool
  se_trace :: "run_event list"

type_synonym action = "session \<Rightarrow> fault + session"
type_synonym answer = "session \<Rightarrow> fault + (switch_status \<times> session)"

record run_env =
  env_table :: "nat \<Rightarrow> switch_channel_state \<Rightarrow> answer option"
  env_sticky :: "nat \<Rightarrow> bool"
  env_driver :: nat
  env_core :: handler_registry
  env_thread_try :: bool
  env_session_try :: "nat \<Rightarrow> bool"
  env_hangup :: hangup_env
  env_in_thread :: bool
  env_codecs :: bool
  env_early_hangup :: bool
  env_variable :: "session \<Rightarrow> string \<Rightarrow> string option"
  env_uuid :: string
  env_expand :: "session \<Rightarrow> string \<Rightarrow> string"
  env_dialplan :: "string \<Rightarrow> (session \<Rightarrow> string option \<Rightarrow> fault + (nat option \<times> session)) option"
  env_application :: "application \<Rightarrow> answer"
  env_blind_ack :: answer
  env_media :: action
  env_flip_cid :: action
  env_partner_uuid :: "session \<Rightarrow> string option"
  env_locate :: "string \<Rightarrow> nat \<Rightarrow> session \<Rightarrow> fault + (bool \<times> session)"
  env_wait_partner :: "string \<Rightarrow> session \<Rightarrow> fault + (bool \<times> session)"
  env_signal_bridge :: "string \<Rightarrow> action"
  env_uuid_bridge :: "string \<Rightarrow> action"
  env_park :: action
  env_untrack :: action
  env_blind_response :: "string \<Rightarrow> session \<Rightarrow> fault + (bool \<times> session)"
  env_hangup_clean :: action
  env_hangup_stats :: action
  env_device_hangup :: action
  env_device_clear :: action
  env_api_hook :: "string \<Rightarrow> string option \<Rightarrow> bool \<Rightarrow> action"
  env_originator :: bool
  env_originatee :: bool
  env_wait_flag :: action
  env_messages :: action
  env_state_run :: "answer option"
  env_hooks :: "answer list"
  env_events :: "nat \<Rightarrow> action"
  env_sleep :: action
  env_rounds :: nat

section \<open>Operations on the channel of a session\<close>

definition se_state :: "session \<Rightarrow> switch_channel_state" where
  "se_state s = ch_state (se_channel s)"

definition se_flag :: "session \<Rightarrow> nat \<Rightarrow> bool" where
  "se_flag s f \<longleftrightarrow> switch_channel_test_flag (se_channel s) f \<noteq> 0"

definition log_run :: "run_event \<Rightarrow> session \<Rightarrow> session" where
  "log_run e s = s\<lparr>se_trace := se_trace s @ [e]\<rparr>"

definition set_variable :: "string \<Rightarrow> string option \<Rightarrow> session \<Rightarrow> session" where
  "set_variable name v s = s\<lparr>se_channel := emit [Set_variable name v] (se_channel s)\<rparr>"

definition set_state :: "run_env \<Rightarrow> session \<Rightarrow> switch_channel_state \<Rightarrow> fault + session" where
  "set_state E s state =
     fbind (switch_channel_perform_set_state (env_thread_try E) (env_session_try E) (se_channel s) state)
       (\<lambda>(_, ch). Inr (s\<lparr>se_channel := ch\<rparr>))"

definition set_running_state :: "run_env \<Rightarrow> session \<Rightarrow> switch_channel_state \<Rightarrow> fault + session" where
  "set_running_state E s state =
     fbind (switch_channel_perform_set_running_state (env_thread_try E) (env_session_try E) (se_channel s) state)
       (\<lambda>ch. Inr (s\<lparr>se_channel := ch\<rparr>))"

definition set_flag :: "session \<Rightarrow> nat \<Rightarrow> fault + session" where
  "set_flag s f = fbind (switch_channel_set_flag_value 0 0 None (se_channel s) f 1) (\<lambda>ch. Inr (s\<lparr>se_channel := ch\<rparr>))"

definition clear_flag :: "session \<Rightarrow> nat \<Rightarrow> fault + session" where
  "clear_flag s f = fbind (switch_channel_clear_flag 0 0 (se_channel s) f) (\<lambda>ch. Inr (s\<lparr>se_channel := ch\<rparr>))"

definition set_callstate :: "session \<Rightarrow> switch_channel_callstate \<Rightarrow> session" where
  "set_callstate s cs = s\<lparr>se_channel := switch_channel_perform_set_callstate (se_channel s) cs\<rparr>"

text \<open>
  A hang-up by the session loop or a handler. In the early hang-up mode (\<open>CF_EARLY_HANGUP\<close> on the channel or
  \<open>SCF_EARLY_HANGUP\<close> in the core, both off unless asked for) \<open>switch_core_session_hangup_state\<close> runs the hang-up
  handlers at once, inside the hang-up; the model has the mode off, where that call returns at its first
  test. The channel's own effects record that it is made.
\<close>

definition hangup :: "run_env \<Rightarrow> session \<Rightarrow> int \<Rightarrow> fault + session" where
  "hangup E s cause =
     fbind (switch_channel_perform_hangup (env_hangup E) (se_channel s) cause) (\<lambda>(_, ch). Inr (s\<lparr>se_channel := ch\<rparr>))"

definition ready :: "run_env \<Rightarrow> session \<Rightarrow> bool" where
  "ready E s = switch_channel_test_ready (env_in_thread E) (env_codecs E) (se_channel s) True False"

section \<open>Caller extensions\<close>

definition switch_channel_get_caller_extension :: "session \<Rightarrow> nat option" where
  "switch_channel_get_caller_extension s = (case se_caller_profile s of None \<Rightarrow> None | Some p \<Rightarrow> cp_caller_extension p)"

definition switch_channel_get_queued_extension :: "session \<Rightarrow> nat option \<times> session" where
  "switch_channel_get_queued_extension s = (se_queued_extension s, s\<lparr>se_queued_extension := None\<rparr>)"

definition switch_channel_transfer_to_extension :: "run_env \<Rightarrow> session \<Rightarrow> nat option \<Rightarrow> fault + session" where
  "switch_channel_transfer_to_extension E s ext =
     fbind (set_flag (s\<lparr>se_queued_extension := ext\<rparr>) CF_TRANSFER) (\<lambda>s1. set_state E s1 CS_ROUTING)"

definition switch_channel_sort_cid :: "run_env \<Rightarrow> session \<Rightarrow> fault + session" where
  "switch_channel_sort_cid E s =
     (if ch_direction (se_channel s) = SWITCH_CALL_DIRECTION_INBOUND \<and> se_flag s CF_BLEG
      then fbind (env_flip_cid E s) (\<lambda>s1. clear_flag s1 CF_BLEG)
      else if ch_direction (se_channel s) = SWITCH_CALL_DIRECTION_OUTBOUND \<and> \<not> se_flag s CF_DIALPLAN
      then fbind (set_flag s CF_DIALPLAN) (env_flip_cid E)
      else Inr s)"

definition switch_channel_set_caller_extension :: "run_env \<Rightarrow> session \<Rightarrow> nat \<Rightarrow> fault + session" where
  "switch_channel_set_caller_extension E s ext =
     fbind (switch_channel_sort_cid E s) (\<lambda>s1.
       case se_caller_profile s1 of None \<Rightarrow> Inl Null_pointer
       | Some p \<Rightarrow> Inr (s1\<lparr>se_caller_profile := Some (p\<lparr>cp_caller_extension := Some ext\<rparr>)\<rparr>))"

section \<open>The standard behaviour of the states\<close>

definition switch_core_standard_on_init :: "run_env \<Rightarrow> session \<Rightarrow> fault + session" where
  "switch_core_standard_on_init E s =
     (if se_flag s CF_RECOVERING_BRIDGE then set_state E s CS_RESET
      else if se_flag s CF_RECOVERING then set_state E s CS_EXECUTE
      else set_state E s CS_ROUTING)"

text \<open>Moving on to the next application of an extension and recording it.\<close>

definition next_application :: "nat \<Rightarrow> application \<Rightarrow> application list \<Rightarrow> session \<Rightarrow> session" where
  "next_application ext a as s = log_run (Execute a) (s\<lparr>se_extensions := (se_extensions s)(ext := as)\<rparr>)"

text \<open>The applications of a hung-up channel with \<open>CF_ZOMBIE_EXEC\<close>, followed for a number of rounds.\<close>

fun zombie_apps :: "run_env \<Rightarrow> nat \<Rightarrow> nat \<Rightarrow> session \<Rightarrow> fault + session" where
  "zombie_apps E 0 ext s = Inl Still_running"
| "zombie_apps E (Suc n) ext s =
     (case se_extensions s ext of [] \<Rightarrow> Inr s
      | a # as \<Rightarrow>
        fbind (env_application E a (next_application ext a as s)) (\<lambda>(status, s1).
          if status \<noteq> SWITCH_STATUS_SUCCESS \<and> status \<noteq> SWITCH_STATUS_IGNORE then Inr s1
          else zombie_apps E n ext s1))"

definition switch_core_standard_on_hangup :: "run_env \<Rightarrow> session \<Rightarrow> fault + session" where
  "switch_core_standard_on_hangup E s =
     (let rec = se_flag s CF_RECOVERING in
      fbind (clear_flag s CF_RECOVERING) (\<lambda>s1.
      fbind (if rec then Inr s1 else env_untrack E s1) (\<lambda>s2.
        if \<not> se_flag s2 CF_ZOMBIE_EXEC then Inr s2
        else case switch_channel_get_caller_extension s2 of None \<Rightarrow> Inr s2
          | Some ext \<Rightarrow> zombie_apps E (env_rounds E) ext s2)))"

text \<open>
  Finding the partner of a recovered bridge, at most twenty times while the channel is up, and joining
  it again. \<open>env_wait_partner\<close> waits for the partner and says whether its media is proxied.
\<close>

fun locate_partner :: "run_env \<Rightarrow> string \<Rightarrow> nat \<Rightarrow> nat \<Rightarrow> session \<Rightarrow> fault + (bool \<times> session)" where
  "locate_partner E other_uuid 0 x s = Inr (False, s)"
| "locate_partner E other_uuid (Suc n) x s =
     (if \<not> se_state s < CS_HANGUP then Inr (False, s)
      else fbind (env_locate E other_uuid x s) (\<lambda>(found, s1).
        if found then Inr (True, s1) else locate_partner E other_uuid n (Suc x) s1))"

definition rebridge :: "run_env \<Rightarrow> session \<Rightarrow> fault + session" where
  "rebridge E s =
     (case env_partner_uuid E s of None \<Rightarrow> Inr s
      | Some other_uuid \<Rightarrow>
          fbind (locate_partner E other_uuid 20 0 s) (\<lambda>(found, s1).
            if \<not> found then Inr s1
            else fbind (clear_flag s1 CF_BRIDGE_ORIGINATOR) (\<lambda>s2.
              fbind (env_wait_partner E other_uuid s2) (\<lambda>(other_proxy, s3).
                if se_flag s3 CF_PROXY_MODE \<and> other_proxy then env_signal_bridge E other_uuid s3
                else env_uuid_bridge E other_uuid s3))))"

definition switch_core_standard_on_reset :: "run_env \<Rightarrow> session \<Rightarrow> fault + session" where
  "switch_core_standard_on_reset E s =
     (let s1 = set_variable ''call_uuid'' (Some (env_uuid E)) s in
      if se_flag s1 CF_RECOVERING_BRIDGE
      then fbind (if se_flag s1 CF_BRIDGE_ORIGINATOR then rebridge E s1 else Inr s1) (\<lambda>s2.
             clear_flag s2 CF_RECOVERING_BRIDGE)
      else Inr s1)"

text \<open>Hunting through the dialplans of a profile: the extension found, if any, and how many dialplans were asked.\<close>

fun hunt :: "run_env \<Rightarrow> string list \<Rightarrow> nat \<Rightarrow> session \<Rightarrow> fault + (nat option \<times> nat \<times> session)" where
  "hunt E [] count s = Inr (None, count, s)"
| "hunt E (dp # dps) count s =
     (let dpname = takeWhile (\<lambda>c. c \<noteq> CHR '':'') dp;
          rest = (case dropWhile (\<lambda>c. c \<noteq> CHR '':'') dp of [] \<Rightarrow> None | _ # arg \<Rightarrow> Some arg) in
      case env_dialplan E dpname of None \<Rightarrow> hunt E dps count s
      | Some hunt_function \<Rightarrow>
          fbind (hunt_function s rest) (\<lambda>(ext, s1).
            if ext \<noteq> None then Inr (ext, count + 1, s1) else hunt E dps (count + 1) s1))"

definition install_extension :: "run_env \<Rightarrow> session \<Rightarrow> nat \<Rightarrow> fault + session" where
  "install_extension E s ext = fbind (switch_channel_set_caller_extension E s ext) (\<lambda>s1. set_state E s1 CS_EXECUTE)"

definition no_extension :: "run_env \<Rightarrow> nat \<Rightarrow> session \<Rightarrow> fault + session" where
  "no_extension E count s =
     (if count = 0 \<and> ch_direction (se_channel s) = SWITCH_CALL_DIRECTION_OUTBOUND
      then if se_flag s CF_ANSWERED then hangup E s SWITCH_CAUSE_NO_ROUTE_DESTINATION
           else set_state E s CS_CONSUME_MEDIA
      else fbind (env_blind_ack E s) (\<lambda>(status, s1).
        if status \<noteq> SWITCH_STATUS_SUCCESS then hangup E s1 SWITCH_CAUSE_NO_ROUTE_DESTINATION else Inr s1))"

definition switch_core_standard_on_routing :: "run_env \<Rightarrow> session \<Rightarrow> fault + session" where
  "switch_core_standard_on_routing E s =
     (let s1 = set_variable ''call_uuid'' (Some (env_uuid E)) s in
      fbind (if (se_flag s1 CF_ANSWERED \<or> se_flag s1 CF_EARLY_MEDIA \<or> se_flag s1 CF_SIGNAL_BRIDGE_TTL) \<and> se_flag s1 CF_PROXY_MODE
             then env_media E s1 else Inr s1) (\<lambda>s2.
      case se_caller_profile s2 of None \<Rightarrow> hangup E s2 SWITCH_CAUSE_DESTINATION_OUT_OF_ORDER
      | Some p \<Rightarrow>
        (case switch_channel_get_queued_extension s2 of
           (Some ext, s3) \<Rightarrow> install_extension E s3 ext
         | (None, s3) \<Rightarrow>
             fbind (case cp_dialplan p of None \<Rightarrow> Inr (None, 0, s3)
                    | Some dialplan \<Rightarrow>
                        if dialplan = [] then Inr (None, 0, s3)
                        else fbind (switch_separate_string (env_expand E s3 dialplan) (CHR '','') 25) (\<lambda>dp. hunt E dp 0 s3))
               (\<lambda>(ext, count, s4). case ext of Some e \<Rightarrow> install_extension E s4 e | None \<Rightarrow> no_extension E count s4))))"

text \<open>
  Executing the applications of the caller extension. \<open>execute_top\<close> is the code at the label \<open>top\<close>,
  reached again when an application sets \<open>CF_RESET\<close>; the flag in the result says that the handler
  returned from inside the loop.
\<close>

fun execute_top :: "run_env \<Rightarrow> nat \<Rightarrow> session \<Rightarrow> fault + (bool \<times> session)"
  and execute_apps :: "run_env \<Rightarrow> nat \<Rightarrow> nat \<Rightarrow> session \<Rightarrow> fault + (bool \<times> session)" where
  "execute_top E 0 s = Inl Still_running"
| "execute_top E (Suc n) s =
     fbind (clear_flag s CF_RESET) (\<lambda>s1.
       case switch_channel_get_caller_extension s1 of
         None \<Rightarrow> fbind (hangup E s1 SWITCH_CAUSE_NORMAL_CLEARING) (\<lambda>s2. Inr (True, s2))
       | Some ext \<Rightarrow> execute_apps E n ext s1)"
| "execute_apps E 0 ext s = Inl Still_running"
| "execute_apps E (Suc n) ext s =
     (case se_extensions s ext of [] \<Rightarrow> Inr (False, s)
      | a # as \<Rightarrow>
        if se_state s \<noteq> CS_EXECUTE then Inr (False, s)
        else fbind (env_application E a (next_application ext a as s)) (\<lambda>(status, s1).
          if status \<noteq> SWITCH_STATUS_SUCCESS then Inr (True, s1)
          else if se_flag s1 CF_RESET then execute_top E n s1
          else execute_apps E n ext s1))"

definition confirm_transfer :: "run_env \<Rightarrow> session \<Rightarrow> fault + session" where
  "confirm_transfer E s =
     (if ready E s \<and> se_state s = CS_EXECUTE \<and> se_flag s CF_CONFIRM_BLIND_TRANSFER
      then case env_variable E s ''blind_transfer_uuid'' of None \<Rightarrow> Inr s
        | Some uuid \<Rightarrow> fbind (env_blind_response E uuid s) (\<lambda>(located, s1).
            if located
            then fbind (set_state E (set_variable ''park_timeout'' (Some ''10:blind_transfer'') s1) CS_PARK) (\<lambda>s2.
                   clear_flag s2 CF_CONFIRM_BLIND_TRANSFER)
            else Inr s1)
      else Inr s)"

definition switch_core_standard_on_execute :: "run_env \<Rightarrow> session \<Rightarrow> fault + session" where
  "switch_core_standard_on_execute E s =
     fbind (clear_flag s CF_RECOVERING) (\<lambda>s1.
     let s2 = set_variable ''call_uuid'' (Some (env_uuid E)) s1 in
     fbind (if env_variable E s2 ''recovered'' \<noteq> None \<and> \<not> se_flag s2 CF_RECOVERED then set_flag s2 CF_RECOVERED else Inr s2) (\<lambda>s3.
     fbind (execute_top E (env_rounds E) s3) (\<lambda>(returned, s4).
       if returned then Inr s4
       else fbind (confirm_transfer E s4) (\<lambda>s5.
         if ready E s5 \<and> se_state s5 = CS_EXECUTE then hangup E s5 SWITCH_CAUSE_NORMAL_CLEARING else Inr s5))))"

definition switch_core_standard :: "run_env \<Rightarrow> switch_channel_state \<Rightarrow> session \<Rightarrow> fault + session" where
  "switch_core_standard E state s =
     (case state of
        CS_INIT \<Rightarrow> switch_core_standard_on_init E s
      | CS_ROUTING \<Rightarrow> switch_core_standard_on_routing E s
      | CS_RESET \<Rightarrow> switch_core_standard_on_reset E s
      | CS_EXECUTE \<Rightarrow> switch_core_standard_on_execute E s
      | CS_PARK \<Rightarrow> env_park E s
      | CS_HANGUP \<Rightarrow> switch_core_standard_on_hangup E s
      | _ \<Rightarrow> Inr s)"

section \<open>Running the handlers of a state\<close>

text \<open>
  The loops of \<open>STATE_MACRO\<close> over the handlers of the channel and of the core: they stop at the first
  empty slot, the lookups answer none from \<open>SWITCH_MAX_STATE_HANDLERS\<close> on. The flag says that no
  handler vetoed.
\<close>

fun run_handlers :: "run_env \<Rightarrow> (session \<Rightarrow> nat \<Rightarrow> fault + nat option) \<Rightarrow> (nat \<Rightarrow> switch_channel_state \<Rightarrow> run_event) \<Rightarrow>
    switch_channel_state \<Rightarrow> nat \<Rightarrow> nat \<Rightarrow> session \<Rightarrow> fault + (bool \<times> session)" where
  "run_handlers E get ev state 0 index s = Inr (True, s)"
| "run_handlers E get ev state (Suc n) index s =
     fbind (get s index) (\<lambda>h. case h of None \<Rightarrow> Inr (True, s)
     | Some h \<Rightarrow>
         (case env_table E h state of None \<Rightarrow> run_handlers E get ev state n (Suc index) s
          | Some f \<Rightarrow> fbind (f (log_run (ev h state) s)) (\<lambda>(status, s1).
              if status = SWITCH_STATUS_SUCCESS then run_handlers E get ev state n (Suc index) s1 else Inr (False, s1))))"

definition channel_handlers :: "run_env \<Rightarrow> switch_channel_state \<Rightarrow> session \<Rightarrow> fault + (bool \<times> session)" where
  "channel_handlers E state s =
     run_handlers E (\<lambda>s k. switch_channel_get_state_handler (se_handlers s) k) Channel_handler state SWITCH_MAX_STATE_HANDLERS 0 s"

definition core_handlers :: "run_env \<Rightarrow> switch_channel_state \<Rightarrow> session \<Rightarrow> fault + (bool \<times> session)" where
  "core_handlers E state s =
     run_handlers E (\<lambda>s k. switch_core_get_state_handler (env_core E) k) Core_handler state SWITCH_MAX_STATE_HANDLERS 0 s"

definition driver_handler :: "run_env \<Rightarrow> switch_channel_state \<Rightarrow> session \<Rightarrow> fault + (bool \<times> session)" where
  "driver_handler E state s =
     (case env_table E (env_driver E) state of None \<Rightarrow> Inr (True, s)
      | Some f \<Rightarrow> fbind (f (log_run (Driver state) s)) (\<lambda>(status, s1). Inr (status = SWITCH_STATUS_SUCCESS, s1)))"

text \<open>
  \<open>STATE_MACRO\<close> for the handlers of \<open>state\<close>; \<open>midstate\<close> is the state of the channel when the caller
  began. A veto of the driver ends it, one of a channel or core handler only stops the standard behaviour.
\<close>

definition state_macro :: "run_env \<Rightarrow> bool \<Rightarrow> switch_channel_state \<Rightarrow> switch_channel_state \<Rightarrow> session \<Rightarrow> fault + session" where
  "state_macro E do_extra_handlers state midstate s =
     fbind (driver_handler E state s) (\<lambda>(ok, s1).
       if \<not> ok then Inr s1
       else fbind (if do_extra_handlers then channel_handlers E state s1 else Inr (True, s1)) (\<lambda>(ok1, s2).
       fbind (if do_extra_handlers then core_handlers E state s2 else Inr (True, s2)) (\<lambda>(ok2, s3).
         if ok1 \<and> ok2 \<and> midstate = se_state s3 then switch_core_standard E state (log_run (Standard state) s3) else Inr s3)))"

section \<open>Tear-down states\<close>

text \<open>The command and the argument of a hook: separated by the first colon when it is doubled, else by the first blank.\<close>

definition hook_command :: "string \<Rightarrow> string \<times> string option" where
  "hook_command hook_var =
     (case dropWhile (\<lambda>c. c \<noteq> CHR '':'') hook_var of
        _ # c # arg \<Rightarrow> if c = CHR '':'' then (takeWhile (\<lambda>c. c \<noteq> CHR '':'') hook_var, Some arg)
          else (takeWhile (\<lambda>c. c \<noteq> CHR '' '') hook_var, case dropWhile (\<lambda>c. c \<noteq> CHR '' '') hook_var of [] \<Rightarrow> None | _ # a \<Rightarrow> Some a)
      | _ \<Rightarrow> (takeWhile (\<lambda>c. c \<noteq> CHR '' '') hook_var, case dropWhile (\<lambda>c. c \<noteq> CHR '' '') hook_var of [] \<Rightarrow> None | _ # a \<Rightarrow> Some a))"

definition api_hook :: "run_env \<Rightarrow> string \<Rightarrow> session \<Rightarrow> fault + session" where
  "api_hook E hook_name s =
     (case env_variable E s hook_name of None \<Rightarrow> Inr s
      | Some hook_var \<Rightarrow>
          let use_session = switch_true (env_variable E s ''session_in_hangup_hook'') in
          if hook_var = [] then Inr s
          else case hook_command hook_var of (cmd, arg) \<Rightarrow> env_api_hook E cmd arg use_session s)"

definition switch_core_session_hangup_state :: "run_env \<Rightarrow> bool \<Rightarrow> session \<Rightarrow> fault + session" where
  "switch_core_session_hangup_state E force s =
     (let cause = ch_hangup_cause (se_channel s); cause_q850 = switch_channel_cause_q850 cause; state = se_state s in
      if \<not> force \<and> (\<not> se_flag s CF_EARLY_HANGUP \<and> \<not> env_early_hangup E \<or> \<not> env_in_thread E) then Inr s
      else if se_ssf_hangup s then Inr s
      else fbind (env_hangup_clean E s) (\<lambda>s1.
        let s2 = set_variable ''hangup_cause'' (Some (switch_channel_cause2str cause)) s1;
            s3 = set_variable ''hangup_cause_q850'' (Some (decimal (nat cause_q850))) s2;
            s4 = set_callstate s3 CCS_HANGUP
        in fbind (state_macro E True CS_HANGUP state s4) (\<lambda>s5.
           fbind (env_hangup_stats E s5) (\<lambda>s6.
           fbind (api_hook E ''api_hangup_hook'' s6) (\<lambda>s7.
           fbind (env_device_hangup E s7) (\<lambda>s8. Inr (s8\<lparr>se_ssf_hangup := True\<rparr>)))))))"

text \<open>Whether the call record is wanted: the variables \<open>process_cdr\<close> and \<open>skip_cdr_causes\<close>, and \<open>CF_NO_CDR\<close>.\<close>

definition wants_process :: "run_env \<Rightarrow> session \<Rightarrow> bool" where
  "wants_process E s =
     (case env_variable E s ''process_cdr'' of None \<Rightarrow> True
      | Some var \<Rightarrow>
          if var = [] then True
          else if strcasecmp_eq var ''a_only'' then \<not> env_originator E
          else if strcasecmp_eq var ''b_only'' then \<not> env_originatee E
          else switch_true (Some var))"

definition skipped_cause :: "run_env \<Rightarrow> session \<Rightarrow> int \<Rightarrow> fault + bool" where
  "skipped_cause E s cause =
     (case env_variable E s ''skip_cdr_causes'' of None \<Rightarrow> Inr False
      | Some skip_var \<Rightarrow>
          if skip_var = [] then Inr False
          else fbind (switch_separate_string skip_var (CHR ''|'') 128) (\<lambda>l.
            Inr (list_ex (\<lambda>x. switch_channel_str2cause x = cause) l)))"

definition switch_core_session_reporting_state :: "run_env \<Rightarrow> session \<Rightarrow> fault + session" where
  "switch_core_session_reporting_state E s =
     (let cause = ch_hangup_cause (se_channel s); state = se_state s in
      if se_flag s CF_REPORTING then Inr s
      else fbind (set_flag s CF_REPORTING) (\<lambda>s1.
        fbind (skipped_cause E s cause) (\<lambda>skip.
          let do_extra_handlers = (wants_process E s \<and> \<not> skip \<and> \<not> se_flag s1 CF_NO_CDR) in
          fbind (state_macro E do_extra_handlers CS_REPORTING state s1) (\<lambda>s2.
          fbind (api_hook E ''api_reporting_hook'' s2) (\<lambda>s3.
            Inr (log_run (Fire_hangup_complete (switch_channel_cause2str cause)) s3))))))"

definition switch_core_session_destroy_state :: "run_env \<Rightarrow> session \<Rightarrow> fault + session" where
  "switch_core_session_destroy_state E s =
     fbind (set_running_state E (set_callstate s CCS_DOWN) CS_DESTROY) (\<lambda>s1.
     fbind (clear_flag s1 CF_TRANSFER) (\<lambda>s2.
     fbind (clear_flag s2 CF_REDIRECT) (\<lambda>s3.
     fbind (state_macro E True CS_DESTROY CS_DESTROY s3) (env_device_clear E))))"

definition check_presence :: "session \<Rightarrow> session" where
  "check_presence s =
     (let state = ch_running_state (se_channel s) in
      if state = CS_ROUTING \<or> state = CS_HANGUP
      then if ch_hangup_cause (se_channel s) = SWITCH_CAUSE_LOSE_RACE
           then set_variable ''presence_call_info'' None (log_run (Presence ''cancelled'') s)
           else log_run (Presence (switch_channel_state_name state)) s
      else s)"

section \<open>The loop of a session\<close>

fun state_hooks :: "answer list \<Rightarrow> session \<Rightarrow> fault + session" where
  "state_hooks [] s = Inr s"
| "state_hooks (f # fs) s =
     fbind (f s) (\<lambda>(status, s1). if status \<noteq> SWITCH_STATUS_SUCCESS then Inr s1 else state_hooks fs s1)"

definition enter_state :: "run_env \<Rightarrow> switch_channel_state \<Rightarrow> session \<Rightarrow> fault + session" where
  "enter_state E state s =
     fbind (set_running_state E s state) (\<lambda>s1.
     fbind (clear_flag s1 CF_TRANSFER) (\<lambda>s2.
     fbind (clear_flag s2 CF_REDIRECT) (\<lambda>s3.
     fbind (env_messages E s3) (\<lambda>s4.
       case env_state_run E of None \<Rightarrow> state_hooks (env_hooks E) s4
       | Some f \<Rightarrow> fbind (f s4) (\<lambda>(rstatus, s5).
           if rstatus = SWITCH_STATUS_SUCCESS then state_hooks (env_hooks E) s5 else Inr s5)))))"

text \<open>The \<open>switch\<close> over the state; the flag is the jump to \<open>done\<close>.\<close>

definition dispatch_state :: "run_env \<Rightarrow> switch_channel_state \<Rightarrow> session \<Rightarrow> fault + (bool \<times> session)" where
  "dispatch_state E state s =
     (case state of
        CS_NEW \<Rightarrow> Inr (False, s)
      | CS_DESTROY \<Rightarrow> Inr (True, s)
      | CS_REPORTING \<Rightarrow>
          fbind (switch_core_session_reporting_state E s) (\<lambda>s1.
          fbind (set_state E s1 CS_DESTROY) (\<lambda>s2. Inr (True, s2)))
      | CS_HANGUP \<Rightarrow>
          fbind (switch_core_session_hangup_state E True s) (\<lambda>s1.
          fbind (set_state E s1 CS_REPORTING) (\<lambda>s2. Inr (False, s2)))
      | CS_INIT \<Rightarrow>
          fbind (state_macro E True CS_INIT CS_INIT s) (\<lambda>s1.
            let s2 = log_run Fire_create s1 in
            Inr (False, if ch_direction (se_channel s2) = SWITCH_CALL_DIRECTION_OUTBOUND then log_run Fire_originate s2 else s2))
      | CS_NONE \<Rightarrow> Inl Assert_failed
      | _ \<Rightarrow> fbind (state_macro E True state state s) (\<lambda>s1. Inr (False, s1)))"

text \<open>Waiting for work in a state that has not changed; \<open>new_loops\<close> counts the rounds in \<open>CS_NEW\<close> down.\<close>

definition settled :: "session \<Rightarrow> bool" where
  "settled s \<longleftrightarrow> se_state s = ch_running_state (se_channel s)"

definition abandon :: "run_env \<Rightarrow> uint32 \<Rightarrow> session \<Rightarrow> fault + (uint32 \<times> session)" where
  "abandon E new_loops s =
     fbind (env_events E 0 s) (\<lambda>s1.
       let n = new_loops - 1 in
       if n = 0 then fbind (set_flag s1 CF_NO_CDR) (\<lambda>s2.
         fbind (hangup E s2 SWITCH_CAUSE_WRONG_CALL_STATE) (\<lambda>s3. Inr (n, s3)))
       else Inr (n, s1))"

definition sleep :: "run_env \<Rightarrow> session \<Rightarrow> fault + session" where
  "sleep E s =
     fbind (env_events E 0 s) (\<lambda>s0. fbind (env_events E 1 s0) (\<lambda>s1.
     fbind (if settled s1
            then fbind (set_flag s1 CF_THREAD_SLEEPING) (\<lambda>s2.
              fbind (if settled s2 then fbind (env_events E 2 s2) (env_sleep E) else Inr s2) (\<lambda>s3.
                clear_flag s3 CF_THREAD_SLEEPING))
            else Inr s1) (\<lambda>s4.
     fbind (env_events E 3 s4) (env_events E 4))))"

definition await :: "run_env \<Rightarrow> uint32 \<Rightarrow> session \<Rightarrow> fault + (uint32 \<times> session)" where
  "await E new_loops s =
     (if \<not> settled s then Inr (new_loops, s)
      else if se_state s = CS_NEW then abandon E new_loops s
      else fbind (sleep E s) (\<lambda>s1. Inr (new_loops, s1)))"

text \<open>One round of the loop: \<open>None\<close> for the counter when the loop has ended.\<close>

definition run_round :: "run_env \<Rightarrow> uint32 \<Rightarrow> session \<Rightarrow> fault + (uint32 option \<times> session)" where
  "run_round E new_loops s =
     (if se_state s = CS_DESTROY then Inr (None, s)
      else fbind (if se_flag s CF_BLOCK_STATE then env_wait_flag E s else Inr s) (\<lambda>s1.
        let state = se_state s1 in
        if state = CS_DESTROY then Inr (None, s1)
        else fbind (if state \<noteq> ch_running_state (se_channel s1) \<or> CS_HANGUP \<le> state
                    then fbind (enter_state E state s1) (\<lambda>s2.
                      fbind (dispatch_state E state s2) (\<lambda>(finished, s3).
                        Inr (finished, if finished then s3 else check_presence s3)))
                    else Inr (False, s1)) (\<lambda>(finished, s4).
          if finished then Inr (None, s4)
          else fbind (await E new_loops s4) (\<lambda>(n, s5). Inr (Some n, s5)))))"

fun run_rounds :: "(nat \<Rightarrow> run_env) \<Rightarrow> nat \<Rightarrow> uint32 \<Rightarrow> session \<Rightarrow> fault + session" where
  "run_rounds env 0 new_loops s = Inl Still_running"
| "run_rounds env (Suc n) new_loops s =
     fbind (run_round (env 0) new_loops s) (\<lambda>(next, s1).
       case next of None \<Rightarrow> Inr s1 | Some m \<Rightarrow> run_rounds (\<lambda>k. env (Suc k)) n m s1)"

definition switch_core_session_run :: "(nat \<Rightarrow> run_env) \<Rightarrow> nat \<Rightarrow> session \<Rightarrow> fault + session" where
  "switch_core_session_run env rounds s =
     fbind (run_rounds env rounds 500 (s\<lparr>se_thread_running := True\<rparr>)) (\<lambda>s1. Inr (s1\<lparr>se_thread_running := False\<rparr>))"

end
