(* ===== verification/Session_Life.thy ===== *)
theory Session_Life
  imports Session_Run
begin

text \<open>
  What the loop of a session guarantees: the tear-down of a hung-up channel, the execution of an
  extension, the routing of a call and the end of an abandoned one.
\<close>

section \<open>A session on its way down\<close>

definition drivers :: "run_event list \<Rightarrow> run_event list" where
  "drivers tr = filter (\<lambda>e. case e of Driver _ \<Rightarrow> True | _ \<Rightarrow> False) tr"

text \<open>
  \<open>goes D s s'\<close>: \<open>s'\<close> comes from \<open>s\<close> by work that called the driver's handlers \<open>D\<close> and left alone what
  only the session thread decides: the state, the cause, whether the tear-down handlers have run.
\<close>

definition goes :: "run_event list \<Rightarrow> session \<Rightarrow> session \<Rightarrow> bool" where
  "goes D s s' \<longleftrightarrow> se_state s' = se_state s \<and> ch_running_state (se_channel s') = ch_running_state (se_channel s) \<and>
     ch_hangup_cause (se_channel s') = ch_hangup_cause (se_channel s) \<and> se_ssf_hangup s' = se_ssf_hangup s \<and>
     se_flag s' CF_REPORTING = se_flag s CF_REPORTING \<and>
     ch_state_flags (se_channel s') CF_REPORTING = ch_state_flags (se_channel s) CF_REPORTING \<and>
     length (hr_handlers (se_handlers s')) = length (hr_handlers (se_handlers s)) \<and>
     (\<forall>e. length (se_extensions s' e) \<le> length (se_extensions s e)) \<and>
     drivers (se_trace s') = drivers (se_trace s) @ D"

definition down :: "session \<Rightarrow> bool" where
  "down s \<longleftrightarrow> CS_HANGUP \<le> se_state s \<and> length (hr_handlers (se_handlers s)) = SWITCH_MAX_STATE_HANDLERS"

definition calm_action :: "action \<Rightarrow> bool" where
  "calm_action f \<longleftrightarrow> (\<forall>s. down s \<longrightarrow> succeeds (goes [] s) (f s))"

definition calm_answer :: "answer \<Rightarrow> bool" where
  "calm_answer f \<longleftrightarrow> (\<forall>s. down s \<longrightarrow> succeeds (\<lambda>(r, s'). goes [] s s') (f s))"

text \<open>
  What is asked of the modules, applications and other threads once a channel is down: their calls
  return, and they leave the state and the bookkeeping of the tear-down to the session thread.
\<close>

definition calm_env :: "run_env \<Rightarrow> bool" where
  "calm_env E \<longleftrightarrow> (\<forall>h st f. env_table E h st = Some f \<longrightarrow> calm_answer f) \<and> (\<forall>a. calm_answer (env_application E a)) \<and>
     calm_action (env_untrack E) \<and> calm_action (env_hangup_clean E) \<and> calm_action (env_hangup_stats E) \<and>
     calm_action (env_device_hangup E) \<and> (\<forall>c a b. calm_action (env_api_hook E c a b)) \<and> calm_action (env_wait_flag E) \<and>
     calm_action (env_messages E) \<and> (\<forall>f. env_state_run E = Some f \<longrightarrow> calm_answer f) \<and>
     (\<forall>f \<in> set (env_hooks E). calm_answer f) \<and> length (hr_handlers (env_core E)) = SWITCH_MAX_STATE_HANDLERS \<and>
     (\<forall>s c. \<exists>b. skipped_cause E s c = Inr b)"

lemma goes_refl: "goes [] s s"
  by (simp add: goes_def)

lemma goes_trans: "goes D s s1 \<Longrightarrow> goes D' s1 s2 \<Longrightarrow> goes (D @ D') s s2"
  by (auto simp: goes_def intro: order_trans)

lemma goes_quiet: "goes D s s1 \<Longrightarrow> goes [] s1 s2 \<Longrightarrow> goes D s s2"
  using goes_trans [of D s s1 "[]" s2] by simp

lemma goes_ext: "goes D s s' \<Longrightarrow> length (se_extensions s' e) \<le> length (se_extensions s e)"
  by (simp add: goes_def)

lemma goes_down: "goes D s s' \<Longrightarrow> down s \<Longrightarrow> down s'"
  by (simp add: goes_def down_def)

lemma goes_bind:
  assumes "succeeds (goes D s) m" "down s" "\<And>s1. goes D s s1 \<Longrightarrow> down s1 \<Longrightarrow> succeeds (goes D' s1) (f s1)"
  shows "succeeds (goes (D @ D') s) (fbind m f)"
  using assms(1)
proof (rule succeeds_bind)
  fix s1 assume s1: "goes D s s1"
  from assms(3) [OF s1 goes_down [OF s1 assms(2)]] show "succeeds (goes (D @ D') s) (f s1)"
    by (rule succeeds_mono) (rule goes_trans [OF s1])
qed

lemma goes_answer_bind:
  fixes f :: "'r \<Rightarrow> session \<Rightarrow> fault + session"
  assumes "succeeds (\<lambda>(r, s1). goes D s s1) m" "down s" "\<And>r s1. goes D s s1 \<Longrightarrow> down s1 \<Longrightarrow> succeeds (goes D' s1) (f r s1)"
  shows "succeeds (goes (D @ D') s) (fbind m (\<lambda>(r, s1). f r s1))"
  using assms(1)
proof (rule succeeds_bind)
  fix x :: "'r \<times> session" assume "case x of (r, s1) \<Rightarrow> goes D s s1"
  then obtain r s1 where x: "x = (r, s1)" "goes D s s1" by (cases x) auto
  from assms(3) [OF x(2) goes_down [OF x(2) assms(2)]] show "succeeds (goes (D @ D') s) (case x of (r, s1) \<Rightarrow> f r s1)"
    unfolding x(1) prod.case by (rule succeeds_mono) (rule goes_trans [OF x(2)])
qed

lemma goes_simple:
  "goes [] s (set_variable v x s)" "goes [] s (set_callstate s cs)" "goes [] s (check_presence s)"
  "(\<forall>st. e \<noteq> Driver st) \<Longrightarrow> goes [] s (log_run e s)" "goes [Driver st] s (log_run (Driver st) s)"
  using frame_simple flags_simple
  by (auto simp: goes_def set_variable_def set_callstate_def check_presence_def log_run_def se_state_def se_flag_def
    switch_channel_test_flag_def drivers_def emit_def core_of_def switch_channel_perform_set_callstate_def Let_def split: run_event.splits)

lemma flag_goes:
  assumes "f \<noteq> CF_LEG_HOLDING" "f \<noteq> CF_REPORTING"
  shows "succeeds (goes [] s) (clear_flag s f)"
proof -
  obtain ch where ch: "switch_channel_clear_flag 0 0 (se_channel s) f = Inr ch" using clear_flag_plain [OF assms(1)] by blast
  have "core_of ch = core_of (se_channel s)" "ch_flags ch = (ch_flags (se_channel s))(f := 0)" using clear_flag_frame [OF ch] by auto
  then show ?thesis using assms(2)
    by (simp add: clear_flag_def ch goes_def se_state_def se_flag_def switch_channel_test_flag_def core_of_def)
qed

lemma run_handlers_goes:
  assumes E: "calm_env E" and get: "\<And>s k. down s \<Longrightarrow> k < SWITCH_MAX_STATE_HANDLERS \<Longrightarrow> \<exists>h. get s k = Inr h"
    and ev: "\<And>h st' st''. ev h st' \<noteq> Driver st''" and s: "down s" and n: "k + n \<le> SWITCH_MAX_STATE_HANDLERS"
  shows "succeeds (\<lambda>(b, s'). goes [] s s') (run_handlers E get ev st n k s)"
  using s n
proof (induction n arbitrary: k s)
  case (Suc n)
  obtain h where h: "get s k = Inr h" using get [OF Suc.prems(1), of k] Suc.prems(2) by auto
  have step: "succeeds (\<lambda>(b, s'). goes [] s s') (case x of (status, s1) \<Rightarrow>
      if status = SWITCH_STATUS_SUCCESS then run_handlers E get ev st n (Suc k) s1 else Inr (False, s1))"
    if x: "case x of (r, s1) \<Rightarrow> goes [] s s1" for x
  proof -
    obtain r s1 where x1: "x = (r, s1)" "goes [] s s1" using x by (cases x) auto
    have "succeeds (\<lambda>(b, s'). goes [] s1 s') (run_handlers E get ev st n (Suc k) s1)"
      using Suc.IH [OF goes_down [OF x1(2) Suc.prems(1)]] Suc.prems(2) by simp
    then have "succeeds (\<lambda>(b, s'). goes [] s s') (run_handlers E get ev st n (Suc k) s1)"
      by (rule succeeds_mono) (auto dest: goes_trans [OF x1(2)])
    then show ?thesis using x1 by simp
  qed
  show ?case
  proof (cases h)
    case None
    then show ?thesis using h by (simp add: goes_refl)
  next
    case (Some g)
    show ?thesis
    proof (cases "env_table E g st")
      case None
      then show ?thesis using h Some Suc.IH [OF Suc.prems(1), of "Suc k"] Suc.prems(2) by simp
    next
      case f: (Some f)
      let ?s0 = "log_run (ev g st) s"
      have s0: "goes [] s ?s0" using ev by (intro goes_simple) simp
      have "calm_answer f" using E f unfolding calm_env_def by blast
      then have "succeeds (\<lambda>(r, s'). goes [] ?s0 s') (f ?s0)" using goes_down [OF s0 Suc.prems(1)] unfolding calm_answer_def by blast
      then have "succeeds (\<lambda>(r, s'). goes [] s s') (f ?s0)" by (rule succeeds_mono) (auto dest: goes_trans [OF s0])
      then show ?thesis using h Some f by (simp add: succeeds_bind [OF _ step])
    qed
  qed
qed (simp add: goes_refl)

lemma get_ok:
  "length (hr_handlers r) = SWITCH_MAX_STATE_HANDLERS \<Longrightarrow> \<exists>h. switch_channel_get_state_handler r k = Inr h"
  "length (hr_handlers r) = SWITCH_MAX_STATE_HANDLERS \<Longrightarrow> \<exists>h. switch_core_get_state_handler r k = Inr h"
  by (auto simp: switch_channel_get_state_handler_def switch_core_get_state_handler_def slot_def)

lemma handlers_goes:
  assumes E: "calm_env E" and s: "down s"
  shows "succeeds (\<lambda>(b, s'). goes [] s s') (channel_handlers E st s)"
    and "succeeds (\<lambda>(b, s'). goes [] s s') (core_handlers E st s)"
proof -
  have core: "length (hr_handlers (env_core E)) = SWITCH_MAX_STATE_HANDLERS" using E by (simp add: calm_env_def)
  show "succeeds (\<lambda>(b, s'). goes [] s s') (channel_handlers E st s)"
    unfolding channel_handlers_def by (rule run_handlers_goes [OF E _ _ s]) (auto simp: down_def intro: get_ok)
  show "succeeds (\<lambda>(b, s'). goes [] s s') (core_handlers E st s)"
    unfolding core_handlers_def by (rule run_handlers_goes [OF E _ _ s]) (auto intro: get_ok core)
qed

lemma driver_goes:
  assumes E: "calm_env E" and s: "down s"
  shows "succeeds (\<lambda>(b, s'). goes (if env_table E (env_driver E) st = None then [] else [Driver st]) s s') (driver_handler E st s)"
proof (cases "env_table E (env_driver E) st")
  case None
  then show ?thesis by (simp add: driver_handler_def goes_refl)
next
  case (Some f)
  let ?s0 = "log_run (Driver st) s"
  have s0: "goes [Driver st] s ?s0" by (rule goes_simple)
  have "calm_answer f" using E Some unfolding calm_env_def by blast
  then have "succeeds (\<lambda>(r, s'). goes [] ?s0 s') (f ?s0)" using goes_down [OF s0 s] unfolding calm_answer_def by blast
  then have "succeeds (\<lambda>(r, s'). goes [Driver st] s s') (f ?s0)" by (rule succeeds_mono) (auto dest: goes_trans [OF s0])
  then have "succeeds (\<lambda>(b, s'). goes [Driver st] s s') (fbind (f ?s0) (\<lambda>(status, s1). Inr (status = SWITCH_STATUS_SUCCESS, s1)))"
    by (rule succeeds_bind) auto
  then show ?thesis by (simp add: driver_handler_def Some)
qed

definition driver_calls :: "run_env \<Rightarrow> switch_channel_state \<Rightarrow> run_event list" where
  "driver_calls E st = (if env_table E (env_driver E) st = None then [] else [Driver st])"

lemma goes_answer: "calm_answer f \<Longrightarrow> down s \<Longrightarrow> succeeds (\<lambda>(r, s'). goes [] s s') (f s)"
  unfolding calm_answer_def by blast

lemma goes_action: "calm_action f \<Longrightarrow> down s \<Longrightarrow> succeeds (goes [] s) (f s)"
  unfolding calm_action_def by blast

lemma zombie_goes:
  assumes E: "calm_env E"
  shows "down s \<Longrightarrow> length (se_extensions s ext) < n \<Longrightarrow> succeeds (goes [] s) (zombie_apps E n ext s)"
proof (induction n arbitrary: s)
  case (Suc n)
  show ?case
  proof (cases "se_extensions s ext")
    case (Cons a as)
    let ?s1 = "next_application ext a as s"
    have s1: "goes [] s ?s1" "length (se_extensions ?s1 ext) < n"
      using Cons Suc.prems(2)
      by (auto simp: goes_def se_state_def se_flag_def next_application_def log_run_def drivers_def)
    have d1: "down ?s1" by (rule goes_down [OF s1(1) Suc.prems(1)])
    have c: "calm_answer (env_application E a)" using E by (simp add: calm_env_def)
    have "succeeds (goes ([] @ []) ?s1) (fbind (env_application E a ?s1) (\<lambda>(status, s2).
        if status \<noteq> SWITCH_STATUS_SUCCESS \<and> status \<noteq> SWITCH_STATUS_IGNORE then Inr s2 else zombie_apps E n ext s2))"
    proof (rule goes_answer_bind [OF goes_answer [OF c d1] d1])
      fix r s2 assume g: "goes [] ?s1 s2" and d: "down s2"
      have "length (se_extensions s2 ext) < n" using g s1(2) unfolding goes_def by (meson order_le_less_trans)
      then show "succeeds (goes [] s2) (if r \<noteq> SWITCH_STATUS_SUCCESS \<and> r \<noteq> SWITCH_STATUS_IGNORE then Inr s2 else zombie_apps E n ext s2)"
        using Suc.IH [OF d] by (simp add: goes_refl)
    qed
    then show ?thesis using Cons by (auto elim!: succeeds_mono dest: goes_trans [OF s1(1)])
  qed (simp add: goes_refl)
qed simp

lemma standard_hangup_goes:
  assumes E: "calm_env E" and s: "down s" and n: "\<forall>e. length (se_extensions s e) < env_rounds E"
  shows "succeeds (goes [] s) (switch_core_standard_on_hangup E s)"
proof -
  have n': "length (se_extensions s' e) < env_rounds E" if "goes [] s s'" for s' e
    using that n unfolding goes_def by (meson order_le_less_trans)
  have cf: "succeeds (goes [] s) (clear_flag s CF_RECOVERING)"
    by (rule flag_goes) (simp_all add: CF_RECOVERING_def CF_REPORTING_def holding_flags)
  have un: "succeeds (goes [] s1) (if se_flag s CF_RECOVERING then Inr s1 else env_untrack E s1)" if "down s1" for s1
    using E that goes_action [of "env_untrack E" s1] by (simp add: calm_env_def goes_refl)
  have z: "succeeds (goes [] s2) (if \<not> se_flag s2 CF_ZOMBIE_EXEC then Inr s2
        else case switch_channel_get_caller_extension s2 of None \<Rightarrow> Inr s2
          | Some ext \<Rightarrow> zombie_apps E (env_rounds E) ext s2)" if "down s2" "goes [] s s2" for s2
    using zombie_goes [OF E that(1)] n' [OF that(2)] by (auto simp: goes_refl split: option.splits)
  have "succeeds (goes ([] @ [] @ []) s) (fbind (clear_flag s CF_RECOVERING) (\<lambda>s1.
      fbind (if se_flag s CF_RECOVERING then Inr s1 else env_untrack E s1) (\<lambda>s2.
        if \<not> se_flag s2 CF_ZOMBIE_EXEC then Inr s2
        else case switch_channel_get_caller_extension s2 of None \<Rightarrow> Inr s2
          | Some ext \<Rightarrow> zombie_apps E (env_rounds E) ext s2)))"
    by (rule goes_bind [OF cf s], rule goes_bind [OF un]) (assumption, assumption, rule z, assumption, rule goes_quiet)
  then show ?thesis by (simp add: switch_core_standard_on_hangup_def Let_def)
qed

lemma macro_goes:
  assumes E: "calm_env E" and s: "down s"
    and std: "\<And>s'. down s' \<Longrightarrow> \<forall>e. length (se_extensions s' e) \<le> length (se_extensions s e) \<Longrightarrow> succeeds (goes [] s') (switch_core_standard E st s')"
  shows "succeeds (goes (driver_calls E st) s) (state_macro E x st mid s)"
proof -
  have ext: "\<forall>e. length (se_extensions s2 e) \<le> length (se_extensions s e)" if "goes D s s2" for D s2 using that by (simp add: goes_def)
  have last: "succeeds (goes [] s3) (if b then switch_core_standard E st (log_run (Standard st) s3) else Inr s3)"
    if "goes D s s3" "down s3" for D s3 b
  proof -
    have g: "goes [] s3 (log_run (Standard st) s3)" by (rule goes_simple) simp
    have "succeeds (goes [] (log_run (Standard st) s3)) (switch_core_standard E st (log_run (Standard st) s3))"
      using ext [OF goes_trans [OF that(1) g]] by (intro std goes_down [OF g that(2)])
    then have "succeeds (goes [] s3) (switch_core_standard E st (log_run (Standard st) s3))"
      by (rule succeeds_mono) (auto dest: goes_trans [OF g])
    then show ?thesis by (simp add: goes_refl)
  qed
  have ch: "succeeds (\<lambda>(b, s'). goes [] s1 s') (if x then channel_handlers E st s1 else Inr (True, s1))"
    and co: "succeeds (\<lambda>(b, s'). goes [] s1 s') (if x then core_handlers E st s1 else Inr (True, s1))" if "down s1" for s1
    using handlers_goes [OF E that] by (simp_all add: goes_refl)
  have inner: "succeeds (goes ([] @ [] @ []) s1) (fbind (if x then channel_handlers E st s1 else Inr (True, s1)) (\<lambda>(ok1, s2).
      fbind (if x then core_handlers E st s2 else Inr (True, s2)) (\<lambda>(ok2, s3).
         if ok1 \<and> ok2 \<and> mid = se_state s3 then switch_core_standard E st (log_run (Standard st) s3) else Inr s3)))"
    if "goes D s s1" "down s1" for D s1
    by (rule goes_answer_bind [OF ch [OF that(2)] that(2)], rule goes_answer_bind [OF co])
      (assumption, assumption, rule last, rule goes_quiet [OF goes_quiet [OF that(1)]])
  have "succeeds (goes (driver_calls E st @ []) s) (state_macro E x st mid s)"
    unfolding state_macro_def driver_calls_def
    by (rule goes_answer_bind [OF driver_goes [OF E s] s]) (use inner in \<open>auto simp: goes_refl\<close>)
  then show ?thesis by simp
qed

lemma standard_reporting: "switch_core_standard E CS_REPORTING s = Inr s"
  by (simp add: switch_core_standard_def)

lemma api_hook_goes: "calm_env E \<Longrightarrow> down s \<Longrightarrow> succeeds (goes [] s) (api_hook E v s)"
  using goes_action by (auto simp: api_hook_def calm_env_def goes_refl Let_def split: option.splits prod.splits)

lemma goes_pre: "goes [] s s1 \<Longrightarrow> succeeds (goes D s1) m \<Longrightarrow> succeeds (goes D s) m"
  by (erule succeeds_mono) (use goes_trans [of "[]" s s1 D] in simp)

lemma hangup_state_goes:
  assumes E: "calm_env E" and s: "down s" and n: "\<forall>e. length (se_extensions s e) < env_rounds E" and h: "\<not> se_ssf_hangup s"
  shows "succeeds (\<lambda>s'. \<exists>s1. goes (driver_calls E CS_HANGUP) s s1 \<and> s' = s1\<lparr>se_ssf_hangup := True\<rparr>)
     (switch_core_session_hangup_state E True s)"
proof -
  let ?vars = "\<lambda>s1. set_callstate (set_variable ''hangup_cause_q850'' (Some (decimal (nat (switch_channel_cause_q850 (ch_hangup_cause (se_channel s))))))
    (set_variable ''hangup_cause'' (Some (switch_channel_cause2str (ch_hangup_cause (se_channel s)))) s1)) CCS_HANGUP"
  have vars: "goes [] s1 (?vars s1)" for s1
    by (rule goes_quiet [OF goes_quiet]) (rule goes_simple)+
  have std: "succeeds (goes [] s') (switch_core_standard E CS_HANGUP s')" if "down s'" "\<forall>e. length (se_extensions s' e) \<le> length (se_extensions s e)" for s'
  proof -
    have "\<forall>e. length (se_extensions s' e) < env_rounds E" using that(2) n by (meson order_le_less_trans)
    from standard_hangup_goes [OF E that(1) this] show ?thesis by (simp add: switch_core_standard_def)
  qed
  have macro: "succeeds (goes (driver_calls E CS_HANGUP) s4) (state_macro E True CS_HANGUP (se_state s) s4)" if "down s4" "goes [] s s4" for s4
  proof (rule macro_goes [OF E that(1)])
    fix s' assume "down s'" "\<forall>e. length (se_extensions s' e) \<le> length (se_extensions s4 e)"
    then show "succeeds (goes [] s') (switch_core_standard E CS_HANGUP s')"
      using goes_ext [OF that(2)] by (meson std order_trans)
  qed
  have c: "succeeds (goes [] s) (env_hangup_clean E s)" "down s1 \<Longrightarrow> succeeds (goes [] s1) (env_hangup_stats E s1)"
    "down s1 \<Longrightarrow> succeeds (goes [] s1) (env_device_hangup E s1)" for s1
    using E s goes_action unfolding calm_env_def by blast+
  have "succeeds (goes ([] @ driver_calls E CS_HANGUP @ [] @ [] @ []) s) (fbind (env_hangup_clean E s) (\<lambda>s1.
      fbind (state_macro E True CS_HANGUP (se_state s) (?vars s1)) (\<lambda>s5. fbind (env_hangup_stats E s5) (\<lambda>s6.
      fbind (api_hook E ''api_hangup_hook'' s6) (\<lambda>s7. env_device_hangup E s7)))))"
  proof (rule goes_bind [OF c(1) s])
    fix s1 assume g: "goes [] s s1" and d: "down s1"
    let ?s4 = "?vars s1"
    have d4: "down ?s4" and g4: "goes [] s ?s4" by (rule goes_down [OF vars d], rule goes_quiet [OF g vars])
    show "succeeds (goes (driver_calls E CS_HANGUP @ [] @ [] @ []) s1) (fbind (state_macro E True CS_HANGUP (se_state s) ?s4) (\<lambda>s5.
        fbind (env_hangup_stats E s5) (\<lambda>s6. fbind (api_hook E ''api_hangup_hook'' s6) (\<lambda>s7. env_device_hangup E s7))))"
      by (rule goes_pre [OF vars], rule goes_bind [OF macro [OF d4 g4] d4], rule goes_bind [OF c(2)], assumption, assumption,
        rule goes_bind [OF api_hook_goes [OF E]], assumption, assumption, rule c(3))
  qed
  then have "succeeds (\<lambda>s'. \<exists>s1. goes (driver_calls E CS_HANGUP) s s1 \<and> s' = s1\<lparr>se_ssf_hangup := True\<rparr>)
      (fbind (fbind (env_hangup_clean E s) (\<lambda>s1. fbind (state_macro E True CS_HANGUP (se_state s) (?vars s1)) (\<lambda>s5. fbind (env_hangup_stats E s5) (\<lambda>s6.
      fbind (api_hook E ''api_hangup_hook'' s6) (\<lambda>s7. env_device_hangup E s7))))) (\<lambda>s8. Inr (s8\<lparr>se_ssf_hangup := True\<rparr>)))"
    by (rule succeeds_bind) auto
  then show ?thesis using h by (simp add: switch_core_session_hangup_state_def Let_def fbind_assoc)
qed

text \<open>The same without what the session thread itself changes on the way down.\<close>

definition went :: "run_event list \<Rightarrow> session \<Rightarrow> session \<Rightarrow> bool" where
  "went D s s' \<longleftrightarrow> ch_hangup_cause (se_channel s') = ch_hangup_cause (se_channel s) \<and>
     length (hr_handlers (se_handlers s')) = length (hr_handlers (se_handlers s)) \<and>
     (\<forall>e. length (se_extensions s' e) \<le> length (se_extensions s e)) \<and>
     drivers (se_trace s') = drivers (se_trace s) @ D"

lemma goes_went: "goes D s s' \<Longrightarrow> went D s s'"
  by (simp add: goes_def went_def)

lemma went_trans: "went D s s1 \<Longrightarrow> went D' s1 s2 \<Longrightarrow> went (D @ D') s s2"
  by (auto simp: went_def intro: order_trans)

lemma went_quiet: "went D s s1 \<Longrightarrow> went [] s1 s2 \<Longrightarrow> went D s s2"
  using went_trans [of D s s1 "[]" s2] by simp

lemma set_state_down:
  assumes "CS_HANGUP \<le> se_state s" "se_state s < st" "st \<le> CS_DESTROY"
  shows "succeeds (\<lambda>s'. went [] s s' \<and> se_state s' = st \<and> ch_running_state (se_channel s') = ch_running_state (se_channel s) \<and>
     se_ssf_hangup s' = se_ssf_hangup s \<and> se_flag s' CF_REPORTING = se_flag s CF_REPORTING \<and>
     ch_state_flags (se_channel s') = ch_state_flags (se_channel s) \<and> se_trace s' = se_trace s) (set_state E s st)"
proof -
  have "state_change_ok (se_state s) st" "st \<noteq> CS_HANGUP" using assms by (cases "se_state s"; cases st; simp add: state_order)+
  then show ?thesis using assms
    by (auto simp: set_state_def switch_channel_perform_set_state_def Let_def emit_def se_state_def se_flag_def went_def
      switch_channel_test_flag_def)
qed

definition entered :: "switch_channel_state \<Rightarrow> session \<Rightarrow> session \<Rightarrow> bool" where
  "entered st s s' \<longleftrightarrow> went [] s s' \<and> se_state s' = se_state s \<and> ch_running_state (se_channel s') = st \<and>
     se_ssf_hangup s' = se_ssf_hangup s \<and> se_flag s' CF_REPORTING = se_flag s CF_REPORTING \<and>
     ch_state_flags (se_channel s') CF_REPORTING = 0"

lemma entered_goes: "entered st s s1 \<Longrightarrow> goes [] s1 s2 \<Longrightarrow> entered st s s2"
  using went_trans [of "[]" s s1 "[]" s2] goes_went [of "[]" s1 s2] by (simp add: entered_def goes_def)

lemma set_running_goes:
  assumes "ch_state_flags (se_channel s) CF_REPORTING = 0"
  shows "succeeds (entered st s) (set_running_state E s st)"
proof -
  let ?ch = "se_channel s"
  have ne: "CF_TAGGED \<noteq> CF_LEG_HOLDING" by (simp add: holding_flags)
  obtain c where c: "switch_channel_clear_flag 0 0 (pending_flags ?ch) CF_TAGGED = Inr c" using clear_flag_plain [OF ne] by blast
  have f: "ch_flags c = (ch_flags (pending_flags ?ch))(CF_TAGGED := 0)" "core_of c = core_of (pending_flags ?ch)"
    using clear_flag_frame [OF c] by auto
  obtain ch' where ch': "switch_channel_perform_set_running_state (env_thread_try E) (env_session_try E) ?ch st = Inr ch'"
    "core_of ch' = core_of (c\<lparr>ch_running_state := st\<rparr>)" "ch_flags ch' = ch_flags c"
    using c by (cases "st \<le> CS_DESTROY") (simp_all add: switch_channel_perform_set_running_state_def ch_frame)
  have "ch_flags ch' CF_REPORTING = ch_flags ?ch CF_REPORTING"
    using ch'(3) f(1) assms by (simp add: pending_flags_def CF_REPORTING_def holding_flags)
  moreover have "ch_state ch' = ch_state ?ch" "ch_running_state ch' = st" "ch_hangup_cause ch' = ch_hangup_cause ?ch"
    "ch_state_flags ch' CF_REPORTING = 0"
    using ch'(2) f(2) assms by (auto simp: core_of_def pending_flags_def)
  ultimately show ?thesis
    by (simp add: set_running_state_def ch'(1) entered_def went_def se_state_def se_flag_def switch_channel_test_flag_def)
qed

lemma hooks_goes: "(\<forall>f \<in> set fs. calm_answer f) \<Longrightarrow> down s \<Longrightarrow> succeeds (goes [] s) (state_hooks fs s)"
proof (induction fs arbitrary: s)
  case (Cons f fs)
  have "succeeds (goes ([] @ []) s) (fbind (f s) (\<lambda>(status, s1). if status \<noteq> SWITCH_STATUS_SUCCESS then Inr s1 else state_hooks fs s1))"
    by (rule goes_answer_bind [OF goes_answer]) (use Cons in \<open>auto simp: goes_refl\<close>)
  then show ?case by simp
qed (simp add: goes_refl)

lemma enter_goes:
  assumes E: "calm_env E" and s: "down s" and f: "ch_state_flags (se_channel s) CF_REPORTING = 0"
  shows "succeeds (entered st s) (enter_state E st s)"
proof -
  have cl: "succeeds (goes [] s1) (clear_flag s1 CF_TRANSFER)" "succeeds (goes [] s1) (clear_flag s1 CF_REDIRECT)" for s1
    by (rule flag_goes; simp add: CF_TRANSFER_def CF_REDIRECT_def CF_REPORTING_def holding_flags)+
  have m: "succeeds (goes [] s1) (env_messages E s1)" if "down s1" for s1 using E that goes_action unfolding calm_env_def by blast
  have hk: "\<forall>f \<in> set (env_hooks E). calm_answer f" and sr: "\<And>f. env_state_run E = Some f \<Longrightarrow> calm_answer f"
    using E unfolding calm_env_def by blast+
  have run: "succeeds (goes [] s1) (case env_state_run E of None \<Rightarrow> state_hooks (env_hooks E) s1
       | Some f \<Rightarrow> fbind (f s1) (\<lambda>(rstatus, s5).
           if rstatus = SWITCH_STATUS_SUCCESS then state_hooks (env_hooks E) s5 else Inr s5))" if d: "down s1" for s1
  proof (cases "env_state_run E")
    case None
    then show ?thesis using hooks_goes [OF hk d] by simp
  next
    case (Some g)
    have "succeeds (goes ([] @ []) s1) (fbind (g s1) (\<lambda>(rstatus, s5).
           if rstatus = SWITCH_STATUS_SUCCESS then state_hooks (env_hooks E) s5 else Inr s5))"
      by (rule goes_answer_bind [OF goes_answer [OF sr [OF Some] d] d]) (auto intro: hooks_goes [OF hk] goes_refl)
    then show ?thesis using Some by simp
  qed
  have rest: "succeeds (goes ([] @ [] @ [] @ []) s1) (fbind (clear_flag s1 CF_TRANSFER) (\<lambda>s2. fbind (clear_flag s2 CF_REDIRECT) (\<lambda>s3.
      fbind (env_messages E s3) (\<lambda>s4. case env_state_run E of None \<Rightarrow> state_hooks (env_hooks E) s4
       | Some f \<Rightarrow> fbind (f s4) (\<lambda>(rstatus, s5).
           if rstatus = SWITCH_STATUS_SUCCESS then state_hooks (env_hooks E) s5 else Inr s5)))))" if d: "down s1" for s1
    by (rule goes_bind [OF cl(1) d], rule goes_bind [OF cl(2)], assumption, rule goes_bind [OF m], assumption, assumption, rule run)
  show ?thesis unfolding enter_state_def
    using set_running_goes [OF f]
  proof (rule succeeds_bind)
    fix s1 assume s1: "entered st s s1"
    then have "down s1" using s by (simp add: entered_def down_def went_def)
    from rest [OF this] show "succeeds (entered st s) (fbind (clear_flag s1 CF_TRANSFER) (\<lambda>s2. fbind (clear_flag s2 CF_REDIRECT) (\<lambda>s3.
      fbind (env_messages E s3) (\<lambda>s4. case env_state_run E of None \<Rightarrow> state_hooks (env_hooks E) s4
       | Some f \<Rightarrow> fbind (f s4) (\<lambda>(rstatus, s5).
           if rstatus = SWITCH_STATUS_SUCCESS then state_hooks (env_hooks E) s5 else Inr s5)))))"
      by (rule succeeds_mono) (use s1 entered_goes in simp)
  qed
qed


lemma reporting_goes:
  assumes E: "calm_env E" and s: "down s" and r: "\<not> se_flag s CF_REPORTING"
  shows "succeeds (\<lambda>s'. went (driver_calls E CS_REPORTING) s s' \<and> se_state s' = se_state s \<and>
     (\<exists>tr. se_trace s' = tr @ [Fire_hangup_complete (switch_channel_cause2str (ch_hangup_cause (se_channel s)))]))
     (switch_core_session_reporting_state E s)"
proof -
  let ?e = "Fire_hangup_complete (switch_channel_cause2str (ch_hangup_cause (se_channel s)))"
  have ne: "CF_REPORTING \<noteq> CF_LEG_HOLDING" by (simp add: CF_REPORTING_def holding_flags)
  obtain ch where ch: "switch_channel_set_flag_value 0 0 None (se_channel s) CF_REPORTING 1 = Inr ch" using set_flag_plain [OF ne] by blast
  define s1 where "s1 = s\<lparr>se_channel := ch\<rparr>"
  have "core_of ch = core_of (se_channel s)" using set_flag_frame [OF ch] by blast
  then have s1: "went [] s s1" "se_state s1 = se_state s" "down s1" "se_trace s1 = se_trace s"
    using s by (simp_all add: s1_def went_def se_state_def core_of_def down_def)
  obtain b where b: "skipped_cause E s (ch_hangup_cause (se_channel s)) = Inr b" using E unfolding calm_env_def by blast
  let ?x = "wants_process E s \<and> \<not> b \<and> \<not> se_flag s1 CF_NO_CDR"
  have m: "succeeds (goes (driver_calls E CS_REPORTING) s1) (state_macro E ?x CS_REPORTING (se_state s) s1)"
    by (rule macro_goes [OF E s1(3)]) (simp add: standard_reporting goes_refl)
  have "succeeds (goes (driver_calls E CS_REPORTING @ []) s1) (fbind (state_macro E ?x CS_REPORTING (se_state s) s1) (api_hook E ''api_reporting_hook''))"
    by (rule goes_bind [OF m s1(3) api_hook_goes [OF E]])
  then have "succeeds (\<lambda>s'. went (driver_calls E CS_REPORTING) s s' \<and> se_state s' = se_state s \<and> (\<exists>tr. se_trace s' = tr @ [?e]))
      (fbind (fbind (state_macro E ?x CS_REPORTING (se_state s) s1) (api_hook E ''api_reporting_hook'')) (\<lambda>s3. Inr (log_run ?e s3)))"
  proof (rule succeeds_bind)
    fix s3 assume g: "goes (driver_calls E CS_REPORTING @ []) s1 s3"
    have "goes [] s3 (log_run ?e s3)" by (rule goes_simple) simp
    with g have g': "goes (driver_calls E CS_REPORTING) s1 (log_run ?e s3)" by (auto intro: goes_quiet)
    then have "went (driver_calls E CS_REPORTING) s (log_run ?e s3)" using went_trans [OF s1(1) goes_went [OF g']] by simp
    moreover have "se_state (log_run ?e s3) = se_state s" using g' s1(2) by (simp add: goes_def)
    ultimately show "succeeds (\<lambda>s'. went (driver_calls E CS_REPORTING) s s' \<and> se_state s' = se_state s \<and> (\<exists>tr. se_trace s' = tr @ [?e]))
        (Inr (log_run ?e s3))" by (simp add: log_run_def)
  qed
  then show ?thesis using r
    by (simp add: switch_core_session_reporting_state_def Let_def set_flag_def ch s1_def [symmetric] b fbind_assoc)
qed

lemma wait_goes: "calm_env E \<Longrightarrow> down s \<Longrightarrow> succeeds (goes [] s) (if se_flag s CF_BLOCK_STATE then env_wait_flag E s else Inr s)"
  using goes_action [of "env_wait_flag E" s] by (simp add: calm_env_def goes_refl)

lemma hangup_dispatch:
  assumes E: "calm_env E" and s: "down s" and st: "se_state s = CS_HANGUP" and run: "ch_running_state (se_channel s) = CS_HANGUP"
    and n: "\<forall>e. length (se_extensions s e) < env_rounds E" and h: "\<not> se_ssf_hangup s"
    and r: "\<not> se_flag s CF_REPORTING" "ch_state_flags (se_channel s) CF_REPORTING = 0"
  shows "succeeds (\<lambda>(fin, s'). \<not> fin \<and> went (driver_calls E CS_HANGUP) s s' \<and> se_state s' = CS_REPORTING \<and> \<not> settled s' \<and>
     \<not> se_flag s' CF_REPORTING \<and> ch_state_flags (se_channel s') CF_REPORTING = 0) (dispatch_state E CS_HANGUP s)"
proof -
  have step: "succeeds (\<lambda>s'. went (driver_calls E CS_HANGUP) s s' \<and> se_state s' = CS_REPORTING \<and> \<not> settled s' \<and>
     \<not> se_flag s' CF_REPORTING \<and> ch_state_flags (se_channel s') CF_REPORTING = 0) (set_state E s2 CS_REPORTING)"
    if s2: "\<exists>s1. goes (driver_calls E CS_HANGUP) s s1 \<and> s2 = s1\<lparr>se_ssf_hangup := True\<rparr>" for s2
  proof -
    obtain s1 where s1: "goes (driver_calls E CS_HANGUP) s s1" "s2 = s1\<lparr>se_ssf_hangup := True\<rparr>" using s2 by blast
    have w: "went (driver_calls E CS_HANGUP) s s2" using goes_went [OF s1(1)] by (simp add: s1(2) went_def)
    have f: "se_state s2 = CS_HANGUP" "ch_running_state (se_channel s2) = CS_HANGUP" "\<not> se_flag s2 CF_REPORTING"
      "ch_state_flags (se_channel s2) CF_REPORTING = 0"
      using s1 st run r by (auto simp: goes_def se_state_def se_flag_def)
    show ?thesis
      by (rule succeeds_mono [OF set_state_down]) (use f went_quiet [OF w] in \<open>auto simp: state_order settled_def\<close>)
  qed
  have "succeeds (\<lambda>(fin, s'). \<not> fin \<and> went (driver_calls E CS_HANGUP) s s' \<and> se_state s' = CS_REPORTING \<and> \<not> settled s' \<and>
     \<not> se_flag s' CF_REPORTING \<and> ch_state_flags (se_channel s') CF_REPORTING = 0)
     (fbind (switch_core_session_hangup_state E True s) (\<lambda>s1. fbind (set_state E s1 CS_REPORTING) (\<lambda>s2. Inr (False, s2))))"
    by (rule succeeds_bind [OF hangup_state_goes [OF E s n h]], rule succeeds_bind [OF step]) auto
  then show ?thesis by (simp add: dispatch_state_def)
qed


lemma reporting_dispatch:
  assumes E: "calm_env E" and s: "down s" and st: "se_state s = CS_REPORTING" and r: "\<not> se_flag s CF_REPORTING"
  shows "succeeds (\<lambda>(fin, s'). fin \<and> went (driver_calls E CS_REPORTING) s s' \<and> se_state s' = CS_DESTROY \<and>
     (\<exists>tr. se_trace s' = tr @ [Fire_hangup_complete (switch_channel_cause2str (ch_hangup_cause (se_channel s)))]))
     (dispatch_state E CS_REPORTING s)"
proof -
  let ?last = "\<lambda>s'. \<exists>tr. se_trace s' = tr @ [Fire_hangup_complete (switch_channel_cause2str (ch_hangup_cause (se_channel s)))]"
  have step: "succeeds (\<lambda>s'. went (driver_calls E CS_REPORTING) s s' \<and> se_state s' = CS_DESTROY \<and> ?last s') (set_state E s1 CS_DESTROY)"
    if "went (driver_calls E CS_REPORTING) s s1 \<and> se_state s1 = se_state s \<and> ?last s1" for s1
    by (rule succeeds_mono [OF set_state_down]) (use that st went_quiet in \<open>auto simp: state_order\<close>)
  have "succeeds (\<lambda>(fin, s'). fin \<and> went (driver_calls E CS_REPORTING) s s' \<and> se_state s' = CS_DESTROY \<and> ?last s')
     (fbind (switch_core_session_reporting_state E s) (\<lambda>s1. fbind (set_state E s1 CS_DESTROY) (\<lambda>s2. Inr (True, s2))))"
    by (rule succeeds_bind [OF reporting_goes [OF E s r]], rule succeeds_bind [OF step]) auto
  then show ?thesis by (simp add: dispatch_state_def)
qed

text \<open>A round of a channel on its way down enters its state, whatever the running state.\<close>

lemma round_down:
  assumes E: "calm_env E" and s: "down s" and ne: "se_state s \<noteq> CS_DESTROY"
    and f: "ch_state_flags (se_channel s) CF_REPORTING = 0"
    and nx: "\<And>s2. entered (se_state s) s s2 \<Longrightarrow> down s2 \<Longrightarrow>
       succeeds (\<lambda>(fin, s'). Q fin s2 s' \<and> (fin \<or> \<not> settled s')) (dispatch_state E (se_state s) s2)"
  shows "succeeds (\<lambda>(c, s'). \<exists>s2 s3. entered (se_state s) s s2 \<and> Q (c = None) s2 s3 \<and>
       (if c = None then s' = s3 else s' = check_presence s3)) (run_round E n s)"
proof -
  let ?st = "se_state s"
  let ?P = "\<lambda>(fin, s'). \<exists>s2 s3. entered ?st s s2 \<and> Q fin s2 s3 \<and> (fin \<or> \<not> settled s3) \<and> (if fin then s' = s3 else s' = check_presence s3)"
  have go: "succeeds ?P (fbind (enter_state E ?st s1) (\<lambda>s2. fbind (dispatch_state E ?st s2) (\<lambda>(finished, s3).
      Inr (finished, if finished then s3 else check_presence s3))))" if g: "goes [] s s1" for s1
  proof -
    have d: "down s1" "ch_state_flags (se_channel s1) CF_REPORTING = 0" using goes_down [OF g s] g f by (simp_all add: goes_def)
    show ?thesis using enter_goes [OF E d]
    proof (rule succeeds_bind)
      fix s2 assume e: "entered ?st s1 s2"
      have e': "entered ?st s s2"
        using e g went_trans [OF goes_went [OF g], of "[]" s2] by (simp add: entered_def goes_def)
      have "down s2" using e' s by (simp add: entered_def down_def went_def)
      from nx [OF e' this] show "succeeds ?P (fbind (dispatch_state E ?st s2) (\<lambda>(finished, s3).
          Inr (finished, if finished then s3 else check_presence s3)))"
      proof (rule succeeds_bind)
        fix x assume "case x of (fin, s') \<Rightarrow> Q fin s2 s' \<and> (fin \<or> \<not> settled s')"
        with e' show "succeeds ?P (case x of (finished, s3) \<Rightarrow> Inr (finished, if finished then s3 else check_presence s3))"
          by (cases x; cases "fst x") (simp, blast)+
      qed
    qed
  qed
  have unsettled: "\<not> settled s3 \<Longrightarrow> \<not> settled (check_presence s3)" for s3
    using goes_simple(3) [of s3] by (simp add: settled_def goes_def)
  show ?thesis
    unfolding run_round_def if_not_P [OF ne]
  proof (rule succeeds_bind [OF wait_goes [OF E s]])
    fix s1 assume g: "goes [] s s1"
    then have st: "se_state s1 = ?st" and hg: "CS_HANGUP \<le> ?st" using s by (simp_all add: goes_def down_def)
    have "succeeds (\<lambda>(c, s'). \<exists>s2 s3. entered ?st s s2 \<and> Q (c = None) s2 s3 \<and> (if c = None then s' = s3 else s' = check_presence s3))
      (fbind (fbind (enter_state E ?st s1) (\<lambda>s2. fbind (dispatch_state E ?st s2) (\<lambda>(finished, s3).
      Inr (finished, if finished then s3 else check_presence s3)))) (\<lambda>(finished, s4).
          if finished then Inr (None, s4) else fbind (await E n s4) (\<lambda>(n, s5). Inr (Some n, s5))))"
    proof (rule succeeds_bind [OF go [OF g]])
      fix x assume "?P x"
      then obtain fin s' s2 s3 where x: "x = (fin, s')" "entered ?st s s2" "Q fin s2 s3" "fin \<or> \<not> settled s3"
        "if fin then s' = s3 else s' = check_presence s3" by (cases x) blast
      then show "succeeds (\<lambda>(c, s'). \<exists>s2 s3. entered ?st s s2 \<and> Q (c = None) s2 s3 \<and> (if c = None then s' = s3 else s' = check_presence s3))
        (case x of (finished, s4) \<Rightarrow> if finished then Inr (None, s4) else fbind (await E n s4) (\<lambda>(n, s5). Inr (Some n, s5)))"
        by (cases fin) (simp add: await_def unsettled, blast)+
    qed
    then show "succeeds (\<lambda>(c, s'). \<exists>s2 s3. entered ?st s s2 \<and> Q (c = None) s2 s3 \<and> (if c = None then s' = s3 else s' = check_presence s3))
      (let state = se_state s1 in if state = CS_DESTROY then Inr (None, s1)
        else fbind (if state \<noteq> ch_running_state (se_channel s1) \<or> CS_HANGUP \<le> state
                    then fbind (enter_state E state s1) (\<lambda>s2. fbind (dispatch_state E state s2) (\<lambda>(finished, s3).
                        Inr (finished, if finished then s3 else check_presence s3)))
                    else Inr (False, s1)) (\<lambda>(finished, s4).
          if finished then Inr (None, s4) else fbind (await E n s4) (\<lambda>(n, s5). Inr (Some n, s5))))"
      using st hg ne by (simp add: Let_def)
  qed
qed

lemma hangup_round:
  assumes E: "calm_env E" and s: "down s" and st: "se_state s = CS_HANGUP"
    and n: "\<forall>e. length (se_extensions s e) < env_rounds E" and h: "\<not> se_ssf_hangup s"
    and r: "\<not> se_flag s CF_REPORTING" "ch_state_flags (se_channel s) CF_REPORTING = 0"
  shows "succeeds (\<lambda>(c, s'). c \<noteq> None \<and> went (driver_calls E CS_HANGUP) s s' \<and> se_state s' = CS_REPORTING \<and>
     \<not> se_flag s' CF_REPORTING \<and> ch_state_flags (se_channel s') CF_REPORTING = 0) (run_round E k s)"
proof -
  let ?Q = "\<lambda>fin s2 s'. \<not> fin \<and> went (driver_calls E CS_HANGUP) s2 s' \<and> se_state s' = CS_REPORTING \<and>
     \<not> se_flag s' CF_REPORTING \<and> ch_state_flags (se_channel s') CF_REPORTING = 0"
  have "succeeds (\<lambda>(fin, s'). ?Q fin s2 s' \<and> (fin \<or> \<not> settled s')) (dispatch_state E (se_state s) s2)"
    if e: "entered (se_state s) s s2" and d: "down s2" for s2
  proof -
    have "\<forall>x. length (se_extensions s2 x) < env_rounds E"
      using e n unfolding entered_def went_def by (meson order_le_less_trans)
    with e st h r show ?thesis
      by (intro succeeds_mono [OF hangup_dispatch [OF E d], folded st]) (auto simp: entered_def)
  qed
  from round_down [OF E s _ r(2) this] st have
    "succeeds (\<lambda>(c, s'). \<exists>s2 s3. entered CS_HANGUP s s2 \<and> ?Q (c = None) s2 s3 \<and> (if c = None then s' = s3 else s' = check_presence s3))
      (run_round E k s)" by simp
  then show ?thesis
  proof (rule succeeds_mono)
    fix x assume x: "case x of (c, s') \<Rightarrow> \<exists>s2 s3. entered CS_HANGUP s s2 \<and> ?Q (c = None) s2 s3 \<and> (if c = None then s' = s3 else s' = check_presence s3)"
    then obtain c s' s2 s3 where x1: "x = (c, s')" "entered CS_HANGUP s s2" "?Q (c = None) s2 s3" "s' = check_presence s3"
      by (cases x) auto
    have g: "goes [] s3 s'" using x1(4) goes_simple(3) by simp
    have "went (driver_calls E CS_HANGUP) s s3" using x1(2,3) went_trans [of "[]" s s2 "driver_calls E CS_HANGUP" s3] by (simp add: entered_def)
    then have "went (driver_calls E CS_HANGUP) s s'" by (rule went_quiet [OF _ goes_went [OF g]])
    then show "case x of (c, s') \<Rightarrow> c \<noteq> None \<and> went (driver_calls E CS_HANGUP) s s' \<and> se_state s' = CS_REPORTING \<and>
     \<not> se_flag s' CF_REPORTING \<and> ch_state_flags (se_channel s') CF_REPORTING = 0"
      using x1 g by (simp add: goes_def)
  qed
qed

lemma reporting_round:
  assumes E: "calm_env E" and s: "down s" and st: "se_state s = CS_REPORTING"
    and r: "\<not> se_flag s CF_REPORTING" "ch_state_flags (se_channel s) CF_REPORTING = 0"
  shows "succeeds (\<lambda>(c, s'). c = None \<and> went (driver_calls E CS_REPORTING) s s' \<and> se_state s' = CS_DESTROY \<and>
     (\<exists>tr. se_trace s' = tr @ [Fire_hangup_complete (switch_channel_cause2str (ch_hangup_cause (se_channel s)))])) (run_round E k s)"
proof -
  let ?last = "\<lambda>s'. \<exists>tr. se_trace s' = tr @ [Fire_hangup_complete (switch_channel_cause2str (ch_hangup_cause (se_channel s)))]"
  let ?Q = "\<lambda>fin s2 s'. fin \<and> went (driver_calls E CS_REPORTING) s2 s' \<and> se_state s' = CS_DESTROY \<and> ?last s'"
  have "succeeds (\<lambda>(fin, s'). ?Q fin s2 s' \<and> (fin \<or> \<not> settled s')) (dispatch_state E (se_state s) s2)"
    if e: "entered (se_state s) s s2" and d: "down s2" for s2
  proof -
    have "se_state s2 = CS_REPORTING" "\<not> se_flag s2 CF_REPORTING" "ch_hangup_cause (se_channel s2) = ch_hangup_cause (se_channel s)"
      using e st r by (simp_all add: entered_def went_def)
    with reporting_dispatch [OF E d] st show ?thesis by (auto elim!: succeeds_mono)
  qed
  from round_down [OF E s _ r(2) this] st have
    "succeeds (\<lambda>(c, s'). \<exists>s2 s3. entered CS_REPORTING s s2 \<and> ?Q (c = None) s2 s3 \<and> (if c = None then s' = s3 else s' = check_presence s3))
      (run_round E k s)" by simp
  then show ?thesis
    by (rule succeeds_mono) (auto simp: entered_def dest: went_trans)
qed

text \<open>The two rounds of a tear-down, from any state of the counter.\<close>

lemma rounds_tear_down:
  assumes E: "\<forall>k. calm_env (env k)" and s: "down s" "se_state s = CS_HANGUP" "\<not> se_ssf_hangup s"
    "\<not> se_flag s CF_REPORTING" "ch_state_flags (se_channel s) CF_REPORTING = 0"
    "\<forall>e. length (se_extensions s e) < env_rounds (env 0)"
  shows "succeeds (\<lambda>s'. se_state s' = CS_DESTROY \<and> ch_hangup_cause (se_channel s') = ch_hangup_cause (se_channel s) \<and>
     drivers (se_trace s') = drivers (se_trace s) @ driver_calls (env 0) CS_HANGUP @ driver_calls (env 1) CS_REPORTING \<and>
     last (se_trace s') = Fire_hangup_complete (switch_channel_cause2str (ch_hangup_cause (se_channel s))))
     (run_rounds env (Suc (Suc r)) n s)"
proof -
  obtain c s1 where 1: "run_round (env 0) n s = Inr (Some c, s1)" "went (driver_calls (env 0) CS_HANGUP) s s1"
    "se_state s1 = CS_REPORTING" "\<not> se_flag s1 CF_REPORTING" "ch_state_flags (se_channel s1) CF_REPORTING = 0"
    using hangup_round [OF spec [OF E] s(1,2,6,3-5), of n] by (auto simp: succeeds_def)
  have "down s1" using 1(2,3) s(1) by (simp add: down_def went_def state_order)
  from reporting_round [OF spec [OF E, of 1] this 1(3-5), of c] obtain s2 tr where
    2: "run_round (env 1) c s1 = Inr (None, s2)" "went (driver_calls (env 1) CS_REPORTING) s1 s2" "se_state s2 = CS_DESTROY"
    "se_trace s2 = tr @ [Fire_hangup_complete (switch_channel_cause2str (ch_hangup_cause (se_channel s1)))]"
    by (auto simp: succeeds_def)
  have w: "went (driver_calls (env 0) CS_HANGUP @ driver_calls (env 1) CS_REPORTING) s s2" by (rule went_trans [OF 1(2) 2(2)])
  have c: "ch_hangup_cause (se_channel s1) = ch_hangup_cause (se_channel s)" using 1(2) by (simp add: went_def)
  have "run_rounds env (Suc (Suc r)) n s = Inr s2" using 1(1) 2(1) by simp
  then show ?thesis using w 2(3,4) c by (simp add: went_def)
qed

text \<open>C5: A hung-up channel is torn down by two rounds of the loop of its session: whatever the modules
  do in their handlers, the driver's hang-up handler runs first and exactly once, its reporting
  handler after it and exactly once, the channel ends in \<open>CS_DESTROY\<close> with the cause it was hung up
  with, and the last event fired is the hang-up complete event with that cause.
\<close>

theorem session_run_tears_down:
  assumes "\<forall>k. calm_env (env k)" "down s" "se_state s = CS_HANGUP" "\<not> se_ssf_hangup s"
    and "\<not> se_flag s CF_REPORTING" "ch_state_flags (se_channel s) CF_REPORTING = 0"
    and "\<forall>e. length (se_extensions s e) < env_rounds (env 0)" "2 \<le> rounds"
  shows "\<exists>s'. switch_core_session_run env rounds s = Inr s' \<and> se_state s' = CS_DESTROY \<and> \<not> se_thread_running s' \<and>
     ch_hangup_cause (se_channel s') = ch_hangup_cause (se_channel s) \<and>
     drivers (se_trace s') = drivers (se_trace s) @ driver_calls (env 0) CS_HANGUP @ driver_calls (env 1) CS_REPORTING \<and>
     last (se_trace s') = Fire_hangup_complete (switch_channel_cause2str (ch_hangup_cause (se_channel s)))"
proof -
  obtain r where r: "rounds = Suc (Suc r)" using assms(8) by (metis Suc_le_D numeral_2_eq_2 Suc_le_mono)
  have "succeeds (\<lambda>s'. se_state s' = CS_DESTROY \<and> ch_hangup_cause (se_channel s') = ch_hangup_cause (se_channel s) \<and>
     drivers (se_trace s') = drivers (se_trace s) @ driver_calls (env 0) CS_HANGUP @ driver_calls (env 1) CS_REPORTING \<and>
     last (se_trace s') = Fire_hangup_complete (switch_channel_cause2str (ch_hangup_cause (se_channel s))))
     (run_rounds env rounds 500 (s\<lparr>se_thread_running := True\<rparr>))"
    using rounds_tear_down [OF assms(1), of "s\<lparr>se_thread_running := True\<rparr>" r 500] assms(2-7)
    by (simp add: r down_def se_state_def se_flag_def del: run_rounds.simps)
  then show ?thesis by (auto simp: switch_core_session_run_def succeeds_def se_state_def)
qed

section \<open>A session of a quiet endpoint\<close>

text \<open>An environment in which every call returns at once and the endpoint has handlers for the states \<open>sts\<close>.\<close>

definition quiet_run :: "switch_channel_state set \<Rightarrow> run_env" where
  "quiet_run sts = \<lparr>
     env_table = (\<lambda>h st. if h = 0 \<and> st \<in> sts then Some (\<lambda>s. Inr (SWITCH_STATUS_SUCCESS, s)) else None),
     env_sticky = (\<lambda>_. False), env_driver = 0, env_core = empty_registry, env_thread_try = True, env_session_try = (\<lambda>_. True),
     env_hangup = quiet_env, env_in_thread = True, env_codecs = True, env_early_hangup = False, env_variable = (\<lambda>_ _. None),
     env_uuid = ''u'', env_expand = (\<lambda>_ x. x), env_dialplan = (\<lambda>_. None), env_application = (\<lambda>_ s. Inr (SWITCH_STATUS_SUCCESS, s)),
     env_blind_ack = (\<lambda>s. Inr (SWITCH_STATUS_FALSE, s)), env_media = Inr, env_flip_cid = Inr, env_partner_uuid = (\<lambda>_. None),
     env_locate = (\<lambda>_ _ s. Inr (False, s)), env_wait_partner = (\<lambda>_ s. Inr (False, s)), env_signal_bridge = (\<lambda>_. Inr), env_uuid_bridge = (\<lambda>_. Inr), env_park = Inr,
     env_untrack = Inr, env_blind_response = (\<lambda>_ s. Inr (False, s)), env_hangup_clean = Inr, env_hangup_stats = Inr,
     env_device_hangup = Inr, env_device_clear = Inr, env_api_hook = (\<lambda>_ _ _. Inr), env_originator = False, env_originatee = False, env_wait_flag = Inr,
     env_messages = Inr, env_state_run = None, env_hooks = [], env_events = (\<lambda>_. Inr), env_sleep = Inr, env_rounds = 10\<rparr>"

definition quiet_session :: "switch_channel \<Rightarrow> session" where
  "quiet_session ch = \<lparr>se_channel = ch, se_handlers = empty_registry,
     se_caller_profile = Some \<lparr>cp_dialplan = Some ''a,b:x'', cp_caller_extension = Some 7\<rparr>, se_queued_extension = None,
     se_extensions = (\<lambda>_. [\<lparr>application_name = ''answer'', application_data = None\<rparr>,
        \<lparr>application_name = ''playback'', application_data = Some ''hello''\<rparr>]),
     se_ssf_hangup = False, se_thread_running = False, se_trace = []\<rparr>"

lemma quiet_calm: "calm_env (quiet_run sts)"
  by (auto simp: calm_env_def quiet_run_def calm_answer_def calm_action_def goes_refl empty_registry_def skipped_cause_def)

theorem session_run_tears_down_witness:
  "\<exists>s'. switch_core_session_run (\<lambda>_. quiet_run {CS_HANGUP, CS_REPORTING}) 2
       (quiet_session (idle_channel\<lparr>ch_state := CS_HANGUP, ch_hangup_cause := 17\<rparr>)) = Inr s' \<and> se_state s' = CS_DESTROY \<and>
     drivers (se_trace s') = [Driver CS_HANGUP, Driver CS_REPORTING] \<and> last (se_trace s') = Fire_hangup_complete ''USER_BUSY''"
proof -
  let ?s = "quiet_session (idle_channel\<lparr>ch_state := CS_HANGUP, ch_hangup_cause := 17\<rparr>)"
  have "down ?s" "se_state ?s = CS_HANGUP" "\<not> se_flag ?s CF_REPORTING" "\<not> se_ssf_hangup ?s" "ch_state_flags (se_channel ?s) CF_REPORTING = 0"
    "\<forall>e. length (se_extensions ?s e) < env_rounds (quiet_run {CS_HANGUP, CS_REPORTING})" "ch_hangup_cause (se_channel ?s) = 17"
    "se_trace ?s = []" "driver_calls (quiet_run {CS_HANGUP, CS_REPORTING}) CS_HANGUP = [Driver CS_HANGUP]"
    "driver_calls (quiet_run {CS_HANGUP, CS_REPORTING}) CS_REPORTING = [Driver CS_REPORTING]"
    by (simp_all add: quiet_session_def idle_channel_def down_def se_state_def se_flag_def switch_channel_test_flag_def
      empty_registry_def CF_REPORTING_def CF_ANSWERED_def quiet_run_def driver_calls_def)
  moreover have "switch_channel_cause2str 17 = ''USER_BUSY''" by code_simp
  ultimately show ?thesis
    using session_run_tears_down [of "\<lambda>_. quiet_run {CS_HANGUP, CS_REPORTING}" ?s 2] quiet_calm by (auto simp: drivers_def)
qed

end
