(* ===== verification/Session_Calls.thy ===== *)
theory Session_Calls
  imports Session_Life
begin

text \<open>
  What becomes of a call that is alive: the applications of its extension run in order, its routing
  ends in the first extension a dialplan finds, and a session nobody takes up is hung up and torn down.
\<close>

section \<open>Work that leaves the call alone\<close>

definition executed :: "run_event list \<Rightarrow> application list" where
  "executed tr = List.map_filter (\<lambda>e. case e of Execute a \<Rightarrow> Some a | _ \<Rightarrow> None) tr"

lemma executed_append [simp]: "executed (xs @ ys) = executed xs @ executed ys"
  by (induction xs) (simp_all add: executed_def List.map_filter_simps split: option.splits)

lemma executed_simps [simp]:
  "executed [] = []" "executed [Execute a] = [a]" "executed [Standard st] = []" "executed [Driver st] = []"
  by (simp_all add: executed_def List.map_filter_simps)

definition life_flags :: "nat list" where
  "life_flags = [CF_RESET, CF_LEG_HOLDING, CF_TRANSFER, CF_NOT_READY, CF_CONFIRM_BLIND_TRANSFER, CF_REPORTING, CF_BLOCK_STATE]"

text \<open>
  \<open>kept s s'\<close>: the work from \<open>s\<close> to \<open>s'\<close> did not transfer, hang up, hold or re-route the call.
\<close>

definition kept :: "session \<Rightarrow> session \<Rightarrow> bool" where
  "kept s s' \<longleftrightarrow> core_of (se_channel s') = core_of (se_channel s) \<and>
     (\<forall>f \<in> set life_flags. ch_flags (se_channel s') f = ch_flags (se_channel s) f) \<and>
     se_extensions s' = se_extensions s \<and> se_caller_profile s' = se_caller_profile s \<and> se_ssf_hangup s' = se_ssf_hangup s \<and>
     length (hr_handlers (se_handlers s')) = length (hr_handlers (se_handlers s)) \<and>
     executed (se_trace s') = executed (se_trace s) \<and> drivers (se_trace s') = drivers (se_trace s)"

lemmas life_flag_defs = CF_RESET_def CF_LEG_HOLDING_def CF_TRANSFER_def CF_NOT_READY_def CF_CONFIRM_BLIND_TRANSFER_def
  CF_REPORTING_def CF_BLOCK_STATE_def

lemma kept_refl: "kept s s"
  by (simp add: kept_def)

lemma kept_trans: "kept s s1 \<Longrightarrow> kept s1 s2 \<Longrightarrow> kept s s2"
  by (simp add: kept_def)

lemma kept_state:
  assumes "kept s s'"
  shows "se_state s' = se_state s" "ready E s' = ready E s" "switch_channel_get_caller_extension s' = switch_channel_get_caller_extension s"
    "f \<in> set life_flags \<Longrightarrow> se_flag s' f = se_flag s f"
    "settled s' = settled s" "se_extensions s' = se_extensions s"
proof -
  have c: "ch_state (se_channel s') = ch_state (se_channel s)" "ch_running_state (se_channel s') = ch_running_state (se_channel s)"
    "ch_hangup_cause (se_channel s') = ch_hangup_cause (se_channel s)"
    using assms by (simp_all add: kept_def core_of_def)
  show "se_state s' = se_state s" "settled s' = settled s" using c by (simp_all add: se_state_def settled_def)
  show "switch_channel_get_caller_extension s' = switch_channel_get_caller_extension s" "se_extensions s' = se_extensions s"
    "f \<in> set life_flags \<Longrightarrow> se_flag s' f = se_flag s f"
    using assms by (simp_all add: kept_def switch_channel_get_caller_extension_def se_flag_def switch_channel_test_flag_def)
  have "ch_flags (se_channel s') CF_TRANSFER = ch_flags (se_channel s) CF_TRANSFER"
    "ch_flags (se_channel s') CF_NOT_READY = ch_flags (se_channel s) CF_NOT_READY"
    using assms by (simp_all add: kept_def life_flags_def)
  then show "ready E s' = ready E s"
    using c by (simp add: ready_def switch_channel_test_ready_def switch_channel_test_flag_def
      switch_channel_state_change_pending_def switch_channel_down_nosig_def)
qed

lemma kept_variable: "kept s (set_variable v x s)"
  by (simp add: kept_def set_variable_def ch_frame)

lemma kept_clear:
  assumes "f \<notin> set life_flags"
  shows "succeeds (kept s) (clear_flag s f)"
proof -
  have "f \<noteq> CF_LEG_HOLDING" using assms by (auto simp: life_flags_def)
  then obtain ch where ch: "switch_channel_clear_flag 0 0 (se_channel s) f = Inr ch" using clear_flag_plain by blast
  have "core_of ch = core_of (se_channel s)" "ch_flags ch = (ch_flags (se_channel s))(f := 0)" using clear_flag_frame [OF ch] by auto
  then show ?thesis using assms by (auto simp: clear_flag_def ch kept_def)
qed

lemma kept_set:
  assumes "f \<notin> set life_flags"
  shows "succeeds (kept s) (set_flag s f)"
proof -
  have "f \<noteq> CF_LEG_HOLDING" using assms by (auto simp: life_flags_def)
  then obtain ch where ch: "switch_channel_set_flag_value 0 0 None (se_channel s) f 1 = Inr ch" using set_flag_plain by blast
  have "core_of ch = core_of (se_channel s)" "ch_flags ch = (ch_flags (se_channel s))(f := 1)" using set_flag_frame [OF ch] by auto
  then show ?thesis using assms by (auto simp: set_flag_def ch kept_def)
qed

text \<open>Hanging up a call that is neither hung up nor on hold.\<close>

definition alive :: "session \<Rightarrow> bool" where
  "alive s \<longleftrightarrow> \<not> ch_ocf_hangup (se_channel s) \<and> se_state s < CS_HANGUP \<and> \<not> se_flag s CF_LEG_HOLDING"

lemma kept_alive: "kept s s' \<Longrightarrow> alive s' = alive s"
  using kept_state(1,4) [of s s'] by (simp add: alive_def kept_def core_of_def life_flags_def)

lemma hangup_alive:
  assumes "alive s"
  shows "succeeds (\<lambda>s'. se_state s' = CS_HANGUP \<and> ch_hangup_cause (se_channel s') = cause \<and> se_trace s' = se_trace s \<and>
     se_handlers s' = se_handlers s \<and> se_extensions s' = se_extensions s \<and> se_ssf_hangup s' = se_ssf_hangup s \<and>
     ch_state_flags (se_channel s') = ch_state_flags (se_channel s) \<and> se_flag s' CF_REPORTING = se_flag s CF_REPORTING)
     (hangup E s cause)"
proof -
  let ?c1 = "(se_channel s)\<lparr>ch_ocf_hangup := True\<rparr>"
  have a: "\<not> ch_ocf_hangup (se_channel s)" "ch_state (se_channel s) < CS_HANGUP" "ch_flags (se_channel s) CF_LEG_HOLDING = 0"
    using assms by (simp_all add: alive_def se_state_def se_flag_def switch_channel_test_flag_def)
  then have u: "hangup_unhold (env_hangup E) ?c1 = Inr ?c1" by (simp add: hangup_unhold_def switch_channel_test_flag_def)
  have "CF_BLOCK_STATE \<noteq> CF_LEG_HOLDING" by (simp add: holding_flags)
  then obtain c2 where c2: "switch_channel_clear_flag 0 0 ?c1 CF_BLOCK_STATE = Inr c2" using clear_flag_plain by blast
  have f: "core_of c2 = core_of ?c1" "ch_flags c2 = (ch_flags ?c1)(CF_BLOCK_STATE := 0)" using clear_flag_frame [OF c2] by auto
  have "ch_state c2 < CS_HANGUP" "ch_state_flags c2 = ch_state_flags (se_channel s)" using f(1) a(2) by (simp_all add: core_of_def)
  then show ?thesis using a(1) u c2 f(2)
    by (simp add: hangup_def switch_channel_perform_hangup_def Let_def hangup_live_def emit_def close_hold_def se_state_def
      se_flag_def switch_channel_test_flag_def CF_REPORTING_def CF_BLOCK_STATE_def split: list.splits)
qed


section \<open>Executing an extension\<close>

lemma apps_in_order:
  assumes ok: "\<And>a s. succeeds (\<lambda>(r, s'). kept s s' \<and> (r = SWITCH_STATUS_SUCCESS \<longleftrightarrow> good a)) (env_application E a s)"
  shows "se_state s = CS_EXECUTE \<Longrightarrow> \<not> se_flag s CF_RESET \<Longrightarrow> length (se_extensions s ext) < n \<Longrightarrow>
    succeeds (\<lambda>(returned, s'). returned = (\<not> list_all good (se_extensions s ext)) \<and>
       executed (se_trace s') = executed (se_trace s) @ takeWhile good (se_extensions s ext) @ take 1 (dropWhile good (se_extensions s ext)) \<and>
       (\<forall>E. ready E s' = ready E s) \<and> se_state s' = CS_EXECUTE \<and> alive s' = alive s \<and>
       se_flag s' CF_CONFIRM_BLIND_TRANSFER = se_flag s CF_CONFIRM_BLIND_TRANSFER) (execute_apps E n ext s)"
proof (induction n arbitrary: s)
  case (Suc n)
  show ?case
  proof (cases "se_extensions s ext")
    case Nil
    then show ?thesis using Suc.prems by simp
  next
    case (Cons a as)
    let ?s1 = "next_application ext a as s"
    have ch: "se_channel ?s1 = se_channel s" by (simp add: next_application_def log_run_def)
    have s1: "se_state ?s1 = CS_EXECUTE" "\<not> se_flag ?s1 CF_RESET" "se_extensions ?s1 ext = as"
      "executed (se_trace ?s1) = executed (se_trace s) @ [a]" "\<And>E. ready E ?s1 = ready E s" "alive ?s1 = alive s"
      "se_flag ?s1 CF_CONFIRM_BLIND_TRANSFER = se_flag s CF_CONFIRM_BLIND_TRANSFER"
      using Suc.prems(1,2) by (simp_all add: ready_def alive_def se_state_def se_flag_def ch) (simp_all add: next_application_def log_run_def)
    obtain r s2 where run: "env_application E a ?s1 = Inr (r, s2)" "kept ?s1 s2" "r = SWITCH_STATUS_SUCCESS \<longleftrightarrow> good a"
      using ok [where a = a and s = ?s1] by (auto simp: succeeds_def)
    have f: "CF_RESET \<in> set life_flags" "CF_CONFIRM_BLIND_TRANSFER \<in> set life_flags" by (simp_all add: life_flags_def)
    have s2: "se_state s2 = CS_EXECUTE" "\<not> se_flag s2 CF_RESET" "se_extensions s2 ext = as"
      "executed (se_trace s2) = executed (se_trace s) @ [a]" "\<And>E. ready E s2 = ready E s" "alive s2 = alive s"
      "se_flag s2 CF_CONFIRM_BLIND_TRANSFER = se_flag s CF_CONFIRM_BLIND_TRANSFER"
      using kept_state [OF run(2)] f s1 kept_alive [OF run(2)] run(2) by (simp_all add: kept_def)
    show ?thesis
    proof (cases "good a")
      case False
      then show ?thesis using Cons Suc.prems(1) run s2 by simp
    next
      case True
      have "length (se_extensions s2 ext) < n" using Cons Suc.prems(3) s2(3) by simp
      then have ih: "succeeds (\<lambda>(returned, s'). returned = (\<not> list_all good as) \<and>
         executed (se_trace s') = executed (se_trace s) @ a # takeWhile good as @ take 1 (dropWhile good as) \<and>
         (\<forall>E. ready E s' = ready E s) \<and> se_state s' = CS_EXECUTE \<and> alive s' = alive s \<and>
         se_flag s' CF_CONFIRM_BLIND_TRANSFER = se_flag s CF_CONFIRM_BLIND_TRANSFER) (execute_apps E n ext s2)"
        using Suc.IH [OF s2(1,2)] s2(3-7) by simp
      have "execute_apps E (Suc n) ext s = execute_apps E n ext s2"
        using Cons Suc.prems(1) run(1,3) True s2(2) by simp
      then show ?thesis using ih Cons True by simp
    qed
  qed
qed simp

text \<open>C7: Executing a caller extension runs its applications one by one in the order of the extension, up
  to and including the first that fails. When one fails the call is left as it is; when all have run
  and the call is still ready, it is hung up with normal clearing.
\<close>

theorem execute_in_order:
  assumes apps: "\<forall>a s. succeeds (\<lambda>(r, s'). kept s s' \<and> (r = SWITCH_STATUS_SUCCESS \<longleftrightarrow> good a)) (env_application E a s)"
    and ext: "switch_channel_get_caller_extension s = Some ext" and n: "length (se_extensions s ext) + 1 < env_rounds E"
    and s: "se_state s = CS_EXECUTE" "alive s" "ready E s" "\<not> se_flag s CF_CONFIRM_BLIND_TRANSFER"
  shows "\<exists>s'. switch_core_standard_on_execute E s = Inr s' \<and>
     executed (se_trace s') = executed (se_trace s) @ takeWhile good (se_extensions s ext) @ take 1 (dropWhile good (se_extensions s ext)) \<and>
     (if list_all good (se_extensions s ext) then se_state s' = CS_HANGUP \<and> ch_hangup_cause (se_channel s') = SWITCH_CAUSE_NORMAL_CLEARING
      else se_state s' = CS_EXECUTE)"
proof -
  have nf: "CF_RECOVERING \<notin> set life_flags" "CF_RECOVERED \<notin> set life_flags" "CF_CONFIRM_BLIND_TRANSFER \<in> set life_flags"
    by (simp_all add: life_flags_def life_flag_defs CF_RECOVERING_def CF_RECOVERED_def)
  obtain s1 where s1: "clear_flag s CF_RECOVERING = Inr s1" "kept s s1" using kept_clear [OF nf(1)] by (auto simp: succeeds_def)
  define s2 where "s2 = set_variable ''call_uuid'' (Some (env_uuid E)) s1"
  have "succeeds (kept s2) (if env_variable E s2 ''recovered'' \<noteq> None \<and> \<not> se_flag s2 CF_RECOVERED then set_flag s2 CF_RECOVERED else Inr s2)"
    using kept_set [OF nf(2)] kept_refl by simp
  then obtain s3 where s3: "(if env_variable E s2 ''recovered'' \<noteq> None \<and> \<not> se_flag s2 CF_RECOVERED then set_flag s2 CF_RECOVERED else Inr s2) = Inr s3"
    "kept s2 s3" by (auto simp: succeeds_def)
  have k3: "kept s s3" using s1(2) kept_variable s3(2) kept_trans unfolding s2_def by blast
  obtain m where m: "env_rounds E = Suc m" using n by (cases "env_rounds E") auto
  obtain ch where ch: "switch_channel_clear_flag 0 0 (se_channel s3) CF_RESET = Inr ch"
    using clear_flag_plain [of CF_RESET] by (auto simp: life_flag_defs)
  define s4 where "s4 = s3\<lparr>se_channel := ch\<rparr>"
  have fr: "core_of ch = core_of (se_channel s3)" "ch_flags ch = (ch_flags (se_channel s3))(CF_RESET := 0)" using clear_flag_frame [OF ch] by auto
  have r3: "se_state s3 = CS_EXECUTE" "alive s3" "ready E s3" "\<not> se_flag s3 CF_CONFIRM_BLIND_TRANSFER"
    "se_extensions s3 = se_extensions s" "executed (se_trace s3) = executed (se_trace s)" "switch_channel_get_caller_extension s3 = Some ext"
    using kept_state [OF k3] kept_alive [OF k3] s ext nf(3) k3 by (simp_all add: kept_def)
  have r4: "se_state s4 = CS_EXECUTE" "\<not> se_flag s4 CF_RESET" "alive s4" "ready E s4" "\<not> se_flag s4 CF_CONFIRM_BLIND_TRANSFER"
    "se_extensions s4 = se_extensions s" "executed (se_trace s4) = executed (se_trace s)" "switch_channel_get_caller_extension s4 = Some ext"
    using r3 fr by (auto simp: s4_def se_state_def se_flag_def alive_def ready_def core_of_def switch_channel_test_flag_def
      switch_channel_test_ready_def switch_channel_state_change_pending_def switch_channel_down_nosig_def
      switch_channel_get_caller_extension_def life_flag_defs)
  have top: "execute_top E (env_rounds E) s3 = execute_apps E m ext s4"
    using r4(8) by (simp add: m clear_flag_def ch s4_def)
  obtain returned s5 where s5: "execute_apps E m ext s4 = Inr (returned, s5)"
    "returned = (\<not> list_all good (se_extensions s ext))"
    "executed (se_trace s5) = executed (se_trace s) @ takeWhile good (se_extensions s ext) @ take 1 (dropWhile good (se_extensions s ext))"
    "ready E s5" "se_state s5 = CS_EXECUTE" "alive s5" "\<not> se_flag s5 CF_CONFIRM_BLIND_TRANSFER"
    using apps_in_order [OF apps [rule_format], of s4 ext m] r4 n m by (auto simp: succeeds_def)
  obtain s6 where s6: "hangup E s5 SWITCH_CAUSE_NORMAL_CLEARING = Inr s6" "se_state s6 = CS_HANGUP"
    "ch_hangup_cause (se_channel s6) = SWITCH_CAUSE_NORMAL_CLEARING" "se_trace s6 = se_trace s5"
    using hangup_alive [OF s5(6), of SWITCH_CAUSE_NORMAL_CLEARING E] by (auto simp: succeeds_def)
  have "switch_core_standard_on_execute E s = (if returned then Inr s5 else Inr s6)"
    unfolding switch_core_standard_on_execute_def Let_def s1(1) fbind_Inr s2_def [symmetric] s3(1) top s5(1)
    using s5(4,5,7) s6(1) by (simp add: confirm_transfer_def)
  then show ?thesis using s5(2,3,5) s6(2-4) by auto
qed


theorem execute_in_order_witness:
  "\<exists>s'. switch_core_standard_on_execute (quiet_run {}) (quiet_session idle_channel) = Inr s' \<and>
     map application_name (executed (se_trace s')) = [''answer'', ''playback''] \<and> se_state s' = CS_HANGUP \<and>
     ch_hangup_cause (se_channel s') = 16"
proof -
  let ?E = "quiet_run {}" and ?s = "quiet_session idle_channel"
  have "\<forall>a s. succeeds (\<lambda>(r, s'). kept s s' \<and> (r = SWITCH_STATUS_SUCCESS \<longleftrightarrow> True)) (env_application ?E a s)"
    by (simp add: quiet_run_def kept_refl)
  moreover have "switch_channel_get_caller_extension ?s = Some 7" "length (se_extensions ?s 7) + 1 < env_rounds ?E"
    "se_state ?s = CS_EXECUTE" "alive ?s" "ready ?E ?s" "\<not> se_flag ?s CF_CONFIRM_BLIND_TRANSFER"
    by (simp_all add: quiet_run_def quiet_session_def idle_channel_def switch_channel_get_caller_extension_def alive_def ready_def
      se_state_def se_flag_def state_order switch_channel_test_flag_def switch_channel_test_ready_def
      switch_channel_state_change_pending_def life_flag_defs CF_ANSWERED_def)
  ultimately show ?thesis
    using execute_in_order [of "\<lambda>_. True" ?E ?s 7]
    by (auto simp: quiet_session_def SWITCH_CAUSE_NORMAL_CLEARING_def)
qed

section \<open>Routing\<close>

text \<open>
  The answers of the dialplans a profile names, in the order of the list, when \<open>g\<close> says what the
  dialplan of a name answers for its argument; names no module has registered are passed over.
\<close>

definition dialplan_name :: "string \<Rightarrow> string" where
  "dialplan_name dp = takeWhile (\<lambda>c. c \<noteq> CHR '':'') dp"

definition dialplan_argument :: "string \<Rightarrow> string option" where
  "dialplan_argument dp = (case dropWhile (\<lambda>c. c \<noteq> CHR '':'') dp of [] \<Rightarrow> None | _ # arg \<Rightarrow> Some arg)"

definition answers :: "run_env \<Rightarrow> (string \<Rightarrow> string option \<Rightarrow> nat option) \<Rightarrow> string list \<Rightarrow> nat option list" where
  "answers E g dps = map (\<lambda>dp. g (dialplan_name dp) (dialplan_argument dp)) (filter (\<lambda>dp. env_dialplan E (dialplan_name dp) \<noteq> None) dps)"

text \<open>\<open>asks E g\<close>: a dialplan function answers what \<open>g\<close> says and leaves the call alone.\<close>

definition asks :: "run_env \<Rightarrow> (string \<Rightarrow> string option \<Rightarrow> nat option) \<Rightarrow> bool" where
  "asks E g \<longleftrightarrow> (\<forall>n f s x. env_dialplan E n = Some f \<longrightarrow> succeeds (\<lambda>(ext, s'). ext = g n x \<and> kept s s' \<and>
     ch_direction (se_channel s') = ch_direction (se_channel s) \<and> se_flag s' CF_ANSWERED = se_flag s CF_ANSWERED) (f s x))"

lemma hunt_finds_first:
  assumes "asks E g"
  shows "succeeds (\<lambda>(ext, count, s'). kept s s' \<and> ch_direction (se_channel s') = ch_direction (se_channel s) \<and>
       se_flag s' CF_ANSWERED = se_flag s CF_ANSWERED \<and>
       ext = (case List.find (\<lambda>x. x \<noteq> None) (answers E g dps) of None \<Rightarrow> None | Some x \<Rightarrow> x) \<and>
       (ext = None \<longrightarrow> count = c + length (answers E g dps))) (hunt E dps c s)"
proof (induction dps arbitrary: c s)
  case Nil
  then show ?case by (simp add: kept_refl answers_def)
next
  case (Cons dp dps)
  show ?case
  proof (cases "env_dialplan E (dialplan_name dp)")
    case None
    then show ?thesis using Cons [of s c] by (simp add: answers_def dialplan_name_def Let_def)
  next
    case (Some f)
    let ?x = "dialplan_argument dp"
    have "succeeds (\<lambda>(ext, s'). ext = g (dialplan_name dp) ?x \<and> kept s s' \<and> ch_direction (se_channel s') = ch_direction (se_channel s) \<and>
        se_flag s' CF_ANSWERED = se_flag s CF_ANSWERED) (f s ?x)"
      using assms Some unfolding asks_def by blast
    then obtain s1 where s1: "f s ?x = Inr (g (dialplan_name dp) ?x, s1)" "kept s s1"
      "ch_direction (se_channel s1) = ch_direction (se_channel s)" "se_flag s1 CF_ANSWERED = se_flag s CF_ANSWERED"
      by (auto simp: succeeds_def)
    have h: "hunt E (dp # dps) c s = (if g (dialplan_name dp) ?x \<noteq> None then Inr (g (dialplan_name dp) ?x, c + 1, s1) else hunt E dps (c + 1) s1)"
      using Some s1(1) by (simp add: dialplan_name_def dialplan_argument_def Let_def)
    show ?thesis
    proof (cases "g (dialplan_name dp) ?x")
      case None
      have "hunt E (dp # dps) c s = hunt E dps (c + 1) s1" using h None by simp
      moreover have "answers E g (dp # dps) = None # answers E g dps" using Some None by (simp add: answers_def)
      ultimately show ?thesis using Cons [of s1 "c + 1"] s1(2-4) kept_trans [OF s1(2)] by (auto elim!: succeeds_mono)
    next
      case (Some e)
      with \<open>env_dialplan E (dialplan_name dp) = Some f\<close> h s1 show ?thesis by (simp add: answers_def)
    qed
  qed
qed

lemma sort_cid_kept:
  assumes "\<And>s. succeeds (kept s) (env_flip_cid E s)"
  shows "succeeds (kept s) (switch_channel_sort_cid E s)"
proof -
  have nf: "CF_BLEG \<notin> set life_flags" "CF_DIALPLAN \<notin> set life_flags"
    by (simp_all add: life_flags_def life_flag_defs CF_BLEG_def CF_DIALPLAN_def)
  have "succeeds (kept s) (fbind (env_flip_cid E s) (\<lambda>s1. clear_flag s1 CF_BLEG))"
    by (rule succeeds_bind [OF assms]) (auto intro: succeeds_mono [OF kept_clear [OF nf(1)]] kept_trans)
  moreover have "succeeds (kept s) (fbind (set_flag s CF_DIALPLAN) (env_flip_cid E))"
    by (rule succeeds_bind [OF kept_set [OF nf(2)]]) (auto intro: succeeds_mono [OF assms] kept_trans)
  ultimately show ?thesis by (simp add: switch_channel_sort_cid_def kept_refl)
qed

lemma install_routed:
  assumes "\<And>s. succeeds (kept s) (env_flip_cid E s)" "se_state s = CS_ROUTING" "se_caller_profile s \<noteq> None"
  shows "succeeds (\<lambda>s'. se_state s' = CS_EXECUTE \<and> switch_channel_get_caller_extension s' = Some e) (install_extension E s e)"
proof -
  obtain s1 where s1: "switch_channel_sort_cid E s = Inr s1" "kept s s1"
    using sort_cid_kept [OF assms(1)] by (auto simp: succeeds_def)
  obtain p where p: "se_caller_profile s1 = Some p" "ch_state (se_channel s1) = CS_ROUTING"
    using s1(2) assms(2,3) by (auto simp: kept_def core_of_def se_state_def)
  then show ?thesis
    by (simp add: install_extension_def switch_channel_set_caller_extension_def s1(1) set_state_def
      switch_channel_perform_set_state_def Let_def se_state_def state_order emit_def switch_channel_get_caller_extension_def)
qed

lemma consume_routed:
  "se_state s = CS_ROUTING \<Longrightarrow> succeeds (\<lambda>s'. se_state s' = CS_CONSUME_MEDIA) (set_state E s CS_CONSUME_MEDIA)"
  by (simp add: set_state_def switch_channel_perform_set_state_def Let_def se_state_def state_order emit_def)

text \<open>C6: Routing a call: the extension of the first dialplan, in the order of the profile's list, that
  finds one becomes the caller extension and the call goes on to execute it, whatever the later
  dialplans would say. A queued extension is taken without asking any dialplan. When no dialplan finds
  one, a call no transfer acknowledgement takes care of is hung up with no route to destination,
  except an unanswered outbound call with no registered dialplan, which consumes media instead.
\<close>

theorem routing_outcome:
  assumes asks: "asks E g" and cid: "\<forall>s. succeeds (kept s) (env_flip_cid E s)" and p: "se_caller_profile s = Some p"
    and dial: "cp_dialplan p = Some d" "d \<noteq> []" "\<forall>s. switch_separate_string (env_expand E s d) (CHR '','') 25 = Inr dps"
    and s: "se_state s = CS_ROUTING" "alive s" "\<not> se_flag s CF_PROXY_MODE"
    and ack: "\<forall>s. \<exists>r. env_blind_ack E s = Inr (r, s) \<and> r \<noteq> SWITCH_STATUS_SUCCESS"
  shows "\<exists>s'. switch_core_standard_on_routing E s = Inr s' \<and>
     (case (case se_queued_extension s of Some e \<Rightarrow> Some (Some e) | None \<Rightarrow> List.find (\<lambda>x. x \<noteq> None) (answers E g dps)) of
        Some e \<Rightarrow> se_state s' = CS_EXECUTE \<and> switch_channel_get_caller_extension s' = e
      | None \<Rightarrow>
          if answers E g dps = [] \<and> ch_direction (se_channel s) = SWITCH_CALL_DIRECTION_OUTBOUND \<and> \<not> se_flag s CF_ANSWERED
          then se_state s' = CS_CONSUME_MEDIA
          else se_state s' = CS_HANGUP \<and> ch_hangup_cause (se_channel s') = SWITCH_CAUSE_NO_ROUTE_DESTINATION)"
proof -
  define s1 where "s1 = (set_variable ''call_uuid'' (Some (env_uuid E)) s)\<lparr>se_queued_extension := None\<rparr>"
  have ch: "core_of (se_channel s1) = core_of (se_channel s)" "ch_flags (se_channel s1) = ch_flags (se_channel s)"
    "ch_direction (se_channel s1) = ch_direction (se_channel s)"
    by (simp_all add: s1_def set_variable_def ch_frame) (simp add: emit_def)
  have s1: "se_state s1 = CS_ROUTING" "se_caller_profile s1 \<noteq> None" "alive s1" "se_flag s1 CF_ANSWERED = se_flag s CF_ANSWERED"
    using ch s p by (auto simp: se_state_def alive_def se_flag_def switch_channel_test_flag_def core_of_def)
      (simp add: s1_def set_variable_def)
  have route: "switch_core_standard_on_routing E s = (case se_queued_extension s of Some e \<Rightarrow> install_extension E s1 e
      | None \<Rightarrow> fbind (hunt E dps 0 s1) (\<lambda>(ext, count, s4). case ext of Some e \<Rightarrow> install_extension E s4 e | None \<Rightarrow> no_extension E count s4))"
    using s(3) p dial
    by (simp add: switch_core_standard_on_routing_def Let_def s1_def set_variable_def se_flag_def switch_channel_test_flag_def
      flags_simple switch_channel_get_queued_extension_def split: option.splits)
  show ?thesis
  proof (cases "se_queued_extension s")
    case (Some e)
    then show ?thesis using route install_routed [OF spec [OF cid] s1(1,2), of e] by (auto simp: succeeds_def)
  next
    case None
    obtain ext count s2 where h: "hunt E dps 0 s1 = Inr (ext, count, s2)" "kept s1 s2"
      "ch_direction (se_channel s2) = ch_direction (se_channel s)" "se_flag s2 CF_ANSWERED = se_flag s CF_ANSWERED"
      "ext = (case List.find (\<lambda>x. x \<noteq> None) (answers E g dps) of None \<Rightarrow> None | Some x \<Rightarrow> x)"
      "ext = None \<longrightarrow> count = length (answers E g dps)"
      using hunt_finds_first [OF asks, of s1 dps 0] ch(3) s1(4) by (auto simp: succeeds_def)
    have s2: "se_state s2 = CS_ROUTING" "se_caller_profile s2 \<noteq> None" "alive s2"
      using kept_state [OF h(2)] kept_alive [OF h(2)] h(2) s1 by (simp_all add: kept_def)
    show ?thesis
    proof (cases "List.find (\<lambda>x. x \<noteq> None) (answers E g dps)")
      case f: None
      obtain r where r: "env_blind_ack E s2 = Inr (r, s2)" "r \<noteq> SWITCH_STATUS_SUCCESS" using ack by blast
      have "switch_core_standard_on_routing E s = no_extension E (length (answers E g dps)) s2"
        using route None h f by simp
      then show ?thesis
        using None f r h(3,4) hangup_alive [OF s2(3), of SWITCH_CAUSE_NO_ROUTE_DESTINATION E] consume_routed [OF s2(1), of E]
        by (auto simp: no_extension_def succeeds_def)
    next
      case f: (Some x)
      obtain e where e: "x = Some e" using f by (auto simp: find_Some_iff)
      then show ?thesis using route None h f install_routed [OF spec [OF cid] s2(1,2), of e] by (auto simp: succeeds_def)
    qed
  qed
qed


text \<open>Two dialplans, of which only the second finds an extension.\<close>

definition two_dialplans :: run_env where
  "two_dialplans = (quiet_run {})\<lparr>env_dialplan := (\<lambda>n. if n = ''a'' then Some (\<lambda>s _. Inr (None, s))
     else if n = ''b'' then Some (\<lambda>s x. Inr (if x = Some ''x'' then Some 5 else None, s)) else None)\<rparr>"

theorem routing_outcome_witness:
  "\<exists>s'. switch_core_standard_on_routing two_dialplans (quiet_session (idle_channel\<lparr>ch_state := CS_ROUTING\<rparr>)) = Inr s' \<and>
     se_state s' = CS_EXECUTE \<and> switch_channel_get_caller_extension s' = Some 5"
proof -
  let ?E = two_dialplans and ?s = "quiet_session (idle_channel\<lparr>ch_state := CS_ROUTING\<rparr>)"
  let ?g = "\<lambda>n x. if n = ''b'' \<and> x = Some ''x'' then Some (5::nat) else None"
  have "asks ?E ?g" by (auto simp: asks_def two_dialplans_def kept_refl split: if_splits)
  moreover have "\<forall>s. succeeds (kept s) (env_flip_cid ?E s)" "\<forall>s. \<exists>r. env_blind_ack ?E s = Inr (r, s) \<and> r \<noteq> SWITCH_STATUS_SUCCESS"
    by (simp_all add: two_dialplans_def quiet_run_def kept_refl)
  moreover have "switch_separate_string ''a,b:x'' (CHR '','') 25 = Inr [''a'', ''b:x'']" by code_simp
  moreover have "se_state ?s = CS_ROUTING" "alive ?s" "\<not> se_flag ?s CF_PROXY_MODE" "se_queued_extension ?s = None"
    "se_caller_profile ?s = Some \<lparr>cp_dialplan = Some ''a,b:x'', cp_caller_extension = Some 7\<rparr>" "\<forall>s. env_expand ?E s ''a,b:x'' = ''a,b:x''"
    by (simp_all add: quiet_session_def idle_channel_def alive_def se_state_def se_flag_def state_order switch_channel_test_flag_def
      life_flag_defs CF_ANSWERED_def CF_PROXY_MODE_def two_dialplans_def quiet_run_def)
  moreover have "answers ?E ?g [''a'', ''b:x''] = [None, Some 5]"
    by (simp add: answers_def two_dialplans_def dialplan_name_def dialplan_argument_def)
  ultimately show ?thesis
    using routing_outcome [of ?E ?g ?s "\<lparr>cp_dialplan = Some ''a,b:x'', cp_caller_extension = Some 7\<rparr>" "''a,b:x''" "[''a'', ''b:x'']"]
    by auto
qed

section \<open>An abandoned session\<close>

text \<open>A fresh session with the extensions \<open>X\<close> whose drivers have been called for \<open>D\<close>, still waiting for instructions.\<close>

definition waiting :: "(nat \<Rightarrow> application list) \<Rightarrow> run_event list \<Rightarrow> session \<Rightarrow> bool" where
  "waiting X D s \<longleftrightarrow> se_state s = CS_NEW \<and> alive s \<and> \<not> se_flag s CF_BLOCK_STATE \<and> \<not> se_flag s CF_REPORTING \<and>
     ch_state_flags (se_channel s) = (\<lambda>_. 0) \<and> length (hr_handlers (se_handlers s)) = SWITCH_MAX_STATE_HANDLERS \<and>
     \<not> se_ssf_hangup s \<and> se_extensions s = X \<and> drivers (se_trace s) = D"

text \<open>Nobody takes the session up: messages and events leave it alone, and there are no state hooks.\<close>

definition idle_env :: "run_env \<Rightarrow> bool" where
  "idle_env E \<longleftrightarrow> (\<forall>s. succeeds (kept s) (env_messages E s)) \<and> (\<forall>s. succeeds (kept s) (env_events E 0 s)) \<and>
     env_state_run E = None \<and> env_hooks E = []"

lemma kept_waiting: "kept s s' \<Longrightarrow> waiting X D s \<Longrightarrow> waiting X D s' \<and> ch_running_state (se_channel s') = ch_running_state (se_channel s)"
  using kept_state(1,4) [of s s'] kept_alive [of s s'] by (simp add: waiting_def life_flags_def) (simp add: kept_def core_of_def)

lemma waiting_flags:
  assumes "core_of ch = core_of (se_channel s)" "\<forall>f \<in> {CF_BLOCK_STATE, CF_REPORTING, CF_LEG_HOLDING}. ch_flags ch f = ch_flags (se_channel s) f"
  shows "waiting X D (s\<lparr>se_channel := ch\<rparr>) = waiting X D s"
  using assms by (auto simp: waiting_def alive_def se_state_def se_flag_def switch_channel_test_flag_def core_of_def)

lemma waiting_clear:
  assumes "f \<notin> {CF_BLOCK_STATE, CF_REPORTING, CF_LEG_HOLDING}" "waiting X D s"
  shows "succeeds (\<lambda>s'. waiting X D s' \<and> ch_running_state (se_channel s') = ch_running_state (se_channel s)) (clear_flag s f)"
proof -
  obtain ch where ch: "switch_channel_clear_flag 0 0 (se_channel s) f = Inr ch" using clear_flag_plain assms(1) by blast
  have f: "core_of ch = core_of (se_channel s)" "ch_flags ch = (ch_flags (se_channel s))(f := 0)" using clear_flag_frame [OF ch] by auto
  have "waiting X D (s\<lparr>se_channel := ch\<rparr>) = waiting X D s" by (rule waiting_flags) (use f assms(1) in auto)
  then show ?thesis using assms(2) f(1) by (simp add: clear_flag_def ch core_of_def)
qed

lemma waiting_running:
  assumes "waiting X D s"
  shows "succeeds (\<lambda>s'. waiting X D s' \<and> ch_running_state (se_channel s') = CS_NEW) (set_running_state E s CS_NEW)"
proof -
  let ?ch = "se_channel s"
  have p: "core_of (pending_flags ?ch) = core_of ?ch" "ch_flags (pending_flags ?ch) = ch_flags ?ch"
    using assms by (auto simp: waiting_def pending_flags_def core_of_def fun_eq_iff)
  have ne: "CF_TAGGED \<noteq> CF_LEG_HOLDING" by (simp add: holding_flags)
  obtain c where c: "switch_channel_clear_flag 0 0 (pending_flags ?ch) CF_TAGGED = Inr c" using clear_flag_plain [OF ne] by blast
  have f: "ch_flags c = (ch_flags ?ch)(CF_TAGGED := 0)" "core_of c = core_of ?ch" using clear_flag_frame [OF c] p by auto
  obtain ch' where ch': "switch_channel_perform_set_running_state (env_thread_try E) (env_session_try E) ?ch CS_NEW = Inr ch'"
    "core_of ch' = core_of (c\<lparr>ch_running_state := CS_NEW\<rparr>)" "ch_flags ch' = ch_flags c"
    using c by (cases "CS_NEW \<le> CS_DESTROY") (simp_all add: switch_channel_perform_set_running_state_def ch_frame)
  have "ch_flags ch' f = ch_flags ?ch f" if "f \<noteq> CF_TAGGED" for f using ch'(3) f(1) that by simp
  then show ?thesis using assms ch'(2) f(2)
    by (simp add: set_running_state_def ch'(1) waiting_def alive_def se_state_def se_flag_def switch_channel_test_flag_def
      core_of_def holding_flags CF_REPORTING_def state_order)
qed

lemma enter_waits:
  assumes E: "idle_env E" and s: "waiting X D s"
  shows "succeeds (\<lambda>s'. waiting X D s' \<and> ch_running_state (se_channel s') = CS_NEW) (enter_state E CS_NEW s)"
proof -
  let ?P = "\<lambda>s'. waiting X D s' \<and> ch_running_state (se_channel s') = CS_NEW"
  have nf: "CF_TRANSFER \<notin> {CF_BLOCK_STATE, CF_REPORTING, CF_LEG_HOLDING}" "CF_REDIRECT \<notin> {CF_BLOCK_STATE, CF_REPORTING, CF_LEG_HOLDING}"
    by (simp_all add: life_flag_defs CF_REDIRECT_def)
  have c: "succeeds ?P (clear_flag s1 f)" if "?P s1" "f \<notin> {CF_BLOCK_STATE, CF_REPORTING, CF_LEG_HOLDING}" for s1 f
    by (rule succeeds_mono [OF waiting_clear [OF that(2)]]) (use that(1) in auto)
  have m: "succeeds ?P (env_messages E s1)" if "?P s1" for s1
  proof (rule succeeds_mono)
    show "succeeds (kept s1) (env_messages E s1)" using E by (simp add: idle_env_def)
  qed (use that kept_waiting in auto)
  have "succeeds ?P (fbind (set_running_state E s CS_NEW) (\<lambda>s1. fbind (clear_flag s1 CF_TRANSFER) (\<lambda>s2.
      fbind (clear_flag s2 CF_REDIRECT) (env_messages E))))"
    by (rule succeeds_bind [OF waiting_running [OF s]], rule succeeds_bind [OF c [OF _ nf(1)]], assumption,
      rule succeeds_bind [OF c [OF _ nf(2)]], assumption, rule m)
  moreover have "fbind m (\<lambda>x. Inr x) = m" for m :: "fault + session" by (cases m) simp_all
  ultimately show ?thesis using E by (simp add: enter_state_def idle_env_def)
qed

lemma round_waits:
  assumes E: "idle_env E" and s: "waiting X D s"
  shows "\<exists>s1. waiting X D s1 \<and> ch_running_state (se_channel s1) = CS_NEW \<and>
    run_round E n s = fbind (abandon E n s1) (\<lambda>(m, s5). Inr (Some m, s5))"
proof -
  have st: "se_state s = CS_NEW" "\<not> se_flag s CF_BLOCK_STATE" using s by (simp_all add: waiting_def)
  have w: "await E n s1 = abandon E n s1" "check_presence s1 = s1" if "waiting X D s1" "ch_running_state (se_channel s1) = CS_NEW" for s1
    using that by (simp_all add: await_def settled_def waiting_def check_presence_def Let_def)
  show ?thesis
  proof (cases "ch_running_state (se_channel s) = CS_NEW")
    case True
    then show ?thesis using st s w [OF s True] by (auto simp: run_round_def Let_def state_order)
  next
    case False
    obtain s1 where s1: "enter_state E CS_NEW s = Inr s1" "waiting X D s1" "ch_running_state (se_channel s1) = CS_NEW"
      using enter_waits [OF E s] by (auto simp: succeeds_def)
    have "run_round E n s = fbind (abandon E n s1) (\<lambda>(m, s5). Inr (Some m, s5))"
      using st False s1(1) w [OF s1(2,3)] by (simp add: run_round_def Let_def dispatch_state_def)
    then show ?thesis using s1(2,3) by blast
  qed
qed

text \<open>The last of the rounds hangs up.\<close>

definition given_up :: "(nat \<Rightarrow> application list) \<Rightarrow> run_event list \<Rightarrow> session \<Rightarrow> bool" where
  "given_up X D s \<longleftrightarrow> down s \<and> se_state s = CS_HANGUP \<and> ch_hangup_cause (se_channel s) = SWITCH_CAUSE_WRONG_CALL_STATE \<and>
     \<not> se_ssf_hangup s \<and> \<not> se_flag s CF_REPORTING \<and> ch_state_flags (se_channel s) CF_REPORTING = 0 \<and>
     se_extensions s = X \<and> drivers (se_trace s) = D"

lemma abandon_waits:
  assumes E: "idle_env E" and s: "waiting X D s"
  shows "succeeds (\<lambda>(m, s'). m = n - 1 \<and> (if n = 1 then given_up X D s' else waiting X D s')) (abandon E n s)"
proof -
  obtain s1 where s1: "env_events E 0 s = Inr s1" "waiting X D s1"
    using E s kept_waiting unfolding idle_env_def succeeds_def by blast
  show ?thesis
  proof (cases "n = 1")
    case False
    then have "n - 1 \<noteq> 0" by simp
    then show ?thesis using False s1 by (simp add: abandon_def Let_def)
  next
    case True
    have nf: "CF_NO_CDR \<notin> set life_flags" by (simp add: life_flags_def life_flag_defs CF_NO_CDR_def)
    obtain s2 where s2: "set_flag s1 CF_NO_CDR = Inr s2" "waiting X D s2"
      using kept_set [OF nf, of s1] kept_waiting s1(2) unfolding succeeds_def by blast
    have "alive s2" using s2(2) by (simp add: waiting_def)
    from hangup_alive [OF this, of SWITCH_CAUSE_WRONG_CALL_STATE E] obtain s3 where
      s3: "hangup E s2 SWITCH_CAUSE_WRONG_CALL_STATE = Inr s3" "given_up X D s3"
      using s2(2) by (auto simp: succeeds_def given_up_def waiting_def down_def)
    then show ?thesis using True s1(1) s2(1) by (simp add: abandon_def)
  qed
qed

lemma rounds_abandon:
  assumes "0 < n" "n < 2 ^ 32" "\<forall>k < n. idle_env (env k)" "waiting X D s"
  shows "\<exists>s'. given_up X D s' \<and> run_rounds env (n + r) (of_nat n) s = run_rounds (\<lambda>k. env (n + k)) r 0 s'"
  using assms
proof (induction n arbitrary: env s)
  case (Suc n)
  obtain s1 where s1: "waiting X D s1" "run_round (env 0) (of_nat (Suc n)) s = fbind (abandon (env 0) (of_nat (Suc n)) s1) (\<lambda>(m, s5). Inr (Some m, s5))"
    using round_waits [of "env 0" X D s "of_nat (Suc n)"] Suc.prems(3,4) by auto
  have "idle_env (env 0)" using Suc.prems(3) by simp
  then obtain s2 where s2: "abandon (env 0) (of_nat (Suc n)) s1 = Inr (of_nat n, s2)"
    "if (of_nat (Suc n) :: uint32) = 1 then given_up X D s2 else waiting X D s2"
    using abandon_waits [OF _ s1(1), of "env 0" "of_nat (Suc n)"] by (auto simp: succeeds_def)
  have step: "run_rounds env (Suc n + r) (of_nat (Suc n)) s = run_rounds (\<lambda>k. env (Suc k)) (n + r) (of_nat n) s2"
    using s1(2) s2(1) by simp
  have one: "(of_nat (Suc n) :: uint32) = 1 \<longleftrightarrow> n = 0"
    using Suc.prems(2) word_of_nat_eq_iff [of "Suc n" 1, where 'a = 32] by (auto simp: take_bit_eq_mod)
  show ?case
  proof (cases "n = 0")
    case True
    then show ?thesis using step s2(2) one by auto
  next
    case False
    then have "waiting X D s2" using s2(2) one by simp
    then show ?thesis
      using Suc.IH [of "\<lambda>k. env (Suc k)" s2] False Suc.prems(2,3) step by auto
  qed
qed simp

text \<open>C9: A session that is created and never taken up does not live on: after five hundred rounds in
  \<open>CS_NEW\<close> the loop hangs it up with the cause for a wrong call state, and two rounds later it is
  destroyed, its endpoint told of the hang-up and of the reporting only.
\<close>

theorem abandoned_session_ends:
  assumes "waiting X [] s" "\<forall>k < 500. idle_env (env k)" "\<forall>k \<ge> 500. calm_env (env k)" "\<forall>e. length (X e) < env_rounds (env 500)"
  shows "\<exists>s'. switch_core_session_run env 502 s = Inr s' \<and> se_state s' = CS_DESTROY \<and>
     ch_hangup_cause (se_channel s') = SWITCH_CAUSE_WRONG_CALL_STATE \<and>
     drivers (se_trace s') = driver_calls (env 500) CS_HANGUP @ driver_calls (env 501) CS_REPORTING \<and>
     last (se_trace s') = Fire_hangup_complete (switch_channel_cause2str SWITCH_CAUSE_WRONG_CALL_STATE)"
proof -
  let ?s0 = "s\<lparr>se_thread_running := True\<rparr>"
  have "waiting X [] ?s0" using assms(1) by (simp add: waiting_def alive_def se_state_def se_flag_def state_order)
  then obtain s1 where s1: "given_up X [] s1"
    "run_rounds env (500 + 2) (of_nat 500) ?s0 = run_rounds (\<lambda>k. env (500 + k)) 2 0 s1"
    using rounds_abandon [of 500 env X "[]" ?s0 2] assms(2) by auto
  have "succeeds (\<lambda>s'. se_state s' = CS_DESTROY \<and> ch_hangup_cause (se_channel s') = SWITCH_CAUSE_WRONG_CALL_STATE \<and>
     drivers (se_trace s') = driver_calls (env 500) CS_HANGUP @ driver_calls (env 501) CS_REPORTING \<and>
     last (se_trace s') = Fire_hangup_complete (switch_channel_cause2str SWITCH_CAUSE_WRONG_CALL_STATE))
     (run_rounds (\<lambda>k. env (500 + k)) (Suc (Suc 0)) 0 s1)"
    using rounds_tear_down [of "\<lambda>k. env (500 + k)" s1 0 0] s1(1) assms(3,4)
    by (simp add: given_up_def del: run_rounds.simps)
  then have "succeeds (\<lambda>s'. se_state s' = CS_DESTROY \<and> ch_hangup_cause (se_channel s') = SWITCH_CAUSE_WRONG_CALL_STATE \<and>
     drivers (se_trace s') = driver_calls (env 500) CS_HANGUP @ driver_calls (env 501) CS_REPORTING \<and>
     last (se_trace s') = Fire_hangup_complete (switch_channel_cause2str SWITCH_CAUSE_WRONG_CALL_STATE))
     (run_rounds env 502 500 ?s0)"
    using s1(2) by (simp add: numeral_2_eq_2 del: run_rounds.simps)
  then show ?thesis by (auto simp: switch_core_session_run_def succeeds_def se_state_def)
qed

theorem abandoned_session_ends_witness:
  "\<exists>s'. switch_core_session_run (\<lambda>_. quiet_run {CS_HANGUP}) 502
       (quiet_session (idle_channel\<lparr>ch_state := CS_NEW, ch_running_state := CS_NONE\<rparr>)) = Inr s' \<and> se_state s' = CS_DESTROY \<and>
     drivers (se_trace s') = [Driver CS_HANGUP] \<and> last (se_trace s') = Fire_hangup_complete ''WRONG_CALL_STATE''"
proof -
  let ?s = "quiet_session (idle_channel\<lparr>ch_state := CS_NEW, ch_running_state := CS_NONE\<rparr>)"
  have "waiting (se_extensions ?s) [] ?s"
    by (simp add: waiting_def alive_def quiet_session_def idle_channel_def se_state_def se_flag_def switch_channel_test_flag_def
      state_order life_flag_defs CF_ANSWERED_def empty_registry_def drivers_def)
  moreover have "idle_env (quiet_run {CS_HANGUP})" by (simp add: idle_env_def quiet_run_def kept_refl)
  moreover have "\<forall>e. length (se_extensions ?s e) < env_rounds (quiet_run {CS_HANGUP})"
    "driver_calls (quiet_run {CS_HANGUP}) CS_HANGUP = [Driver CS_HANGUP]" "driver_calls (quiet_run {CS_HANGUP}) CS_REPORTING = []"
    by (simp_all add: quiet_session_def quiet_run_def driver_calls_def)
  moreover have "switch_channel_cause2str SWITCH_CAUSE_WRONG_CALL_STATE = ''WRONG_CALL_STATE''" by code_simp
  ultimately show ?thesis
    using abandoned_session_ends [of "se_extensions ?s" ?s "\<lambda>_. quiet_run {CS_HANGUP}"] quiet_calm by auto
qed

end
