(* ===== verification/Stun.thy ===== *)
theory Stun
  imports Crc32 C_String
begin

text \<open>
  STUN packets (src/switch\_stun.c, src/include/switch\_stun.h): building packets attribute by
  attribute, parsing a packet in place, reading addresses from it, and the lookup of the public
  address of a socket. A packet is a block of bytes, a 16-bit or 32-bit field is read and written as a
  little-endian host does, and a pointer into the packet is an offset, which may leave the block.
\<close>

unbundle bit_operations_syntax

section \<open>Constants\<close>

definition SWITCH_STUN_BINDING_REQUEST :: uint16 where "SWITCH_STUN_BINDING_REQUEST = 0x0001"
definition SWITCH_STUN_BINDING_RESPONSE :: uint16 where "SWITCH_STUN_BINDING_RESPONSE = 0x0101"
definition SWITCH_STUN_BINDING_ERROR_RESPONSE :: uint16 where "SWITCH_STUN_BINDING_ERROR_RESPONSE = 0x0111"
definition SWITCH_STUN_SHARED_SECRET_REQUEST :: uint16 where "SWITCH_STUN_SHARED_SECRET_REQUEST = 0x0002"
definition SWITCH_STUN_SHARED_SECRET_RESPONSE :: uint16 where "SWITCH_STUN_SHARED_SECRET_RESPONSE = 0x0102"
definition SWITCH_STUN_SHARED_SECRET_ERROR_RESPONSE :: uint16 where "SWITCH_STUN_SHARED_SECRET_ERROR_RESPONSE = 0x0112"
definition SWITCH_STUN_ALLOCATE_REQUEST :: uint16 where "SWITCH_STUN_ALLOCATE_REQUEST = 0x0003"
definition SWITCH_STUN_ALLOCATE_RESPONSE :: uint16 where "SWITCH_STUN_ALLOCATE_RESPONSE = 0x0103"
definition SWITCH_STUN_ALLOCATE_ERROR_RESPONSE :: uint16 where "SWITCH_STUN_ALLOCATE_ERROR_RESPONSE = 0x0113"
definition SWITCH_STUN_SEND_REQUEST :: uint16 where "SWITCH_STUN_SEND_REQUEST = 0x0004"
definition SWITCH_STUN_SEND_RESPONSE :: uint16 where "SWITCH_STUN_SEND_RESPONSE = 0x0104"
definition SWITCH_STUN_SEND_ERROR_RESPONSE :: uint16 where "SWITCH_STUN_SEND_ERROR_RESPONSE = 0x0114"
definition SWITCH_STUN_DATA_INDICATION :: uint16 where "SWITCH_STUN_DATA_INDICATION = 0x0115"
definition SWITCH_STUN_ATTR_MAPPED_ADDRESS :: uint16 where "SWITCH_STUN_ATTR_MAPPED_ADDRESS = 0x0001"
definition SWITCH_STUN_ATTR_RESPONSE_ADDRESS :: uint16 where "SWITCH_STUN_ATTR_RESPONSE_ADDRESS = 0x0002"
definition SWITCH_STUN_ATTR_CHANGE_REQUEST :: uint16 where "SWITCH_STUN_ATTR_CHANGE_REQUEST = 0x0003"
definition SWITCH_STUN_ATTR_SOURCE_ADDRESS :: uint16 where "SWITCH_STUN_ATTR_SOURCE_ADDRESS = 0x0004"
definition SWITCH_STUN_ATTR_CHANGED_ADDRESS :: uint16 where "SWITCH_STUN_ATTR_CHANGED_ADDRESS = 0x0005"
definition SWITCH_STUN_ATTR_USERNAME :: uint16 where "SWITCH_STUN_ATTR_USERNAME = 0x0006"
definition SWITCH_STUN_ATTR_PASSWORD :: uint16 where "SWITCH_STUN_ATTR_PASSWORD = 0x0007"
definition SWITCH_STUN_ATTR_MESSAGE_INTEGRITY :: uint16 where "SWITCH_STUN_ATTR_MESSAGE_INTEGRITY = 0x0008"
definition SWITCH_STUN_ATTR_ERROR_CODE :: uint16 where "SWITCH_STUN_ATTR_ERROR_CODE = 0x0009"
definition SWITCH_STUN_ATTR_UNKNOWN_ATTRIBUTES :: uint16 where "SWITCH_STUN_ATTR_UNKNOWN_ATTRIBUTES = 0x000a"
definition SWITCH_STUN_ATTR_REFLECTED_FROM :: uint16 where "SWITCH_STUN_ATTR_REFLECTED_FROM = 0x000b"
definition SWITCH_STUN_ATTR_TRANSPORT_PREFERENCES :: uint16 where "SWITCH_STUN_ATTR_TRANSPORT_PREFERENCES = 0x000c"
definition SWITCH_STUN_ATTR_LIFETIME :: uint16 where "SWITCH_STUN_ATTR_LIFETIME = 0x000d"
definition SWITCH_STUN_ATTR_ALTERNATE_SERVER :: uint16 where "SWITCH_STUN_ATTR_ALTERNATE_SERVER = 0x000e"
definition SWITCH_STUN_ATTR_MAGIC_COOKIE :: uint16 where "SWITCH_STUN_ATTR_MAGIC_COOKIE = 0x000f"
definition SWITCH_STUN_ATTR_BANDWIDTH :: uint16 where "SWITCH_STUN_ATTR_BANDWIDTH = 0x0010"
definition SWITCH_STUN_ATTR_DESTINATION_ADDRESS :: uint16 where "SWITCH_STUN_ATTR_DESTINATION_ADDRESS = 0x0011"
definition SWITCH_STUN_ATTR_SOURCE_ADDRESS2 :: uint16 where "SWITCH_STUN_ATTR_SOURCE_ADDRESS2 = 0x0012"
definition SWITCH_STUN_ATTR_DATA :: uint16 where "SWITCH_STUN_ATTR_DATA = 0x0013"
definition SWITCH_STUN_ATTR_OPTIONS :: uint16 where "SWITCH_STUN_ATTR_OPTIONS = 0x8001"
definition SWITCH_STUN_ATTR_XOR_MAPPED_ADDRESS :: uint16 where "SWITCH_STUN_ATTR_XOR_MAPPED_ADDRESS = 0x0020"
definition SWITCH_STUN_ATTR_PRIORITY :: uint16 where "SWITCH_STUN_ATTR_PRIORITY = 0x0024"
definition SWITCH_STUN_ATTR_USE_CAND :: uint16 where "SWITCH_STUN_ATTR_USE_CAND = 0x0025"
definition SWITCH_STUN_ATTR_PADDING :: uint16 where "SWITCH_STUN_ATTR_PADDING = 0x0026"
definition SWITCH_STUN_ATTR_RESP_PORT :: uint16 where "SWITCH_STUN_ATTR_RESP_PORT = 0x0027"
definition SWITCH_STUN_ATTR_SOFTWARE :: uint16 where "SWITCH_STUN_ATTR_SOFTWARE = 0x8022"
definition SWITCH_STUN_ATTR_ALT_SERVER :: uint16 where "SWITCH_STUN_ATTR_ALT_SERVER = 0x8023"
definition SWITCH_STUN_ATTR_FINGERPRINT :: uint16 where "SWITCH_STUN_ATTR_FINGERPRINT = 0x8028"
definition SWITCH_STUN_ATTR_CONTROLLED :: uint16 where "SWITCH_STUN_ATTR_CONTROLLED = 0x8029"
definition SWITCH_STUN_ATTR_CONTROLLING :: uint16 where "SWITCH_STUN_ATTR_CONTROLLING = 0x802a"
definition SWITCH_STUN_ATTR_RESP_ORIGIN :: uint16 where "SWITCH_STUN_ATTR_RESP_ORIGIN = 0x802b"
definition SWITCH_STUN_ATTR_OTHER_ADDR :: uint16 where "SWITCH_STUN_ATTR_OTHER_ADDR = 0x802c"
definition SWITCH_STUN_ERROR_BAD_REQUEST :: uint32 where "SWITCH_STUN_ERROR_BAD_REQUEST = 400"
definition SWITCH_STUN_ERROR_UNAUTHORIZED :: uint32 where "SWITCH_STUN_ERROR_UNAUTHORIZED = 401"
definition SWITCH_STUN_ERROR_UNKNOWN_ATTRIBUTE :: uint32 where "SWITCH_STUN_ERROR_UNKNOWN_ATTRIBUTE = 420"
definition SWITCH_STUN_ERROR_STALE_CREDENTIALS :: uint32 where "SWITCH_STUN_ERROR_STALE_CREDENTIALS = 430"
definition SWITCH_STUN_ERROR_INTEGRITY_CHECK_FAILURE :: uint32 where "SWITCH_STUN_ERROR_INTEGRITY_CHECK_FAILURE = 431"
definition SWITCH_STUN_ERROR_MISSING_USERNAME :: uint32 where "SWITCH_STUN_ERROR_MISSING_USERNAME = 432"
definition SWITCH_STUN_ERROR_USE_TLS :: uint32 where "SWITCH_STUN_ERROR_USE_TLS = 433"
definition SWITCH_STUN_ERROR_SERVER_ERROR :: uint32 where "SWITCH_STUN_ERROR_SERVER_ERROR = 500"
definition SWITCH_STUN_ERROR_GLOBAL_FAILURE :: uint32 where "SWITCH_STUN_ERROR_GLOBAL_FAILURE = 600"

definition STUN_MAGIC_COOKIE :: uint32 where "STUN_MAGIC_COOKIE = 0x2112A442"

lemmas stun_constants = SWITCH_STUN_BINDING_REQUEST_def SWITCH_STUN_BINDING_RESPONSE_def SWITCH_STUN_BINDING_ERROR_RESPONSE_def SWITCH_STUN_SHARED_SECRET_REQUEST_def SWITCH_STUN_SHARED_SECRET_RESPONSE_def SWITCH_STUN_SHARED_SECRET_ERROR_RESPONSE_def SWITCH_STUN_ALLOCATE_REQUEST_def SWITCH_STUN_ALLOCATE_RESPONSE_def SWITCH_STUN_ALLOCATE_ERROR_RESPONSE_def SWITCH_STUN_SEND_REQUEST_def SWITCH_STUN_SEND_RESPONSE_def SWITCH_STUN_SEND_ERROR_RESPONSE_def SWITCH_STUN_DATA_INDICATION_def SWITCH_STUN_ATTR_MAPPED_ADDRESS_def SWITCH_STUN_ATTR_RESPONSE_ADDRESS_def SWITCH_STUN_ATTR_CHANGE_REQUEST_def SWITCH_STUN_ATTR_SOURCE_ADDRESS_def SWITCH_STUN_ATTR_CHANGED_ADDRESS_def SWITCH_STUN_ATTR_USERNAME_def SWITCH_STUN_ATTR_PASSWORD_def SWITCH_STUN_ATTR_MESSAGE_INTEGRITY_def SWITCH_STUN_ATTR_ERROR_CODE_def SWITCH_STUN_ATTR_UNKNOWN_ATTRIBUTES_def SWITCH_STUN_ATTR_REFLECTED_FROM_def SWITCH_STUN_ATTR_TRANSPORT_PREFERENCES_def SWITCH_STUN_ATTR_LIFETIME_def SWITCH_STUN_ATTR_ALTERNATE_SERVER_def SWITCH_STUN_ATTR_MAGIC_COOKIE_def SWITCH_STUN_ATTR_BANDWIDTH_def SWITCH_STUN_ATTR_DESTINATION_ADDRESS_def SWITCH_STUN_ATTR_SOURCE_ADDRESS2_def SWITCH_STUN_ATTR_DATA_def SWITCH_STUN_ATTR_OPTIONS_def SWITCH_STUN_ATTR_XOR_MAPPED_ADDRESS_def SWITCH_STUN_ATTR_PRIORITY_def SWITCH_STUN_ATTR_USE_CAND_def SWITCH_STUN_ATTR_PADDING_def SWITCH_STUN_ATTR_RESP_PORT_def SWITCH_STUN_ATTR_SOFTWARE_def SWITCH_STUN_ATTR_ALT_SERVER_def SWITCH_STUN_ATTR_FINGERPRINT_def SWITCH_STUN_ATTR_CONTROLLED_def SWITCH_STUN_ATTR_CONTROLLING_def SWITCH_STUN_ATTR_RESP_ORIGIN_def SWITCH_STUN_ATTR_OTHER_ADDR_def SWITCH_STUN_ERROR_BAD_REQUEST_def SWITCH_STUN_ERROR_UNAUTHORIZED_def SWITCH_STUN_ERROR_UNKNOWN_ATTRIBUTE_def SWITCH_STUN_ERROR_STALE_CREDENTIALS_def SWITCH_STUN_ERROR_INTEGRITY_CHECK_FAILURE_def SWITCH_STUN_ERROR_MISSING_USERNAME_def SWITCH_STUN_ERROR_USE_TLS_def SWITCH_STUN_ERROR_SERVER_ERROR_def SWITCH_STUN_ERROR_GLOBAL_FAILURE_def

definition PACKET_TYPES :: "(uint32 \<times> string) list" where
  "PACKET_TYPES = [
    (ucast SWITCH_STUN_BINDING_REQUEST, ''BINDING_REQUEST''),
    (ucast SWITCH_STUN_BINDING_RESPONSE, ''BINDING_RESPONSE''),
    (ucast SWITCH_STUN_BINDING_ERROR_RESPONSE, ''BINDING_ERROR_RESPONSE''),
    (ucast SWITCH_STUN_SHARED_SECRET_REQUEST, ''SHARED_SECRET_REQUEST''),
    (ucast SWITCH_STUN_SHARED_SECRET_RESPONSE, ''SHARED_SECRET_RESPONSE''),
    (ucast SWITCH_STUN_SHARED_SECRET_ERROR_RESPONSE, ''SHARED_SECRET_ERROR_RESPONSE''),
    (ucast SWITCH_STUN_ALLOCATE_REQUEST, ''ALLOCATE_REQUEST''),
    (ucast SWITCH_STUN_ALLOCATE_RESPONSE, ''ALLOCATE_RESPONSE''),
    (ucast SWITCH_STUN_ALLOCATE_ERROR_RESPONSE, ''ALLOCATE_ERROR_RESPONSE''),
    (ucast SWITCH_STUN_SEND_REQUEST, ''SEND_REQUEST''),
    (ucast SWITCH_STUN_SEND_RESPONSE, ''SEND_RESPONSE''),
    (ucast SWITCH_STUN_SEND_ERROR_RESPONSE, ''SEND_ERROR_RESPONSE''),
    (ucast SWITCH_STUN_DATA_INDICATION, ''DATA_INDICATION'')]"

definition ATTR_TYPES :: "(uint32 \<times> string) list" where
  "ATTR_TYPES = [
    (ucast SWITCH_STUN_ATTR_MAPPED_ADDRESS, ''MAPPED_ADDRESS''),
    (ucast SWITCH_STUN_ATTR_RESPONSE_ADDRESS, ''RESPONSE_ADDRESS''),
    (ucast SWITCH_STUN_ATTR_CHANGE_REQUEST, ''CHANGE_REQUEST''),
    (ucast SWITCH_STUN_ATTR_SOURCE_ADDRESS, ''SOURCE_ADDRESS''),
    (ucast SWITCH_STUN_ATTR_CHANGED_ADDRESS, ''CHANGED_ADDRESS''),
    (ucast SWITCH_STUN_ATTR_USERNAME, ''USERNAME''),
    (ucast SWITCH_STUN_ATTR_PASSWORD, ''PASSWORD''),
    (ucast SWITCH_STUN_ATTR_MESSAGE_INTEGRITY, ''MESSAGE_INTEGRITY''),
    (ucast SWITCH_STUN_ATTR_ERROR_CODE, ''ERROR_CODE''),
    (ucast SWITCH_STUN_ATTR_UNKNOWN_ATTRIBUTES, ''UNKNOWN_ATTRIBUTES''),
    (ucast SWITCH_STUN_ATTR_REFLECTED_FROM, ''REFLECTED_FROM''),
    (ucast SWITCH_STUN_ATTR_TRANSPORT_PREFERENCES, ''TRANSPORT_PREFERENCES''),
    (ucast SWITCH_STUN_ATTR_LIFETIME, ''LIFETIME''),
    (ucast SWITCH_STUN_ATTR_ALTERNATE_SERVER, ''ALTERNATE_SERVER''),
    (ucast SWITCH_STUN_ATTR_MAGIC_COOKIE, ''MAGIC_COOKIE''),
    (ucast SWITCH_STUN_ATTR_BANDWIDTH, ''BANDWIDTH''),
    (ucast SWITCH_STUN_ATTR_DESTINATION_ADDRESS, ''DESTINATION_ADDRESS''),
    (ucast SWITCH_STUN_ATTR_SOURCE_ADDRESS2, ''SOURCE_ADDRESS2''),
    (ucast SWITCH_STUN_ATTR_DATA, ''DATA''),
    (ucast SWITCH_STUN_ATTR_OPTIONS, ''OPTIONS'')]"

definition ERROR_TYPES :: "(uint32 \<times> string) list" where
  "ERROR_TYPES = [
    (SWITCH_STUN_ERROR_BAD_REQUEST, ''BAD_REQUEST''),
    (SWITCH_STUN_ERROR_UNAUTHORIZED, ''UNAUTHORIZED''),
    (SWITCH_STUN_ERROR_UNKNOWN_ATTRIBUTE, ''UNKNOWN_ATTRIBUTE''),
    (SWITCH_STUN_ERROR_STALE_CREDENTIALS, ''STALE_CREDENTIALS''),
    (SWITCH_STUN_ERROR_INTEGRITY_CHECK_FAILURE, ''INTEGRITY_CHECK_FAILURE''),
    (SWITCH_STUN_ERROR_MISSING_USERNAME, ''MISSING_USERNAME''),
    (SWITCH_STUN_ERROR_USE_TLS, ''USE_TLS''),
    (SWITCH_STUN_ERROR_SERVER_ERROR, ''SERVER_ERROR''),
    (SWITCH_STUN_ERROR_GLOBAL_FAILURE, ''GLOBAL_FAILURE'')]"

section \<open>Fields of a packet\<close>

definition peek :: "byte list \<Rightarrow> int \<Rightarrow> nat \<Rightarrow> fault + byte list" where
  "peek blk off n = (if off < 0 then Inl Out_of_bounds else mem_read blk (nat off) n)"

definition poke :: "byte list \<Rightarrow> int \<Rightarrow> byte list \<Rightarrow> fault + byte list" where
  "poke blk off bs = (if off < 0 then Inl Out_of_bounds else mem_write blk (nat off) bs)"

definition get16 :: "byte list \<Rightarrow> int \<Rightarrow> fault + uint16" where
  "get16 blk off = fbind (peek blk off 2) (\<lambda>bs. Inr (load_le bs))"

definition get32 :: "byte list \<Rightarrow> int \<Rightarrow> fault + uint32" where
  "get32 blk off = fbind (peek blk off 4) (\<lambda>bs. Inr (load_le bs))"

definition put16 :: "byte list \<Rightarrow> int \<Rightarrow> uint16 \<Rightarrow> fault + byte list" where
  "put16 blk off w = poke blk off (store_le 2 w)"

definition put32 :: "byte list \<Rightarrow> int \<Rightarrow> uint32 \<Rightarrow> fault + byte list" where
  "put32 blk off w = poke blk off (store_le 4 w)"

text \<open>\<open>ntohs\<close> and \<open>ntohl\<close> exchange the bytes; they are their own inverses \<open>htons\<close> and \<open>htonl\<close>.\<close>

definition ntohs :: "uint16 \<Rightarrow> uint16" where
  "ntohs w = load_le (rev (store_le 2 w))"

definition ntohl :: "uint32 \<Rightarrow> uint32" where
  "ntohl w = load_le (rev (store_le 4 w))"

text \<open>Turning a field around in place: the value in host order and the changed packet.\<close>

definition turn16 :: "byte list \<Rightarrow> int \<Rightarrow> fault + (uint16 \<times> byte list)" where
  "turn16 blk off = fbind (get16 blk off) (\<lambda>w. fbind (put16 blk off (ntohs w)) (\<lambda>blk1. Inr (ntohs w, blk1)))"

definition turn32 :: "byte list \<Rightarrow> int \<Rightarrow> fault + byte list" where
  "turn32 blk off = fbind (get32 blk off) (\<lambda>w. put32 blk off (ntohl w))"

section \<open>Parsing\<close>

text \<open>\<open>switch_stun_attribute_padded_length\<close>: the length rounded up to four, taken as a signed 16-bit value.\<close>

definition padded_length :: "uint16 \<Rightarrow> int" where
  "padded_length len = sint (if len AND 3 \<noteq> 0 then 4 + (len AND NOT 3) else len)"

definition valid_packet_type :: "uint16 \<Rightarrow> bool" where
  "valid_packet_type ty \<longleftrightarrow> ty \<in> {SWITCH_STUN_BINDING_REQUEST, SWITCH_STUN_BINDING_RESPONSE, SWITCH_STUN_BINDING_ERROR_RESPONSE,
     SWITCH_STUN_SHARED_SECRET_REQUEST, SWITCH_STUN_SHARED_SECRET_RESPONSE, SWITCH_STUN_SHARED_SECRET_ERROR_RESPONSE,
     SWITCH_STUN_ALLOCATE_REQUEST, SWITCH_STUN_ALLOCATE_RESPONSE, SWITCH_STUN_ALLOCATE_ERROR_RESPONSE,
     SWITCH_STUN_SEND_REQUEST, SWITCH_STUN_SEND_RESPONSE, SWITCH_STUN_SEND_ERROR_RESPONSE, SWITCH_STUN_DATA_INDICATION}"

definition address_attr :: "uint16 \<Rightarrow> bool" where
  "address_attr ty \<longleftrightarrow> ty \<in> {SWITCH_STUN_ATTR_MAPPED_ADDRESS, SWITCH_STUN_ATTR_XOR_MAPPED_ADDRESS, SWITCH_STUN_ATTR_RESPONSE_ADDRESS,
     SWITCH_STUN_ATTR_SOURCE_ADDRESS, SWITCH_STUN_ATTR_CHANGED_ADDRESS, SWITCH_STUN_ATTR_REFLECTED_FROM,
     SWITCH_STUN_ATTR_ALTERNATE_SERVER, SWITCH_STUN_ATTR_DESTINATION_ADDRESS, SWITCH_STUN_ATTR_PRIORITY}"

definition number_attr :: "uint16 \<Rightarrow> bool" where
  "number_attr ty \<longleftrightarrow> ty \<in> {SWITCH_STUN_ATTR_CHANGE_REQUEST, SWITCH_STUN_ATTR_LIFETIME, SWITCH_STUN_ATTR_BANDWIDTH, SWITCH_STUN_ATTR_OPTIONS}"

text \<open>The \<open>switch\<close> over the type of an attribute; false is the return of \<open>NULL\<close>.\<close>

definition convert_attribute :: "byte list \<Rightarrow> int \<Rightarrow> uint16 \<Rightarrow> uint16 \<Rightarrow> fault + (bool \<times> byte list)" where
  "convert_attribute blk attr ty len =
     (let value = attr + 4 in
      if address_attr ty then fbind (turn16 blk (value + 2)) (\<lambda>(_, blk1). Inr (True, blk1))
      else if ty = SWITCH_STUN_ATTR_SOURCE_ADDRESS2
      then fbind (peek blk (value + 1) 1) (\<lambda>family.
        if hd family \<noteq> 1 \<and> hd family \<noteq> 2 then Inr (False, blk)
        else if unat len \<noteq> (if hd family = 1 then 4 else 16) + 4 then Inr (False, blk)
        else fbind (turn16 blk (value + 2)) (\<lambda>(_, blk1). Inr (True, blk1)))
      else if number_attr ty
      then if len \<noteq> 4 then Inr (False, blk) else fbind (turn32 blk value) (\<lambda>blk1. Inr (True, blk1))
      else if ty = SWITCH_STUN_ATTR_ERROR_CODE then fbind (turn32 blk value) (\<lambda>blk1. Inr (True, blk1))
      else if ty = SWITCH_STUN_ATTR_MESSAGE_INTEGRITY then Inr (len = 20, blk)
      else if ty = SWITCH_STUN_ATTR_MAGIC_COOKIE then Inr (len = 4, blk)
      else if ty = SWITCH_STUN_ATTR_UNKNOWN_ATTRIBUTES then Inr (even (unat len), blk)
      else Inr (True, blk))"

text \<open>
  The loop over the attributes, followed for a number of rounds: the bytes left when it is done, or
  none when the packet is refused.
\<close>

fun parse_attributes :: "nat \<Rightarrow> uint32 \<Rightarrow> byte list \<Rightarrow> int \<Rightarrow> uint32 \<Rightarrow> int \<Rightarrow> fault + (uint32 option \<times> byte list)" where
  "parse_attributes 0 len blk attr bytes_left xlen = Inl Still_running"
| "parse_attributes (Suc n) len blk attr bytes_left xlen =
     fbind (turn16 blk (attr + 2)) (\<lambda>(alen, blk1).
     fbind (turn16 blk1 attr) (\<lambda>(ty, blk2).
       let left1 = bytes_left - 4; pad = padded_length alen in
       if sint left1 < pad then Inr (None, blk2)
       else fbind (convert_attribute blk2 attr ty alen) (\<lambda>(ok, blk3).
         if \<not> ok then Inr (None, blk3)
         else
           let left2 = left1 - of_int pad; xlen2 = xlen + 4 + pad; attr2 = attr + 4 + pad in
           if uint len < attr2 then Inr (Some left2, blk3)
           else fbind (get16 blk3 2) (\<lambda>hlen.
             if xlen2 < uint hlen then parse_attributes n len blk3 attr2 left2 xlen2 else Inr (Some left2, blk3)))))"

text \<open>The whole parser: whether it accepts, and the packet with its fields in host order.\<close>

definition switch_stun_packet_parse :: "nat \<Rightarrow> byte list \<Rightarrow> uint32 \<Rightarrow> fault + (bool \<times> byte list)" where
  "switch_stun_packet_parse rounds blk len =
     (if len < 20 then Inr (False, blk)
      else fbind (turn16 blk 0) (\<lambda>(ty, blk1). fbind (turn16 blk1 2) (\<lambda>(hlen, blk2).
        let bytes_left = len - 20 in
        if \<not> valid_packet_type ty then Inr (False, blk2)
        else if bytes_left = 0 then Inr (False, blk2)
        else if hlen = 0 then Inr (False, blk2)
        else if bytes_left < 8 then Inr (False, blk2)
        else fbind (parse_attributes rounds len blk2 20 bytes_left 0) (\<lambda>(res, blk3).
          case res of None \<Rightarrow> Inr (False, blk3)
          | Some left \<Rightarrow> fbind (get16 blk3 2) (\<lambda>hlen1.
              if len - left < ucast hlen1 + 20
              then fbind (put16 blk3 2 (ucast (len - left - 20))) (\<lambda>blk4. Inr (True, blk4))
              else Inr (True, blk3))))))"

definition switch_stun_value_to_name :: "nat \<Rightarrow> uint32 \<Rightarrow> string" where
  "switch_stun_value_to_name ty value =
     (let m = (if ty = 0 then PACKET_TYPES else if ty = 1 then ATTR_TYPES else if ty = 2 then ERROR_TYPES else []) in
      case List.find (\<lambda>(v, _). v = value) m of None \<Rightarrow> ''INVALID'' | Some (_, name) \<Rightarrow> name)"

section \<open>Reading attributes\<close>

definition ip_string :: "byte list \<Rightarrow> string" where
  "ip_string bs = concat (map (\<lambda>x. decimal (unat (bs ! x)) @ (if x = 3 then [] else ''.'')) [0..<4])"

definition switch_stun_packet_attribute_get_mapped_address :: "byte list \<Rightarrow> int \<Rightarrow> fault + (string \<times> uint16)" where
  "switch_stun_packet_attribute_get_mapped_address blk attr =
     (let ip = attr + 4 in
      fbind (peek blk (ip + 4) 4) (\<lambda>i. fbind (get16 blk (ip + 2)) (\<lambda>port. Inr (ip_string i, port))))"

definition switch_stun_packet_attribute_get_xor_mapped_address ::
    "byte list \<Rightarrow> int \<Rightarrow> uint32 \<Rightarrow> fault + (string \<times> uint16 \<times> byte list)" where
  "switch_stun_packet_attribute_get_xor_mapped_address blk attr cookie =
     (let ip = attr + 4 in
      fbind (get32 blk (ip + 4)) (\<lambda>address. fbind (put32 blk (ip + 4) (address XOR cookie)) (\<lambda>blk1.
      fbind (peek blk1 (ip + 4) 4) (\<lambda>i. fbind (get16 blk1 (ip + 2)) (\<lambda>p.
        let port = p XOR ucast (drop_bit 16 (ntohl cookie)) in
        fbind (put16 blk1 (ip + 2) port) (\<lambda>blk2. Inr (ip_string i, port, blk2)))))))"

text \<open>The bytes copied into the buffer for the user name, which has room for \<open>len\<close> bytes.\<close>

definition switch_stun_packet_attribute_get_username :: "byte list \<Rightarrow> int \<Rightarrow> uint16 \<Rightarrow> fault + byte list" where
  "switch_stun_packet_attribute_get_username blk attr len =
     fbind (get16 blk (attr + 2)) (\<lambda>alen. peek blk (attr + 4) (unat (if alen < len then alen else len)))"

section \<open>Building packets\<close>

text \<open>Random strings: \<open>pick x max\<close> is the index, below \<open>max\<close>, drawn for the character \<open>x\<close>.\<close>

definition random_chars :: string where
  "random_chars = ''abcdefghijklmnopqrstuvwxyzABCDEFGHIJKLMNOPQRSTUVWXYZ0123456789''"

definition switch_stun_random_string :: "(nat \<Rightarrow> nat \<Rightarrow> nat) \<Rightarrow> nat \<Rightarrow> string option \<Rightarrow> byte list" where
  "switch_stun_random_string pick len set0 =
     (let cs = (case set0 of None \<Rightarrow> random_chars | Some cs \<Rightarrow> cs)
      in map (\<lambda>x. of_nat (of_char (cs ! pick x (length cs)))) [0..<len])"

text \<open>Copying \<open>n\<close> bytes out of a string of the caller.\<close>

definition copy_bytes :: "byte list \<Rightarrow> nat \<Rightarrow> fault + byte list" where
  "copy_bytes cs n = mem_read cs 0 n"

definition switch_stun_packet_build_header :: "(nat \<Rightarrow> nat \<Rightarrow> nat) \<Rightarrow> uint16 \<Rightarrow> byte list option \<Rightarrow> byte list \<Rightarrow> fault + byte list" where
  "switch_stun_packet_build_header pick ty ident blk =
     fbind (put16 blk 0 (ntohs ty)) (\<lambda>b1. fbind (put16 b1 2 0) (\<lambda>b2. fbind (put32 b2 4 (ntohl STUN_MAGIC_COOKIE)) (\<lambda>b3.
     fbind (case ident of Some cs \<Rightarrow> copy_bytes cs 12 | None \<Rightarrow> Inr (switch_stun_random_string pick 12 None)) (\<lambda>cs. poke b3 8 cs))))"

text \<open>
  What every addition does: the new attribute stands behind those the header counts, it gets its type
  and its length, and the length of the header, which stays in network order, is increased.
\<close>

definition next_slot :: "byte list \<Rightarrow> fault + int" where
  "next_slot blk = fbind (get16 blk 2) (\<lambda>hlen. Inr (20 + uint (ntohs hlen)))"

definition start_attribute :: "uint16 \<Rightarrow> uint16 \<Rightarrow> byte list \<Rightarrow> int \<Rightarrow> fault + byte list" where
  "start_attribute ty len blk attr = fbind (put16 blk attr (ntohs ty)) (\<lambda>b1. put16 b1 (attr + 2) (ntohs len))"

definition count_attribute :: "uint16 \<Rightarrow> byte list \<Rightarrow> int \<Rightarrow> fault + byte list" where
  "count_attribute padding blk attr =
     fbind (get16 blk 2) (\<lambda>hlen. fbind (get16 blk (attr + 2)) (\<lambda>alen. put16 blk 2 (hlen + (ntohs (4 + padding) + alen))))"

definition add_value :: "uint16 \<Rightarrow> byte list \<Rightarrow> uint16 \<Rightarrow> byte list \<Rightarrow> fault + byte list" where
  "add_value ty value padding blk =
     fbind (next_slot blk) (\<lambda>attr. fbind (start_attribute ty (of_nat (length value)) blk attr) (\<lambda>b1.
       fbind (poke b1 (attr + 4) value) (\<lambda>b2. count_attribute padding b2 attr)))"

text \<open>The bytes of a dotted address that are written, at most four.\<close>

fun dotted :: "nat \<Rightarrow> string \<Rightarrow> byte list" where
  "dotted 0 p = []"
| "dotted (Suc n) p =
     of_int (atoi p) # (case dropWhile (\<lambda>c. c \<noteq> CHR ''.'') p of [] \<Rightarrow> [] | _ # q \<Rightarrow> dotted n q)"

definition write_address :: "uint16 \<Rightarrow> string \<Rightarrow> byte list \<Rightarrow> int \<Rightarrow> fault + byte list" where
  "write_address netport ipstr blk value =
     fbind (put16 blk (value + 2) netport) (\<lambda>b1. fbind (poke b1 (value + 1) [1]) (\<lambda>b2.
       poke b2 (value + 4) (dotted 4 ipstr)))"

definition switch_stun_packet_attribute_add_binded_address :: "string \<Rightarrow> uint16 \<Rightarrow> byte list \<Rightarrow> fault + byte list" where
  "switch_stun_packet_attribute_add_binded_address ipstr port blk =
     fbind (next_slot blk) (\<lambda>attr. fbind (start_attribute SWITCH_STUN_ATTR_MAPPED_ADDRESS 8 blk attr) (\<lambda>b1.
       fbind (write_address (ntohs port) ipstr b1 (attr + 4)) (\<lambda>b2. count_attribute 0 b2 attr)))"

definition switch_stun_packet_attribute_add_xor_binded_address :: "string \<Rightarrow> uint16 \<Rightarrow> byte list \<Rightarrow> fault + byte list" where
  "switch_stun_packet_attribute_add_xor_binded_address ipstr port blk =
     fbind (next_slot blk) (\<lambda>attr. fbind (start_attribute SWITCH_STUN_ATTR_XOR_MAPPED_ADDRESS 8 blk attr) (\<lambda>b1.
       fbind (write_address (ntohs (port XOR ucast (drop_bit 16 STUN_MAGIC_COOKIE))) ipstr b1 (attr + 4)) (\<lambda>b2.
       fbind (get32 b2 (attr + 8)) (\<lambda>address.
       fbind (put32 b2 (attr + 8) (ntohl (ntohl address XOR STUN_MAGIC_COOKIE))) (\<lambda>b3. count_attribute 0 b3 attr)))))"

definition switch_stun_packet_attribute_add_priority :: "uint32 \<Rightarrow> byte list \<Rightarrow> fault + byte list" where
  "switch_stun_packet_attribute_add_priority priority blk =
     add_value SWITCH_STUN_ATTR_PRIORITY (store_le 4 (ntohl priority)) 0 blk"

text \<open>\<open>hmac pass data\<close> is the HMAC-SHA1 of OpenSSL, twenty bytes.\<close>

definition switch_stun_packet_attribute_add_integrity :: "(byte list \<Rightarrow> byte list \<Rightarrow> byte list) \<Rightarrow> byte list \<Rightarrow> byte list \<Rightarrow> fault + byte list" where
  "switch_stun_packet_attribute_add_integrity hmac pass blk =
     fbind (next_slot blk) (\<lambda>attr. fbind (start_attribute SWITCH_STUN_ATTR_MESSAGE_INTEGRITY 20 blk attr) (\<lambda>b1.
       fbind (count_attribute 0 b1 attr) (\<lambda>b2. fbind (peek b2 0 (unat (of_int attr :: uint16))) (\<lambda>data. poke b2 (attr + 4) (hmac pass data)))))"

definition switch_stun_packet_attribute_add_fingerprint :: "byte list \<Rightarrow> fault + byte list" where
  "switch_stun_packet_attribute_add_fingerprint blk =
     fbind (next_slot blk) (\<lambda>attr. fbind (start_attribute SWITCH_STUN_ATTR_FINGERPRINT 4 blk attr) (\<lambda>b1.
       fbind (count_attribute 0 b1 attr) (\<lambda>b2. fbind (switch_crc32_8bytes b2 (unat (of_int attr :: uint16))) (\<lambda>crc.
         put32 b2 (attr + 4) (ntohl (crc XOR 0x5354554e))))))"

definition switch_stun_packet_attribute_add_use_candidate :: "byte list \<Rightarrow> fault + byte list" where
  "switch_stun_packet_attribute_add_use_candidate blk = add_value SWITCH_STUN_ATTR_USE_CAND [] 0 blk"

definition switch_stun_packet_attribute_add_controlling :: "(nat \<Rightarrow> nat \<Rightarrow> nat) \<Rightarrow> byte list \<Rightarrow> fault + byte list" where
  "switch_stun_packet_attribute_add_controlling pick blk =
     add_value SWITCH_STUN_ATTR_CONTROLLING (switch_stun_random_string pick 8 None) 0 blk"

definition switch_stun_packet_attribute_add_controlled :: "(nat \<Rightarrow> nat \<Rightarrow> nat) \<Rightarrow> byte list \<Rightarrow> fault + byte list" where
  "switch_stun_packet_attribute_add_controlled pick blk =
     add_value SWITCH_STUN_ATTR_CONTROLLED (switch_stun_random_string pick 8 None) 0 blk"

text \<open>User name, software and password: \<open>ulen\<close> bytes of a string, or a random one.\<close>

definition add_text :: "uint16 \<Rightarrow> (nat \<Rightarrow> nat \<Rightarrow> nat) \<Rightarrow> byte list option \<Rightarrow> uint16 \<Rightarrow> byte list \<Rightarrow> fault + byte list" where
  "add_text ty pick txt ulen blk =
     (let m = unat ulen mod 4; padding = (if m \<noteq> 0 then 4 - m else 0) in
      fbind (case txt of Some cs \<Rightarrow> copy_bytes cs (unat ulen) | None \<Rightarrow> Inr (switch_stun_random_string pick (unat ulen) None)) (\<lambda>cs.
        add_value ty cs (of_nat padding) blk))"

definition switch_stun_packet_attribute_add_username :: "(nat \<Rightarrow> nat \<Rightarrow> nat) \<Rightarrow> byte list option \<Rightarrow> uint16 \<Rightarrow> byte list \<Rightarrow> fault + byte list" where
  "switch_stun_packet_attribute_add_username = add_text SWITCH_STUN_ATTR_USERNAME"

definition switch_stun_packet_attribute_add_software :: "(nat \<Rightarrow> nat \<Rightarrow> nat) \<Rightarrow> byte list option \<Rightarrow> uint16 \<Rightarrow> byte list \<Rightarrow> fault + byte list" where
  "switch_stun_packet_attribute_add_software = add_text SWITCH_STUN_ATTR_SOFTWARE"

definition switch_stun_packet_attribute_add_password :: "(nat \<Rightarrow> nat \<Rightarrow> nat) \<Rightarrow> byte list option \<Rightarrow> uint16 \<Rightarrow> byte list \<Rightarrow> fault + byte list" where
  "switch_stun_packet_attribute_add_password = add_text SWITCH_STUN_ATTR_PASSWORD"

section \<open>The connectivity checks of ICE\<close>

text \<open>
  The packets of src/switch\_rtp.c: \<open>ice_request\<close> is what \<open>ice_out\<close> builds in its buffer of 256 bytes and
  \<open>ice_response\<close> what \<open>handle_ice\<close> answers, from its buffer of 512 bytes; both return the bytes that are
  sent. The random characters are drawn from \<open>pick\<close>, first the transaction id and then the tie breaker.
\<close>

definition ice_request :: "(nat \<Rightarrow> nat \<Rightarrow> nat) \<Rightarrow> (byte list \<Rightarrow> byte list \<Rightarrow> byte list) \<Rightarrow> bool \<Rightarrow> bool \<Rightarrow> byte list \<Rightarrow> uint32 \<Rightarrow> byte list \<Rightarrow> byte list \<Rightarrow> fault + byte list" where
  "ice_request pick hmac vanilla controlled user priority sw rpass =
     fbind (switch_stun_packet_build_header pick SWITCH_STUN_BINDING_REQUEST None (replicate 256 0)) (\<lambda>b1.
     fbind (switch_stun_packet_attribute_add_username pick (Some user) (of_nat (length user)) b1) (\<lambda>b2.
     fbind (if \<not> vanilla then Inr b2
       else fbind (switch_stun_packet_attribute_add_priority priority b2) (\<lambda>b3.
         fbind (switch_stun_packet_attribute_add_software pick (Some sw) (of_nat (length sw)) b3) (\<lambda>b4.
         fbind (if controlled then switch_stun_packet_attribute_add_controlled (\<lambda>x. pick (x + 12)) b4
           else fbind (switch_stun_packet_attribute_add_controlling (\<lambda>x. pick (x + 12)) b4) switch_stun_packet_attribute_add_use_candidate) (\<lambda>b5.
         fbind (switch_stun_packet_attribute_add_integrity hmac rpass b5) switch_stun_packet_attribute_add_fingerprint)))) (\<lambda>b6.
     fbind (next_slot b6) (\<lambda>bytes. peek b6 0 (nat bytes)))))"

definition ice_response :: "(byte list \<Rightarrow> byte list \<Rightarrow> byte list) \<Rightarrow> bool \<Rightarrow> bool \<Rightarrow> byte list \<Rightarrow> byte list \<Rightarrow> string \<Rightarrow> uint16 \<Rightarrow> byte list \<Rightarrow> fault + byte list" where
  "ice_response hmac vanilla jingle ident username remote_ip port pass =
     fbind (switch_stun_packet_build_header (\<lambda>_ _. 0) SWITCH_STUN_BINDING_RESPONSE (Some ident) (replicate 512 0)) (\<lambda>b1.
     fbind (if jingle then switch_stun_packet_attribute_add_username (\<lambda>_ _. 0) (Some username) (of_nat (length username)) b1 else Inr b1) (\<lambda>b2.
     fbind (switch_stun_packet_attribute_add_xor_binded_address remote_ip port b2) (\<lambda>b3.
     fbind (if vanilla then fbind (switch_stun_packet_attribute_add_integrity hmac pass b3) switch_stun_packet_attribute_add_fingerprint else Inr b3) (\<lambda>b4.
     fbind (next_slot b4) (\<lambda>bytes. peek b4 0 (nat bytes))))))"

section \<open>Looking up the public address\<close>

text \<open>
  \<open>switch_stun_packet_next_attribute\<close>: the next attribute, if the walk goes on. The step to the end of
  that attribute counts in units of an attribute header, four bytes, as the pointer arithmetic does.
\<close>

definition switch_stun_packet_next_attribute :: "byte list \<Rightarrow> int \<Rightarrow> int \<Rightarrow> fault + (bool \<times> int)" where
  "switch_stun_packet_next_attribute blk attr end =
     fbind (get16 blk (attr + 2)) (\<lambda>len.
       let attr1 = attr + 4 + padded_length len in
       if \<not> attr1 < end then Inr (False, attr1)
       else fbind (get16 blk attr1) (\<lambda>ty.
         if ty = 0 then Inr (False, attr1)
         else fbind (get16 blk (attr1 + 2)) (\<lambda>len1. Inr (attr1 + 4 * padded_length len1 < end, attr1))))"

record stun_result =
  sr_ip :: string
  sr_port :: uint16
  sr_username :: "byte list"

definition visit_attribute :: "bool \<Rightarrow> byte list \<Rightarrow> int \<Rightarrow> stun_result \<Rightarrow> fault + (byte list \<times> stun_result)" where
  "visit_attribute funny blk attr r =
     fbind (get16 blk attr) (\<lambda>ty.
       if ty = SWITCH_STUN_ATTR_MAPPED_ADDRESS
       then fbind (if funny then fbind (get32 blk (attr + 8)) (\<lambda>a. put32 blk (attr + 8) (a XOR ntohl 0xabcdabcd)) else Inr blk) (\<lambda>b1.
         fbind (switch_stun_packet_attribute_get_mapped_address b1 attr) (\<lambda>(ip, port). Inr (b1, r\<lparr>sr_ip := ip, sr_port := port\<rparr>)))
       else if ty = SWITCH_STUN_ATTR_XOR_MAPPED_ADDRESS
       then fbind (get32 blk 4) (\<lambda>cookie.
         fbind (switch_stun_packet_attribute_get_xor_mapped_address blk attr cookie) (\<lambda>(ip, port, b1).
           Inr (b1, r\<lparr>sr_ip := ip, sr_port := port\<rparr>)))
       else if ty = SWITCH_STUN_ATTR_USERNAME
       then fbind (switch_stun_packet_attribute_get_username blk attr 32) (\<lambda>name.
         Inr (blk, r\<lparr>sr_username := name @ drop (length name) (sr_username r)\<rparr>))
       else Inr (blk, r))"

text \<open>The walk over the attributes of a parsed packet, up to the offset \<open>end\<close>, followed for a number of rounds.\<close>

fun walk_attributes :: "nat \<Rightarrow> bool \<Rightarrow> byte list \<Rightarrow> int \<Rightarrow> int \<Rightarrow> int \<Rightarrow> stun_result \<Rightarrow> fault + (byte list \<times> stun_result)" where
  "walk_attributes 0 funny blk attr end xlen r = Inl Still_running"
| "walk_attributes (Suc n) funny blk attr end xlen r =
     fbind (visit_attribute funny blk attr r) (\<lambda>(b1, r1).
     fbind (switch_stun_packet_next_attribute b1 attr end) (\<lambda>(more, attr1).
       if \<not> more then Inr (b1, r1)
       else fbind (get16 b1 (attr1 + 2)) (\<lambda>len. fbind (get16 b1 2) (\<lambda>hlen.
         let xlen1 = xlen + 4 + padded_length len in
         if xlen1 \<le> uint hlen then walk_attributes n funny b1 attr1 end xlen1 r1 else Inr (b1, r1)))))"

text \<open>
  The lookup. The environment gives the results of the socket calls: \<open>le_receive k\<close> is the datagram of
  the attempt \<open>k\<close>, if there is one, and \<open>le_elapsed k\<close> the milliseconds that have passed after it.
\<close>

datatype stun_status = Stun_success | Stun_false string | Stun_timeout

record lookup_env =
  le_local :: bool
  le_remote :: bool
  le_socket :: bool
  le_bind :: bool
  le_pick :: "nat \<Rightarrow> nat \<Rightarrow> nat"
  le_receive :: "nat \<Rightarrow> byte list option"
  le_elapsed :: "nat \<Rightarrow> nat"

fun await_reply :: "lookup_env \<Rightarrow> nat \<Rightarrow> nat \<Rightarrow> fault + byte list option" where
  "await_reply E 0 k = Inl Still_running"
| "await_reply E (Suc n) k =
     (case le_receive E k of
        Some (b # bs) \<Rightarrow> Inr (Some (take 260 (b # bs)))
      | _ \<Rightarrow> if 5000 < le_elapsed E k then Inr None else await_reply E n (Suc k))"

text \<open>The random user name, drawn after the twelve characters of the transaction id.\<close>

definition lookup_username :: "lookup_env \<Rightarrow> byte list" where
  "lookup_username E = switch_stun_random_string (\<lambda>x. le_pick E (x + 12)) 32 None"

text \<open>The bytes of the request as they are sent, and the buffer they are built in.\<close>

definition stun_request :: "lookup_env \<Rightarrow> bool \<Rightarrow> fault + (byte list \<times> byte list)" where
  "stun_request E funny =
     (let start = (if funny then 4 else 0); front = (if funny then [0, 0, 0x22, 0x22] else []) in
      fbind (switch_stun_packet_build_header (le_pick E) SWITCH_STUN_BINDING_REQUEST None (replicate (260 - start) 0)) (\<lambda>b1.
      fbind (switch_stun_packet_attribute_add_username (le_pick E) (Some (lookup_username E)) 32 b1) (\<lambda>b2.
      fbind (next_slot b2) (\<lambda>bytes.
        let buf = front @ b2 in
        if funny then fbind (poke buf (bytes + 4) [0, 0, 0, 0]) (\<lambda>buf1. Inr (take (nat bytes + 8) buf1, buf1))
        else Inr (take (nat bytes) buf, buf)))))"

text \<open>What is made of the buffer the reply has been received into.\<close>

definition stun_reply :: "nat \<Rightarrow> bool \<Rightarrow> byte list \<Rightarrow> stun_result \<Rightarrow> fault + (stun_status \<times> string option \<times> uint16)" where
  "stun_reply rounds funny buf r =
     (let start = (if funny then 4 else 0) in
      fbind (switch_stun_packet_parse rounds (drop start buf) (of_nat (260 - start))) (\<lambda>(ok, blk).
        if \<not> ok then Inr (Stun_false ''Invalid STUN/ICE packet'', None, 0)
        else fbind (get16 blk 2) (\<lambda>hlen.
          let end = (if uint hlen < 260 then uint hlen else 260) - int start in
          fbind (walk_attributes rounds funny blk 20 end 20 r) (\<lambda>(blk1, r1).
          fbind (get16 blk1 0) (\<lambda>ty.
            if ty = SWITCH_STUN_BINDING_RESPONSE then Inr (Stun_success, Some (sr_ip r1), sr_port r1)
            else Inr (Stun_false ''Invalid Reply'', None, 0))))))"

definition switch_stun_lookup :: "lookup_env \<Rightarrow> nat \<Rightarrow> bool \<Rightarrow> string \<Rightarrow> uint16 \<Rightarrow> fault + (stun_status \<times> string option \<times> uint16)" where
  "switch_stun_lookup E rounds funny ip port =
     (if \<not> le_local E then Inr (Stun_false ''Local Address Error!'', Some ip, port)
      else if \<not> le_remote E then Inr (Stun_false ''Remote Address Error!'', Some ip, port)
      else if \<not> le_socket E then Inr (Stun_false ''Socket Error!'', Some ip, port)
      else if \<not> le_bind E then Inr (Stun_false ''Bind Error!'', Some ip, port)
      else fbind (stun_request E funny) (\<lambda>(sent, buf).
        fbind (await_reply E rounds 0) (\<lambda>reply.
          case reply of None \<Rightarrow> Inr (Stun_timeout, None, 0)
          | Some bs \<Rightarrow> stun_reply rounds funny (bs @ drop (length bs) buf)
              \<lparr>sr_ip = [], sr_port = 0, sr_username = lookup_username E @ [0]\<rparr>)))"

end
