(* ===== verification/Stun_Parse.thy ===== *)
theory Stun_Parse
  imports Stun
begin

text \<open>
  What parsing guarantees: well-formed packets are accepted within one round per attribute and their
  fields turned to host order, packets are parsed back as they were built, and the packets on which the
  parser leaves the buffer or never returns.
\<close>

unbundle bit_operations_syntax

section \<open>Fields in a split packet\<close>

lemma peek_at: "off = int (length pre) \<Longrightarrow> n = length x \<Longrightarrow> peek (pre @ x @ post) off n = Inr x"
  by (simp add: peek_def mem_read_def)

lemma poke_at: "off = int (length pre) \<Longrightarrow> length y = length x \<Longrightarrow> poke (pre @ x @ post) off y = Inr (pre @ y @ post)"
  by (simp add: poke_def mem_write_def)

lemma ntohs_twice [simp]: "ntohs (ntohs w) = w"
  using store_load_le [of "rev (store_le 2 w)", where 'a = 16] load_store_le [of 2 w] by (simp add: ntohs_def)

lemma ntohl_twice [simp]: "ntohl (ntohl w) = w"
  using store_load_le [of "rev (store_le 4 w)", where 'a = 32] load_store_le [of 4 w] by (simp add: ntohl_def)

text \<open>Sixteen and thirty-two bits in network order.\<close>

definition be16 :: "uint16 \<Rightarrow> byte list" where
  "be16 w = rev (store_le 2 w)"

definition be32 :: "uint32 \<Rightarrow> byte list" where
  "be32 w = rev (store_le 4 w)"

lemma be_length [simp]: "length (be16 w) = 2" "length (be32 w') = 4"
  by (simp_all add: be16_def be32_def)

lemma store_ntohs: "store_le 2 (ntohs w) = be16 w"
  using store_load_le [of "be16 w", where 'a = 16] by (simp add: ntohs_def be16_def)

lemma store_ntohl: "store_le 4 (ntohl w) = be32 w"
  using store_load_le [of "be32 w", where 'a = 32] by (simp add: ntohl_def be32_def)

lemma load_be16: "load_le (be16 w) = ntohs w"
  by (simp add: be16_def ntohs_def)

lemma load_be32: "load_le (be32 w) = ntohl w"
  by (simp add: be32_def ntohl_def)

lemma get16_be: "off = int (length pre) \<Longrightarrow> get16 (pre @ be16 w @ post) off = Inr (ntohs w)"
  by (simp add: get16_def peek_at load_be16)

lemma get16_host: "off = int (length pre) \<Longrightarrow> get16 (pre @ store_le 2 w @ post) off = Inr w"
  using load_store_le [of 2 w] by (simp add: get16_def peek_at)

lemma get32_at: "off = int (length pre) \<Longrightarrow> length x = 4 \<Longrightarrow> get32 (pre @ x @ post) off = Inr (load_le x)"
  by (simp add: get32_def peek_at)

lemma put16_at: "off = int (length pre) \<Longrightarrow> length x = 2 \<Longrightarrow> put16 (pre @ x @ post) off w = Inr (pre @ store_le 2 w @ post)"
  by (simp add: put16_def poke_at)

lemma put32_at: "off = int (length pre) \<Longrightarrow> length x = 4 \<Longrightarrow> put32 (pre @ x @ post) off w = Inr (pre @ store_le 4 w @ post)"
  by (simp add: put32_def poke_at)

lemma turn16_be: "off = int (length pre) \<Longrightarrow> turn16 (pre @ be16 w @ post) off = Inr (w, pre @ store_le 2 w @ post)"
  by (simp add: turn16_def get16_be put16_at)

lemma turn16_bytes:
  assumes "off = int (length pre)" "length x = 2"
  shows "turn16 (pre @ x @ post) off = Inr (load_le (rev x), pre @ rev x @ post)"
proof -
  have s: "store_le 2 (load_le (rev x) :: uint16) = rev x" using store_load_le [of "rev x", where 'a = 16] assms(2) by simp
  then have "x = be16 (load_le (rev x))" by (simp add: be16_def)
  then show ?thesis using turn16_be [OF assms(1), of "load_le (rev x)"] s by simp
qed

lemma turn32_bytes:
  assumes "off = int (length pre)" "length x = 4"
  shows "turn32 (pre @ x @ post) off = Inr (pre @ rev x @ post)"
proof -
  have "store_le 4 (ntohl (load_le x)) = rev x"
    using store_load_le [of x, where 'a = 32] assms(2) by (simp add: store_ntohl be32_def)
  then show ?thesis using assms by (simp add: turn32_def get32_def peek_at put32_at)
qed

section \<open>Well-formed packets\<close>

text \<open>An attribute is its type, its value and the padding up to a multiple of four.\<close>

type_synonym item = "uint16 \<times> byte list \<times> byte list"

definition item_size :: "item \<Rightarrow> nat" where
  "item_size i = (case i of (ty, v, pad) \<Rightarrow> 4 + length v + length pad)"

definition wire :: "item \<Rightarrow> byte list" where
  "wire i = (case i of (ty, v, pad) \<Rightarrow> be16 ty @ be16 (of_nat (length v)) @ v @ pad)"

definition turn_port :: "byte list \<Rightarrow> byte list" where
  "turn_port v = take 2 v @ rev (take 2 (drop 2 v)) @ drop 4 v"

definition host_value :: "uint16 \<Rightarrow> byte list \<Rightarrow> byte list" where
  "host_value ty v =
     (if address_attr ty \<or> ty = SWITCH_STUN_ATTR_SOURCE_ADDRESS2 then turn_port v
      else if number_attr ty \<or> ty = SWITCH_STUN_ATTR_ERROR_CODE then rev (take 4 v) @ drop 4 v
      else v)"

definition host :: "item \<Rightarrow> byte list" where
  "host i = (case i of (ty, v, pad) \<Rightarrow> store_le 2 ty @ store_le 2 (of_nat (length v) :: uint16) @ host_value ty v @ pad)"

definition good_item :: "item \<Rightarrow> bool" where
  "good_item i = (case i of (ty, v, pad) \<Rightarrow>
     length v \<le> 0x7FFC \<and> length pad < 4 \<and> (length v + length pad) mod 4 = 0 \<and>
     (address_attr ty \<longrightarrow> 4 \<le> length v) \<and>
     (ty = SWITCH_STUN_ATTR_SOURCE_ADDRESS2 \<longrightarrow> (length v = 8 \<and> v ! 1 = 1) \<or> (length v = 20 \<and> v ! 1 = 2)) \<and>
     (number_attr ty \<longrightarrow> length v = 4) \<and> (ty = SWITCH_STUN_ATTR_ERROR_CODE \<longrightarrow> 4 \<le> length v) \<and>
     (ty = SWITCH_STUN_ATTR_MESSAGE_INTEGRITY \<longrightarrow> length v = 20) \<and> (ty = SWITCH_STUN_ATTR_MAGIC_COOKIE \<longrightarrow> length v = 4) \<and>
     (ty = SWITCH_STUN_ATTR_UNKNOWN_ATTRIBUTES \<longrightarrow> even (length v)))"

lemma sint_small: "m < 2 ^ 31 \<Longrightarrow> sint (of_nat m :: uint32) = int m" "m < 2 ^ 15 \<Longrightarrow> sint (of_nat m :: uint16) = int m"
  by (simp_all add: signed_of_nat signed_take_bit_int_eq_self)

lemma split_mask: "x = (x AND NOT m) + (x AND m)" for x m :: uint16
  by (subst disjunctive_add_eq_or) (auto simp: bit_eq_iff bit_and_iff bit_or_iff bit_not_iff)

lemma padded_good:
  assumes "n \<le> 0x7FFC" "p < 4" "(n + p) mod 4 = 0"
  shows "padded_length (of_nat n) = int (n + p)"
proof -
  let ?w = "of_nat n :: uint16"
  have n: "n + p \<le> 0x7FFC" using assms by presburger
  have three: "?w AND 3 = of_nat (n mod 4)"
    using take_bit_eq_mask [of 2 ?w] take_bit_of_nat [of 2 n, where 'a = "uint16"] by (simp add: mask_eq_exp_minus_1 take_bit_eq_mod)
  have z: "?w AND 3 = 0 \<longleftrightarrow> n mod 4 = 0"
    unfolding three by (simp add: word_unat_eq_iff unat_of_nat take_bit_eq_mod)
  have "?w AND NOT 3 = ?w - (?w AND 3)" using split_mask [of ?w 3, symmetric] by (simp only: eq_diff_eq)
  also have "\<dots> = of_nat (n - n mod 4)" unfolding three by (simp add: of_nat_diff)
  finally have high: "?w AND NOT 3 = of_nat (n - n mod 4)" .
  have "(n mod 4 + p) mod 4 = 0" using assms(3) by (simp add: mod_add_left_eq)
  moreover have "n mod 4 + p < 8" using assms(2) mod_less_divisor [of 4 n] by linarith
  ultimately have "n mod 4 + p = 0 \<or> n mod 4 + p = 4" by presburger
  then have np: "n + p = (if n mod 4 = 0 then n else 4 + (n - n mod 4))" using assms(2) mod_less_eq_dividend [of n 4] by auto
  have "(if ?w AND 3 \<noteq> 0 then 4 + (?w AND NOT 3) else ?w) = (of_nat (n + p) :: uint16)"
    unfolding z high np by simp
  then have "padded_length ?w = sint (of_nat (n + p) :: uint16)" by (simp only: padded_length_def)
  also have "\<dots> = int (n + p)" by (rule sint_small(2)) (use n in simp)
  finally show ?thesis .
qed


text \<open>Converting the value of a well-formed attribute.\<close>

lemma convert_good:
  assumes g: "good_item (ty, v, pad)" and off: "attr = int (length pre)"
  shows "convert_attribute (pre @ store_le 2 ty @ store_le 2 (len :: uint16) @ v @ post) attr ty (of_nat (length v)) =
     Inr (True, pre @ store_le 2 ty @ store_le 2 len @ host_value ty v @ post)"
proof -
  let ?h = "pre @ store_le 2 ty @ store_le 2 len"
  have lh: "attr + 4 = int (length ?h)" using off by simp
  have len: "unat (of_nat (length v) :: uint16) = length v" "of_nat (length v) = (20 :: uint16) \<longleftrightarrow> length v = 20"
    "of_nat (length v) = (4 :: uint16) \<longleftrightarrow> length v = 4"
    using g by (auto simp: good_item_def unat_of_nat take_bit_eq_mod word_unat_eq_iff)
  have port: "turn16 (?h @ v @ post) (attr + 4 + 2) = Inr (load_le (rev (take 2 (drop 2 v))), ?h @ turn_port v @ post)" if "4 \<le> length v"
  proof -
    have "v = take 2 v @ take 2 (drop 2 v) @ drop 4 v" by (metis append_take_drop_id drop_drop numeral_Bit0)
    then have e: "?h @ v @ post = (?h @ take 2 v) @ take 2 (drop 2 v) @ drop 4 v @ post" by (metis append.assoc)
    show ?thesis unfolding e using turn16_bytes [of "attr + 4 + 2" "?h @ take 2 v" "take 2 (drop 2 v)" "drop 4 v @ post"] off that
      by (simp add: turn_port_def)
  qed
  have num: "turn32 (?h @ v @ post) (attr + 4) = Inr (?h @ rev (take 4 v) @ drop 4 v @ post)" if "4 \<le> length v"
  proof -
    have e: "?h @ v @ post = ?h @ take 4 v @ drop 4 v @ post" by (metis append.assoc append_take_drop_id)
    show ?thesis unfolding e by (rule turn32_bytes [OF lh]) (use that in simp)
  qed
  have fam: "peek (?h @ v @ post) (attr + 4 + 1) 1 = Inr [v ! 1]" if two: "2 \<le> length v"
  proof -
    obtain x ys where x: "v = x # ys" using two by (cases v) auto
    obtain y zs where v: "v = x # y # zs" using two x by (cases ys) auto
    show ?thesis using peek_at [of "attr + 4 + 1" "?h @ [x]" 1 "[y]" "zs @ post"] off v by simp
  qed
  consider "address_attr ty" | "\<not> address_attr ty" "ty = SWITCH_STUN_ATTR_SOURCE_ADDRESS2"
    | "\<not> address_attr ty" "ty \<noteq> SWITCH_STUN_ATTR_SOURCE_ADDRESS2" "number_attr ty"
    | "\<not> address_attr ty" "ty \<noteq> SWITCH_STUN_ATTR_SOURCE_ADDRESS2" "\<not> number_attr ty" "ty = SWITCH_STUN_ATTR_ERROR_CODE"
    | "\<not> address_attr ty" "ty \<noteq> SWITCH_STUN_ATTR_SOURCE_ADDRESS2" "\<not> number_attr ty" "ty \<noteq> SWITCH_STUN_ATTR_ERROR_CODE" by blast
  then show ?thesis
  proof cases
    case 1
    then show ?thesis using g port by (simp add: convert_attribute_def good_item_def host_value_def Let_def)
  next
    case 2
    then have "(length v = 8 \<and> v ! 1 = 1) \<or> (length v = 20 \<and> v ! 1 = 2)" using g by (simp add: good_item_def)
    then show ?thesis using 2 port fam len(1) by (auto simp: convert_attribute_def host_value_def Let_def)
  next
    case 3
    then show ?thesis using g num len by (simp add: convert_attribute_def good_item_def host_value_def Let_def)
  next
    case 4
    then show ?thesis using g num by (simp add: convert_attribute_def good_item_def host_value_def Let_def)
  next
    case 5
    then show ?thesis using g len by (simp add: convert_attribute_def good_item_def host_value_def Let_def)
  qed
qed


definition items_size :: "item list \<Rightarrow> nat" where
  "items_size is = sum_list (map item_size is)"

lemma host_value_length:
  assumes "good_item (ty, v, pad)"
  shows "length (host_value ty v) = length v"
proof -
  have a: "4 \<le> length v" if "address_attr ty \<or> ty = SWITCH_STUN_ATTR_SOURCE_ADDRESS2 \<or> number_attr ty \<or> ty = SWITCH_STUN_ATTR_ERROR_CODE"
    using assms that unfolding good_item_def by fastforce
  have "length (turn_port v) = length v" if "4 \<le> length v" using that by (simp add: turn_port_def)
  then show ?thesis unfolding host_value_def using a by auto
qed

lemma item_lengths: "good_item i \<Longrightarrow> length (wire i) = item_size i" "good_item i \<Longrightarrow> length (host i) = item_size i"
  by (auto simp: wire_def host_def item_size_def host_value_length split: prod.splits)

lemma size_4: "4 \<le> item_size i"
  by (auto simp: item_size_def split: prod.splits)

text \<open>One round over a well-formed attribute.\<close>

lemma parse_item:
  assumes g: "good_item i" and off: "attr = int (length pre)" "20 \<le> length pre"
    and left: "left = of_nat (item_size i + m)" "item_size i + m < 2 ^ 31"
    and len: "uint len = attr + int (item_size i) + int m" and hl: "get16 pre 2 = Inr hlen"
  shows "parse_attributes (Suc n) len (pre @ wire i @ post) attr left xlen =
     (if xlen + int (item_size i) < uint hlen
      then parse_attributes n len (pre @ host i @ post) (attr + int (item_size i)) (of_nat m) (xlen + int (item_size i))
      else Inr (Some (of_nat m), pre @ host i @ post))"
proof -
  obtain ty v pad where i: "i = (ty, v, pad)" by (cases i) auto
  let ?l = "of_nat (length v) :: uint16"
  have gv: "length v \<le> 0x7FFC" "length pad < 4" "(length v + length pad) mod 4 = 0" using g i by (simp_all add: good_item_def)
  have pl: "padded_length ?l = int (length v + length pad)" by (rule padded_good [OF gv])
  have sz: "int (item_size i) = 4 + int (length v + length pad)" by (simp add: i item_size_def)
  let ?b1 = "pre @ be16 ty @ store_le 2 ?l @ v @ pad @ post"
  have t1: "turn16 (pre @ wire i @ post) (attr + 2) = Inr (?l, ?b1)"
    using turn16_be [of "attr + 2" "pre @ be16 ty" ?l "v @ pad @ post"] off by (simp add: i wire_def)
  have t2: "turn16 ?b1 attr = Inr (ty, pre @ store_le 2 ty @ store_le 2 ?l @ v @ pad @ post)"
    by (rule turn16_be [OF off(1)])
  have cv: "convert_attribute (pre @ store_le 2 ty @ store_le 2 ?l @ v @ pad @ post) attr ty ?l = Inr (True, pre @ host i @ post)"
    using convert_good [of ty v pad attr pre ?l "pad @ post"] g off(1) by (simp add: i host_def)
  have l1: "left - 4 = of_nat (length v + length pad + m)" by (simp add: left(1) i item_size_def)
  have s1: "sint (left - 4) = int (length v + length pad + m)"
    unfolding l1 by (rule sint_small(1)) (use left(2) in \<open>simp add: i item_size_def\<close>)
  have l2: "left - 4 - of_int (int (length v + length pad)) = of_nat m" unfolding l1 by simp
  have e: "xlen + 4 + int (length v + length pad) = xlen + int (item_size i)" "attr + 4 + int (length v + length pad) = attr + int (item_size i)"
    using sz by simp_all
  have hl2: "get16 (pre @ host i @ post) 2 = Inr hlen"
    using hl off(2) by (simp add: get16_def peek_def mem_read_def)
  show ?thesis
    unfolding parse_attributes.simps t1 fbind_Inr prod.case t2 Let_def s1 cv pl l2 e using len hl2 by simp
qed

lemma parse_items:
  assumes "is \<noteq> []" "list_all good_item is" "attr = int (length pre)" "20 \<le> length pre" "items_size is + m < 2 ^ 31"
    "uint len = attr + int (items_size is) + int m" "get16 pre 2 = Inr hlen" "uint hlen = xlen + int (items_size is)"
  shows "parse_attributes (length is + k) len (pre @ concat (map wire is) @ post) attr (of_nat (items_size is + m)) xlen =
     Inr (Some (of_nat m), pre @ concat (map host is) @ post)"
  using assms
proof (induction "is" arbitrary: pre attr xlen)
  case (Cons i "is")
  have g: "good_item i" using Cons.prems(2) by simp
  have step: "parse_attributes (length (i # is) + k) len (pre @ concat (map wire (i # is)) @ post) attr (of_nat (items_size (i # is) + m)) xlen =
     (if xlen + int (item_size i) < uint hlen
      then parse_attributes (length is + k) len (pre @ host i @ concat (map wire is) @ post) (attr + int (item_size i)) (of_nat (items_size is + m)) (xlen + int (item_size i))
      else Inr (Some (of_nat (items_size is + m)), pre @ host i @ concat (map wire is) @ post))"
    using parse_item [OF g Cons.prems(3,4), of _ "items_size is + m" len hlen "length is + k" "concat (map wire is) @ post" xlen] Cons.prems
    by (simp add: items_size_def algebra_simps)
  show ?case
  proof (cases "is = []")
    case True
    then show ?thesis using step Cons.prems(8) by (simp add: items_size_def)
  next
    case False
    then have "0 < items_size is" using size_4 by (cases "is") (auto simp: items_size_def intro: order_less_le_trans [of 0 4])
    moreover have "get16 (pre @ host i) 2 = Inr hlen"
      using Cons.prems(4,7) by (simp add: get16_def peek_def mem_read_def)
    ultimately show ?thesis
      using step Cons.IH [OF False, of "attr + int (item_size i)" "pre @ host i" "xlen + int (item_size i)"] Cons.prems item_lengths(2) [OF g]
      by (simp add: items_size_def)
  qed
qed simp


text \<open>The header of a packet on the wire and after parsing.\<close>

definition wire_packet :: "uint16 \<Rightarrow> byte list \<Rightarrow> item list \<Rightarrow> byte list" where
  "wire_packet ty ident is = be16 ty @ be16 (of_nat (items_size is)) @ be32 STUN_MAGIC_COOKIE @ ident @ concat (map wire is)"

definition host_packet :: "uint16 \<Rightarrow> byte list \<Rightarrow> item list \<Rightarrow> byte list" where
  "host_packet ty ident is = store_le 2 ty @ store_le 2 (of_nat (items_size is) :: uint16) @ be32 STUN_MAGIC_COOKIE @ ident @ concat (map host is)"

definition good_packet :: "uint16 \<Rightarrow> byte list \<Rightarrow> item list \<Rightarrow> bool" where
  "good_packet ty ident is \<longleftrightarrow> valid_packet_type ty \<and> length ident = 12 \<and> list_all good_item is \<and> 8 \<le> items_size is \<and> items_size is < 2 ^ 16"

lemma parse_good:
  assumes t: "8 \<le> items_size is" "valid_packet_type ty" "length ident = 12" "list_all good_item is" "length is \<le> rounds"
    and u: "unat (len :: uint32) = 20 + items_size is + m" "20 + items_size is + m < 2 ^ 31" "unat (hl :: uint16) = items_size is"
  shows "switch_stun_packet_parse rounds (be16 ty @ be16 hl @ be32 STUN_MAGIC_COOKIE @ ident @ concat (map wire is) @ post) len =
     Inr (True, store_le 2 ty @ store_le 2 hl @ be32 STUN_MAGIC_COOKIE @ ident @ concat (map host is) @ post)"
proof -
  let ?t = "items_size is" and ?cs = "be32 STUN_MAGIC_COOKIE @ ident" and ?c = "concat (map wire is) @ post"
  let ?pre = "store_le 2 ty @ store_le 2 hl @ be32 STUN_MAGIC_COOKIE @ ident"
  have ne: "is \<noteq> []" using t(1) by (auto simp: items_size_def)
  have "unat hl < 2 ^ 16" using unsigned_less [of hl] by simp
  then have lt: "?t < 2 ^ 16" using u(3) by simp
  have ui: "uint len = 20 + int ?t + int m" "uint hl = int ?t" by (simp_all add: uint_nat u)
  have ns: "\<not> len < 20" "hl \<noteq> 0" using u t(1) by (auto simp: word_less_nat_alt)
  have ls: "unat (len - 20) = ?t + m" using ns(1) u(1) by (simp add: unat_sub word_le_nat_alt word_less_nat_alt)
  then have left: "len - 20 = of_nat (?t + m)" by (metis of_nat_unat ucast_id)
  have nl: "len - 20 \<noteq> 0" "\<not> len - 20 < 8" using ls t(1) by (auto simp: word_less_nat_alt)
  have t1: "turn16 (be16 ty @ be16 hl @ ?cs @ ?c) 0 = Inr (ty, store_le 2 ty @ be16 hl @ ?cs @ ?c)"
    using turn16_be [of 0 "[]"] by simp
  have t2: "turn16 (store_le 2 ty @ be16 hl @ ?cs @ ?c) 2 = Inr (hl, ?pre @ ?c)"
    using turn16_be [of 2 "store_le 2 ty" hl "?cs @ ?c"] by simp
  have h: "get16 (?pre @ x) 2 = Inr hl" for x using get16_host [of 2 "store_le 2 ty" hl "?cs @ x"] by simp
  obtain k where k: "rounds = length is + k" using t(5) le_Suc_ex by blast
  have loop: "parse_attributes rounds len (?pre @ ?c) 20 (of_nat (?t + m)) 0 = Inr (Some (of_nat m), ?pre @ concat (map host is) @ post)"
    unfolding k by (rule parse_items [OF ne t(4), where hlen = hl]) (use t u(2) ui h [of "[]"] in simp_all)
  have lm: "len - of_nat m = of_nat (20 + ?t)" using left by (simp add: algebra_simps)
  have fin: "\<not> len - of_nat m < ucast hl + 20"
  proof -
    have "unat (ucast hl + 20 :: uint32) = ?t + 20"
      using lt u(3) by (simp add: unat_word_ariths unsigned_ucast_eq take_bit_eq_mod)
    moreover have "unat (of_nat (20 + ?t) :: uint32) = 20 + ?t" using lt unfolding unat_of_nat take_bit_eq_mod by simp
    ultimately show ?thesis unfolding lm word_less_nat_alt by simp
  qed
  have "switch_stun_packet_parse rounds (be16 ty @ be16 hl @ ?cs @ ?c) len = Inr (True, ?pre @ concat (map host is) @ post)"
    unfolding switch_stun_packet_parse_def t1 fbind_Inr prod.case t2 Let_def
    using ns nl t(2) by (simp only: left loop if_False if_True not_not simp_thms fbind_Inr prod.case option.case h fin)
  then show ?thesis by simp
qed

end
