(* ===== verification/Stun_Build.thy ===== *)
theory Stun_Build
  imports Stun_Parse
begin

text \<open>
  Building packets: every operation that adds an attribute appends one well-formed item to the packet,
  as long as the items take less than 256 bytes, and the parser accepts what has been built.
\<close>

unbundle bit_operations_syntax

section \<open>The length of the header\<close>

lemma wire_length: "length (wire i) = item_size i"
  by (auto simp: wire_def item_size_def split: prod.splits)

lemma wires_length: "length (concat (map wire is)) = items_size is"
  by (simp add: length_concat items_size_def comp_def wire_length)

text \<open>The length stays in network order while it is added to, which is right for small values only.\<close>

lemma ntohs_small:
  assumes "x < 256"
  shows "ntohs (of_nat x) = of_nat (256 * x)"
proof -
  have x: "unat (of_nat x :: uint16) = x" "(of_nat x :: uint16) < 256"
    using assms by (simp_all add: unat_of_nat take_bit_eq_mod word_less_nat_alt)
  have "unat (drop_bit 8 (of_nat x :: uint16)) = 0" using assms unfolding unat_drop_bit_eq x by (simp add: drop_bit_eq_div)
  then have d: "drop_bit 8 (of_nat x :: uint16) = 0" by (simp add: unat_eq_zero)
  have "(ucast (of_nat x :: uint16) :: byte) = of_nat x"
    using assms by (simp add: word_unat_eq_iff unsigned_ucast_eq unat_of_nat take_bit_eq_mod)
  then have "store_le 2 (of_nat x :: uint16) = [of_nat x, 0]" by (simp add: store_le_def upt_rec d)
  then show ?thesis using assms by (simp add: ntohs_def load_le_def unat_of_nat take_bit_eq_mod)
qed

lemma ntohs_sum:
  assumes "x + (p + y) < 256"
  shows "ntohs (of_nat x) + (ntohs (of_nat p) + ntohs (of_nat y)) = ntohs (of_nat (x + (p + y)))"
  using assms by (simp only: ntohs_small [of x] ntohs_small [of p] ntohs_small [of y] ntohs_small [of "x + (p + y)"] add_lessD1
      of_nat_add [symmetric] add_mult_distrib2) 


section \<open>Adding an attribute\<close>

text \<open>The packet a builder has made so far: everything in network order, and room behind it.\<close>

lemma wire_packet_length: "length ident = 12 \<Longrightarrow> length (wire_packet ty ident is) = 20 + items_size is"
  by (simp add: wire_packet_def wires_length)

lemma items_size_snoc: "items_size (is @ [i]) = items_size is + item_size i"
  by (simp add: items_size_def)

lemma packet_count:
  "get16 (wire_packet ty ident is @ room) 2 = Inr (ntohs (of_nat (items_size is)))"
  using get16_be [of 2 "be16 ty" "of_nat (items_size is)"] by (simp add: wire_packet_def)

lemma packet_slot:
  assumes "items_size is < 256"
  shows "next_slot (wire_packet ty ident is @ room) = Inr (20 + int (items_size is))"
  using assms by (simp add: next_slot_def packet_count unsigned_of_nat take_bit_eq_mod nat_mod_distrib)

lemma start_at:
  assumes "attr = int (length pre)" "length x = 4"
  shows "start_attribute aty len (pre @ x @ post) attr = Inr (pre @ be16 aty @ be16 len @ post)"
proof -
  obtain y z where x: "x = y @ z" "length y = 2" "length z = 2"
    using assms(2) that [of "take 2 x" "drop 2 x"] by simp
  have "put16 (pre @ x @ post) attr (ntohs aty) = Inr (pre @ be16 aty @ z @ post)"
    using put16_at [OF assms(1) x(2), of "z @ post" "ntohs aty"] by (simp add: x(1) store_ntohs)
  moreover have "put16 (pre @ be16 aty @ z @ post) (attr + 2) (ntohs len) = Inr (pre @ be16 aty @ be16 len @ post)"
    using put16_at [OF _ x(3), of "attr + 2" "pre @ be16 aty" post "ntohs len"] assms(1) by (simp add: store_ntohs)
  ultimately show ?thesis by (simp add: start_attribute_def)
qed

text \<open>The header after one more item of known size stands at the end of the packet.\<close>

lemma count_at:
  assumes "length ident = 12" "attr = 20 + int (items_size is)" "items_size is + (4 + p + length v) < 256" "length pad = p"
  shows "count_attribute (of_nat p) (wire_packet ty ident is @ be16 aty @ be16 (of_nat (length v)) @ v @ pad @ post) attr =
     Inr (wire_packet ty ident (is @ [(aty, v, pad)]) @ post)"
proof -
  let ?t = "items_size is" and ?l = "of_nat (length v) :: uint16"
  let ?i = "be16 aty @ be16 ?l @ v @ pad @ post"
  have size: "items_size (is @ [(aty, v, pad)]) = ?t + (4 + p + length v)"
    using assms(4) by (simp add: items_size_snoc item_size_def)
  have g: "get16 (wire_packet ty ident is @ ?i) (attr + 2) = Inr (ntohs ?l)"
    using get16_be [of "attr + 2" "wire_packet ty ident is @ be16 aty" ?l "v @ pad @ post"] assms(1,2) by (simp add: wire_packet_length)
  have sum: "ntohs (of_nat ?t) + (ntohs (of_nat (4 + p)) + ntohs ?l) = ntohs (of_nat (?t + (4 + p + length v)))"
    using ntohs_sum [of ?t "4 + p" "length v"] assms(3) by simp
  have four: "4 + of_nat p = (of_nat (4 + p) :: uint16)" by simp
  have put: "put16 (wire_packet ty ident is @ ?i) 2 (ntohs (of_nat (?t + (4 + p + length v)))) = Inr (wire_packet ty ident (is @ [(aty, v, pad)]) @ post)"
    using put16_at [of 2 "be16 ty" "be16 (of_nat ?t)" "be32 STUN_MAGIC_COOKIE @ ident @ concat (map wire is) @ ?i"]
    by (simp add: wire_packet_def store_ntohs size [unfolded items_size_snoc] items_size_snoc size wire_def del: of_nat_add)
  show ?thesis unfolding count_attribute_def packet_count fbind_Inr g four sum put ..
qed

lemma add_value_at:
  assumes "length ident = 12" "items_size is + (4 + length pad + length v) < 256" "length x = 4" "length w = length v"
  shows "add_value aty v (of_nat (length pad)) (wire_packet ty ident is @ x @ w @ pad @ post) =
     Inr (wire_packet ty ident (is @ [(aty, v, pad)]) @ post)"
proof -
  let ?a = "20 + int (items_size is)"
  have a: "?a = int (length (wire_packet ty ident is))" using assms(1) by (simp add: wire_packet_length)
  have p: "poke ((wire_packet ty ident is @ be16 aty @ be16 (of_nat (length v))) @ w @ pad @ post) (?a + 4) v =
      Inr ((wire_packet ty ident is @ be16 aty @ be16 (of_nat (length v))) @ v @ pad @ post)"
    by (rule poke_at) (use a assms(4) in simp_all)
  have t: "items_size is < 256" using assms(2) by simp
  show ?thesis
    unfolding add_value_def packet_slot [OF t] fbind_Inr start_at [OF a assms(3)]
    using p count_at [OF assms(1) refl assms(2) refl, of ty aty post] by (simp add: fbind_Inr)
qed

section \<open>The operations that add attributes\<close>

text \<open>
  The contract they share: on a packet with enough zeroed room behind it, and while the items stay below
  256 bytes, the operation appends one well-formed item of a fixed size. The item may depend on what
  stands before it, as the message integrity and the fingerprint do.
\<close>

text \<open>
  \<open>built\<close> describes a packet of \<open>k\<close> good items, the first of which is \<open>i\<close>, with \<open>n\<close> of \<open>room\<close> bytes left.
\<close>

definition built :: "uint16 \<Rightarrow> byte list \<Rightarrow> item \<Rightarrow> nat \<Rightarrow> nat \<Rightarrow> nat \<Rightarrow> byte list \<Rightarrow> bool" where
  "built ty ident i room k n b \<longleftrightarrow>
     (\<exists>is. b = wire_packet ty ident (i # is) @ replicate n 0 \<and> list_all good_item (i # is) \<and> items_size (i # is) + n = room \<and> length (i # is) = k)"

locale attribute_adder =
  fixes add :: "byte list \<Rightarrow> fault + byte list"
    and item :: "uint16 \<Rightarrow> byte list \<Rightarrow> item list \<Rightarrow> item"
    and size :: nat
  assumes size: "item_size (item ty ident is) = size"
    and good: "size < 256 \<Longrightarrow> good_item (item ty ident is)"
    and add: "length ident = 12 \<Longrightarrow> items_size is + size < 256 \<Longrightarrow> size \<le> n \<Longrightarrow>
      add (wire_packet ty ident is @ replicate n 0) = Inr (wire_packet ty ident (is @ [item ty ident is]) @ replicate (n - size) 0)"
begin

lemma added_size: "items_size (is @ [item ty ident is]) = items_size is + size"
  by (simp add: items_size_snoc size)

lemma added_good: "list_all good_item is \<Longrightarrow> items_size is + size < 256 \<Longrightarrow> list_all good_item (is @ [item ty ident is])"
  by (simp add: good)

lemma adds_first:
  assumes "length ident = 12" "size \<le> n" "size < 256"
  obtains b where "add (wire_packet ty ident [] @ replicate n 0) = Inr b" "built ty ident (item ty ident []) n 1 (n - size) b"
  using add [OF assms(1), of "[]" n ty] assms(2,3) good [OF assms(3), of ty ident "[]"] size [of ty ident "[]"]
  by (simp add: built_def items_size_def)

lemma adds:
  assumes "built ty ident i room k n b" "length ident = 12" "size \<le> n" "room - n + size < 256"
  obtains b' where "add b = Inr b'" "built ty ident i room (Suc k) (n - size) b'"
proof -
  obtain "is" where b: "b = wire_packet ty ident (i # is) @ replicate n 0" "list_all good_item (i # is)" "items_size (i # is) + n = room" "length (i # is) = k"
    using assms(1) by (auto simp: built_def)
  have lt: "items_size (i # is) + size < 256" using b(3) assms(4) by simp
  let ?is = "is @ [item ty ident (i # is)]"
  have "add b = Inr (wire_packet ty ident (i # ?is) @ replicate (n - size) 0)" using add [OF assms(2) lt assms(3)] b(1) by simp
  moreover have "list_all good_item (i # ?is)" "items_size (i # ?is) + (n - size) = room" "length (i # ?is) = Suc k"
    using added_good [OF b(2) lt] added_size [of "i # is"] assms(3) b(3,4) by simp_all
  ultimately show ?thesis using that unfolding built_def by blast
qed

end

lemma room_split: "m \<le> n \<Longrightarrow> replicate n z = replicate m z @ replicate (n - m) z"
  by (metis le_add_diff_inverse replicate_add)

lemma add_value_adder:
  assumes "length v + p < 256 \<Longrightarrow> good_item (aty, v, replicate p 0)"
  shows "attribute_adder (add_value aty v (of_nat p)) (\<lambda>ty ident is. (aty, v, replicate p 0)) (4 + length v + p)"
proof
  fix ty and n :: nat and ident :: "byte list" and "is" :: "item list"
  assume a: "length ident = 12" "items_size is + (4 + length v + p) < 256" "4 + length v + p \<le> n"
  have "replicate n (0 :: byte) = replicate 4 0 @ replicate (length v) 0 @ replicate p 0 @ replicate (n - (4 + length v + p)) 0"
    using room_split [OF a(3), of "0 :: byte"] by (simp add: replicate_add)
  then show "add_value aty v (of_nat p) (wire_packet ty ident is @ replicate n 0) =
      Inr (wire_packet ty ident (is @ [(aty, v, replicate p 0)]) @ replicate (n - (4 + length v + p)) 0)"
    using add_value_at [OF a(1), of "is" "replicate p 0" v "replicate 4 0" "replicate (length v) 0"] a(2) by simp
qed (use assms in \<open>simp_all add: item_size_def\<close>)

text \<open>Attributes the parser has no rule for may hold anything.\<close>

definition opaque_attr :: "uint16 \<Rightarrow> bool" where
  "opaque_attr ty \<longleftrightarrow> ty \<in> {SWITCH_STUN_ATTR_USERNAME, SWITCH_STUN_ATTR_SOFTWARE, SWITCH_STUN_ATTR_PASSWORD,
     SWITCH_STUN_ATTR_CONTROLLED, SWITCH_STUN_ATTR_CONTROLLING, SWITCH_STUN_ATTR_USE_CAND, SWITCH_STUN_ATTR_FINGERPRINT}"

lemma opaque_good:
  assumes "opaque_attr ty" "length v \<le> 0x7FFC" "length pad < 4" "(length v + length pad) mod 4 = 0"
  shows "good_item (ty, v, pad)"
proof -
  have "\<not> address_attr ty \<and> \<not> number_attr ty \<and> ty \<noteq> SWITCH_STUN_ATTR_SOURCE_ADDRESS2 \<and> ty \<noteq> SWITCH_STUN_ATTR_ERROR_CODE \<and>
      ty \<noteq> SWITCH_STUN_ATTR_MESSAGE_INTEGRITY \<and> ty \<noteq> SWITCH_STUN_ATTR_MAGIC_COOKIE \<and> ty \<noteq> SWITCH_STUN_ATTR_UNKNOWN_ATTRIBUTES"
    using assms(1) unfolding opaque_attr_def insert_iff empty_iff
    by (elim disjE) (simp_all add: address_attr_def number_attr_def stun_constants)
  then show ?thesis using assms by (simp add: good_item_def)
qed

lemma opaque_types: "opaque_attr SWITCH_STUN_ATTR_USERNAME" "opaque_attr SWITCH_STUN_ATTR_SOFTWARE" "opaque_attr SWITCH_STUN_ATTR_PASSWORD"
  "opaque_attr SWITCH_STUN_ATTR_CONTROLLED" "opaque_attr SWITCH_STUN_ATTR_CONTROLLING" "opaque_attr SWITCH_STUN_ATTR_USE_CAND"
  "opaque_attr SWITCH_STUN_ATTR_FINGERPRINT"
  by (simp_all add: opaque_attr_def)

definition text_padding :: "nat \<Rightarrow> nat" where
  "text_padding n = (if n mod 4 \<noteq> 0 then 4 - n mod 4 else 0)"

lemma text_padding: "text_padding n < 4" "(n + text_padding n) mod 4 = 0"
proof -
  show "text_padding n < 4" by (simp add: text_padding_def)
  show "(n + text_padding n) mod 4 = 0" unfolding text_padding_def by presburger
qed

definition text_item :: "uint16 \<Rightarrow> byte list \<Rightarrow> item" where
  "text_item aty txt = (aty, txt, replicate (text_padding (length txt)) 0)"

lemma add_text_adder:
  assumes "opaque_attr aty"
  shows "attribute_adder (add_text aty pick (Some txt) (of_nat (length txt))) (\<lambda>ty ident is. text_item aty txt) (4 + length txt + text_padding (length txt))"
proof -
  let ?p = "text_padding (length txt)" and ?sz = "4 + length txt + text_padding (length txt)"
  have v: "attribute_adder (add_value aty txt (of_nat ?p)) (\<lambda>ty ident is. text_item aty txt) ?sz"
    unfolding text_item_def by (rule add_value_adder) (rule opaque_good [OF assms], use text_padding [of "length txt"] in simp_all)
  have eq: "add_text aty pick (Some txt) (of_nat (length txt)) blk = add_value aty txt (of_nat ?p) blk" if "length txt < 256" for blk
  proof -
    have "unat (of_nat (length txt) :: uint16) = length txt" using that by (simp add: unat_of_nat take_bit_eq_mod)
    then show ?thesis by (simp add: add_text_def copy_bytes_def mem_read_def text_padding_def Let_def)
  qed
  show ?thesis
  proof
    fix ty and n :: nat and ident :: "byte list" and "is" :: "item list"
    assume a: "length ident = 12" "items_size is + ?sz < 256" "?sz \<le> n"
    then show "add_text aty pick (Some txt) (of_nat (length txt)) (wire_packet ty ident is @ replicate n 0) =
        Inr (wire_packet ty ident (is @ [text_item aty txt]) @ replicate (n - ?sz) 0)"
      using attribute_adder.add [OF v a] eq by simp
  qed (use attribute_adder.size [OF v] attribute_adder.good [OF v] in blast)+
qed


lemma random_length: "length (switch_stun_random_string pick len set0) = len"
  by (simp add: switch_stun_random_string_def Let_def)

lemma add_priority_adder: "attribute_adder (switch_stun_packet_attribute_add_priority priority)
    (\<lambda>ty ident is. (SWITCH_STUN_ATTR_PRIORITY, be32 priority, [])) 8"
proof -
  have "good_item (SWITCH_STUN_ATTR_PRIORITY, be32 priority, replicate 0 0)"
    by (simp add: good_item_def number_attr_def stun_constants)
  then show ?thesis using add_value_adder [of "be32 priority" 0 SWITCH_STUN_ATTR_PRIORITY]
    by (simp add: switch_stun_packet_attribute_add_priority_def [abs_def] store_ntohl)
qed

lemma add_plain_adder:
  assumes "opaque_attr aty" "length v mod 4 = 0"
  shows "attribute_adder (add_value aty v 0) (\<lambda>ty ident is. (aty, v, [])) (4 + length v)"
  using add_value_adder [of v 0 aty] opaque_good [OF assms(1), of v "[]"] assms(2) by simp

interpretation username: attribute_adder "switch_stun_packet_attribute_add_username pick (Some user) (of_nat (length user))"
  "\<lambda>ty ident is. text_item SWITCH_STUN_ATTR_USERNAME user" "4 + length user + text_padding (length user)"
  for pick user
  unfolding switch_stun_packet_attribute_add_username_def by (rule add_text_adder) (rule opaque_types)

interpretation software: attribute_adder "switch_stun_packet_attribute_add_software pick (Some sw) (of_nat (length sw))"
  "\<lambda>ty ident is. text_item SWITCH_STUN_ATTR_SOFTWARE sw" "4 + length sw + text_padding (length sw)"
  for pick sw
  unfolding switch_stun_packet_attribute_add_software_def by (rule add_text_adder) (rule opaque_types)

interpretation password: attribute_adder "switch_stun_packet_attribute_add_password pick (Some pass) (of_nat (length pass))"
  "\<lambda>ty ident is. text_item SWITCH_STUN_ATTR_PASSWORD pass" "4 + length pass + text_padding (length pass)"
  for pick pass
  unfolding switch_stun_packet_attribute_add_password_def by (rule add_text_adder) (rule opaque_types)

interpretation priority: attribute_adder "switch_stun_packet_attribute_add_priority priority"
  "\<lambda>ty ident is. (SWITCH_STUN_ATTR_PRIORITY, be32 priority, [])" 8
  for priority
  by (rule add_priority_adder)

interpretation use_candidate: attribute_adder switch_stun_packet_attribute_add_use_candidate
  "\<lambda>ty ident is. (SWITCH_STUN_ATTR_USE_CAND, [], [])" 4
  using add_plain_adder [OF opaque_types(6), of "[]"] by (simp add: switch_stun_packet_attribute_add_use_candidate_def [abs_def])

interpretation controlling: attribute_adder "switch_stun_packet_attribute_add_controlling pick"
  "\<lambda>ty ident is. (SWITCH_STUN_ATTR_CONTROLLING, switch_stun_random_string pick 8 None, [])" 12
  for pick
  using add_plain_adder [OF opaque_types(5), of "switch_stun_random_string pick 8 None"]
  by (simp add: switch_stun_packet_attribute_add_controlling_def [abs_def] random_length)

interpretation controlled: attribute_adder "switch_stun_packet_attribute_add_controlled pick"
  "\<lambda>ty ident is. (SWITCH_STUN_ATTR_CONTROLLED, switch_stun_random_string pick 8 None, [])" 12
  for pick
  using add_plain_adder [OF opaque_types(4), of "switch_stun_random_string pick 8 None"]
  by (simp add: switch_stun_packet_attribute_add_controlled_def [abs_def] random_length)


section \<open>Message integrity and fingerprint\<close>

text \<open>
  Both are computed over the packet before them, whose header already counts \<open>extra\<close> bytes for the
  attribute itself.
\<close>

definition covered :: "uint16 \<Rightarrow> byte list \<Rightarrow> item list \<Rightarrow> nat \<Rightarrow> byte list" where
  "covered ty ident is extra =
     be16 ty @ be16 (of_nat (items_size is + extra)) @ be32 STUN_MAGIC_COOKIE @ ident @ concat (map wire is)"

lemma covered_length: "length ident = 12 \<Longrightarrow> length (covered ty ident is extra) = 20 + items_size is"
  by (simp add: covered_def wires_length)

lemma covered_split:
  "wire_packet ty ident (is @ [(aty, v, [])]) = covered ty ident is (4 + length v) @ be16 aty @ be16 (of_nat (length v)) @ v"
  by (simp add: wire_packet_def covered_def wire_def items_size_snoc item_size_def)

text \<open>What both do first: an attribute of \<open>len\<close> zero bytes is appended and counted.\<close>

lemma reserve_at:
  assumes "length ident = 12" "items_size is + (4 + len) < 256" "4 + len \<le> n"
  shows "fbind (start_attribute aty (of_nat len) (wire_packet ty ident is @ replicate n 0) (20 + int (items_size is))) (\<lambda>b1.
      fbind (count_attribute 0 b1 (20 + int (items_size is))) f) =
    f (covered ty ident is (4 + len) @ be16 aty @ be16 (of_nat len) @ replicate len 0 @ replicate (n - (4 + len)) 0)"
proof -
  have n: "replicate n (0 :: byte) = replicate 4 0 @ replicate len 0 @ replicate (n - (4 + len)) 0"
    using room_split [OF assms(3), of "0 :: byte"] by (simp add: replicate_add)
  have a: "20 + int (items_size is) = int (length (wire_packet ty ident is))" using assms(1) by (simp add: wire_packet_length)
  show ?thesis
    unfolding n start_at [OF a length_replicate] fbind_Inr
    using count_at [OF assms(1) refl, of "is" 0 "replicate len 0" "[]" ty aty] assms(2) by (simp add: fbind_Inr covered_split)
qed

lemma slot_16:
  assumes "t < 256"
  shows "unat (of_int (20 + int t) :: uint16) = 20 + t"
proof -
  have "(of_int (20 + int t) :: uint16) = of_nat (20 + t)" by simp
  then have "unat (of_int (20 + int t) :: uint16) = (20 + t) mod 2 ^ 16" by (simp only: unat_of_nat take_bit_eq_mod) simp
  then show ?thesis using assms by simp
qed

lemma add_integrity_adder:
  assumes "\<And>pass data. length (hmac pass data) = 20"
  shows "attribute_adder (switch_stun_packet_attribute_add_integrity hmac pass)
    (\<lambda>ty ident is. (SWITCH_STUN_ATTR_MESSAGE_INTEGRITY, hmac pass (covered ty ident is 24), [])) 24"
proof
  fix ty and n :: nat and ident :: "byte list" and "is" :: "item list"
  assume a: "length ident = 12" "items_size is + 24 < 256" "24 \<le> n"
  let ?c = "covered ty ident is 24" and ?h = "be16 SWITCH_STUN_ATTR_MESSAGE_INTEGRITY @ be16 20" and ?r = "replicate (n - 24) (0 :: byte)"
  have t: "items_size is < 256" using a(2) by simp
  have r: "fbind (start_attribute SWITCH_STUN_ATTR_MESSAGE_INTEGRITY 20 (wire_packet ty ident is @ replicate n 0) (20 + int (items_size is))) (\<lambda>b1.
      fbind (count_attribute 0 b1 (20 + int (items_size is))) f) = f (?c @ ?h @ replicate 20 0 @ ?r)" for f :: "byte list \<Rightarrow> fault + byte list"
    using reserve_at [OF a(1), of "is" 20 n SWITCH_STUN_ATTR_MESSAGE_INTEGRITY ty f] a(2,3) by simp
  have d: "peek (?c @ ?h @ replicate 20 0 @ ?r) 0 (20 + items_size is) = Inr ?c"
    using peek_at [of 0 "[]" "20 + items_size is" ?c] a(1) by (simp add: covered_length)
  have "poke (?c @ ?h @ replicate 20 0 @ ?r) (20 + int (items_size is) + 4) (hmac pass ?c) = Inr (?c @ ?h @ hmac pass ?c @ ?r)"
    using poke_at [of "20 + int (items_size is) + 4" "?c @ ?h" "hmac pass ?c" "replicate 20 0" ?r] a(1) assms by (simp add: covered_length)
  then show "switch_stun_packet_attribute_add_integrity hmac pass (wire_packet ty ident is @ replicate n 0) =
      Inr (wire_packet ty ident (is @ [(SWITCH_STUN_ATTR_MESSAGE_INTEGRITY, hmac pass ?c, [])]) @ ?r)"
    unfolding switch_stun_packet_attribute_add_integrity_def packet_slot [OF t] fbind_Inr r slot_16 [OF t] d covered_split by (simp add: assms)
qed (simp_all add: assms item_size_def good_item_def address_attr_def number_attr_def stun_constants)

interpretation fingerprint: attribute_adder switch_stun_packet_attribute_add_fingerprint
  "\<lambda>ty ident is. (SWITCH_STUN_ATTR_FINGERPRINT, be32 (crc32 (covered ty ident is 8) XOR 0x5354554e), [])" 8
proof
  fix ty and n :: nat and ident :: "byte list" and "is" :: "item list"
  assume a: "length ident = 12" "items_size is + 8 < 256" "8 \<le> n"
  let ?c = "covered ty ident is 8" and ?h = "be16 SWITCH_STUN_ATTR_FINGERPRINT @ be16 4" and ?r = "replicate (n - 8) (0 :: byte)"
  let ?v = "crc32 ?c XOR 0x5354554e"
  have t: "items_size is < 256" using a(2) by simp
  have r: "fbind (start_attribute SWITCH_STUN_ATTR_FINGERPRINT 4 (wire_packet ty ident is @ replicate n 0) (20 + int (items_size is))) (\<lambda>b1.
      fbind (count_attribute 0 b1 (20 + int (items_size is))) f) = f (?c @ ?h @ replicate 4 0 @ ?r)" for f :: "byte list \<Rightarrow> fault + byte list"
    using reserve_at [OF a(1), of "is" 4 n SWITCH_STUN_ATTR_FINGERPRINT ty f] a(2,3) by simp
  have d: "switch_crc32_8bytes (?c @ ?h @ replicate 4 0 @ ?r) (20 + items_size is) = Inr (crc32 ?c)"
    using a(1) by (simp add: switch_crc32_8bytes_def crc_blocks_fold crc32_def covered_length)
  have "put32 (?c @ ?h @ replicate 4 0 @ ?r) (20 + int (items_size is) + 4) (ntohl ?v) = Inr (?c @ ?h @ be32 ?v @ ?r)"
    using put32_at [of "20 + int (items_size is) + 4" "?c @ ?h" "replicate 4 0" ?r "ntohl ?v"] a(1) by (simp add: covered_length store_ntohl)
  then show "switch_stun_packet_attribute_add_fingerprint (wire_packet ty ident is @ replicate n 0) =
      Inr (wire_packet ty ident (is @ [(SWITCH_STUN_ATTR_FINGERPRINT, be32 ?v, [])]) @ ?r)"
    unfolding switch_stun_packet_attribute_add_fingerprint_def packet_slot [OF t] fbind_Inr r slot_16 [OF t] d covered_split by simp
qed (simp_all add: item_size_def opaque_good opaque_types)


section \<open>Addresses\<close>

text \<open>The four bytes of a dotted address; bytes that are not given stay zero.\<close>

definition address_bytes :: "string \<Rightarrow> byte list" where
  "address_bytes ipstr = dotted 4 ipstr @ replicate (4 - length (dotted 4 ipstr)) 0"

lemma dotted_length: "length (dotted n p) \<le> n"
  by (induction n p rule: dotted.induct) (auto split: list.splits)

lemma address_bytes_length [simp]: "length (address_bytes ipstr) = 4"
  using dotted_length [of 4 ipstr] by (simp add: address_bytes_def)

lemma write_address_at:
  assumes "value = int (length pre)"
  shows "write_address netport ipstr (pre @ replicate 8 0 @ post) value = Inr (pre @ [0, 1] @ store_le 2 netport @ address_bytes ipstr @ post)"
proof -
  let ?d = "dotted 4 ipstr" and ?s = "store_le 2 netport" and ?z = "replicate (4 - length (dotted 4 ipstr)) (0 :: byte)"
  have z: "replicate 8 (0 :: byte) = [0, 0] @ [0, 0] @ replicate 4 0" by (simp add: numeral_eq_Suc)
  have z4: "replicate 4 (0 :: byte) = replicate (length ?d) 0 @ ?z" using room_split [OF dotted_length] .
  have p1: "put16 (pre @ replicate 8 0 @ post) (value + 2) netport = Inr ((pre @ [0]) @ [0] @ ?s @ replicate 4 0 @ post)"
    using put16_at [of "value + 2" "pre @ [0, 0]" "[0, 0]" "replicate 4 0 @ post" netport] assms by (simp add: z)
  have p2: "poke ((pre @ [0]) @ [0] @ ?s @ replicate 4 0 @ post) (value + 1) [1] = Inr ((pre @ [0]) @ [1] @ ?s @ replicate 4 0 @ post)"
    by (rule poke_at) (use assms in simp_all)
  have p3: "poke ((pre @ [0]) @ [1] @ ?s @ replicate 4 0 @ post) (value + 4) ?d = Inr ((pre @ [0] @ [1] @ ?s) @ ?d @ ?z @ post)"
    using poke_at [of "value + 4" "pre @ [0] @ [1] @ ?s" ?d "replicate (length ?d) 0" "?z @ post"] assms unfolding z4 by simp
  show ?thesis unfolding write_address_def p1 fbind_Inr p2 p3 by (simp add: address_bytes_def)
qed

definition address_item :: "uint16 \<Rightarrow> uint16 \<Rightarrow> byte list \<Rightarrow> item" where
  "address_item aty port addr = (aty, [0, 1] @ be16 port @ addr, [])"

lemma address_item_good:
  assumes "aty = SWITCH_STUN_ATTR_MAPPED_ADDRESS \<or> aty = SWITCH_STUN_ATTR_XOR_MAPPED_ADDRESS" "length addr = 4"
  shows "good_item (address_item aty port addr)" "item_size (address_item aty port addr) = 12"
  using assms by (auto simp: address_item_def good_item_def item_size_def number_attr_def stun_constants)

lemma address_start:
  assumes "length ident = 12" "items_size is + 12 < 256" "12 \<le> n"
  shows "fbind (next_slot (wire_packet ty ident is @ replicate n 0)) (\<lambda>attr.
      fbind (start_attribute aty 8 (wire_packet ty ident is @ replicate n 0) attr) (\<lambda>b1. fbind (write_address netport ipstr b1 (attr + 4)) (f attr))) =
    f (20 + int (items_size is)) ((wire_packet ty ident is @ be16 aty @ be16 8) @ [0, 1] @ store_le 2 netport @ address_bytes ipstr @ replicate (n - 12) 0)"
proof -
  have n: "replicate n (0 :: byte) = replicate 4 0 @ replicate 8 0 @ replicate (n - 12) 0"
    using room_split [OF assms(3), of "0 :: byte"] by (simp add: replicate_add [symmetric])
  have t: "items_size is < 256" using assms(2) by simp
  have a: "20 + int (items_size is) = int (length (wire_packet ty ident is))" using assms(1) by (simp add: wire_packet_length)
  have w: "write_address netport ipstr ((wire_packet ty ident is @ be16 aty @ be16 8) @ replicate 8 0 @ replicate (n - 12) 0) (20 + int (items_size is) + 4) =
      Inr ((wire_packet ty ident is @ be16 aty @ be16 8) @ [0, 1] @ store_le 2 netport @ address_bytes ipstr @ replicate (n - 12) 0)"
    by (rule write_address_at) (use a in simp)
  show ?thesis unfolding packet_slot [OF t] fbind_Inr n start_at [OF a length_replicate] using w by simp
qed

lemma address_count:
  assumes "length ident = 12" "items_size is + 12 < 256" "length addr = 4"
  shows "count_attribute 0 (wire_packet ty ident is @ be16 aty @ be16 8 @ [0, 1] @ be16 port @ addr @ post) (20 + int (items_size is)) =
    Inr (wire_packet ty ident (is @ [address_item aty port addr]) @ post)"
  using count_at [OF assms(1) refl, of "is" 0 "[0, 1] @ be16 port @ addr" "[]" ty aty post] assms(2,3) by (simp add: address_item_def)

interpretation binded_address: attribute_adder "switch_stun_packet_attribute_add_binded_address ipstr port"
  "\<lambda>ty ident is. address_item SWITCH_STUN_ATTR_MAPPED_ADDRESS port (address_bytes ipstr)" 12
  for ipstr port
proof
  fix ty and n :: nat and ident :: "byte list" and "is" :: "item list"
  assume a: "length ident = 12" "items_size is + 12 < 256" "12 \<le> n"
  show "switch_stun_packet_attribute_add_binded_address ipstr port (wire_packet ty ident is @ replicate n 0) =
      Inr (wire_packet ty ident (is @ [address_item SWITCH_STUN_ATTR_MAPPED_ADDRESS port (address_bytes ipstr)]) @ replicate (n - 12) 0)"
    unfolding switch_stun_packet_attribute_add_binded_address_def address_start [OF a]
    using address_count [OF a(1,2) address_bytes_length] by (simp add: store_ntohs)
qed (simp_all add: address_item_good)

definition xor_address :: "byte list \<Rightarrow> byte list" where
  "xor_address addr = be32 (ntohl (load_le addr) XOR STUN_MAGIC_COOKIE)"

definition xor_port :: "uint16 \<Rightarrow> uint16" where
  "xor_port port = port XOR ucast (drop_bit 16 STUN_MAGIC_COOKIE)"

interpretation xor_binded_address: attribute_adder "switch_stun_packet_attribute_add_xor_binded_address ipstr port"
  "\<lambda>ty ident is. address_item SWITCH_STUN_ATTR_XOR_MAPPED_ADDRESS (xor_port port) (xor_address (address_bytes ipstr))" 12
  for ipstr port
proof
  fix ty and n :: nat and ident :: "byte list" and "is" :: "item list"
  assume a: "length ident = 12" "items_size is + 12 < 256" "12 \<le> n"
  let ?h = "wire_packet ty ident is @ be16 SWITCH_STUN_ATTR_XOR_MAPPED_ADDRESS @ be16 8 @ [0, 1] @ be16 (xor_port port)"
  let ?b = "address_bytes ipstr" and ?r = "replicate (n - 12) (0 :: byte)" and ?a = "20 + int (items_size is)"
  have l: "?a + 8 = int (length ?h)" using a(1) by (simp add: wire_packet_length)
  have g: "get32 (?h @ ?b @ ?r) (?a + 8) = Inr (load_le ?b)" by (rule get32_at [OF l]) simp
  have p: "put32 (?h @ ?b @ ?r) (?a + 8) (ntohl (ntohl (load_le ?b) XOR STUN_MAGIC_COOKIE)) = Inr (?h @ xor_address ?b @ ?r)"
    using put32_at [OF l, of ?b ?r] by (simp add: xor_address_def store_ntohl)
  show "switch_stun_packet_attribute_add_xor_binded_address ipstr port (wire_packet ty ident is @ replicate n 0) =
      Inr (wire_packet ty ident (is @ [address_item SWITCH_STUN_ATTR_XOR_MAPPED_ADDRESS (xor_port port) (xor_address ?b)]) @ ?r)"
    unfolding switch_stun_packet_attribute_add_xor_binded_address_def address_start [OF a]
    using g p address_count [OF a(1,2), of "xor_address ?b" ty SWITCH_STUN_ATTR_XOR_MAPPED_ADDRESS "xor_port port"]
    by (simp add: store_ntohs xor_port_def [symmetric] xor_address_def [symmetric]) (simp add: xor_address_def)
qed (simp_all add: address_item_good xor_address_def)

end
