(* ===== verification/Stun_Packets.thy ===== *)
theory Stun_Packets
  imports Stun_Build
begin

text \<open>
  STUN packets from building to parsing and to the lookup of an address, and the packets the parser
  cannot cope with.
\<close>

unbundle bit_operations_syntax

section \<open>A packet on which the parser does not return\<close>

text \<open>
  After 63 empty attributes comes one with the length \<open>0xFEFE\<close>. Rounded up and taken as a signed 16-bit
  value this is -256, so the next attribute is again the first one.
\<close>

definition endless_tail :: "byte list" where
  "endless_tail = replicate 252 0 @ [0, 0, 0xFE, 0xFE]"

definition endless_packet :: "byte list" where
  "endless_packet = be16 SWITCH_STUN_BINDING_REQUEST @ be16 256 @ be32 STUN_MAGIC_COOKIE @ replicate 12 0 @ endless_tail"

definition endless_host :: "byte list" where
  "endless_host = store_le 2 SWITCH_STUN_BINDING_REQUEST @ store_le 2 (256 :: uint16) @ be32 STUN_MAGIC_COOKIE @ replicate 12 0 @ endless_tail"

lemma plain_zero: "\<not> address_attr 0" "\<not> number_attr 0" "(0 :: uint16) \<noteq> SWITCH_STUN_ATTR_SOURCE_ADDRESS2" "0 \<noteq> SWITCH_STUN_ATTR_ERROR_CODE"
  "0 \<noteq> SWITCH_STUN_ATTR_MESSAGE_INTEGRITY" "0 \<noteq> SWITCH_STUN_ATTR_MAGIC_COOKIE" "0 \<noteq> SWITCH_STUN_ATTR_UNKNOWN_ATTRIBUTES"
  by (simp_all add: address_attr_def number_attr_def stun_constants)

lemma convert_zero: "convert_attribute blk attr 0 len = Inr (True, blk)"
  by (simp add: convert_attribute_def plain_zero Let_def)

lemma load_pairs: "load_le [0, 0] = (0 :: uint16)" "load_le [0xFE, 0xFE] = (0xFEFE :: uint16)"
  by (simp_all add: load_le_def)

lemma turn_same:
  assumes "blk = pre @ [a, a] @ post" "off = int (length pre)"
  shows "turn16 blk off = Inr (load_le [a, a], blk)"
  using turn16_bytes [OF assms(2), of "[a, a]" post] assms(1) by simp

lemma endless_header: "get16 endless_host 2 = Inr 256"
  using get16_host [of 2 "store_le 2 SWITCH_STUN_BINDING_REQUEST" 256] by (simp add: endless_host_def)

lemma endless_zeros:
  assumes "k < 126"
  shows "turn16 endless_host (20 + 2 * int k) = Inr (0, endless_host)"
proof -
  let ?h = "store_le 2 SWITCH_STUN_BINDING_REQUEST @ store_le 2 (256 :: uint16) @ be32 STUN_MAGIC_COOKIE @ replicate 12 0"
  have "252 = 2 * k + (2 + (250 - 2 * k))" using assms by simp
  then have "replicate 252 (0 :: byte) = replicate (2 * k) 0 @ [0, 0] @ replicate (250 - 2 * k) 0"
    by (metis append.simps replicate_add replicate_0 replicate_Suc numeral_2_eq_2)
  then have "endless_host = (?h @ replicate (2 * k) 0) @ [0, 0] @ replicate (250 - 2 * k) 0 @ [0, 0, 0xFE, 0xFE]"
    by (simp add: endless_host_def endless_tail_def)
  from turn_same [OF this] show ?thesis by (simp add: load_pairs)
qed

lemma endless_last:
  "turn16 endless_host 272 = Inr (0, endless_host)" "turn16 endless_host 274 = Inr (0xFEFE, endless_host)"
proof -
  let ?h = "store_le 2 SWITCH_STUN_BINDING_REQUEST @ store_le 2 (256 :: uint16) @ be32 STUN_MAGIC_COOKIE @ replicate 12 0 @ replicate 252 0"
  have "endless_host = ?h @ [0, 0] @ [0xFE, 0xFE]" "endless_host = (?h @ [0, 0]) @ [0xFE, 0xFE] @ []"
    by (simp_all add: endless_host_def endless_tail_def)
  from turn_same [OF this(1), of 272] turn_same [OF this(2), of 274]
  show "turn16 endless_host 272 = Inr (0, endless_host)" "turn16 endless_host 274 = Inr (0xFEFE, endless_host)"
    by (simp_all add: load_pairs)
qed

lemma endless_loop: "k < 64 \<Longrightarrow> parse_attributes n 276 endless_host (20 + 4 * int k) (of_nat (256 - 4 * k)) (4 * int k) = Inl Still_running"
proof (induction n arbitrary: k)
  case (Suc n)
  show ?case
  proof (cases "k = 63")
    case False
    then have k: "Suc k < 64" using Suc.prems by simp
    have t: "turn16 endless_host (20 + 4 * int k + 2) = Inr (0, endless_host)" "turn16 endless_host (20 + 4 * int k) = Inr (0, endless_host)"
      using endless_zeros [of "2 * k + 1"] endless_zeros [of "2 * k"] k by (simp_all add: algebra_simps)
    have p: "padded_length 0 = 0" by (simp add: padded_length_def)
    have l: "(of_nat (256 - 4 * k) - 4 :: uint32) = of_nat (256 - 4 * Suc k)" using k by (simp add: of_nat_diff)
    have s: "sint (of_nat (256 - 4 * Suc k) :: uint32) = int (256 - 4 * Suc k)" by (rule sint_small(1)) simp
    have u: "uint (276 :: uint32) = 276" "uint (256 :: uint16) = 256" by simp_all
    show ?thesis
      unfolding parse_attributes.simps t fbind_Inr prod.case Let_def l s p convert_zero endless_header u
      using Suc.IH [OF k] k by (simp add: algebra_simps)
  next
    case True
    have p: "padded_length 0xFEFE = - 256" by (simp add: padded_length_def)
    show ?thesis using Suc.IH [of 0] True by (simp add: endless_last p convert_zero endless_header)
  qed
qed simp

lemma endless_parse: "switch_stun_packet_parse rounds endless_packet 276 = Inl Still_running"
proof -
  have t: "turn16 endless_packet 0 = Inr (SWITCH_STUN_BINDING_REQUEST, store_le 2 SWITCH_STUN_BINDING_REQUEST @ be16 256 @
      be32 STUN_MAGIC_COOKIE @ replicate 12 0 @ endless_tail)"
    unfolding endless_packet_def using turn16_be [of 0 "[]"] by simp
  have t2: "turn16 (store_le 2 SWITCH_STUN_BINDING_REQUEST @ be16 256 @ be32 STUN_MAGIC_COOKIE @ replicate 12 0 @ endless_tail) 2 = Inr (256, endless_host)"
    using turn16_be [of 2 "store_le 2 SWITCH_STUN_BINDING_REQUEST"] by (simp add: endless_host_def)
  have v: "valid_packet_type SWITCH_STUN_BINDING_REQUEST" by (simp add: valid_packet_type_def)
  have "parse_attributes rounds 276 endless_host 20 256 0 = Inl Still_running" using endless_loop [of 0 rounds] by simp
  then show ?thesis unfolding switch_stun_packet_parse_def t fbind_Inr prod.case t2 Let_def using v by simp
qed


text \<open>C39: the parser does not return on every packet: for a packet of 276 bytes with a consistent header, whose
  64th attribute has the length \<open>0xFEFE\<close>, it is still in its loop after any number of rounds.\<close>

theorem stun_parse_endless:
  "length endless_packet = 276 \<and> (\<forall>rounds. switch_stun_packet_parse rounds endless_packet 276 = Inl Still_running)"
  using endless_parse by (simp add: endless_packet_def endless_tail_def)

section \<open>Packets that lead out of the buffer\<close>

lemma beyond_end:
  assumes "attr = int (length blk)"
  shows "parse_attributes (Suc n) len blk attr left xlen = Inl Out_of_bounds"
proof -
  have "turn16 blk (attr + 2) = Inl Out_of_bounds"
    using assms by (simp add: turn16_def get16_def peek_def mem_read_def nat_add_distrib)
  then show ?thesis by simp
qed

lemma parse_items_more:
  assumes "is \<noteq> []" "list_all good_item is" "attr = int (length pre)" "20 \<le> length pre" "items_size is < 2 ^ 31"
    "uint len = attr + int (items_size is)" "get16 pre 2 = Inr hlen" "xlen + int (items_size is) < uint hlen"
  shows "parse_attributes (Suc (length is + k)) len (pre @ concat (map wire is)) attr (of_nat (items_size is)) xlen = Inl Out_of_bounds"
  using assms
proof (induction "is" arbitrary: pre attr xlen)
  case (Cons i "is")
  have g: "good_item i" using Cons.prems(2) by simp
  have step: "parse_attributes (Suc (length (i # is) + k)) len (pre @ concat (map wire (i # is))) attr (of_nat (items_size (i # is))) xlen =
      parse_attributes (Suc (length is + k)) len ((pre @ host i) @ concat (map wire is)) (attr + int (item_size i)) (of_nat (items_size is)) (xlen + int (item_size i))"
    using parse_item [OF g Cons.prems(3,4), of _ "items_size is" len hlen "Suc (length is + k)" "concat (map wire is)" xlen] Cons.prems
    by (simp add: items_size_def algebra_simps del: parse_attributes.simps)
  show ?case
  proof (cases "is = []")
    case True
    then show ?thesis using beyond_end [of "attr + int (item_size i)" "pre @ host i"] step Cons.prems(3) item_lengths(2) [OF g]
      by (simp add: items_size_def del: parse_attributes.simps)
  next
    case False
    have "get16 (pre @ host i) 2 = Inr hlen" using Cons.prems(4,7) by (simp add: get16_def peek_def mem_read_def)
    then show ?thesis
      using step Cons.IH [OF False, of "attr + int (item_size i)" "pre @ host i" "xlen + int (item_size i)"] Cons.prems item_lengths(2) [OF g]
      by (simp add: items_size_def del: parse_attributes.simps)
  qed
qed simp

lemma parse_truncated:
  assumes t: "8 \<le> items_size is" "valid_packet_type ty" "length ident = 12" "list_all good_item is" "length is < rounds"
    and u: "unat (len :: uint32) = 20 + items_size is" "items_size is < unat (hl :: uint16)"
  shows "switch_stun_packet_parse rounds (be16 ty @ be16 hl @ be32 STUN_MAGIC_COOKIE @ ident @ concat (map wire is)) len = Inl Out_of_bounds"
proof -
  let ?t = "items_size is" and ?cs = "be32 STUN_MAGIC_COOKIE @ ident" and ?c = "concat (map wire is)"
  let ?pre = "store_le 2 ty @ store_le 2 hl @ be32 STUN_MAGIC_COOKIE @ ident"
  have ne: "is \<noteq> []" using t(1) by (auto simp: items_size_def)
  have "unat hl < 2 ^ 16" using unsigned_less [of hl] by simp
  then have lt: "?t < 2 ^ 31" using u(2) by simp
  have "int (unat len) = int (20 + ?t)" "int ?t < int (unat hl)" using u by (simp_all only: of_nat_less_iff)
  then have ui: "uint len = 20 + int ?t" "int ?t < uint hl" by (simp_all only: uint_nat of_nat_add of_nat_numeral)
  have ns: "\<not> len < 20" "hl \<noteq> 0" using u t(1) by (auto simp: word_less_nat_alt)
  have ls: "unat (len - 20) = ?t" using ns(1) u(1) by (simp add: unat_sub word_le_nat_alt word_less_nat_alt)
  then have left: "len - 20 = of_nat ?t" by (metis of_nat_unat ucast_id)
  have nl: "len - 20 \<noteq> 0" "\<not> len - 20 < 8" using ls t(1) by (auto simp: word_less_nat_alt)
  have t1: "turn16 (be16 ty @ be16 hl @ ?cs @ ?c) 0 = Inr (ty, store_le 2 ty @ be16 hl @ ?cs @ ?c)"
    using turn16_be [of 0 "[]"] by simp
  have t2: "turn16 (store_le 2 ty @ be16 hl @ ?cs @ ?c) 2 = Inr (hl, ?pre @ ?c)"
    using turn16_be [of 2 "store_le 2 ty" hl "?cs @ ?c"] by simp
  have h: "get16 ?pre 2 = Inr hl" using get16_host [of 2 "store_le 2 ty" hl ?cs] by simp
  obtain k where k: "rounds = Suc (length is + k)" using t(5) less_iff_Suc_add by auto
  have loop: "parse_attributes rounds len (?pre @ ?c) 20 (of_nat ?t) 0 = Inl Out_of_bounds"
    unfolding k by (rule parse_items_more [OF ne t(4), where hlen = hl]) (use t lt ui h in \<open>simp_all del: parse_attributes.simps\<close>)
  have "switch_stun_packet_parse rounds (be16 ty @ be16 hl @ ?cs @ ?c) len = Inl Out_of_bounds"
    unfolding switch_stun_packet_parse_def t1 fbind_Inr prod.case t2 Let_def
    using ns nl t(2) by (simp only: left loop if_False if_True not_not simp_thms fbind_Inl)
  then show ?thesis by simp
qed

text \<open>a packet of well-formed attributes whose header promises more than they take makes the parser read
  and write the two fields of an attribute behind the end of the data.\<close>

theorem stun_truncated_overruns:
  assumes "valid_packet_type ty" "length ident = 12" "list_all good_item is" "8 \<le> items_size is" "items_size is < unat hl"
    and "length is < rounds"
  shows "switch_stun_packet_parse rounds (be16 ty @ be16 hl @ be32 STUN_MAGIC_COOKIE @ ident @ concat (map wire is))
     (of_nat (20 + items_size is)) = Inl Out_of_bounds"
proof (rule parse_truncated [OF assms(4,1,2,3,6) _ assms(5)])
  have "unat hl < 2 ^ 16" using unsigned_less [of hl] by simp
  then show "unat (of_nat (20 + items_size is) :: uint32) = 20 + items_size is"
    using assms(5) unfolding unat_of_nat take_bit_eq_mod by simp
qed

theorem stun_truncated_overruns_witness:
  "switch_stun_packet_parse 2 (be16 SWITCH_STUN_BINDING_REQUEST @ be16 12 @ be32 STUN_MAGIC_COOKIE @ replicate 12 0 @
     wire (SWITCH_STUN_ATTR_USERNAME, [1, 2, 3, 4], [])) 28 = Inl Out_of_bounds"
proof -
  let ?i = "(SWITCH_STUN_ATTR_USERNAME, [1, 2, 3, 4 :: byte], [] :: byte list)"
  have "good_item ?i" by (simp add: good_item_def address_attr_def number_attr_def stun_constants)
  moreover have "items_size [?i] = 8" by (simp add: items_size_def item_size_def)
  moreover have "valid_packet_type SWITCH_STUN_BINDING_REQUEST" by (simp add: valid_packet_type_def)
  ultimately show ?thesis using stun_truncated_overruns [of SWITCH_STUN_BINDING_REQUEST "replicate 12 0" "[?i]" 12 2] by simp
qed


section \<open>The packets of ICE\<close>

definition header_id :: "(nat \<Rightarrow> nat \<Rightarrow> nat) \<Rightarrow> byte list option \<Rightarrow> byte list" where
  "header_id pick ident = (case ident of Some cs \<Rightarrow> take 12 cs | None \<Rightarrow> switch_stun_random_string pick 12 None)"

lemma build_header_at:
  assumes "\<forall>cs. ident = Some cs \<longrightarrow> 12 \<le> length cs" "20 \<le> n"
  shows "switch_stun_packet_build_header pick ty ident (replicate n 0) =
     Inr (wire_packet ty (header_id pick ident) [] @ replicate (n - 20) 0)" (is ?header)
    and "length (header_id pick ident) = 12" (is ?twelve)
proof -
  let ?id = "header_id pick ident" and ?r = "replicate (n - 20) (0 :: byte)"
  show id: ?twelve using assms(1) by (auto simp: header_id_def random_length split: option.splits)
  have cs: "(case ident of Some cs \<Rightarrow> copy_bytes cs 12 | None \<Rightarrow> Inr (switch_stun_random_string pick 12 None)) = Inr ?id"
    using assms(1) by (auto simp: header_id_def copy_bytes_def mem_read_def split: option.splits)
  have n: "replicate n (0 :: byte) = [0, 0] @ [0, 0] @ replicate 4 0 @ replicate 12 0 @ ?r"
    using room_split [OF assms(2), of "0 :: byte"] by (simp add: numeral_eq_Suc)
  have p1: "put16 (replicate n 0) 0 (ntohs ty) = Inr (be16 ty @ [0, 0] @ replicate 4 0 @ replicate 12 0 @ ?r)"
    using put16_at [of 0 "[]" "[0, 0]"] unfolding n by (simp add: store_ntohs)
  have z: "store_le 2 (0 :: uint16) = be16 0" using store_ntohs [of 0] by (simp add: ntohs_def load_le_def store_le_def upt_rec)
  have p2: "put16 (be16 ty @ [0, 0] @ replicate 4 0 @ replicate 12 0 @ ?r) 2 0 = Inr ((be16 ty @ be16 0) @ replicate 4 0 @ replicate 12 0 @ ?r)"
    using put16_at [of 2 "be16 ty" "[0, 0]" _ 0] by (simp add: z)
  have p3: "put32 ((be16 ty @ be16 0) @ replicate 4 0 @ replicate 12 0 @ ?r) 4 (ntohl STUN_MAGIC_COOKIE) =
      Inr ((be16 ty @ be16 0 @ be32 STUN_MAGIC_COOKIE) @ replicate 12 0 @ ?r)"
    using put32_at [of 4 "be16 ty @ be16 0" "replicate 4 0" "replicate 12 0 @ ?r"] by (simp add: store_ntohl)
  have p4: "poke ((be16 ty @ be16 0 @ be32 STUN_MAGIC_COOKIE) @ replicate 12 0 @ ?r) 8 ?id = Inr ((be16 ty @ be16 0 @ be32 STUN_MAGIC_COOKIE) @ ?id @ ?r)"
    by (rule poke_at) (use id in simp_all)
  show ?header unfolding switch_stun_packet_build_header_def p1 fbind_Inr p2 p3 cs p4 by (simp add: wire_packet_def items_size_def)
qed

text \<open>Sending: the bytes the header counts.\<close>

lemma send_at:
  assumes "length ident = 12" "items_size is < 256"
  shows "fbind (next_slot (wire_packet ty ident is @ room)) (\<lambda>bytes. peek (wire_packet ty ident is @ room) 0 (nat bytes)) = Inr (wire_packet ty ident is)"
proof -
  have "peek (wire_packet ty ident is @ room) 0 (20 + items_size is) = Inr (wire_packet ty ident is)"
    using peek_at [of 0 "[]" "20 + items_size is" "wire_packet ty ident is" room] assms(1) by (simp add: wire_packet_length)
  then show ?thesis unfolding packet_slot [OF assms(2)] fbind_Inr by (simp add: nat_add_distrib)
qed

text \<open>A packet of good items is accepted, also when it is parsed together with what stands behind it.\<close>

lemma parse_wire_packet:
  assumes "valid_packet_type ty" "length ident = 12" "list_all good_item is" "8 \<le> items_size is" "items_size is < 256" "length is \<le> rounds"
    and "unat (len :: uint32) = 20 + items_size is + m" "m < 2 ^ 16"
  shows "switch_stun_packet_parse rounds (wire_packet ty ident is @ post) len = Inr (True, host_packet ty ident is @ post)"
proof -
  have "unat (of_nat (items_size is) :: uint16) = items_size is" using assms(5) by (simp add: unat_of_nat take_bit_eq_mod)
  then show ?thesis
    using parse_good [OF assms(4,1,2,3,6,7), of "of_nat (items_size is)" post] assms(5,8) by (simp add: wire_packet_def host_packet_def)
qed

lemma parse_built:
  assumes "built ty ident i room k n b" "valid_packet_type ty" "length ident = 12" "8 \<le> room - n" "room - n < 256" "k \<le> rounds"
  obtains "is" where "fbind (next_slot b) (\<lambda>bytes. peek b 0 (nat bytes)) = Inr (wire_packet ty ident (i # is))"
    "length (wire_packet ty ident (i # is)) = 20 + (room - n)"
    "switch_stun_packet_parse rounds (wire_packet ty ident (i # is)) (of_nat (20 + (room - n))) = Inr (True, host_packet ty ident (i # is))"
proof -
  obtain "is" where b: "b = wire_packet ty ident (i # is) @ replicate n 0" "list_all good_item (i # is)" "items_size (i # is) + n = room" "length (i # is) = k"
    using assms(1) by (auto simp: built_def)
  have sz: "items_size (i # is) = room - n" using b(3) by simp
  have u: "unat (of_nat (20 + (room - n)) :: uint32) = 20 + items_size (i # is) + 0"
    using assms(5) unfolding unat_of_nat take_bit_eq_mod sz by simp
  show ?thesis
  proof (rule that)
    show "fbind (next_slot b) (\<lambda>bytes. peek b 0 (nat bytes)) = Inr (wire_packet ty ident (i # is))"
      unfolding b(1) by (rule send_at) (use assms sz in simp_all)
    show "length (wire_packet ty ident (i # is)) = 20 + (room - n)" using wire_packet_length [OF assms(3)] sz by simp
    show "switch_stun_packet_parse rounds (wire_packet ty ident (i # is)) (of_nat (20 + (room - n))) = Inr (True, host_packet ty ident (i # is))"
      using parse_wire_packet [OF assms(2,3) b(2), of rounds _ 0 "[]"] assms(4-6) sz b(4) u by simp
  qed
qed

lemma first_username:
  assumes "length ident = 12" "length user \<le> 255"
  shows "switch_stun_packet_attribute_get_username (host_packet ty ident (text_item SWITCH_STUN_ATTR_USERNAME user # is)) 20 256 = Inr user"
proof -
  let ?l = "of_nat (length user) :: uint16"
  let ?pre = "store_le 2 ty @ store_le 2 (of_nat (items_size (text_item SWITCH_STUN_ATTR_USERNAME user # is)) :: uint16) @ be32 STUN_MAGIC_COOKIE @ ident @ store_le 2 SWITCH_STUN_ATTR_USERNAME"
  let ?post = "replicate (text_padding (length user)) 0 @ concat (map host is)"
  have h: "host_value SWITCH_STUN_ATTR_USERNAME user = user"
    by (simp add: host_value_def address_attr_def number_attr_def stun_constants)
  have b: "host_packet ty ident (text_item SWITCH_STUN_ATTR_USERNAME user # is) = ?pre @ store_le 2 ?l @ user @ ?post"
    by (simp add: host_packet_def text_item_def host_def h)
  have u: "unat ?l = length user" "?l < 256" using assms(2) by (simp_all add: unat_of_nat take_bit_eq_mod word_less_nat_alt)
  have g: "get16 (?pre @ store_le 2 ?l @ user @ ?post) (20 + 2) = Inr ?l" by (rule get16_host) (use assms(1) in simp)
  have p: "peek ((?pre @ store_le 2 ?l) @ user @ ?post) (20 + 4) (length user) = Inr user" by (rule peek_at) (use assms(1) in simp_all)
  show ?thesis unfolding switch_stun_packet_attribute_get_username_def b g fbind_Inr using u p by simp
qed


text \<open>The tail of a request with message integrity: role, integrity and fingerprint.\<close>

lemma ice_role:
  assumes "built ty ident i room k n b" "length ident = 12" "16 \<le> n" "room - n + 16 < 256"
  obtains m k' b' where "(if controlled then switch_stun_packet_attribute_add_controlled pick b
      else fbind (switch_stun_packet_attribute_add_controlling pick b) switch_stun_packet_attribute_add_use_candidate) = Inr b'"
    "built ty ident i room k' m b'" "n - 16 \<le> m" "m \<le> n" "k' \<le> k + 2"
proof (cases controlled)
  case True
  obtain b' where "switch_stun_packet_attribute_add_controlled pick b = Inr b'" "built ty ident i room (Suc k) (n - 12) b'"
    by (rule controlled.adds [OF assms(1,2)]; (blast | (use assms(3,4) in linarith)))
  then show ?thesis using True that [of b' "Suc k" "n - 12"] by simp
next
  case False
  obtain b1 where b1: "switch_stun_packet_attribute_add_controlling pick b = Inr b1" "built ty ident i room (Suc k) (n - 12) b1"
    by (rule controlling.adds [OF assms(1,2)]; (blast | (use assms(3,4) in linarith)))
  obtain b' where "switch_stun_packet_attribute_add_use_candidate b1 = Inr b'" "built ty ident i room (Suc (Suc k)) (n - 12 - 4) b'"
    by (rule use_candidate.adds [OF b1(2) assms(2)]; (blast | (use assms(3,4) in linarith)))
  then show ?thesis using False b1 that [of b' "Suc (Suc k)" "n - 16"] by simp
qed

lemma ice_seal:
  assumes "\<And>pass data. length (hmac pass data) = 20"
    and "built ty ident i room k n b" "length ident = 12" "32 \<le> n" "room - n + 32 < 256"
  obtains b' where "fbind (switch_stun_packet_attribute_add_integrity hmac pass b) switch_stun_packet_attribute_add_fingerprint = Inr b'"
    "built ty ident i room (k + 2) (n - 32) b'"
proof -
  obtain b1 where b1: "switch_stun_packet_attribute_add_integrity hmac pass b = Inr b1" "built ty ident i room (Suc k) (n - 24) b1"
    by (rule attribute_adder.adds [OF add_integrity_adder [of hmac, OF assms(1)] assms(2,3)]; (blast | (use assms(4,5) in linarith)))
  obtain b' where "switch_stun_packet_attribute_add_fingerprint b1 = Inr b'" "built ty ident i room (Suc (Suc k)) (n - 24 - 8) b'"
    by (rule fingerprint.adds [OF b1(2) assms(3)]; (blast | (use assms(4,5) in linarith)))
  then show ?thesis using b1 that by simp
qed

text \<open>C15: a connectivity check of ICE fits its buffer of 256 bytes when the user name and the software name have
  at most 166 bytes together, and the parser of the other side accepts exactly the bytes that are sent and
  finds the user name in them.\<close>

theorem ice_request_parsed:
  assumes hmac: "\<And>pass data. length (hmac pass data) = 20" and len: "length user + length sw \<le> 166"
  shows "\<exists>sent parsed. ice_request pick hmac True controlled user priority sw rpass = Inr sent \<and> length sent \<le> 256 \<and>
     switch_stun_packet_parse 7 sent (of_nat (length sent)) = Inr (True, parsed) \<and>
     switch_stun_packet_attribute_get_username parsed 20 256 = Inr user"
proof -
  let ?i = "text_item SWITCH_STUN_ATTR_USERNAME user" and ?ident = "header_id pick None"
  let ?u = "4 + length user + text_padding (length user)" and ?s = "4 + length sw + text_padding (length sw)"
  have pad: "text_padding (length user) < 4" "text_padding (length sw) < 4" by (rule text_padding)+
  have id: "length ?ident = 12" using build_header_at(2) [of None 256] by simp
  have b1: "switch_stun_packet_build_header pick SWITCH_STUN_BINDING_REQUEST None (replicate 256 0) =
      Inr (wire_packet SWITCH_STUN_BINDING_REQUEST ?ident [] @ replicate 236 0)"
    using build_header_at(1) [of None 256] by simp
  obtain b2 where b2: "switch_stun_packet_attribute_add_username pick (Some user) (of_nat (length user)) (wire_packet SWITCH_STUN_BINDING_REQUEST ?ident [] @ replicate 236 0) = Inr b2"
      "built SWITCH_STUN_BINDING_REQUEST ?ident ?i 236 1 (236 - ?u) b2"
    by (rule username.adds_first [OF id]; (blast | (use len pad in linarith)))
  obtain b3 where b3: "switch_stun_packet_attribute_add_priority priority b2 = Inr b3"
      "built SWITCH_STUN_BINDING_REQUEST ?ident ?i 236 (Suc 1) (236 - ?u - 8) b3"
    by (rule priority.adds [OF b2(2) id]; (blast | (use len pad in linarith)))
  obtain b4 where b4: "switch_stun_packet_attribute_add_software pick (Some sw) (of_nat (length sw)) b3 = Inr b4"
      "built SWITCH_STUN_BINDING_REQUEST ?ident ?i 236 (Suc (Suc 1)) (236 - ?u - 8 - ?s) b4"
    by (rule software.adds [OF b3(2) id]; (blast | (use len pad in linarith)))
  obtain m k b5 where b5: "(if controlled then switch_stun_packet_attribute_add_controlled (\<lambda>x. pick (x + 12)) b4
      else fbind (switch_stun_packet_attribute_add_controlling (\<lambda>x. pick (x + 12)) b4) switch_stun_packet_attribute_add_use_candidate) = Inr b5"
      "built SWITCH_STUN_BINDING_REQUEST ?ident ?i 236 k m b5" "236 - ?u - 8 - ?s - 16 \<le> m" "m \<le> 236 - ?u - 8 - ?s" "k \<le> 5"
    by (rule ice_role [OF b4(2) id]; (force | (use len pad in linarith)))
  obtain b6 where b6: "fbind (switch_stun_packet_attribute_add_integrity hmac rpass b5) switch_stun_packet_attribute_add_fingerprint = Inr b6"
      "built SWITCH_STUN_BINDING_REQUEST ?ident ?i 236 (k + 2) (m - 32) b6"
    by (rule ice_seal [of hmac, OF hmac b5(2) id]; (blast | (use b5(3,4) len pad in linarith)))
  have v: "valid_packet_type SWITCH_STUN_BINDING_REQUEST" by (simp add: valid_packet_type_def)
  obtain "is" where p: "fbind (next_slot b6) (\<lambda>bytes. peek b6 0 (nat bytes)) = Inr (wire_packet SWITCH_STUN_BINDING_REQUEST ?ident (?i # is))"
      "length (wire_packet SWITCH_STUN_BINDING_REQUEST ?ident (?i # is)) = 20 + (236 - (m - 32))"
      "switch_stun_packet_parse 7 (wire_packet SWITCH_STUN_BINDING_REQUEST ?ident (?i # is)) (of_nat (20 + (236 - (m - 32)))) =
        Inr (True, host_packet SWITCH_STUN_BINDING_REQUEST ?ident (?i # is))"
    by (rule parse_built [OF b6(2) v id]; (blast | (use b5(3-5) len pad in linarith)))
  have "ice_request pick hmac True controlled user priority sw rpass = Inr (wire_packet SWITCH_STUN_BINDING_REQUEST ?ident (?i # is))"
    unfolding ice_request_def b1 fbind_Inr b2(1) b3(1) b4(1) b5(1) b6(1) by (simp add: b3(1) b4(1) b5(1) b6(1) p(1))
  moreover have "length user \<le> 255" using len by simp
  ultimately show ?thesis using p(2,3) first_username [OF id] by auto
qed


theorem ice_request_parsed_witness:
  "\<exists>sent parsed. ice_request (\<lambda>x max. x) (\<lambda>pass data. replicate 20 7) True False [97, 58, 98] 99 [70, 83] [1] = Inr sent \<and> length sent \<le> 256 \<and>
     switch_stun_packet_parse 7 sent (of_nat (length sent)) = Inr (True, parsed) \<and>
     switch_stun_packet_attribute_get_username parsed 20 256 = Inr [97, 58, 98]"
  by (rule ice_request_parsed) simp_all

section \<open>Looking up an address\<close>

lemma store_xor: "store_le n (a XOR b) = map2 (XOR) (store_le n a) (store_le n b)" for a b :: "'a::len word"
  by (rule nth_equalityI) (simp_all add: store_le_def bit_eq_iff bit_simps)

lemma ntohl_xor: "ntohl (a XOR b) = ntohl a XOR ntohl b"
proof -
  have "rev (store_le 4 (a XOR b)) = map2 (XOR) (be32 a) (be32 b)" by (simp add: store_xor be32_def rev_map zip_rev)
  also have "\<dots> = store_le 4 (ntohl a XOR ntohl b)" by (simp add: store_xor store_ntohl)
  finally show ?thesis using load_store_le [of 4 "ntohl a XOR ntohl b"] by (simp add: ntohl_def)
qed

lemma dotted_decimal: "dotted (Suc n) (decimal m @ CHR ''.'' # q) = of_nat m # dotted n q"
proof -
  have "list_all is_digit (decimal m)" by (rule decimal_digits)
  then have "list_all (\<lambda>c. c \<noteq> CHR ''.'') (decimal m)" by (rule list.pred_mono_strong) (auto simp: is_digit_def char_code_def)
  then have "dropWhile (\<lambda>c. c \<noteq> CHR ''.'') (decimal m @ CHR ''.'' # q) = CHR ''.'' # q" by (simp add: list_all_iff)
  moreover have "atoi (decimal m @ CHR ''.'' # q) = int m" by (rule atoi_decimal) (simp add: is_digit_def char_code_def)
  ultimately show ?thesis by simp
qed

lemma dotted_last: "dotted (Suc n) (decimal m) = [of_nat m]"
proof -
  have "list_all is_digit (decimal m)" by (rule decimal_digits)
  then have "list_all (\<lambda>c. c \<noteq> CHR ''.'') (decimal m)" by (rule list.pred_mono_strong) (auto simp: is_digit_def char_code_def)
  then have "dropWhile (\<lambda>c. c \<noteq> CHR ''.'') (decimal m) = []" by (simp add: list_all_iff)
  then show ?thesis using atoi_decimal [of "[]" m] by (simp del: dropWhile_eq_Nil_conv)
qed

text \<open>A printed address is read back.\<close>

lemma address_printed:
  assumes "length bs = 4"
  shows "address_bytes (ip_string bs) = bs"
proof -
  obtain b0 b1 b2 b3 where bs: "bs = [b0, b1, b2, b3]" using assms by (auto simp: length_Suc_conv eval_nat_numeral)
  have "ip_string bs = decimal (unat b0) @ CHR ''.'' # decimal (unat b1) @ CHR ''.'' # decimal (unat b2) @ CHR ''.'' # decimal (unat b3)"
    by (simp add: ip_string_def bs upt_rec)
  then have "dotted (Suc (Suc (Suc (Suc 0)))) (ip_string bs) = bs" by (simp only: dotted_decimal dotted_last bs) simp
  then show ?thesis using assms by (simp add: address_bytes_def numeral_eq_Suc)
qed

text \<open>Reading the first attribute of a parsed packet, an exclusive-or mapped address.\<close>

lemma visit_xor_address:
  assumes "length ident = 12" "length addr = 4"
    and i_def: "i = address_item SWITCH_STUN_ATTR_XOR_MAPPED_ADDRESS (xor_port port) (xor_address addr)"
  shows "visit_attribute funny (host_packet ty ident (i # is) @ post) 20 r =
     Inr (store_le 2 ty @ store_le 2 (of_nat (items_size (i # is)) :: uint16) @ be32 STUN_MAGIC_COOKIE @ ident @
       store_le 2 SWITCH_STUN_ATTR_XOR_MAPPED_ADDRESS @ store_le 2 (8 :: uint16) @ [0, 1] @ store_le 2 port @ addr @ concat (map host is) @ post,
       r\<lparr>sr_ip := ip_string addr, sr_port := port\<rparr>)"
proof -
  let ?c = "be32 STUN_MAGIC_COOKIE" and ?x = "SWITCH_STUN_ATTR_XOR_MAPPED_ADDRESS" and ?q = "concat (map host is) @ post"
  let ?h = "store_le 2 ty @ store_le 2 (of_nat (items_size (i # is)) :: uint16)"
  let ?v = "?h @ ?c @ ident @ store_le 2 ?x @ store_le 2 (8 :: uint16) @ [0, 1]"
  let ?w = "ntohl (load_le addr) XOR STUN_MAGIC_COOKIE" and ?p = "store_le 2 (xor_port port)"
  have turn: "host_value ?x ([0, 1] @ be16 (xor_port port) @ xor_address addr) = [0, 1] @ ?p @ xor_address addr"
    by (simp add: host_value_def address_attr_def turn_port_def be16_def)
  have b: "host_packet ty ident (i # is) @ post = ?h @ ?c @ ident @ store_le 2 ?x @ store_le 2 (8 :: uint16) @ [0, 1] @ ?p @ xor_address addr @ ?q"
    using turn by (simp add: host_packet_def i_def address_item_def host_def xor_address_def)
  have t: "get16 (?h @ ?c @ ident @ store_le 2 ?x @ store_le 2 (8 :: uint16) @ [0, 1] @ ?p @ xor_address addr @ ?q) 20 = Inr ?x"
    using get16_host [of 20 "?h @ ?c @ ident" ?x] assms(1) by simp
  have c: "get32 (?h @ ?c @ ident @ store_le 2 ?x @ store_le 2 (8 :: uint16) @ [0, 1] @ ?p @ xor_address addr @ ?q) 4 = Inr (ntohl STUN_MAGIC_COOKIE)"
    using get32_at [of 4 ?h ?c] by (simp add: load_be32)
  have a: "get32 ((?v @ ?p) @ xor_address addr @ ?q) (20 + 4 + 4) = Inr (ntohl ?w)"
    using get32_at [of "20 + 4 + 4" "?v @ ?p" "xor_address addr" ?q] assms(1) by (simp add: xor_address_def load_be32)
  have w: "ntohl ?w XOR ntohl STUN_MAGIC_COOKIE = load_le addr" by (simp add: ntohl_xor [symmetric] xor.assoc)
  have s: "store_le 4 (load_le addr :: uint32) = addr" using store_load_le [of addr, where 'a = 32] assms(2) by simp
  have pa: "put32 ((?v @ ?p) @ xor_address addr @ ?q) (20 + 4 + 4) (load_le addr) = Inr ((?v @ ?p) @ addr @ ?q)"
    using put32_at [of "20 + 4 + 4" "?v @ ?p" "xor_address addr" ?q "load_le addr"] assms(1) by (simp add: s xor_address_def)
  have pk: "peek ((?v @ ?p) @ addr @ ?q) (20 + 4 + 4) 4 = Inr addr" by (rule peek_at) (use assms in simp_all)
  have gp: "get16 (?v @ ?p @ addr @ ?q) (20 + 4 + 2) = Inr (xor_port port)" by (rule get16_host) (use assms in simp)
  have px: "xor_port port XOR ucast (drop_bit 16 (ntohl (ntohl STUN_MAGIC_COOKIE))) = port" by (simp add: xor_port_def xor.assoc)
  have pp: "put16 (?v @ ?p @ addr @ ?q) (20 + 4 + 2) port = Inr (?v @ store_le 2 port @ addr @ ?q)"
    by (rule put16_at) (use assms in simp_all)
  have "switch_stun_packet_attribute_get_xor_mapped_address (?v @ ?p @ xor_address addr @ ?q) 20 (ntohl STUN_MAGIC_COOKIE) =
      Inr (ip_string addr, port, ?v @ store_le 2 port @ addr @ ?q)"
    unfolding switch_stun_packet_attribute_get_xor_mapped_address_def Let_def
    using a pa pk gp pp by (simp only: append_assoc fbind_Inr w px prod.case)
  then show ?thesis unfolding visit_attribute_def b t fbind_Inr c by (simp add: stun_constants)
qed


text \<open>The walk over attributes that say nothing about the address.\<close>

definition silent_item :: "item \<Rightarrow> bool" where
  "silent_item i \<longleftrightarrow> fst i \<notin> {SWITCH_STUN_ATTR_MAPPED_ADDRESS, SWITCH_STUN_ATTR_XOR_MAPPED_ADDRESS, SWITCH_STUN_ATTR_USERNAME}"

lemma host_fields:
  assumes "good_item i" "off = int (length pre)"
  shows "get16 (pre @ host i @ post) off = Inr (fst i)"
    and "\<exists>len. get16 (pre @ host i @ post) (off + 2) = Inr len \<and> 4 + padded_length len = int (item_size i)"
proof -
  obtain ty v pad where i: "i = (ty, v, pad)" by (cases i) auto
  show "get16 (pre @ host i @ post) off = Inr (fst i)"
    using get16_host [OF assms(2), of ty] by (simp add: i host_def)
  have "padded_length (of_nat (length v)) = int (length v + length pad)"
    by (rule padded_good) (use assms(1) in \<open>simp_all add: i good_item_def\<close>)
  moreover have "get16 (pre @ host i @ post) (off + 2) = Inr (of_nat (length v))"
    using get16_host [of "off + 2" "pre @ store_le 2 ty" "of_nat (length v)"] assms(2) by (simp add: i host_def)
  ultimately show "\<exists>len. get16 (pre @ host i @ post) (off + 2) = Inr len \<and> 4 + padded_length len = int (item_size i)"
    by (auto simp: i item_size_def)
qed

lemma visit_silent:
  assumes "good_item i" "silent_item i" "off = int (length pre)"
  shows "visit_attribute funny (pre @ host i @ post) off r = Inr (pre @ host i @ post, r)"
  unfolding visit_attribute_def host_fields(1) [OF assms(1,3)] fbind_Inr using assms(2) by (simp add: silent_item_def)

text \<open>Stepping over an item ends the walk or leads to the next item.\<close>

lemma next_item:
  assumes "good_item i" "list_all good_item is" "attr = int (length pre)" "end \<le> attr + int (items_size (i # is))"
  obtains "switch_stun_packet_next_attribute (pre @ concat (map host (i # is)) @ post) attr end = Inr (False, attr + int (item_size i))"
  | j js where "is = j # js" "switch_stun_packet_next_attribute (pre @ concat (map host (i # is)) @ post) attr end = Inr (True, attr + int (item_size i))"
proof -
  let ?b = "pre @ concat (map host (i # is)) @ post" and ?a = "attr + int (item_size i)"
  obtain len where len: "get16 ?b (attr + 2) = Inr len" "attr + 4 + padded_length len = ?a"
    using host_fields(2) [OF assms(1,3), of "concat (map host is) @ post"] by auto
  show ?thesis
  proof (cases "?a < end")
    case False
    then have "switch_stun_packet_next_attribute ?b attr end = Inr (False, ?a)"
      unfolding switch_stun_packet_next_attribute_def len(1) fbind_Inr Let_def len(2) by simp
    then show ?thesis by (rule that(1))
  next
    case True
    then obtain j js where js: "is = j # js" using assms(4) by (cases "is") (auto simp: items_size_def)
    have a: "?a = int (length (pre @ host i))" using assms(1,3) item_lengths(2) by simp
    obtain len1 where len1: "get16 ?b (?a + 2) = Inr len1"
      using host_fields(2) [OF _ a, of j "concat (map host js) @ post"] assms(2) by (auto simp: js)
    have ty: "get16 ?b ?a = Inr (fst j)" using host_fields(1) [OF _ a, of j "concat (map host js) @ post"] assms(2) by (simp add: js)
    have "switch_stun_packet_next_attribute ?b attr end =
        (if fst j = 0 then Inr (False, ?a) else Inr (?a + 4 * padded_length len1 < end, ?a))"
      unfolding switch_stun_packet_next_attribute_def len(1) fbind_Inr Let_def len(2) ty len1 using True by simp
    then show ?thesis using that js by (auto split: if_splits)
  qed
qed

lemma walk_step:
  assumes v: "visit_attribute funny b0 attr r = Inr (pre @ concat (map host (i # is)) @ post, r1)"
    and i: "good_item i" "list_all good_item is" and p: "attr = int (length pre)" "4 \<le> length pre" "get16 pre 2 = Inr hlen"
    and "end": "end \<le> attr + int (items_size (i # is))"
    and rest: "\<And>xl. is \<noteq> [] \<Longrightarrow> walk_attributes n funny ((pre @ host i) @ concat (map host is) @ post) (attr + int (item_size i)) end xl r1 =
      Inr ((pre @ host i) @ concat (map host is) @ post, r1)"
  shows "walk_attributes (Suc n) funny b0 attr end xlen r = Inr (pre @ concat (map host (i # is)) @ post, r1)"
proof -
  let ?b = "pre @ concat (map host (i # is)) @ post" and ?a = "attr + int (item_size i)"
  from i p(1) "end" show ?thesis
  proof (cases rule: next_item [where post = post])
    case 1
    then show ?thesis unfolding walk_attributes.simps v fbind_Inr prod.case by simp
  next
    case (2 j js)
    have a: "?a = int (length (pre @ host i))" using p(1) item_lengths(2) [OF i(1)] by simp
    obtain len1 where len1: "get16 ?b (?a + 2) = Inr len1"
      using host_fields(2) [OF _ a, of j "concat (map host js) @ post"] i(2) by (auto simp: 2)
    have h: "get16 ?b 2 = Inr hlen" using p(2,3) by (simp add: get16_def peek_def mem_read_def)
    show ?thesis unfolding walk_attributes.simps v fbind_Inr prod.case 2(2) len1 h Let_def using rest 2(1) by simp
  qed
qed

lemma silent_step:
  assumes "good_item i" "item_size i = n" "attr = int (length pre)" "4 \<le> length pre" "get16 pre 2 = Inr hlen"
  shows "attr + int n = int (length (pre @ host i))" "get16 (pre @ host i) 2 = Inr hlen"
  using assms item_lengths(2) [OF assms(1)] by (simp_all add: get16_def peek_def mem_read_def)

lemma walk_silent:
  assumes "is \<noteq> []" "list_all good_item is" "list_all silent_item is" "attr = int (length pre)" "4 \<le> length pre"
    "end \<le> attr + int (items_size is)" "get16 pre 2 = Inr hlen" "length is \<le> n"
  shows "walk_attributes n funny (pre @ concat (map host is) @ post) attr end xlen r = Inr (pre @ concat (map host is) @ post, r)"
  using assms
proof (induction "is" arbitrary: pre attr xlen n)
  case (Cons i "is")
  have i: "good_item i" "silent_item i" "list_all good_item is" using Cons.prems by simp_all
  obtain m where n: "n = Suc m" "length is \<le> m" using Cons.prems(8) by (cases n) auto
  have v: "visit_attribute funny (pre @ concat (map host (i # is)) @ post) attr r = Inr (pre @ concat (map host (i # is)) @ post, r)"
    using visit_silent [OF i(1,2) Cons.prems(4), of funny "concat (map host is) @ post" r] by simp
  have "walk_attributes m funny ((pre @ host i) @ concat (map host is) @ post) (attr + int (item_size i)) end xl r =
      Inr ((pre @ host i) @ concat (map host is) @ post, r)" if "is \<noteq> []" for xl
    by (rule Cons.IH [OF that i(3)]) (use silent_step [OF i(1) refl Cons.prems(4,5,7)] Cons.prems n(2) in \<open>simp_all add: items_size_def\<close>)
  then show ?case unfolding n by (rule walk_step [OF v i(1,3) Cons.prems(4,5,7,6)])
qed simp

lemma host_address:
  assumes "length addr = 4"
  shows "host (address_item SWITCH_STUN_ATTR_XOR_MAPPED_ADDRESS port addr) =
     store_le 2 SWITCH_STUN_ATTR_XOR_MAPPED_ADDRESS @ store_le 2 (8 :: uint16) @ [0, 1] @ store_le 2 port @ addr"
  using assms by (simp add: address_item_def host_def host_value_def address_attr_def turn_port_def be16_def)

lemma walk_first:
  assumes v: "visit_attribute funny b0 20 r = Inr (pre @ concat (map host (i # is)) @ post, r1)"
    and i: "good_item i" "list_all good_item is" "list_all silent_item is"
    and p: "20 = int (length pre)" "end \<le> 20 + int (items_size (i # is))" "get16 pre 2 = Inr hlen" "length is < n"
  shows "walk_attributes n funny b0 20 end xlen r = Inr (pre @ concat (map host (i # is)) @ post, r1)"
proof -
  obtain m where n: "n = Suc m" "length is \<le> m" using p(4) by (cases n) auto
  have l: "4 \<le> length pre" using p(1) by simp
  have "walk_attributes m funny ((pre @ host i) @ concat (map host is) @ post) (20 + int (item_size i)) end xl r1 =
      Inr ((pre @ host i) @ concat (map host is) @ post, r1)" if "is \<noteq> []" for xl
    by (rule walk_silent [OF that i(2,3)]) (use silent_step [OF i(1) refl p(1) l p(3)] l p(2) n(2) in \<open>simp_all add: items_size_def\<close>)
  then show ?thesis unfolding n by (rule walk_step [OF v i(1,2) p(1) l p(3,2)])
qed

text \<open>What the lookup makes of a well-formed response is decided by the walk.\<close>

definition response_header :: "byte list \<Rightarrow> nat \<Rightarrow> byte list" where
  "response_header ident n = store_le 2 SWITCH_STUN_BINDING_RESPONSE @ store_le 2 (of_nat n :: uint16) @ be32 STUN_MAGIC_COOKIE @ ident"

lemma response_header_fields:
  "get16 (response_header ident n @ x) 0 = Inr SWITCH_STUN_BINDING_RESPONSE" "get16 (response_header ident n @ x) 2 = Inr (of_nat n)"
  using get16_host [of 0 "[]" SWITCH_STUN_BINDING_RESPONSE] get16_host [of 2 "store_le 2 SWITCH_STUN_BINDING_RESPONSE" "of_nat n"]
  by (simp_all add: response_header_def)

lemma host_response: "host_packet SWITCH_STUN_BINDING_RESPONSE ident is @ post = response_header ident (items_size is) @ concat (map host is) @ post"
  by (simp add: host_packet_def response_header_def)

lemma reply_by_walk:
  assumes id: "length ident = 12" and g: "list_all good_item is" "8 \<le> items_size is" "length is \<le> rounds"
    and l: "length (wire_packet SWITCH_STUN_BINDING_RESPONSE ident is @ post) = 260"
    and w: "walk_attributes rounds False (response_header ident (items_size is) @ concat (map host is) @ post) 20 (int (items_size is)) 20 r =
      Inr (response_header ident (items_size is) @ x, r1)"
  shows "stun_reply rounds False (wire_packet SWITCH_STUN_BINDING_RESPONSE ident is @ post) r = Inr (Stun_success, Some (sr_ip r1), sr_port r1)"
proof -
  have len: "20 + items_size is + length post = 260" using l wire_packet_length [OF id] by simp
  have valid: "valid_packet_type SWITCH_STUN_BINDING_RESPONSE" by (simp add: valid_packet_type_def)
  have "switch_stun_packet_parse rounds (wire_packet SWITCH_STUN_BINDING_RESPONSE ident is @ post) 260 =
      Inr (True, response_header ident (items_size is) @ concat (map host is) @ post)"
    unfolding host_response [symmetric]
    by (rule parse_wire_packet [OF valid id, where m = "length post"]) (use g len in simp_all)
  moreover have "uint (of_nat (items_size is) :: uint16) = int (items_size is)"
    using len by (simp add: unsigned_of_nat take_bit_eq_mod nat_mod_distrib)
  ultimately show ?thesis unfolding stun_reply_def Let_def using w len by (simp add: response_header_fields)
qed

text \<open>C16: when the first attribute of a binding response is the exclusive-or mapped address that encodes an address
  and a port, and no later attribute is an address or a user name, the lookup returns that address and that
  port, whatever follows the response in the receiving buffer of 260 bytes.\<close>

theorem stun_reply_address:
  assumes "length ident = 12" "length addr = 4" "list_all good_item is" "list_all silent_item is" "length is < rounds"
    and "length (wire_packet SWITCH_STUN_BINDING_RESPONSE ident
      (address_item SWITCH_STUN_ATTR_XOR_MAPPED_ADDRESS (xor_port port) (xor_address addr) # is) @ post) = 260"
  shows "stun_reply rounds False (wire_packet SWITCH_STUN_BINDING_RESPONSE ident
      (address_item SWITCH_STUN_ATTR_XOR_MAPPED_ADDRESS (xor_port port) (xor_address addr) # is) @ post) r =
    Inr (Stun_success, Some (ip_string addr), port)"
proof -
  define i where "i = address_item SWITCH_STUN_ATTR_XOR_MAPPED_ADDRESS (xor_port port) (xor_address addr)"
  define i' where "i' = address_item SWITCH_STUN_ATTR_XOR_MAPPED_ADDRESS port addr"
  let ?t = "items_size (i # is)"
  let ?h = "response_header ident ?t" and ?r = "r\<lparr>sr_ip := ip_string addr, sr_port := port\<rparr>"
  have gi: "good_item i" "good_item i'" "item_size i = 12" "item_size i' = 12"
    using address_item_good assms(2) by (simp_all add: i_def i'_def xor_address_def)
  have sz: "?t = 12 + items_size is" "items_size (i' # is) = ?t" by (simp_all add: items_size_def gi)
  have v: "visit_attribute False (?h @ concat (map host (i # is)) @ post) 20 r = Inr (?h @ concat (map host (i' # is)) @ post, ?r)"
    using visit_xor_address [OF assms(1,2) i_def, of False SWITCH_STUN_BINDING_RESPONSE "is" post r] host_address [OF assms(2), of port]
    by (simp add: host_response response_header_def i'_def)
  have "walk_attributes rounds False (?h @ concat (map host (i # is)) @ post) 20 (int ?t) 20 r = Inr (?h @ concat (map host (i' # is)) @ post, ?r)"
    by (rule walk_first [OF v gi(2) assms(3,4)])
       (use assms(1,5) sz response_header_fields(2) [of ident ?t "[]"] in \<open>simp_all add: response_header_def\<close>)
  from reply_by_walk [OF assms(1) _ _ _ assms(6) [folded i_def] this] show ?thesis
    using gi assms(3,5) sz by (simp add: i_def)
qed

theorem stun_reply_address_witness:
  "stun_reply 1 False (wire_packet SWITCH_STUN_BINDING_RESPONSE (replicate 12 1)
      [address_item SWITCH_STUN_ATTR_XOR_MAPPED_ADDRESS (xor_port 5060) (xor_address [192, 0, 2, 7])] @ replicate 228 9)
      \<lparr>sr_ip = [], sr_port = 0, sr_username = []\<rparr> =
    Inr (Stun_success, Some (ip_string [192, 0, 2, 7]), 5060)"
proof (rule stun_reply_address)
  show "length (wire_packet SWITCH_STUN_BINDING_RESPONSE (replicate 12 1)
      [address_item SWITCH_STUN_ATTR_XOR_MAPPED_ADDRESS (xor_port 5060) (xor_address [192, 0, 2, 7])] @ replicate 228 9) = 260"
    by (simp add: wire_packet_length items_size_def address_item_good xor_address_def)
qed simp_all

text \<open>the walk over a response stops twenty bytes early: whatever stands in the last twenty bytes of attributes,
  such as a mapped address that follows another attribute, is not looked at, and the lookup reports success
  with the address and the port it started with.\<close>

theorem stun_reply_tail_missed:
  assumes "length ident = 12" "good_item i" "silent_item i" "list_all good_item is" "4 \<le> items_size is" "items_size is \<le> 20" "length is < rounds"
    and "length (wire_packet SWITCH_STUN_BINDING_RESPONSE ident (i # is) @ post) = 260"
  shows "stun_reply rounds False (wire_packet SWITCH_STUN_BINDING_RESPONSE ident (i # is) @ post) r =
    Inr (Stun_success, Some (sr_ip r), sr_port r)"
proof -
  let ?t = "items_size (i # is)" and ?b = "concat (map host (i # is)) @ post"
  let ?h = "response_header ident ?t"
  have sz: "?t = item_size i + items_size is" "4 \<le> item_size i" using size_4 by (simp_all add: items_size_def)
  have lp: "20 = int (length ?h)" using assms(1) by (simp add: response_header_def)
  have v: "visit_attribute False (?h @ ?b) 20 r = Inr (?h @ ?b, r)"
    using visit_silent [OF assms(2,3) lp, of False "concat (map host is) @ post" r] by simp
  obtain l where l: "get16 (?h @ ?b) (20 + 2) = Inr l" "20 + 4 + padded_length l = 20 + int (item_size i)"
    using host_fields(2) [OF assms(2) lp, of "concat (map host is) @ post"] by auto
  have "switch_stun_packet_next_attribute (?h @ ?b) 20 (int ?t) = Inr (False, 20 + int (item_size i))"
    unfolding switch_stun_packet_next_attribute_def l(1) fbind_Inr Let_def l(2) using assms(6) sz(1) by simp
  moreover obtain m where "rounds = Suc m" using assms(7) by (cases rounds) auto
  ultimately have "walk_attributes rounds False (?h @ ?b) 20 (int ?t) 20 r = Inr (?h @ ?b, r)"
    unfolding \<open>rounds = Suc m\<close> walk_attributes.simps v fbind_Inr prod.case by simp
  from reply_by_walk [OF assms(1) _ _ _ assms(8) this] show ?thesis using assms sz by simp
qed

theorem stun_reply_tail_missed_witness:
  "stun_reply 2 False (wire_packet SWITCH_STUN_BINDING_RESPONSE (replicate 12 1)
      [(SWITCH_STUN_ATTR_SOFTWARE, [118, 49, 46, 48], []), address_item SWITCH_STUN_ATTR_MAPPED_ADDRESS 5060 [192, 0, 2, 7]] @ replicate 220 0)
      \<lparr>sr_ip = [], sr_port = 0, sr_username = []\<rparr> = Inr (Stun_success, Some [], 0)"
proof -
  let ?i = "(SWITCH_STUN_ATTR_SOFTWARE, [118, 49, 46, 48], []) :: item" and ?a = "address_item SWITCH_STUN_ATTR_MAPPED_ADDRESS 5060 [192, 0, 2, 7]"
  have i: "good_item ?i" by (rule opaque_good) (simp_all add: opaque_types)
  have s: "silent_item ?i" by (simp add: silent_item_def stun_constants)
  have a: "good_item ?a" "item_size ?a = 12" by (rule address_item_good; simp)+
  have "length (wire_packet SWITCH_STUN_BINDING_RESPONSE (replicate 12 1) [?i, ?a] @ replicate 220 0) = 260"
    using a(2) by (simp add: wire_packet_length items_size_def item_size_def)
  then show ?thesis using stun_reply_tail_missed [OF _ i s, of "replicate 12 1" "[?a]" 2 "replicate 220 0"] a by (simp add: items_size_def)
qed

end
