(* ===== verification/G711.thy ===== *)
theory G711
  imports FS_Prelude
begin

text \<open>
  The G.711 companding of src/include/g711.h and src/g711.c: finding the highest and the lowest bit of a
  word, coding a linear sample in u-law and A-law and back, and the tables between the two laws. A sample
  is an \<open>int\<close>; the portable variant of the bit search is the one modelled.
\<close>

unbundle bit_operations_syntax

section \<open>The code\<close>

text \<open>One stage of the search: when the mask meets the word, only those bits are kept.\<close>

definition stage :: "uint32 \<Rightarrow> int \<Rightarrow> uint32 \<times> int \<Rightarrow> uint32 \<times> int" where
  "stage m k s = (case s of (bits, i) \<Rightarrow> if bits AND m \<noteq> 0 then (bits AND m, i + k) else (bits, i))"

definition top_bit :: "uint32 \<Rightarrow> int" where
  "top_bit bits =
     (if bits = 0 then - 1
      else snd (stage 0xAAAAAAAA 1 (stage 0xCCCCCCCC 2 (stage 0xF0F0F0F0 4 (stage 0xFF00FF00 8 (stage 0xFFFF0000 16 (bits, 0)))))))"

definition bottom_bit :: "uint32 \<Rightarrow> int" where
  "bottom_bit bits =
     (if bits = 0 then - 1
      else snd (stage 0x55555555 (- 1) (stage 0x33333333 (- 2) (stage 0x0F0F0F0F (- 4) (stage 0x00FF00FF (- 8) (stage 0x0000FFFF (- 16) (bits, 32)))))))"

definition ULAW_BIAS :: int where "ULAW_BIAS = 0x84"

definition linear_to_ulaw :: "int \<Rightarrow> byte" where
  "linear_to_ulaw linear0 =
     (let (linear, msk) = (if linear0 < 0 then (ULAW_BIAS - linear0, 0x7F) else (ULAW_BIAS + linear0, 0xFF));
          seg = top_bit (of_int linear OR 0xFF) - 7
      in if seg \<ge> 8 then of_int (0x7F XOR msk)
         else of_int ((push_bit 4 seg OR (drop_bit (nat (seg + 3)) linear AND 0xF)) XOR msk))"

definition ulaw_to_linear :: "byte \<Rightarrow> int" where
  "ulaw_to_linear ulaw0 =
     (let ulaw = uint (NOT ulaw0);
          t = push_bit (nat (drop_bit 4 (ulaw AND 0x70))) (push_bit 3 (ulaw AND 0x0F) + ULAW_BIAS)
      in sint (of_int (if ulaw AND 0x80 \<noteq> 0 then ULAW_BIAS - t else t - ULAW_BIAS) :: uint16))"

definition ALAW_AMI_MASK :: int where "ALAW_AMI_MASK = 0x55"

definition linear_to_alaw :: "int \<Rightarrow> byte" where
  "linear_to_alaw linear0 =
     (let (linear, msk) = (if linear0 \<ge> 0 then (linear0, ALAW_AMI_MASK OR 0x80) else (- linear0 - 8, ALAW_AMI_MASK));
          seg = top_bit (of_int linear OR 0xFF) - 7
      in if seg \<ge> 8 then if linear \<ge> 0 then of_int (0x7F XOR msk) else of_int (0 XOR msk)
         else of_int ((push_bit 4 seg OR (drop_bit (if seg \<noteq> 0 then nat (seg + 3) else 4) linear AND 0x0F)) XOR msk))"

definition alaw_to_linear :: "byte \<Rightarrow> int" where
  "alaw_to_linear alaw0 =
     (let alaw = uint alaw0 XOR ALAW_AMI_MASK;
          i = push_bit 4 (alaw AND 0x0F); seg = drop_bit 4 (alaw AND 0x70);
          i1 = (if seg \<noteq> 0 then push_bit (nat (seg - 1)) (i + 0x108) else i + 8)
      in sint (of_int (if alaw AND 0x80 \<noteq> 0 then i1 else - i1) :: uint16))"

definition ulaw_to_alaw_table :: "byte list" where
  "ulaw_to_alaw_table = [
    42, 43, 40, 41, 46, 47, 44, 45, 34, 35, 32, 33, 38, 39, 36, 37,
    58, 59, 56, 57, 62, 63, 60, 61, 50, 51, 48, 49, 54, 55, 52, 53,
    10, 11, 8, 9, 14, 15, 12, 13, 2, 3, 0, 1, 6, 7, 4, 26,
    27, 24, 25, 30, 31, 28, 29, 18, 19, 16, 17, 22, 23, 20, 21, 106,
    104, 105, 110, 111, 108, 109, 98, 99, 96, 97, 102, 103, 100, 101, 122, 120,
    126, 127, 124, 125, 114, 115, 112, 113, 118, 119, 116, 117, 75, 73, 79, 77,
    66, 67, 64, 65, 70, 71, 68, 69, 90, 91, 88, 89, 94, 95, 92, 93,
    82, 82, 83, 83, 80, 80, 81, 81, 86, 86, 87, 87, 84, 84, 85, 85,
    170, 171, 168, 169, 174, 175, 172, 173, 162, 163, 160, 161, 166, 167, 164, 165,
    186, 187, 184, 185, 190, 191, 188, 189, 178, 179, 176, 177, 182, 183, 180, 181,
    138, 139, 136, 137, 142, 143, 140, 141, 130, 131, 128, 129, 134, 135, 132, 154,
    155, 152, 153, 158, 159, 156, 157, 146, 147, 144, 145, 150, 151, 148, 149, 234,
    232, 233, 238, 239, 236, 237, 226, 227, 224, 225, 230, 231, 228, 229, 250, 248,
    254, 255, 252, 253, 242, 243, 240, 241, 246, 247, 244, 245, 203, 201, 207, 205,
    194, 195, 192, 193, 198, 199, 196, 197, 218, 219, 216, 217, 222, 223, 220, 221,
    210, 210, 211, 211, 208, 208, 209, 209, 214, 214, 215, 215, 212, 212, 213, 213]"

definition alaw_to_ulaw_table :: "byte list" where
  "alaw_to_ulaw_table = [
    42, 43, 40, 41, 46, 47, 44, 45, 34, 35, 32, 33, 38, 39, 36, 37,
    57, 58, 55, 56, 61, 62, 59, 60, 49, 50, 47, 48, 53, 54, 51, 52,
    10, 11, 8, 9, 14, 15, 12, 13, 2, 3, 0, 1, 6, 7, 4, 5,
    26, 27, 24, 25, 30, 31, 28, 29, 18, 19, 16, 17, 22, 23, 20, 21,
    98, 99, 96, 97, 102, 103, 100, 101, 93, 93, 92, 92, 95, 95, 94, 94,
    116, 118, 112, 114, 124, 126, 120, 122, 106, 107, 104, 105, 110, 111, 108, 109,
    72, 73, 70, 71, 76, 77, 74, 75, 64, 65, 63, 63, 68, 69, 66, 67,
    86, 87, 84, 85, 90, 91, 88, 89, 79, 79, 78, 78, 82, 83, 80, 81,
    170, 171, 168, 169, 174, 175, 172, 173, 162, 163, 160, 161, 166, 167, 164, 165,
    185, 186, 183, 184, 189, 190, 187, 188, 177, 178, 175, 176, 181, 182, 179, 180,
    138, 139, 136, 137, 142, 143, 140, 141, 130, 131, 128, 129, 134, 135, 132, 133,
    154, 155, 152, 153, 158, 159, 156, 157, 146, 147, 144, 145, 150, 151, 148, 149,
    226, 227, 224, 225, 230, 231, 228, 229, 221, 221, 220, 220, 223, 223, 222, 222,
    244, 246, 240, 242, 252, 254, 248, 250, 234, 235, 232, 233, 238, 239, 236, 237,
    200, 201, 198, 199, 204, 205, 202, 203, 192, 193, 191, 191, 196, 197, 194, 195,
    214, 215, 212, 213, 218, 219, 216, 217, 207, 207, 206, 206, 210, 211, 208, 209]"

definition alaw_to_ulaw :: "byte \<Rightarrow> byte" where
  "alaw_to_ulaw alaw = alaw_to_ulaw_table ! unat alaw"

definition ulaw_to_alaw :: "byte \<Rightarrow> byte" where
  "ulaw_to_alaw ulaw = ulaw_to_alaw_table ! unat ulaw"

section \<open>The highest and the lowest bit\<close>

text \<open>
  The mask of the stage with step \<open>2 ^ b\<close> holds the positions whose bit \<open>b\<close> is one, for the highest bit,
  or zero, for the lowest one.
\<close>

definition half_mask :: "bool \<Rightarrow> nat \<Rightarrow> uint32 \<Rightarrow> bool" where
  "half_mask p b m \<longleftrightarrow> (\<forall>j. bit m j \<longleftrightarrow> j < 32 \<and> odd (j div 2 ^ b) = p)"

lemma half_masks:
  "half_mask True 4 0xFFFF0000" "half_mask True 3 0xFF00FF00" "half_mask True 2 0xF0F0F0F0" "half_mask True 1 0xCCCCCCCC" "half_mask True 0 0xAAAAAAAA"
  "half_mask False 4 0x0000FFFF" "half_mask False 3 0x00FF00FF" "half_mask False 2 0x0F0F0F0F" "half_mask False 1 0x33333333" "half_mask False 0 0x55555555"
proof -
  have h: "half_mask p b m" if "\<forall>j\<in>set [0..<32]. bit m j \<longleftrightarrow> odd (j div 2 ^ b) = p" for p b m
    unfolding half_mask_def using that bit_imp_le_length [of m] by fastforce
  show "half_mask True 4 0xFFFF0000" "half_mask True 3 0xFF00FF00" "half_mask True 2 0xF0F0F0F0" "half_mask True 1 0xCCCCCCCC" "half_mask True 0 0xAAAAAAAA"
    "half_mask False 4 0x0000FFFF" "half_mask False 3 0x00FF00FF" "half_mask False 2 0x0F0F0F0F" "half_mask False 1 0x33333333" "half_mask False 0 0x55555555"
    by (rule h, simp add: upt_rec)+
qed

text \<open>
  The bit searched for, at position \<open>k\<close>, is the highest (\<open>p\<close>) or the lowest one, and the bits that are left
  are in its block of \<open>2 ^ b\<close> positions.
\<close>

definition extreme :: "bool \<Rightarrow> nat \<Rightarrow> nat \<Rightarrow> uint32 \<Rightarrow> bool" where
  "extreme p k b bits \<longleftrightarrow> bit bits k \<and> (\<forall>j. bit bits j \<longrightarrow> (if p then j \<le> k else k \<le> j) \<and> j div 2 ^ b = k div 2 ^ b)"

lemma block_split: "j div 2 ^ Suc b = k div 2 ^ Suc b \<longleftrightarrow> (j div 2 ^ b) div 2 = (k div 2 ^ b) div (2 :: nat)"
  by (simp only: power_Suc2 div_mult2_eq)

lemma half_eq: "x div 2 = y div 2 \<Longrightarrow> odd x = odd y \<Longrightarrow> x = (y :: nat)"
  by presburger

lemma half_side:
  fixes x y :: nat
  assumes "x div 2 = y div 2" "if p then x \<le> y else y \<le> x" "odd y \<noteq> p"
  shows "x = y"
  using assms by (cases p) (simp; presburger)+

lemma stage_extreme:
  assumes e: "extreme p k (Suc b) bits" and k: "k < 32" and m: "half_mask p b m"
  obtains bits' where "stage m c (bits, i) = (bits', i + (if odd (k div 2 ^ b) = p then c else 0))" "extreme p k b bits'"
proof (cases "odd (k div 2 ^ b) = p")
  case True
  then have mk: "bit m k" using m k by (simp add: half_mask_def)
  have "extreme p k b (bits AND m)" unfolding extreme_def bit_and_iff
  proof (intro conjI allI impI)
    show "bit bits k" "bit m k" using e mk by (simp_all add: extreme_def)
    fix j
    assume j: "bit bits j \<and> bit m j"
    then show "if p then j \<le> k else k \<le> j" using e by (simp add: extreme_def)
    have "(j div 2 ^ b) div 2 = (k div 2 ^ b) div 2" using e j unfolding extreme_def block_split by blast
    moreover have "odd (j div 2 ^ b) = odd (k div 2 ^ b)" using m j True by (simp add: half_mask_def)
    ultimately show "j div 2 ^ b = k div 2 ^ b" by (rule half_eq)
  qed
  moreover from this have "bit (bits AND m) k" by (simp add: extreme_def)
  then have "stage m c (bits, i) = (bits AND m, i + c)" by (auto simp: stage_def)
  ultimately show ?thesis using that [of "bits AND m"] unfolding if_P [OF True] by blast
next
  case False
  have side: "j div 2 ^ b = k div 2 ^ b" if "bit bits j" for j
  proof (rule half_side [OF _ _ False])
    show "(j div 2 ^ b) div 2 = (k div 2 ^ b) div 2" using e that unfolding extreme_def block_split by blast
    have "if p then j \<le> k else k \<le> j" using e that by (simp add: extreme_def)
    then show "if p then j div 2 ^ b \<le> k div 2 ^ b else k div 2 ^ b \<le> j div 2 ^ b" by (auto intro: div_le_mono)
  qed
  have "bits AND m = 0"
    by (rule bit_eqI) (use m False side in \<open>auto simp: bit_and_iff half_mask_def\<close>)
  moreover have "extreme p k b bits" using e side unfolding extreme_def by blast
  moreover have "stage m c (bits, i) = (bits, i + 0)" if "bits AND m = 0" using that by (simp add: stage_def)
  ultimately show ?thesis using that [of bits] unfolding if_not_P [OF False] by blast
qed

lemma binary_32:
  assumes "k < 32"
  shows "(if odd (k div 16) then 16 else 0) + (if odd (k div 8) then 8 else 0) + (if odd (k div 4) then 4 else 0) +
    (if odd (k div 2) then 2 else 0) + (if odd k then 1 else 0) = int k"
proof -
  have half: "int x = 2 * int (x div 2) + (if odd x then 1 else 0)" for x by presburger
  have d: "k div 2 div 2 = k div 4" "k div 4 div 2 = k div 8" "k div 8 div 2 = k div 16" "k div 16 div 2 = 0"
    using assms by (simp_all add: div_mult2_eq [symmetric])
  show ?thesis using half [of k] half [of "k div 2"] half [of "k div 4"] half [of "k div 8"] half [of "k div 16"] unfolding d by simp
qed

lemma search_extreme:
  assumes w: "bit w k" "\<And>j. bit w j \<Longrightarrow> if p then j \<le> k else k \<le> j"
    and m: "half_mask p 4 m4" "half_mask p 3 m3" "half_mask p 2 m2" "half_mask p 1 m1" "half_mask p 0 m0"
  shows "snd (stage m0 c0 (stage m1 c1 (stage m2 c2 (stage m3 c3 (stage m4 c4 (w, i)))))) =
    i + (if odd (k div 16) = p then c4 else 0) + (if odd (k div 8) = p then c3 else 0) + (if odd (k div 4) = p then c2 else 0) +
    (if odd (k div 2) = p then c1 else 0) + (if odd k = p then c0 else 0)"
proof -
  have k: "k < 32" using bit_imp_le_length [OF w(1)] by simp
  have "j div 2 ^ 5 = k div 2 ^ 5" if "bit w j" for j using bit_imp_le_length [OF that] k by simp
  then have "extreme p k 5 w" unfolding extreme_def using w by blast
  then have e: "extreme p k (Suc 4) w" by simp
  define d where "d b c = (if odd (k div 2 ^ b) = p then c else 0)" for b and c :: int
  have step: "\<exists>bits'. stage m c (bits, i) = (bits', i + d b c) \<and> extreme p k b bits'" if "extreme p k (Suc b) bits" "half_mask p b m" for b bits m c i
    by (rule stage_extreme [OF that(1) k that(2), of c i]) (unfold d_def, blast)
  obtain b4 where b4: "stage m4 c4 (w, i) = (b4, i + d 4 c4)" "extreme p k (Suc 3) b4" using step [OF e m(1)] by auto
  obtain b3 where b3: "stage m3 c3 (b4, i + d 4 c4) = (b3, i + d 4 c4 + d 3 c3)" "extreme p k (Suc 2) b3" using step [OF b4(2) m(2)] by auto
  obtain b2 where b2: "stage m2 c2 (b3, i + d 4 c4 + d 3 c3) = (b2, i + d 4 c4 + d 3 c3 + d 2 c2)" "extreme p k (Suc 1) b2"
    using step [OF b3(2) m(3), of c2] by (auto simp: numeral_2_eq_2)
  obtain b1 where b1: "stage m1 c1 (b2, i + d 4 c4 + d 3 c3 + d 2 c2) = (b1, i + d 4 c4 + d 3 c3 + d 2 c2 + d 1 c1)" "extreme p k (Suc 0) b1"
    using step [OF b2(2) m(4), of c1] by auto
  obtain b0 where b0: "stage m0 c0 (b1, i + d 4 c4 + d 3 c3 + d 2 c2 + d 1 c1) = (b0, i + d 4 c4 + d 3 c3 + d 2 c2 + d 1 c1 + d 0 c0)"
    using step [OF b1(2) m(5), of c0] by auto
  show ?thesis unfolding b4(1) b3(1) b2(1) b1(1) b0 by (simp add: d_def)
qed

text \<open>
  Searching for the highest bit gives its position. Searching for the lowest one gives its position plus
  one: the count starts at 32 and goes down by 31 at most.
\<close>

lemma top_bit_highest:
  assumes "bit w k" "\<And>j. bit w j \<Longrightarrow> j \<le> k"
  shows "top_bit w = int k"
proof -
  have "w \<noteq> 0" using assms(1) by auto
  moreover have "k < 32" using bit_imp_le_length [OF assms(1)] by simp
  ultimately show ?thesis
    using search_extreme [of w k True, OF assms(1) _ half_masks(1-5), of 1 2 4 8 16 0] assms(2) binary_32 by (simp add: top_bit_def)
qed

lemma bottom_bit_lowest:
  assumes "bit w k" "\<And>j. bit w j \<Longrightarrow> k \<le> j"
  shows "bottom_bit w = int k + 1"
proof -
  have "w \<noteq> 0" using assms(1) by auto
  moreover have "k < 32" using bit_imp_le_length [OF assms(1)] by simp
  moreover have "(if odd n = False then - c else 0) = (if odd n then c else 0) - c" for n :: nat and c :: int by simp
  ultimately show ?thesis
    using search_extreme [of w k False, OF assms(1) _ half_masks(6-10), of "-1" "-2" "-4" "-8" "-16" 32] assms(2) binary_32 [of k]
    by (simp add: bottom_bit_def)
qed


section \<open>Segments and codes\<close>

lemma bit_below: "0 \<le> n \<Longrightarrow> n < 2 ^ k \<Longrightarrow> bit n j \<Longrightarrow> j < k" for n :: int
proof (rule ccontr)
  assume a: "0 \<le> n" "n < 2 ^ k" "bit n j" "\<not> j < k"
  then have "(2 :: int) ^ k \<le> 2 ^ j" by simp
  then have "n div 2 ^ j = 0" using a by (intro div_pos_pos_trivial) linarith+
  then show False using a(3) by (simp add: bit_iff_odd)
qed

lemma segment_high:
  assumes "2 ^ (s + 7) \<le> n" "n < 2 ^ (s + 8)" "s \<le> 23"
  shows "top_bit (of_int n OR 0xFF) - 7 = int s"
proof -
  have "(n - 2 ^ (s + 7)) div 2 ^ (s + 7) = 0" using assms(1,2) by (intro div_pos_pos_trivial) (simp_all add: power_add)
  then have "n div 2 ^ (s + 7) = 1" using div_add_self2 [of "2 ^ (s + 7)" "n - 2 ^ (s + 7)"] by simp
  then have "bit n (s + 7)" by (simp add: bit_iff_odd)
  then have "bit (of_int n OR 0xFF :: uint32) (s + 7)" using assms(3) by (simp add: bit_or_iff bit_of_int_iff)
  moreover have "j \<le> s + 7" if "bit (of_int n OR 0xFF :: uint32) j" for j
  proof -
    have n: "0 \<le> n" using assms(1) order_trans [of 0 "2 ^ (s + 7)" n] by simp
    from that have "bit n j \<or> bit (0xFF :: uint32) j" by (auto simp: bit_or_iff bit_of_int_iff)
    moreover have "bit (0xFF :: uint32) j \<Longrightarrow> j < 8" using bit_mask_iff [of 8 j, where 'a = uint32] by (simp add: mask_eq_exp_minus_1)
    ultimately show ?thesis using bit_below [OF n assms(2), of j] by auto
  qed
  ultimately have "top_bit (of_int n OR 0xFF) = int (s + 7)" by (rule top_bit_highest)
  then show ?thesis by simp
qed

lemma segment_low:
  assumes "0 \<le> n" "n < 256"
  shows "top_bit (of_int n OR 0xFF) - 7 = 0"
proof -
  have "of_int n OR 0xFF = (of_int 255 OR 0xFF :: uint32)"
    using bit_below [of n 8] assms bit_mask_iff [of 8, where 'a = uint32]
    by (intro bit_eqI) (auto simp: bit_or_iff bit_of_int_iff mask_eq_exp_minus_1)
  then show ?thesis using segment_high [of 0 255] by simp
qed

text \<open>The eight segments.\<close>

lemma segment_cases:
  fixes n :: int
  assumes "128 \<le> n" "n < 2 ^ 15"
  obtains s where "2 ^ (s + 7) \<le> n" "n < 2 ^ (s + 8)" "s \<le> (7 :: nat)"
proof -
  have "\<exists>s\<in>{0, 1, 2, 3, 4, 5, 6, 7 :: nat}. 2 ^ (s + 7) \<le> n \<and> n < 2 ^ (s + 8)" using assms by simp linarith
  then obtain s where s: "s \<in> {0, 1, 2, 3, 4, 5, 6, 7 :: nat}" "2 ^ (s + 7) \<le> n" "n < 2 ^ (s + 8)" by blast
  then have "s \<le> 7" by auto
  then show ?thesis using that s(2,3) by blast
qed

lemma pack: "push_bit 4 s OR (x AND 15) = 16 * s + x mod 16" for s x :: int
proof -
  have "x AND 15 = take_bit 4 x" using take_bit_eq_mask [of 4 x] by (simp add: mask_eq_exp_minus_1)
  moreover have "push_bit 4 s OR take_bit 4 x = push_bit 4 s + take_bit 4 x"
    by (rule disjunctive_add_eq_or [symmetric]) (auto simp: bit_eq_iff bit_and_iff bit_push_bit_iff bit_take_bit_iff)
  ultimately show ?thesis by (simp add: push_bit_eq_mult take_bit_eq_mod)
qed

lemma fields:
  fixes v :: int
  shows "v AND 0x0F = v mod 16" "drop_bit 4 (v AND 0x70) = v div 16 mod 8" "v AND 0x80 \<noteq> 0 \<longleftrightarrow> odd (v div 128)"
proof -
  show "v AND 0x0F = v mod 16" using take_bit_eq_mask [of 4 v] by (simp add: mask_eq_exp_minus_1 take_bit_eq_mod)
  have "drop_bit 4 (v AND 0x70) = drop_bit 4 v AND 7" by (simp only: drop_bit_and) simp
  also have "\<dots> = v div 16 mod 8"
    using take_bit_eq_mask [of 3 "drop_bit 4 v"] by (simp add: mask_eq_exp_minus_1 take_bit_eq_mod drop_bit_eq_div)
  finally show "drop_bit 4 (v AND 0x70) = v div 16 mod 8" .
  show "v AND 0x80 \<noteq> 0 \<longleftrightarrow> odd (v div 128)"
    using and_exp_eq_0_iff_not_bit [of v 7] by (simp add: bit_iff_odd)
qed


lemma quantise:
  fixes n :: int
  assumes "2 ^ (s + 7) \<le> n" "n < 2 ^ (s + 8)"
  shows "16 \<le> n div 2 ^ (s + 3)" "n div 2 ^ (s + 3) < 32" "n div 2 ^ (s + 3) * 2 ^ (s + 3) \<le> n" "n < n div 2 ^ (s + 3) * 2 ^ (s + 3) + 2 ^ (s + 3)"
proof -
  have p: "(0 :: int) < 2 ^ (s + 3)" by simp
  have e: "(2 :: int) ^ (s + 7) = 16 * 2 ^ (s + 3)" "(2 :: int) ^ (s + 8) = 32 * 2 ^ (s + 3)" by (simp_all add: power_add)
  have r: "n = n div 2 ^ (s + 3) * 2 ^ (s + 3) + n mod 2 ^ (s + 3)" by (simp only: div_mult_mod_eq)
  have "0 \<le> n mod 2 ^ (s + 3)" "n mod 2 ^ (s + 3) < 2 ^ (s + 3)" using p by simp_all
  note r = r this
  show "16 \<le> n div 2 ^ (s + 3)" using zdiv_mono1 [OF assms(1) p] unfolding e by simp
  have "\<not> 32 \<le> n div 2 ^ (s + 3)"
  proof
    assume "32 \<le> n div 2 ^ (s + 3)"
    then have "32 * 2 ^ (s + 3) \<le> n div 2 ^ (s + 3) * 2 ^ (s + 3)" using p by (intro mult_right_mono) simp_all
    then show False using assms(2) r unfolding e by linarith
  qed
  then show "n div 2 ^ (s + 3) < 32" by simp
  show "n div 2 ^ (s + 3) * 2 ^ (s + 3) \<le> n" "n < n div 2 ^ (s + 3) * 2 ^ (s + 3) + 2 ^ (s + 3)" using r by linarith+
qed


lemma byte_forms:
  assumes "0 \<le> c" "c < 128"
  shows "(of_int (c XOR 0xFF) :: byte) = NOT (of_int c)" "(of_int (c XOR 0x7F) :: byte) = NOT (of_int (c + 128))"
    "(of_int (c XOR 0xD5) :: byte) = of_int ((c + 128) XOR 0x55)"
proof -
  have "\<forall>c\<in>set (map int [0..<128]). (of_int (c XOR 0xFF) :: byte) = NOT (of_int c) \<and> (of_int (c XOR 0x7F) :: byte) = NOT (of_int (c + 128)) \<and>
      (of_int (c XOR 0xD5) :: byte) = of_int ((c + 128) XOR 0x55)"
    by (simp add: upt_rec)
  moreover have "c \<in> set (map int [0..<128])" using assms by (auto simp: image_iff intro!: bexI [of _ "nat c"])
  ultimately show "(of_int (c XOR 0xFF) :: byte) = NOT (of_int c)" "(of_int (c XOR 0x7F) :: byte) = NOT (of_int (c + 128))"
    "(of_int (c XOR 0xD5) :: byte) = of_int ((c + 128) XOR 0x55)" by blast+
qed

lemma low_four:
  fixes m :: int
  assumes "16 \<le> m" "m < 32"
  shows "m mod 16 = m - 16"
proof -
  have "(m - 16) mod 16 = m - 16" using assms by (intro mod_pos_pos_trivial) simp_all
  then show ?thesis using minus_mod_self2 [of m 16] by linarith
qed

lemma packed:
  assumes "2 ^ (s + 7) \<le> n" "n < 2 ^ (s + 8)" "s \<le> 7"
  defines "c \<equiv> 16 * int s + (n div 2 ^ (s + 3) - 16)"
  shows "push_bit 4 (int s) OR (drop_bit (nat (int s + 3)) n AND 0xF) = c" "0 \<le> c" "c < 128"
proof -
  have "nat (int s + 3) = s + 3" by simp
  then show "push_bit 4 (int s) OR (drop_bit (nat (int s + 3)) n AND 0xF) = c"
    using low_four [OF quantise(1,2) [OF assms(1,2)]] by (simp add: pack drop_bit_eq_div c_def)
  show "0 \<le> c" "c < 128" using quantise(1,2) [OF assms(1,2)] assms(3) unfolding c_def by linarith+
qed

lemma ulaw_code:
  assumes "2 ^ (s + 7) \<le> n" "n < 2 ^ (s + 8)" "s \<le> 7"
  defines "c \<equiv> 16 * int s + (n div 2 ^ (s + 3) - 16)"
  shows "x \<ge> 0 \<Longrightarrow> n = 132 + x \<Longrightarrow> linear_to_ulaw x = NOT (of_int c)"
    and "x < 0 \<Longrightarrow> n = 132 - x \<Longrightarrow> linear_to_ulaw x = NOT (of_int (c + 128))"
proof -
  have seg: "top_bit (of_int n OR 0xFF) - 7 = int s" by (rule segment_high [OF assms(1,2)]) (use assms(3) in simp)
  note p = packed [OF assms(1-3), folded c_def]
  have s: "\<not> 8 \<le> int s" using assms(3) by simp
  show "linear_to_ulaw x = NOT (of_int c)" if "x \<ge> 0" "n = 132 + x"
  proof -
    have "\<not> x < 0" using that(1) by simp
    then show ?thesis unfolding linear_to_ulaw_def ULAW_BIAS_def Let_def
      by (simp only: if_False that(2) [symmetric] prod.case seg s p(1) byte_forms(1) [OF p(2,3)])
  qed
  show "linear_to_ulaw x = NOT (of_int (c + 128))" if "x < 0" "n = 132 - x"
    unfolding linear_to_ulaw_def ULAW_BIAS_def Let_def
    by (simp only: that(1) if_True if_False that(2) [symmetric] prod.case seg s p(1) byte_forms(2) [OF p(2,3)])
qed

lemma uint_byte: "0 \<le> k \<Longrightarrow> k < 256 \<Longrightarrow> uint (of_int k :: byte) = k"
  by (simp add: unsigned_of_int take_bit_eq_mod)

lemma sint_16: "- 32768 \<le> k \<Longrightarrow> k < 32768 \<Longrightarrow> sint (of_int k :: uint16) = k"
  by (simp add: signed_of_int signed_take_bit_int_eq_self)

lemma code_fields:
  assumes "0 \<le> q" "q < 16" "s \<le> 7" "v = 16 * int s + q"
  shows "v mod 16 = q" "v div 16 mod 8 = int s" "(v + 128) mod 16 = q" "(v + 128) div 16 mod 8 = int s" "v div 128 = 0" "(v + 128) div 128 = 1"
proof -
  have d: "v div 16 = int s" "(v + 128) div 16 = int s + 8"
    using div_mult_self4 [of 16 q "int s"] div_mult_self4 [of 16 q "int s + 8"] assms(1,2) unfolding assms(4) by (simp_all add: algebra_simps)
  show "v mod 16 = q" "(v + 128) mod 16 = q"
    using mod_mult_self4 [of 16 "int s" q] mod_mult_self4 [of 16 "int s + 8" q] assms(1,2) unfolding assms(4) by (simp_all add: algebra_simps)
  show "v div 16 mod 8 = int s" "(v + 128) div 16 mod 8 = int s" unfolding d using assms(3) by simp_all
  show "v div 128 = 0" "(v + 128) div 128 = 1" using assms by simp_all
qed

text \<open>Decoding a byte whose complement has the value \<open>v\<close>.\<close>

lemma ulaw_value:
  assumes "0 \<le> q" "q < 16" "s \<le> 7" "v = 16 * int s + q"
  shows "ulaw_to_linear (NOT (of_int v)) = (8 * q + 132) * 2 ^ s - 132"
    and "ulaw_to_linear (NOT (of_int (v + 128))) = 132 - (8 * q + 132) * 2 ^ s"
proof -
  have p: "(2 :: int) ^ s \<le> 2 ^ 7" using assms(3) power_increasing [of s 7 "2 :: int"] by simp
  have t: "0 \<le> (8 * q + 132) * 2 ^ s" "(8 * q + 132) * 2 ^ s \<le> 32256"
    using assms(1,2) p mult_mono [of "8 * q + 132" 252 "2 ^ s" "2 ^ 7"] by simp_all
  have v: "0 \<le> v" "v < 128" using assms by simp_all
  have u: "uint (of_int v :: byte) = v" "uint (of_int (v + 128) :: byte) = v + 128"
    by (rule uint_byte; use v in simp)+
  note f = code_fields [OF assms]
  have "ulaw_to_linear (NOT (of_int v)) = sint (of_int ((8 * q + 132) * 2 ^ s - 132) :: uint16)"
    unfolding ulaw_to_linear_def Let_def bit.double_compl u(1) fields f ULAW_BIAS_def push_bit_eq_mult by (simp add: mult.commute)
  also have "\<dots> = (8 * q + 132) * 2 ^ s - 132" by (rule sint_16) (use t in linarith)+
  finally show "ulaw_to_linear (NOT (of_int v)) = (8 * q + 132) * 2 ^ s - 132" .
  have "ulaw_to_linear (NOT (of_int (v + 128))) = sint (of_int (132 - (8 * q + 132) * 2 ^ s) :: uint16)"
    unfolding ulaw_to_linear_def Let_def bit.double_compl u(2) fields f ULAW_BIAS_def push_bit_eq_mult by (simp add: mult.commute)
  also have "\<dots> = 132 - (8 * q + 132) * 2 ^ s" by (rule sint_16) (use t in linarith)+
  finally show "ulaw_to_linear (NOT (of_int (v + 128))) = 132 - (8 * q + 132) * 2 ^ s" .
qed


section \<open>What companding keeps\<close>

text \<open>The middle of an interval lies in the interval.\<close>

lemma middle:
  fixes q :: int
  assumes "0 \<le> q" "q < 16"
  shows "2 ^ (s + 7) \<le> (8 * q + 132) * 2 ^ s" "(8 * q + 132) * 2 ^ s < 2 ^ (s + 8)" "(8 * q + 132) * 2 ^ s div 2 ^ (s + 3) = q + 16"
proof -
  have "128 * 2 ^ s \<le> (8 * q + 132) * (2 :: int) ^ s" "(8 * q + 132) * 2 ^ s < 256 * (2 :: int) ^ s" using assms by simp_all
  then show "2 ^ (s + 7) \<le> (8 * q + 132) * 2 ^ s" "(8 * q + 132) * 2 ^ s < 2 ^ (s + 8)" by (simp_all add: power_add mult.commute)
  have "(8 * q + 132) * 2 ^ s div 2 ^ (s + 3) = (8 * q + 132) div 8" by (simp add: power_add)
  then show "(8 * q + 132) * 2 ^ s div 2 ^ (s + 3) = q + 16" by simp
qed

lemma code_split:
  assumes "0 \<le> v" "v < 256"
  obtains s q where "s \<le> (7 :: nat)" "0 \<le> q" "q < (16 :: int)" "v = 16 * int s + q"
  | s q where "s \<le> (7 :: nat)" "0 \<le> q" "q < (16 :: int)" "v = 16 * int s + q + 128"
proof (cases "v < 128")
  case True
  then have "v div 16 < 8" "0 \<le> v div 16" using assms by (simp_all add: pos_imp_zdiv_nonneg_iff)
  moreover have "v = 16 * (v div 16) + v mod 16" by simp
  ultimately show ?thesis using that(1) [of "nat (v div 16)" "v mod 16"] by simp
next
  case False
  then have "(v - 128) div 16 < 8" "0 \<le> (v - 128) div 16" using assms by (simp_all add: pos_imp_zdiv_nonneg_iff)
  moreover have "v - 128 = 16 * ((v - 128) div 16) + (v - 128) mod 16" by (simp only: mult_div_mod_eq)
  ultimately show ?thesis using that(2) [of "nat ((v - 128) div 16)" "(v - 128) mod 16"] by simp
qed

lemma ulaw_coded_back: "linear_to_ulaw (ulaw_to_linear u) = (if u = 0x7F then 0xFF else u)"
proof -
  have u: "u = NOT (of_int (uint (NOT u)))" by simp
  have "0 \<le> uint (NOT u)" "uint (NOT u) < 256" using unsigned_less [of "NOT u", where 'a = int] by simp_all
  then show ?thesis
  proof (cases rule: code_split)
    case (1 s q)
    let ?t = "(8 * q + 132) * 2 ^ s"
    have "132 * 1 \<le> ?t" using 1 by (intro mult_mono) simp_all
    then have "linear_to_ulaw (?t - 132) = NOT (of_int (uint (NOT u)))"
      using ulaw_code(1) [OF middle(1,2) [OF 1(2,3)] 1(1)] middle(3) [OF 1(2,3)] 1(4) by simp
    moreover have "u \<noteq> 0x7F"
    proof
      assume "u = 0x7F"
      then have "uint (NOT u) = 128" by simp
      then show False using 1 by simp
    qed
    ultimately show ?thesis using ulaw_value(1) [OF 1(2,3,1,4)] u by simp
  next
    case (2 s q)
    let ?t = "(8 * q + 132) * 2 ^ s"
    have x: "ulaw_to_linear u = 132 - ?t" using ulaw_value(2) [OF 2(2,3,1) refl] u 2(4) by simp
    show ?thesis
    proof (cases "s = 0 \<and> q = 0")
      case True
      then have "uint (NOT u) = 128" using 2(4) by simp
      then have "u = 0x7F" using u by simp
      moreover have "linear_to_ulaw 0 = 0xFF" using ulaw_code(1) [of 0 132 0] by simp
      ultimately show ?thesis using x True by simp
    next
      case False
      then have "132 < ?t" 
      proof (cases "s = 0")
        case True
        then show ?thesis using False 2(2) by simp
      next
        case s: False
        then have "(2 :: int) ^ 1 \<le> 2 ^ s" by (intro power_increasing) simp_all
        then have "132 * 2 \<le> ?t" using 2(2) by (intro mult_mono) simp_all
        then show ?thesis by simp
      qed
      then have "linear_to_ulaw (132 - ?t) = NOT (of_int (uint (NOT u)))"
        using ulaw_code(2) [OF middle(1,2) [OF 2(2,3)] 2(1)] middle(3) [OF 2(2,3)] 2(4) by simp
      moreover have "u \<noteq> 0x7F"
      proof
        assume "u = 0x7F"
        then have "uint (NOT u) = 128" by simp
        then show False using 2 False by simp
      qed
      ultimately show ?thesis using x u by simp
    qed
  qed
qed

text \<open>The error of coding a sample is at most half the width of its interval.\<close>

lemma ulaw_error:
  assumes "2 ^ (s + 7) \<le> n" "n < 2 ^ (s + 8)" "s \<le> 7" "n = 132 + \<bar>x\<bar>"
  shows "\<bar>ulaw_to_linear (linear_to_ulaw x) - x\<bar> \<le> 2 ^ (s + 2)"
proof -
  let ?m = "n div 2 ^ (s + 3)"
  note q = quantise [OF assms(1,2)]
  have t: "(8 * (?m - 16) + 132) * 2 ^ s = ?m * 2 ^ (s + 3) + 2 ^ (s + 2)" by (simp add: power_add algebra_simps)
  have d: "(2 :: int) ^ (s + 3) = 2 * 2 ^ (s + 2)" by (simp add: power_add)
  have e: "\<bar>(8 * (?m - 16) + 132) * 2 ^ s - n\<bar> \<le> 2 ^ (s + 2)" unfolding t using q(3,4) d by linarith
  have v: "0 \<le> ?m - 16" "?m - 16 < 16" using q(1,2) by simp_all
  show ?thesis
  proof (cases "x < 0")
    case True
    then have "ulaw_to_linear (linear_to_ulaw x) = 132 - (8 * (?m - 16) + 132) * 2 ^ s"
      using ulaw_code(2) [OF assms(1-3)] ulaw_value(2) [OF v assms(3) refl] assms(4) by simp
    then show ?thesis using e assms(4) True by linarith
  next
    case False
    then have "ulaw_to_linear (linear_to_ulaw x) = (8 * (?m - 16) + 132) * 2 ^ s - 132"
      using ulaw_code(1) [OF assms(1-3)] ulaw_value(1) [OF v assms(3) refl] assms(4) by simp
    then show ?thesis using e assms(4) False by linarith
  qed
qed


section \<open>A-law\<close>

definition alaw_magnitude :: "nat \<Rightarrow> int \<Rightarrow> int" where
  "alaw_magnitude s q = (if s = 0 then 16 * q + 8 else (8 * q + 132) * 2 ^ s)"

lemma alaw_byte:
  assumes "0 \<le> v" "v < 256"
  shows "uint (of_int (v XOR 0x55) :: byte) XOR 0x55 = v"
proof -
  have "v XOR 0x55 < 2 ^ 8" by (rule XOR_upper) (use assms in simp_all)
  moreover have "0 \<le> v XOR 0x55" using assms by simp
  ultimately have "uint (of_int (v XOR 0x55) :: byte) = v XOR 0x55" by (intro uint_byte) simp_all
  then show ?thesis by (simp add: xor.assoc)
qed

lemma alaw_bytes: "\<exists>v. 0 \<le> v \<and> v < 256 \<and> a = of_int (v XOR 0x55)" for a :: byte
proof (intro exI conjI)
  have a: "0 \<le> uint a" "uint a < 2 ^ 8" using unsigned_less [of a, where 'a = int] by simp_all
  show "0 \<le> uint a XOR 0x55" using a by simp
  have "uint a XOR 0x55 < 2 ^ 8" by (rule XOR_upper) (use a in simp_all)
  then show "uint a XOR 0x55 < 256" by simp
  show "a = of_int ((uint a XOR 0x55) XOR 0x55)" by (simp add: xor.assoc)
qed

lemma magnitude_range:
  assumes "0 \<le> q" "q < 16" "s \<le> 7"
  shows "8 \<le> alaw_magnitude s q" "alaw_magnitude s q < 32768"
proof -
  have p: "(2 :: int) ^ s \<le> 2 ^ 7" "(1 :: int) \<le> 2 ^ s" using assms(3) power_increasing [of s 7 "2 :: int"] by simp_all
  have "(8 * q + 132) * 2 ^ s \<le> 252 * 2 ^ 7" "132 * 1 \<le> (8 * q + 132) * 2 ^ s"
    using assms(1,2) p by (intro mult_mono; simp)+
  then show "8 \<le> alaw_magnitude s q" "alaw_magnitude s q < 32768" using assms by (simp_all add: alaw_magnitude_def)
qed

lemma alaw_value:
  assumes "0 \<le> q" "q < 16" "s \<le> 7" "c = 16 * int s + q"
  shows "alaw_to_linear (of_int ((c + 128) XOR 0x55)) = alaw_magnitude s q" "alaw_to_linear (of_int (c XOR 0x55)) = - alaw_magnitude s q"
proof -
  have c: "0 \<le> c" "c < 256" "0 \<le> c + 128" "c + 128 < 256" using assms by simp_all
  note f = code_fields [OF assms] and r = magnitude_range [OF assms(1-3)]
  have m: "(if int s \<noteq> 0 then push_bit (nat (int s - 1)) (push_bit 4 q + 0x108) else push_bit 4 q + 8) = alaw_magnitude s q"
  proof (cases s)
    case (Suc k)
    then have "nat (int s - 1) = k" by simp
    then show ?thesis using Suc by (simp add: alaw_magnitude_def push_bit_eq_mult)
  qed (simp add: alaw_magnitude_def push_bit_eq_mult)
  have "alaw_to_linear (of_int ((c + 128) XOR 0x55)) = sint (of_int (alaw_magnitude s q) :: uint16)"
    unfolding alaw_to_linear_def Let_def ALAW_AMI_MASK_def alaw_byte [OF c(3,4)] fields f m by simp
  then show "alaw_to_linear (of_int ((c + 128) XOR 0x55)) = alaw_magnitude s q" using sint_16 r by simp
  have "alaw_to_linear (of_int (c XOR 0x55)) = sint (of_int (- alaw_magnitude s q) :: uint16)"
    unfolding alaw_to_linear_def Let_def ALAW_AMI_MASK_def alaw_byte [OF c(1,2)] fields f m by simp
  also have "\<dots> = - alaw_magnitude s q" by (rule sint_16) (use r in simp_all)
  finally show "alaw_to_linear (of_int (c XOR 0x55)) = - alaw_magnitude s q" .
qed

text \<open>The segment and the interval of a magnitude, and the byte they give.\<close>

definition alaw_cell :: "nat \<Rightarrow> int \<Rightarrow> int \<Rightarrow> bool" where
  "alaw_cell s q n \<longleftrightarrow> s \<le> 7 \<and> 0 \<le> q \<and> q < 16 \<and>
     (if s = 0 then 16 * q \<le> n \<and> n < 16 * q + 16 else (q + 16) * 2 ^ (s + 3) \<le> n \<and> n < (q + 16) * 2 ^ (s + 3) + 2 ^ (s + 3))"

lemma div_between: "a * b \<le> n \<Longrightarrow> n < a * b + b \<Longrightarrow> n div b = a" for a b n :: int
  using div_mult_self1 [of b "n - a * b" a] div_pos_pos_trivial [of "n - a * b" b] by (cases "b = 0") simp_all

lemma cell_segment:
  assumes "alaw_cell s q n"
  shows "top_bit (of_int n OR 0xFF) - 7 = int s" "drop_bit (if int s \<noteq> 0 then nat (int s + 3) else 4) n mod 16 = q"
proof -
  have s: "s \<le> 7" "0 \<le> q" "q < 16" using assms by (simp_all add: alaw_cell_def)
  have "top_bit (of_int n OR 0xFF) - 7 = int s \<and> drop_bit (if int s \<noteq> 0 then nat (int s + 3) else 4) n mod 16 = q"
  proof (cases "s = 0")
    case True
    then have n: "q * 16 \<le> n" "n < q * 16 + 16" using assms by (simp_all add: alaw_cell_def)
    then show ?thesis using segment_low [of n] div_between [OF n] s True by (simp add: drop_bit_eq_div)
  next
    case False
    then have n: "(q + 16) * 2 ^ (s + 3) \<le> n" "n < (q + 16) * 2 ^ (s + 3) + 2 ^ (s + 3)" using assms by (simp_all add: alaw_cell_def)
    have "16 * 2 ^ (s + 3) \<le> (q + 16) * (2 :: int) ^ (s + 3)" "(q + 16) * (2 :: int) ^ (s + 3) + 2 ^ (s + 3) \<le> 32 * 2 ^ (s + 3)"
      using s mult_right_mono [of "q + 17" 32 "(2 :: int) ^ (s + 3)"] by (simp_all add: algebra_simps)
    moreover have "(2 :: int) ^ (s + 7) = 16 * 2 ^ (s + 3)" "(2 :: int) ^ (s + 8) = 32 * 2 ^ (s + 3)" by (simp_all add: power_add)
    ultimately have "2 ^ (s + 7) \<le> n" "n < 2 ^ (s + 8)" using n by linarith+
    then have "top_bit (of_int n OR 0xFF) - 7 = int s" by (rule segment_high) (use s in simp)
    moreover have "drop_bit (s + 3) n mod 16 = q" using div_between [OF n] low_four [of "q + 16"] s by (simp add: drop_bit_eq_div)
    moreover have "nat (int s + 3) = s + 3" by simp
    ultimately show ?thesis using False by simp
  qed
  then show "top_bit (of_int n OR 0xFF) - 7 = int s" "drop_bit (if int s \<noteq> 0 then nat (int s + 3) else 4) n mod 16 = q" by blast+
qed

lemma alaw_code:
  assumes "alaw_cell s q n"
  shows "x \<ge> 0 \<Longrightarrow> n = x \<Longrightarrow> linear_to_alaw x = of_int ((16 * int s + q + 128) XOR 0x55)"
    and "x < 0 \<Longrightarrow> n = - x - 8 \<Longrightarrow> linear_to_alaw x = of_int ((16 * int s + q) XOR 0x55)"
proof -
  have s: "s \<le> 7" "0 \<le> q" "q < 16" using assms by (simp_all add: alaw_cell_def)
  note seg = cell_segment(1) [OF assms] and idx = cell_segment(2) [OF assms]
  have c: "push_bit 4 (int s) OR (drop_bit (if int s \<noteq> 0 then nat (int s + 3) else 4) n AND 0xF) = 16 * int s + q" unfolding pack idx ..
  have r: "0 \<le> 16 * int s + q" "16 * int s + q < 128" using s by simp_all
  have ns: "\<not> 8 \<le> int s" using s(1) by simp
  have msk: "(0x55 :: int) OR 0x80 = 0xD5" by simp
  show "linear_to_alaw x = of_int ((16 * int s + q + 128) XOR 0x55)" if "x \<ge> 0" "n = x"
  proof -
    have "0 \<le> n" using that by simp
    then show ?thesis unfolding linear_to_alaw_def ALAW_AMI_MASK_def Let_def that(2) [symmetric]
      by (simp only: if_True if_False prod.case seg ns c msk byte_forms(3) [OF r])
  qed
  show "linear_to_alaw x = of_int ((16 * int s + q) XOR 0x55)" if "x < 0" "n = - x - 8"
  proof -
    have "\<not> 0 \<le> x" using that(1) by simp
    then show ?thesis unfolding linear_to_alaw_def ALAW_AMI_MASK_def Let_def
      by (simp only: if_False that(2) [symmetric] prod.case seg ns c)
  qed
qed


lemma magnitude_cell:
  assumes "s \<le> 7" "0 \<le> q" "q < 16" "d = 0 \<or> d = 8"
  shows "alaw_cell s q (alaw_magnitude s q - d)"
proof (cases "s = 0")
  case False
  then have "(2 :: int) ^ 1 \<le> 2 ^ s" by (intro power_increasing) simp_all
  moreover have "(8 * q + 132) * 2 ^ s = (q + 16) * 2 ^ (s + 3) + 4 * 2 ^ s" by (simp add: power_add algebra_simps)
  moreover have "(2 :: int) ^ (s + 3) = 8 * 2 ^ s" by (simp add: power_add)
  ultimately show ?thesis using assms False by (auto simp: alaw_cell_def alaw_magnitude_def)
qed (use assms in \<open>auto simp: alaw_cell_def alaw_magnitude_def\<close>)

lemma alaw_coded_back: "linear_to_alaw (alaw_to_linear a) = a"
proof -
  obtain v where v: "0 \<le> v" "v < 256" "a = of_int (v XOR 0x55)" using alaw_bytes by blast
  from v(1,2) show ?thesis
  proof (cases rule: code_split)
    case (1 s q)
    have "linear_to_alaw (- alaw_magnitude s q) = a"
      using alaw_code(2) [OF magnitude_cell [OF 1(1-3), of 8]] magnitude_range(1) [OF 1(2,3,1)] 1(4) v(3) by simp
    then show ?thesis using alaw_value(2) [OF 1(2,3,1,4)] v(3) by simp
  next
    case (2 s q)
    have "linear_to_alaw (alaw_magnitude s q) = a"
      using alaw_code(1) [OF magnitude_cell [OF 2(1-3), of 0]] magnitude_range(1) [OF 2(2,3,1)] 2(4) v(3) by simp
    then show ?thesis using alaw_value(1) [OF 2(2,3,1) refl] v(3) 2(4) by simp
  qed
qed


lemma cell_exists:
  assumes "0 \<le> n" "n < 2 ^ 15"
  obtains s q where "alaw_cell s q n" "\<bar>alaw_magnitude s q - n\<bar> \<le> max 8 (n div 32)"
proof (cases "n < 256")
  case True
  obtain d e where r: "n = 16 * d + e" "0 \<le> e" "e < 16" using that mult_div_mod_eq [of 16 n] by (metis pos_mod_bound pos_mod_sign zero_less_numeral)
  have "alaw_cell 0 d n" using assms True r by (simp add: alaw_cell_def)
  moreover have "\<bar>alaw_magnitude 0 d - n\<bar> \<le> 8" using r by (simp add: alaw_magnitude_def)
  ultimately show ?thesis using that by (meson max.coboundedI1)
next
  case False
  then obtain s where s: "2 ^ (s + 7) \<le> n" "n < 2 ^ (s + 8)" "s \<le> 7" using segment_cases [of n] assms by auto
  note q = quantise [OF s(1,2)]
  let ?m = "n div 2 ^ (s + 3)"
  have s0: "s \<noteq> 0" using s(2) False by (cases s) auto
  have c: "alaw_cell s (?m - 16) n" using q s(3) s0 by (simp add: alaw_cell_def)
  have t: "alaw_magnitude s (?m - 16) = ?m * 2 ^ (s + 3) + 2 ^ (s + 2)" using s0 by (simp add: alaw_magnitude_def power_add algebra_simps)
  have "(2 :: int) ^ (s + 3) = 2 * 2 ^ (s + 2)" by (simp add: power_add)
  then have "\<bar>alaw_magnitude s (?m - 16) - n\<bar> \<le> 2 ^ (s + 2)" unfolding t using q(3,4) by linarith
  moreover have "2 ^ (s + 2) \<le> n div 32" using zdiv_mono1 [OF s(1), of 32] by (simp add: power_add)
  ultimately show ?thesis using that c by (meson max.coboundedI2 order_trans)
qed

lemma ulaw_error_bound:
  assumes "\<bar>x\<bar> \<le> 32768"
  shows "\<bar>ulaw_to_linear (linear_to_ulaw x) - x\<bar> \<le> (\<bar>x\<bar> + 132) div 32"
proof (cases "132 + \<bar>x\<bar> < 2 ^ 15")
  case True
  then obtain s where s: "2 ^ (s + 7) \<le> 132 + \<bar>x\<bar>" "132 + \<bar>x\<bar> < 2 ^ (s + 8)" "s \<le> 7"
    using segment_cases [of "132 + \<bar>x\<bar>"] by auto
  have "2 ^ (s + 2) \<le> (132 + \<bar>x\<bar>) div 32" using zdiv_mono1 [OF s(1), of 32] by (simp add: power_add)
  then show ?thesis using ulaw_error [OF s refl] by (simp add: add.commute)
next
  case False
  have seg: "top_bit (of_int (132 + \<bar>x\<bar>) OR 0xFF) - 7 = 8" using segment_high [of 8 "132 + \<bar>x\<bar>"] False assms by simp
  have e: "NOT (of_int 127) = (0x80 :: byte)" "NOT (of_int (127 + 128)) = (0 :: byte)" by simp_all
  have top: "ulaw_to_linear 0 = - 32124" "ulaw_to_linear 0x80 = 32124"
    using ulaw_value [of 15 7 127, unfolded e] by simp_all
  have d: "1024 \<le> (\<bar>x\<bar> + 132) div 32" using zdiv_mono1 [of 32768 "\<bar>x\<bar> + 132" 32] False by simp
  show ?thesis
  proof (cases "x < 0")
    case True
    then have "linear_to_ulaw x = 0" using seg by (simp add: linear_to_ulaw_def ULAW_BIAS_def)
    then show ?thesis using top d True False assms by simp
  next
    case f: False
    then have "linear_to_ulaw x = 0x80" using seg by (simp add: linear_to_ulaw_def ULAW_BIAS_def)
    then show ?thesis using top d f False assms by simp
  qed
qed

lemma alaw_just_below:
  assumes "- 8 < x" "x < 0"
  shows "linear_to_alaw x = 0x55"
proof -
  have "- x - 8 < 0" "- (2 ^ 31) \<le> - x - 8" using assms by simp_all
  then have "(- x - 8) div 2 ^ 31 = - 1" by (intro div_between) simp_all
  then have "bit (- x - 8) 31" by (simp add: bit_iff_odd)
  then have "bit (of_int (- x - 8) OR 0xFF :: uint32) 31" by (simp only: bit_or_iff bit_of_int_iff) simp
  then have "top_bit (of_int (- x - 8) OR 0xFF) = 31" using top_bit_highest [of _ 31] bit_imp_le_length by fastforce
  then show ?thesis using assms by (simp add: linear_to_alaw_def ALAW_AMI_MASK_def)
qed

lemma alaw_error_bound:
  assumes "- 32768 \<le> x" "x < 32768"
  shows "\<bar>alaw_to_linear (linear_to_alaw x) - x\<bar> \<le> max 8 (\<bar>x\<bar> div 32) + (if x < 0 then 8 else 0)"
proof (cases "x < 0")
  case False
  then obtain s q where c: "alaw_cell s q x" "\<bar>alaw_magnitude s q - x\<bar> \<le> max 8 (x div 32)" using cell_exists [of x] assms by auto
  then have "alaw_to_linear (linear_to_alaw x) = alaw_magnitude s q"
    using alaw_code(1) [OF c(1)] alaw_value(1) [OF _ _ _ refl, of q s] False by (simp add: alaw_cell_def)
  then show ?thesis using c(2) False by simp
next
  case True
  show ?thesis
  proof (cases "- 8 < x")
    case below: True
    have "alaw_to_linear 0x55 = - 8" using alaw_value(2) [of 0 0 0] by (simp add: alaw_magnitude_def)
    then show ?thesis using alaw_just_below [OF below True] below True by simp
  next
    case False
    then obtain s q where c: "alaw_cell s q (- x - 8)" "\<bar>alaw_magnitude s q - (- x - 8)\<bar> \<le> max 8 ((- x - 8) div 32)"
      using cell_exists [of "- x - 8"] assms by auto
    then have "alaw_to_linear (linear_to_alaw x) = - alaw_magnitude s q"
      using alaw_code(2) [OF c(1)] alaw_value(2) [OF _ _ _ refl, of q s] True by (simp add: alaw_cell_def)
    moreover have "(- x - 8) div 32 \<le> \<bar>x\<bar> div 32" using True by (intro zdiv_mono1) simp_all
    then have "max 8 ((- x - 8) div 32) \<le> max 8 (\<bar>x\<bar> div 32)" by (rule max.mono [OF order_refl])
    ultimately show ?thesis using c(2) True by simp
  qed
qed


text \<open>C18: coding and decoding a 16-bit sample changes it by at most one part in 32 of its biased magnitude in u-law,
  clipped samples included, and by at most 8 or one part in 32 in A-law, where negative samples are off by up
  to 8 more.\<close>

theorem g711_error_bound:
  assumes "- 32768 \<le> x" "x < 32768"
  shows "\<bar>ulaw_to_linear (linear_to_ulaw x) - x\<bar> \<le> (\<bar>x\<bar> + 132) div 32 \<and>
    \<bar>alaw_to_linear (linear_to_alaw x) - x\<bar> \<le> max 8 (\<bar>x\<bar> div 32) + (if x < 0 then 8 else 0)"
  using ulaw_error_bound [of x] alaw_error_bound [OF assms] assms by simp

theorem g711_error_bound_witness:
  "\<bar>ulaw_to_linear (linear_to_ulaw (- 23)) - (- 23)\<bar> \<le> 4 \<and> \<bar>alaw_to_linear (linear_to_alaw (- 23)) - (- 23)\<bar> \<le> 16"
  using g711_error_bound [of "- 23"] by simp

text \<open>The sample -23 has the A-law value -24 next to it and is coded as -8.\<close>

lemma alaw_negative_not_nearest:
  "alaw_to_linear (linear_to_alaw (- 23)) = - 8" "alaw_to_linear 0x54 = - 24"
proof -
  have "linear_to_alaw (- 23) = of_int ((16 * int 0 + 0) XOR 0x55)"
    by (rule alaw_code(2) [where n = 15]) (simp_all add: alaw_cell_def)
  then show "alaw_to_linear (linear_to_alaw (- 23)) = - 8" using alaw_value(2) [of 0 0 0] by (simp add: alaw_magnitude_def)
  show "alaw_to_linear 0x54 = - 24" using alaw_value(2) [of 1 0 1] by (simp add: alaw_magnitude_def)
qed


text \<open>The tables between the laws, entry by entry.\<close>

lemma uint_ones: "uint (- 1 :: byte) = 255"
  by (simp add: unsigned_minus_1_eq_mask mask_eq_exp_minus_1)

lemma ulaw_table_close: "list_all (\<lambda>(u, a). \<bar>alaw_to_linear a - ulaw_to_linear u\<bar> \<le> (\<bar>ulaw_to_linear u\<bar> + 132) div 16)
    (zip (map of_nat [0..<256]) ulaw_to_alaw_table)"
  by (simp add: upt_rec uint_ones ulaw_to_alaw_table_def alaw_to_linear_def ulaw_to_linear_def ALAW_AMI_MASK_def ULAW_BIAS_def Let_def)

lemma alaw_table_close: "list_all (\<lambda>(a, u). \<bar>ulaw_to_linear u - alaw_to_linear a\<bar> \<le> (\<bar>alaw_to_linear a\<bar> + 132) div 16)
    (zip (map of_nat [0..<256]) alaw_to_ulaw_table)"
  by (simp add: upt_rec uint_ones alaw_to_ulaw_table_def alaw_to_linear_def ulaw_to_linear_def ALAW_AMI_MASK_def ULAW_BIAS_def Let_def)

lemma table_entry:
  fixes c :: byte
  assumes "list_all (\<lambda>(c, d). P c d) (zip (map of_nat [0..<256]) t)" "length t = 256"
  shows "P c (t ! unat c)"
proof -
  have c: "unat c < 256" using unsigned_less [of c, where 'a = nat] by simp
  then have "zip (map of_nat [0..<256]) t ! unat c = (c, t ! unat c)" using assms(2) by simp
  moreover have "zip (map of_nat [0..<256]) t ! unat c \<in> set (zip (map of_nat [0..<256]) t)" using c assms(2) by (intro nth_mem) simp
  ultimately show ?thesis using assms(1) by (auto simp: list_all_iff)
qed

text \<open>the tables of G.711 between the two laws change the sample a code stands for by at most one part in 16 of
  its biased magnitude, for all codes and in both directions.\<close>

theorem g711_tables_close:
  "\<bar>alaw_to_linear (ulaw_to_alaw c) - ulaw_to_linear c\<bar> \<le> (\<bar>ulaw_to_linear c\<bar> + 132) div 16 \<and>
   \<bar>ulaw_to_linear (alaw_to_ulaw c) - alaw_to_linear c\<bar> \<le> (\<bar>alaw_to_linear c\<bar> + 132) div 16"
proof -
  have "length ulaw_to_alaw_table = 256" "length alaw_to_ulaw_table = 256" by (simp_all add: ulaw_to_alaw_table_def alaw_to_ulaw_table_def)
  then show ?thesis using table_entry [OF ulaw_table_close, of c] table_entry [OF alaw_table_close, of c]
    by (simp add: ulaw_to_alaw_def alaw_to_ulaw_def)
qed

end
