(* ===== verification/Pcm.thy ===== *)
theory Pcm
  imports G711 Ascii_Case
begin

text \<open>
  The core PCM module (src/switch\_pcm.c): the encoders and decoders of PCMU, PCMA, L16 and the proxy
  codec on buffers of bytes, and the codec implementations the module registers through
  \<open>switch_core_codec_add_implementation\<close> of src/include/switch\_loadable\_module.h. A sample is a
  little-endian \<open>short\<close>.
\<close>

section \<open>Coding\<close>

definition SWITCH_CODEC_FLAG_ENCODE :: uint32 where "SWITCH_CODEC_FLAG_ENCODE = 1"
definition SWITCH_CODEC_FLAG_DECODE :: uint32 where "SWITCH_CODEC_FLAG_DECODE = 2"

unbundle bit_operations_syntax

text \<open>The init functions of the raw codec and of both laws are the same.\<close>

definition switch_raw_init :: "uint32 \<Rightarrow> switch_status" where
  "switch_raw_init flags =
     (if \<not> (flags AND SWITCH_CODEC_FLAG_ENCODE \<noteq> 0 \<or> flags AND SWITCH_CODEC_FLAG_DECODE \<noteq> 0)
      then SWITCH_STATUS_FALSE else SWITCH_STATUS_SUCCESS)"

definition switch_g711u_init :: "uint32 \<Rightarrow> switch_status" where
  "switch_g711u_init flags =
     (if \<not> (flags AND SWITCH_CODEC_FLAG_ENCODE \<noteq> 0 \<or> flags AND SWITCH_CODEC_FLAG_DECODE \<noteq> 0)
      then SWITCH_STATUS_FALSE else SWITCH_STATUS_SUCCESS)"

definition switch_g711a_init :: "uint32 \<Rightarrow> switch_status" where
  "switch_g711a_init flags =
     (if \<not> (flags AND SWITCH_CODEC_FLAG_ENCODE \<noteq> 0 \<or> flags AND SWITCH_CODEC_FLAG_DECODE \<noteq> 0)
      then SWITCH_STATUS_FALSE else SWITCH_STATUS_SUCCESS)"

text \<open>
  Raw audio is copied when the other codec has another rate; the rates are those of the implementations,
  where both codecs have one. The results are the output buffer and the length, if it is set.
\<close>

definition switch_raw_encode :: "nat option \<Rightarrow> nat option \<Rightarrow> byte list \<Rightarrow> nat \<Rightarrow> byte list \<Rightarrow> fault + (switch_status \<times> byte list \<times> nat option)" where
  "switch_raw_encode rate other_rate decoded len encoded =
     (case (rate, other_rate) of
        (Some r, Some q) \<Rightarrow>
          if r \<noteq> q
          then fbind (mem_read decoded 0 len) (\<lambda>bs. fbind (mem_write encoded 0 bs) (\<lambda>e. Inr (SWITCH_STATUS_RESAMPLE, e, Some len)))
          else Inr (SWITCH_STATUS_NOOP, encoded, None)
      | _ \<Rightarrow> Inr (SWITCH_STATUS_NOOP, encoded, None))"

definition switch_raw_decode :: "nat option \<Rightarrow> nat option \<Rightarrow> byte list \<Rightarrow> nat \<Rightarrow> byte list \<Rightarrow> fault + (switch_status \<times> byte list \<times> nat option)" where
  "switch_raw_decode rate other_rate encoded len decoded =
     (case (rate, other_rate) of
        (Some r, Some q) \<Rightarrow>
          if r \<noteq> q
          then fbind (mem_read encoded 0 len) (\<lambda>bs. fbind (mem_write decoded 0 bs) (\<lambda>d. Inr (SWITCH_STATUS_RESAMPLE, d, Some len)))
          else Inr (SWITCH_STATUS_NOOP, decoded, None)
      | _ \<Rightarrow> Inr (SWITCH_STATUS_NOOP, decoded, None))"

definition switch_proxy_encode :: "byte list \<Rightarrow> switch_status \<times> byte list" where
  "switch_proxy_encode encoded = (SWITCH_STATUS_FALSE, encoded)"

definition switch_proxy_decode :: "byte list \<Rightarrow> switch_status \<times> byte list" where
  "switch_proxy_decode decoded = (SWITCH_STATUS_FALSE, decoded)"

text \<open>The loops: \<open>n\<close> samples are left, the next one has the index \<open>i\<close>.\<close>

definition sample_at :: "byte list \<Rightarrow> nat \<Rightarrow> fault + int" where
  "sample_at blk i = fbind (mem_read blk (2 * i) 2) (\<lambda>bs. Inr (sint (load_le bs :: uint16)))"

fun encode_loop :: "(int \<Rightarrow> byte) \<Rightarrow> byte list \<Rightarrow> nat \<Rightarrow> nat \<Rightarrow> byte list \<Rightarrow> fault + byte list" where
  "encode_loop law dbuf i 0 ebuf = Inr ebuf"
| "encode_loop law dbuf i (Suc n) ebuf =
     fbind (sample_at dbuf i) (\<lambda>x. fbind (mem_write ebuf i [law x]) (\<lambda>e. encode_loop law dbuf (Suc i) n e))"

fun decode_loop :: "(byte \<Rightarrow> int) \<Rightarrow> byte list \<Rightarrow> nat \<Rightarrow> nat \<Rightarrow> byte list \<Rightarrow> fault + byte list" where
  "decode_loop law ebuf i 0 dbuf = Inr dbuf"
| "decode_loop law ebuf i (Suc n) dbuf =
     fbind (mem_read ebuf i 1) (\<lambda>c. fbind (mem_write dbuf (2 * i) (store_le 2 (of_int (law (hd c)) :: uint16))) (\<lambda>d.
       decode_loop law ebuf (Suc i) n d))"

definition switch_g711u_encode :: "byte list \<Rightarrow> nat \<Rightarrow> byte list \<Rightarrow> fault + (switch_status \<times> byte list \<times> nat)" where
  "switch_g711u_encode decoded len encoded =
     fbind (encode_loop linear_to_ulaw decoded 0 (len div 2) encoded) (\<lambda>e. Inr (SWITCH_STATUS_SUCCESS, e, len div 2))"

definition switch_g711a_encode :: "byte list \<Rightarrow> nat \<Rightarrow> byte list \<Rightarrow> fault + (switch_status \<times> byte list \<times> nat)" where
  "switch_g711a_encode decoded len encoded =
     fbind (encode_loop linear_to_alaw decoded 0 (len div 2) encoded) (\<lambda>e. Inr (SWITCH_STATUS_SUCCESS, e, len div 2))"

text \<open>
  A frame of silence is zeroes of the length the implementation gives, \<open>packet\<close>; the length of decoded
  data is a 32-bit number, like \<open>len\<close>.
\<close>

definition switch_g711u_decode :: "bool \<Rightarrow> nat \<Rightarrow> byte list \<Rightarrow> nat \<Rightarrow> byte list \<Rightarrow> fault + (switch_status \<times> byte list \<times> nat)" where
  "switch_g711u_decode silence packet encoded len decoded =
     (if silence then fbind (mem_write decoded 0 (replicate packet 0)) (\<lambda>d. Inr (SWITCH_STATUS_SUCCESS, d, packet))
      else fbind (decode_loop ulaw_to_linear encoded 0 len decoded) (\<lambda>d. Inr (SWITCH_STATUS_SUCCESS, d, len * 2 mod 2 ^ 32)))"

definition switch_g711a_decode :: "bool \<Rightarrow> nat \<Rightarrow> byte list \<Rightarrow> nat \<Rightarrow> byte list \<Rightarrow> fault + (switch_status \<times> byte list \<times> nat)" where
  "switch_g711a_decode silence packet encoded len decoded =
     (if silence then fbind (mem_write decoded 0 (replicate packet 0)) (\<lambda>d. Inr (SWITCH_STATUS_SUCCESS, d, packet))
      else fbind (decode_loop alaw_to_linear encoded 0 len decoded) (\<lambda>d. Inr (SWITCH_STATUS_SUCCESS, d, len * 2 mod 2 ^ 32)))"

section \<open>Registration\<close>

datatype codec_type = SWITCH_CODEC_TYPE_AUDIO | SWITCH_CODEC_TYPE_VIDEO | SWITCH_CODEC_TYPE_T38 | SWITCH_CODEC_TYPE_APP

text \<open>Which functions an implementation points to.\<close>

datatype codec_functions = Proxy_codec | Raw_codec | G711u_codec | G711a_codec

record codec_implementation =
  ci_type :: codec_type
  ci_ianacode :: nat
  ci_iananame :: string
  ci_rate :: nat
  ci_actual_rate :: nat
  ci_bits_per_second :: nat
  ci_microseconds :: nat
  ci_samples :: nat
  ci_decoded_bytes :: nat
  ci_encoded_bytes :: nat
  ci_channels :: nat
  ci_frames :: nat
  ci_functions :: codec_functions
  ci_codec_id :: uint32
  ci_impl_id :: uint32

record codec_interface =
  if_name :: string
  if_codec_id :: uint32
  if_implementations :: "codec_implementation list"

text \<open>The module under construction: its interfaces in reverse order, so that the one being filled comes first, and
  the global codec counter.\<close>

record codec_module =
  cm_interfaces :: "codec_interface list"
  cm_next_id :: uint32

definition SWITCH_RECOMMENDED_BUFFER_SIZE :: nat where "SWITCH_RECOMMENDED_BUFFER_SIZE = 4096"

definition SWITCH_ADD_CODEC :: "string \<Rightarrow> codec_module \<Rightarrow> codec_module" where
  "SWITCH_ADD_CODEC name m =
     m\<lparr>cm_interfaces := \<lparr>if_name = name, if_codec_id = cm_next_id m, if_implementations = []\<rparr> # cm_interfaces m, cm_next_id := cm_next_id m + 1\<rparr>"

definition switch_check_interval :: "nat \<Rightarrow> nat \<Rightarrow> bool" where
  "switch_check_interval rate ptime =
     (if (rate = 22050 \<or> rate = 11025) \<and> ptime < 120 then True
      else
        let max_ms = (if rate = 48000 then 40 else if rate \<in> {32000, 24000, 16000} then 60 else if rate = 12000 then 100
                      else if rate = 8000 then 120 else 0);
            ptime_div = (if max_ms \<noteq> 0 then 2 else 0)
        in max_ms \<noteq> 0 \<and> ptime_div \<noteq> 0 \<and> (ptime \<le> max_ms \<and> ptime mod ptime_div = 0) \<and> rate div 1000 * ptime < SWITCH_RECOMMENDED_BUFFER_SIZE)"

text \<open>The implementation goes to the front of the list of the interface, unless it is rejected.\<close>

definition switch_core_codec_add_implementation :: "codec_implementation \<Rightarrow> codec_module \<Rightarrow> codec_module" where
  "switch_core_codec_add_implementation c m =
     (if SWITCH_RECOMMENDED_BUFFER_SIZE < ci_decoded_bytes c then m
      else if ci_type c = SWITCH_CODEC_TYPE_VIDEO \<or> switch_check_interval (ci_actual_rate c) (ci_microseconds c div 1000)
      then (case cm_interfaces m of
          [] \<Rightarrow> m
        | i # is \<Rightarrow> m\<lparr>cm_interfaces := i\<lparr>if_implementations := c\<lparr>ci_codec_id := if_codec_id i, ci_impl_id := cm_next_id m\<rparr> # if_implementations i\<rparr> # is,
            cm_next_id := cm_next_id m + 1\<rparr>)
      else m)"

definition codec :: "codec_type \<Rightarrow> nat \<Rightarrow> string \<Rightarrow> nat \<Rightarrow> nat \<Rightarrow> nat \<Rightarrow> nat \<Rightarrow> nat \<Rightarrow> nat \<Rightarrow> nat \<Rightarrow> codec_functions \<Rightarrow> codec_implementation" where
  "codec ty code name rate bps us samples decoded encoded frames fns =
     \<lparr>ci_type = ty, ci_ianacode = code, ci_iananame = name, ci_rate = rate, ci_actual_rate = rate, ci_bits_per_second = bps,
      ci_microseconds = us, ci_samples = samples, ci_decoded_bytes = decoded, ci_encoded_bytes = encoded, ci_channels = 1,
      ci_frames = frames, ci_functions = fns, ci_codec_id = 0, ci_impl_id = 0\<rparr>"

text \<open>The loops over packet lengths: counting down multiples of ten milliseconds, and counting up by a step.\<close>

fun add_multiples :: "(nat \<Rightarrow> codec_implementation) \<Rightarrow> nat \<Rightarrow> codec_module \<Rightarrow> codec_module" where
  "add_multiples f 0 m = m"
| "add_multiples f (Suc n) m = add_multiples f n (switch_core_codec_add_implementation (f (Suc n)) m)"

fun add_series :: "nat \<Rightarrow> nat \<Rightarrow> nat \<Rightarrow> nat \<times> nat \<times> nat \<Rightarrow> nat \<times> nat \<times> nat \<Rightarrow> codec_module \<Rightarrow> codec_module" where
  "add_series 0 rate bps now step m = m"
| "add_series (Suc n) rate bps (samples, bytes, us) (ds, db, dus) m =
     add_series n rate bps (samples + ds, bytes + db, us + dus) (ds, db, dus)
       (switch_core_codec_add_implementation (codec SWITCH_CODEC_TYPE_AUDIO 70 ''L16'' rate bps us samples bytes bytes 1 Raw_codec) m)"

text \<open>The first loop over L16, for a rate that doubles from one round to the next.\<close>

fun add_rates :: "nat \<Rightarrow> nat \<Rightarrow> nat \<Rightarrow> nat \<Rightarrow> nat \<Rightarrow> nat \<Rightarrow> codec_module \<Rightarrow> codec_module" where
  "add_rates 0 rate bps spf bpf ebpf m = m"
| "add_rates (Suc n) rate bps spf bpf ebpf m =
     add_rates n (rate * 2) (bps * 2) (spf * 2) (bpf * 2) (ebpf * 2)
       (add_multiples (\<lambda>c. codec SWITCH_CODEC_TYPE_AUDIO 70 ''L16'' rate bps (10000 * c) (spf * c) (bpf * c) (ebpf * c) (spf * c) Raw_codec)
         (if rate = 8000 then 12 else 6) m)"

text \<open>A G.711 implementation for \<open>k\<close> times ten milliseconds.\<close>

definition pcm_packet :: "nat \<Rightarrow> string \<Rightarrow> codec_functions \<Rightarrow> nat \<Rightarrow> codec_implementation" where
  "pcm_packet code name fns k = codec SWITCH_CODEC_TYPE_AUDIO code name 8000 64000 (10000 * k) (80 * k) (160 * k) (80 * k) (80 * k) fns"

definition mod_g711_load :: "codec_module \<Rightarrow> codec_module" where
  "mod_g711_load m0 =
     (let m1 = SWITCH_ADD_CODEC ''G.711 ulaw'' m0;
          m2 = add_multiples (pcm_packet 0 ''PCMU'' G711u_codec) 12 m1;
          m3 = SWITCH_ADD_CODEC ''G.711 alaw'' m2
      in add_multiples (pcm_packet 8 ''PCMA'' G711a_codec) 12 m3)"

definition core_pcm_load :: "codec_module \<Rightarrow> codec_module" where
  "core_pcm_load m0 =
     (let m1 = SWITCH_ADD_CODEC ''PROXY VIDEO PASS-THROUGH'' m0;
          m2 = switch_core_codec_add_implementation (codec SWITCH_CODEC_TYPE_VIDEO 31 ''PROXY-VID'' 90000 0 0 0 0 0 1 Proxy_codec) m1;
          m3 = SWITCH_ADD_CODEC ''PROXY PASS-THROUGH'' m2;
          m4 = switch_core_codec_add_implementation (codec SWITCH_CODEC_TYPE_AUDIO 0 ''PROXY'' 8000 0 20000 160 320 320 1 Proxy_codec) m3;
          m5 = SWITCH_ADD_CODEC ''RAW Signed Linear (16 bit)'' m4;
          m6 = add_rates 3 8000 128000 80 160 160 m5;
          m7 = add_series 5 12000 192000 (240, 480, 20000) (240, 480, 20000) m6;
          m8 = add_series 3 24000 384000 (480, 960, 20000) (480, 960, 20000) m7;
          m9 = add_series 5 48000 768000 (96, 192, 2000) (96, 192, 2000) m8;
          m10 = add_series 4 8000 128000 (16, 32, 2000) (16, 32, 2000) m9;
          m11 = add_series 4 16000 256000 (32, 64, 2000) (32, 64, 2000) m10;
          m12 = add_series 4 32000 512000 (64, 128, 2000) (64, 128, 2000) m11;
          m13 = add_series 3 48000 768000 (960, 1920, 20000) (480, 960, 10000) m12;
          m14 = switch_core_codec_add_implementation (codec SWITCH_CODEC_TYPE_AUDIO 70 ''L16'' 22050 352800 20000 441 882 882 1 Raw_codec) m13;
          m15 = switch_core_codec_add_implementation (codec SWITCH_CODEC_TYPE_AUDIO 70 ''L16'' 11025 176400 40000 441 882 882 1 Raw_codec) m14;
          m16 = switch_core_codec_add_implementation (codec SWITCH_CODEC_TYPE_AUDIO 70 ''L16'' 11025 176400 32000 256 512 512 1 Raw_codec) m15
      in mod_g711_load m16)"


section \<open>What the loops do\<close>

lemma decode_loop_result:
  assumes "i + n \<le> length ebuf" "2 * (i + n) \<le> length dbuf"
  shows "decode_loop law ebuf i n dbuf =
    Inr (take (2 * i) dbuf @ concat (map (\<lambda>c. store_le 2 (of_int (law c) :: uint16)) (take n (drop i ebuf))) @ drop (2 * (i + n)) dbuf)"
  using assms
proof (induction n arbitrary: i dbuf)
  case (Suc n)
  let ?s = "\<lambda>c. store_le 2 (of_int (law c) :: uint16)"
  obtain c rest where c: "drop i ebuf = c # rest" using Suc.prems(1) by (cases "drop i ebuf") auto
  have rest: "rest = drop (Suc i) ebuf" using c by (simp add: drop_Suc tl_drop [symmetric])
  let ?d = "take (2 * i) dbuf @ ?s c @ drop (2 * i + 2) dbuf"
  have l: "length ?d = length dbuf" using Suc.prems(2) by simp
  have "decode_loop law ebuf i (Suc n) dbuf = decode_loop law ebuf (Suc i) n ?d" using Suc.prems c by (simp add: mem_simps)
  also have "\<dots> = Inr (take (2 * Suc i) ?d @ concat (map ?s (take n (drop (Suc i) ebuf))) @ drop (2 * (Suc i + n)) ?d)"
    using Suc.prems l by (intro Suc.IH) simp_all
  also have "take (2 * Suc i) ?d = take (2 * i) dbuf @ ?s c" using Suc.prems(2) by simp
  also have "drop (2 * (Suc i + n)) ?d = drop (2 * (i + Suc n)) dbuf" using Suc.prems(2) by (simp add: add.commute)
  finally show ?case using c rest by simp
qed simp

lemma encode_loop_result:
  assumes "i + n \<le> length ebuf" "\<And>j. j < n \<Longrightarrow> sample_at dbuf (i + j) = Inr (xs ! j)" "length xs = n"
  shows "encode_loop law dbuf i n ebuf = Inr (take i ebuf @ map law xs @ drop (i + n) ebuf)"
  using assms
proof (induction n arbitrary: i ebuf xs)
  case (Suc n)
  obtain x ys where xs: "xs = x # ys" using Suc.prems(3) by (cases xs) auto
  let ?e = "take i ebuf @ [law x] @ drop (Suc i) ebuf"
  have "encode_loop law dbuf i (Suc n) ebuf = encode_loop law dbuf (Suc i) n ?e"
    using Suc.prems(1) Suc.prems(2) [of 0] xs by (simp add: mem_simps)
  also have "\<dots> = Inr (take (Suc i) ?e @ map law ys @ drop (Suc i + n) ?e)"
    using Suc.prems(1,3) Suc.prems(2) [of "Suc _"] xs by (intro Suc.IH) simp_all
  also have "take (Suc i) ?e = take i ebuf @ [law x]" using Suc.prems(1) by simp
  also have "drop (Suc i + n) ?e = drop (i + Suc n) ebuf" using Suc.prems(1) by (simp add: add.commute)
  finally show ?case using xs by simp
qed simp

text \<open>The samples of a decoded frame.\<close>

lemma sample_stored:
  assumes "j < length xs" "\<And>x. x \<in> set xs \<Longrightarrow> sint (of_int x :: uint16) = x"
  shows "sample_at (concat (map (\<lambda>x. store_le 2 (of_int x :: uint16)) xs) @ rest) j = Inr (xs ! j)"
  using assms
proof (induction xs arbitrary: j)
  case (Cons x xs)
  let ?s = "\<lambda>x. store_le 2 (of_int x :: uint16)"
  show ?case
  proof (cases j)
    case 0
    then show ?thesis using Cons.prems(2) [of x] load_store_le [of 2 "of_int x :: uint16"] by (simp add: sample_at_def mem_simps)
  next
    case (Suc k)
    have "sample_at (?s x @ b) (Suc k) = sample_at b k" for b by (simp add: sample_at_def mem_read_def)
    then show ?thesis using Cons Suc by simp
  qed
qed simp

lemma decoded_16: "sint (of_int (ulaw_to_linear u) :: uint16) = ulaw_to_linear u" "sint (of_int (alaw_to_linear a) :: uint16) = alaw_to_linear a"
  by (simp_all add: ulaw_to_linear_def alaw_to_linear_def Let_def)

lemma recode_frame:
  assumes "len \<le> length enc" "2 * len \<le> length dec" "len \<le> length out" "\<And>c. sint (of_int (from_law c) :: uint16) = from_law c"
  obtains d where "decode_loop from_law enc 0 len dec = Inr d"
    "encode_loop to_law d 0 len out = Inr (map (\<lambda>c. to_law (from_law c)) (take len enc) @ drop len out)"
proof -
  let ?xs = "map from_law (take len enc)"
  let ?d = "concat (map (\<lambda>x. store_le 2 (of_int x :: uint16)) ?xs) @ drop (2 * len) dec"
  have "decode_loop from_law enc 0 len dec = Inr ?d" using decode_loop_result [of 0 len enc dec from_law] assms(1,2) by (simp add: comp_def)
  moreover have "encode_loop to_law ?d 0 len out = Inr (take 0 out @ map to_law ?xs @ drop (0 + len) out)"
  proof (rule encode_loop_result)
    show "sample_at ?d (0 + j) = Inr (?xs ! j)" if "j < len" for j
      using sample_stored [of j ?xs "drop (2 * len) dec"] that assms(1,4) by auto
  qed (use assms in simp_all)
  ultimately show ?thesis using that by (simp add: comp_def)
qed

text \<open>C17: decoding a frame of less than 2 GB of PCMA or PCMU into buffers that hold it and encoding the samples again
  stays in the buffers; every PCMA byte comes back, and every PCMU byte comes back except \<open>0x7F\<close>, the
  negative zero, which comes back as \<open>0xFF\<close>, the positive one.\<close>

theorem g711_frame_roundtrip:
  assumes "len \<le> length enc" "2 * len \<le> length dec" "len \<le> length out" "len < 2 ^ 31"
  shows "(\<exists>d. switch_g711a_decode False packet enc len dec = Inr (SWITCH_STATUS_SUCCESS, d, len * 2) \<and>
      switch_g711a_encode d (len * 2) out = Inr (SWITCH_STATUS_SUCCESS, take len enc @ drop len out, len)) \<and>
    (\<exists>d. switch_g711u_decode False packet enc len dec = Inr (SWITCH_STATUS_SUCCESS, d, len * 2) \<and>
      switch_g711u_encode d (len * 2) out =
        Inr (SWITCH_STATUS_SUCCESS, map (\<lambda>c. if c = 0x7F then 0xFF else c) (take len enc) @ drop len out, len))"
proof -
  obtain da where "decode_loop alaw_to_linear enc 0 len dec = Inr da"
    "encode_loop linear_to_alaw da 0 len out = Inr (map (\<lambda>c. linear_to_alaw (alaw_to_linear c)) (take len enc) @ drop len out)"
    by (rule recode_frame [OF assms(1-3) decoded_16(2)])
  moreover obtain du where "decode_loop ulaw_to_linear enc 0 len dec = Inr du"
    "encode_loop linear_to_ulaw du 0 len out = Inr (map (\<lambda>c. linear_to_ulaw (ulaw_to_linear c)) (take len enc) @ drop len out)"
    by (rule recode_frame [OF assms(1-3) decoded_16(1)])
  ultimately show ?thesis using assms(4)
    by (simp add: switch_g711a_decode_def switch_g711a_encode_def switch_g711u_decode_def switch_g711u_encode_def alaw_coded_back ulaw_coded_back)
qed

theorem g711_frame_roundtrip_witness:
  "(\<exists>d. switch_g711a_decode False 320 [0x7F, 0x12] 2 [0, 0, 0, 0] = Inr (SWITCH_STATUS_SUCCESS, d, 4) \<and>
      switch_g711a_encode d 4 [9, 9, 9] = Inr (SWITCH_STATUS_SUCCESS, [0x7F, 0x12, 9], 2)) \<and>
    (\<exists>d. switch_g711u_decode False 320 [0x7F, 0x12] 2 [0, 0, 0, 0] = Inr (SWITCH_STATUS_SUCCESS, d, 4) \<and>
      switch_g711u_encode d 4 [9, 9, 9] = Inr (SWITCH_STATUS_SUCCESS, [0xFF, 0x12, 9], 2))"
  using g711_frame_roundtrip [of 2 "[0x7F, 0x12]" "[0, 0, 0, 0]" "[9, 9, 9]" 320] by simp


section \<open>What is registered\<close>

definition implementations :: "codec_module \<Rightarrow> codec_implementation list" where
  "implementations m = concat (map if_implementations (cm_interfaces m))"

text \<open>
  An implementation is consistent: its sizes fit the recommended buffer, a frame of 16-bit samples has two
  bytes a sample, what is encoded has the size of its format, and the duration fits the rate.
\<close>

definition consistent :: "codec_implementation \<Rightarrow> bool" where
  "consistent c \<longleftrightarrow>
     (ci_functions c \<noteq> Proxy_codec \<longrightarrow>
        ci_decoded_bytes c = 2 * ci_samples c \<and>
        ci_encoded_bytes c = (if ci_functions c = Raw_codec then 2 * ci_samples c else ci_samples c) \<and>
        ci_bits_per_second c = (if ci_functions c = Raw_codec then 16 else 8) * ci_rate c \<and>
        (1000000 * ci_samples c = ci_rate c * ci_microseconds c \<or> ci_rate c = 11025 \<and> ci_microseconds c = 32000))"

definition admissible :: "codec_implementation \<Rightarrow> bool" where
  "admissible c \<longleftrightarrow> ci_decoded_bytes c \<le> 4096 \<and> (ci_type c = SWITCH_CODEC_TYPE_VIDEO \<or> switch_check_interval (ci_actual_rate c) (ci_microseconds c div 1000))"

definition all_good :: "codec_module \<Rightarrow> bool" where
  "all_good m \<longleftrightarrow> (\<forall>c \<in> set (implementations m). consistent c \<and> admissible c)"

lemma add_codec_good: "all_good m \<Longrightarrow> all_good (SWITCH_ADD_CODEC name m)"
  by (simp add: all_good_def implementations_def SWITCH_ADD_CODEC_def)

lemma add_implementation_good:
  assumes "all_good m" "consistent c"
  shows "all_good (switch_core_codec_add_implementation c m)"
proof -
  have "consistent (c\<lparr>ci_codec_id := i, ci_impl_id := j\<rparr>)" for i j using assms(2) by (simp add: consistent_def)
  moreover have "admissible (c\<lparr>ci_codec_id := i, ci_impl_id := j\<rparr>)" if "\<not> 4096 < ci_decoded_bytes c"
      "ci_type c = SWITCH_CODEC_TYPE_VIDEO \<or> switch_check_interval (ci_actual_rate c) (ci_microseconds c div 1000)" for i j
    using that by (simp add: admissible_def)
  ultimately show ?thesis using assms(1)
    by (auto simp: switch_core_codec_add_implementation_def SWITCH_RECOMMENDED_BUFFER_SIZE_def all_good_def implementations_def split: list.split)
qed

lemma add_multiples_good: "all_good m \<Longrightarrow> (\<And>k. consistent (f k)) \<Longrightarrow> all_good (add_multiples f n m)"
  by (induction n arbitrary: m) (simp_all add: add_implementation_good)

lemma add_series_good:
  assumes "all_good m" "bps = 16 * rate" "1000000 * samples = rate * us" "1000000 * ds = rate * dus"
  shows "all_good (add_series n rate bps (samples, 2 * samples, us) (ds, 2 * ds, dus) m)"
  using assms
proof (induction n arbitrary: m samples us)
  case (Suc n)
  have "all_good (switch_core_codec_add_implementation (codec SWITCH_CODEC_TYPE_AUDIO 70 ''L16'' rate bps us samples (2 * samples) (2 * samples) 1 Raw_codec) m)"
    by (rule add_implementation_good) (use Suc.prems in \<open>simp_all add: consistent_def codec_def\<close>)
  moreover have "1000000 * (samples + ds) = rate * (us + dus)" using Suc.prems by (simp add: distrib_left)
  ultimately have "all_good (add_series n rate bps (samples + ds, 2 * (samples + ds), us + dus) (ds, 2 * ds, dus)
      (switch_core_codec_add_implementation (codec SWITCH_CODEC_TYPE_AUDIO 70 ''L16'' rate bps us samples (2 * samples) (2 * samples) 1 Raw_codec) m))"
    using Suc.IH Suc.prems by blast
  then show ?case by (simp add: distrib_left)
qed simp

lemma add_rates_good:
  assumes "all_good m" "rate = 100 * spf"
  shows "all_good (add_rates n rate (16 * rate) spf (2 * spf) (2 * spf) m)"
  using assms
proof (induction n arbitrary: m rate spf)
  case (Suc n)
  have "all_good (add_multiples (\<lambda>c. codec SWITCH_CODEC_TYPE_AUDIO 70 ''L16'' rate (16 * rate) (10000 * c) (spf * c) (2 * spf * c) (2 * spf * c) (spf * c) Raw_codec)
      (if rate = 8000 then 12 else 6) m)"
    by (rule add_multiples_good) (use Suc.prems in \<open>simp_all add: consistent_def codec_def\<close>)
  then have "all_good (add_rates n (rate * 2) (16 * (rate * 2)) (spf * 2) (2 * (spf * 2)) (2 * (spf * 2)) 
      (add_multiples (\<lambda>c. codec SWITCH_CODEC_TYPE_AUDIO 70 ''L16'' rate (16 * rate) (10000 * c) (spf * c) (2 * spf * c) (2 * spf * c) (spf * c) Raw_codec)
      (if rate = 8000 then 12 else 6) m))"
    using Suc.prems(2) by (intro Suc.IH) simp_all
  then show ?case by (simp add: mult.assoc)
qed simp

lemma mod_g711_good: "all_good m \<Longrightarrow> all_good (mod_g711_load m)"
  unfolding mod_g711_load_def Let_def by (intro add_multiples_good add_codec_good) (simp_all add: consistent_def codec_def pcm_packet_def)


lemma core_pcm_good:
  assumes "all_good m"
  shows "all_good (core_pcm_load m)"
proof -
  have video: "all_good (switch_core_codec_add_implementation (codec SWITCH_CODEC_TYPE_VIDEO 31 ''PROXY-VID'' 90000 0 0 0 0 0 1 Proxy_codec) (SWITCH_ADD_CODEC n1 m))" for n1
    by (intro add_implementation_good add_codec_good assms) (simp add: consistent_def codec_def)
  have proxy: "all_good (switch_core_codec_add_implementation (codec SWITCH_CODEC_TYPE_AUDIO 0 ''PROXY'' 8000 0 20000 160 320 320 1 Proxy_codec) (SWITCH_ADD_CODEC n2 m'))" if "all_good m'" for n2 m'
    by (intro add_implementation_good add_codec_good that) (simp add: consistent_def codec_def)
  have raw: "all_good (switch_core_codec_add_implementation (codec SWITCH_CODEC_TYPE_AUDIO 70 ''L16'' rate (16 * rate) us n (2 * n) (2 * n) 1 Raw_codec) m')"
    if "all_good m'" "1000000 * n = rate * us \<or> rate = 11025 \<and> us = 32000" for rate us n m'
    by (rule add_implementation_good [OF that(1)]) (use that(2) in \<open>simp add: consistent_def codec_def\<close>)
  have rates: "all_good (add_rates 3 8000 128000 80 160 160 m')" if "all_good m'" for m'
    using add_rates_good [OF that, of 8000 80 3] by simp
  have series: "all_good (add_series n rate (16 * rate) (a, 2 * a, us) (d, 2 * d, dus) m')"
    if "all_good m'" "1000000 * a = rate * us" "1000000 * d = rate * dus" for n rate a us d dus m'
    using add_series_good [OF that(1) refl that(2,3)] .
  note s = series [of _ 240 12000 20000 240 20000 5, simplified] series [of _ 480 24000 20000 480 20000 3, simplified]
    series [of _ 96 48000 2000 96 2000 5, simplified] series [of _ 16 8000 2000 16 2000 4, simplified]
    series [of _ 32 16000 2000 32 2000 4, simplified] series [of _ 64 32000 2000 64 2000 4, simplified]
    series [of _ 960 48000 20000 480 10000 3, simplified]
  have r: "all_good (switch_core_codec_add_implementation (codec SWITCH_CODEC_TYPE_AUDIO 70 ''L16'' 22050 352800 20000 441 882 882 1 Raw_codec) m')"
    "all_good (switch_core_codec_add_implementation (codec SWITCH_CODEC_TYPE_AUDIO 70 ''L16'' 11025 176400 40000 441 882 882 1 Raw_codec) m')"
    "all_good (switch_core_codec_add_implementation (codec SWITCH_CODEC_TYPE_AUDIO 70 ''L16'' 11025 176400 32000 256 512 512 1 Raw_codec) m')"
    if "all_good m'" for m'
    using raw [OF that, of 441 22050 20000] raw [OF that, of 441 11025 40000] raw [OF that, of 256 11025 32000] by simp_all
  show ?thesis unfolding core_pcm_load_def Let_def
    by (intro mod_g711_good r s rates add_codec_good proxy video)
qed

text \<open>A loop over packet lengths registers every length that is admissible.\<close>

definition registered :: "codec_implementation \<Rightarrow> codec_module \<Rightarrow> bool" where
  "registered c m \<longleftrightarrow> (\<exists>i j. c\<lparr>ci_codec_id := i, ci_impl_id := j\<rparr> \<in> set (implementations m))"

lemma implementations_kept: "set (implementations m) \<subseteq> set (implementations (switch_core_codec_add_implementation d m))"
  by (auto simp: switch_core_codec_add_implementation_def implementations_def split: list.split)

lemma registered_kept: "registered c m \<Longrightarrow> registered c (switch_core_codec_add_implementation d m)"
  using implementations_kept unfolding registered_def by blast

lemma interfaces_kept: "cm_interfaces m \<noteq> [] \<Longrightarrow> cm_interfaces (switch_core_codec_add_implementation d m) \<noteq> []"
  by (simp add: switch_core_codec_add_implementation_def split: list.split)

lemma registered_new:
  assumes "admissible c" "cm_interfaces m \<noteq> []"
  shows "registered c (switch_core_codec_add_implementation c m)"
proof -
  obtain i "is" where "cm_interfaces m = i # is" using assms(2) by (cases "cm_interfaces m") auto
  then have "c\<lparr>ci_codec_id := if_codec_id i, ci_impl_id := cm_next_id m\<rparr> \<in> set (implementations (switch_core_codec_add_implementation c m))"
    using assms(1) by (simp add: switch_core_codec_add_implementation_def SWITCH_RECOMMENDED_BUFFER_SIZE_def admissible_def implementations_def)
  then show ?thesis unfolding registered_def by blast
qed

lemma multiples_kept: "registered c m \<Longrightarrow> registered c (add_multiples f n m)"
  by (induction n arbitrary: m) (simp_all add: registered_kept)

lemma multiples_registered:
  "1 \<le> k \<Longrightarrow> k \<le> n \<Longrightarrow> admissible (f k) \<Longrightarrow> cm_interfaces m \<noteq> [] \<Longrightarrow> registered (f k) (add_multiples f n m)"
proof (induction n arbitrary: m)
  case (Suc n)
  then show ?case by (cases "k = Suc n") (simp_all add: multiples_kept registered_new interfaces_kept)
qed simp

lemma codec_kept: "registered c m \<Longrightarrow> registered c (SWITCH_ADD_CODEC name m)"
  by (simp add: registered_def implementations_def SWITCH_ADD_CODEC_def)

lemma pcm_packet_admissible:
  assumes "1 \<le> k" "k \<le> 12"
  shows "admissible (pcm_packet code name fns k)"
proof -
  have "10000 * k div 1000 = 10 * k" by simp
  then show ?thesis using assms
    by (simp add: admissible_def pcm_packet_def codec_def switch_check_interval_def SWITCH_RECOMMENDED_BUFFER_SIZE_def Let_def)
qed

lemma g711_registered:
  assumes "1 \<le> k" "k \<le> 12"
  shows "registered (pcm_packet 0 ''PCMU'' G711u_codec k) (mod_g711_load m)" "registered (pcm_packet 8 ''PCMA'' G711a_codec k) (mod_g711_load m)"
proof -
  have i: "cm_interfaces (SWITCH_ADD_CODEC name m') \<noteq> []" for name m' by (simp add: SWITCH_ADD_CODEC_def)
  show "registered (pcm_packet 0 ''PCMU'' G711u_codec k) (mod_g711_load m)" unfolding mod_g711_load_def Let_def
    by (intro multiples_kept codec_kept multiples_registered assms pcm_packet_admissible i)
  show "registered (pcm_packet 8 ''PCMA'' G711a_codec k) (mod_g711_load m)" unfolding mod_g711_load_def Let_def
    by (intro multiples_registered assms pcm_packet_admissible i)
qed

text \<open>what the PCM module registers is consistent and fits the recommended buffer: frame sizes, bit rate and
  duration agree with each other, but for the entry of 32 milliseconds at 11025 Hz, and PCMU and PCMA are there
  for every multiple of ten milliseconds up to 120.\<close>

theorem core_pcm_registers:
  assumes "all_good m"
  shows "all_good (core_pcm_load m) \<and> (\<forall>k\<in>{1..12}. registered (pcm_packet 0 ''PCMU'' G711u_codec k) (core_pcm_load m) \<and>
     registered (pcm_packet 8 ''PCMA'' G711a_codec k) (core_pcm_load m))"
  using core_pcm_good [OF assms] g711_registered unfolding core_pcm_load_def Let_def by simp

theorem core_pcm_registers_witness:
  "all_good (core_pcm_load \<lparr>cm_interfaces = [], cm_next_id = 1\<rparr>) \<and>
   registered (pcm_packet 0 ''PCMU'' G711u_codec 2) (core_pcm_load \<lparr>cm_interfaces = [], cm_next_id = 1\<rparr>)"
  using core_pcm_registers [of "\<lparr>cm_interfaces = [], cm_next_id = 1\<rparr>"] by (simp add: all_good_def implementations_def)

end
