(* ===== verification/Ctype.thy ===== *)
theory Ctype
  imports C_String
begin

unbundle bit_operations_syntax

text \<open>
  The locale-independent character tables of src/switch\_utils.c: the case mappings
  \<open>old_switch_toupper\<close> and \<open>old_switch_tolower\<close>, and the eleven classifications over
  \<open>_switch_C_ctype_\<close>. The tables are transcribed entry by entry, index 0 being the entry of
  \<open>EOF\<close>. The lemmas give each function as a union of character ranges, for every \<open>int\<close>, and relate
  the old case mappings to the branch-free ones that replaced them.
\<close>

section \<open>Case\<close>

definition switch_C_toupper :: "int list" where
  "switch_C_toupper =
    [-1,
     0x00, 0x01, 0x02, 0x03, 0x04, 0x05, 0x06, 0x07,
     0x08, 0x09, 0x0a, 0x0b, 0x0c, 0x0d, 0x0e, 0x0f,
     0x10, 0x11, 0x12, 0x13, 0x14, 0x15, 0x16, 0x17,
     0x18, 0x19, 0x1a, 0x1b, 0x1c, 0x1d, 0x1e, 0x1f,
     0x20, 0x21, 0x22, 0x23, 0x24, 0x25, 0x26, 0x27,
     0x28, 0x29, 0x2a, 0x2b, 0x2c, 0x2d, 0x2e, 0x2f,
     0x30, 0x31, 0x32, 0x33, 0x34, 0x35, 0x36, 0x37,
     0x38, 0x39, 0x3a, 0x3b, 0x3c, 0x3d, 0x3e, 0x3f,
     0x40, 0x41, 0x42, 0x43, 0x44, 0x45, 0x46, 0x47,
     0x48, 0x49, 0x4a, 0x4b, 0x4c, 0x4d, 0x4e, 0x4f,
     0x50, 0x51, 0x52, 0x53, 0x54, 0x55, 0x56, 0x57,
     0x58, 0x59, 0x5a, 0x5b, 0x5c, 0x5d, 0x5e, 0x5f,
     0x60, 0x41, 0x42, 0x43, 0x44, 0x45, 0x46, 0x47,
     0x48, 0x49, 0x4a, 0x4b, 0x4c, 0x4d, 0x4e, 0x4f,
     0x50, 0x51, 0x52, 0x53, 0x54, 0x55, 0x56, 0x57,
     0x58, 0x59, 0x5a, 0x7b, 0x7c, 0x7d, 0x7e, 0x7f,
     0x80, 0x81, 0x82, 0x83, 0x84, 0x85, 0x86, 0x87,
     0x88, 0x89, 0x8a, 0x8b, 0x8c, 0x8d, 0x8e, 0x8f,
     0x90, 0x91, 0x92, 0x93, 0x94, 0x95, 0x96, 0x97,
     0x98, 0x99, 0x9a, 0x9b, 0x9c, 0x9d, 0x9e, 0x9f,
     0xa0, 0xa1, 0xa2, 0xa3, 0xa4, 0xa5, 0xa6, 0xa7,
     0xa8, 0xa9, 0xaa, 0xab, 0xac, 0xad, 0xae, 0xaf,
     0xb0, 0xb1, 0xb2, 0xb3, 0xb4, 0xb5, 0xb6, 0xb7,
     0xb8, 0xb9, 0xba, 0xbb, 0xbc, 0xbd, 0xbe, 0xbf,
     0xc0, 0xc1, 0xc2, 0xc3, 0xc4, 0xc5, 0xc6, 0xc7,
     0xc8, 0xc9, 0xca, 0xcb, 0xcc, 0xcd, 0xce, 0xcf,
     0xd0, 0xd1, 0xd2, 0xd3, 0xd4, 0xd5, 0xd6, 0xd7,
     0xd8, 0xd9, 0xda, 0xdb, 0xdc, 0xdd, 0xde, 0xdf,
     0xe0, 0xe1, 0xe2, 0xe3, 0xe4, 0xe5, 0xe6, 0xe7,
     0xe8, 0xe9, 0xea, 0xeb, 0xec, 0xed, 0xee, 0xef,
     0xf0, 0xf1, 0xf2, 0xf3, 0xf4, 0xf5, 0xf6, 0xf7,
     0xf8, 0xf9, 0xfa, 0xfb, 0xfc, 0xfd, 0xfe, 0xff]"

text \<open>A conversion to \<open>unsigned int\<close> makes every number outside 0 to 255 large.\<close>

definition old_switch_toupper :: "int \<Rightarrow> int" where
  "old_switch_toupper c =
     (if c mod 2 ^ 32 > 255 then c else if c < -1 then -1 else switch_C_toupper ! nat (1 + c))"

definition switch_C_tolower :: "int list" where
  "switch_C_tolower =
    [-1,
     0x00, 0x01, 0x02, 0x03, 0x04, 0x05, 0x06, 0x07,
     0x08, 0x09, 0x0a, 0x0b, 0x0c, 0x0d, 0x0e, 0x0f,
     0x10, 0x11, 0x12, 0x13, 0x14, 0x15, 0x16, 0x17,
     0x18, 0x19, 0x1a, 0x1b, 0x1c, 0x1d, 0x1e, 0x1f,
     0x20, 0x21, 0x22, 0x23, 0x24, 0x25, 0x26, 0x27,
     0x28, 0x29, 0x2a, 0x2b, 0x2c, 0x2d, 0x2e, 0x2f,
     0x30, 0x31, 0x32, 0x33, 0x34, 0x35, 0x36, 0x37,
     0x38, 0x39, 0x3a, 0x3b, 0x3c, 0x3d, 0x3e, 0x3f,
     0x40, 0x61, 0x62, 0x63, 0x64, 0x65, 0x66, 0x67,
     0x68, 0x69, 0x6a, 0x6b, 0x6c, 0x6d, 0x6e, 0x6f,
     0x70, 0x71, 0x72, 0x73, 0x74, 0x75, 0x76, 0x77,
     0x78, 0x79, 0x7a, 0x5b, 0x5c, 0x5d, 0x5e, 0x5f,
     0x60, 0x61, 0x62, 0x63, 0x64, 0x65, 0x66, 0x67,
     0x68, 0x69, 0x6a, 0x6b, 0x6c, 0x6d, 0x6e, 0x6f,
     0x70, 0x71, 0x72, 0x73, 0x74, 0x75, 0x76, 0x77,
     0x78, 0x79, 0x7a, 0x7b, 0x7c, 0x7d, 0x7e, 0x7f,
     0x80, 0x81, 0x82, 0x83, 0x84, 0x85, 0x86, 0x87,
     0x88, 0x89, 0x8a, 0x8b, 0x8c, 0x8d, 0x8e, 0x8f,
     0x90, 0x91, 0x92, 0x93, 0x94, 0x95, 0x96, 0x97,
     0x98, 0x99, 0x9a, 0x9b, 0x9c, 0x9d, 0x9e, 0x9f,
     0xa0, 0xa1, 0xa2, 0xa3, 0xa4, 0xa5, 0xa6, 0xa7,
     0xa8, 0xa9, 0xaa, 0xab, 0xac, 0xad, 0xae, 0xaf,
     0xb0, 0xb1, 0xb2, 0xb3, 0xb4, 0xb5, 0xb6, 0xb7,
     0xb8, 0xb9, 0xba, 0xbb, 0xbc, 0xbd, 0xbe, 0xbf,
     0xc0, 0xc1, 0xc2, 0xc3, 0xc4, 0xc5, 0xc6, 0xc7,
     0xc8, 0xc9, 0xca, 0xcb, 0xcc, 0xcd, 0xce, 0xcf,
     0xd0, 0xd1, 0xd2, 0xd3, 0xd4, 0xd5, 0xd6, 0xd7,
     0xd8, 0xd9, 0xda, 0xdb, 0xdc, 0xdd, 0xde, 0xdf,
     0xe0, 0xe1, 0xe2, 0xe3, 0xe4, 0xe5, 0xe6, 0xe7,
     0xe8, 0xe9, 0xea, 0xeb, 0xec, 0xed, 0xee, 0xef,
     0xf0, 0xf1, 0xf2, 0xf3, 0xf4, 0xf5, 0xf6, 0xf7,
     0xf8, 0xf9, 0xfa, 0xfb, 0xfc, 0xfd, 0xfe, 0xff]"

definition old_switch_tolower :: "int \<Rightarrow> int" where
  "old_switch_tolower c =
     (if c mod 2 ^ 32 > 255 then c else if c < -1 then -1 else switch_C_tolower ! nat (1 + c))"

section \<open>Classes\<close>

definition CT_U :: int where "CT_U = 0x01"
definition CT_L :: int where "CT_L = 0x02"
definition CT_N :: int where "CT_N = 0x04"
definition CT_S :: int where "CT_S = 0x08"
definition CT_P :: int where "CT_P = 0x10"
definition CT_C :: int where "CT_C = 0x20"
definition CT_X :: int where "CT_X = 0x40"
definition CT_B :: int where "CT_B = 0x80"

lemmas ctype_flags = CT_U_def CT_L_def CT_N_def CT_S_def CT_P_def CT_C_def CT_X_def CT_B_def

definition switch_C_ctype :: "int list" where
  "switch_C_ctype =
    [0,
     CT_C, CT_C, CT_C, CT_C, CT_C, CT_C, CT_C, CT_C,
     CT_C, CT_C OR CT_S, CT_C OR CT_S, CT_C OR CT_S, CT_C OR CT_S, CT_C OR CT_S, CT_C, CT_C,
     CT_C, CT_C, CT_C, CT_C, CT_C, CT_C, CT_C, CT_C,
     CT_C, CT_C, CT_C, CT_C, CT_C, CT_C, CT_C, CT_C,
     CT_S OR CT_B, CT_P, CT_P, CT_P, CT_P, CT_P, CT_P, CT_P,
     CT_P, CT_P, CT_P, CT_P, CT_P, CT_P, CT_P, CT_P,
     CT_N, CT_N, CT_N, CT_N, CT_N, CT_N, CT_N, CT_N,
     CT_N, CT_N, CT_P, CT_P, CT_P, CT_P, CT_P, CT_P,
     CT_P, CT_U OR CT_X, CT_U OR CT_X, CT_U OR CT_X, CT_U OR CT_X, CT_U OR CT_X, CT_U OR CT_X, CT_U,
     CT_U, CT_U, CT_U, CT_U, CT_U, CT_U, CT_U, CT_U,
     CT_U, CT_U, CT_U, CT_U, CT_U, CT_U, CT_U, CT_U,
     CT_U, CT_U, CT_U, CT_P, CT_P, CT_P, CT_P, CT_P,
     CT_P, CT_L OR CT_X, CT_L OR CT_X, CT_L OR CT_X, CT_L OR CT_X, CT_L OR CT_X, CT_L OR CT_X, CT_L,
     CT_L, CT_L, CT_L, CT_L, CT_L, CT_L, CT_L, CT_L,
     CT_L, CT_L, CT_L, CT_L, CT_L, CT_L, CT_L, CT_L,
     CT_L, CT_L, CT_L, CT_P, CT_P, CT_P, CT_P, CT_C,
     CT_C, CT_C, CT_C, CT_C, CT_C, CT_C, CT_C, CT_C,
     CT_C, CT_C, CT_C, CT_C, CT_C, CT_C, CT_C, CT_C,
     CT_C, CT_C, CT_C, CT_C, CT_C, CT_C, CT_C, CT_C,
     CT_C, CT_C, CT_C, CT_C, CT_C, CT_C, CT_C, CT_C,
     CT_P, CT_P, CT_P, CT_P, CT_P, CT_P, CT_P, CT_P,
     CT_P, CT_P, CT_P, CT_P, CT_P, CT_P, CT_P, CT_P,
     CT_P, CT_P, CT_P, CT_P, CT_P, CT_P, CT_P, CT_P,
     CT_P, CT_P, CT_P, CT_P, CT_P, CT_P, CT_P, CT_P,
     CT_P, CT_P, CT_P, CT_P, CT_P, CT_P, CT_P, CT_P,
     CT_P, CT_P, CT_P, CT_P, CT_P, CT_P, CT_P, CT_P,
     CT_P, CT_P, CT_P, CT_P, CT_P, CT_P, CT_P, CT_P,
     CT_P, CT_P, CT_P, CT_P, CT_P, CT_P, CT_P, CT_P,
     CT_P, CT_P, CT_P, CT_P, CT_P, CT_P, CT_P, CT_P,
     CT_P, CT_P, CT_P, CT_P, CT_P, CT_P, CT_P, CT_P,
     CT_P, CT_P, CT_P, CT_P, CT_P, CT_P, CT_P, CT_P,
     CT_P, CT_P, CT_P, CT_P, CT_P, CT_P, CT_P, CT_P]"

definition switch_isalnum :: "int \<Rightarrow> int" where
  "switch_isalnum c = (if c < 0 then 0 else if c > 255 then 0 else switch_C_ctype ! nat (1 + c) AND (CT_U OR CT_L OR CT_N))"

definition switch_isalpha :: "int \<Rightarrow> int" where
  "switch_isalpha c = (if c < 0 then 0 else if c > 255 then 0 else switch_C_ctype ! nat (1 + c) AND (CT_U OR CT_L))"

definition switch_iscntrl :: "int \<Rightarrow> int" where
  "switch_iscntrl c = (if c < 0 then 0 else if c > 255 then 0 else switch_C_ctype ! nat (1 + c) AND (CT_C))"

definition switch_isdigit :: "int \<Rightarrow> int" where
  "switch_isdigit c = (if c < 0 then 0 else if c > 255 then 0 else switch_C_ctype ! nat (1 + c) AND (CT_N))"

definition switch_isgraph :: "int \<Rightarrow> int" where
  "switch_isgraph c = (if c < 0 then 0 else if c > 255 then 0 else switch_C_ctype ! nat (1 + c) AND (CT_P OR CT_U OR CT_L OR CT_N))"

definition switch_islower :: "int \<Rightarrow> int" where
  "switch_islower c = (if c < 0 then 0 else if c > 255 then 0 else switch_C_ctype ! nat (1 + c) AND (CT_L))"

definition switch_isprint :: "int \<Rightarrow> int" where
  "switch_isprint c = (if c < 0 then 0 else if c > 255 then 0 else switch_C_ctype ! nat (1 + c) AND (CT_P OR CT_U OR CT_L OR CT_N OR CT_B))"

definition switch_ispunct :: "int \<Rightarrow> int" where
  "switch_ispunct c = (if c < 0 then 0 else if c > 255 then 0 else switch_C_ctype ! nat (1 + c) AND (CT_P))"

definition switch_isspace :: "int \<Rightarrow> int" where
  "switch_isspace c = (if c < 0 then 0 else if c > 255 then 0 else switch_C_ctype ! nat (1 + c) AND (CT_S))"

definition switch_isupper :: "int \<Rightarrow> int" where
  "switch_isupper c = (if c < 0 then 0 else if c > 255 then 0 else switch_C_ctype ! nat (1 + c) AND (CT_U))"

definition switch_isxdigit :: "int \<Rightarrow> int" where
  "switch_isxdigit c = (if c < 0 then 0 else if c > 255 then 0 else switch_C_ctype ! nat (1 + c) AND (CT_N OR CT_X))"

lemmas ctype_functions = switch_isalnum_def switch_isalpha_def switch_iscntrl_def switch_isdigit_def switch_isgraph_def switch_islower_def switch_isprint_def switch_ispunct_def switch_isspace_def switch_isupper_def switch_isxdigit_def

section \<open>What the tables say\<close>

text \<open>The class table as ranges of character codes.\<close>

definition class_flags :: "nat \<Rightarrow> int" where
  "class_flags n =
     (if n < 9 then CT_C else if n < 14 then CT_C OR CT_S else if n < 32 then CT_C else if n = 32 then CT_S OR CT_B
      else if n < 48 then CT_P else if n < 58 then CT_N else if n < 65 then CT_P
      else if n < 71 then CT_U OR CT_X else if n < 91 then CT_U else if n < 97 then CT_P
      else if n < 103 then CT_L OR CT_X else if n < 123 then CT_L else if n < 127 then CT_P
      else if n < 160 then CT_C else CT_P)"

lemma ctype_ranges: "switch_C_ctype = 0 # map class_flags [0..<256]"
  unfolding switch_C_ctype_def class_flags_def by (simp add: upt_rec)

lemma class_lookup:
  "(if c < 0 then 0 else if c > 255 then 0 else switch_C_ctype ! nat (1 + c) AND m) \<noteq> 0 \<longleftrightarrow>
   0 \<le> c \<and> c \<le> 255 \<and> class_flags (nat c) AND m \<noteq> 0"
proof (cases "0 \<le> c \<and> c \<le> 255")
  case True
  then have "nat c < 256" and "nat (1 + c) = Suc (nat c)" by auto
  then have "switch_C_ctype ! nat (1 + c) = class_flags (nat c)" by (simp add: ctype_ranges)
  then show ?thesis using True by simp
qed auto

definition in_ranges :: "(int \<times> int) list \<Rightarrow> int \<Rightarrow> bool" where
  "in_ranges rs c \<longleftrightarrow> list_ex (\<lambda>(a, b). a \<le> c \<and> c \<le> b) rs"

text \<open>for every integer, each of the classification functions is nonzero exactly on its ranges of character codes; the functions agree with ASCII below 128, and above it 128 to 159 are control characters and 160 to 255 punctuation.\<close>

theorem ctype_classes:
  "(switch_isupper c \<noteq> 0 \<longleftrightarrow> in_ranges [(65, 90)] c) \<and>
   (switch_islower c \<noteq> 0 \<longleftrightarrow> in_ranges [(97, 122)] c) \<and>
   (switch_isalpha c \<noteq> 0 \<longleftrightarrow> in_ranges [(65, 90), (97, 122)] c) \<and>
   (switch_isdigit c \<noteq> 0 \<longleftrightarrow> in_ranges [(48, 57)] c) \<and>
   (switch_isalnum c \<noteq> 0 \<longleftrightarrow> in_ranges [(48, 57), (65, 90), (97, 122)] c) \<and>
   (switch_isxdigit c \<noteq> 0 \<longleftrightarrow> in_ranges [(48, 57), (65, 70), (97, 102)] c) \<and>
   (switch_isspace c \<noteq> 0 \<longleftrightarrow> in_ranges [(9, 13), (32, 32)] c) \<and>
   (switch_iscntrl c \<noteq> 0 \<longleftrightarrow> in_ranges [(0, 31), (127, 159)] c) \<and>
   (switch_ispunct c \<noteq> 0 \<longleftrightarrow> in_ranges [(33, 47), (58, 64), (91, 96), (123, 126), (160, 255)] c) \<and>
   (switch_isgraph c \<noteq> 0 \<longleftrightarrow> in_ranges [(33, 126), (160, 255)] c) \<and>
   (switch_isprint c \<noteq> 0 \<longleftrightarrow> in_ranges [(32, 126), (160, 255)] c)"
proof (cases "0 \<le> c")
  case True
  then obtain n where c: "c = int n" by (rule nonneg_int_cases)
  show ?thesis
    unfolding c ctype_functions class_lookup nat_int class_flags_def ctype_flags in_ranges_def
    by (intro conjI; auto split: if_splits)
next
  case False
  then show ?thesis by (simp add: ctype_functions in_ranges_def)
qed

section \<open>The old case mappings\<close>

lemma toupper_ranges: "switch_C_toupper = -1 # map (\<lambda>n. if 97 \<le> n \<and> n \<le> 122 then int n - 32 else int n) [0..<256]"
  unfolding switch_C_toupper_def by (simp add: upt_rec)

lemma tolower_ranges: "switch_C_tolower = -1 # map (\<lambda>n. if 65 \<le> n \<and> n \<le> 90 then int n + 32 else int n) [0..<256]"
  unfolding switch_C_tolower_def by (simp add: upt_rec)

lemma case_index: "0 \<le> c \<Longrightarrow> c \<le> 255 \<Longrightarrow> (x # map f [0..<256]) ! nat (1 + c) = f (nat c)"
proof -
  assume "0 \<le> c" "c \<le> 255"
  then have "nat (1 + c) = Suc (nat c)" "nat c < 256" by auto
  then show ?thesis by simp
qed

text \<open>The argument is an \<open>int\<close>, so the conversion to unsigned is the identity or exceeds 255.\<close>

lemma unsigned_small:
  assumes "- (2 ^ 31) \<le> c" and "c < 2 ^ 31"
  shows "c mod 2 ^ 32 > 255 \<longleftrightarrow> \<not> (0 \<le> (c :: int) \<and> c \<le> 255)"
proof (cases "0 \<le> c")
  case True
  then show ?thesis using assms by (auto simp: not_le)
next
  case False
  have "c mod 2 ^ 32 = (c + 2 ^ 32) mod 2 ^ 32" by simp
  also have "\<dots> = c + 2 ^ 32" using assms False by (intro mod_pos_pos_trivial) simp_all
  finally show ?thesis using assms False by simp
qed

lemma old_toupper_value:
  assumes "- (2 ^ 31) \<le> c" and "c < 2 ^ 31"
  shows "old_switch_toupper c = (if 97 \<le> c \<and> c \<le> 122 then c - 32 else c)"
  using unsigned_small [OF assms] by (auto simp: old_switch_toupper_def toupper_ranges case_index)

lemma old_tolower_value:
  assumes "- (2 ^ 31) \<le> c" and "c < 2 ^ 31"
  shows "old_switch_tolower c = (if 65 \<le> c \<and> c \<le> 90 then c + 32 else c)"
  using unsigned_small [OF assms] by (auto simp: old_switch_tolower_def tolower_ranges case_index)

text \<open>On a single character the branch-free mappings compute what the table look-ups did.\<close>

lemma ucast_ucast_byte: "(ucast (ucast b :: uint32) :: byte) = b"
  by (rule bit_word_eqI) (simp add: bit_simps)

lemma old_case_equiv:
  fixes b :: byte
  shows "uint (ucast (switch_toupper (ucast b)) :: byte) = old_switch_toupper (uint b)"
    and "uint (ucast (switch_tolower (ucast b)) :: byte) = old_switch_tolower (uint b)"
proof -
  have u: "uint b < 256" "0 \<le> uint b" using uint_lt2p [of b] by simp_all
  have r: "- (2 ^ 31) \<le> uint b" by (rule order_trans [OF _ u(2)]) simp
  have t: "uint b < 2 ^ 31" using u(1) by simp
  note v = old_toupper_value [OF r t] old_tolower_value [OF r t]
  from v have "uint (ascii_upper b) = old_switch_toupper (uint b)" "uint (ascii_lower b) = old_switch_tolower (uint b)"
    using u by (auto simp: ascii_upper_def ascii_lower_def word_le_def uint_plus_if' uint_sub_if')
  then show "uint (ucast (switch_toupper (ucast b)) :: byte) = old_switch_toupper (uint b)"
    "uint (ucast (switch_tolower (ucast b)) :: byte) = old_switch_tolower (uint b)"
    by (simp_all add: toupper_low_byte tolower_low_byte ucast_ucast_byte)
qed

end
