(* ===== verification/Sln.thy ===== *)
theory Sln
  imports FS_Prelude "HOL-Library.Log_Nat" "HOL-Library.Signed_Division"
begin

unbundle bit_operations_syntax

text \<open>
  The operations of src/switch\_resample.c on linear 16-bit samples: byte swapping, comfort noise,
  mixing two signals and taking one out again, folding interleaved channels in place, and volume.
  A sample is an \<open>int\<close> within the range of \<open>int16_t\<close>, and a conversion to that type is
  \<open>to_int16\<close>. The lemmas show what mixing loses, that folding in place is the folding of the
  original frames, and that lowering the volume never raises or inverts a sample.
\<close>

section \<open>Samples\<close>

definition SWITCH_SMAX :: int where "SWITCH_SMAX = 32767"
definition SWITCH_SMIN :: int where "SWITCH_SMIN = -32768"

definition switch_normalize_to_16bit :: "int \<Rightarrow> int" where
  "switch_normalize_to_16bit n = (if n > SWITCH_SMAX then SWITCH_SMAX else if n < SWITCH_SMIN then SWITCH_SMIN else n)"

definition to_int16 :: "int \<Rightarrow> int" where
  "to_int16 v = signed_take_bit 15 v"

definition sample_ok :: "int \<Rightarrow> bool" where
  "sample_ok x \<longleftrightarrow> SWITCH_SMIN \<le> x \<and> x \<le> SWITCH_SMAX"

lemmas sample_range = SWITCH_SMAX_def SWITCH_SMIN_def

section \<open>Byte order, noise\<close>

definition swap_sample :: "int \<Rightarrow> int" where
  "swap_sample b = to_int16 ((drop_bit 8 b AND 0x00ff) OR (push_bit 8 b AND 0xff00))"

definition switch_swap_linear :: "int list \<Rightarrow> nat \<Rightarrow> fault + int list" where
  "switch_swap_linear buf len =
     (if len \<le> length buf then Inr (map swap_sample (take len buf) @ drop len buf) else Inl Out_of_bounds)"

text \<open>Six steps of the generator, whose state is a 16-bit number, summed in an \<open>int\<close>.\<close>

definition rnd_step :: "int \<Rightarrow> int" where
  "rnd_step rnd2 = to_int16 ((rnd2 * 31821 + 13849) mod 2 ^ 32)"

primrec noise_sum :: "nat \<Rightarrow> int \<Rightarrow> int \<Rightarrow> int \<times> int" where
  "noise_sum 0 rnd2 sum_rnd = (rnd2, sum_rnd)"
| "noise_sum (Suc x) rnd2 sum_rnd = (let r = rnd_step rnd2 in noise_sum x r (sum_rnd + r))"

primrec noise :: "nat \<Rightarrow> int \<Rightarrow> int \<Rightarrow> int list" where
  "noise 0 rnd2 divisor = []"
| "noise (Suc i) rnd2 divisor =
     (let (r, sum_rnd) = noise_sum 6 rnd2 0 in to_int16 (to_int16 sum_rnd sdiv divisor) # noise i r divisor)"

text \<open>The seed \<open>rnd2\<close> is taken from the clock and the address of the samples; \<open>divisor\<close> is an unsigned number read as an \<open>int\<close>.\<close>

definition switch_generate_sln_silence :: "int \<Rightarrow> int list \<Rightarrow> nat \<Rightarrow> nat \<Rightarrow> fault + int list" where
  "switch_generate_sln_silence seed data samples divisor =
     (if divisor = 0 then Inl Assert_failed
      else if samples > length data then Inl Out_of_bounds
      else if divisor = 2 ^ 32 - 1 then Inr (replicate samples 0 @ drop samples data)
      else Inr (noise samples seed (signed_take_bit 31 (int divisor)) @ drop samples data))"

section \<open>Mixing\<close>

definition merge_sample :: "int \<Rightarrow> int \<Rightarrow> int" where
  "merge_sample a b = to_int16 (switch_normalize_to_16bit (a + b))"

definition unmerge_sample :: "int \<Rightarrow> int \<Rightarrow> int" where
  "unmerge_sample a b = to_int16 (a - b)"

text \<open>The number of rounds: the smaller count as an \<open>int32_t\<close>.\<close>

definition common_samples :: "nat \<Rightarrow> nat \<Rightarrow> int" where
  "common_samples samples other_samples = signed_take_bit 31 (int (if samples > other_samples then other_samples else samples))"

definition mix_with :: "(int \<Rightarrow> int \<Rightarrow> int) \<Rightarrow> int list \<Rightarrow> nat \<Rightarrow> int list \<Rightarrow> nat \<Rightarrow> fault + nat \<times> int list" where
  "mix_with f data samples other_data other_samples =
     (let x = common_samples samples other_samples; n = nat x in
      if n \<le> length data \<and> n \<le> length other_data
      then Inr (nat (x mod 2 ^ 32), map2 f (take n data) (take n other_data) @ drop n data)
      else Inl Out_of_bounds)"

definition switch_merge_sln :: "int list \<Rightarrow> nat \<Rightarrow> int list \<Rightarrow> nat \<Rightarrow> fault + nat \<times> int list" where
  "switch_merge_sln = mix_with merge_sample"

definition switch_unmerge_sln :: "int list \<Rightarrow> nat \<Rightarrow> int list \<Rightarrow> nat \<Rightarrow> fault + nat \<times> int list" where
  "switch_unmerge_sln = mix_with unmerge_sample"

text \<open>Folding interleaved channels: the sums are written over the samples they are read from.\<close>

primrec mux_frame :: "nat \<Rightarrow> nat \<Rightarrow> nat list \<Rightarrow> int \<Rightarrow> int list \<Rightarrow> fault + int list" where
  "mux_frame i channels [] z data = Inr data"
| "mux_frame i channels (j # js) z data =
     (if i * channels + j < length data \<and> i < length data then
        let z = switch_normalize_to_16bit (z + data ! (i * channels + j))
        in mux_frame i channels js z (data[i := to_int16 z])
      else Inl Out_of_bounds)"

primrec mux_loop :: "nat list \<Rightarrow> nat \<Rightarrow> int list \<Rightarrow> fault + int list" where
  "mux_loop [] channels data = Inr data"
| "mux_loop (i # is) channels data = fbind (mux_frame i channels [0..<channels] 0 data) (mux_loop is channels)"

definition switch_mux_channels :: "int list \<Rightarrow> nat \<Rightarrow> nat \<Rightarrow> fault + int list" where
  "switch_mux_channels data samples channels = mux_loop [0..<samples] channels data"

section \<open>Volume\<close>

text \<open>
  A \<open>double\<close> constant is \<open>m / 2 ^ k\<close> with a 53-bit \<open>m\<close>, and the product with a sample is the exact
  product rounded to 53 bits, ties to even, as IEEE 754 has it; the exponents stay far from overflow
  and underflow. The conversion to \<open>int32_t\<close> truncates.
\<close>

type_synonym dbl = "nat \<times> nat"

definition round_even :: "nat \<Rightarrow> nat \<Rightarrow> nat" where
  "round_even n s =
     (let q = n div 2 ^ s; r = n mod 2 ^ s in
      if 2 * r > 2 ^ s \<or> (2 * r = 2 ^ s \<and> odd q) then q + 1 else q)"

definition round53 :: "nat \<Rightarrow> nat" where
  "round53 n = (let s = nat (bitlen (int n) - 53) in round_even n s * 2 ^ s)"

definition scale_sample :: "dbl \<Rightarrow> int \<Rightarrow> int" where
  "scale_sample r x = sgn x * int (round53 (nat \<bar>x\<bar> * fst r) div 2 ^ snd r)"

definition granular_pos :: "dbl list" where
  "granular_pos = [(5, 2), (3, 1), (7, 2), (2, 0), (9, 2), (5, 1), (11, 2), (3, 0), (13, 2), (7, 1), (15, 2), (4, 0), (9, 1)]"

definition granular_neg :: "dbl list" where
  "granular_neg =
     [(4129800858298745, 52), (7512004178453987, 53), (6764406640310485, 53), (6016809102166983, 53),
      (658651445502935, 50), (2260807012939989, 52), (7548032975472951, 54), (6052837899185947, 54),
      (2278821411449471, 53), (3134505340649865, 55), (1224979098644775, 56), (1152921504606847, 58), (0, 0)]"

definition volume_pos :: "dbl list" where
  "volume_pos = [(5854679515581645, 52), (2589569785738035, 50), (3715469692580659, 50), (4841369599423283, 50)]"

definition volume_neg :: "dbl list" where
  "volume_neg = [(3602879701896397, 52), (5404319552844595, 53), (3602879701896397, 53), (3602879701896397, 54)]"

lemmas charts = granular_pos_def granular_neg_def volume_pos_def volume_neg_def

definition scale_all :: "dbl \<Rightarrow> nat \<Rightarrow> int list \<Rightarrow> fault + int list" where
  "scale_all r samples data =
     (if samples \<le> length data
      then Inr (map (\<lambda>x. to_int16 (switch_normalize_to_16bit (scale_sample r x))) (take samples data) @ drop samples data)
      else Inl Out_of_bounds)"

definition switch_normalize_volume_granular :: "int \<Rightarrow> int" where
  "switch_normalize_volume_granular x = (let x = (if x > 13 then 13 else x) in if x < -13 then -13 else x)"

definition switch_change_sln_volume_granular :: "int list \<Rightarrow> nat \<Rightarrow> int \<Rightarrow> fault + int list" where
  "switch_change_sln_volume_granular data samples vol =
     (if vol = 0 then Inr data
      else
        let vol = switch_normalize_volume_granular vol;
            chart = (if vol > 0 then granular_pos else granular_neg);
            i = nat (\<bar>vol\<bar> - 1)
        in if \<not> i < 13 then Inl Assert_failed
           else if fst (chart ! i) \<noteq> 0 then scale_all (chart ! i) samples data
           else if samples \<le> length data then Inr (replicate samples 0 @ drop samples data)
           else Inl Out_of_bounds)"

definition switch_normalize_volume :: "int \<Rightarrow> int" where
  "switch_normalize_volume x = (let x = (if x > 4 then 4 else x) in if x < -4 then -4 else x)"

definition switch_change_sln_volume :: "int list \<Rightarrow> nat \<Rightarrow> int \<Rightarrow> fault + int list" where
  "switch_change_sln_volume data samples vol =
     (if vol = 0 then Inr data
      else
        let vol = switch_normalize_volume vol;
            chart = (if vol > 0 then volume_pos else volume_neg);
            i = nat (\<bar>vol\<bar> - 1)
        in if \<not> i < 4 then Inl Assert_failed
           else if fst (chart ! i) \<noteq> 0 then scale_all (chart ! i) samples data
           else Inr data)"

text \<open>Each constant is the \<open>double\<close> next to its decimal literal, here in thousandths.\<close>

definition nearest :: "dbl \<Rightarrow> nat \<Rightarrow> bool" where
  "nearest r thousandths \<longleftrightarrow> 2 * \<bar>int (fst r * 1000) - int (thousandths * 2 ^ snd r)\<bar> \<le> 1000"

lemma charts_nearest:
  "list_all2 nearest granular_pos [1250, 1500, 1750, 2000, 2250, 2500, 2750, 3000, 3250, 3500, 3750, 4000, 4500]"
  "list_all2 nearest granular_neg [917, 834, 751, 668, 585, 502, 419, 336, 253, 87, 17, 4, 0]"
  "list_all2 nearest volume_pos [1300, 2300, 3300, 4300]"
  "list_all2 nearest volume_neg [800, 600, 400, 200]"
  by (simp_all add: charts nearest_def)

section \<open>Sample arithmetic\<close>

lemma to_int16_id [simp]: "sample_ok x \<Longrightarrow> to_int16 x = x"
  unfolding to_int16_def by (rule signed_take_bit_int_eq_self) (simp_all add: sample_ok_def sample_range)

lemma to_int16_ok [simp]: "sample_ok (to_int16 x)"
  using signed_take_bit_int_greater_eq_minus_exp [of 15 x] signed_take_bit_int_less_exp [of 15 x]
  by (simp add: to_int16_def sample_ok_def sample_range)

lemma normalize_ok [simp]: "sample_ok (switch_normalize_to_16bit x)"
  by (simp add: switch_normalize_to_16bit_def sample_ok_def sample_range)

lemma normalize_id [simp]: "sample_ok x \<Longrightarrow> switch_normalize_to_16bit x = x"
  by (simp add: switch_normalize_to_16bit_def sample_ok_def)

lemma to_int16_cong: "to_int16 (to_int16 a - b) = to_int16 (a - b)"
proof -
  have "take_bit 16 (signed_take_bit 15 a - b) = take_bit 16 (take_bit 16 (signed_take_bit 15 a) - take_bit 16 b)"
    by (rule take_bit_diff [symmetric])
  also have "\<dots> = take_bit 16 (take_bit 16 a - take_bit 16 b)" by (simp add: take_bit_signed_take_bit)
  also have "\<dots> = take_bit 16 (a - b)" by (rule take_bit_diff)
  finally show ?thesis by (simp add: to_int16_def signed_take_bit_eq_iff_take_bit_eq)
qed

lemma byte_masks: "(255 :: int) = mask 8" "(65280 :: int) = push_bit 8 (mask 8)"
  by (simp_all add: mask_eq_exp_minus_1 push_bit_eq_mult)

lemma bit_swap: "n < 16 \<Longrightarrow> bit (swap_sample b) n \<longleftrightarrow> bit b (if n < 8 then n + 8 else n - 8)"
proof -
  assume n: "n < 16"
  then have m: "min 15 n = n" by simp
  show ?thesis using n unfolding swap_sample_def to_int16_def byte_masks bit_signed_take_bit_iff m
    by (auto simp: bit_simps add.commute)
qed

lemma sample_eqI:
  assumes "sample_ok x" and "sample_ok y" and "\<And>n. n < 16 \<Longrightarrow> bit x n = bit y n"
  shows "x = y"
proof -
  have "to_int16 x = to_int16 y"
    unfolding to_int16_def by (rule bit_eqI) (simp add: bit_simps assms(3))
  then show ?thesis using assms(1,2) by simp
qed

lemma swap_involutive: "sample_ok b \<Longrightarrow> swap_sample (swap_sample b) = b"
  by (rule sample_eqI) (auto simp: bit_swap, simp_all add: swap_sample_def)

section \<open>Mixing and unmixing\<close>

lemma merge_unmerge_sample:
  assumes "sample_ok a" and "sample_ok b" and "sample_ok (a + b)"
  shows "unmerge_sample (merge_sample a b) b = a"
  using assms by (simp add: merge_sample_def unmerge_sample_def)

text \<open>A clipped sum cannot be taken apart again.\<close>

lemma merge_unmerge_clipped:
  assumes "sample_ok a" and "sample_ok b" and "a + b > SWITCH_SMAX"
  shows "unmerge_sample (merge_sample a b) b = SWITCH_SMAX - b \<and> unmerge_sample (merge_sample a b) b \<noteq> a"
proof -
  have n: "switch_normalize_to_16bit (a + b) = SWITCH_SMAX" using assms by (simp add: switch_normalize_to_16bit_def)
  have s: "sample_ok SWITCH_SMAX" "sample_ok (SWITCH_SMAX - b)" using assms by (auto simp: sample_ok_def sample_range)
  then show ?thesis using assms(3) n by (simp add: merge_sample_def unmerge_sample_def)
qed

lemma common_samples_min:
  assumes "m < 2 ^ 31" and "n < 2 ^ 31"
  shows "common_samples m n = int (min m n)"
proof -
  have "(if m > n then n else m) = min m n" by simp
  moreover have "int (min m n) < 2 ^ 31" using assms by simp
  ultimately show ?thesis unfolding common_samples_def by (simp only:) (rule signed_take_bit_int_eq_self; simp)
qed

lemma mix_with_ok:
  assumes "length data < 2 ^ 31" and "length other < 2 ^ 31"
  shows "mix_with f data (length data) other (length other) =
    (let n = min (length data) (length other) in Inr (n, map2 f (take n data) (take n other) @ drop n data))"
  using assms by (simp add: mix_with_def Let_def common_samples_min)

section \<open>Folding channels\<close>

definition fold_frame :: "int list \<Rightarrow> int" where
  "fold_frame xs = foldl (\<lambda>z x. switch_normalize_to_16bit (z + x)) 0 xs"

definition frame :: "nat \<Rightarrow> int list \<Rightarrow> nat \<Rightarrow> int list" where
  "frame channels data i = take channels (drop (i * channels) data)"

lemma foldl_clip_ok: "sample_ok z \<Longrightarrow> sample_ok (foldl (\<lambda>z x. switch_normalize_to_16bit (z + x)) z xs)"
  by (induction xs arbitrary: z) simp_all

lemma mux_frame_rest:
  assumes "i < length data" and "\<forall>j\<in>set js. i * channels + j < length data \<and> i * channels + j \<noteq> i"
    and "sample_ok z" and "data ! i = z"
  shows "mux_frame i channels js z data =
    Inr (data[i := foldl (\<lambda>z x. switch_normalize_to_16bit (z + x)) z (map (\<lambda>j. data ! (i * channels + j)) js)])"
  using assms
proof (induction js arbitrary: z data)
  case Nil
  then show ?case by (auto simp: list_update_id)
next
  case (Cons j js)
  let ?z = "switch_normalize_to_16bit (z + data ! (i * channels + j))"
  have "mux_frame i channels js ?z (data[i := ?z]) =
    Inr ((data[i := ?z])[i := foldl (\<lambda>z x. switch_normalize_to_16bit (z + x)) ?z (map (\<lambda>j. (data[i := ?z]) ! (i * channels + j)) js)])"
    by (rule Cons.IH) (use Cons.prems in auto)
  moreover have "map (\<lambda>j. (data[i := ?z]) ! (i * channels + j)) js = map (\<lambda>j. data ! (i * channels + j)) js"
    using Cons.prems(2) by auto
  ultimately show ?case using Cons.prems by (simp add: Let_def)
qed

lemma frame_nth:
  assumes "(i + 1) * channels \<le> length data"
  shows "frame channels data i = map (\<lambda>j. data ! (i * channels + j)) [0..<channels]"
  using assms by (intro nth_equalityI) (simp_all add: frame_def)

lemma mux_frame_fold:
  assumes "0 < channels" and "(i + 1) * channels \<le> length data" and "list_all sample_ok data"
  shows "mux_frame i channels [0..<channels] 0 data = Inr (data[i := fold_frame (frame channels data i)])"
proof -
  let ?x = "data ! (i * channels)"
  have b: "i * channels + j < length data" if "j < channels" for j using that assms(2) by simp
  have i: "i < length data" using assms(1) b [of 0] by (metis add_0_right le_less_trans mult_le_mono2 nat_mult_1_right Suc_leI One_nat_def)
  have ok: "sample_ok ?x" using assms(3) b [of 0] assms(1) by (simp add: list_all_length)
  have u: "[0..<channels] = 0 # [1..<channels]" using assms(1) by (simp add: upt_rec)
  have ne: "i * channels + j \<noteq> i" if "1 \<le> j" for j
    using that assms(1) by (metis add_le_same_cancel1 le_add1 le_zero_eq mult_le_mono2 nat_mult_1_right not_one_le_zero Suc_leI One_nat_def add_leD1 order_trans le_antisym)
  have m: "map (\<lambda>j. (data[i := ?x]) ! (i * channels + j)) [1..<channels] = map (\<lambda>j. data ! (i * channels + j)) [1..<channels]"
    using ne by (intro map_cong refl nth_list_update_neq) (metis atLeastLessThan_iff set_upt)
  have "mux_frame i channels [0..<channels] 0 data = mux_frame i channels [1..<channels] ?x (data[i := ?x])"
    using b [of 0] i assms(1) ok by (simp add: u Let_def)
  also have "\<dots> = Inr ((data[i := ?x])[i := foldl (\<lambda>z x. switch_normalize_to_16bit (z + x)) ?x (map (\<lambda>j. (data[i := ?x]) ! (i * channels + j)) [1..<channels])])"
    by (rule mux_frame_rest) (use b i ok ne in auto)
  also have "\<dots> = Inr (data[i := fold_frame (frame channels data i)])"
    using ok by (simp only: frame_nth [OF assms(2)] u fold_frame_def m) simp
  finally show ?thesis .
qed

lemma mux_loop_fold:
  assumes "0 < channels" and "samples * channels \<le> length data" and "list_all sample_ok data" and "i \<le> samples"
  shows "mux_loop [i..<samples] channels (map (\<lambda>k. fold_frame (frame channels data k)) [0..<i] @ drop i data) =
    Inr (map (\<lambda>k. fold_frame (frame channels data k)) [0..<samples] @ drop samples data)"
  using assms(4)
proof (induction "samples - i" arbitrary: i)
  case 0
  then show ?case by simp
next
  case (Suc n)
  let ?f = "\<lambda>k. fold_frame (frame channels data k)"
  let ?d = "map ?f [0..<i] @ drop i data"
  have i: "i < samples" using Suc.hyps(2) by simp
  then have c: "(i + 1) * channels \<le> samples * channels" by (intro mult_le_mono1) simp
  have sc: "samples \<le> samples * channels" using assms(1) by simp
  have "i \<le> length data" using i sc assms(2) by linarith
  then have len: "length ?d = length data" by simp
  have ok: "list_all sample_ok ?d"
    using assms(3) by (auto simp: list_all_iff fold_frame_def sample_ok_def [of 0] sample_range dest: in_set_dropD intro!: foldl_clip_ok)
  have fr: "frame channels ?d i = frame channels data i"
  proof -
    have "i \<le> i * channels" using assms(1) by simp
    then show ?thesis by (simp add: frame_def)
  qed
  have "mux_frame i channels [0..<channels] 0 ?d = Inr (?d[i := ?f i])"
    using mux_frame_fold [OF assms(1) _ ok, of i] c assms(2) len fr by simp
  moreover have "?d[i := ?f i] = map ?f [0..<Suc i] @ drop (Suc i) data"
  proof -
    have "i < length data" using i sc assms(2) by linarith
    then have "drop i data = data ! i # drop (Suc i) data" by (simp add: Cons_nth_drop_Suc)
    then show ?thesis by (simp add: list_update_append)
  qed
  ultimately have "mux_loop [i..<samples] channels ?d = mux_loop [Suc i..<samples] channels (map ?f [0..<Suc i] @ drop (Suc i) data)"
    using i by (simp add: upt_rec)
  then show ?case using Suc.hyps(1) [of "Suc i"] Suc.hyps(2) i by simp
qed

section \<open>Comfort noise\<close>

text \<open>A sample of noise is at most the full scale divided by the divisor.\<close>

lemma noise_bound:
  assumes "0 < d"
  shows "list_all (\<lambda>x. \<bar>x\<bar> \<le> 32768 div d) (noise n rnd2 d) \<and> length (noise n rnd2 d) = n"
proof (induction n arbitrary: rnd2)
  case (Suc n)
  obtain r sum_rnd where s: "noise_sum 6 rnd2 0 = (r, sum_rnd)" by fastforce
  define a where "a = to_int16 sum_rnd"
  have "sample_ok a" unfolding a_def by (rule to_int16_ok)
  then have a: "\<bar>a\<bar> \<le> 32768" by (auto simp: sample_ok_def sample_range)
  have "\<bar>a sdiv d\<bar> = \<bar>a\<bar> div d" using assms by (auto simp: signed_divide_int_def abs_mult sgn_if pos_imp_zdiv_nonneg_iff)
  then have b: "\<bar>a sdiv d\<bar> \<le> 32768 div d" using zdiv_mono1 [OF a assms] by simp
  have "\<bar>to_int16 (a sdiv d)\<bar> \<le> 32768 div d"
  proof (cases "sample_ok (a sdiv d)")
    case True
    then show ?thesis using b by simp
  next
    case False
    have "32768 div d \<le> 32768" using zdiv_mono2 [of 32768 1 d] assms by simp
    with False b have e: "a sdiv d = 32768" "32768 div d = 32768" by (auto simp: sample_ok_def sample_range)
    have "\<bar>to_int16 32768\<bar> \<le> 32768" using to_int16_ok [of 32768] by (auto simp: sample_ok_def sample_range)
    then show ?thesis by (simp only: e)
  qed
  then show ?case using Suc.IH [of r] by (simp add: s Let_def a_def)
qed simp

section \<open>Lowering the volume\<close>

lemma round_even_le: "round_even n s * 2 ^ s \<le> n + 2 ^ s"
proof -
  have "round_even n s \<le> n div 2 ^ s + 1" by (simp add: round_even_def Let_def)
  then have "round_even n s * 2 ^ s \<le> (n div 2 ^ s + 1) * 2 ^ s" by (rule mult_le_mono1)
  also have "\<dots> \<le> n + 2 ^ s" by (simp add: div_times_less_eq_dividend)
  finally show ?thesis .
qed

text \<open>The relative error of the rounding is at most \<open>2 ^ -52\<close>.\<close>

lemma round53_le: "round53 n * 2 ^ 52 \<le> n * (2 ^ 52 + 1)"
proof (cases "bitlen (int n) \<le> 53")
  case True
  then show ?thesis by (simp add: round53_def round_even_def Let_def)
next
  case False
  define s where "s = nat (bitlen (int n) - 53)"
  have n: "0 < n" using False by (cases n) (simp_all add: bitlen_zero)
  have "nat (bitlen (int n) - 1) = s + 52" using False by (simp add: s_def)
  moreover have "2 ^ nat (bitlen (int n) - 1) \<le> int n" using bitlen_bounds [of "int n"] n by simp
  ultimately have "2 ^ (s + 52) \<le> int n" by simp
  then have "2 ^ s * 2 ^ 52 \<le> n" by (simp add: power_add flip: of_nat_le_iff [where 'a = int])
  moreover have "round53 n \<le> n + 2 ^ s" using round_even_le [of n s] by (simp add: round53_def Let_def s_def)
  then have "round53 n * 2 ^ 52 \<le> (n + 2 ^ s) * 2 ^ 52" by (rule mult_le_mono1)
  ultimately show ?thesis by (simp add: algebra_simps)
qed

lemma scale_sample_lowers:
  assumes "17 * fst r \<le> 16 * 2 ^ snd r"
  shows "\<bar>scale_sample r x\<bar> \<le> \<bar>x\<bar> \<and> 0 \<le> scale_sample r x * x"
proof -
  let ?n = "nat \<bar>x\<bar>"
  have "17 * (round53 (?n * fst r) * 2 ^ 52) \<le> 17 * (?n * fst r * (2 ^ 52 + 1))"
    by (rule mult_le_mono2 [OF round53_le])
  also have "\<dots> = ?n * (2 ^ 52 + 1) * (17 * fst r)" by (simp add: algebra_simps)
  also have "\<dots> \<le> ?n * (2 ^ 52 + 1) * (16 * 2 ^ snd r)" by (rule mult_le_mono2 [OF assms])
  also have "\<dots> \<le> ?n * (17 * 2 ^ 52) * 2 ^ snd r" by simp
  finally have "round53 (?n * fst r) \<le> ?n * 2 ^ snd r" by simp
  then have "round53 (?n * fst r) div 2 ^ snd r \<le> ?n" using div_le_mono [of _ "?n * 2 ^ snd r" "2 ^ snd r"] by fastforce
  then have q: "int (round53 (?n * fst r) div 2 ^ snd r) \<le> \<bar>x\<bar>" by (simp flip: of_nat_le_iff [where 'a = int])
  define q where "q = int (round53 (?n * fst r) div 2 ^ snd r)"
  have "0 \<le> q" "q \<le> \<bar>x\<bar>" "scale_sample r x = sgn x * q" using q by (simp_all add: q_def scale_sample_def)
  then show ?thesis by (auto simp: sgn_if mult_nonneg_nonpos)
qed

lemma charts_lower: "list_all (\<lambda>r. 17 * fst r \<le> 16 * 2 ^ snd r) (granular_neg @ volume_neg)"
  by (simp add: charts)

definition lowered :: "int \<Rightarrow> int \<Rightarrow> bool" where
  "lowered y x \<longleftrightarrow> \<bar>y\<bar> \<le> \<bar>x\<bar> \<and> 0 \<le> y * x"

lemma scale_all_lowers:
  assumes "17 * fst r \<le> 16 * 2 ^ snd r" and "samples \<le> length data" and "list_all sample_ok data"
  shows "succeeds (\<lambda>out. list_all2 lowered (take samples out) (take samples data) \<and> drop samples out = drop samples data) (scale_all r samples data)"
proof -
  have "lowered (to_int16 (switch_normalize_to_16bit (scale_sample r x))) x" if "x \<in> set data" for x
  proof -
    have x: "sample_ok x" using that assms(3) by (simp add: list_all_iff)
    have l: "lowered (scale_sample r x) x" using scale_sample_lowers [OF assms(1), of x] by (simp add: lowered_def)
    show ?thesis
    proof (cases "sample_ok (scale_sample r x)")
      case True
      then show ?thesis using l by simp
    next
      case False
      with l x have "x = SWITCH_SMIN" "scale_sample r x > SWITCH_SMAX" by (auto simp: lowered_def sample_ok_def sample_range)
      with l show ?thesis by (simp add: lowered_def sample_range)
    qed
  qed
  then show ?thesis using assms(2)
    by (auto simp: scale_all_def list_all2_conv_all_nth min_def)
qed

lemma silence_lowers: "samples \<le> length data \<Longrightarrow> list_all2 lowered (replicate samples 0) (take samples data)"
  by (simp add: list_all2_conv_all_nth lowered_def)

lemma chart_entry: "i < length (granular_neg @ volume_neg) \<Longrightarrow> 17 * fst ((granular_neg @ volume_neg) ! i) \<le> 16 * 2 ^ snd ((granular_neg @ volume_neg) ! i)"
  using charts_lower unfolding list_all_length by blast

lemma neg_entries:
  assumes "i < 13" shows "17 * fst (granular_neg ! i) \<le> 16 * 2 ^ snd (granular_neg ! i)"
  using chart_entry [of i] assms by (simp add: nth_append) (simp add: granular_neg_def)

lemma neg_entries4:
  assumes "i < 4" shows "17 * fst (volume_neg ! i) \<le> 16 * 2 ^ snd (volume_neg ! i)"
  using chart_entry [of "13 + i"] assms by (simp add: nth_append granular_neg_def volume_neg_def)

section \<open>The properties\<close>

lemma normalize_saturates: "switch_normalize_to_16bit x = max (- 32768) (min 32767 x)"
  by (simp add: switch_normalize_to_16bit_def sample_range max_def min_def)

text \<open>C40: folding the channels of an interleaved block in place yields, for each frame, the sum of the frame's original samples, saturated to 16 bits after every addition, and leaves the rest of the block alone: no sample is overwritten before it has been read. The block holds the frames, of at least one channel.\<close>

theorem mux_channels_frames:
  assumes "0 < channels" and "samples * channels \<le> length data" and "list_all sample_ok data"
  shows "switch_mux_channels data samples channels =
    Inr (map (\<lambda>k. foldl (\<lambda>z x. max (- 32768) (min 32767 (z + x))) 0 (take channels (drop (k * channels) data))) [0..<samples] @ drop samples data)"
  using mux_loop_fold [OF assms, of 0] by (simp add: switch_mux_channels_def fold_frame_def frame_def normalize_saturates)

theorem mux_channels_frames_witness: "switch_mux_channels [1, 2, 30000, 20000, 5, 6] 3 2 = Inr [3, 32767, 11, 20000, 5, 6]"
  using mux_channels_frames [of 2 3 "[1, 2, 30000, 20000, 5, 6]"]
  by (simp add: sample_ok_def sample_range upt_rec)

text \<open>C20: mixing a signal into another adds them sample by sample as far as both go, saturated to 16 bits, and leaves the rest of the longer one alone; taking the signal out of the mix again restores the other signal exactly, when no sum was saturated. Blocks have less than \<open>2\<^sup>3\<^sup>1\<close> samples.\<close>

theorem merge_unmerge_sln:
  assumes "length data < 2 ^ 31" and "length other < 2 ^ 31" and "list_all sample_ok data" and "list_all sample_ok other"
  shows "\<exists>mixed. switch_merge_sln data (length data) other (length other) = Inr (min (length data) (length other), mixed) \<and>
    mixed = map2 (\<lambda>a b. max (- 32768) (min 32767 (a + b))) data other @ drop (length other) data \<and>
    (list_all (\<lambda>(a, b). - 32768 \<le> a + b \<and> a + b \<le> 32767) (zip data other) \<longrightarrow>
      switch_unmerge_sln mixed (length mixed) other (length other) = Inr (min (length data) (length other), data))"
proof -
  let ?n = "min (length data) (length other)"
  let ?mixed = "map2 merge_sample (take ?n data) (take ?n other) @ drop ?n data"
  have z: "zip (take ?n data) (take ?n other) = zip data other" by (simp flip: take_zip)
  have s: "merge_sample a b = max (- 32768) (min 32767 (a + b))" for a b
    by (simp add: merge_sample_def) (simp add: normalize_saturates)
  have mixed: "?mixed = map2 (\<lambda>a b. max (- 32768) (min 32767 (a + b))) data other @ drop (length other) data"
    unfolding z s by (simp add: min_def)
  have len: "length ?mixed = length data" by simp
  have t: "take ?n ?mixed = map2 merge_sample (take ?n data) (take ?n other)" "drop ?n ?mixed = drop ?n data" by simp_all
  have "switch_unmerge_sln ?mixed (length ?mixed) other (length other) = Inr (?n, data)"
    if sum: "list_all (\<lambda>(a, b). - 32768 \<le> a + b \<and> a + b \<le> 32767) (zip data other)"
  proof -
    have "map2 unmerge_sample (map2 merge_sample (take ?n data) (take ?n other)) (take ?n other) = take ?n data"
    proof (rule nth_equalityI)
      fix i assume "i < length (map2 unmerge_sample (map2 merge_sample (take ?n data) (take ?n other)) (take ?n other))"
      then have i: "i < length data" "i < length other" by simp_all
      have "sample_ok (data ! i)" "sample_ok (other ! i)" "sample_ok (data ! i + other ! i)"
        using i assms(3,4) sum by (auto simp: list_all_length sample_ok_def [of "_ + _"] sample_range)
      then show "map2 unmerge_sample (map2 merge_sample (take ?n data) (take ?n other)) (take ?n other) ! i = take ?n data ! i"
        using i by (simp add: merge_unmerge_sample)
    qed simp
    then show ?thesis
      unfolding switch_unmerge_sln_def using mix_with_ok [of ?mixed other unmerge_sample] assms(1,2) len t by (simp add: Let_def)
  qed
  moreover have "switch_merge_sln data (length data) other (length other) = Inr (?n, ?mixed)"
    unfolding switch_merge_sln_def using mix_with_ok [OF assms(1,2), of merge_sample] by (simp add: Let_def)
  ultimately show ?thesis using mixed by blast
qed

theorem merge_unmerge_sln_witness:
  "\<exists>mixed. switch_merge_sln [100, -200, 7] (length [100, -200, 7 :: int]) [50, 60] (length [50, 60 :: int]) = Inr (Suc (Suc 0), mixed) \<and>
    mixed = [150, -140, 7] \<and>
    switch_unmerge_sln mixed (length mixed) [50, 60] (length [50, 60 :: int]) = Inr (Suc (Suc 0), [100, -200, 7])"
  using merge_unmerge_sln [of "[100, -200, 7]" "[50, 60]"] by (simp add: sample_ok_def sample_range)

text \<open>C21: every negative volume, coarse or granular, is applied without a failed assertion and moves each sample towards zero, never past it.\<close>

theorem volume_lowers:
  assumes "vol < 0" and "samples \<le> length data" and "list_all sample_ok data"
  shows "succeeds (\<lambda>out. list_all2 lowered (take samples out) (take samples data) \<and> drop samples out = drop samples data)
      (switch_change_sln_volume_granular data samples vol) \<and>
    succeeds (\<lambda>out. list_all2 lowered (take samples out) (take samples data) \<and> drop samples out = drop samples data)
      (switch_change_sln_volume data samples vol)"
proof
  let ?v = "switch_normalize_volume_granular vol" and ?w = "switch_normalize_volume vol"
  have v: "?v < 0" "nat (\<bar>?v\<bar> - 1) < 13" using assms(1) by (auto simp: switch_normalize_volume_granular_def Let_def)
  have w: "?w < 0" "nat (\<bar>?w\<bar> - 1) < 4" using assms(1) by (auto simp: switch_normalize_volume_def Let_def)
  have nz: "fst (volume_neg ! nat (\<bar>?w\<bar> - 1)) \<noteq> 0"
  proof -
    have "list_all (\<lambda>r. fst r \<noteq> 0) volume_neg" by (simp add: volume_neg_def)
    then show ?thesis using w(2) unfolding list_all_length by (simp add: volume_neg_def)
  qed
  show "succeeds (\<lambda>out. list_all2 lowered (take samples out) (take samples data) \<and> drop samples out = drop samples data)
      (switch_change_sln_volume_granular data samples vol)"
    using scale_all_lowers [OF neg_entries [OF v(2)] assms(2,3)] silence_lowers [OF assms(2)] v assms(1,2)
    by (simp add: switch_change_sln_volume_granular_def Let_def)
  show "succeeds (\<lambda>out. list_all2 lowered (take samples out) (take samples data) \<and> drop samples out = drop samples data)
      (switch_change_sln_volume data samples vol)"
    using scale_all_lowers [OF neg_entries4 [OF w(2)] assms(2,3)] nz w assms(1,2)
    by (simp add: switch_change_sln_volume_def Let_def)
qed

theorem volume_lowers_witness:
  "succeeds (\<lambda>out. list_all2 lowered (take 2 out) [100, -200] \<and> drop 2 out = [7]) (switch_change_sln_volume [100, -200, 7] 2 (-3))"
  using volume_lowers [of "-3" 2 "[100, -200, 7]"] by (simp add: sample_ok_def sample_range)

end
