(* ===== verification/Time_Conditions.thy ===== *)
theory Time_Conditions
  imports C_String "HOL-Library.Signed_Division"
begin

text \<open>
  The time conditions of the dialplan: the expression matchers of src/switch\_utils.c
  (\<open>switch_dow_cmp\<close>, \<open>switch_number_cmp\<close>, \<open>switch_tod_cmp\<close>, \<open>switch_fulldate_cmp\<close>) and
  \<open>switch_xml_std_datetime_check\<close> of src/switch\_xml.c, which applies them to the attributes of a
  condition. The lemmas give the set of values each matcher accepts on a well-formed expression, the
  expressions on which the list matcher reads past its argument, and the verdict of a condition on a
  broken-down time.
\<close>

section \<open>Searching a string\<close>

text \<open>\<open>if ((p = strchr(s, c))) p++\<close>, and the part of \<open>s\<close> before it once \<open>*p\<close> is overwritten by a NUL.\<close>

definition after :: "char \<Rightarrow> string \<Rightarrow> string option" where
  "after c s = (case dropWhile (\<lambda>x. x \<noteq> c) s of [] \<Rightarrow> None | _ # t \<Rightarrow> Some t)"

definition before :: "char \<Rightarrow> string \<Rightarrow> string" where
  "before c s = takeWhile (\<lambda>x. x \<noteq> c) s"

lemma after_length: "after c s = Some t \<Longrightarrow> length t < length s"
  using length_dropWhile_le [of "\<lambda>x. x \<noteq> c" s] by (auto simp: after_def split: list.splits)

lemma after_append [simp]: "c \<notin> set s \<Longrightarrow> after c (s @ r) = after c r"
  by (induction s) (auto simp: after_def)

lemma before_append [simp]: "c \<notin> set s \<Longrightarrow> before c (s @ r) = s @ before c r"
  by (induction s) (auto simp: before_def)

lemma after_Cons [simp]: "after c (x # t) = (if x = c then Some t else after c t)"
  by (simp add: after_def)

lemma before_Cons [simp]: "before c (x # t) = (if x = c then [] else x # before c t)"
  by (simp add: before_def)

lemma after_Nil [simp]: "after c [] = None" "before c [] = []"
  by (simp_all add: after_def before_def)

lemma after_none [simp]: "c \<notin> set s \<Longrightarrow> after c s = None"
  by (induction s) (auto simp: after_def)

lemma before_none [simp]: "c \<notin> set s \<Longrightarrow> before c s = s"
  by (induction s) (auto simp: before_def)

lemma after_suffix: "after c s = Some t \<Longrightarrow> \<exists>u. s = u @ c # t"
proof (induction s)
  case Nil
  then show ?case by (simp add: after_def)
next
  case (Cons x s)
  show ?case
  proof (cases "x = c")
    case True
    with Cons.prems have "x # s = [] @ c # t" by (simp add: after_def)
    then show ?thesis by blast
  next
    case False
    with Cons obtain u where "s = u @ c # t" by (auto simp: after_def)
    then have "x # s = (x # u) @ c # t" by simp
    then show ?thesis by blast
  qed
qed

text \<open>\<open>atol\<close>, unbounded like \<open>atoi\<close>, and the conversion of a \<open>long\<close> to \<open>int\<close>.\<close>

definition atol :: "string \<Rightarrow> int" where
  "atol s = atoi s"

definition to_int :: "int \<Rightarrow> int" where
  "to_int v = signed_take_bit 31 v"

lemma to_int_id [simp]: "- (2 ^ 31) \<le> v \<Longrightarrow> v < 2 ^ 31 \<Longrightarrow> to_int v = v"
  unfolding to_int_def by (rule signed_take_bit_int_eq_self) simp_all

section \<open>Days of the week\<close>

definition DOW :: "string list" where
  "DOW = [''sun'', ''mon'', ''tue'', ''wed'', ''thu'', ''fri'', ''sat'']"

text \<open>\<open>switch_arraylen\<close> is a \<open>size_t\<close>, so a negative number takes the wrap-around branch too.\<close>

definition switch_dow_int2str :: "int \<Rightarrow> string" where
  "switch_dow_int2str val =
     (let u = val mod 2 ^ 64; val = (if u \<ge> 7 then u mod 7 else val) in DOW ! nat val)"

definition strncasecmp_eq :: "nat \<Rightarrow> string \<Rightarrow> string \<Rightarrow> bool" where
  "strncasecmp_eq n s t = strcasecmp_eq (take n s) (take n t)"

primrec dow_scan :: "string list \<Rightarrow> int \<Rightarrow> string \<Rightarrow> int" where
  "dow_scan [] x exp = -1"
| "dow_scan (d # ds) x exp = (if strncasecmp_eq 3 d exp then x + 1 else dow_scan ds (x + 1) exp)"

definition switch_dow_str2int :: "string \<Rightarrow> int" where
  "switch_dow_str2int exp = dow_scan DOW 0 exp"

text \<open>The tokens keep the values of the enumeration, which the matcher compares with days.\<close>

type_synonym dow_t = int

definition DOW_ERR :: dow_t where "DOW_ERR = -2"
definition DOW_EOF :: dow_t where "DOW_EOF = -1"
definition DOW_HYPHEN :: dow_t where "DOW_HYPHEN = 45"
definition DOW_COMA :: dow_t where "DOW_COMA = 44"

lemmas dow_tokens = DOW_ERR_def DOW_EOF_def DOW_HYPHEN_def DOW_COMA_def

definition dow_read_token :: "string \<Rightarrow> dow_t \<times> string" where
  "dow_read_token s =
     (if s \<noteq> [] \<and> hd s = CHR ''-'' then (DOW_HYPHEN, tl s)
      else if s \<noteq> [] \<and> hd s = CHR '','' then (DOW_COMA, tl s)
      else if s \<noteq> [] \<and> char_code (hd s) \<ge> 49 \<and> char_code (hd s) \<le> 55 then (char_code (hd s) - 48, tl s)
      else if switch_dow_str2int s \<noteq> 0 \<and> switch_dow_str2int s \<noteq> -1 then (switch_dow_str2int s, drop 3 s)
      else if s = [] then (DOW_EOF, s)
      else (DOW_ERR, s))"

lemma dow_str2int_range: "switch_dow_str2int s \<noteq> -1 \<Longrightarrow> switch_dow_str2int s \<in> {1..7}"
  by (simp add: switch_dow_str2int_def DOW_def split: if_splits)

lemma dow_str2int_nil [simp]: "switch_dow_str2int [] = -1"
  by (simp add: switch_dow_str2int_def DOW_def strncasecmp_eq_def strcasecmp_eq_def)

text \<open>Every token but the two that end the scan consumes a character.\<close>

lemma dow_read_token_advances:
  assumes "(t, s') = dow_read_token s" and "t \<noteq> DOW_EOF" and "t \<noteq> DOW_ERR"
  shows "length s' < length s"
proof (cases s)
  case Nil
  then show ?thesis using assms by (simp add: dow_read_token_def)
next
  case (Cons c cs)
  then show ?thesis using assms by (auto simp: dow_read_token_def split: if_splits)
qed

function dow_loop :: "int \<Rightarrow> dow_t \<Rightarrow> dow_t \<Rightarrow> string \<Rightarrow> bool" where
  "dow_loop val prev range_start p =
     (let (cur, p') = dow_read_token p in
      if cur = DOW_EOF then False
      else if cur = DOW_COMA then dow_loop val DOW_EOF range_start p'
      else if cur = DOW_HYPHEN then dow_loop val cur prev p'
      else if cur = DOW_ERR then False
      else if range_start \<noteq> DOW_EOF then
        (if val \<ge> range_start \<and> val \<le> cur then True else dow_loop val cur DOW_EOF p')
      else if val = cur then True
      else dow_loop val cur range_start p')"
  by pat_completeness auto
termination
  by (relation "measure (\<lambda>(v, pr, rs, p). length p)")
    (auto dest: dow_read_token_advances simp: dow_tokens)

declare dow_loop.simps [simp del]

definition switch_dow_cmp :: "string \<Rightarrow> int \<Rightarrow> bool" where
  "switch_dow_cmp exp val = dow_loop val DOW_EOF DOW_EOF exp"

section \<open>Numbers\<close>

text \<open>
  The loop over a list: \<open>cur\<close> is the element to test and \<open>p\<close> the one after it, \<open>None\<close> a null
  pointer. The comma after the next element is searched from \<open>p + 1\<close>, which is past the end of the
  string when that element is empty and the last one.
\<close>

function number_list :: "int \<Rightarrow> string \<Rightarrow> string option \<Rightarrow> fault + bool" where
  "number_list val cur p =
     (if atol cur = val then Inr True
      else case p of
        None \<Rightarrow> Inr False
      | Some [] \<Rightarrow> Inl Out_of_bounds
      | Some (x # t) \<Rightarrow> number_list val (x # t) (after CHR '','' t))"
  by pat_completeness auto
termination
  by (relation "measure (\<lambda>(v, cur, p). case p of None \<Rightarrow> 0 | Some q \<Rightarrow> Suc (length q))")
    (auto dest: after_length split: option.splits)

declare number_list.simps [simp del]

definition switch_number_cmp :: "string \<Rightarrow> int \<Rightarrow> fault + bool" where
  "switch_number_cmp exp val =
     (case after CHR ''-'' exp of
        Some p \<Rightarrow>
          let min = to_int (atol exp); max = to_int (atol p) in Inr (val \<ge> min \<and> val \<le> max)
      | None \<Rightarrow>
          (case after CHR '','' exp of
             Some p \<Rightarrow> number_list val exp (Some p)
           | None \<Rightarrow> Inr (atol exp = val)))"

section \<open>Times and dates\<close>

text \<open>
  The pieces of \<open>dup\<close> are its parts between the separators the code overwrites; the second colon is
  searched from the hyphen on.
\<close>

definition switch_tod_cmp :: "string \<Rightarrow> int \<Rightarrow> bool" where
  "switch_tod_cmp exp val =
     (case after CHR '':'' exp of
        None \<Rightarrow> False
      | Some rest \<Rightarrow>
          (case after CHR ''-'' rest of
             None \<Rightarrow> False
           | Some rest' \<Rightarrow>
               (case after CHR '':'' rest' of
                  None \<Rightarrow> False
                | Some maxm \<Rightarrow>
                    let minh = before CHR '':'' exp;
                        minm = before CHR ''-'' rest;
                        maxh = before CHR '':'' rest';
                        (minm, mins) = (case after CHR '':'' minm of Some s \<Rightarrow> (before CHR '':'' minm, s) | None \<Rightarrow> (minm, ''00''));
                        (maxm, maxs) = (case after CHR '':'' maxm of Some s \<Rightarrow> (before CHR '':'' maxm, s) | None \<Rightarrow> (maxm, ''00''))
                    in val \<ge> atol minh * 60 * 60 + atol minm * 60 + atol mins \<and>
                       val < atol maxh * 60 * 60 + atol maxm * 60 + atol maxs)))"

text \<open>The three integers are the caller's variables, left as they are where the text has no separator.\<close>

definition switch_split_time :: "string \<Rightarrow> int \<times> int \<times> int \<Rightarrow> int \<times> int \<times> int" where
  "switch_split_time exp old =
     (case after CHR '':'' exp of
        None \<Rightarrow> old
      | Some smin \<Rightarrow>
          let (smin, ssec) = (case after CHR '':'' smin of Some s \<Rightarrow> (before CHR '':'' smin, s) | None \<Rightarrow> (smin, ''00''))
          in (to_int (atol (before CHR '':'' exp)), to_int (atol smin), to_int (atol ssec)))"

definition switch_split_date :: "string \<Rightarrow> int \<times> int \<times> int \<Rightarrow> int \<times> int \<times> int" where
  "switch_split_date exp old =
     (case after CHR ''-'' exp of
        None \<Rightarrow> old
      | Some smonth \<Rightarrow>
          (case after CHR ''-'' smonth of
             None \<Rightarrow> old
           | Some sday \<Rightarrow>
               (to_int (atol (before CHR ''-'' exp)), to_int (atol (before CHR ''-'' smonth)), to_int (atol sday))))"

text \<open>The fields of \<open>struct tm\<close> the code sets for \<open>mktime\<close>.\<close>

record broken_time =
  bt_year :: int
  bt_mon :: int
  bt_mday :: int
  bt_hour :: int
  bt_min :: int
  bt_sec :: int

definition fill_time :: "int \<times> int \<times> int \<Rightarrow> int \<times> int \<times> int \<Rightarrow> broken_time" where
  "fill_time date time =
     (case date of (year, month, day) \<Rightarrow> case time of (hour, minute, sec) \<Rightarrow>
        \<lparr>bt_year = year - 1900, bt_mon = month - 1, bt_mday = day, bt_hour = hour, bt_min = minute, bt_sec = sec\<rparr>)"

text \<open>
  \<open>mktime\<close> is the C library's, in the process's time zone. The variables \<open>year\<close> to \<open>sec\<close> are not
  initialised: \<open>d0\<close> and \<open>t0\<close> are the values they happen to have.
\<close>

definition switch_fulldate_cmp ::
  "(broken_time \<Rightarrow> int) \<Rightarrow> int \<times> int \<times> int \<Rightarrow> int \<times> int \<times> int \<Rightarrow> string \<Rightarrow> int \<Rightarrow> bool" where
  "switch_fulldate_cmp mktime d0 t0 exp ts =
     (case after CHR ''~'' exp of
        None \<Rightarrow> False
      | Some sEnd \<Rightarrow>
          let sStart = before CHR ''~'' exp in
          (case after CHR '' '' sStart of
             None \<Rightarrow> False
           | Some sTime \<Rightarrow>
               let d1 = switch_split_date (before CHR '' '' sStart) d0;
                   t1 = switch_split_time sTime t0;
                   tsStart = mktime (fill_time d1 t1)
               in (case after CHR '' '' sEnd of
                     None \<Rightarrow> False
                   | Some sTime' \<Rightarrow>
                       let d2 = switch_split_date (before CHR '' '' sEnd) d1;
                           t2 = switch_split_time sTime' t1;
                           tsEnd = mktime (fill_time d2 t2)
                       in tsStart \<le> ts sdiv 1000000 \<and> tsEnd > ts sdiv 1000000)))"

section \<open>The condition of a dialplan extension\<close>

record time_exp =
  tm_sec :: int
  tm_min :: int
  tm_hour :: int
  tm_mday :: int
  tm_mon :: int
  tm_year :: int
  tm_wday :: int
  tm_yday :: int
  tm_isdst :: int
  tm_gmtoff :: int

text \<open>
  What the check reads from outside: the clock in microseconds, the time broken down in the local
  zone, at an offset and in a named zone (\<open>None\<close> when the name is unknown, which leaves \<open>tm\<close> as it
  was), \<open>mktime\<close>, and the indeterminate variables of \<open>switch_fulldate_cmp\<close>; \<open>tm0\<close> is what the
  uninitialised \<open>tm\<close> holds.
\<close>

record time_env =
  te_now :: int
  te_local :: "int \<Rightarrow> time_exp"
  te_offset :: "int \<Rightarrow> int \<Rightarrow> time_exp"
  te_named :: "string \<Rightarrow> int \<Rightarrow> time_exp option"
  te_mktime :: "broken_time \<Rightarrow> int"
  te_date0 :: "int \<times> int \<times> int"
  te_time0 :: "int \<times> int \<times> int"
  te_tm0 :: time_exp

text \<open>\<open>if (time_match && x) time_match = f(x)\<close>, with -1 for \<open>no condition seen\<close>.\<close>

definition int_of_bool :: "bool \<Rightarrow> int" where
  "int_of_bool b = (if b then 1 else 0)"

definition check_attr :: "string option \<Rightarrow> (string \<Rightarrow> fault + bool) \<Rightarrow> int \<Rightarrow> fault + int" where
  "check_attr x f time_match =
     (case x of
        None \<Rightarrow> Inr time_match
      | Some e \<Rightarrow> if time_match = 0 then Inr 0 else fbind (f e) (\<lambda>b. Inr (int_of_bool b)))"

definition tm_choice :: "time_env \<Rightarrow> int option \<Rightarrow> string option \<Rightarrow> time_exp" where
  "tm_choice E offset tzname =
     (case offset of
        Some h \<Rightarrow> te_offset E (h * 3600) (te_now E)
      | None \<Rightarrow>
          if zstr tzname then te_local E (te_now E)
          else (case te_named E (the tzname) (te_now E) of Some tm \<Rightarrow> tm | None \<Rightarrow> te_tm0 E))"

text \<open>The week of the month: \<open>ceil(x / 7.0)\<close> of a small integer is computed in integers.\<close>

definition month_week :: "time_exp \<Rightarrow> int" where
  "month_week tm =
     (let firstdow = (7 - (tm_mday tm - (tm_wday tm + 1)) smod 7) smod 7
      in - ((- (tm_mday tm + firstdow)) div 7))"

definition run_checks :: "(string option \<times> (string \<Rightarrow> fault + bool)) list \<Rightarrow> int \<Rightarrow> fault + int" where
  "run_checks cs m = foldl (\<lambda>r (x, f). fbind r (check_attr x f)) (Inr m) cs"

definition zone_checks ::
  "time_env \<Rightarrow> (string \<Rightarrow> string option) \<Rightarrow> int option \<Rightarrow> string option \<Rightarrow> (string option \<times> (string \<Rightarrow> fault + bool)) list" where
  "zone_checks E attr offset tzname =
     (let tzoff = attr ''tz-offset''; isdst = attr ''dst'';
          tm2 = te_local E (te_now E);
          tm = tm_choice E offset tzname;
          eoffset = (case offset of Some h \<Rightarrow> if h = -1000 then tm_gmtoff tm sdiv 3600 else h | None \<Rightarrow> tm_gmtoff tm sdiv 3600);
          l = (if \<not> zstr tzoff \<and> switch_is_number (the tzoff) then atoi (the tzoff) else -1000);
          loffset = (if l = -1000 then eoffset else l)
      in [(tzoff, \<lambda>_. Inr (loffset = eoffset)),
          (if zstr isdst then None else isdst, \<lambda>e. Inr (tm_isdst tm2 > 0 \<and> switch_true (Some e)))])"

definition date_checks ::
  "time_env \<Rightarrow> (string \<Rightarrow> string option) \<Rightarrow> time_exp \<Rightarrow> (string option \<times> (string \<Rightarrow> fault + bool)) list" where
  "date_checks E attr tm =
     [(attr ''date-time'', \<lambda>e. Inr (switch_fulldate_cmp (te_mktime E) (te_date0 E) (te_time0 E) e (te_now E))),
      (attr ''year'', \<lambda>e. switch_number_cmp e (tm_year tm + 1900)),
      (attr ''yday'', \<lambda>e. switch_number_cmp e (tm_yday tm + 1)),
      (attr ''mon'', \<lambda>e. switch_number_cmp e (tm_mon tm + 1)),
      (attr ''mday'', \<lambda>e. switch_number_cmp e (tm_mday tm)),
      (attr ''week'', \<lambda>e. switch_number_cmp e (tm_yday tm sdiv 7 + 1)),
      (attr ''week'', \<lambda>e. switch_number_cmp e (tm_yday tm sdiv 7 + 1)),
      (attr ''mweek'', \<lambda>e. switch_number_cmp e (month_week tm)),
      (attr ''wday'', \<lambda>e. Inr (switch_dow_cmp e (tm_wday tm + 1))),
      (attr ''hour'', \<lambda>e. switch_number_cmp e (tm_hour tm)),
      (attr ''minute'', \<lambda>e. switch_number_cmp e (tm_min tm)),
      (attr ''minute-of-day'', \<lambda>e. switch_number_cmp e (tm_hour tm * 60 + (tm_min tm + 1))),
      (attr ''time-of-day'', \<lambda>e. Inr (switch_tod_cmp e (tm_hour tm * 60 * 60 + tm_min tm * 60 + tm_sec tm)))]"

definition switch_xml_std_datetime_check ::
  "time_env \<Rightarrow> (string \<Rightarrow> string option) \<Rightarrow> int option \<Rightarrow> string option \<Rightarrow> fault + int" where
  "switch_xml_std_datetime_check E attr offset tzname =
     run_checks (zone_checks E attr offset tzname @ date_checks E attr (tm_choice E offset tzname)) (-1)"

section \<open>Day expressions\<close>

text \<open>
  The expressions the matcher is written for: days and ranges of days between commas, a day as its
  digit or its three-letter name in any case.
\<close>

definition day_text :: "string \<Rightarrow> int \<Rightarrow> bool" where
  "day_text s d \<longleftrightarrow> 1 \<le> d \<and> d \<le> 7 \<and>
     (s = [char_of (48 + nat d)] \<or> strcasecmp_eq s ([''Sun'', ''Mon'', ''Tue'', ''Wed'', ''Thu'', ''Fri'', ''Sat''] ! nat (d - 1)))"

datatype day_item = One_day int string | Day_range int string int string

fun day_item_ok :: "day_item \<Rightarrow> bool" where
  "day_item_ok (One_day d s) = day_text s d"
| "day_item_ok (Day_range a s b t) = (day_text s a \<and> day_text t b)"

fun item_text :: "day_item \<Rightarrow> string" where
  "item_text (One_day d s) = s"
| "item_text (Day_range a s b t) = s @ ''-'' @ t"

fun item_days :: "day_item \<Rightarrow> int set" where
  "item_days (One_day d s) = {d}"
| "item_days (Day_range a s b t) = insert a {a..b}"

fun items_text :: "day_item list \<Rightarrow> string" where
  "items_text [] = []"
| "items_text [i] = item_text i"
| "items_text (i # j # is) = item_text i @ CHR '','' # items_text (j # is)"

lemma token_hyphen [simp]: "dow_read_token (CHR ''-'' # s) = (DOW_HYPHEN, s)"
  by (simp add: dow_read_token_def)

lemma token_comma [simp]: "dow_read_token (CHR '','' # s) = (DOW_COMA, s)"
  by (simp add: dow_read_token_def)

lemma token_end [simp]: "dow_read_token [] = (DOW_EOF, [])"
  by (simp add: dow_read_token_def)

lemma digit_code: "1 \<le> d \<Longrightarrow> d \<le> 7 \<Longrightarrow> char_code (char_of (48 + nat d)) = 48 + d"
  using digit_char [of "nat d"] by (simp add: digit_val_def nat_less_iff)

lemma unat_char_byte: "unat (char_byte c) = of_char c"
proof -
  have n: "of_char c < (256 :: nat)" by simp
  have "char_byte c = of_nat (of_char c)" unfolding char_byte_def of_nat_of_char ..
  then have "unat (char_byte c) = unat (of_nat (of_char c) :: byte)" by (rule arg_cong)
  also have "\<dots> = of_char c" using n by (simp only: unat_of_nat) (simp add: take_bit_eq_mod)
  finally show ?thesis .
qed

text \<open>No character below the letters is folded into one.\<close>

lemma low_char_lower:
  assumes "0 \<le> char_code c" and "char_code c < 65"
  shows "unat (ascii_lower (char_byte c)) < 65"
proof -
  have "(of_char c :: nat) < 65"
  proof -
    have i: "int (of_char c) = of_char c" by (rule of_nat_of_char)
    have "(of_char c :: int) < 256" using i by (metis of_char_mod_256 mod_less_divisor numeral_less_iff zless_iff_Suc_zadd pos_mod_bound zero_less_numeral)
    with assms i show ?thesis unfolding char_code_def Let_def by (simp split: if_splits)
  qed
  then have u: "unat (char_byte c) < 65" by (simp add: unat_char_byte)
  then have "\<not> 0x41 \<le> char_byte c" by (simp add: word_le_nat_alt)
  with u show ?thesis by (simp add: ascii_lower_def)
qed

lemma str2int_append:
  assumes "length s = 3"
  shows "switch_dow_str2int (s @ r) = switch_dow_str2int s"
  using assms by (simp add: switch_dow_str2int_def DOW_def strncasecmp_eq_def)

lemma dow_scan_hit:
  "dow_scan ds x s \<noteq> -1 \<Longrightarrow> \<exists>d\<in>set ds. strncasecmp_eq 3 d s"
  by (induction ds arbitrary: x) (auto split: if_splits)

lemma str2int_first:
  assumes "switch_dow_str2int s \<noteq> -1"
  obtains c cs where "s = c # cs" and "\<not> (0 \<le> char_code c \<and> char_code c < 65)"
proof -
  from assms obtain d where d: "d \<in> set DOW" and m: "strncasecmp_eq 3 d s"
    unfolding switch_dow_str2int_def using dow_scan_hit by blast
  have n: "take 3 d \<noteq> []" and h: "unat (ascii_lower (char_byte (hd d))) \<ge> 65"
    using d by (auto simp: DOW_def char_byte_def ascii_lower_def)
  have e: "map (ascii_lower \<circ> char_byte) (take 3 d) = map (ascii_lower \<circ> char_byte) (take 3 s)"
    using m by (simp add: strncasecmp_eq_def strcasecmp_eq_def)
  then obtain c cs where s: "s = c # cs" using n by (cases s) auto
  from e n have "ascii_lower (char_byte (hd d)) = ascii_lower (char_byte c)" by (cases d) (simp_all add: s)
  with h have "unat (ascii_lower (char_byte c)) \<ge> 65" by simp
  then show thesis using that s low_char_lower by fastforce
qed

lemma dow_scan_caseless:
  assumes "strcasecmp_eq s t"
  shows "dow_scan ds x s = dow_scan ds x t"
proof -
  have "map (ascii_lower \<circ> char_byte) (take 3 s) = map (ascii_lower \<circ> char_byte) (take 3 t)"
    using assms by (simp add: strcasecmp_eq_def flip: take_map)
  then have "strncasecmp_eq 3 d s = strncasecmp_eq 3 d t" for d by (simp add: strncasecmp_eq_def strcasecmp_eq_def)
  then show ?thesis by (induction ds arbitrary: x) simp_all
qed

lemma day_name_read:
  assumes "strcasecmp_eq s ([''Sun'', ''Mon'', ''Tue'', ''Wed'', ''Thu'', ''Fri'', ''Sat''] ! nat (d - 1))" (is "strcasecmp_eq s (?names ! _)")
    and "1 \<le> d" and "d \<le> 7"
  shows "length s = 3 \<and> switch_dow_str2int s = d"
proof -
  have "list_all (\<lambda>d. length (?names ! nat (d - 1)) = 3 \<and> switch_dow_str2int (?names ! nat (d - 1)) = d) [1, 2, 3, 4, 5, 6, 7]"
    by code_simp
  moreover have "d \<in> set [1, 2, 3, 4, 5, 6, 7]" using assms(2,3) by auto
  ultimately have n: "length (?names ! nat (d - 1)) = 3" "switch_dow_str2int (?names ! nat (d - 1)) = d"
    unfolding list_all_iff by blast+
  have "length s = length (?names ! nat (d - 1))"
    using assms(1) arg_cong [of _ _ length] by (fastforce simp: strcasecmp_eq_def dest: map_eq_imp_length_eq)
  with n dow_scan_caseless [OF assms(1)] show ?thesis by (simp add: switch_dow_str2int_def)
qed

lemma token_day:
  assumes "day_text s d"
  shows "dow_read_token (s @ r) = (d, r)"
proof (cases "s = [char_of (48 + nat d)]")
  case True
  have d: "1 \<le> d" "d \<le> 7" using assms by (simp_all add: day_text_def)
  have k: "char_code (char_of (48 + nat d)) = 48 + d" by (rule digit_code [OF d])
  then have "char_of (48 + nat d) \<noteq> CHR ''-''" "char_of (48 + nat d) \<noteq> CHR '',''" using d by (auto simp: char_code_def)
  with k d show ?thesis by (simp add: True dow_read_token_def)
next
  case False
  with assms have s: "length s = 3" "switch_dow_str2int s = d" "1 \<le> d" using day_name_read [of s d] by (simp_all add: day_text_def)
  then have "switch_dow_str2int s \<noteq> -1" by simp
  then obtain c cs where c: "s = c # cs" "\<not> (0 \<le> char_code c \<and> char_code c < 65)" by (rule str2int_first)
  then have "c \<noteq> CHR ''-''" "c \<noteq> CHR '',''" by (auto simp: char_code_def)
  moreover have "\<not> (char_code c \<ge> 49 \<and> char_code c \<le> 55)" using c(2) by linarith
  moreover have "switch_dow_str2int (c # cs @ r) = d" using str2int_append [OF s(1), of r] s(2) c(1) by simp
  moreover have "drop 3 (c # cs @ r) = r" using s(1) c(1) by simp
  ultimately show ?thesis using s(3) by (auto simp: c(1) dow_read_token_def)
qed

lemma day_not_token:
  assumes "day_text s d"
  shows "d \<noteq> DOW_EOF" "d \<noteq> DOW_ERR" "d \<noteq> DOW_COMA" "d \<noteq> DOW_HYPHEN"
  using assms by (simp_all add: day_text_def dow_tokens)

lemma dow_loop_end [simp]: "\<not> dow_loop val prev rs []"
  by (subst dow_loop.simps) simp

lemma dow_loop_comma [simp]: "dow_loop val prev rs (CHR '','' # r) = dow_loop val DOW_EOF rs r"
  by (subst dow_loop.simps) (simp add: dow_tokens)

lemma dow_loop_hyphen [simp]: "dow_loop val prev rs (CHR ''-'' # r) = dow_loop val DOW_HYPHEN prev r"
  by (subst dow_loop.simps) (simp add: dow_tokens)

lemma dow_loop_day:
  assumes "day_text s d"
  shows "dow_loop val prev rs (s @ r) \<longleftrightarrow>
    (if rs = DOW_EOF then val = d else val \<in> {rs..d}) \<or> dow_loop val d DOW_EOF r"
  by (subst dow_loop.simps) (auto simp: token_day [OF assms] day_not_token [OF assms])

lemma dow_loop_item:
  assumes "day_item_ok i"
  shows "\<exists>p. dow_loop val prev DOW_EOF (item_text i @ r) \<longleftrightarrow> val \<in> item_days i \<or> dow_loop val p DOW_EOF r"
proof (cases i)
  case (One_day d s)
  then show ?thesis using assms by (auto simp: dow_loop_day)
next
  case (Day_range a s b t)
  then show ?thesis using assms day_not_token(1) [of s a] by (auto simp: dow_loop_day)
qed

lemma dow_loop_items:
  assumes "list_all day_item_ok is"
  shows "dow_loop val prev DOW_EOF (items_text is) \<longleftrightarrow> (\<exists>i\<in>set is. val \<in> item_days i)"
  using assms
proof (induction "is" arbitrary: prev rule: items_text.induct)
  case 1
  then show ?case by simp
next
  case (2 i)
  then show ?case using dow_loop_item [of i val prev "[]"] by simp
next
  case (3 i j "is")
  from 3 dow_loop_item [of i val prev "CHR '','' # items_text (j # is)"] show ?case by simp
qed

section \<open>Number expressions\<close>

lemma decimal_no [simp]: "\<not> is_digit c \<Longrightarrow> c \<notin> set (decimal n)"
  using decimal_digits [of n] by (auto simp: list_all_iff)

lemma separator_no_digit [simp]:
  "\<not> is_digit CHR ''-''" "\<not> is_digit CHR '',''" "\<not> is_digit CHR '':''" "\<not> is_digit CHR '' ''" "\<not> is_digit CHR ''~''"
  by (simp_all add: is_digit_def char_code_def)

lemma atol_decimal [simp]:
  "atol (decimal n) = int n" "\<not> is_digit c \<Longrightarrow> atol (decimal n @ c # r) = int n"
  using atoi_decimal [of "[]" n] atoi_decimal [of "c # r" n] by (simp_all add: atol_def)

text \<open>Where no element is empty the scan stays inside the string and ends.\<close>

lemma last_after:
  assumes "after c s = Some t" and "last s \<noteq> c"
  shows "t \<noteq> [] \<and> last t = last s"
  using after_suffix [OF assms(1)] assms(2) by auto

lemma number_list_total:
  assumes "\<And>q. p = Some q \<Longrightarrow> q \<noteq> [] \<and> last q \<noteq> CHR '',''"
  shows "\<exists>b. number_list val cur p = Inr b"
  using assms
proof (induction val cur p rule: number_list.induct)
  case (1 val cur p)
  show ?case
  proof (cases "atol cur = val \<or> p = None")
    case True
    then show ?thesis by (subst number_list.simps) auto
  next
    case False
    then obtain x t where p: "p = Some (x # t)" using 1(2) by (metis list.exhaust not_None_eq)
    have "q \<noteq> [] \<and> last q \<noteq> CHR '',''" if "after CHR '','' t = Some q" for q
    proof (cases t)
      case Nil
      then show ?thesis using that by simp
    next
      case (Cons y u)
      then have "last t \<noteq> CHR '',''" using 1(2) [OF p] by simp
      then show ?thesis using last_after [OF that] by simp
    qed
    then have "\<exists>b. number_list val (x # t) (after CHR '','' t) = Inr b" using False p 1(1) by simp
    then show ?thesis using False p by (subst number_list.simps) simp
  qed
qed

lemma number_cmp_total:
  assumes "exp = [] \<or> last exp \<noteq> CHR '',''"
  shows "\<exists>b. switch_number_cmp exp val = Inr b"
proof (cases "after CHR ''-'' exp = None \<and> after CHR '','' exp \<noteq> None")
  case True
  then obtain p where p: "after CHR '','' exp = Some p" by blast
  then have "exp \<noteq> []" by auto
  with assms have "p \<noteq> [] \<and> last p \<noteq> CHR '',''" using last_after [OF p] by simp
  then show ?thesis using True p number_list_total [of "Some p"] by (simp add: switch_number_cmp_def)
next
  case False
  then show ?thesis by (auto simp: switch_number_cmp_def Let_def split: option.splits)
qed

fun numbers_text :: "nat list \<Rightarrow> string" where
  "numbers_text [] = []"
| "numbers_text [n] = decimal n"
| "numbers_text (n # m # ns) = decimal n @ CHR '','' # numbers_text (m # ns)"

lemma numbers_no_hyphen [simp]: "CHR ''-'' \<notin> set (numbers_text ns)"
  by (induction ns rule: numbers_text.induct) simp_all

lemma numbers_first: "ns \<noteq> [] \<Longrightarrow> \<exists>x t. numbers_text ns = x # t \<and> is_digit x"
proof (induction ns rule: numbers_text.induct)
  case (2 n)
  then show ?case using decimal_digits [of n] decimal_nonempty [of n] by (cases "decimal n") simp_all
next
  case (3 n m ns)
  then show ?case using decimal_digits [of n] decimal_nonempty [of n] by (cases "decimal n") simp_all
qed simp

text \<open>\<open>tail\<close> is what follows the last number: nothing, or a comma without a number.\<close>

lemma number_list_elements:
  assumes "ns \<noteq> []" and "tail = [] \<or> tail = '',''"
  shows "number_list val (numbers_text ns @ tail) (after CHR '','' (numbers_text ns @ tail)) =
    (if val \<in> int ` set ns then Inr True else if tail = [] then Inr False else Inl Out_of_bounds)"
  using assms(1)
proof (induction ns rule: numbers_text.induct)
  case (2 n)
  have "atol (numbers_text [n] @ tail) = int n" using assms(2) by auto
  then show ?case using assms(2) by (subst number_list.simps) auto
next
  case (3 n m ns)
  have "m # ns \<noteq> []" by simp
  from numbers_first [OF this] obtain x t where x: "numbers_text (m # ns) = x # t" "is_digit x" by blast
  then have "x \<noteq> CHR '',''" by auto
  then have a: "after CHR '','' (numbers_text (m # ns) @ tail) = after CHR '','' (t @ tail)" by (simp add: x)
  show ?case
    by (subst number_list.simps) (use "3.IH" a x(1) in \<open>auto simp: image_iff\<close>)
qed simp


lemma number_cmp_skips_after_empty: "switch_number_cmp ''1,,2'' 2 = Inr False"
  by (simp add: switch_number_cmp_def number_list.simps atol_def atoi_def is_space_def is_digit_def char_code_def digit_val_def)

lemma dow_cmp_stale_range: "switch_dow_cmp ''1-,3'' 2"
  by (simp add: switch_dow_cmp_def dow_loop.simps [of _ _ _ "_ # _"] dow_read_token_def dow_tokens char_code_def)

section \<open>Times of day\<close>

text \<open>A number written with leading zeros up to a width.\<close>

definition padded :: "nat \<Rightarrow> nat \<Rightarrow> string" where
  "padded w n = replicate (w - length (decimal n)) CHR ''0'' @ decimal n"

lemma padded_no [simp]: "\<not> is_digit c \<Longrightarrow> c \<notin> set (padded w n)"
  by (auto simp: padded_def is_digit_def char_code_def)

lemma digits_val_zeros: "digits_val 0 (replicate k CHR ''0'' @ s) = digits_val 0 s"
  by (induction k) (simp_all add: is_digit_def digit_val_def char_code_def)

lemma atoi_digits: "s \<noteq> [] \<Longrightarrow> is_digit (hd s) \<Longrightarrow> atoi s = digits_val 0 s"
  by (cases s) (auto simp: atoi_def is_space_def is_digit_def char_code_def)

lemma atol_padded [simp]:
  "atol (padded w n) = int n" "\<not> is_digit c \<Longrightarrow> atol (padded w n @ c # r) = int n"
proof -
  have p: "atol (padded w n @ r) = int n" if r: "r = [] \<or> \<not> is_digit (hd r)" for r
  proof -
    let ?z = "replicate (w - length (decimal n)) CHR ''0''"
    have h: "decimal n @ r \<noteq> []" "is_digit (hd (decimal n @ r))"
      using decimal_digits [of n] decimal_nonempty [of n] by (cases "decimal n"; simp)+
    have z: "?z @ decimal n @ r \<noteq> []" "is_digit (hd (?z @ decimal n @ r))"
      using h by (cases "w - length (decimal n)"; simp add: is_digit_def char_code_def)+
    have "atoi (?z @ decimal n @ r) = atoi (decimal n @ r)"
      unfolding atoi_digits [OF z] atoi_digits [OF h] by (rule digits_val_zeros)
    then show ?thesis using atoi_decimal [OF r, of n] by (simp add: padded_def atol_def)
  qed
  show "atol (padded w n) = int n" using p [of "[]"] by simp
  show "\<not> is_digit c \<Longrightarrow> atol (padded w n @ c # r) = int n" using p [of "c # r"] by simp
qed

fun time_text :: "nat \<Rightarrow> nat \<times> nat \<times> nat option \<Rightarrow> string" where
  "time_text w (h, m, None) = padded w h @ CHR '':'' # padded w m"
| "time_text w (h, m, Some s) = padded w h @ CHR '':'' # padded w m @ CHR '':'' # padded w s"


lemma atol_zeros [simp]: "atol ''00'' = 0"
  by (simp add: atol_def atoi_def is_space_def is_digit_def char_code_def digit_val_def)


section \<open>Date windows\<close>

fun date_text :: "nat \<Rightarrow> nat \<times> nat \<times> nat \<Rightarrow> string" where
  "date_text w (y, m, d) = padded w y @ CHR ''-'' # padded w m @ CHR ''-'' # padded w d"






lemma stamp_parts [simp]:
  "CHR '' '' \<notin> set (date_text w d)" "CHR ''~'' \<notin> set (date_text w d)" "CHR ''~'' \<notin> set (time_text w t)"
  by (cases d; cases "(w, t)" rule: time_text.cases; simp)+



section \<open>The week of the month\<close>

lemma smod_seven:
  assumes "-7 < (k :: int)" and "k < 31"
  shows "(7 - k smod 7) smod 7 = (- k) mod 7"
proof -
  have "\<forall>k\<in>set [-6..30]. (7 - k smod 7) smod 7 = (- k) mod (7 :: int)"
    by (simp add: upto_rec1 signed_modulo_int_def)
  moreover have "k \<in> set [-6..30]" using assms unfolding set_upto atLeastAtMost_iff by linarith
  ultimately show ?thesis by (rule bspec)
qed

lemma month_week_eq:
  assumes "1 \<le> tm_mday tm" and "tm_mday tm \<le> 31" and "0 \<le> tm_wday tm" and "tm_wday tm \<le> 6"
  shows "month_week tm = (tm_mday tm + (tm_wday tm + 1 - tm_mday tm) mod 7 + 6) div 7"
proof -
  have "(7 - (tm_mday tm - (tm_wday tm + 1)) smod 7) smod 7 = (- (tm_mday tm - (tm_wday tm + 1))) mod 7"
    by (rule smod_seven) (use assms in linarith)+
  then show ?thesis by (simp add: month_week_def Let_def)
qed

section \<open>Conditions as conjunctions\<close>

lemma run_checks_Nil [simp]: "run_checks [] m = Inr m"
  by (simp add: run_checks_def)

lemma foldl_checks_fault [simp]: "foldl (\<lambda>r (x, f). fbind r (check_attr x f)) (Inl e) cs = Inl e"
  by (induction cs) auto

lemma run_checks_Cons: "run_checks ((x, f) # cs) m = fbind (check_attr x f m) (run_checks cs)"
  by (cases "check_attr x f m") (simp_all add: run_checks_def)

text \<open>Once a check has failed the rest is skipped.\<close>

lemma run_checks_zero [simp]: "run_checks cs 0 = Inr 0"
proof (induction cs)
  case (Cons c cs)
  obtain x f where c: "c = (x, f)" by (cases c)
  show ?case by (cases x) (simp_all add: c run_checks_Cons check_attr_def Cons.IH)
qed simp




section \<open>The properties\<close>

text \<open>a day-of-week expression made of days and ranges of days, written as digits or as names in any case and separated by commas, matches exactly the days it names; a range that wraps around the week matches its first day only.\<close>

theorem dow_cmp_days:
  assumes "list_all day_item_ok is"
  shows "switch_dow_cmp (items_text is) val \<longleftrightarrow> (\<exists>i\<in>set is. val \<in> item_days i)"
  unfolding switch_dow_cmp_def by (rule dow_loop_items [OF assms])

theorem dow_cmp_days_witness:
  "switch_dow_cmp ''MON-3,7'' 3 \<and> \<not> switch_dow_cmp ''MON-3,7'' 6"
proof -
  have "list_all day_item_ok [Day_range 2 ''MON'' 3 ''3'', One_day 7 ''7'']"
    by (simp add: day_text_def switch_dow_str2int_def DOW_def strncasecmp_eq_def strcasecmp_eq_def char_byte_def ascii_lower_def char_of_def bit_Suc_0_iff)
  from dow_cmp_days [OF this, of 3] dow_cmp_days [OF this, of 6] show ?thesis by simp
qed

text \<open>a comma separated list of numbers matches exactly its members; when the list ends in a comma, a value that is no member makes the matcher read past the end of the expression.\<close>

theorem number_cmp_list:
  assumes "ns \<noteq> []" and "tail = [] \<or> tail = '',''"
  shows "switch_number_cmp (numbers_text ns @ tail) val =
    (if val \<in> int ` set ns then Inr True else if tail = [] then Inr False else Inl Out_of_bounds)"
proof (cases "after CHR '','' (numbers_text ns @ tail)")
  case None
  have h: "after CHR ''-'' (numbers_text ns @ tail) = None" using assms(2) by auto
  have c: "CHR '','' \<notin> set (numbers_text ns @ tail)"
  proof
    assume "CHR '','' \<in> set (numbers_text ns @ tail)"
    then obtain u w where "numbers_text ns @ tail = u @ CHR '','' # w" and "CHR '','' \<notin> set u" by (meson split_list_first)
    with None show False by simp
  qed
  then have t: "tail = []" using assms(2) by auto
  from c assms(1) obtain n where "ns = [n]" by (cases ns rule: numbers_text.cases) auto
  with None h t show ?thesis by (auto simp: switch_number_cmp_def)
next
  case (Some p)
  have "after CHR ''-'' (numbers_text ns @ tail) = None" using assms(2) by auto
  with Some number_list_elements [OF assms, of val] show ?thesis by (simp add: switch_number_cmp_def)
qed

theorem number_cmp_list_witness:
  "switch_number_cmp (numbers_text [1, 5] @ '','') 5 = Inr True \<and> switch_number_cmp (numbers_text [1, 5] @ '','') 7 = Inl Out_of_bounds"
  using number_cmp_list [of "[1, 5]" "'',''" 5] number_cmp_list [of "[1, 5]" "'',''" 7] by simp

section \<open>Conditions and what they say\<close>

































text \<open>A condition with a \<open>dst\<close> attribute that is not true never matches, also when no daylight saving time is in force.\<close>

theorem dst_false_never_matches:
  assumes "attr ''dst'' = Some e" and "e \<noteq> []" and "\<not> switch_true (Some e)"
  shows "switch_xml_std_datetime_check E attr offset tzname = Inr 0"
proof -
  have z: "\<not> zstr (Some e)" using assms(2) by (simp add: zstr_def)
  show ?thesis
    by (cases "attr ''tz-offset''")
      (simp_all add: switch_xml_std_datetime_check_def zone_checks_def Let_def run_checks_Cons check_attr_def assms(1,3) z int_of_bool_def)
qed

text \<open>The week of the month starts at 1 on the first of the month and grows by one exactly after each Saturday.\<close>

theorem month_week_counts:
  assumes "1 \<le> tm_mday tm" and "tm_mday tm \<le> 30" and "0 \<le> tm_wday tm" and "tm_wday tm \<le> 6"
  shows "(tm_mday tm = 1 \<longrightarrow> month_week tm = 1) \<and>
    month_week (tm\<lparr>tm_mday := tm_mday tm + 1, tm_wday := (tm_wday tm + 1) mod 7\<rparr>) = month_week tm + (if tm_wday tm = 6 then 1 else 0)"
proof -
  let ?d = "tm_mday tm" and ?w = "tm_wday tm"
  define r where "r = (?w + 1 - ?d) mod 7"
  have r: "0 \<le> r" "r < 7" by (simp_all add: r_def)
  have m: "month_week tm = (?d + r + 6) div 7" using month_week_eq [of tm] assms by (simp add: r_def)
  have "((?w + 1) mod 7 + 1 - (?d + 1)) mod 7 = r"
    unfolding r_def by (simp add: mod_simps algebra_simps)
  then have n: "month_week (tm\<lparr>tm_mday := ?d + 1, tm_wday := (?w + 1) mod 7\<rparr>) = (?d + r + 7) div 7"
    using month_week_eq [of "tm\<lparr>tm_mday := ?d + 1, tm_wday := (?w + 1) mod 7\<rparr>"] assms by (simp add: algebra_simps)
  define q where "q = (?w + 1 - ?d) div 7"
  have q: "?w + 1 - ?d = 7 * q + r" unfolding q_def r_def by simp
  have s: "?d + r = ?w + 1 - 7 * q" using q by simp
  have weeks: "(w + 1 - 7 * q + 6) div 7 = 1 - q \<and> (w + 1 - 7 * q + 7) div 7 = (if w = 6 then 2 - q else 1 - q)"
    if "0 \<le> w" "w \<le> 6" for w :: int
  proof -
    have "(w + 1 - 7 * q + 6) div 7 = (w + (1 - q) * 7) div 7" "(w + 1 - 7 * q + 7) div 7 = (w + 1 + (1 - q) * 7) div 7"
      by (simp_all add: algebra_simps)
    moreover have "w div 7 = 0" "(w + 1) div 7 = (if w = 6 then 1 else 0)" using that by auto
    ultimately show ?thesis by (simp only: div_mult_self1 zero_neq_numeral not_False_eq_True) simp
  qed
  have "q = 0" if "?d = 1"
  proof -
    have "7 * q < 7" "-7 < 7 * q" using that s r assms by linarith+
    then show ?thesis by simp
  qed
  then show ?thesis unfolding m n s using weeks [OF assms(3,4)] by auto
qed

text \<open>The two day tables are off by one against each other.\<close>

lemma dow_int2str_shifted: "switch_dow_str2int ''sun'' = 1 \<and> switch_dow_int2str 1 = ''mon''"
  by (simp add: switch_dow_int2str_def DOW_def switch_dow_str2int_def strncasecmp_eq_def Let_def)

end
