(* ===== verification/String_Safety.thy ===== *)
theory String_Safety
  imports Time_Conditions
begin

text \<open>
  The routines that make a text from outside harmless before the switch uses it
  (src/include/switch\_utils.h and src/switch\_utils.c): disarming variable references, removing
  control characters, cleaning names and numbers, recognising escapes, and quoting an argument for
  the shell. The lemmas show what a cleaned string cannot contain any more, and that a POSIX shell
  reads a quoted argument back as the string that was quoted.
\<close>

section \<open>Variable references\<close>

text \<open>
  The scan of \<open>switch_string_var_check\<close> over the buffer \<open>s\<close> from index \<open>p\<close>; \<open>dol\<close> is the index of
  the last dollar sign that only backslashes separate from \<open>p\<close>.
\<close>

function var_scan :: "bool \<Rightarrow> string \<Rightarrow> nat \<Rightarrow> nat option \<Rightarrow> bool \<times> string" where
  "var_scan disable s p dol =
     (if p < length s then
        if s ! p = CHR ''$'' then var_scan disable s (p + 1) (Some p)
        else (case dol of
                None \<Rightarrow> var_scan disable s (p + 1) None
              | Some d \<Rightarrow>
                  if s ! p = CHR ''{'' then
                    (if disable then var_scan disable (s[d := CHR ''%'']) (p + 1) None else (True, s))
                  else if s ! p \<noteq> CHR 0x5C then var_scan disable s (p + 1) None
                  else var_scan disable s (p + 1) dol)
      else (False, s))"
  by pat_completeness auto
termination
  by (relation "measure (\<lambda>(disable, s, p, dol). length s - p)") auto

declare var_scan.simps [simp del]

definition switch_string_var_check :: "string \<Rightarrow> bool \<Rightarrow> bool \<times> string" where
  "switch_string_var_check s disable = var_scan disable s 0 None"

fun var_scan_const :: "bool \<Rightarrow> string \<Rightarrow> bool" where
  "var_scan_const dol [] = False"
| "var_scan_const dol (c # cs) =
     (if c = CHR ''$'' then var_scan_const True cs
      else if dol then
        (if c = CHR ''{'' then True else if c \<noteq> CHR 0x5C then var_scan_const False cs else var_scan_const True cs)
      else var_scan_const False cs)"

definition switch_string_var_check_const :: "string \<Rightarrow> bool" where
  "switch_string_var_check_const s = var_scan_const False s"

definition switch_var_clean_string :: "string \<Rightarrow> string" where
  "switch_var_clean_string s = snd (switch_string_var_check s True)"

section \<open>Control characters, names, numbers\<close>

definition clean_char :: "char \<Rightarrow> char" where
  "clean_char c =
     (let x = (of_char c :: nat) in if x < 32 \<and> c \<noteq> CHR 0x0A \<and> c \<noteq> CHR 0x0D then CHR '' '' else c)"

definition switch_clean_string :: "string \<Rightarrow> string" where
  "switch_clean_string s = map clean_char s"

definition name_unsafe :: "char \<Rightarrow> bool" where
  "name_unsafe c \<longleftrightarrow> (of_char c :: nat) < 32 \<or>
     c = CHR 0x27 \<or> c = CHR 0x22 \<or> c = CHR ''<'' \<or> c = CHR ''>'' \<or> c = CHR 0x5C \<or> c = CHR '':'' \<or> c = CHR ''@'' \<or> c = CHR ''/''"

text \<open>\<open>lead\<close> says that \<open>p == s\<close>: the returned pointer has moved past every character so far.\<close>

fun clean_name :: "bool \<Rightarrow> string \<Rightarrow> string" where
  "clean_name lead [] = []"
| "clean_name lead (c # cs) =
     (let c = (if name_unsafe c then CHR '' '' else c)
      in if lead \<and> c = CHR '' '' then clean_name True cs else c # clean_name False cs)"

definition switch_clean_name_string :: "string \<Rightarrow> string" where
  "switch_clean_name_string s = clean_name True s"

text \<open>\<open>while ((q = strrchr(p, '@'))) *q = 0\<close>, and \<open>while ((q = strchr(p, c))) p = q + 1\<close>.\<close>

function cut_ats :: "string \<Rightarrow> string" where
  "cut_ats p = (if CHR ''@'' \<in> set p then cut_ats (butlast (rev (dropWhile (\<lambda>c. c \<noteq> CHR ''@'') (rev p)))) else p)"
  by pat_completeness auto
termination
proof (relation "measure length")
  fix p :: string assume p: "CHR ''@'' \<in> set p"
  let ?d = "dropWhile (\<lambda>c. c \<noteq> CHR ''@'') (rev p)"
  have "length ?d \<le> length p" using length_dropWhile_le [of "\<lambda>c. c \<noteq> CHR ''@''" "rev p"] by simp
  moreover have "0 < length p" using p by (cases p) auto
  ultimately have "length (butlast (rev ?d)) < length p" unfolding length_butlast length_rev by linarith
  then show "(butlast (rev ?d), p) \<in> measure length" by simp
qed simp

declare cut_ats.simps [simp del]

function skip_past :: "char \<Rightarrow> string \<Rightarrow> string" where
  "skip_past c p = (case after c p of None \<Rightarrow> p | Some q \<Rightarrow> skip_past c q)"
  by pat_completeness auto
termination
  by (relation "measure (\<lambda>(c, p). length p)") (auto dest: after_length)

declare skip_past.simps [simp del]

definition switch_sanitize_number :: "string \<Rightarrow> string" where
  "switch_sanitize_number number =
     (if CHR ''/'' \<notin> set number \<and> CHR '':'' \<notin> set number \<and> CHR ''@'' \<notin> set number then number
      else skip_past CHR '':'' (skip_past CHR ''/'' (cut_ats number)))"

section \<open>Escapes\<close>

text \<open>\<open>i\<close> is the text after a backslash; the terminating NUL is no escape.\<close>

function escape_scan :: "string option \<Rightarrow> bool" where
  "escape_scan None = False"
| "escape_scan (Some i) =
     (if i \<noteq> [] \<and> hd i \<in> {CHR 0x5C, CHR ''n'', CHR ''s'', CHR ''t'', CHR 0x27} then True
      else escape_scan (after CHR 0x5C i))"
  by pat_completeness auto
termination
  by (relation "measure (\<lambda>i. case i of None \<Rightarrow> 0 | Some s \<Rightarrow> Suc (length s))") (auto dest: after_length split: option.splits)

definition switch_string_has_escaped_data :: "string \<Rightarrow> bool" where
  "switch_string_has_escaped_data s = escape_scan (after CHR 0x5C s)"

section \<open>Strict search\<close>

text \<open>The result is the rest of the string from the found character on; at the end of the string it is the empty rest.\<close>

fun strict_loop :: "char \<Rightarrow> string option \<Rightarrow> string \<Rightarrow> string option" where
  "strict_loop f allowed [] = Some []"
| "strict_loop f allowed (c # cs) =
     (if c = f then Some (c # cs)
      else if (case allowed of None \<Rightarrow> True | Some a \<Rightarrow> c \<in> set a) then strict_loop f allowed cs
      else None)"

definition switch_strchr_strict :: "string \<Rightarrow> char \<Rightarrow> string option \<Rightarrow> string option" where
  "switch_strchr_strict s f allowed = (if s = [] then None else strict_loop f allowed s)"

section \<open>Shell arguments\<close>

definition quote_char :: "char \<Rightarrow> string" where
  "quote_char c = (if c = CHR 0x27 then [CHR 0x27, CHR 0x5C, CHR 0x27, CHR 0x27] else [c])"

definition quote_len :: "string \<Rightarrow> nat" where
  "quote_len s = length s + 1 + 1 + 3 * length (filter (\<lambda>c. c = CHR 0x27) s) + 1"

text \<open>The final assertion compares the characters written, with the NUL, to the size computed first.\<close>

definition switch_util_quote_shell_arg_pool :: "string \<Rightarrow> fault + string" where
  "switch_util_quote_shell_arg_pool s =
     (let dest = CHR 0x27 # concat (map quote_char s) @ [CHR 0x27]
      in if length dest + 1 = quote_len s then Inr dest else Inl Assert_failed)"

definition switch_util_quote_shell_arg :: "string \<Rightarrow> fault + string" where
  "switch_util_quote_shell_arg s = switch_util_quote_shell_arg_pool s"

section \<open>Disarmed references\<close>

text \<open>The automaton of the checks: \<open>None\<close> once a reference was seen, else whether a dollar sign is pending.\<close>

definition var_step :: "char \<Rightarrow> bool \<Rightarrow> bool option" where
  "var_step c dol =
     (if c = CHR ''$'' then Some True
      else if dol then (if c = CHR ''{'' then None else Some (c = CHR 0x5C)) else Some False)"

fun var_run :: "bool \<Rightarrow> string \<Rightarrow> bool option" where
  "var_run dol [] = Some dol"
| "var_run dol (c # cs) = (case var_step c dol of None \<Rightarrow> None | Some d \<Rightarrow> var_run d cs)"

lemma var_run_append: "var_run d (a @ b) = (case var_run d a of None \<Rightarrow> None | Some e \<Rightarrow> var_run e b)"
  by (induction a arbitrary: d) (auto split: option.splits)

lemma var_scan_const_run: "var_scan_const d s \<longleftrightarrow> var_run d s = None"
  by (induction d s rule: var_scan_const.induct) (auto simp: var_step_def)

lemma var_run_backslashes: "list_all (\<lambda>c. c = CHR 0x5C) bs \<Longrightarrow> var_run d bs = Some d"
  by (induction bs arbitrary: d) (auto simp: var_step_def)

text \<open>What the in-place scan knows of the part of the buffer behind it.\<close>

definition scanned :: "string \<Rightarrow> nat \<Rightarrow> nat option \<Rightarrow> bool" where
  "scanned s p dol \<longleftrightarrow> p \<le> length s \<and> var_run False (take p s) = Some (dol \<noteq> None) \<and>
     (\<forall>d. dol = Some d \<longrightarrow>
        (\<exists>a bs. take p s = a @ CHR ''$'' # bs \<and> length a = d \<and> list_all (\<lambda>c. c = CHR 0x5C) bs \<and> var_run False a \<noteq> None))"

lemma scanned_next:
  assumes "scanned s p dol" and "p < length s"
  shows "s ! p = CHR ''$'' \<Longrightarrow> scanned s (p + 1) (Some p)"
    and "s ! p \<noteq> CHR ''$'' \<Longrightarrow> dol = None \<Longrightarrow> scanned s (p + 1) None"
    and "s ! p \<noteq> CHR ''$'' \<Longrightarrow> s ! p \<noteq> CHR ''{'' \<Longrightarrow> s ! p \<noteq> CHR 0x5C \<Longrightarrow> scanned s (p + 1) None"
    and "s ! p = CHR 0x5C \<Longrightarrow> scanned s (p + 1) dol"
proof -
  have t: "take (Suc p) s = take p s @ [s ! p]" using assms(2) by (simp add: take_Suc_conv_app_nth)
  have r: "var_run False (take p s) = Some (dol \<noteq> None)" using assms(1) by (simp add: scanned_def)
  show "s ! p = CHR ''$'' \<Longrightarrow> scanned s (p + 1) (Some p)"
  proof -
    assume d: "s ! p = CHR ''$''"
    then have "\<exists>a bs. take (Suc p) s = a @ CHR ''$'' # bs \<and> length a = p \<and> list_all (\<lambda>c. c = CHR 0x5C) bs \<and> var_run False a \<noteq> None"
      using assms(2) r by (intro exI [of _ "take p s"] exI [of _ "[]"]) (simp add: t)
    then show ?thesis using assms(2) r d by (simp add: scanned_def t var_run_append var_step_def)
  qed
  show "s ! p \<noteq> CHR ''$'' \<Longrightarrow> dol = None \<Longrightarrow> scanned s (p + 1) None"
    "s ! p \<noteq> CHR ''$'' \<Longrightarrow> s ! p \<noteq> CHR ''{'' \<Longrightarrow> s ! p \<noteq> CHR 0x5C \<Longrightarrow> scanned s (p + 1) None"
    using assms(2) r by (simp_all add: scanned_def t var_run_append var_step_def)
  assume b: "s ! p = CHR 0x5C"
  show "scanned s (p + 1) dol"
  proof (cases dol)
    case None
    then show ?thesis using assms(2) r b by (simp add: scanned_def t var_run_append var_step_def)
  next
    case (Some d)
    then obtain a bs where "take p s = a @ CHR ''$'' # bs" "length a = d" "list_all (\<lambda>c. c = CHR 0x5C) bs" "var_run False a \<noteq> None"
      using assms(1) by (auto simp: scanned_def)
    then have "\<exists>a bs. take (p + 1) s = a @ CHR ''$'' # bs \<and> length a = d \<and> list_all (\<lambda>c. c = CHR 0x5C) bs \<and> var_run False a \<noteq> None"
      using b by (intro exI [of _ a] exI [of _ "bs @ [CHR 0x5C]"]) (simp add: t)
    then show ?thesis using assms(2) r b Some by (simp add: scanned_def t var_run_append var_step_def)
  qed
qed

text \<open>Overwriting the pending dollar sign disarms the reference the brace would complete.\<close>

lemma scanned_disarm:
  assumes "scanned s p (Some d)" and "p < length s" and "s ! p = CHR ''{''"
  shows "scanned (s[d := CHR ''%'']) (p + 1) None"
proof -
  obtain a bs where a: "take p s = a @ CHR ''$'' # bs" "length a = d" "list_all (\<lambda>c. c = CHR 0x5C) bs" "var_run False a \<noteq> None"
    using assms(1) by (auto simp: scanned_def)
  have t: "take (p + 1) s = a @ CHR ''$'' # bs @ [CHR ''{'']" using assms(2,3) a(1) by (simp add: take_Suc_conv_app_nth)
  have "take (p + 1) (s[d := CHR ''%'']) = (take (p + 1) s)[d := CHR ''%'']" by (rule take_update_swap)
  also have "\<dots> = a @ CHR ''%'' # bs @ [CHR ''{'']" using a(2) by (simp only: t) (simp add: list_update_append)
  finally have u: "take (p + 1) (s[d := CHR ''%'']) = a @ CHR ''%'' # bs @ [CHR ''{'']" .
  obtain e where e: "var_run False a = Some e" using a(4) by blast
  have "var_run False (take (p + 1) (s[d := CHR ''%''])) = Some False"
    unfolding u var_run_append e using a(3) by (simp add: var_run_append var_step_def var_run_backslashes)
  then show ?thesis using assms(2) by (simp add: scanned_def)
qed

lemma var_scan_disarms: "scanned s p dol \<Longrightarrow> var_run False (snd (var_scan True s p dol)) \<noteq> None"
proof (induction "length s - p" arbitrary: s p dol)
  case 0
  then have "p = length s" by (simp add: scanned_def)
  then show ?case using 0(2) by (subst var_scan.simps) (simp add: scanned_def)
next
  case (Suc n)
  then have p: "p < length s" by simp
  have n: "n = length s' - (p + 1)" if "length s' = length s" for s' :: string using Suc.hyps(2) that by simp
  note IH = Suc.hyps(1) [OF n]
  note next_ok = scanned_next [OF Suc.prems p]
  show ?case
  proof (cases "s ! p = CHR ''$''")
    case True
    then show ?thesis using IH [OF refl next_ok(1)] p by (subst var_scan.simps) simp
  next
    case nd: False
    show ?thesis
    proof (cases dol)
      case None
      then show ?thesis using IH [OF refl next_ok(2) [OF nd]] nd p by (subst var_scan.simps) simp
    next
      case (Some d)
      consider "s ! p = CHR ''{''" | "s ! p = CHR 0x5C" | "s ! p \<noteq> CHR ''{''" "s ! p \<noteq> CHR 0x5C" by blast
      then show ?thesis
      proof cases
        case 1
        then show ?thesis using IH [OF _ scanned_disarm [OF Suc.prems [unfolded Some] p]] p Some by (subst var_scan.simps) simp
      next
        case 2
        then show ?thesis using IH [OF refl next_ok(4)] p Some by (subst var_scan.simps) simp
      next
        case 3
        then show ?thesis using IH [OF refl next_ok(3) [OF nd]] nd p Some by (subst var_scan.simps) simp
      qed
    qed
  qed
qed

lemma var_scan_const_equiv: "var_scan False s p dol = (var_scan_const (dol \<noteq> None) (drop p s), s)"
proof (induction False s p dol rule: var_scan.induct)
  case (1 s p dol)
  show ?case
  proof (cases "p < length s")
    case True
    then have d: "drop p s = s ! p # drop (Suc p) s" by (simp add: Cons_nth_drop_Suc)
    show ?thesis unfolding d using 1 True by (subst var_scan.simps) (auto split: option.splits)
  next
    case False
    then show ?thesis by (subst var_scan.simps) simp
  qed
qed

definition disarmed :: "char \<Rightarrow> char \<Rightarrow> bool" where
  "disarmed a b \<longleftrightarrow> b = a \<or> (a = CHR ''$'' \<and> b = CHR ''%'')"

lemma list_all2_update_nth:
  assumes "list_all2 P xs ys" and "d < length xs" and "P (xs ! d) v"
  shows "list_all2 P xs (ys[d := v])"
  using assms by (auto simp: list_all2_conv_all_nth nth_list_update)

lemma var_scan_changes:
  "list_all2 disarmed s0 s \<Longrightarrow> (\<forall>d. dol = Some d \<longrightarrow> d < length s0 \<and> s0 ! d = CHR ''$'') \<Longrightarrow>
   list_all2 disarmed s0 (snd (var_scan True s p dol))"
proof (induction True s p dol rule: var_scan.induct)
  case (1 s p dol)
  have len: "length s = length s0" using 1(6) by (simp add: list_all2_lengthD)
  have dollar: "s0 ! p = CHR ''$''" if "p < length s" "s ! p = CHR ''$''"
    using list_all2_nthD [OF 1(6), of p] that len by (auto simp: disarmed_def)
  show ?case
  proof (cases "p < length s")
    case True
    show ?thesis
    proof (cases "s ! p = CHR ''$''")
      case t: True
      then show ?thesis using 1(1) [OF True t 1(6)] dollar [OF True t] True len by (subst var_scan.simps) simp
    next
      case nd: False
      show ?thesis
      proof (cases dol)
        case None
        then show ?thesis using 1(2) [OF True nd None 1(6)] True nd by (subst var_scan.simps) simp
      next
        case (Some d)
        then have d: "d < length s0" "s0 ! d = CHR ''$''" using 1(7) by auto
        have u: "list_all2 disarmed s0 (s[d := CHR ''%''])"
          by (rule list_all2_update_nth [OF 1(6) d(1)]) (simp add: disarmed_def d(2))
        show ?thesis
          using 1(3) [OF True nd Some _ TrueI u] 1(4) [OF True nd Some _ _ 1(6)] 1(5) [OF True nd Some _ _ 1(6)] True nd Some d
          by (subst var_scan.simps) auto
      qed
    qed
  next
    case False
    then show ?thesis using 1(6) by (subst var_scan.simps) simp
  qed
qed

section \<open>Names and numbers\<close>

lemma clean_name_eq:
  "clean_name lead s = (let t = map (\<lambda>c. if name_unsafe c then CHR '' '' else c) s in if lead then dropWhile (\<lambda>c. c = CHR '' '') t else t)"
  by (induction lead s rule: clean_name.induct) (simp_all add: Let_def)

lemma space_not_unsafe [simp]: "\<not> name_unsafe CHR '' ''"
  by (simp add: name_unsafe_def)

lemma cut_ats_no_at: "CHR ''@'' \<notin> set (cut_ats p)"
proof (induction p rule: cut_ats.induct)
  case (1 p)
  then show ?case by (subst cut_ats.simps) simp
qed

lemma cut_ats_subset: "set (cut_ats p) \<subseteq> set p"
proof (induction p rule: cut_ats.induct)
  case (1 p)
  show ?case
  proof (cases "CHR ''@'' \<in> set p")
    case True
    let ?q = "butlast (rev (dropWhile (\<lambda>c. c \<noteq> CHR ''@'') (rev p)))"
    have "x \<in> set p" if "x \<in> set ?q" for x
      using set_dropWhileD [of x _ "rev p"] in_set_butlastD [OF that] by (simp only: set_rev)
    then have "set ?q \<subseteq> set p" by blast
    then show ?thesis using 1 True by (subst cut_ats.simps) auto
  next
    case False
    then show ?thesis by (subst cut_ats.simps) simp
  qed
qed

lemma skip_past_gone: "c \<notin> set (skip_past c p)"
proof (induction c p rule: skip_past.induct)
  case (1 c p)
  show ?case
  proof (cases "after c p")
    case None
    then have "c \<notin> set p" by (metis after_Cons after_append option.distinct(1) split_list_first)
    then show ?thesis using None by (subst skip_past.simps) simp
  next
    case (Some q)
    then show ?thesis using 1 by (subst skip_past.simps) simp
  qed
qed

lemma skip_past_subset: "set (skip_past c p) \<subseteq> set p"
proof (induction c p rule: skip_past.induct)
  case (1 c p)
  show ?case
  proof (cases "after c p")
    case None
    then show ?thesis by (subst skip_past.simps) simp
  next
    case (Some q)
    then have "set q \<subseteq> set p" using after_suffix by fastforce
    then show ?thesis using 1 Some by (subst skip_past.simps) auto
  qed
qed

section \<open>Quoting\<close>

text \<open>
  How a POSIX shell reads one word: between single quotes every character stands for itself, a
  backslash outside of them quotes the next character, and a character that would end the word or
  start an expansion there makes it no plain word.
\<close>

definition shell_special :: "char \<Rightarrow> bool" where
  "shell_special c \<longleftrightarrow> c \<in> set ''|&;<>()$`*?[]#~=%!{} '' \<or> c \<in> {CHR 0x22, CHR 0x09, CHR 0x0A}"

fun shell_read :: "bool \<Rightarrow> string \<Rightarrow> string option" where
  "shell_read False [] = Some []"
| "shell_read True [] = None"
| "shell_read True (c # cs) = (if c = CHR 0x27 then shell_read False cs else map_option (Cons c) (shell_read True cs))"
| "shell_read False [c] = (if c = CHR 0x27 \<or> c = CHR 0x5C \<or> shell_special c then None else Some [c])"
| "shell_read False (c # d # cs) =
     (if c = CHR 0x27 then shell_read True (d # cs)
      else if c = CHR 0x5C then map_option (Cons d) (shell_read False cs)
      else if shell_special c then None
      else map_option (Cons c) (shell_read False (d # cs)))"

lemma shell_read_open: "shell_read False (CHR 0x27 # cs) = shell_read True cs"
  by (cases cs) simp_all

lemma shell_read_quoted:
  "shell_read True (concat (map quote_char s) @ CHR 0x27 # rest) = map_option (append s) (shell_read False rest)"
proof (induction s)
  case Nil
  show ?case by (simp add: option.map_id0 [unfolded id_def])
next
  case (Cons c s)
  then show ?case by (simp add: quote_char_def shell_read_open option.map_comp o_def)
qed

lemma quote_length: "length (concat (map quote_char s)) = length s + 3 * length (filter (\<lambda>c. c = CHR 0x27) s)"
  by (induction s) (simp_all add: quote_char_def)

lemma var_clean_safe: "\<not> switch_string_var_check_const (switch_var_clean_string s)"
proof -
  have "scanned s 0 None" by (simp add: scanned_def)
  then show ?thesis
    using var_scan_disarms by (simp add: switch_string_var_check_const_def switch_var_clean_string_def switch_string_var_check_def var_scan_const_run)
qed

section \<open>The properties\<close>

text \<open>cleaning a string leaves no variable reference the check would find, changes nothing but dollar signs, which become percent signs, and the two checks agree.\<close>

theorem var_clean_disarms:
  "\<not> switch_string_var_check_const (switch_var_clean_string s) \<and>
   list_all2 disarmed s (switch_var_clean_string s) \<and>
   switch_string_var_check s False = (switch_string_var_check_const s, s)"
proof (intro conjI)
  show "\<not> switch_string_var_check_const (switch_var_clean_string s)" by (rule var_clean_safe)
  show "list_all2 disarmed s (switch_var_clean_string s)"
    unfolding switch_var_clean_string_def switch_string_var_check_def
    by (rule var_scan_changes) (simp_all add: list_all2_refl disarmed_def)
  show "switch_string_var_check s False = (switch_string_var_check_const s, s)"
    by (simp add: switch_string_var_check_def switch_string_var_check_const_def var_scan_const_equiv)
qed

text \<open>C29: quoting never fails its size assertion, and a POSIX shell that meets the quoted argument reads exactly the original string, whatever follows it.\<close>

theorem shell_quote_reads_back:
  "\<exists>q. switch_util_quote_shell_arg s = Inr q \<and>
     (\<forall>rest. shell_read False (q @ rest) = map_option (append s) (shell_read False rest))"
proof -
  let ?q = "CHR 0x27 # concat (map quote_char s) @ [CHR 0x27]"
  have "switch_util_quote_shell_arg s = Inr ?q"
    by (simp add: switch_util_quote_shell_arg_def switch_util_quote_shell_arg_pool_def Let_def quote_length quote_len_def)
  moreover have "shell_read False (?q @ rest) = map_option (append s) (shell_read False rest)" for rest
    using shell_read_quoted [of s rest] by (simp add: shell_read_open)
  ultimately show ?thesis by blast
qed

text \<open>A sanitised number has no separator left, and a clean name neither a separator nor a leading blank.\<close>

theorem sanitize_number_clean:
  "set (switch_sanitize_number n) \<inter> {CHR ''/'', CHR '':'', CHR ''@''} = {}"
proof -
  let ?a = "cut_ats n" and ?b = "skip_past CHR ''/'' (cut_ats n)"
  have "CHR ''@'' \<notin> set (skip_past CHR '':'' ?b)" "CHR ''/'' \<notin> set (skip_past CHR '':'' ?b)"
    using cut_ats_no_at [of n] skip_past_gone [of "CHR ''/''" ?a] skip_past_subset [of _ ?b] skip_past_subset [of _ ?a] by blast+
  then show ?thesis using skip_past_gone [of "CHR '':''" ?b] by (auto simp: switch_sanitize_number_def)
qed

theorem clean_name_clean:
  "(\<forall>c\<in>set (switch_clean_name_string s). \<not> name_unsafe c) \<and>
   (switch_clean_name_string s = [] \<or> hd (switch_clean_name_string s) \<noteq> CHR '' '')"
proof -
  let ?t = "map (\<lambda>c. if name_unsafe c then CHR '' '' else c) s"
  have e: "switch_clean_name_string s = dropWhile (\<lambda>c. c = CHR '' '') ?t" by (simp add: switch_clean_name_string_def clean_name_eq)
  have "\<not> name_unsafe c" if "c \<in> set (dropWhile (\<lambda>c. c = CHR '' '') ?t)" for c
    using set_dropWhileD [OF that] by auto
  moreover have "dropWhile (\<lambda>c. c = CHR '' '') ?t \<noteq> [] \<Longrightarrow> hd (dropWhile (\<lambda>c. c = CHR '' '') ?t) \<noteq> CHR '' ''"
    by (rule hd_dropWhile)
  ultimately show ?thesis unfolding e by blast
qed

text \<open>The strict search does not behave like \<open>strchr\<close> on a character that is not there: it returns the end of the string.\<close>

theorem strict_search_misses:
  assumes "s \<noteq> []" and "f \<notin> set s"
  shows "switch_strchr_strict s f None = Some []"
proof -
  have "strict_loop f None s = Some []" using assms(2) by (induction s) auto
  then show ?thesis using assms(1) by (simp add: switch_strchr_strict_def)
qed

end
