(* ===== verification/Text_Tools.thy ===== *)
theory Text_Tools
  imports String_Safety "HOL-Library.Sublist"
begin

text \<open>
  Searching, cutting and rewriting text, src/switch\_utils.c: parameters of a URI, matching
  parentheses, arguments in parentheses, case-insensitive search, file names, replacement of a
  substring or a character, and removal of blanks and commas. Strings end before their NUL; a pointer
  into a string is the rest of the string from there on. The lemmas give each search its
  specification and name the inputs on which the code loops, reads before its argument or returns
  something else than the string it rewrote.
\<close>

section \<open>Parameters\<close>

text \<open>
  \<open>next\<close> is the first semicolon from \<open>ptr\<close> on. Where the name itself contains it, the length of the
  value wraps around and no memory is found for it.
\<close>

function find_param :: "string \<Rightarrow> string \<Rightarrow> fault + string option" where
  "find_param ptr param =
     (let len = length param; segment = before CHR '';'' ptr in
      if strncasecmp_eq len ptr param \<and> drop len ptr \<noteq> [] \<and> hd (drop len ptr) = CHR ''='' then
        (if len < length segment then Inr (Some (drop (len + 1) segment)) else Inl Null_pointer)
      else (case after CHR '';'' ptr of None \<Rightarrow> Inr None | Some rest \<Rightarrow> find_param rest param))"
  by pat_completeness auto
termination
  by (relation "measure (\<lambda>(ptr, param). length ptr)") (auto dest: after_length)

declare find_param.simps [simp del]

definition switch_find_parameter :: "string option \<Rightarrow> string \<Rightarrow> fault + string option" where
  "switch_find_parameter str param = (case str of None \<Rightarrow> Inr None | Some ptr \<Rightarrow> find_param ptr param)"

section \<open>Parentheses\<close>

text \<open>
  The depth is an \<open>int\<close> of the source; it stays positive during the scan and, on strings shorter than
  \<open>2\<^sup>3\<^sup>1\<close> characters, below its bound. A NUL as the closing character would be found at the end of every
  string by the last test of the source; the model is for closing characters other than NUL.
\<close>

fun paren_scan :: "char \<Rightarrow> char \<Rightarrow> nat \<Rightarrow> string \<Rightarrow> string option" where
  "paren_scan open close depth [] = None"
| "paren_scan open close depth (c # cs) =
     (if c = open \<and> open \<noteq> close then paren_scan open close (depth + 1) cs
      else if c = close then (if depth - 1 = 0 then Some (c # cs) else paren_scan open close (depth - 1) cs)
      else paren_scan open close depth cs)"

definition switch_find_end_paren :: "string \<Rightarrow> char \<Rightarrow> char \<Rightarrow> string option" where
  "switch_find_end_paren s open close =
     (case dropWhile (\<lambda>c. c = CHR '' '') s of
        [] \<Rightarrow> None
      | c # cs \<Rightarrow> if c = open then paren_scan open close 1 cs else None)"

text \<open>The text after the opening parenthesis, cut at the one that closes it.\<close>

fun args_scan :: "nat \<Rightarrow> string \<Rightarrow> string" where
  "args_scan br [] = []"
| "args_scan br (c # cs) =
     (if c = CHR ''('' then c # args_scan (br + 1) cs
      else if br > 1 \<and> c = CHR '')'' then c # args_scan (br - 1) cs
      else if br = 1 \<and> c = CHR '')'' then []
      else c # args_scan br cs)"

text \<open>
  \<open>e = args - 1\<close> and the loop over the blanks before the parenthesis read the character before the
  first one when nothing but blanks stands there.
\<close>

definition switch_separate_paren_args :: "string \<Rightarrow> fault + string \<times> string option" where
  "switch_separate_paren_args str =
     (case after CHR ''('' str of
        None \<Rightarrow> Inr (str, None)
      | Some args \<Rightarrow>
          let name = before CHR ''('' str in
          if list_all (\<lambda>c. c = CHR '' '') name then Inl Out_of_bounds
          else Inr (rev (dropWhile (\<lambda>c. c = CHR '' '') (rev name)), Some (args_scan 1 args)))"

section \<open>Search without case\<close>

definition ci_char :: "char \<Rightarrow> uint32" where
  "ci_char c = switch_toupper (word_of_int (char_code c))"

text \<open>The inner loop: \<open>None\<close> for a mismatch, \<open>Some b\<close> when one of the strings ends.\<close>

fun stri_match :: "string \<Rightarrow> string \<Rightarrow> bool option" where
  "stri_match (s # ss) (p # ps) =
     (if ci_char s = ci_char p then (if ps = [] then Some True else if ss = [] then Some False else stri_match ss ps) else None)"
| "stri_match _ _ = None"

fun stri_scan :: "string \<Rightarrow> string \<Rightarrow> string option" where
  "stri_scan instr [] = None"
| "stri_scan instr (c # cs) =
     (if instr = [] \<or> ci_char c \<noteq> ci_char (hd instr) then stri_scan instr cs
      else (case stri_match (c # cs) instr of
              Some True \<Rightarrow> Some (c # cs) | Some False \<Rightarrow> None | None \<Rightarrow> stri_scan instr cs))"

definition switch_stristr :: "string option \<Rightarrow> string option \<Rightarrow> string option" where
  "switch_stristr instr str = (case (instr, str) of (Some i, Some s) \<Rightarrow> stri_scan i s | _ \<Rightarrow> None)"

section \<open>Paths and replacement\<close>

definition last_past :: "char \<Rightarrow> string \<Rightarrow> string \<Rightarrow> string" where
  "last_past d s ret = (if d \<in> set s then skip_past d s else ret)"

definition switch_cut_path :: "string option \<Rightarrow> string option" where
  "switch_cut_path s =
     (case s of None \<Rightarrow> None | Some i \<Rightarrow> Some (last_past CHR 0x5C i (last_past CHR ''/'' i i)))"

definition switch_string_match :: "string \<Rightarrow> nat \<Rightarrow> string \<Rightarrow> nat \<Rightarrow> switch_status" where
  "switch_string_match str string_len search search_len =
     (let n = min search_len string_len in
      if take n str \<noteq> take n search then SWITCH_STATUS_FALSE
      else if n = search_len then SWITCH_STATUS_SUCCESS else SWITCH_STATUS_FALSE)"

text \<open>\<open>rounds\<close> bounds the number of rounds the loop is followed for; the index wraps like \<open>size_t\<close>.\<close>

primrec replace_loop :: "nat \<Rightarrow> string \<Rightarrow> string \<Rightarrow> string \<Rightarrow> nat \<Rightarrow> string \<Rightarrow> fault + string" where
  "replace_loop 0 str search rep i dest = Inl Still_running"
| "replace_loop (Suc n) str search rep i dest =
     (if i < length str then
        if switch_string_match (drop i str) (length str - i) search (length search) = SWITCH_STATUS_SUCCESS
        then replace_loop n str search rep (size_add (size_add i (size_sub (length search) 1)) 1) (dest @ rep)
        else replace_loop n str search rep (size_add i 1) (dest @ [str ! i])
      else Inr dest)"

definition switch_string_replace :: "nat \<Rightarrow> string \<Rightarrow> string \<Rightarrow> string \<Rightarrow> fault + string" where
  "switch_string_replace rounds str search rep = replace_loop rounds str search rep 0 []"

text \<open>The returned pointer is the one the loop has advanced: it points to the end of the string.\<close>

definition switch_replace_char :: "string \<Rightarrow> char \<Rightarrow> char \<Rightarrow> string \<times> string" where
  "switch_replace_char str from to =
     (let buf = map (\<lambda>c. if c = from then to else c) str in (buf, drop (length str) buf))"

section \<open>Blanks and commas\<close>

definition ws_char :: "char \<Rightarrow> bool" where
  "ws_char c \<longleftrightarrow> c \<in> {CHR 0x0D, CHR 0x0A, CHR 0x09, CHR '' '', CHR 0x0B}"

definition rstrip :: "(char \<Rightarrow> bool) \<Rightarrow> string \<Rightarrow> string" where
  "rstrip P s = rev (dropWhile P (rev s))"

definition switch_strip_whitespace :: "string option \<Rightarrow> string" where
  "switch_strip_whitespace str =
     (if zstr str then []
      else let sp = dropWhile ws_char (the str) in if sp = [] then [] else rstrip ws_char sp)"

definition switch_strip_spaces :: "string option \<Rightarrow> bool \<Rightarrow> string option" where
  "switch_strip_spaces str dup =
     (if zstr str then (if dup then Some [] else str)
      else let s = dropWhile (\<lambda>c. c = CHR '' '') (the str) in
        if s = [] then Some s else Some (rstrip (\<lambda>c. c = CHR '' '') s))"

text \<open>
  The output is the caller's buffer, written without a terminating NUL; \<open>x\<close> counts the characters
  read and is compared after the write. The answer says whether the buffer is returned.
\<close>

fun strip_loop :: "(char \<Rightarrow> bool) \<Rightarrow> (char \<Rightarrow> bool) \<Rightarrow> string \<Rightarrow> string \<Rightarrow> nat \<Rightarrow> nat \<Rightarrow> nat \<Rightarrow> fault + bool \<times> string" where
  "strip_loop keep skip [] out q x len = Inr (True, out)"
| "strip_loop keep skip (c # cs) out q x len =
     (if keep c then
        (if q < length out then
           (if x + 1 > len then Inr (False, out[q := c]) else strip_loop keep skip cs (out[q := c]) (q + 1) (x + 1) len)
         else Inl Out_of_bounds)
      else if skip c then
        (if x + 1 > len then Inr (False, out) else strip_loop keep skip cs out q (x + 1) len)
      else Inr (False, out))"

definition switch_strip_commas :: "string \<Rightarrow> string \<Rightarrow> nat \<Rightarrow> fault + bool \<times> string" where
  "switch_strip_commas s out len = strip_loop is_digit (\<lambda>c. c = CHR '','') s out 0 0 len"

definition switch_strip_nonnumerics :: "string \<Rightarrow> string \<Rightarrow> nat \<Rightarrow> fault + bool \<times> string" where
  "switch_strip_nonnumerics s out len =
     strip_loop (\<lambda>c. is_digit c \<or> c = CHR ''.'' \<or> c = CHR ''-'' \<or> c = CHR ''+'') (\<lambda>c. True) s out 0 0 len"

section \<open>Reading parameters\<close>

fun params_text :: "(string \<times> string) list \<Rightarrow> string" where
  "params_text [] = []"
| "params_text [(k, v)] = k @ CHR ''='' # v"
| "params_text ((k, v) # q # ps) = k @ CHR ''='' # v @ CHR '';'' # params_text (q # ps)"

definition param_ok :: "string \<times> string \<Rightarrow> bool" where
  "param_ok kv \<longleftrightarrow> CHR ''='' \<notin> set (fst kv) \<and> CHR '';'' \<notin> set (fst kv) \<and> CHR '';'' \<notin> set (snd kv)"

lemma lower_is_61: "ascii_lower b = 61 \<Longrightarrow> b = 61"
proof (cases "0x41 \<le> b \<and> b \<le> 0x5a")
  case True
  assume "ascii_lower b = 61"
  then have "b + 0x20 = 61" using True by (simp add: ascii_lower_def)
  then have "b = 61 - 0x20" by (simp only: eq_diff_eq)
  then show ?thesis using True by simp
next
  case False
  assume "ascii_lower b = 61"
  then show ?thesis unfolding ascii_lower_def if_not_P [OF False] .
qed

lemma lower_equals_sign:
  assumes "ascii_lower (char_byte c) = ascii_lower (char_byte CHR ''='')"
  shows "c = CHR ''=''"
proof -
  have "char_byte CHR ''='' = 61" by (simp add: char_byte_def)
  then have e: "ascii_lower (char_byte CHR ''='') = 61" by (simp add: ascii_lower_def)
  have "char_byte c = 61" by (rule lower_is_61 [OF trans [OF assms e]])
  then have "unat (char_byte c) = unat (61 :: byte)" by simp
  then have "(of_char c :: nat) = of_char CHR ''=''" by (simp add: unat_char_byte)
  then show ?thesis by (simp only: of_char_eq_iff)
qed

lemma name_match:
  assumes "CHR ''='' \<notin> set k" and "CHR ''='' \<notin> set param"
  shows "strncasecmp_eq (length param) (k @ CHR ''='' # r) param \<and> drop (length param) (k @ CHR ''='' # r) \<noteq> [] \<and>
    hd (drop (length param) (k @ CHR ''='' # r)) = CHR ''='' \<longleftrightarrow> strcasecmp_eq k param"
    (is "?l \<longleftrightarrow> ?r")
proof (rule linorder_cases [of "length k" "length param"])
  assume "length k = length param"
  then show ?thesis by (simp add: strncasecmp_eq_def)
next
  assume g: "length k > length param"
  then have "hd (drop (length param) (k @ CHR ''='' # r)) = k ! length param" by (simp add: hd_drop_conv_nth nth_append)
  moreover have "k ! length param \<noteq> CHR ''=''" using assms(1) g by (metis nth_mem)
  moreover have "\<not> strcasecmp_eq k param" using g by (auto simp: strcasecmp_eq_def dest: map_eq_imp_length_eq)
  ultimately show ?thesis by simp
next
  assume l: "length k < length param"
  have "\<not> strncasecmp_eq (length param) (k @ CHR ''='' # r) param"
  proof
    let ?f = "ascii_lower \<circ> char_byte"
    assume "strncasecmp_eq (length param) (k @ CHR ''='' # r) param"
    then have m: "map ?f (take (length param) (k @ CHR ''='' # r)) = map ?f param" by (simp add: strncasecmp_eq_def strcasecmp_eq_def)
    have "map ?f (take (length param) (k @ CHR ''='' # r)) ! length k = ?f (CHR ''='')" using l by (simp add: nth_append)
    then have "?f (param ! length k) = ?f (CHR ''='')" using m l by simp
    then have "param ! length k = CHR ''=''" by (simp add: lower_equals_sign)
    then show False using assms(2) l by (metis nth_mem)
  qed
  moreover have "\<not> strcasecmp_eq k param" using l by (auto simp: strcasecmp_eq_def dest: map_eq_imp_length_eq)
  ultimately show ?thesis by simp
qed

lemma find_param_step:
  assumes "CHR ''='' \<notin> set k" and "CHR ''='' \<notin> set param"
  shows "find_param (k @ CHR ''='' # r) param =
    (let segment = before CHR '';'' (k @ CHR ''='' # r) in
     if strcasecmp_eq k param then
       (if length param < length segment then Inr (Some (drop (length param + 1) segment)) else Inl Null_pointer)
     else (case after CHR '';'' (k @ CHR ''='' # r) of None \<Rightarrow> Inr None | Some rest \<Rightarrow> find_param rest param))"
  by (subst find_param.simps) (simp only: Let_def name_match [OF assms])

lemma find_param_lookup:
  assumes "list_all param_ok ps" and "CHR ''='' \<notin> set param" and "ps \<noteq> []"
  shows "find_param (params_text ps) param = Inr (map_option snd (find (\<lambda>kv. strcasecmp_eq (fst kv) param) ps))"
  using assms(1,3)
proof (induction ps rule: params_text.induct)
  case (2 k v)
  then have k: "CHR ''='' \<notin> set k" "CHR '';'' \<notin> set k" "CHR '';'' \<notin> set v" by (simp_all add: param_ok_def)
  have l: "strcasecmp_eq k param \<Longrightarrow> length k = length param" by (auto simp: strcasecmp_eq_def dest: map_eq_imp_length_eq)
  show ?case using k l by (auto simp: find_param_step [OF k(1) assms(2)] Let_def)
next
  case (3 k v q ps)
  then have k: "CHR ''='' \<notin> set k" "CHR '';'' \<notin> set k" "CHR '';'' \<notin> set v" by (simp_all add: param_ok_def)
  have l: "strcasecmp_eq k param \<Longrightarrow> length k = length param" by (auto simp: strcasecmp_eq_def dest: map_eq_imp_length_eq)
  have IH: "find_param (params_text (q # ps)) param = Inr (map_option snd (find (\<lambda>kv. strcasecmp_eq (fst kv) param) (q # ps)))"
    using 3 by simp
  show ?case using k l IH by (auto simp: find_param_step [OF k(1) assms(2)] Let_def)
qed simp

section \<open>Matching parentheses\<close>

fun balanced :: "char \<Rightarrow> char \<Rightarrow> nat \<Rightarrow> string \<Rightarrow> bool" where
  "balanced open close d [] \<longleftrightarrow> d = 0"
| "balanced open close d (c # cs) \<longleftrightarrow>
     (if c = open \<and> open \<noteq> close then balanced open close (d + 1) cs
      else if c = close then 0 < d \<and> balanced open close (d - 1) cs
      else balanced open close d cs)"

lemma paren_scan_finds: "balanced open close d body \<Longrightarrow> paren_scan open close (d + 1) (body @ close # rest) = Some (close # rest)"
  by (induction "open" close d body rule: balanced.induct) (auto split: if_splits)

lemma paren_scan_sound:
  "paren_scan open close (Suc d) s = Some t \<Longrightarrow> \<exists>body rest. s = body @ close # rest \<and> t = close # rest \<and> balanced open close d body"
proof (induction s arbitrary: d)
  case (Cons c cs)
  consider (up) "c = open" "open \<noteq> close" | (out) "c = close" "\<not> (c = open \<and> open \<noteq> close)" "d = 0"
    | (down) e where "c = close" "\<not> (c = open \<and> open \<noteq> close)" "d = Suc e" | (other) "c \<noteq> close" "\<not> (c = open \<and> open \<noteq> close)"
    by (cases d) blast+
  then show ?case
  proof cases
    case up
    then have "paren_scan open close (Suc (Suc d)) cs = Some t" using Cons.prems by simp
    from Cons.IH [OF this] obtain body rest where "cs = body @ close # rest" "t = close # rest" "balanced open close (Suc d) body" by blast
    with up show ?thesis by (intro exI [of _ "c # body", OF exI [of _ rest]]) auto
  next
    case out
    then have "t = close # cs" using Cons.prems by (auto split: if_splits)
    with out have "c # cs = [] @ close # cs \<and> t = close # cs \<and> balanced open close d []" by simp
    then show ?thesis by blast
  next
    case down
    then have "paren_scan open close (Suc e) cs = Some t" using Cons.prems by (auto split: if_splits)
    from Cons.IH [OF this] obtain body rest where "cs = body @ close # rest" "t = close # rest" "balanced open close e body" by blast
    with down show ?thesis by (intro exI [of _ "c # body", OF exI [of _ rest]]) auto
  next
    case other
    then have "paren_scan open close (Suc d) cs = Some t" using Cons.prems by (auto split: if_splits)
    from Cons.IH [OF this] obtain body rest where "cs = body @ close # rest" "t = close # rest" "balanced open close d body" by blast
    with other show ?thesis by (intro exI [of _ "c # body", OF exI [of _ rest]]) auto
  qed
qed simp

lemma args_scan_balanced: "balanced CHR ''('' CHR '')'' d body \<Longrightarrow> args_scan (Suc d) (body @ CHR '')'' # rest) = body"
  by (induction "CHR ''(''" "CHR '')''" d body rule: balanced.induct) auto

section \<open>First occurrence without case\<close>

definition ci_prefix :: "string \<Rightarrow> string \<Rightarrow> bool" where
  "ci_prefix p t \<longleftrightarrow> length p \<le> length t \<and> map ci_char (take (length p) t) = map ci_char p"

fun first_at :: "(string \<Rightarrow> bool) \<Rightarrow> string \<Rightarrow> string option" where
  "first_at P [] = None"
| "first_at P (c # cs) = (if P (c # cs) then Some (c # cs) else first_at P cs)"

lemma first_at_short: "(\<And>t. length t \<le> length s \<Longrightarrow> \<not> P t) \<Longrightarrow> first_at P s = None"
  by (induction s) auto

lemma stri_match_answer:
  "t \<noteq> [] \<Longrightarrow> p \<noteq> [] \<Longrightarrow>
   (stri_match t p = Some True \<longleftrightarrow> ci_prefix p t) \<and> (stri_match t p = Some False \<longrightarrow> length t < length p)"
  by (induction t p rule: stri_match.induct) (auto simp: ci_prefix_def split: if_splits)

lemma stri_scan_first: "p \<noteq> [] \<Longrightarrow> stri_scan p s = first_at (ci_prefix p) s"
proof (induction p s rule: stri_scan.induct)
  case (2 p c cs)
  show ?case
  proof (cases "ci_char c = ci_char (hd p)")
    case False
    then have "\<not> ci_prefix p (c # cs)" using 2(3) by (cases p) (auto simp: ci_prefix_def)
    then show ?thesis using 2 False by simp
  next
    case True
    have m: "(stri_match (c # cs) p = Some True \<longleftrightarrow> ci_prefix p (c # cs)) \<and> (stri_match (c # cs) p = Some False \<longrightarrow> length (c # cs) < length p)"
      by (rule stri_match_answer) (simp_all add: 2(3))
    show ?thesis
    proof (cases "stri_match (c # cs) p")
      case None
      then show ?thesis using 2 True m by simp
    next
      case (Some b)
      show ?thesis
      proof (cases b)
        case t: True
        then show ?thesis using Some m True 2(3) by simp
      next
        case f: False
        then have "length (c # cs) < length p" using Some m by simp
        then have "first_at (ci_prefix p) (c # cs) = None" by (intro first_at_short) (auto simp: ci_prefix_def)
        then show ?thesis using Some f True 2(3) by simp
      qed
    qed
  qed
qed simp

section \<open>Replacement\<close>

function replace_all :: "string \<Rightarrow> string \<Rightarrow> string \<Rightarrow> string" where
  "replace_all search rep s =
     (if s = [] \<or> search = [] then s
      else if prefix search s then rep @ replace_all search rep (drop (length search) s)
      else hd s # replace_all search rep (tl s))"
  by pat_completeness auto
termination
  by (relation "measure (\<lambda>(search, rep, s). length s)") auto

declare replace_all.simps [simp del]

lemma string_match_prefix:
  "switch_string_match s (length s) search (length search) = SWITCH_STATUS_SUCCESS \<longleftrightarrow> prefix search s"
proof (cases "length search \<le> length s")
  case True
  then have "prefix search s \<longleftrightarrow> take (length search) s = search" by (metis append_eq_conv_conj append_take_drop_id prefix_def)
  then show ?thesis using True by (simp add: switch_string_match_def Let_def min_def)
next
  case False
  then have "\<not> prefix search s" by (auto dest: prefix_length_le)
  then show ?thesis using False by (simp add: switch_string_match_def Let_def min_def)
qed

lemma replace_loop_all:
  assumes "search \<noteq> []" and "length str + length search < size_max"
  shows "length str - i < n \<Longrightarrow> replace_loop n str search rep i dest = Inr (dest @ replace_all search rep (drop i str))"
proof (induction n arbitrary: i dest)
  case 0
  then show ?case by simp
next
  case (Suc n)
  show ?case
  proof (cases "i < length str")
    case False
    then show ?thesis by (simp add: replace_all.simps)
  next
    case True
    have d: "drop i str = str ! i # drop (Suc i) str" using True by (simp add: Cons_nth_drop_Suc)
    have one: "size_add i 1 = i + 1" using True assms(2) by (intro size_add_no_wrap) simp
    have skip: "size_add (size_add i (size_sub (length search) 1)) 1 = i + length search"
    proof -
      have l: "1 \<le> length search" using assms(1) by (cases search) simp_all
      have "size_sub (length search) 1 = length search - 1" using l assms(2) by (intro size_sub_no_wrap) simp_all
      moreover have "size_add i (length search - 1) = i + (length search - 1)" using True assms(2) by (intro size_add_no_wrap) simp
      moreover have "size_add (i + (length search - 1)) 1 = i + (length search - 1) + 1" using True assms(2) l by (intro size_add_no_wrap) simp
      ultimately show ?thesis using l by simp
    qed
    have m: "switch_string_match (drop i str) (length str - i) search (length search) = SWITCH_STATUS_SUCCESS \<longleftrightarrow> prefix search (drop i str)"
      using string_match_prefix [of "drop i str" search] by simp
    show ?thesis
    proof (cases "prefix search (drop i str)")
      case p: True
      have l: "1 \<le> length search" using assms(1) by (cases search) simp_all
      have "length search \<le> length (drop i str)" using p by (rule prefix_length_le)
      then have "replace_loop n str search rep (i + length search) (dest @ rep) = Inr (dest @ rep @ replace_all search rep (drop (i + length search) str))"
        using Suc.IH [of "i + length search" "dest @ rep"] Suc.prems l True by simp
      moreover have "replace_all search rep (drop i str) = rep @ replace_all search rep (drop (length search) (drop i str))"
        using p assms(1) d by (subst replace_all.simps) simp
      ultimately show ?thesis using True p m skip by (simp add: add.commute)
    next
      case np: False
      have "replace_loop n str search rep (i + 1) (dest @ [str ! i]) = Inr (dest @ str ! i # replace_all search rep (drop (i + 1) str))"
        using Suc.IH [of "i + 1" "dest @ [str ! i]"] Suc.prems True assms(1) by simp
      moreover have "replace_all search rep (drop i str) = str ! i # replace_all search rep (drop (Suc i) str)"
        using np assms(1) d by (subst replace_all.simps) simp
      ultimately show ?thesis using True np m one by simp
    qed
  qed
qed

text \<open>With an empty pattern the index never moves.\<close>

lemma replace_loop_stuck:
  assumes "str \<noteq> []"
  shows "replace_loop n str [] rep 0 dest = Inl Still_running"
proof (induction n arbitrary: dest)
  case (Suc n)
  have "size_add (size_add 0 (size_sub 0 1)) 1 = 0" by (simp add: size_add_def size_sub_def size_max_def)
  then show ?case using Suc assms by (simp add: switch_string_match_def)
qed simp

section \<open>Trimming and filtering\<close>

lemma dropWhile_split: "\<exists>a. s = a @ dropWhile P s \<and> list_all P a"
  by (rule exI [of _ "takeWhile P s"]) (auto simp: list_all_iff dest: set_takeWhileD)

lemma rstrip_split: "\<exists>b. s = rstrip P s @ b \<and> list_all P b"
proof -
  obtain a where "rev s = a @ dropWhile P (rev s)" "list_all P a" using dropWhile_split by blast
  then have "s = rev (dropWhile P (rev s)) @ rev a" by (metis rev_append rev_rev_ident)
  then show ?thesis using \<open>list_all P a\<close> by (intro exI [of _ "rev a"]) (simp add: rstrip_def list_all_iff)
qed

lemma rstrip_last: "rstrip P s \<noteq> [] \<Longrightarrow> \<not> P (last (rstrip P s))"
  unfolding rstrip_def using hd_dropWhile [of P "rev s"] by (simp add: last_rev)

lemma rstrip_hd: "s \<noteq> [] \<Longrightarrow> \<not> P (hd s) \<Longrightarrow> rstrip P s \<noteq> [] \<and> hd (rstrip P s) = hd s"
proof -
  assume s: "s \<noteq> []" "\<not> P (hd s)"
  obtain b where b: "s = rstrip P s @ b" "list_all P b" using rstrip_split by blast
  have "rstrip P s \<noteq> []"
  proof
    assume "rstrip P s = []"
    then have "list_all P s" using b by simp
    then show False using s by (cases s) simp_all
  qed
  moreover from this have "hd s = hd (rstrip P s)" using b(1) by (metis hd_append2)
  ultimately show ?thesis by simp
qed

lemma strip_loop_fits:
  assumes "list_all (\<lambda>c. keep c \<or> skip c) s" and "x + length s \<le> len" and "q + length (filter keep s) \<le> length out" and "q \<le> length out"
  shows "strip_loop keep skip s out q x len = Inr (True, take q out @ filter keep s @ drop (q + length (filter keep s)) out)"
  using assms
proof (induction s arbitrary: out q x)
  case (Cons c s)
  show ?case
  proof (cases "keep c")
    case True
    then have q: "q < length out" using Cons.prems(3) by simp
    have "strip_loop keep skip s (out[q := c]) (q + 1) (x + 1) len =
      Inr (True, take (q + 1) (out[q := c]) @ filter keep s @ drop (q + 1 + length (filter keep s)) (out[q := c]))"
      by (rule Cons.IH) (use Cons.prems True in auto)
    moreover have "take (q + 1) (out[q := c]) = take q out @ [c]" using q by (simp add: take_Suc_conv_app_nth)
    moreover have "drop (q + 1 + length (filter keep s)) (out[q := c]) = drop (q + 1 + length (filter keep s)) out" by simp
    ultimately show ?thesis using True q Cons.prems(2) by simp
  next
    case False
    then show ?thesis using Cons by simp
  qed
qed simp

text \<open>One character more than the announced size is written before the count is looked at.\<close>

lemma strip_loop_overruns:
  assumes "list_all keep s" and "length s > length out - q" and "x = q" and "q \<le> length out" and "len = length out"
  shows "strip_loop keep skip s out q x len = Inl Out_of_bounds"
  using assms
proof (induction s arbitrary: out q x)
  case (Cons c s)
  show ?case
  proof (cases "q < length out")
    case True
    have "strip_loop keep skip s (out[q := c]) (q + 1) (x + 1) len = Inl Out_of_bounds"
      by (rule Cons.IH) (use Cons.prems True in auto)
    then show ?thesis using Cons.prems True by simp
  next
    case False
    then show ?thesis using Cons.prems by simp
  qed
qed simp

section \<open>The properties\<close>

text \<open>in a list of parameters \<open>name=value\<close> separated by semicolons, looking up a name gives the value of the first parameter of that name, ignoring case, and nothing when there is none.\<close>

theorem find_parameter_lookup:
  assumes "list_all param_ok ps" and "CHR ''='' \<notin> set param" and "ps \<noteq> []"
  shows "switch_find_parameter (Some (params_text ps)) param = Inr (map_option snd (find (\<lambda>kv. strcasecmp_eq (fst kv) param) ps))"
  using find_param_lookup [OF assms] by (simp add: switch_find_parameter_def)

theorem find_parameter_lookup_witness:
  "switch_find_parameter (Some ''transport=tcp;LR=on;lr=off'') ''lr'' = Inr (Some ''on'')"
proof -
  have "strcasecmp_eq ''LR'' ''lr''" "\<not> strcasecmp_eq ''transport'' ''lr''" by code_simp+
  then show ?thesis
    using find_parameter_lookup [of "[(''transport'', ''tcp''), (''LR'', ''on''), (''lr'', ''off'')]" "''lr''"] by (simp add: param_ok_def)
qed

text \<open>C32: the search for the closing parenthesis returns the place of the one that balances the opening one, and whatever it returns is such a place.\<close>

theorem find_end_paren_balanced:
  "switch_find_end_paren s op cl = Some t \<longleftrightarrow>
   (\<exists>n body rest. s = replicate n CHR '' '' @ op # body @ cl # rest \<and> op \<noteq> CHR '' '' \<and> balanced op cl 0 body \<and> t = cl # rest)"
  (is "?l \<longleftrightarrow> ?r")
proof
  assume ?l
  then obtain cs where cs: "dropWhile (\<lambda>c. c = CHR '' '') s = op # cs" "paren_scan op cl (Suc 0) cs = Some t"
    by (auto simp: switch_find_end_paren_def split: list.splits if_splits)
  obtain body rest where b: "cs = body @ cl # rest" "t = cl # rest" "balanced op cl 0 body" using paren_scan_sound [OF cs(2)] by blast
  have op: "op \<noteq> CHR '' ''" using hd_dropWhile [of "\<lambda>c. c = CHR '' ''" s] cs(1) by simp
  have "s = takeWhile (\<lambda>c. c = CHR '' '') s @ op # cs" using cs(1) by (metis takeWhile_dropWhile_id)
  moreover have "takeWhile (\<lambda>c. c = CHR '' '') s = replicate (length (takeWhile (\<lambda>c. c = CHR '' '') s)) CHR '' ''"
    by (auto intro!: replicate_length_same [symmetric] dest: set_takeWhileD)
  ultimately show ?r using b op by metis
next
  assume ?r
  then obtain n body rest where e: "s = replicate n CHR '' '' @ op # body @ cl # rest" "op \<noteq> CHR '' ''" "balanced op cl 0 body" "t = cl # rest" by blast
  have "dropWhile (\<lambda>c. c = CHR '' '') s = op # body @ cl # rest" using e(2) by (simp add: e(1) dropWhile_append3)
  then show ?l using paren_scan_finds [OF e(3), of rest] by (simp add: switch_find_end_paren_def e(4))
qed

text \<open>C33: replacing a non-empty substring ends and replaces each occurrence from left to right; with an empty one the loop does not end on a non-empty string.\<close>

theorem string_replace_outcome:
  assumes "length str + length search < size_max" and "length str < rounds" and "str \<noteq> []"
  shows "switch_string_replace rounds str search rep =
    (if search = [] then Inl Still_running else Inr (replace_all search rep str))"
  using replace_loop_all [OF _ assms(1), of 0 rounds rep "[]"] replace_loop_stuck [OF assms(3), of rounds rep "[]"] assms(2)
  by (simp add: switch_string_replace_def)

theorem string_replace_outcome_witness:
  "switch_string_replace 6 ''a,b,c'' '','' ''::'' = Inr ''a::b::c''"
proof -
  have "replace_all '','' ''::'' ''a,b,c'' = ''a::b::c''" by (simp add: replace_all.simps)
  then show ?thesis using string_replace_outcome [of "''a,b,c''" "'',''" 6 "''::''"] by (simp add: size_max_def)
qed

text \<open>The case-insensitive search returns the first place where the pattern occurs.\<close>

theorem stristr_first:
  assumes "p \<noteq> []"
  shows "switch_stristr (Some p) (Some s) = first_at (ci_prefix p) s"
  using stri_scan_first [OF assms] by (simp add: switch_stristr_def)

theorem strip_whitespace_trims:
  "\<exists>a b. s = a @ switch_strip_whitespace (Some s) @ b \<and> list_all ws_char a \<and> list_all ws_char b \<and>
     (switch_strip_whitespace (Some s) \<noteq> [] \<longrightarrow>
        \<not> ws_char (hd (switch_strip_whitespace (Some s))) \<and> \<not> ws_char (last (switch_strip_whitespace (Some s))))"
proof -
  let ?d = "dropWhile ws_char s"
  obtain a where a: "s = a @ ?d" "list_all ws_char a" using dropWhile_split by blast
  obtain b where b: "?d = rstrip ws_char ?d @ b" "list_all ws_char b" using rstrip_split by blast
  have e: "switch_strip_whitespace (Some s) = rstrip ws_char ?d" by (cases "s = []"; cases "?d = []") (simp_all only: switch_strip_whitespace_def zstr_def Let_def rstrip_def, simp_all, blast?)
  have "\<not> ws_char (hd (rstrip ws_char ?d)) \<and> \<not> ws_char (last (rstrip ws_char ?d))" if "rstrip ws_char ?d \<noteq> []"
  proof -
    have "?d \<noteq> []"
    proof
      assume "?d = []"
      then have "rstrip ws_char ?d = []" by (simp only: rstrip_def) simp
      then show False using that by contradiction
    qed
    then show ?thesis using rstrip_last [OF that] rstrip_hd [of ?d ws_char] hd_dropWhile [of ws_char s] by simp
  qed
  then show ?thesis unfolding e using a b by metis
qed

theorem strip_commas_outcome:
  assumes "list_all (\<lambda>c. is_digit c \<or> c = CHR '','') s" and "length s \<le> len" and "len \<le> length out"
  shows "switch_strip_commas s out len = Inr (True, filter is_digit s @ drop (length (filter is_digit s)) out)"
proof -
  have "length (filter is_digit s) \<le> length s" by (rule length_filter_le)
  then have "length (filter is_digit s) \<le> length out" using assms(2,3) by linarith
  then show ?thesis using strip_loop_fits [OF assms(1), of 0 len 0 out] assms by (simp add: switch_strip_commas_def)
qed

theorem strip_commas_overruns:
  assumes "list_all is_digit s" and "length s > length out"
  shows "switch_strip_commas s out (length out) = Inl Out_of_bounds"
  using strip_loop_overruns [OF assms(1), of out 0 0] assms(2) by (simp add: switch_strip_commas_def)

theorem cut_path_mixed: "switch_cut_path (Some [CHR ''a'', CHR 0x5C, CHR ''b'', CHR ''/'', CHR ''c'']) = Some ''b/c''"
  by (simp add: switch_cut_path_def last_past_def skip_past.simps)

theorem cut_path_file:
  assumes "CHR ''/'' \<notin> set f" and "CHR 0x5C \<notin> set (d @ f)"
  shows "switch_cut_path (Some (d @ CHR ''/'' # f)) = Some f"
proof -
  have "skip_past CHR ''/'' (d @ CHR ''/'' # f) = f"
  proof (induction d rule: length_induct)
    case (1 d)
    show ?case
    proof (cases "CHR ''/'' \<in> set d")
      case True
      then obtain u w where "d = u @ CHR ''/'' # w" "CHR ''/'' \<notin> set u" by (meson split_list_first)
      then show ?thesis using 1 by (subst skip_past.simps) simp
    next
      case False
      then show ?thesis using assms(1) by (subst skip_past.simps) (simp add: skip_past.simps [of _ f])
    qed
  qed
  then show ?thesis using assms(2) by (simp add: switch_cut_path_def last_past_def)
qed

theorem replace_char_returns_end: "switch_replace_char s a b = (map (\<lambda>c. if c = a then b else c) s, [])"
  by (simp add: switch_replace_char_def Let_def)

theorem paren_args_split:
  assumes "CHR ''('' \<notin> set name" and "name \<noteq> []" and "last name \<noteq> CHR '' ''" and "balanced CHR ''('' CHR '')'' 0 body"
  shows "switch_separate_paren_args (name @ replicate n CHR '' '' @ CHR ''('' # body @ CHR '')'' # rest) = Inr (name, Some body)"
proof -
  have r: "rev (dropWhile (\<lambda>c. c = CHR '' '') (rev (name @ replicate n CHR '' ''))) = name"
    using assms(2,3) by (cases name rule: rev_cases) (simp_all add: dropWhile_append3)
  have "\<not> list_all (\<lambda>c. c = CHR '' '') (name @ replicate n CHR '' '')" using assms(2,3) by (cases name rule: rev_cases) simp_all
  then show ?thesis using assms(1) r args_scan_balanced [OF assms(4), of rest] by (simp add: switch_separate_paren_args_def Let_def)
qed

end
