(* ===== verification/Dial_Text.thy ===== *)
theory Dial_Text
  imports Text_Tools
begin

text \<open>
  Texts of dialling, src/switch\_utils.c and src/include/switch\_utils.h: private network addresses,
  Asterisk patterns as regular expressions, user and domain of a SIP address, printed telephone
  numbers, digits and truth values. The regular expression is built in the caller's buffer, with the
  accesses checked against its size.
\<close>

section \<open>Addresses\<close>

definition strncmp_eq :: "string \<Rightarrow> string \<Rightarrow> nat \<Rightarrow> bool" where
  "strncmp_eq s t n \<longleftrightarrow> take n s = take n t"

definition lan_prefixes :: "(string \<times> nat) list" where
  "lan_prefixes =
     [(''10.'', 3), (''192.168.'', 8), (''127.'', 4), (''255.'', 4), (''0.'', 2), (''1.'', 2), (''2.'', 2),
      (''172.16.'', 7), (''172.17.'', 7), (''172.18.'', 7), (''172.19.'', 7), (''172.20.'', 7), (''172.21.'', 7),
      (''172.22.'', 7), (''172.23.'', 7), (''172.24.'', 7), (''172.25.'', 7), (''172.26.'', 7), (''172.27.'', 7),
      (''172.28.'', 7), (''172.29.'', 7), (''172.30.'', 7), (''172.31.'', 7), (''192.0.2.'', 8), (''169.254.'', 8)]"

definition switch_is_lan_addr :: "string option \<Rightarrow> bool" where
  "switch_is_lan_addr ip = (if zstr ip then False else list_ex (\<lambda>(p, n). strncmp_eq (the ip) p n) lan_prefixes)"

section \<open>Asterisk patterns\<close>

text \<open>The buffer as a list of its characters; \<open>strlen\<close> and every write stay inside of it or fault.\<close>

definition buf_strlen :: "string \<Rightarrow> fault + nat" where
  "buf_strlen buf = (if CHR 0x00 \<in> set buf then Inr (length (takeWhile (\<lambda>c. c \<noteq> CHR 0x00) buf)) else Inl Out_of_bounds)"

definition buf_strncat :: "string \<Rightarrow> string \<Rightarrow> nat \<Rightarrow> fault + string" where
  "buf_strncat buf s n = fbind (buf_strlen buf) (\<lambda>k. mem_write buf k (take n s @ [CHR 0x00]))"

definition buf_put :: "string \<Rightarrow> char \<Rightarrow> fault + string" where
  "buf_put buf c = fbind (buf_strlen buf) (\<lambda>k. mem_write buf k [c])"

definition ast_class :: "char \<Rightarrow> string option" where
  "ast_class c =
     (if c = CHR ''N'' then Some ''[2-9]'' else if c = CHR ''X'' then Some ''[0-9]''
      else if c = CHR ''Z'' then Some ''[1-9]'' else if c = CHR ''.'' then Some ''.*'' else None)"

primrec ast_loop :: "string \<Rightarrow> nat \<Rightarrow> string \<Rightarrow> fault + string" where
  "ast_loop [] len buf = Inr buf"
| "ast_loop (p # ps) len buf =
     fbind (buf_strlen buf) (\<lambda>k.
       fbind (case ast_class p of
                Some e \<Rightarrow> buf_strncat buf e (len - k)
              | None \<Rightarrow> if k < size_sub len 1 then buf_put buf p else Inr buf)
         (ast_loop ps len))"

definition switch_ast2regex :: "string option \<Rightarrow> nat \<Rightarrow> fault + bool \<times> string" where
  "switch_ast2regex pat len =
     (case pat of
        None \<Rightarrow> Inr (False, [])
      | Some p \<Rightarrow>
          fbind (buf_put (replicate len CHR 0x00) CHR ''^'') (\<lambda>buf.
          fbind (ast_loop p len buf) (\<lambda>buf.
          fbind (buf_put buf CHR ''$'') (\<lambda>buf.
          fbind (buf_strlen buf) (\<lambda>k. Inr (p \<noteq> take k buf, buf))))))"

section \<open>Users, domains, numbers\<close>

definition switch_split_user_domain :: "string \<Rightarrow> string option \<times> string" where
  "switch_split_user_domain s =
     (let s = (if strncasecmp_eq 4 s ''sip:'' then drop 4 s else if strncasecmp_eq 5 s ''sips:'' then drop 5 s else s);
          (u, h) = (case after CHR ''@'' s of Some h \<Rightarrow> (Some (before CHR ''@'' s), h) | None \<Rightarrow> (None, s))
      in (u, takeWhile (\<lambda>c. c \<noteq> CHR '':'' \<and> c \<noteq> CHR '';'' \<and> c \<noteq> CHR '' '') h))"

definition switch_format_number :: "string option \<Rightarrow> string option" where
  "switch_format_number num =
     (case num of
        None \<Rightarrow> None
      | Some [] \<Rightarrow> Some []
      | Some n \<Rightarrow>
          let p = (if hd n = CHR ''+'' then tl n else n) in
          if \<not> switch_is_number p then Some p
          else if length p = 11 \<and> p ! 0 = CHR ''1'' then
            Some ([p ! 0] @ '' ('' @ [p ! 1, p ! 2, p ! 3] @ '') '' @ [p ! 4, p ! 5, p ! 6] @ ''-'' @ [p ! 7, p ! 8, p ! 9, p ! 10])
          else if length p = 10 then
            Some (''1 ('' @ [p ! 0, p ! 1, p ! 2] @ '') '' @ [p ! 3, p ! 4, p ! 5] @ ''-'' @ [p ! 6, p ! 7, p ! 8, p ! 9])
          else Some n)"

definition switch_atoui :: "string \<Rightarrow> int" where
  "switch_atoui nptr = (let tmp = atoi nptr in if tmp < 0 then 0 else tmp mod 2 ^ 32)"

definition switch_atoul :: "string \<Rightarrow> int" where
  "switch_atoul nptr = (let tmp = atol nptr in if tmp < 0 then 0 else tmp mod 2 ^ 64)"

definition switch_is_digit_string :: "string \<Rightarrow> bool" where
  "switch_is_digit_string s = list_all (\<lambda>c. \<not> (char_code c < 48 \<or> char_code c > 57)) s"

definition switch_itodtmf :: "int \<Rightarrow> char" where
  "switch_itodtmf i = (if i > 9 \<and> i < 14 then char_of (nat (i + 55)) else char_of (nat (i + 48)))"

definition switch_dtmftoi :: "string \<Rightarrow> int" where
  "switch_dtmftoi s =
     (let r = atoi s in
      if r = 0 then
        (let l = (case s of [] \<Rightarrow> 0 | c # _ \<Rightarrow> int (unat (ascii_lower (char_byte c)))) in
         if l > 96 \<and> l < 101 then l - 87 else r)
      else r)"

definition switch_known_bitrate :: "nat \<Rightarrow> nat" where
  "switch_known_bitrate payload =
     (if payload = 0 then 64000 else if payload = 3 then 13200 else if payload = 4 then 6300 else if payload = 7 then 2400
      else if payload = 8 then 64000 else if payload = 9 then 64000 else if payload = 18 then 8000 else 0)"

definition switch_false :: "string option \<Rightarrow> bool" where
  "switch_false expr =
     (case expr of None \<Rightarrow> False
      | Some e \<Rightarrow> list_ex (strcasecmp_eq e) [''no'', ''off'', ''false'', ''f'', ''disabled'', ''inactive'', ''disallow''] \<or>
          (switch_is_number e \<and> \<not> atoi e \<noteq> 0))"

definition switch_is_moh :: "string option \<Rightarrow> bool" where
  "switch_is_moh s = (\<not> (zstr s \<or> strcasecmp_eq (the s) ''silence'' \<or> strcasecmp_eq (the s) ''indicate_hold''))"

section \<open>Private addresses\<close>

definition quad_text :: "nat \<Rightarrow> nat \<Rightarrow> nat \<Rightarrow> nat \<Rightarrow> string" where
  "quad_text a b c d = decimal a @ CHR ''.'' # decimal b @ CHR ''.'' # decimal c @ CHR ''.'' # decimal d"

lemma dot_no_digit [simp]: "\<not> is_digit CHR ''.''"
  by (simp add: is_digit_def char_code_def)

lemma takeWhile_decimal: "takeWhile is_digit (decimal n @ CHR ''.'' # r) = decimal n"
  using decimal_digits [of n] by (simp add: list_all_iff takeWhile_append2)

lemma decimal_inj: "decimal m = decimal n \<longleftrightarrow> m = n"
  by (metis decimal_value of_nat_eq_iff)

lemma prefix_decimal: "prefix (decimal k @ CHR ''.'' # x) (decimal a @ CHR ''.'' # y) \<longleftrightarrow> k = a \<and> prefix x y"
proof
  assume "prefix (decimal k @ CHR ''.'' # x) (decimal a @ CHR ''.'' # y)"
  then obtain z where z: "decimal a @ CHR ''.'' # y = decimal k @ CHR ''.'' # x @ z" by (auto simp: prefix_def)
  from arg_cong [OF z, of "takeWhile is_digit"] have "k = a" by (simp add: takeWhile_decimal decimal_inj)
  with z show "k = a \<and> prefix x y" by simp
qed (auto simp: prefix_def)

lemma strncmp_prefix: "n = length p \<Longrightarrow> strncmp_eq s p n \<longleftrightarrow> prefix p s"
  by (metis strncmp_eq_def append_eq_conv_conj append_take_drop_id prefix_def take_all_iff order_refl)

lemma decimal_small:
  "decimal 10 = ''10''" "decimal 192 = ''192''" "decimal 168 = ''168''" "decimal 127 = ''127''" "decimal 255 = ''255''" "decimal 0 = ''0''"
  "decimal 1 = ''1''" "decimal 2 = ''2''" "decimal 172 = ''172''" "decimal 169 = ''169''" "decimal 254 = ''254''"
  "decimal 16 = ''16''" "decimal 17 = ''17''" "decimal 18 = ''18''" "decimal 19 = ''19''" "decimal 20 = ''20''" "decimal 21 = ''21''"
  "decimal 22 = ''22''" "decimal 23 = ''23''" "decimal 24 = ''24''" "decimal 25 = ''25''" "decimal 26 = ''26''" "decimal 27 = ''27''"
  "decimal 28 = ''28''" "decimal 29 = ''29''" "decimal 30 = ''30''" "decimal 31 = ''31''"
  by (simp_all add: decimal.simps char_of_def bit_Suc_0_iff bit_numeral_rec)

definition lan_nets :: "nat list list" where
  "lan_nets = [[10], [192, 168], [127], [255], [0], [1], [2]] @ map (\<lambda>b. [172, b]) [16..<32] @ [[192, 0, 2], [169, 254]]"

fun dotted_net :: "nat list \<Rightarrow> string" where
  "dotted_net [] = []"
| "dotted_net (n # ns) = decimal n @ CHR ''.'' # dotted_net ns"

lemma lan_prefixes_nets: "lan_prefixes = map (\<lambda>ns. (dotted_net ns, length (dotted_net ns))) lan_nets"
  by (simp add: lan_prefixes_def lan_nets_def upt_rec decimal_small decimal_small(7) [unfolded One_nat_def])

lemma quad_nonempty: "quad_text a b c d \<noteq> []"
  by (simp add: quad_text_def)

lemma lan_quad: "switch_is_lan_addr (Some (quad_text a b c d)) \<longleftrightarrow> list_ex (\<lambda>ns. prefix (dotted_net ns) (quad_text a b c d)) lan_nets"
  by (simp add: switch_is_lan_addr_def zstr_def quad_nonempty lan_prefixes_nets list_ex_iff strncmp_prefix)

section \<open>Building the expression\<close>

text \<open>A buffer that holds a text without NUL, followed by NULs only.\<close>

definition holds_text :: "nat \<Rightarrow> string \<Rightarrow> string" where
  "holds_text len t = t @ replicate (len - length t) CHR 0x00"

lemma holds_split: "length t < len \<Longrightarrow> holds_text len t = t @ CHR 0x00 # replicate (len - Suc (length t)) CHR 0x00"
  unfolding holds_text_def by (metis Suc_diff_Suc replicate_Suc)

lemma holds_strlen:
  assumes "CHR 0x00 \<notin> set t" and "length t < len"
  shows "buf_strlen (holds_text len t) = Inr (length t)"
proof -
  have "takeWhile (\<lambda>c. c \<noteq> CHR 0x00) t = t" using assms(1) by (auto simp: takeWhile_eq_all_conv)
  then show ?thesis by (simp add: buf_strlen_def holds_split [OF assms(2)] takeWhile_tail)
qed

lemma holds_write:
  assumes "CHR 0x00 \<notin> set t" and "length t + length e + 1 \<le> len"
  shows "mem_write (holds_text len t) (length t) (e @ [CHR 0x00]) = Inr (holds_text len (t @ e))"
proof -
  have "length (e @ [CHR 0x00]) \<le> len - length t" using assms(2) by simp
  moreover have "CHR 0x00 # replicate (len - Suc (length t + length e)) CHR 0x00 = replicate (len - (length t + length e)) CHR 0x00"
    using assms(2) by (metis Suc_diff_Suc Suc_eq_plus1 Suc_le_eq replicate_Suc)
  ultimately show ?thesis using assms(2) by (simp add: mem_write_def holds_text_def)
qed

lemma holds_put:
  assumes "CHR 0x00 \<notin> set t" and "length t < len"
  shows "buf_put (holds_text len t) c = Inr (holds_text len (t @ [c]))"
proof -
  have "mem_write (holds_text len t) (length t) [c] = Inr (holds_text len (t @ [c]))"
    unfolding holds_split [OF assms(2)] using assms(2) by (simp add: mem_write_def holds_text_def)
  then show ?thesis by (simp add: buf_put_def holds_strlen [OF assms])
qed

lemma holds_strncat:
  assumes "CHR 0x00 \<notin> set t" and "length t + length e < len"
  shows "buf_strncat (holds_text len t) e (len - length t) = Inr (holds_text len (t @ e))"
  using assms holds_write [of t e len] by (simp add: buf_strncat_def holds_strlen)

definition ast_text :: "char \<Rightarrow> string" where
  "ast_text c = (case ast_class c of Some e \<Rightarrow> e | None \<Rightarrow> [c])"

lemma ast_text_no_nul: "c \<noteq> CHR 0x00 \<Longrightarrow> CHR 0x00 \<notin> set (ast_text c)"
  by (simp add: ast_text_def ast_class_def)

lemma ast_loop_fits:
  assumes "CHR 0x00 \<notin> set p" and "CHR 0x00 \<notin> set t" and "length t + length (concat (map ast_text p)) < len" and "len < size_max"
  shows "ast_loop p len (holds_text len t) = Inr (holds_text len (t @ concat (map ast_text p)))"
  using assms(1-3)
proof (induction p arbitrary: t)
  case (Cons c p)
  have t: "length t < len" "length t + length (ast_text c) < len" using Cons.prems(3) by simp_all
  have n: "CHR 0x00 \<notin> set (t @ ast_text c)" using Cons.prems ast_text_no_nul [of c] by auto
  have IH: "ast_loop p len (holds_text len (t @ ast_text c)) = Inr (holds_text len (t @ ast_text c @ concat (map ast_text p)))"
    using Cons.IH [of "t @ ast_text c"] Cons.prems n by simp
  show ?case
  proof (cases "ast_class c")
    case None
    then have "length t < size_sub len 1" using t(2) assms(4) by (simp add: ast_text_def size_sub_no_wrap)
    moreover have "ast_text c = [c]" using None by (simp add: ast_text_def)
    ultimately show ?thesis using IH None t Cons.prems(2) by (simp add: holds_strlen holds_put)
  next
    case (Some e)
    then have "ast_text c = e" by (simp add: ast_text_def)
    then show ?thesis using IH t Cons.prems(2) Some by (simp add: holds_strlen holds_strncat)
  qed
qed simp

text \<open>A class that does not fit makes \<open>strncat\<close> put its NUL behind the buffer.\<close>

lemma strncat_overruns:
  assumes "CHR 0x00 \<notin> set t" and "length t < len" and "length t + length e \<ge> len"
  shows "buf_strncat (holds_text len t) e (len - length t) = Inl Out_of_bounds"
proof -
  have "length (holds_text len t) = len" using assms(2) by (simp add: holds_text_def)
  then show ?thesis using assms by (simp add: buf_strncat_def holds_strlen mem_write_def)
qed

section \<open>The properties\<close>

text \<open>a dotted address is private exactly when it lies in one of the listed networks: 0/8, 1/8, 2/8, 10/8, 127/8, 255/8, 169.254/16, 172.16/12, 192.168/16 and 192.0.2/24.\<close>

theorem lan_addr_networks:
  "switch_is_lan_addr (Some (quad_text a b c d)) \<longleftrightarrow>
   a \<in> {0, 1, 2, 10, 127, 255} \<or> (a = 169 \<and> b = 254) \<or> (a = 172 \<and> 16 \<le> b \<and> b < 32) \<or> (a = 192 \<and> b = 168) \<or> (a = 192 \<and> b = 0 \<and> c = 2)"
proof -
  have one: "prefix (dotted_net [x]) (quad_text a b c d) \<longleftrightarrow> a = x" for x by (auto simp: quad_text_def prefix_decimal)
  have two: "prefix (dotted_net [x, y]) (quad_text a b c d) \<longleftrightarrow> a = x \<and> b = y" for x y by (auto simp: quad_text_def prefix_decimal)
  have three: "prefix (dotted_net [x, y, z]) (quad_text a b c d) \<longleftrightarrow> a = x \<and> b = y \<and> c = z" for x y z by (auto simp: quad_text_def prefix_decimal)
  have "list_ex (\<lambda>ns. prefix (dotted_net ns) (quad_text a b c d)) (map (\<lambda>y. [172, y]) [16..<32]) \<longleftrightarrow> a = 172 \<and> 16 \<le> b \<and> b < 32"
    unfolding list_ex_iff set_map set_upt by (auto simp del: dotted_net.simps simp: two)
  note nets = this
  have "switch_is_lan_addr (Some (quad_text a b c d)) \<longleftrightarrow>
    (a = 10 \<or> a = 192 \<and> b = 168 \<or> a = 127 \<or> a = 255 \<or> a = 0 \<or> a = 1 \<or> a = 2) \<or> (a = 172 \<and> 16 \<le> b \<and> b < 32) \<or>
    (a = 192 \<and> b = 0 \<and> c = 2 \<or> a = 169 \<and> b = 254)"
    unfolding lan_quad lan_nets_def list_ex_append nets by (simp del: dotted_net.simps upt_conv_Cons add: one two three)
  then show ?thesis by blast
qed

text \<open>a pattern whose expression fits the buffer with its terminator becomes that expression, anchored at both ends; one character less room for a class at the end and the code writes behind the buffer.\<close>

theorem ast2regex_outcome:
  assumes "CHR 0x00 \<notin> set pat" and "len < size_max" and "length (concat (map ast_text pat)) + 2 < len"
  shows "switch_ast2regex (Some pat) len =
      Inr (pat \<noteq> ''^'' @ concat (map ast_text pat) @ ''$'', holds_text len (''^'' @ concat (map ast_text pat) @ ''$''))"
proof -
  let ?t = "''^'' @ concat (map ast_text pat)"
  have "\<forall>x\<in>set pat. CHR 0x00 \<notin> set (ast_text x)" using assms(1) ast_text_no_nul by metis
  then have n: "CHR 0x00 \<notin> set ?t" by simp
  have 1: "buf_put (replicate len CHR 0x00) CHR ''^'' = Inr (holds_text len ''^'')"
    using holds_put [of "[]" len "CHR ''^''"] assms(3) by (simp add: holds_text_def)
  have 2: "ast_loop pat len (holds_text len ''^'') = Inr (holds_text len ?t)" by (rule ast_loop_fits) (use assms in auto)
  have 3: "buf_put (holds_text len ?t) CHR ''$'' = Inr (holds_text len (?t @ ''$''))" by (rule holds_put [OF n]) (use assms in simp)
  have 4: "buf_strlen (holds_text len (?t @ ''$'')) = Inr (length (?t @ ''$''))" by (rule holds_strlen) (use n assms in auto)
  have 5: "take (length (?t @ ''$'')) (holds_text len (?t @ ''$'')) = ?t @ ''$''" unfolding holds_text_def by simp
  show ?thesis unfolding switch_ast2regex_def option.case 1 fbind_Inr 2 3 4 5 by simp
qed

theorem ast2regex_outcome_witness:
  "\<exists>buf. switch_ast2regex (Some ''1NX.'') 64 = Inr (True, buf)"
  using ast2regex_outcome [of "''1NX.''" 64] by (simp add: size_max_def ast_text_def ast_class_def)

lemma ast2regex_overruns: "switch_ast2regex (Some ''NNN'') 16 = Inl Out_of_bounds"
proof -
  have 1: "buf_put (replicate 16 CHR 0x00) CHR ''^'' = Inr (holds_text 16 ''^'')"
    using holds_put [of "[]" 16 "CHR ''^''"] by (simp add: holds_text_def)
  have 2: "ast_loop ''NN'' 16 (holds_text 16 ''^'') = Inr (holds_text 16 ''^[2-9][2-9]'')"
    using ast_loop_fits [of "''NN''" "''^''" 16] by (simp add: ast_text_def ast_class_def size_max_def)
  have 3: "buf_strlen (holds_text 16 ''^'') = Inr 1" "buf_strlen (holds_text 16 ''^[2-9]'') = Inr 6" "buf_strlen (holds_text 16 ''^[2-9][2-9]'') = Inr 11"
    using holds_strlen [of "''^''" 16] holds_strlen [of "''^[2-9]''" 16] holds_strlen [of "''^[2-9][2-9]''" 16] by simp_all
  have 4: "buf_strncat (holds_text 16 ''^'') ''[2-9]'' 15 = Inr (holds_text 16 ''^[2-9]'')"
    "buf_strncat (holds_text 16 ''^[2-9]'') ''[2-9]'' 10 = Inr (holds_text 16 ''^[2-9][2-9]'')"
    using holds_strncat [of "''^''" "''[2-9]''" 16] holds_strncat [of "''^[2-9]''" "''[2-9]''" 16] by simp_all
  have 5: "buf_strncat (holds_text 16 ''^[2-9][2-9]'') ''[2-9]'' 5 = Inl Out_of_bounds"
    using strncat_overruns [of "''^[2-9][2-9]''" 16 "''[2-9]''"] by simp
  have "ast_class CHR ''N'' = Some ''[2-9]''" by (simp add: ast_class_def)
  then have "ast_loop ''NNN'' 16 (holds_text 16 ''^'') = Inl Out_of_bounds" using 3 4 5 by simp
  then show ?thesis using 1 by (simp add: switch_ast2regex_def)
qed

text \<open>A SIP address is taken apart into its user and its host, without scheme, port and parameters.\<close>

theorem split_user_domain_parts:
  assumes "CHR ''@'' \<notin> set u" and "list_all (\<lambda>c. c \<noteq> CHR '':'' \<and> c \<noteq> CHR '';'' \<and> c \<noteq> CHR '' '') h"
    and "rest = [] \<or> hd rest \<in> {CHR '':'', CHR '';'', CHR '' ''}"
  shows "switch_split_user_domain (''sip:'' @ u @ CHR ''@'' # h @ rest) = (Some u, h)"
proof -
  have "takeWhile (\<lambda>c. c \<noteq> CHR '':'' \<and> c \<noteq> CHR '';'' \<and> c \<noteq> CHR '' '') (h @ rest) = h"
    using assms(2,3) by (cases rest) (auto simp: list_all_iff takeWhile_append2)
  then show ?thesis using assms(1) by (simp add: switch_split_user_domain_def Let_def strncasecmp_eq_def)
qed

text \<open>Printing a number keeps its digits; ten digits get the country code 1.\<close>

theorem format_number_digits:
  assumes "list_all is_digit n" and "n \<noteq> []"
  shows "map_option (filter is_digit) (switch_format_number (Some n)) = Some (if length n = 10 then CHR ''1'' # n else n)"
proof -
  obtain c cs where n: "n = c # cs" using assms(2) by (cases n) auto
  have c: "is_digit c" using assms(1) n by simp
  then have s: "c \<noteq> CHR ''+''" "c \<noteq> CHR ''-''" by (auto simp: is_digit_def char_code_def)
  have num: "switch_is_number n" using assms(1) s by (simp add: n switch_is_number_def list_all_iff)
  have all: "is_digit (n ! i)" if "i < length n" for i using assms(1) that by (simp add: list_all_length)
  have lit: "\<not> is_digit CHR ''(''" "\<not> is_digit CHR '')''" "is_digit CHR ''1''" by (simp_all add: is_digit_def char_code_def)
  have f: "filter is_digit n = n" using assms(1) by (simp add: list_all_iff)
  have e: "switch_format_number (Some n) =
      (if length n = 11 \<and> n ! 0 = CHR ''1'' then
         Some ([n ! 0] @ '' ('' @ [n ! 1, n ! 2, n ! 3] @ '') '' @ [n ! 4, n ! 5, n ! 6] @ ''-'' @ [n ! 7, n ! 8, n ! 9, n ! 10])
       else if length n = 10 then
         Some (''1 ('' @ [n ! 0, n ! 1, n ! 2] @ '') '' @ [n ! 3, n ! 4, n ! 5] @ ''-'' @ [n ! 6, n ! 7, n ! 8, n ! 9])
       else Some n)"
    using s num unfolding n switch_format_number_def by (simp only: option.case list.case list.sel Let_def if_False simp_thms)
  consider "length n = 11" "n ! 0 = CHR ''1''" | "length n = 10" | "\<not> (length n = 11 \<and> n ! 0 = CHR ''1'')" "length n \<noteq> 10" by blast
  then show ?thesis
  proof cases
    case 1
    then obtain a b c d e f g h i j k where "n = [a, b, c, d, e, f, g, h, i, j, k]" by (auto simp: length_Suc_conv eval_nat_numeral)
    then show ?thesis unfolding e using 1 assms(1) lit by simp
  next
    case 2
    then obtain a b c d e f g h i j where "n = [a, b, c, d, e, f, g, h, i, j]" by (auto simp: length_Suc_conv eval_nat_numeral)
    then show ?thesis unfolding e using 2 assms(1) lit by simp
  next
    case 3
    then show ?thesis unfolding e if_not_P [OF 3(1)] if_not_P [OF 3(2)] using f by simp
  qed
qed

text \<open>Digits and the letters A to D survive the conversion to a tone number and back.\<close>

theorem dtmf_number_roundtrip:
  assumes "0 \<le> i" and "i < 14"
  shows "switch_dtmftoi [switch_itodtmf i] = i"
proof (cases "i < 10")
  case True
  define c where "c = (char_of (48 + nat i) :: char)"
  have c: "is_digit c" "digit_val c = i" using digit_char [of "nat i"] True assms(1) by (simp_all add: c_def)
  then have n: "\<not> is_space c" "c \<noteq> CHR ''-''" "c \<noteq> CHR ''+''" by (auto simp: is_digit_def is_space_def char_code_def)
  have "unat (ascii_lower (char_byte c)) < 65" by (rule low_char_lower) (use c(1) in \<open>auto simp: is_digit_def\<close>)
  then have "\<not> int (unat (ascii_lower (char_byte c))) > 96" by linarith
  moreover have "atoi [c] = i" using c n by (simp add: atoi_def)
  moreover have "switch_itodtmf i = c" using True assms(1) by (simp add: switch_itodtmf_def c_def nat_add_distrib add.commute)
  ultimately show ?thesis unfolding switch_dtmftoi_def Let_def list.case by (simp only: if_False simp_thms) simp
next
  case False
  have l: "char_of (65 :: nat) = CHR ''A''" "char_of (66 :: nat) = CHR ''B''" "char_of (67 :: nat) = CHR ''C''" "char_of (68 :: nat) = CHR ''D''"
    by (simp_all add: char_of_def bit_numeral_rec bit_Suc_0_iff)
  from False assms have "i = 10 \<or> i = 11 \<or> i = 12 \<or> i = 13" by linarith
  then show ?thesis
    by (elim disjE)
      (simp_all add: switch_dtmftoi_def switch_itodtmf_def l atoi_def is_space_def is_digit_def char_code_def char_byte_def ascii_lower_def)
qed

end
