(* ===== verification/Caller.thy ===== *)
theory Caller
  imports Event String_Safety "HOL-Library.Sublist"
begin

text \<open>
  Caller profiles and extensions, src/switch\_caller.c: creating and duplicating a profile, reading a
  field by its name, writing a profile into the headers of an event, and building and cloning the
  list of applications an extension executes. A string is optional because it is a pointer; pools are
  not modelled, and the identifier of a new profile is a parameter. The lemmas show which fields a
  duplicate keeps, that the headers of an event spell the profile, and that a clone continues where
  the original stands.
\<close>

section \<open>Data\<close>

datatype switch_call_direction = SWITCH_CALL_DIRECTION_INBOUND | SWITCH_CALL_DIRECTION_OUTBOUND

record timetable =
  profile_created :: int
  created :: int
  answered :: int
  progress :: int
  progress_media :: int
  hungup :: int
  transferred :: int
  resurrected :: int
  bridged :: int
  last_hold :: int
  hold_accum :: int

record profile_flags =
  SWITCH_CPF_SCREEN :: bool
  SWITCH_CPF_HIDE_NAME :: bool
  SWITCH_CPF_HIDE_NUMBER :: bool

record switch_caller_profile =
  pf_username :: "string option"
  pf_dialplan :: "string option"
  pf_caller_id_name :: "string option"
  pf_caller_id_number :: "string option"
  pf_orig_caller_id_name :: "string option"
  pf_orig_caller_id_number :: "string option"
  pf_callee_id_name :: "string option"
  pf_callee_id_number :: "string option"
  pf_caller_ton :: nat
  pf_caller_numplan :: nat
  pf_network_addr :: "string option"
  pf_ani :: "string option"
  pf_ani_ton :: nat
  pf_ani_numplan :: nat
  pf_aniii :: "string option"
  pf_rdnis :: "string option"
  pf_rdnis_ton :: nat
  pf_rdnis_numplan :: nat
  pf_destination_number :: "string option"
  pf_destination_number_ton :: nat
  pf_destination_number_numplan :: nat
  pf_source :: "string option"
  pf_chan_name :: "string option"
  pf_uuid :: "string option"
  pf_context :: "string option"
  pf_profile_index :: "string option"
  pf_flags :: profile_flags
  pf_times :: "timetable option"
  pf_old_times :: "timetable option"
  pf_direction :: switch_call_direction
  pf_logical_direction :: switch_call_direction
  pf_soft :: "(string \<times> string option) list"
  pf_uuid_str :: "string option"
  pf_clone_of :: "string option"
  pf_transfer_source :: "string option"

definition SWITCH_DEFAULT_CLID_NAME :: string where "SWITCH_DEFAULT_CLID_NAME = []"
definition SWITCH_DEFAULT_CLID_NUMBER :: string where "SWITCH_DEFAULT_CLID_NUMBER = ''0000000000''"
definition SWITCH_TON_UNDEF :: nat where "SWITCH_TON_UNDEF = 255"
definition SWITCH_NUMPLAN_UNDEF :: nat where "SWITCH_NUMPLAN_UNDEF = 255"

text \<open>Freshly allocated memory is zero.\<close>

definition zero_times :: timetable where
  "zero_times = \<lparr>profile_created = 0, created = 0, answered = 0, progress = 0, progress_media = 0, hungup = 0,
     transferred = 0, resurrected = 0, bridged = 0, last_hold = 0, hold_accum = 0\<rparr>"

definition zero_profile :: switch_caller_profile where
  "zero_profile = \<lparr>pf_username = None, pf_dialplan = None, pf_caller_id_name = None, pf_caller_id_number = None,
     pf_orig_caller_id_name = None, pf_orig_caller_id_number = None, pf_callee_id_name = None, pf_callee_id_number = None,
     pf_caller_ton = 0, pf_caller_numplan = 0, pf_network_addr = None, pf_ani = None, pf_ani_ton = 0, pf_ani_numplan = 0,
     pf_aniii = None, pf_rdnis = None, pf_rdnis_ton = 0, pf_rdnis_numplan = 0, pf_destination_number = None,
     pf_destination_number_ton = 0, pf_destination_number_numplan = 0, pf_source = None, pf_chan_name = None, pf_uuid = None,
     pf_context = None, pf_profile_index = None,
     pf_flags = \<lparr>SWITCH_CPF_SCREEN = False, SWITCH_CPF_HIDE_NAME = False, SWITCH_CPF_HIDE_NUMBER = False\<rparr>,
     pf_times = None, pf_old_times = None, pf_direction = SWITCH_CALL_DIRECTION_INBOUND,
     pf_logical_direction = SWITCH_CALL_DIRECTION_INBOUND, pf_soft = [], pf_uuid_str = None, pf_clone_of = None,
     pf_transfer_source = None\<rparr>"

definition profile_dup :: "string option \<Rightarrow> string option" where
  "profile_dup a = (if \<not> zstr a then a else Some [])"

definition profile_dup_clean :: "string option \<Rightarrow> string option" where
  "profile_dup_clean a =
     (case a of Some s \<Rightarrow> if s \<noteq> [] then Some (switch_var_clean_string (switch_clean_string s)) else Some [] | None \<Rightarrow> Some [])"

section \<open>Creating and copying\<close>

definition switch_caller_profile_new ::
  "string \<Rightarrow> string option \<Rightarrow> string option \<Rightarrow> string option \<Rightarrow> string option \<Rightarrow> string option \<Rightarrow> string option \<Rightarrow>
   string option \<Rightarrow> string option \<Rightarrow> string option \<Rightarrow> string option \<Rightarrow> string option \<Rightarrow> switch_caller_profile" where
  "switch_caller_profile_new uuid_str username dialplan caller_id_name caller_id_number network_addr ani aniii rdnis src ctx destination_number =
     (let ctx = (case ctx of None \<Rightarrow> Some ''default'' | Some c \<Rightarrow> Some c);
          caller_id_name = (if zstr caller_id_name then Some SWITCH_DEFAULT_CLID_NAME else caller_id_name);
          caller_id_number = (if zstr caller_id_number then Some SWITCH_DEFAULT_CLID_NUMBER else caller_id_number);
          ani = (if zstr ani then caller_id_number else ani)
      in zero_profile\<lparr>pf_uuid_str := Some uuid_str,
           pf_username := profile_dup_clean username,
           pf_dialplan := profile_dup_clean dialplan,
           pf_caller_id_name := profile_dup_clean caller_id_name,
           pf_caller_id_number := profile_dup_clean caller_id_number,
           pf_orig_caller_id_name := profile_dup_clean caller_id_name,
           pf_orig_caller_id_number := profile_dup_clean caller_id_number,
           pf_caller_ton := SWITCH_TON_UNDEF,
           pf_caller_numplan := SWITCH_NUMPLAN_UNDEF,
           pf_network_addr := profile_dup_clean network_addr,
           pf_ani := profile_dup_clean ani,
           pf_ani_ton := SWITCH_TON_UNDEF,
           pf_ani_numplan := SWITCH_NUMPLAN_UNDEF,
           pf_aniii := profile_dup_clean aniii,
           pf_rdnis := profile_dup_clean rdnis,
           pf_rdnis_ton := SWITCH_TON_UNDEF,
           pf_rdnis_numplan := SWITCH_NUMPLAN_UNDEF,
           pf_source := profile_dup_clean src,
           pf_context := profile_dup_clean ctx,
           pf_destination_number := profile_dup_clean destination_number,
           pf_destination_number_ton := SWITCH_TON_UNDEF,
           pf_destination_number_numplan := SWITCH_NUMPLAN_UNDEF,
           pf_uuid := Some [],
           pf_chan_name := Some [],
           pf_callee_id_name := Some [],
           pf_callee_id_number := Some [],
           pf_flags := (pf_flags zero_profile)\<lparr>SWITCH_CPF_SCREEN := True\<rparr>\<rparr>)"

text \<open>Duplicating a profile that has no times gives the original a blank table of times.\<close>

definition switch_caller_profile_dup ::
  "string \<Rightarrow> switch_caller_profile \<Rightarrow> switch_caller_profile \<times> switch_caller_profile" where
  "switch_caller_profile_dup uuid_str tocopy =
     (zero_profile\<lparr>pf_uuid_str := Some uuid_str,
        pf_clone_of := pf_uuid_str tocopy,
        pf_username := profile_dup (pf_username tocopy),
        pf_dialplan := profile_dup (pf_dialplan tocopy),
        pf_caller_id_name := profile_dup (pf_caller_id_name tocopy),
        pf_caller_id_number := profile_dup (pf_caller_id_number tocopy),
        pf_callee_id_name := profile_dup (pf_callee_id_name tocopy),
        pf_callee_id_number := profile_dup (pf_callee_id_number tocopy),
        pf_orig_caller_id_name := profile_dup (pf_orig_caller_id_name tocopy),
        pf_orig_caller_id_number := profile_dup (pf_orig_caller_id_number tocopy),
        pf_network_addr := profile_dup (pf_network_addr tocopy),
        pf_ani := profile_dup (pf_ani tocopy),
        pf_aniii := profile_dup (pf_aniii tocopy),
        pf_rdnis := profile_dup (pf_rdnis tocopy),
        pf_source := profile_dup (pf_source tocopy),
        pf_context := profile_dup (pf_context tocopy),
        pf_destination_number := profile_dup (pf_destination_number tocopy),
        pf_uuid := profile_dup (pf_uuid tocopy),
        pf_chan_name := profile_dup (pf_chan_name tocopy),
        pf_caller_ton := pf_caller_ton tocopy,
        pf_caller_numplan := pf_caller_numplan tocopy,
        pf_ani_ton := pf_ani_ton tocopy,
        pf_ani_numplan := pf_ani_numplan tocopy,
        pf_rdnis_ton := pf_rdnis_ton tocopy,
        pf_rdnis_numplan := pf_rdnis_numplan tocopy,
        pf_destination_number_ton := pf_destination_number_ton tocopy,
        pf_destination_number_numplan := pf_destination_number_numplan tocopy,
        pf_flags := pf_flags tocopy,
        pf_direction := pf_direction tocopy,
        pf_old_times := pf_times tocopy,
        pf_soft := pf_soft tocopy\<rparr>,
      case pf_times tocopy of Some _ \<Rightarrow> tocopy | None \<Rightarrow> tocopy\<lparr>pf_times := Some zero_times\<rparr>)"

definition switch_caller_profile_clone ::
  "string \<Rightarrow> switch_caller_profile \<Rightarrow> switch_caller_profile \<times> switch_caller_profile" where
  "switch_caller_profile_clone uuid_str tocopy = switch_caller_profile_dup uuid_str tocopy"

section \<open>Reading a field\<close>

text \<open>\<open>%lld\<close> of a time in microseconds.\<close>

definition signed_decimal :: "int \<Rightarrow> string" where
  "signed_decimal v = (if v < 0 then CHR ''-'' # decimal (nat (- v)) else decimal (nat v))"

definition truth :: "bool \<Rightarrow> string" where
  "truth b = (if b then ''true'' else ''false'')"

definition time_field :: "(timetable \<Rightarrow> int) \<Rightarrow> switch_caller_profile \<Rightarrow> fault + string option" where
  "time_field f p = (case pf_times p of None \<Rightarrow> Inl Null_pointer | Some t \<Rightarrow> Inr (Some (signed_decimal (f t))))"

definition caller_fields :: "(string \<times> (switch_caller_profile \<Rightarrow> fault + string option)) list" where
  "caller_fields =
     [(''dialplan'', \<lambda>p. Inr (pf_dialplan p)),
      (''username'', \<lambda>p. Inr (pf_username p)),
      (''caller_id_name'', \<lambda>p. Inr (pf_caller_id_name p)),
      (''caller_id_number'', \<lambda>p. Inr (pf_caller_id_number p)),
      (''orig_caller_id_name'', \<lambda>p. Inr (pf_orig_caller_id_name p)),
      (''orig_caller_id_number'', \<lambda>p. Inr (pf_orig_caller_id_number p)),
      (''callee_id_name'', \<lambda>p. Inr (pf_callee_id_name p)),
      (''callee_id_number'', \<lambda>p. Inr (pf_callee_id_number p)),
      (''ani'', \<lambda>p. Inr (pf_ani p)),
      (''aniii'', \<lambda>p. Inr (pf_aniii p)),
      (''network_addr'', \<lambda>p. Inr (pf_network_addr p)),
      (''rdnis'', \<lambda>p. Inr (pf_rdnis p)),
      (''destination_number'', \<lambda>p. Inr (pf_destination_number p)),
      (''uuid'', \<lambda>p. Inr (pf_uuid p)),
      (''source'', \<lambda>p. Inr (pf_source p)),
      (''transfer_source'', \<lambda>p. Inr (pf_transfer_source p)),
      (''context'', \<lambda>p. Inr (pf_context p)),
      (''chan_name'', \<lambda>p. Inr (pf_chan_name p)),
      (''profile_index'', \<lambda>p. Inr (pf_profile_index p)),
      (''caller_ton'', \<lambda>p. Inr (Some (decimal (pf_caller_ton p)))),
      (''caller_numplan'', \<lambda>p. Inr (Some (decimal (pf_caller_numplan p)))),
      (''destination_number_ton'', \<lambda>p. Inr (Some (decimal (pf_destination_number_ton p)))),
      (''destination_number_numplan'', \<lambda>p. Inr (Some (decimal (pf_destination_number_numplan p)))),
      (''ani_ton'', \<lambda>p. Inr (Some (decimal (pf_ani_ton p)))),
      (''ani_numplan'', \<lambda>p. Inr (Some (decimal (pf_ani_numplan p)))),
      (''rdnis_ton'', \<lambda>p. Inr (Some (decimal (pf_rdnis_ton p)))),
      (''rdnis_numplan'', \<lambda>p. Inr (Some (decimal (pf_rdnis_numplan p)))),
      (''screen_bit'', \<lambda>p. Inr (Some (truth (SWITCH_CPF_SCREEN (pf_flags p))))),
      (''privacy_hide_name'', \<lambda>p. Inr (Some (truth (SWITCH_CPF_HIDE_NAME (pf_flags p))))),
      (''privacy_hide_number'', \<lambda>p. Inr (Some (truth (SWITCH_CPF_HIDE_NUMBER (pf_flags p))))),
      (''profile_created_time'', time_field profile_created),
      (''created_time'', time_field created),
      (''answered_time'', time_field answered),
      (''progress_time'', time_field progress),
      (''progress_media_time'', time_field progress_media),
      (''hungup_time'', time_field hungup),
      (''transferred_time'', time_field transferred)]"

definition switch_caller_get_field_by_name :: "switch_caller_profile \<Rightarrow> string \<Rightarrow> fault + string option" where
  "switch_caller_get_field_by_name caller_profile name =
     (case find (\<lambda>(n, f). strcasecmp_eq name n) caller_fields of
        Some (n, f) \<Rightarrow> f caller_profile
      | None \<Rightarrow> Inr None)"

section \<open>Writing the headers of an event\<close>

definition direction_text :: "switch_call_direction \<Rightarrow> string" where
  "direction_text d = (if d = SWITCH_CALL_DIRECTION_INBOUND then ''inbound'' else ''outbound'')"

definition header_if :: "string option \<Rightarrow> string \<Rightarrow> string option \<Rightarrow> (string \<times> string option) list" where
  "header_if cond sfx v = (if \<not> zstr cond then [(sfx, v)] else [])"

definition string_headers :: "switch_caller_profile \<Rightarrow> (string \<times> string option) list" where
  "string_headers p =
     [(''-Direction'', Some (direction_text (pf_direction p))),
      (''-Logical-Direction'', Some (direction_text (pf_logical_direction p)))] @
     header_if (pf_username p) ''-Username'' (pf_username p) @
     header_if (pf_dialplan p) ''-Dialplan'' (pf_dialplan p) @
     header_if (pf_caller_id_name p) ''-Caller-ID-Name'' (pf_caller_id_name p) @
     header_if (pf_caller_id_number p) ''-Caller-ID-Number'' (pf_caller_id_number p) @
     header_if (pf_caller_id_name p) ''-Orig-Caller-ID-Name'' (pf_orig_caller_id_name p) @
     header_if (pf_caller_id_number p) ''-Orig-Caller-ID-Number'' (pf_orig_caller_id_number p) @
     header_if (pf_callee_id_name p) ''-Callee-ID-Name'' (pf_callee_id_name p) @
     header_if (pf_callee_id_number p) ''-Callee-ID-Number'' (pf_callee_id_number p) @
     header_if (pf_network_addr p) ''-Network-Addr'' (pf_network_addr p) @
     header_if (pf_ani p) ''-ANI'' (pf_ani p) @
     header_if (pf_aniii p) ''-ANI-II'' (pf_aniii p) @
     header_if (pf_destination_number p) ''-Destination-Number'' (pf_destination_number p) @
     header_if (pf_uuid p) ''-Unique-ID'' (pf_uuid p) @
     header_if (pf_source p) ''-Source'' (pf_source p) @
     header_if (pf_transfer_source p) ''-Transfer-Source'' (pf_transfer_source p) @
     header_if (pf_context p) ''-Context'' (pf_context p) @
     header_if (pf_rdnis p) ''-RDNIS'' (pf_rdnis p) @
     header_if (pf_chan_name p) ''-Channel-Name'' (pf_chan_name p) @
     header_if (pf_profile_index p) ''-Profile-Index'' (pf_profile_index p)"

definition time_headers :: "switch_caller_profile \<Rightarrow> (string \<times> string option) list" where
  "time_headers p =
     (case (case pf_times p of Some t \<Rightarrow> Some t | None \<Rightarrow> pf_old_times p) of
        None \<Rightarrow> []
      | Some t \<Rightarrow>
          map (\<lambda>(n, v). (n, Some (signed_decimal v)))
            [(''-Profile-Created-Time'', profile_created t), (''-Channel-Created-Time'', created t),
             (''-Channel-Answered-Time'', answered t), (''-Channel-Progress-Time'', progress t),
             (''-Channel-Progress-Media-Time'', progress_media t), (''-Channel-Hangup-Time'', hungup t),
             (''-Channel-Transfer-Time'', transferred t), (''-Channel-Resurrect-Time'', resurrected t),
             (''-Channel-Bridged-Time'', bridged t), (''-Channel-Last-Hold'', last_hold t),
             (''-Channel-Hold-Accum'', hold_accum t)])"

definition flag_headers :: "switch_caller_profile \<Rightarrow> (string \<times> string option) list" where
  "flag_headers p =
     [(''-Screen-Bit'', Some (truth (SWITCH_CPF_SCREEN (pf_flags p)))),
      (''-Privacy-Hide-Name'', Some (truth (SWITCH_CPF_HIDE_NAME (pf_flags p)))),
      (''-Privacy-Hide-Number'', Some (truth (SWITCH_CPF_HIDE_NUMBER (pf_flags p))))]"

text \<open>The name of a header is printed into a buffer of 1024 bytes; soft headers bring their own names.\<close>

definition add_named :: "string \<times> string option \<Rightarrow> switch_event \<Rightarrow> switch_event" where
  "add_named h ev = snd (switch_event_add_header_string ev STACK_BOTTOM (fst h) (snd h))"

definition prefixed :: "string \<Rightarrow> (string \<times> string option) list \<Rightarrow> (string \<times> string option) list" where
  "prefixed pre hs = map (\<lambda>(sfx, v). (take 1023 (pre @ sfx), v)) hs"

definition switch_caller_profile_event_set_data :: "switch_caller_profile \<Rightarrow> string \<Rightarrow> switch_event \<Rightarrow> switch_event" where
  "switch_caller_profile_event_set_data p pre ev =
     fold add_named
       (prefixed pre (string_headers p) @ pf_soft p @ prefixed pre (time_headers p) @ prefixed pre (flag_headers p)) ev"

section \<open>Extensions\<close>

text \<open>
  The chain of applications is a list, and a pointer to an application its index in the list;
  \<open>last_application->next = x\<close> makes \<open>x\<close> the end of the chain.
\<close>

type_synonym ext_application = "string option \<times> string option"

record caller_extension =
  ex_name :: "string option"
  ex_number :: "string option"
  ex_applications :: "ext_application list"
  ex_current :: "nat option"
  ex_last :: "nat option"

definition switch_caller_extension_new :: "string option \<Rightarrow> string option \<Rightarrow> caller_extension" where
  "switch_caller_extension_new extension_name extension_number =
     \<lparr>ex_name = extension_name, ex_number = extension_number, ex_applications = [], ex_current = None, ex_last = None\<rparr>"

definition chain_application :: "ext_application \<Rightarrow> caller_extension \<Rightarrow> caller_extension" where
  "chain_application a ext =
     (let apps = (if ex_applications ext = [] then [a]
                  else (case ex_last ext of Some l \<Rightarrow> take (l + 1) (ex_applications ext) @ [a] | None \<Rightarrow> ex_applications ext))
      in ext\<lparr>ex_applications := apps, ex_last := Some (length apps - 1)\<rparr>)"

definition bad_sequence :: string where
  "bad_sequence = [CHR 0x5C, CHR 0x27]"

definition switch_caller_extension_add_application ::
  "caller_extension \<Rightarrow> string option \<Rightarrow> string option \<Rightarrow> caller_extension" where
  "switch_caller_extension_add_application ext application_name application_data =
     (if (case application_data of Some d \<Rightarrow> contains bad_sequence d | None \<Rightarrow> False) then ext
      else (chain_application (application_name, application_data) ext)\<lparr>ex_current := Some 0\<rparr>)"

text \<open>\<open>data\<close> is the formatted text, \<open>None\<close> when formatting fails.\<close>

definition switch_caller_extension_add_application_printf ::
  "caller_extension \<Rightarrow> string option \<Rightarrow> string option \<Rightarrow> caller_extension" where
  "switch_caller_extension_add_application_printf ext application_name data =
     (case data of
        None \<Rightarrow> ext
      | Some d \<Rightarrow> if contains bad_sequence d then ext
                  else switch_caller_extension_add_application ext application_name (Some d))"

text \<open>The loop over the original's chain: \<open>i\<close> is the index of \<open>ap\<close>, \<open>matched\<close> whether the current one was met.\<close>

primrec clone_loop :: "ext_application list \<Rightarrow> nat \<Rightarrow> bool \<Rightarrow> nat option \<Rightarrow> caller_extension \<Rightarrow> caller_extension" where
  "clone_loop [] i matched cur ext = ext"
| "clone_loop (ap # aps) i matched cur ext =
     (if \<not> matched \<and> cur \<noteq> Some i then clone_loop aps (i + 1) False cur ext
      else let ext = chain_application ap ext;
               ext = (if cur = Some i then ext\<lparr>ex_current := ex_last ext\<rparr> else ext)
           in clone_loop aps (i + 1) True cur ext)"

definition switch_caller_extension_clone :: "caller_extension \<Rightarrow> switch_status \<times> caller_extension" where
  "switch_caller_extension_clone orig =
     (SWITCH_STATUS_SUCCESS,
      clone_loop (ex_applications orig) 0 False (ex_current orig)
        (switch_caller_extension_new (ex_name orig) (ex_number orig)))"

section \<open>Building and cloning an extension\<close>

text \<open>What the operations keep: the last pointer is the end of the chain, the current one lies in it.\<close>

definition ext_ok :: "caller_extension \<Rightarrow> bool" where
  "ext_ok ext \<longleftrightarrow>
     ex_last ext = (if ex_applications ext = [] then None else Some (length (ex_applications ext) - 1)) \<and>
     (\<forall>i. ex_current ext = Some i \<longrightarrow> i < length (ex_applications ext))"

lemma chain_ok:
  assumes "ex_last ext = (if ex_applications ext = [] then None else Some (length (ex_applications ext) - 1))"
  shows "chain_application a ext = ext\<lparr>ex_applications := ex_applications ext @ [a], ex_last := Some (length (ex_applications ext))\<rparr>"
  using assms by (simp add: chain_application_def Let_def)

lemma clone_loop_matched:
  assumes "ex_last ext = (if ex_applications ext = [] then None else Some (length (ex_applications ext) - 1))"
    and "\<forall>j. cur = Some j \<longrightarrow> j < i"
  shows "clone_loop aps i True cur ext =
    (if aps = [] then ext
     else ext\<lparr>ex_applications := ex_applications ext @ aps, ex_last := Some (length (ex_applications ext @ aps) - 1)\<rparr>)"
  using assms
proof (induction aps arbitrary: i ext)
  case (Cons ap aps)
  let ?e = "ext\<lparr>ex_applications := ex_applications ext @ [ap], ex_last := Some (length (ex_applications ext))\<rparr>"
  have "cur \<noteq> Some i" using Cons.prems(2) by auto
  then have "clone_loop (ap # aps) i True cur ext = clone_loop aps (i + 1) True cur ?e" using chain_ok [OF Cons.prems(1), of ap] by simp
  moreover have "clone_loop aps (i + 1) True cur ?e =
    (if aps = [] then ?e else ?e\<lparr>ex_applications := ex_applications ?e @ aps, ex_last := Some (length (ex_applications ?e @ aps) - 1)\<rparr>)"
    by (rule Cons.IH) (use Cons.prems in \<open>auto simp: less_Suc_eq\<close>)
  ultimately show ?case by simp
qed simp

lemma clone_loop_search:
  assumes "\<forall>j. cur = Some j \<longrightarrow> i \<le> j"
  shows "clone_loop aps i False cur (switch_caller_extension_new n m) =
    (case cur of
       None \<Rightarrow> switch_caller_extension_new n m
     | Some j \<Rightarrow> if j - i < length aps
         then \<lparr>ex_name = n, ex_number = m, ex_applications = drop (j - i) aps, ex_current = Some 0, ex_last = Some (length aps - (j - i) - 1)\<rparr>
         else switch_caller_extension_new n m)"
  using assms
proof (induction aps arbitrary: i)
  case Nil
  then show ?case by (simp split: option.splits)
next
  case (Cons ap aps)
  show ?case
  proof (cases "cur = Some i")
    case True
    let ?e = "\<lparr>ex_name = n, ex_number = m, ex_applications = [ap], ex_current = Some 0, ex_last = Some 0\<rparr>"
    have "clone_loop (ap # aps) i False cur (switch_caller_extension_new n m) = clone_loop aps (i + 1) True cur ?e"
      using True by (simp add: switch_caller_extension_new_def chain_application_def Let_def)
    moreover have "clone_loop aps (i + 1) True cur ?e =
      (if aps = [] then ?e else ?e\<lparr>ex_applications := ex_applications ?e @ aps, ex_last := Some (length (ex_applications ?e @ aps) - 1)\<rparr>)"
      by (rule clone_loop_matched) (use True in auto)
    ultimately show ?thesis using True by simp
  next
    case False
    have c: "\<forall>j. cur = Some j \<longrightarrow> i + 1 \<le> j" using Cons.prems False by (auto simp: Suc_le_eq le_neq_implies_less)
    have e: "clone_loop (ap # aps) i False cur (switch_caller_extension_new n m) = clone_loop aps (i + 1) False cur (switch_caller_extension_new n m)"
      using False by simp
    note IH = Cons.IH [OF c]
    show ?thesis
    proof (cases cur)
      case None
      then show ?thesis using e IH by simp
    next
      case (Some j)
      then obtain k where "j = i + Suc k" using c by (metis Suc_eq_plus1 add_Suc_right add_Suc_shift le_Suc_ex)
      then show ?thesis using Some IH unfolding e by simp
    qed
  qed
qed

section \<open>The headers spell the profile\<close>

lemma contains_chars: "contains pat s \<Longrightarrow> set pat \<subseteq> set s"
proof (induction pat s rule: contains.induct)
  case (1 pat s)
  show ?case
  proof (cases "take (length pat) s = pat")
    case True
    then show ?thesis by (metis set_take_subset)
  next
    case False
    then obtain c cs where "s = c # cs" "contains pat cs" using 1(2) by (subst (asm) contains.simps) (auto split: list.splits)
    then show ?thesis using 1(1) by auto
  qed
qed

lemma decimal_plain: "plain_data (signed_decimal v)"
proof -
  have "CHR ''A'' \<notin> set (signed_decimal v)"
    by (auto simp: signed_decimal_def is_digit_def char_code_def dest: decimal_no [rotated])
  then have "\<not> contains ''ARRAY::'' (signed_decimal v)" using contains_chars by fastforce
  then show ?thesis using decimal_nonempty by (simp add: plain_data_def signed_decimal_def)
qed

lemma truth_plain: "plain_data (truth b)" "plain_data (direction_text d)"
  by (simp_all add: plain_data_def truth_def direction_text_def contains.simps)

definition pairs_distinct :: "(string \<times> string option) list \<Rightarrow> bool" where
  "pairs_distinct hs \<longleftrightarrow> sorted_wrt (\<lambda>a b. \<not> strcasecmp_eq (fst a) (fst b)) hs"

definition pair_ok :: "string \<times> string option \<Rightarrow> bool" where
  "pair_ok h \<longleftrightarrow> plain_name (fst h) \<and> (case snd h of Some d \<Rightarrow> plain_data d | None \<Rightarrow> False)"

lemma add_named_scalar:
  assumes "pair_ok h" and "switch_event_get_header_ptr ev (fst h) = None"
  shows "add_named h ev = ev\<lparr>ev_headers := ev_headers ev @ [scalar (fst h) (the (snd h))]\<rparr>"
proof -
  obtain d where d: "snd h = Some d" "plain_data d" "plain_name (fst h)" using assms(1) by (auto simp: pair_ok_def split: option.splits)
  then show ?thesis using add_scalar [OF d(3,2), of STACK_BOTTOM ev] del_absent [OF assms(2)]
    by (simp add: add_named_def switch_event_add_header_string_def STACK_BOTTOM_def Let_def)
qed

lemma fold_add_named:
  assumes "list_all pair_ok hs" and "pairs_distinct hs" and "hash_ok ev" and "list_all (\<lambda>h. switch_event_get_header_ptr ev (fst h) = None) hs"
  shows "fold add_named hs ev = ev\<lparr>ev_headers := ev_headers ev @ map (\<lambda>h. scalar (fst h) (the (snd h))) hs\<rparr>"
  using assms
proof (induction hs arbitrary: ev)
  case (Cons h hs)
  let ?e = "ev\<lparr>ev_headers := ev_headers ev @ [scalar (fst h) (the (snd h))]\<rparr>"
  have e: "add_named h ev = ?e" using Cons.prems by (intro add_named_scalar) simp_all
  have ok: "hash_ok ?e" using Cons.prems(3) by (auto simp: hash_ok_def scalar_def)
  have "switch_event_get_header_ptr ?e (fst g) = None" if "g \<in> set hs" for g
  proof -
    have "\<not> strcasecmp_eq (fst h) (fst g)" using Cons.prems(2) that by (simp add: pairs_distinct_def)
    moreover have "switch_event_get_header_ptr ev (fst g) = None" using Cons.prems(4) that by (simp add: list_all_iff)
    ultimately show ?thesis using find_hash_ok [OF ok] find_hash_ok [OF Cons.prems(3)] by (simp add: find_append scalar_def)
  qed
  then have "fold add_named hs ?e = ?e\<lparr>ev_headers := ev_headers ?e @ map (\<lambda>h. scalar (fst h) (the (snd h))) hs\<rparr>"
    using Cons.IH [OF _ _ ok] Cons.prems(1,2) by (simp add: pairs_distinct_def list_all_iff)
  then show ?case by (simp add: e)
qed simp

text \<open>All suffixes, in the order in which they may appear.\<close>

definition header_names :: "string list" where
  "header_names =
     [''-Direction'', ''-Logical-Direction'', ''-Username'', ''-Dialplan'', ''-Caller-ID-Name'', ''-Caller-ID-Number'',
      ''-Orig-Caller-ID-Name'', ''-Orig-Caller-ID-Number'', ''-Callee-ID-Name'', ''-Callee-ID-Number'', ''-Network-Addr'',
      ''-ANI'', ''-ANI-II'', ''-Destination-Number'', ''-Unique-ID'', ''-Source'', ''-Transfer-Source'', ''-Context'',
      ''-RDNIS'', ''-Channel-Name'', ''-Profile-Index'', ''-Profile-Created-Time'', ''-Channel-Created-Time'',
      ''-Channel-Answered-Time'', ''-Channel-Progress-Time'', ''-Channel-Progress-Media-Time'', ''-Channel-Hangup-Time'',
      ''-Channel-Transfer-Time'', ''-Channel-Resurrect-Time'', ''-Channel-Bridged-Time'', ''-Channel-Last-Hold'',
      ''-Channel-Hold-Accum'', ''-Screen-Bit'', ''-Privacy-Hide-Name'', ''-Privacy-Hide-Number'']"

lemma header_names_distinct: "distinct (map (map (ascii_lower \<circ> char_byte)) header_names)"
  by code_simp

definition all_headers :: "switch_caller_profile \<Rightarrow> (string \<times> string option) list" where
  "all_headers p = string_headers p @ time_headers p @ flag_headers p"

lemma header_if_step: "subseq (map fst r) R \<Longrightarrow> subseq (map fst (header_if c s v @ r)) (s # R)"
  by (auto simp: header_if_def intro: list_emb_Cons)

lemma time_step: "subseq (map fst r) R \<Longrightarrow> subseq (map fst (time_headers p @ r))
    ([''-Profile-Created-Time'', ''-Channel-Created-Time'', ''-Channel-Answered-Time'', ''-Channel-Progress-Time'',
      ''-Channel-Progress-Media-Time'', ''-Channel-Hangup-Time'', ''-Channel-Transfer-Time'', ''-Channel-Resurrect-Time'',
      ''-Channel-Bridged-Time'', ''-Channel-Last-Hold'', ''-Channel-Hold-Accum''] @ R)"
  unfolding map_append by (rule list_emb_append_mono) (auto simp: time_headers_def split: option.split)

lemma all_headers_names: "subseq (map fst (all_headers p)) header_names"
proof -
  have f: "subseq (map fst (flag_headers p)) [''-Screen-Bit'', ''-Privacy-Hide-Name'', ''-Privacy-Hide-Number'']"
    by (simp add: flag_headers_def)
  note t = time_step [OF f, of p]
  show ?thesis
    unfolding all_headers_def string_headers_def append_assoc header_names_def
    by (simp only: append.simps list.map fst_conv, intro subseq_Cons2 header_if_step)
      (use t in \<open>simp only: append.simps\<close>)
qed

lemma strcasecmp_same_prefix: "strcasecmp_eq (x @ a) (x @ b) \<longleftrightarrow> strcasecmp_eq a b"
  by (simp add: strcasecmp_eq_def)

lemma subseq_distinct: "subseq xs ys \<Longrightarrow> distinct ys \<Longrightarrow> distinct xs"
  by (induction xs ys rule: list_emb.induct) (auto dest: list_emb_set)

lemma all_headers_distinct: "pairs_distinct (map (\<lambda>(n, v). (pre @ n, v)) (all_headers p))"
proof -
  have "subseq (map (map (ascii_lower \<circ> char_byte)) (map fst (all_headers p))) (map (map (ascii_lower \<circ> char_byte)) header_names)"
    using all_headers_names by (rule subseq_map)
  then have d: "distinct (map (map (ascii_lower \<circ> char_byte)) (map fst (all_headers p)))"
    by (rule subseq_distinct) (rule header_names_distinct)
  have "sorted_wrt (\<lambda>a b. \<not> strcasecmp_eq (fst a) (fst b)) (map (\<lambda>(n, v). (pre @ n, v)) hs)"
    if "distinct (map (map (ascii_lower \<circ> char_byte)) (map fst hs))" for hs :: "(string \<times> string option) list"
    using that
  proof (induction hs)
    case (Cons h hs)
    have "\<not> strcasecmp_eq (fst h) (fst g)" if "g \<in> set hs" for g
    proof
      assume "strcasecmp_eq (fst h) (fst g)"
      moreover have "map (ascii_lower \<circ> char_byte) (fst g) \<in> set (map (map (ascii_lower \<circ> char_byte)) (map fst hs))"
        unfolding set_map by (intro imageI that)
      ultimately have "map (ascii_lower \<circ> char_byte) (fst h) \<in> set (map (map (ascii_lower \<circ> char_byte)) (map fst hs))"
        unfolding strcasecmp_eq_def by (simp only:)
      then show False using Cons.prems unfolding list.map distinct.simps by blast
    qed
    then show ?case using Cons by (auto simp: strcasecmp_same_prefix split_beta)
  qed simp
  then show ?thesis unfolding pairs_distinct_def using d by blast
qed

lemma name_lengths: "list_all (\<lambda>n. length n \<le> 28 \<and> CHR ''['' \<notin> set n \<and> n \<noteq> [] \<and> hd n = CHR ''-'') header_names"
  by (simp add: header_names_def)

lemma all_headers_name:
  assumes "h \<in> set (all_headers p)"
  shows "length (fst h) \<le> 28" "CHR ''['' \<notin> set (fst h)" "pre @ fst h \<noteq> ''_body''"
proof -
  have m: "fst h \<in> set (map fst (all_headers p))" using assms by simp
  have "fst h \<in> set header_names" using list_emb_set [OF all_headers_names m] by blast
  then have n: "length (fst h) \<le> 28 \<and> CHR ''['' \<notin> set (fst h) \<and> fst h \<noteq> [] \<and> hd (fst h) = CHR ''-''"
    using name_lengths by (simp add: list_all_iff)
  then show "length (fst h) \<le> 28" "CHR ''['' \<notin> set (fst h)" by simp_all
  have "CHR ''-'' \<in> set (pre @ fst h)" using n by (metis Un_iff hd_in_set set_append)
  moreover have "CHR ''-'' \<notin> set ''_body''" by simp
  ultimately show "pre @ fst h \<noteq> ''_body''" by metis
qed

lemma prefixed_short: "length pre \<le> 995 \<Longrightarrow> hs \<in> {string_headers p, time_headers p, flag_headers p} \<Longrightarrow>
  prefixed pre hs = map (\<lambda>(n, v). (pre @ n, v)) hs"
proof -
  assume l: "length pre \<le> 995" and hs: "hs \<in> {string_headers p, time_headers p, flag_headers p}"
  have "length (fst h) \<le> 28" if "h \<in> set hs" for h
    by (rule all_headers_name(1) [of h p]) (use hs that in \<open>auto simp: all_headers_def\<close>)
  then show ?thesis unfolding prefixed_def using l by (intro map_cong refl) fastforce
qed

text \<open>The headers are appended, and looking up a suffix gives the value it was written with.\<close>

lemma event_headers_spec:
  assumes "hash_ok ev" and "length pre \<le> 995" and "CHR ''['' \<notin> set pre" and "pf_soft p = []"
    and "list_all (\<lambda>h. case snd h of Some d \<Rightarrow> plain_data d | None \<Rightarrow> False) (string_headers p)"
    and "list_all (\<lambda>h. switch_event_get_header_ptr ev (pre @ fst h) = None) (all_headers p)"
  shows "ev_headers (switch_caller_profile_event_set_data p pre ev) =
      ev_headers ev @ map (\<lambda>h. scalar (pre @ fst h) (the (snd h))) (all_headers p) \<and>
    list_all (\<lambda>h. switch_event_get_header (switch_caller_profile_event_set_data p pre ev) (pre @ fst h) = snd h) (all_headers p)"
proof
  let ?hs = "map (\<lambda>(n, v). (pre @ n, v)) (all_headers p)"
  let ?e = "switch_caller_profile_event_set_data p pre ev"
  have set: "?e = fold add_named ?hs ev"
    unfolding switch_caller_profile_event_set_data_def all_headers_def
    using prefixed_short [OF assms(2), of "string_headers p" p] prefixed_short [OF assms(2), of "time_headers p" p]
      prefixed_short [OF assms(2), of "flag_headers p" p] by (simp add: assms(4))
  have vals: "case snd h of Some d \<Rightarrow> plain_data d | None \<Rightarrow> False" if "h \<in> set (all_headers p)" for h
  proof -
    have "case snd h of Some d \<Rightarrow> plain_data d | None \<Rightarrow> False" if "h \<in> set (time_headers p)"
      using that by (auto simp: time_headers_def decimal_plain split: option.splits)
    moreover have "case snd h of Some d \<Rightarrow> plain_data d | None \<Rightarrow> False" if "h \<in> set (flag_headers p)"
      using that by (auto simp: flag_headers_def truth_plain)
    ultimately show ?thesis using that assms(5) by (auto simp: all_headers_def list_all_iff)
  qed
  have ok: "list_all pair_ok ?hs"
    using vals all_headers_name(2,3) assms(3) by (auto simp: list_all_iff pair_ok_def plain_name_def split_beta)
  have absent: "list_all (\<lambda>h. switch_event_get_header_ptr ev (fst h) = None) ?hs" using assms(6) by (auto simp: list_all_iff)
  have "?e = ev\<lparr>ev_headers := ev_headers ev @ map (\<lambda>h. scalar (fst h) (the (snd h))) ?hs\<rparr>"
    unfolding set by (rule fold_add_named [OF ok all_headers_distinct assms(1) absent])
  then have e: "?e = ev\<lparr>ev_headers := ev_headers ev @ map (\<lambda>h. scalar (pre @ fst h) (the (snd h))) (all_headers p)\<rparr>"
    by (simp add: o_def split_beta)
  then show "ev_headers ?e = ev_headers ev @ map (\<lambda>h. scalar (pre @ fst h) (the (snd h))) (all_headers p)" by simp
  have hok: "hash_ok ?e" using assms(1) by (auto simp: e hash_ok_def scalar_def)
  have "switch_event_get_header ?e (pre @ fst h) = snd h" if h: "h \<in> set (all_headers p)" for h
  proof -
    let ?P = "\<lambda>hp. strcasecmp_eq (h_name hp) (pre @ fst h)"
    obtain xs ys where xy: "all_headers p = xs @ h # ys" using split_list [OF h] by blast
    have "\<not> strcasecmp_eq (pre @ fst g) (pre @ fst h)" if "g \<in> set xs" for g
      using all_headers_distinct [of pre p] that unfolding xy pairs_distinct_def by (auto simp: sorted_wrt_append split_beta)
    then have f: "find ?P (map (\<lambda>h. scalar (pre @ fst h) (the (snd h))) (all_headers p)) = Some (scalar (pre @ fst h) (the (snd h)))"
      unfolding xy by (simp add: find_append find_None_iff scalar_def option.case_eq_if)
    have "find ?P (ev_headers ev) = None" using assms(6) h find_hash_ok [OF assms(1)] by (simp add: list_all_iff)
    then have "switch_event_get_header_ptr ?e (pre @ fst h) = Some (scalar (pre @ fst h) (the (snd h)))"
      unfolding find_hash_ok [OF hok] by (simp add: e find_append f)
    then show ?thesis using vals [OF h] by (auto simp: get_header_find scalar_def split: option.splits)
  qed
  then show "list_all (\<lambda>h. switch_event_get_header ?e (pre @ fst h) = snd h) (all_headers p)" by (simp add: list_all_iff)
qed

lemma event_headers_absent:
  assumes "hash_ok ev" and "length pre \<le> 995" and "CHR ''['' \<notin> set pre" and "pf_soft p = []"
    and "list_all (\<lambda>h. case snd h of Some d \<Rightarrow> plain_data d | None \<Rightarrow> False) (string_headers p)"
    and fresh: "list_all (\<lambda>n. switch_event_get_header_ptr ev (pre @ n) = None) header_names"
    and n: "n \<in> set header_names" "n \<notin> fst ` set (all_headers p)"
  shows "switch_event_get_header (switch_caller_profile_event_set_data p pre ev) (pre @ n) = None"
proof -
  let ?e = "switch_caller_profile_event_set_data p pre ev"
  have names: "fst h \<in> set header_names" if "h \<in> set (all_headers p)" for h
    using list_emb_set [OF all_headers_names, of "fst h" p] that by auto
  have "list_all (\<lambda>h. switch_event_get_header_ptr ev (pre @ fst h) = None) (all_headers p)" using fresh names by (auto simp: list_all_iff)
  then have e: "ev_headers ?e = ev_headers ev @ map (\<lambda>h. scalar (pre @ fst h) (the (snd h))) (all_headers p)"
    using event_headers_spec [OF assms(1-5)] by blast
  have hok: "hash_ok ?e" using assms(1) by (auto simp: e hash_ok_def scalar_def)
  have "\<not> strcasecmp_eq (pre @ fst h) (pre @ n)" if h: "h \<in> set (all_headers p)" for h
  proof
    assume "strcasecmp_eq (pre @ fst h) (pre @ n)"
    then have "map (ascii_lower \<circ> char_byte) (fst h) = map (ascii_lower \<circ> char_byte) n"
      unfolding strcasecmp_same_prefix by (simp only: strcasecmp_eq_def)
    moreover have "inj_on (map (ascii_lower \<circ> char_byte)) (set header_names)" using header_names_distinct unfolding distinct_map by blast
    ultimately have "fst h = n" using names [OF h] n(1) by (meson inj_onD)
    then show False using n(2) h by blast
  qed
  then have "find (\<lambda>hp. strcasecmp_eq (h_name hp) (pre @ n)) (map (\<lambda>h. scalar (pre @ fst h) (the (snd h))) (all_headers p)) = None"
    unfolding find_None_iff by (auto simp: scalar_def)
  moreover have "find (\<lambda>hp. strcasecmp_eq (h_name hp) (pre @ n)) (ev_headers ev) = None"
    using fresh n(1) find_hash_ok [OF assms(1)] by (simp add: list_all_iff)
  ultimately have "switch_event_get_header_ptr ?e (pre @ n) = None" unfolding find_hash_ok [OF hok] by (simp add: e find_append)
  moreover have "pre @ n \<noteq> ''_body''"
  proof -
    have "n \<noteq> [] \<and> hd n = CHR ''-''" using name_lengths n(1) unfolding list_all_iff by blast
    then have "CHR ''-'' \<in> set (pre @ n)" by (metis Un_iff hd_in_set set_append)
    moreover have "CHR ''-'' \<notin> set ''_body''" by simp
    ultimately show ?thesis by metis
  qed
  ultimately show ?thesis by (simp add: get_header_find)
qed

text \<open>The headers beside the names \<open>switch_caller_get_field_by_name\<close> knows their fields by.\<close>

definition header_fields :: "(string \<times> string) list" where
  "header_fields =
     [(''-Username'', ''username''), (''-Dialplan'', ''dialplan''), (''-Caller-ID-Name'', ''caller_id_name''),
      (''-Caller-ID-Number'', ''caller_id_number''), (''-Callee-ID-Name'', ''callee_id_name''), (''-Callee-ID-Number'', ''callee_id_number''),
      (''-Network-Addr'', ''network_addr''), (''-ANI'', ''ani''), (''-ANI-II'', ''aniii''), (''-Destination-Number'', ''destination_number''),
      (''-Unique-ID'', ''uuid''), (''-Source'', ''source''), (''-Transfer-Source'', ''transfer_source''), (''-Context'', ''context''),
      (''-RDNIS'', ''rdnis''), (''-Channel-Name'', ''chan_name''), (''-Profile-Index'', ''profile_index''),
      (''-Profile-Created-Time'', ''profile_created_time''), (''-Channel-Created-Time'', ''created_time''),
      (''-Channel-Answered-Time'', ''answered_time''), (''-Channel-Progress-Time'', ''progress_time''),
      (''-Channel-Progress-Media-Time'', ''progress_media_time''), (''-Channel-Hangup-Time'', ''hungup_time''),
      (''-Channel-Transfer-Time'', ''transferred_time''), (''-Screen-Bit'', ''screen_bit''),
      (''-Privacy-Hide-Name'', ''privacy_hide_name''), (''-Privacy-Hide-Number'', ''privacy_hide_number'')]"

definition profile_strings :: "switch_caller_profile \<Rightarrow> string option list" where
  "profile_strings p =
     [pf_username p, pf_dialplan p, pf_caller_id_name p, pf_caller_id_number p, pf_orig_caller_id_name p, pf_orig_caller_id_number p,
      pf_callee_id_name p, pf_callee_id_number p, pf_network_addr p, pf_ani p, pf_aniii p, pf_destination_number p, pf_uuid p, pf_source p,
      pf_transfer_source p, pf_context p, pf_rdnis p, pf_chan_name p, pf_profile_index p]"

definition non_empty :: "string option \<Rightarrow> string option" where
  "non_empty x = (if x = Some [] then None else x)"

lemma map_of_header_if: "map_of (header_if c s v @ r) n = (if s = n \<and> \<not> zstr c then Some v else map_of r n)"
  by (simp add: header_if_def)

lemma list_all_header_if: "list_all P (header_if c s v) \<longleftrightarrow> zstr c \<or> P (s, v)"
  by (simp add: header_if_def)

lemma string_headers_plain:
  assumes "list_all (\<lambda>x. zstr x \<or> plain_data (the x)) (profile_strings p)"
    and "zstr (pf_orig_caller_id_name p) \<longrightarrow> zstr (pf_caller_id_name p)"
    and "zstr (pf_orig_caller_id_number p) \<longrightarrow> zstr (pf_caller_id_number p)"
  shows "list_all (\<lambda>h. case snd h of Some d \<Rightarrow> plain_data d | None \<Rightarrow> False) (string_headers p)"
proof -
  have "list_all (\<lambda>x. zstr x \<or> (case x of Some d \<Rightarrow> plain_data d | None \<Rightarrow> False)) (profile_strings p)"
    by (rule list.pred_mono_strong [OF assms(1)]) (auto simp: zstr_def split: option.splits)
  note b = this [unfolded profile_strings_def list.pred_inject]
  have o: "zstr c \<or> (case x of Some d \<Rightarrow> plain_data d | None \<Rightarrow> False)"
    if "zstr x \<or> (case x of Some d \<Rightarrow> plain_data d | None \<Rightarrow> False)" and "zstr x \<longrightarrow> zstr c" for x c
    using that by blast
  show ?thesis unfolding string_headers_def list_all_append list_all_header_if list.pred_inject snd_conv option.case
    using b by (intro conjI truth_plain TrueI) (use assms(2,3) o in simp_all)
qed

lemma header_lookup:
  assumes "hash_ok ev" and "length pre \<le> 995" and "CHR ''['' \<notin> set pre" and "pf_soft p = []"
    and "list_all (\<lambda>x. zstr x \<or> plain_data (the x)) (profile_strings p)"
    and "zstr (pf_orig_caller_id_name p) \<longrightarrow> zstr (pf_caller_id_name p)"
    and "zstr (pf_orig_caller_id_number p) \<longrightarrow> zstr (pf_caller_id_number p)"
    and fresh: "list_all (\<lambda>n. switch_event_get_header_ptr ev (pre @ n) = None) header_names"
    and n: "n \<in> set header_names"
  shows "switch_event_get_header (switch_caller_profile_event_set_data p pre ev) (pre @ n) =
    (case map_of (all_headers p) n of None \<Rightarrow> None | Some v \<Rightarrow> v)"
proof -
  note s = string_headers_plain [OF assms(5-7)]
  have names: "fst h \<in> set header_names" if "h \<in> set (all_headers p)" for h
    using list_emb_set [OF all_headers_names, of "fst h" p] that by auto
  have f: "list_all (\<lambda>h. switch_event_get_header_ptr ev (pre @ fst h) = None) (all_headers p)" using fresh names by (auto simp: list_all_iff)
  show ?thesis
  proof (cases "map_of (all_headers p) n")
    case None
    then have "n \<notin> fst ` set (all_headers p)" by (simp add: map_of_eq_None_iff)
    then show ?thesis using event_headers_absent [OF assms(1-4) s fresh n] None by simp
  next
    case (Some v)
    then have "(n, v) \<in> set (all_headers p)" by (rule map_of_SomeD)
    then show ?thesis using event_headers_spec [OF assms(1-4) s f] Some unfolding list_all_iff by fastforce
  qed
qed

lemma caller_fields_distinct: "distinct (map (map (ascii_lower \<circ> char_byte)) (map fst caller_fields))"
  by code_simp

lemma field_entry:
  assumes "(n, f) \<in> set caller_fields"
  shows "switch_caller_get_field_by_name p n = f p"
proof -
  obtain xs ys where xy: "caller_fields = xs @ (n, f) # ys" using split_list [OF assms] by blast
  have "\<not> strcasecmp_eq n (fst g)" if g: "g \<in> set xs" for g
  proof
    assume "strcasecmp_eq n (fst g)"
    then have "map (ascii_lower \<circ> char_byte) n = map (ascii_lower \<circ> char_byte) (fst g)" by (simp only: strcasecmp_eq_def)
    moreover have "map (ascii_lower \<circ> char_byte) n \<notin> set (map (map (ascii_lower \<circ> char_byte)) (map fst xs))"
      using caller_fields_distinct unfolding xy by simp
    ultimately show False using g by simp
  qed
  then have "find (\<lambda>(m, f). strcasecmp_eq n m) xs = None" unfolding find_None_iff by (auto simp: split_beta)
  then have "find (\<lambda>(m, f). strcasecmp_eq n m) caller_fields = Some (n, f)" by (simp add: xy find_append strcasecmp_eq_def)
  then show ?thesis by (simp add: switch_caller_get_field_by_name_def)
qed

lemma non_empty_values: "non_empty (Some (signed_decimal v)) = Some (signed_decimal v)" "non_empty (Some (truth b)) = Some (truth b)"
  using decimal_plain [of v] truth_plain(1) [of b] by (auto simp: non_empty_def plain_data_def)

lemma headers_of_fields:
  assumes "pf_times p = Some t" and "(n, f) \<in> set header_fields"
  shows "\<exists>x. switch_caller_get_field_by_name p f = Inr x \<and> n \<in> set header_names \<and>
    (case map_of (all_headers p) n of None \<Rightarrow> None | Some v \<Rightarrow> v) = non_empty x"
proof -
  have t: "time_headers p =
      map (\<lambda>(n, v). (n, Some (signed_decimal v)))
        [(''-Profile-Created-Time'', profile_created t), (''-Channel-Created-Time'', created t),
         (''-Channel-Answered-Time'', answered t), (''-Channel-Progress-Time'', progress t),
         (''-Channel-Progress-Media-Time'', progress_media t), (''-Channel-Hangup-Time'', hungup t),
         (''-Channel-Transfer-Time'', transferred t), (''-Channel-Resurrect-Time'', resurrected t),
         (''-Channel-Bridged-Time'', bridged t), (''-Channel-Last-Hold'', last_hold t),
         (''-Channel-Hold-Accum'', hold_accum t)]"
    by (simp add: time_headers_def assms(1))
  have u: "\<not> zstr x \<Longrightarrow> non_empty x = x" "zstr x \<Longrightarrow> non_empty x = None" for x by (auto simp: non_empty_def zstr_def)
  have "list_all (\<lambda>(n, f). n \<in> set header_names \<and>
      (case map_of caller_fields f of None \<Rightarrow> False
       | Some g \<Rightarrow> (case g p of Inl _ \<Rightarrow> False
                  | Inr x \<Rightarrow> (case map_of (all_headers p) n of None \<Rightarrow> None | Some v \<Rightarrow> v) = non_empty x))) header_fields"
    unfolding header_fields_def list.pred_inject prod.case
    by (intro conjI TrueI)
      (simp_all add: header_names_def caller_fields_def all_headers_def string_headers_def flag_headers_def t map_of_header_if u
        time_field_def assms(1) non_empty_values del: map_of_append)
  then have "case map_of caller_fields f of None \<Rightarrow> False
       | Some g \<Rightarrow> (case g p of Inl _ \<Rightarrow> False
                  | Inr x \<Rightarrow> (case map_of (all_headers p) n of None \<Rightarrow> None | Some v \<Rightarrow> v) = non_empty x)" "n \<in> set header_names"
    using assms(2) unfolding list_all_iff by fastforce+
  then show ?thesis using map_of_SomeD [of caller_fields f] field_entry [of f _ p] by (auto split: option.splits sum.splits)
qed

text \<open>C31: after a profile has been written into an event, the event answers each of 27 headers of the profile as \<open>switch_caller_get_field_by_name\<close> answers the field of that name, an empty field by the header's absence; the direction headers spell the directions, and the original caller id is written only beside a caller id. The profile has its times and no soft headers; its strings are no array notation, and where it has a caller id it has an original one; the prefix has at most 995 characters, without an opening bracket; and the event has none of the headers yet.\<close>

theorem caller_event_headers:
  assumes "hash_ok ev" and "length pre \<le> 995" and "CHR ''['' \<notin> set pre" and "pf_soft p = []" and "pf_times p = Some t"
    and "list_all (\<lambda>x. zstr x \<or> plain_data (the x)) (profile_strings p)"
    and "zstr (pf_orig_caller_id_name p) \<longrightarrow> zstr (pf_caller_id_name p)"
    and "zstr (pf_orig_caller_id_number p) \<longrightarrow> zstr (pf_caller_id_number p)"
    and "list_all (\<lambda>n. switch_event_get_header_ptr ev (pre @ n) = None) header_names"
    and "ev' = switch_caller_profile_event_set_data p pre ev"
  shows "list_all (\<lambda>(n, f). \<exists>x. switch_caller_get_field_by_name p f = Inr x \<and> switch_event_get_header ev' (pre @ n) = non_empty x) header_fields \<and>
    switch_event_get_header ev' (pre @ ''-Direction'') =
      Some (if pf_direction p = SWITCH_CALL_DIRECTION_INBOUND then ''inbound'' else ''outbound'') \<and>
    switch_event_get_header ev' (pre @ ''-Logical-Direction'') =
      Some (if pf_logical_direction p = SWITCH_CALL_DIRECTION_INBOUND then ''inbound'' else ''outbound'') \<and>
    switch_event_get_header ev' (pre @ ''-Orig-Caller-ID-Name'') = (if zstr (pf_caller_id_name p) then None else pf_orig_caller_id_name p) \<and>
    switch_event_get_header ev' (pre @ ''-Orig-Caller-ID-Number'') = (if zstr (pf_caller_id_number p) then None else pf_orig_caller_id_number p)"
proof -
  note look = header_lookup [OF assms(1-4,6-9), folded assms(10)]
  have "list_all (\<lambda>(n, f). \<exists>x. switch_caller_get_field_by_name p f = Inr x \<and> switch_event_get_header ev' (pre @ n) = non_empty x) header_fields"
    unfolding list_all_iff using headers_of_fields [OF assms(5)] look by fastforce
  moreover have "''-Direction'' \<in> set header_names" "''-Logical-Direction'' \<in> set header_names"
    "''-Orig-Caller-ID-Name'' \<in> set header_names" "''-Orig-Caller-ID-Number'' \<in> set header_names"
    by (simp_all add: header_names_def)
  note look [OF this(1)] look [OF this(2)] look [OF this(3)] look [OF this(4)]
  ultimately show ?thesis
    by (simp add: all_headers_def string_headers_def map_of_header_if direction_text_def time_headers_def flag_headers_def assms(5) del: map_of_append)
qed

definition plain_profile :: switch_caller_profile where
  "plain_profile = switch_caller_profile_new ''u1'' (Some ''bob'') None (Some ''Bob'') (Some ''1001'') None None None None None None (Some ''1002'')"

definition blank_event :: switch_event where
  "blank_event = \<lparr>ev_id = 0, ev_subclass = None, ev_headers = [], ev_body = None, ev_uniq = False\<rparr>"

theorem caller_event_headers_witness:
  "let ev = switch_caller_profile_event_set_data (plain_profile\<lparr>pf_times := Some zero_times\<rparr>) ''Caller'' blank_event
   in switch_event_get_header ev ''Caller-Destination-Number'' = Some ''1002'' \<and> switch_event_get_header ev ''Caller-RDNIS'' = None \<and>
      switch_event_get_header ev ''Caller-Direction'' = Some ''inbound''"
proof -
  let ?p = "plain_profile\<lparr>pf_times := Some zero_times\<rparr>"
  let ?ev = "switch_caller_profile_event_set_data ?p ''Caller'' blank_event"
  have h: "hash_ok blank_event" "list_all (\<lambda>n. switch_event_get_header_ptr blank_event (''Caller'' @ n) = None) header_names"
    by (simp_all add: blank_event_def hash_ok_def switch_event_get_header_ptr_def list_all_iff)
  have p: "list_all (\<lambda>x. zstr x \<or> plain_data (the x)) (profile_strings ?p)" "pf_soft ?p = []" by code_simp+
  have o: "\<not> zstr (pf_orig_caller_id_name ?p)" "\<not> zstr (pf_orig_caller_id_number ?p)" by code_simp+
  have d: "pf_destination_number ?p = Some ''1002''" "non_empty (pf_rdnis ?p) = None" "pf_direction ?p = SWITCH_CALL_DIRECTION_INBOUND" by code_simp+
  have f: "switch_caller_get_field_by_name ?p ''destination_number'' = Inr (pf_destination_number ?p)"
    "switch_caller_get_field_by_name ?p ''rdnis'' = Inr (pf_rdnis ?p)"
    by (rule field_entry [THEN trans], simp add: caller_fields_def, simp)+
  note t = caller_event_headers [OF h(1) _ _ p(2) _ p(1) _ _ h(2) refl]
  have a: "list_all (\<lambda>(n, f). \<exists>x. switch_caller_get_field_by_name ?p f = Inr x \<and> switch_event_get_header ?ev (''Caller'' @ n) = non_empty x) header_fields"
    "switch_event_get_header ?ev (''Caller'' @ ''-Direction'') = Some ''inbound''"
    using t [of zero_times] o d(3) by simp_all
  have "(''-Destination-Number'', ''destination_number'') \<in> set header_fields" "(''-RDNIS'', ''rdnis'') \<in> set header_fields"
    by (simp_all add: header_fields_def)
  then have "switch_event_get_header ?ev (''Caller'' @ ''-Destination-Number'') = non_empty (pf_destination_number ?p)"
    "switch_event_get_header ?ev (''Caller'' @ ''-RDNIS'') = non_empty (pf_rdnis ?p)"
    using a(1) f unfolding list_all_iff by fastforce+
  then show ?thesis using a(2) d by (simp add: non_empty_def)
qed

section \<open>New and duplicate profiles\<close>

text \<open>C30: no field of a new profile contains a variable reference, whatever the strings it was made of.\<close>

theorem caller_new_disarmed:
  "list_all (\<lambda>(n, f). case f (switch_caller_profile_new u a b c d e f' g h i j k) of Inr (Some v) \<Rightarrow> \<not> switch_string_var_check_const v | _ \<Rightarrow> True) caller_fields"
proof -
  have nil: "\<not> switch_string_var_check_const []" by (simp add: switch_string_var_check_const_def)
  have clean: "\<exists>v. profile_dup_clean x = Some v \<and> \<not> switch_string_var_check_const v" for x
    using nil var_clean_safe by (auto simp: profile_dup_clean_def split: option.splits)
  have p: "case profile_dup_clean x of None \<Rightarrow> True | Some v \<Rightarrow> \<not> switch_string_var_check_const v" for x
    using clean [of x] by auto
  have num: "\<not> switch_string_var_check_const (decimal 255)" "\<not> switch_string_var_check_const (truth t)" for t
    by code_simp (simp add: truth_def switch_string_var_check_const_def)
  show ?thesis
    unfolding caller_fields_def list.pred_inject prod.case switch_caller_profile_new_def zero_profile_def Let_def time_field_def
    by (simp add: nil num SWITCH_TON_UNDEF_def SWITCH_NUMPLAN_UNDEF_def p)
qed

text \<open>The fields a duplicate does not take over.\<close>

definition dropped_fields :: "string list" where
  "dropped_fields = [''transfer_source'', ''profile_index'', ''profile_created_time'', ''created_time'', ''answered_time'',
     ''progress_time'', ''progress_media_time'', ''hungup_time'', ''transferred_time'']"

lemma profile_dup_number: "profile_dup (Some (decimal n)) = Some (decimal n)" "profile_dup (Some (truth b)) = Some (truth b)"
  by (simp_all add: profile_dup_def zstr_def decimal_nonempty truth_def)

text \<open>a duplicate answers every field by name as the original does, an absent string as an empty one, except for the transfer source, the profile index and the times; the times of the original become its old times.\<close>

theorem caller_dup_fields:
  "list_all (\<lambda>(n, f). n \<notin> set dropped_fields \<longrightarrow> f (fst (switch_caller_profile_dup u p)) = map_sum id profile_dup (f p)) caller_fields \<and>
   pf_old_times (fst (switch_caller_profile_dup u p)) = pf_times p \<and> pf_soft (fst (switch_caller_profile_dup u p)) = pf_soft p \<and>
   pf_clone_of (fst (switch_caller_profile_dup u p)) = pf_uuid_str p"
  by (simp add: caller_fields_def dropped_fields_def switch_caller_profile_dup_def zero_profile_def profile_dup_number)

text \<open>The logical direction and the transfer source of a profile are lost in a duplicate.\<close>

lemma caller_dup_forgets:
  "pf_logical_direction (fst (switch_caller_profile_dup u p)) = SWITCH_CALL_DIRECTION_INBOUND \<and>
   pf_transfer_source (fst (switch_caller_profile_dup u p)) = None \<and> pf_profile_index (fst (switch_caller_profile_dup u p)) = None"
  by (simp add: switch_caller_profile_dup_def zero_profile_def)

text \<open>an extension built by adding applications executes them in the order of the additions, without those whose argument has the forbidden sequence, and a clone of an extension holds the applications from the current one on and starts with it.\<close>

theorem extension_clone_continues:
  assumes "ext_ok ext"
  shows "ext_ok (switch_caller_extension_add_application ext n d) \<and>
    ex_applications (switch_caller_extension_add_application ext n d) =
      ex_applications ext @ (if (case d of Some x \<Rightarrow> contains bad_sequence x | None \<Rightarrow> False) then [] else [(n, d)]) \<and>
    ext_ok (snd (switch_caller_extension_clone ext)) \<and>
    ex_applications (snd (switch_caller_extension_clone ext)) =
      (case ex_current ext of None \<Rightarrow> [] | Some i \<Rightarrow> drop i (ex_applications ext)) \<and>
    ex_current (snd (switch_caller_extension_clone ext)) = map_option (\<lambda>_. 0) (ex_current ext)"
proof -
  have l: "ex_last ext = (if ex_applications ext = [] then None else Some (length (ex_applications ext) - 1))"
    using assms by (simp add: ext_ok_def)
  have a: "ext_ok (switch_caller_extension_add_application ext n d)" 
    using assms by (auto simp: switch_caller_extension_add_application_def chain_ok [OF l] ext_ok_def)
  have b: "ex_applications (switch_caller_extension_add_application ext n d) =
      ex_applications ext @ (if (case d of Some x \<Rightarrow> contains bad_sequence x | None \<Rightarrow> False) then [] else [(n, d)])"
    by (simp add: switch_caller_extension_add_application_def chain_ok [OF l])
  have c: "snd (switch_caller_extension_clone ext) =
    (case ex_current ext of None \<Rightarrow> switch_caller_extension_new (ex_name ext) (ex_number ext)
     | Some j \<Rightarrow> \<lparr>ex_name = ex_name ext, ex_number = ex_number ext, ex_applications = drop j (ex_applications ext), ex_current = Some 0,
         ex_last = Some (length (ex_applications ext) - j - 1)\<rparr>)"
    using clone_loop_search [of "ex_current ext" 0 "ex_applications ext" "ex_name ext" "ex_number ext"] assms
    by (auto simp: switch_caller_extension_clone_def ext_ok_def split: option.splits)
  show ?thesis unfolding c using a b assms
    by (auto simp: ext_ok_def switch_caller_extension_new_def split: option.splits)
qed

theorem extension_clone_continues_witness:
  "ex_applications (snd (switch_caller_extension_clone
     \<lparr>ex_name = Some ''x'', ex_number = None, ex_applications = [(Some ''answer'', None), (Some ''park'', None)], ex_current = Some 1, ex_last = Some 1\<rparr>)) =
   [(Some ''park'', None)]"
proof -
  have "ext_ok \<lparr>ex_name = Some ''x'', ex_number = None, ex_applications = [(Some ''answer'', None), (Some ''park'', None)], ex_current = Some 1, ex_last = Some 1\<rparr>"
    by (simp add: ext_ok_def)
  from extension_clone_continues [OF this, of None None] show ?thesis by simp
qed

end
