(* ===== verification/Event_Bus.thy ===== *)
theory Event_Bus
  imports Caller Text_Tools Channel_Names
begin

text \<open>
  The event bus of src/switch\_event.c: the names of event types, reservations of custom subclasses,
  bindings of callbacks to types and subclasses, the headers every event is born with, firing, the queue
  of the dispatch threads and delivery. Its contract is a list of subscriptions, newest first: a delivery
  calls the matching subscriptions to the type of the event and then those to all types, and a
  subscription taken back is never called again. With the dispatch thread the contract has the queue of
  fired events beside the subscriptions: events are delivered one after the other in the order of firing,
  each to the subscriptions of the moment.
\<close>

section \<open>Names of event types\<close>

definition EVENT_NAMES :: "string list" where
  "EVENT_NAMES =
    [''CUSTOM'', ''CLONE'', ''CHANNEL_CREATE'', ''CHANNEL_DESTROY'', ''CHANNEL_STATE'', ''CHANNEL_CALLSTATE'',
     ''CHANNEL_ANSWER'', ''CHANNEL_HANGUP'', ''CHANNEL_HANGUP_COMPLETE'', ''CHANNEL_EXECUTE'',
     ''CHANNEL_EXECUTE_COMPLETE'', ''CHANNEL_HOLD'', ''CHANNEL_UNHOLD'', ''CHANNEL_BRIDGE'', ''CHANNEL_UNBRIDGE'',
     ''CHANNEL_PROGRESS'', ''CHANNEL_PROGRESS_MEDIA'', ''CHANNEL_OUTGOING'', ''CHANNEL_PARK'', ''CHANNEL_UNPARK'',
     ''CHANNEL_APPLICATION'', ''CHANNEL_ORIGINATE'', ''CHANNEL_UUID'', ''API'', ''LOG'', ''INBOUND_CHAN'',
     ''OUTBOUND_CHAN'', ''STARTUP'', ''SHUTDOWN'', ''PUBLISH'', ''UNPUBLISH'', ''TALK'', ''NOTALK'',
     ''SESSION_CRASH'', ''MODULE_LOAD'', ''MODULE_UNLOAD'', ''DTMF'', ''MESSAGE'', ''PRESENCE_IN'', ''NOTIFY_IN'',
     ''PRESENCE_OUT'', ''PRESENCE_PROBE'', ''MESSAGE_WAITING'', ''MESSAGE_QUERY'', ''ROSTER'', ''CODEC'',
     ''BACKGROUND_JOB'', ''DETECTED_SPEECH'', ''DETECTED_TONE'', ''PRIVATE_COMMAND'', ''HEARTBEAT'', ''TRAP'',
     ''ADD_SCHEDULE'', ''DEL_SCHEDULE'', ''EXE_SCHEDULE'', ''RE_SCHEDULE'', ''RELOADXML'', ''NOTIFY'',
     ''PHONE_FEATURE'', ''PHONE_FEATURE_SUBSCRIBE'', ''SEND_MESSAGE'', ''RECV_MESSAGE'', ''REQUEST_PARAMS'',
     ''CHANNEL_DATA'', ''GENERAL'', ''COMMAND'', ''SESSION_HEARTBEAT'', ''CLIENT_DISCONNECTED'',
     ''SERVER_DISCONNECTED'', ''SEND_INFO'', ''RECV_INFO'', ''RECV_RTCP_MESSAGE'', ''CALL_SECURE'', ''NAT'',
     ''RECORD_START'', ''RECORD_STOP'', ''PLAYBACK_START'', ''PLAYBACK_STOP'', ''CALL_UPDATE'', ''FAILURE'',
     ''SOCKET_DATA'', ''MEDIA_BUG_START'', ''MEDIA_BUG_STOP'', ''CONFERENCE_DATA_QUERY'', ''CONFERENCE_DATA'',
     ''CALL_SETUP_REQ'', ''CALL_SETUP_RESULT'', ''CALL_DETAIL'', ''DEVICE_STATE'', ''ALL'']"

definition SWITCH_EVENT_ALL :: nat where "SWITCH_EVENT_ALL = 89"
definition SWITCH_EVENT_PRESENCE_IN :: nat where "SWITCH_EVENT_PRESENCE_IN = 38"

definition switch_event_name :: "nat \<Rightarrow> fault + string" where
  "switch_event_name event = (if event < length EVENT_NAMES then Inr (EVENT_NAMES ! event) else Inl Out_of_bounds)"

text \<open>\<open>name + 13\<close> skips the \<open>SWITCH_EVENT_\<close> of the name of an enumeration constant.\<close>

definition name_hits :: "string \<Rightarrow> string \<Rightarrow> bool" where
  "name_hits name x \<longleftrightarrow> (length name > 13 \<and> strcasecmp_eq (drop 13 name) x) \<or> strcasecmp_eq name x"

definition switch_name_event :: "string \<Rightarrow> nat option" where
  "switch_name_event name = find (\<lambda>x. name_hits name (EVENT_NAMES ! x)) [0..<Suc SWITCH_EVENT_ALL]"

section \<open>The bus\<close>

text \<open>
  A node has an address, \<open>en_ref\<close>; callbacks and user data are addresses too. \<open>CUSTOM_HASH\<close> is a core hash
  table with exact keys, which is a dictionary, so it is a map here; \<open>SYSTEM_RUNNING\<close> is -1 before the
  start and 0 after the end.
\<close>

record event_node =
  en_ref :: nat
  en_id :: string
  en_event :: nat
  en_subclass :: "string option"
  en_callback :: nat
  en_user_data :: nat

record event_subclass =
  es_owner :: string
  es_bind :: bool

record event_bus =
  EVENT_NODES :: "event_node list list"
  CUSTOM_HASH :: "string \<Rightarrow> event_subclass option"
  SYSTEM_RUNNING :: int

definition new_bus :: event_bus where
  "new_bus = \<lparr>EVENT_NODES = replicate (Suc SWITCH_EVENT_ALL) [], CUSTOM_HASH = (\<lambda>_. None), SYSTEM_RUNNING = 1\<rparr>"

section \<open>Reservations of subclasses\<close>

definition switch_event_free_subclass :: "string \<Rightarrow> string \<Rightarrow> event_bus \<Rightarrow> switch_status \<times> event_bus" where
  "switch_event_free_subclass owner name bus =
     (case CUSTOM_HASH bus name of
        None \<Rightarrow> (SWITCH_STATUS_FALSE, bus)
      | Some sub \<Rightarrow>
          if owner = es_owner sub then (SWITCH_STATUS_SUCCESS, bus\<lparr>CUSTOM_HASH := (CUSTOM_HASH bus)(name := None)\<rparr>)
          else (SWITCH_STATUS_FALSE, bus\<lparr>CUSTOM_HASH := (CUSTOM_HASH bus)(name \<mapsto> sub\<lparr>es_bind := True\<rparr>)\<rparr>))"

definition switch_event_reserve_subclass :: "string \<Rightarrow> string \<Rightarrow> event_bus \<Rightarrow> switch_status \<times> event_bus" where
  "switch_event_reserve_subclass owner name bus =
     (case CUSTOM_HASH bus name of
        Some sub \<Rightarrow>
          if es_bind sub then (SWITCH_STATUS_SUCCESS, bus\<lparr>CUSTOM_HASH := (CUSTOM_HASH bus)(name \<mapsto> sub\<lparr>es_bind := False\<rparr>)\<rparr>)
          else (SWITCH_STATUS_INUSE, bus)
      | None \<Rightarrow>
          (SWITCH_STATUS_SUCCESS, bus\<lparr>CUSTOM_HASH := (CUSTOM_HASH bus)(name \<mapsto> \<lparr>es_owner = owner, es_bind = False\<rparr>)\<rparr>))"

section \<open>Binding and unbinding\<close>

text \<open>The reservation a binding makes for a subclass nobody has reserved yet.\<close>

definition reserve_for_listener :: "string \<Rightarrow> string \<Rightarrow> event_bus \<Rightarrow> event_bus" where
  "reserve_for_listener ident name bus =
     (case CUSTOM_HASH bus name of
        Some _ \<Rightarrow> bus
      | None \<Rightarrow>
          let bus1 = snd (switch_event_reserve_subclass ident name bus)
          in (case CUSTOM_HASH bus1 name of
                Some sub \<Rightarrow> bus1\<lparr>CUSTOM_HASH := (CUSTOM_HASH bus1)(name \<mapsto> sub\<lparr>es_bind := True\<rparr>)\<rparr>
              | None \<Rightarrow> bus1))"

text \<open>\<open>ref\<close> is the address the allocator gives to the node.\<close>

definition switch_event_bind_removable ::
  "nat \<Rightarrow> string \<Rightarrow> nat \<Rightarrow> string option \<Rightarrow> nat \<Rightarrow> nat \<Rightarrow> event_bus \<Rightarrow> switch_status \<times> nat option \<times> event_bus" where
  "switch_event_bind_removable ref ident event subclass_name callback user_data bus =
     (let bus1 = (case subclass_name of None \<Rightarrow> bus | Some n \<Rightarrow> reserve_for_listener ident n bus)
      in if event \<le> SWITCH_EVENT_ALL then
           let node = \<lparr>en_ref = ref, en_id = ident, en_event = event, en_subclass = subclass_name,
                       en_callback = callback, en_user_data = user_data\<rparr>
           in (SWITCH_STATUS_SUCCESS, Some ref,
               bus1\<lparr>EVENT_NODES := (EVENT_NODES bus1)[event := node # EVENT_NODES bus1 ! event]\<rparr>)
         else (SWITCH_STATUS_MEMERR, None, bus1))"

definition switch_event_bind ::
  "nat \<Rightarrow> string \<Rightarrow> nat \<Rightarrow> string option \<Rightarrow> nat \<Rightarrow> nat \<Rightarrow> event_bus \<Rightarrow> switch_status \<times> event_bus" where
  "switch_event_bind ref ident event subclass_name callback user_data bus =
     (let (st, _, bus') = switch_event_bind_removable ref ident event subclass_name callback user_data bus in (st, bus'))"

text \<open>
  One list of nodes is walked with the nodes kept so far in \<open>kept\<close>, the last of which is \<open>lnp\<close>. Unlinking
  the first node writes to the list of the node's own type.
\<close>

fun unbind_walk :: "nat \<Rightarrow> nat \<Rightarrow> event_node list \<Rightarrow> event_node list \<Rightarrow> event_node list list \<Rightarrow> bool \<times> event_node list list" where
  "unbind_walk callback i kept [] nodes = (False, nodes)"
| "unbind_walk callback i kept (n # np) nodes =
     (if en_callback n = callback then
        let nodes' = (if kept \<noteq> [] then nodes[i := kept @ np] else nodes[en_event n := np])
        in (True, snd (unbind_walk callback i kept np nodes'))
      else unbind_walk callback i (kept @ [n]) np nodes)"

definition unbind_all :: "nat \<Rightarrow> nat list \<Rightarrow> event_node list list \<Rightarrow> bool \<times> event_node list list" where
  "unbind_all callback is nodes =
     fold (\<lambda>i (hit, ns). let (h, ns') = unbind_walk callback i [] (ns ! i) ns in (hit \<or> h, ns')) is (False, nodes)"

definition switch_event_unbind_callback :: "nat \<Rightarrow> event_bus \<Rightarrow> switch_status \<times> event_bus" where
  "switch_event_unbind_callback callback bus =
     (let (hit, nodes) = unbind_all callback [0..<Suc SWITCH_EVENT_ALL] (EVENT_NODES bus)
      in (if hit then SWITCH_STATUS_SUCCESS else SWITCH_STATUS_FALSE, bus\<lparr>EVENT_NODES := nodes\<rparr>))"

fun unlink_walk :: "event_node \<Rightarrow> event_node list \<Rightarrow> event_node list \<Rightarrow> event_node list list \<Rightarrow> bool \<times> event_node list list" where
  "unlink_walk n kept [] nodes = (False, nodes)"
| "unlink_walk n kept (np # rest) nodes =
     (if en_ref np = en_ref n then
        (True, if kept \<noteq> [] then nodes[en_event n := kept @ rest] else nodes[en_event n := rest])
      else unlink_walk n (kept @ [np]) rest nodes)"

definition live_node :: "nat \<Rightarrow> event_bus \<Rightarrow> event_node option" where
  "live_node ref bus = find (\<lambda>n. en_ref n = ref) (concat (EVENT_NODES bus))"

text \<open>
  The node is read through its address, so an address of a node that has been freed is a fault. With
  success the caller's pointer is cleared.
\<close>

definition switch_event_unbind :: "nat option \<Rightarrow> event_bus \<Rightarrow> fault + switch_status \<times> nat option \<times> event_bus" where
  "switch_event_unbind node bus =
     (case node of
        None \<Rightarrow> Inr (SWITCH_STATUS_FALSE, None, bus)
      | Some ref \<Rightarrow>
          (case live_node ref bus of
             None \<Rightarrow> Inl Out_of_bounds
           | Some n \<Rightarrow>
               let (hit, nodes) = unlink_walk n [] (EVENT_NODES bus ! en_event n) (EVENT_NODES bus)
               in Inr (if hit then (SWITCH_STATUS_SUCCESS, None, bus\<lparr>EVENT_NODES := nodes\<rparr>)
                       else (SWITCH_STATUS_FALSE, node, bus))))"

section \<open>Delivery\<close>

definition subclass_match :: "switch_event \<Rightarrow> string \<Rightarrow> string \<Rightarrow> bool \<Rightarrow> bool" where
  "subclass_match ev ev_sub node_sub match =
     (if strncasecmp_eq 5 node_sub ''file:'' then
        (case switch_event_get_header ev ''file'' of None \<Rightarrow> match | Some f \<Rightarrow> contains f (drop 5 node_sub))
      else if strncasecmp_eq 5 node_sub ''func:'' then
        (case switch_event_get_header ev ''function'' of None \<Rightarrow> match | Some f \<Rightarrow> contains f (drop 5 node_sub))
      else contains node_sub ev_sub)"

definition switch_events_match :: "switch_event \<Rightarrow> event_node \<Rightarrow> bool" where
  "switch_events_match ev node =
     (let match = (en_event node = SWITCH_EVENT_ALL)
      in if match \<and> en_subclass node = None then True
         else if match \<or> ev_id ev = en_event node then
           (case en_subclass node of
              None \<Rightarrow> True
            | Some node_sub \<Rightarrow>
                (case ev_subclass ev of
                   Some ev_sub \<Rightarrow> subclass_match ev ev_sub node_sub match
                 | None \<Rightarrow> False))
         else match)"

text \<open>
  A callback is given the event and its node's user data; it may change the event, which the next nodes
  are matched against, and the world \<open>w\<close>. It cannot bind or unbind: the lists are locked for reading.
\<close>

definition deliver_nodes ::
  "(nat \<Rightarrow> nat \<Rightarrow> switch_event \<Rightarrow> 'w \<Rightarrow> switch_event \<times> 'w) \<Rightarrow> event_node list \<Rightarrow> switch_event \<times> 'w \<Rightarrow> switch_event \<times> 'w" where
  "deliver_nodes call nodes s =
     fold (\<lambda>node (ev, w). if switch_events_match ev node then call (en_callback node) (en_user_data node) ev w else (ev, w)) nodes s"

definition switch_event_deliver ::
  "(nat \<Rightarrow> nat \<Rightarrow> switch_event \<Rightarrow> 'w \<Rightarrow> switch_event \<times> 'w) \<Rightarrow> event_bus \<Rightarrow> switch_event \<Rightarrow> 'w \<Rightarrow> fault + 'w" where
  "switch_event_deliver call bus ev w =
     (if SYSTEM_RUNNING bus \<noteq> 0 then
        if ev_id ev < length (EVENT_NODES bus) \<and> SWITCH_EVENT_ALL < length (EVENT_NODES bus) then
          let s = deliver_nodes call (EVENT_NODES bus ! ev_id ev) (ev, w)
          in Inr (snd (if ev_id ev = SWITCH_EVENT_ALL then s else deliver_nodes call (EVENT_NODES bus ! SWITCH_EVENT_ALL) s))
        else Inl Out_of_bounds
      else Inr w)"

section \<open>Birth of an event\<close>

text \<open>What the headers of a new event are read from: identity of the core, its addresses, the clock and its printed forms.\<close>

record event_env =
  ee_uuid :: string
  ee_hostname :: string
  ee_switchname :: string
  guess_ip_v4 :: string
  guess_ip_v6 :: string
  ee_now :: int
  ee_local_date :: "int \<Rightarrow> string"
  ee_gmt_date :: "int \<Rightarrow> string"

definition birth_headers :: "event_env \<Rightarrow> string \<Rightarrow> string option \<Rightarrow> string \<Rightarrow> int \<Rightarrow> uint64 \<Rightarrow> (string \<times> string option) list" where
  "birth_headers E name file func line seq_nr =
     [(''Event-Name'', Some name), (''Core-UUID'', Some (ee_uuid E)), (''FreeSWITCH-Hostname'', Some (ee_hostname E)),
      (''FreeSWITCH-Switchname'', Some (ee_switchname E)), (''FreeSWITCH-IPv4'', Some (guess_ip_v4 E)),
      (''FreeSWITCH-IPv6'', Some (guess_ip_v6 E)), (''Event-Date-Local'', Some (ee_local_date E (ee_now E))),
      (''Event-Date-GMT'', Some (ee_gmt_date E (ee_now E))),
      (''Event-Date-Timestamp'', Some (decimal (nat (ee_now E mod 2 ^ 64)))),
      (''Event-Calling-File'', switch_cut_path file), (''Event-Calling-Function'', Some func),
      (''Event-Calling-Line-Number'', Some (signed_decimal line)), (''Event-Sequence'', Some (decimal (unat seq_nr)))]"

text \<open>
  The sequence number is increased under a lock and read again at the end without it: \<open>others\<close> is how
  often other threads increase it in between.
\<close>

definition switch_event_prep_for_delivery ::
  "event_env \<Rightarrow> string option \<Rightarrow> string \<Rightarrow> int \<Rightarrow> uint64 \<Rightarrow> uint64 \<Rightarrow> switch_event \<Rightarrow> fault + uint64 \<times> switch_event" where
  "switch_event_prep_for_delivery E file func line others EVENT_SEQUENCE_NR ev =
     (let seq_nr = EVENT_SEQUENCE_NR + 1 + others
      in fbind (switch_event_name (ev_id ev)) (\<lambda>name. Inr (seq_nr, fold add_named (birth_headers E name file func line seq_nr) ev)))"

section \<open>The dispatch queue\<close>

text \<open>
  \<open>EVENT_DISPATCH_QUEUE\<close> is the queue, once created, of pointers to events; \<open>eg_threads\<close> tells for which
  slots of the thread table a dispatch thread has been created, \<open>EVENT_DISPATCH_QUEUE_RUNNING\<close> which of them
  are in their loop; \<open>eg_pool\<close> are the events handed to the thread pool when no dispatch queue is used. A
  push to a full queue blocks.
\<close>

record engine =
  eg_bus :: event_bus
  EVENT_DISPATCH_QUEUE :: "switch_event option list option"
  PENDING :: int
  THREAD_COUNT :: int
  DISPATCH_THREAD_COUNT :: int
  SOFT_MAX_DISPATCH :: uint32
  MAX_DISPATCH :: uint32
  eg_threads :: "bool list"
  EVENT_DISPATCH_QUEUE_RUNNING :: "bool list"
  eg_pool :: "switch_event list"

definition DISPATCH_QUEUE_LEN :: nat where "DISPATCH_QUEUE_LEN = 10000"

definition launch_threads :: "uint32 \<Rightarrow> engine \<Rightarrow> engine" where
  "launch_threads goal eg =
     (if MAX_DISPATCH eg < goal \<or> goal < SOFT_MAX_DISPATCH eg then eg
      else eg\<lparr>eg_threads := fold (\<lambda>index ts. if ts ! index then ts else ts[index := True])
                              [unat (SOFT_MAX_DISPATCH eg)..<unat goal] (eg_threads eg),
              SOFT_MAX_DISPATCH := goal\<rparr>)"

definition check_dispatch :: "engine \<Rightarrow> engine" where
  "check_dispatch eg =
     (if EVENT_DISPATCH_QUEUE eg = None then launch_threads 1 (eg\<lparr>EVENT_DISPATCH_QUEUE := Some []\<rparr>) else eg)"

definition switch_event_launch_dispatch_threads :: "uint32 \<Rightarrow> engine \<Rightarrow> engine" where
  "switch_event_launch_dispatch_threads goal eg = launch_threads goal (check_dispatch eg)"

definition wants_launch :: "engine \<Rightarrow> switch_event option list \<Rightarrow> bool" where
  "wants_launch eg q \<longleftrightarrow>
     PENDING eg = 0 \<and> int (length q) > (int DISPATCH_QUEUE_LEN * DISPATCH_THREAD_COUNT eg) mod 2 ^ 32 \<and>
     SOFT_MAX_DISPATCH eg + 1 > MAX_DISPATCH eg"

definition launch_one :: "engine \<Rightarrow> engine" where
  "launch_one eg =
     (let eg1 = eg\<lparr>PENDING := PENDING eg + 1\<rparr>;
          eg2 = (if SOFT_MAX_DISPATCH eg1 + 1 < MAX_DISPATCH eg1
                 then switch_event_launch_dispatch_threads (SOFT_MAX_DISPATCH eg1 + 1) eg1 else eg1)
      in eg2\<lparr>PENDING := PENDING eg2 - 1\<rparr>)"

definition switch_event_queue_dispatch_event :: "switch_event \<Rightarrow> engine \<Rightarrow> fault + switch_status \<times> engine" where
  "switch_event_queue_dispatch_event ev eg =
     (if SYSTEM_RUNNING (eg_bus eg) = 0 then Inr (SWITCH_STATUS_FALSE, eg)
      else (case EVENT_DISPATCH_QUEUE eg of
              None \<Rightarrow> Inl Null_pointer
            | Some q \<Rightarrow>
                let eg1 = (if wants_launch eg q then launch_one eg else eg)
                in if length q < DISPATCH_QUEUE_LEN * unat (MAX_DISPATCH eg)
                   then Inr (SWITCH_STATUS_SUCCESS, eg1\<lparr>EVENT_DISPATCH_QUEUE := Some (q @ [Some ev])\<rparr>)
                   else Inl Still_running))"

definition switch_event_fire :: "bool \<Rightarrow> switch_event \<Rightarrow> engine \<Rightarrow> fault + switch_status \<times> engine" where
  "switch_event_fire events_use_dispatch ev eg =
     (if SYSTEM_RUNNING (eg_bus eg) \<le> 0 then Inr (SWITCH_STATUS_SUCCESS, eg)
      else if events_use_dispatch then
        fbind (switch_event_queue_dispatch_event ev (check_dispatch eg)) (\<lambda>(st, eg').
          Inr (if st = SWITCH_STATUS_SUCCESS then SWITCH_STATUS_SUCCESS else SWITCH_STATUS_FALSE, eg'))
      else Inr (SWITCH_STATUS_SUCCESS, eg\<lparr>eg_pool := eg_pool eg @ [ev]\<rparr>))"

text \<open>
  The dispatch thread, one atomic step after the other: it registers under the lock, then takes a pointer
  from the queue and delivers the event, and leaves under the lock when the system has stopped or the
  pointer is null. \<open>slot\<close> is the slot of the thread table it was created in. On an empty queue the pop
  waits; a wake-up without an element goes round the loop.
\<close>

definition MAX_DISPATCH_VAL :: nat where "MAX_DISPATCH_VAL = 64"

datatype dispatch_pc = Starting | Fetching | Holding switch_event | Leaving | Ended

fun switch_event_dispatch_thread ::
  "(nat \<Rightarrow> nat \<Rightarrow> switch_event \<Rightarrow> 'w \<Rightarrow> switch_event \<times> 'w) \<Rightarrow> nat \<Rightarrow> dispatch_pc \<Rightarrow> engine \<Rightarrow> 'w \<Rightarrow>
   fault + dispatch_pc \<times> engine \<times> 'w" where
  "switch_event_dispatch_thread call slot Starting eg w =
     (let eg1 = eg\<lparr>THREAD_COUNT := THREAD_COUNT eg + 1, DISPATCH_THREAD_COUNT := DISPATCH_THREAD_COUNT eg + 1\<rparr>
      in case find (\<lambda>my_id. my_id = slot \<and> eg_threads eg1 ! my_id) [0..<MAX_DISPATCH_VAL] of
           None \<Rightarrow> Inr (Ended, eg1, w)
         | Some my_id \<Rightarrow>
             Inr (Fetching, eg1\<lparr>EVENT_DISPATCH_QUEUE_RUNNING := (EVENT_DISPATCH_QUEUE_RUNNING eg1)[my_id := True]\<rparr>, w))"
| "switch_event_dispatch_thread call slot Fetching eg w =
     (if SYSTEM_RUNNING (eg_bus eg) = 0 then Inr (Leaving, eg, w)
      else (case EVENT_DISPATCH_QUEUE eg of
              None \<Rightarrow> Inl Null_pointer
            | Some [] \<Rightarrow> Inr (Fetching, eg, w)
            | Some (None # q) \<Rightarrow> Inr (Leaving, eg\<lparr>EVENT_DISPATCH_QUEUE := Some q\<rparr>, w)
            | Some (Some ev # q) \<Rightarrow> Inr (Holding ev, eg\<lparr>EVENT_DISPATCH_QUEUE := Some q\<rparr>, w)))"
| "switch_event_dispatch_thread call slot (Holding ev) eg w =
     fbind (switch_event_deliver call (eg_bus eg) ev w) (\<lambda>w'. Inr (Fetching, eg, w'))"
| "switch_event_dispatch_thread call slot Leaving eg w =
     Inr (Ended,
          eg\<lparr>EVENT_DISPATCH_QUEUE_RUNNING := (EVENT_DISPATCH_QUEUE_RUNNING eg)[slot := False],
             THREAD_COUNT := THREAD_COUNT eg - 1, DISPATCH_THREAD_COUNT := DISPATCH_THREAD_COUNT eg - 1\<rparr>, w)"
| "switch_event_dispatch_thread call slot Ended eg w = Inr (Ended, eg, w)"

text \<open>\<open>SWITCH_STATUS_MEMERR\<close> is for an event that could not be created, which does not happen for this type.\<close>

definition switch_event_create_pres_in ::
  "(switch_event \<Rightarrow> switch_event) \<Rightarrow> string option \<Rightarrow> string option \<Rightarrow> string \<Rightarrow> string \<Rightarrow> string option \<Rightarrow> string option \<Rightarrow> string option \<Rightarrow>
   int \<Rightarrow> string option \<Rightarrow> string option \<Rightarrow> string option \<Rightarrow> string option \<Rightarrow> switch_status \<times> switch_event option" where
  "switch_event_create_pres_in prep proto login from from_domain status event_type alt_event_type event_count unique_id channel_state answer_state call_direction =
     (case switch_event_create_subclass prep SWITCH_EVENT_PRESENCE_IN None of
        (_, None) \<Rightarrow> (SWITCH_STATUS_MEMERR, None)
      | (_, Some ev) \<Rightarrow>
          (SWITCH_STATUS_SUCCESS,
           Some (fold (\<lambda>(n, v) e. snd (switch_event_add_header_string e STACK_TOP n v))
             [(''proto'', proto), (''login'', login), (''from'', Some (from @ ''@'' @ from_domain)), (''status'', status),
              (''event_type'', event_type), (''alt_event_type'', alt_event_type), (''event_count'', Some (signed_decimal event_count)),
              (''unique-id'', alt_event_type), (''channel-state'', channel_state), (''answer-state'', answer_state),
              (''presence-call-direction'', call_direction)] ev)))"

section \<open>Subscriptions\<close>

text \<open>
  The contract: the subscriptions, newest first. The answer to an operation is its status and the calls it
  made, a callback with its user data; the callbacks of the contract leave the event as it is.
\<close>

datatype bus_op =
    Bus_bind nat string nat "string option" nat nat
  | Bus_unbind nat
  | Bus_unbind_callback nat
  | Bus_deliver switch_event

type_synonym bus_answer = "fault + switch_status \<times> (nat \<times> nat) list"

definition record_call :: "nat \<Rightarrow> nat \<Rightarrow> switch_event \<Rightarrow> (nat \<times> nat) list \<Rightarrow> switch_event \<times> (nat \<times> nat) list" where
  "record_call c d ev calls = (ev, calls @ [(c, d)])"

fun bus_step :: "bus_op \<Rightarrow> event_bus \<Rightarrow> bus_answer \<times> event_bus" where
  "bus_step (Bus_bind ref ident event sub c d) bus =
     (let (st, _, bus') = switch_event_bind_removable ref ident event sub c d bus in (Inr (st, []), bus'))"
| "bus_step (Bus_unbind ref) bus =
     (case switch_event_unbind (Some ref) bus of
        Inl e \<Rightarrow> (Inl e, bus)
      | Inr (st, _, bus') \<Rightarrow> (Inr (st, []), bus'))"
| "bus_step (Bus_unbind_callback c) bus =
     (let (st, bus') = switch_event_unbind_callback c bus in (Inr (st, []), bus'))"
| "bus_step (Bus_deliver ev) bus =
     (case switch_event_deliver record_call bus ev [] of
        Inl e \<Rightarrow> (Inl e, bus)
      | Inr calls \<Rightarrow> (Inr (SWITCH_STATUS_SUCCESS, calls), bus))"

abbreviation of_type :: "nat \<Rightarrow> event_node list \<Rightarrow> event_node list" where
  "of_type i subs \<equiv> filter (\<lambda>n. en_event n = i) subs"

definition audience :: "switch_event \<Rightarrow> event_node list \<Rightarrow> event_node list" where
  "audience ev subs =
     filter (switch_events_match ev)
       (of_type (ev_id ev) subs @ (if ev_id ev = SWITCH_EVENT_ALL then [] else of_type SWITCH_EVENT_ALL subs))"

fun subs_step :: "bus_op \<Rightarrow> event_node list \<Rightarrow> bus_answer \<times> event_node list" where
  "subs_step (Bus_bind ref ident event sub c d) subs =
     (if event \<le> SWITCH_EVENT_ALL then
        (Inr (SWITCH_STATUS_SUCCESS, []),
         \<lparr>en_ref = ref, en_id = ident, en_event = event, en_subclass = sub, en_callback = c, en_user_data = d\<rparr> # subs)
      else (Inr (SWITCH_STATUS_MEMERR, []), subs))"
| "subs_step (Bus_unbind ref) subs = (Inr (SWITCH_STATUS_SUCCESS, []), filter (\<lambda>n. en_ref n \<noteq> ref) subs)"
| "subs_step (Bus_unbind_callback c) subs =
     (Inr (if list_ex (\<lambda>n. en_callback n = c) subs then SWITCH_STATUS_SUCCESS else SWITCH_STATUS_FALSE, []),
      filter (\<lambda>n. en_callback n \<noteq> c) subs)"
| "subs_step (Bus_deliver ev) subs =
     (Inr (SWITCH_STATUS_SUCCESS, map (\<lambda>n. (en_callback n, en_user_data n)) (audience ev subs)), subs)"

text \<open>The allocator gives no address that is in use, and a node is unbound through its own address.\<close>

fun bus_pre :: "bus_op \<Rightarrow> event_node list \<Rightarrow> bool" where
  "bus_pre (Bus_bind ref _ _ _ _ _) subs \<longleftrightarrow> list_all (\<lambda>n. en_ref n \<noteq> ref) subs"
| "bus_pre (Bus_unbind ref) subs \<longleftrightarrow> list_ex (\<lambda>n. en_ref n = ref) subs"
| "bus_pre (Bus_unbind_callback _) subs \<longleftrightarrow> True"
| "bus_pre (Bus_deliver ev) subs \<longleftrightarrow> ev_id ev \<le> SWITCH_EVENT_ALL"

definition bus_rel :: "event_bus \<Rightarrow> event_node list \<Rightarrow> bool" where
  "bus_rel bus subs \<longleftrightarrow>
     EVENT_NODES bus = map (\<lambda>i. of_type i subs) [0..<Suc SWITCH_EVENT_ALL] \<and>
     (\<forall>n\<in>set subs. en_event n \<le> SWITCH_EVENT_ALL) \<and> distinct (map en_ref subs) \<and> SYSTEM_RUNNING bus \<noteq> 0"

lemma bus_rel_nth: "bus_rel bus subs \<Longrightarrow> i \<le> SWITCH_EVENT_ALL \<Longrightarrow> EVENT_NODES bus ! i = of_type i subs"
  by (simp add: bus_rel_def del: upt_Suc)

lemma bus_rel_length: "bus_rel bus subs \<Longrightarrow> length (EVENT_NODES bus) = Suc SWITCH_EVENT_ALL"
  by (simp add: bus_rel_def)

text \<open>Changing the list of one type.\<close>

lemma update_types:
  assumes "i < n" and "\<And>j. j < n \<Longrightarrow> j \<noteq> i \<Longrightarrow> g j = f j"
  shows "(map f [0..<n])[i := g i] = map g [0..<n]"
  by (rule nth_equalityI) (use assms in \<open>auto simp: nth_list_update\<close>)

lemma unbind_walk_filter:
  "i < length nodes \<Longrightarrow> nodes ! i = kept @ l \<Longrightarrow> \<forall>n\<in>set l. en_event n = i \<Longrightarrow>
   unbind_walk c i kept l nodes =
     (list_ex (\<lambda>n. en_callback n = c) l, nodes[i := kept @ filter (\<lambda>n. en_callback n \<noteq> c) l])"
proof (induction l arbitrary: kept nodes)
  case Nil
  then have "nodes[i := kept] = nodes" using list_update_id [of nodes i] by simp
  then show ?case by simp
next
  case (Cons n l)
  show ?case
  proof (cases "en_callback n = c")
    case True
    have "(if kept \<noteq> [] then nodes[i := kept @ l] else nodes[en_event n := l]) = nodes[i := kept @ l]" using Cons.prems(3) by simp
    then show ?thesis using True Cons.prems Cons.IH [of "nodes[i := kept @ l]" kept] by (simp add: Let_def)
  next
    case False
    then show ?thesis using Cons.prems Cons.IH [of nodes "kept @ [n]"] by simp
  qed
qed

lemma unbind_all_filter:
  "distinct is \<Longrightarrow> \<forall>i\<in>set is. i < length ns \<and> (\<forall>n\<in>set (ns ! i). en_event n = i) \<Longrightarrow>
   fold (\<lambda>i (hit, ns). let (h, ns') = unbind_walk c i [] (ns ! i) ns in (hit \<or> h, ns')) is (hit, ns) =
     (hit \<or> list_ex (\<lambda>i. list_ex (\<lambda>n. en_callback n = c) (ns ! i)) is,
      map (\<lambda>i. if i \<in> set is then filter (\<lambda>n. en_callback n \<noteq> c) (ns ! i) else ns ! i) [0..<length ns])"
proof (induction "is" arbitrary: hit ns)
  case Nil
  then show ?case by (simp add: map_nth)
next
  case (Cons i "is")
  let ?ns = "ns[i := filter (\<lambda>n. en_callback n \<noteq> c) (ns ! i)]"
  have w: "unbind_walk c i [] (ns ! i) ns = (list_ex (\<lambda>n. en_callback n = c) (ns ! i), ?ns)"
    using unbind_walk_filter [of i ns "[]" "ns ! i" c] Cons.prems by simp
  have o: "?ns ! j = ns ! j" if "j \<in> set is" for j
  proof -
    have "i \<noteq> j" using that Cons.prems(1) by auto
    then show ?thesis by simp
  qed
  have p: "\<forall>j\<in>set is. j < length ?ns \<and> (\<forall>n\<in>set (?ns ! j). en_event n = j)" using Cons.prems(2) o by simp
  have e: "list_ex (\<lambda>i. list_ex (\<lambda>n. en_callback n = c) (?ns ! i)) is = list_ex (\<lambda>i. list_ex (\<lambda>n. en_callback n = c) (ns ! i)) is"
    using o by (auto simp: list_ex_iff)
  have m: "map (\<lambda>j. if j \<in> set is then filter (\<lambda>n. en_callback n \<noteq> c) (?ns ! j) else ?ns ! j) [0..<length ?ns] =
      map (\<lambda>j. if j \<in> set (i # is) then filter (\<lambda>n. en_callback n \<noteq> c) (ns ! j) else ns ! j) [0..<length ns]"
    using Cons.prems by (auto simp: nth_list_update)
  show ?case using Cons.IH [OF _ p, of "hit \<or> list_ex (\<lambda>n. en_callback n = c) (ns ! i)"] Cons.prems(1) w e m by (simp add: disj_assoc)
qed

lemma unlink_walk_filter:
  "nodes ! en_event n = kept @ l \<Longrightarrow> en_ref n \<in> en_ref ` set l \<Longrightarrow> distinct (map en_ref (kept @ l)) \<Longrightarrow>
   unlink_walk n kept l nodes = (True, nodes[en_event n := kept @ filter (\<lambda>m. en_ref m \<noteq> en_ref n) l])"
proof (induction l arbitrary: kept)
  case (Cons m l)
  show ?case
  proof (cases "en_ref m = en_ref n")
    case True
    have "en_ref x \<noteq> en_ref m" if "x \<in> set l" for x
    proof -
      have "en_ref m \<notin> en_ref ` set l" using Cons.prems(3) by simp
      then show ?thesis using imageI [OF that, of en_ref] by metis
    qed
    then have "filter (\<lambda>m. en_ref m \<noteq> en_ref n) l = l" using True by (intro filter_True ballI) auto
    then show ?thesis using True by simp
  next
    case False
    then show ?thesis using Cons.prems Cons.IH [of "kept @ [m]"] by auto
  qed
qed simp

lemma live_node_rel:
  assumes "bus_rel bus subs" and "list_ex (\<lambda>n. en_ref n = ref) subs"
  shows "\<exists>n\<in>set subs. live_node ref bus = Some n \<and> en_ref n = ref"
proof -
  have s: "set (concat (EVENT_NODES bus)) = set subs" using assms(1) by (auto simp: bus_rel_def less_Suc_eq_le)
  have "find (\<lambda>n. en_ref n = ref) (concat (EVENT_NODES bus)) \<noteq> None"
    using assms(2) unfolding find_None_iff s list_ex_iff by blast
  then obtain n where n: "find (\<lambda>n. en_ref n = ref) (concat (EVENT_NODES bus)) = Some n" by blast
  then have "n \<in> set subs" "en_ref n = ref" unfolding find_Some_iff using s by (metis nth_mem)+
  then show ?thesis using n by (auto simp: live_node_def)
qed

lemma deliver_recorded:
  "deliver_nodes record_call nodes (ev, w) =
     (ev, w @ map (\<lambda>n. (en_callback n, en_user_data n)) (filter (switch_events_match ev) nodes))"
  unfolding deliver_nodes_def by (induction nodes arbitrary: w) (simp_all add: record_call_def)

lemma reserve_listener_keeps:
  "EVENT_NODES (reserve_for_listener i x b) = EVENT_NODES b" "SYSTEM_RUNNING (reserve_for_listener i x b) = SYSTEM_RUNNING b"
  by (simp_all add: reserve_for_listener_def switch_event_reserve_subclass_def split: option.splits)

lemma bus_bind_sim:
  assumes "bus_rel bus subs" and "list_all (\<lambda>n. en_ref n \<noteq> ref) subs" and "event \<le> SWITCH_EVENT_ALL"
  shows "bus_rel (snd (bus_step (Bus_bind ref ident event sub c d) bus)) (snd (subs_step (Bus_bind ref ident event sub c d) subs))"
proof -
  let ?n = "\<lparr>en_ref = ref, en_id = ident, en_event = event, en_subclass = sub, en_callback = c, en_user_data = d\<rparr>"
  have "(map (\<lambda>i. of_type i subs) [0..<Suc SWITCH_EVENT_ALL])[event := of_type event (?n # subs)] =
      map (\<lambda>i. of_type i (?n # subs)) [0..<Suc SWITCH_EVENT_ALL]"
    by (rule update_types) (use assms(3) in auto)
  then show ?thesis using assms bus_rel_nth [OF assms(1,3)]
    by (auto simp: bus_rel_def reserve_listener_keeps switch_event_bind_removable_def Let_def list_all_iff simp del: upt_Suc split: option.splits)
qed

lemma filter_comm: "filter p (filter q xs) = filter q (filter p xs)"
  by (simp add: conj_commute)

lemma distinct_refs_filter: "distinct (map en_ref subs) \<Longrightarrow> distinct (map en_ref (filter p subs))"
  by (induction subs) auto

lemma bus_unbind_sim:
  assumes "bus_rel bus subs" and "list_ex (\<lambda>n. en_ref n = ref) subs"
  shows "fst (bus_step (Bus_unbind ref) bus) = Inr (SWITCH_STATUS_SUCCESS, []) \<and>
    bus_rel (snd (bus_step (Bus_unbind ref) bus)) (filter (\<lambda>n. en_ref n \<noteq> ref) subs)"
proof -
  obtain n where n: "n \<in> set subs" "live_node ref bus = Some n" "en_ref n = ref" using live_node_rel [OF assms] by blast
  have i: "en_event n \<le> SWITCH_EVENT_ALL" and d: "distinct (map en_ref subs)" using assms(1) n(1) by (auto simp: bus_rel_def)
  have at: "EVENT_NODES bus ! en_event n = of_type (en_event n) subs" by (rule bus_rel_nth [OF assms(1) i])
  have "unlink_walk n [] (EVENT_NODES bus ! en_event n) (EVENT_NODES bus) =
      (True, (EVENT_NODES bus)[en_event n := of_type (en_event n) (filter (\<lambda>m. en_ref m \<noteq> ref) subs)])"
    using unlink_walk_filter [of "EVENT_NODES bus" n "[]" "of_type (en_event n) subs"] at n d
    by (auto simp: distinct_refs_filter conj_commute)
  moreover have "(EVENT_NODES bus)[en_event n := of_type (en_event n) (filter (\<lambda>m. en_ref m \<noteq> ref) subs)] =
      map (\<lambda>i. of_type i (filter (\<lambda>m. en_ref m \<noteq> ref) subs)) [0..<Suc SWITCH_EVENT_ALL]"
  proof -
    have "of_type j (filter (\<lambda>m. en_ref m \<noteq> ref) subs) = of_type j subs" if "j \<noteq> en_event n" for j
    proof -
      have "en_ref m \<noteq> ref" if "m \<in> set subs" "en_event m = j" for m
        using that \<open>j \<noteq> en_event n\<close> n d by (metis distinct_map inj_onD)
      then show ?thesis by (auto simp: intro!: filter_cong)
    qed
    moreover have "EVENT_NODES bus = map (\<lambda>i. of_type i subs) [0..<Suc SWITCH_EVENT_ALL]" using assms(1) by (simp only: bus_rel_def)
    ultimately show ?thesis
      using update_types [of "en_event n" "Suc SWITCH_EVENT_ALL" "\<lambda>i. of_type i (filter (\<lambda>m. en_ref m \<noteq> ref) subs)" "\<lambda>i. of_type i subs"] i
      by (simp del: upt_Suc filter_filter)
  qed
  ultimately show ?thesis using n assms(1) by (auto simp: switch_event_unbind_def bus_rel_def distinct_refs_filter simp del: upt_Suc filter_filter)
qed

lemma bus_unbind_callback_sim:
  assumes "bus_rel bus subs"
  shows "fst (bus_step (Bus_unbind_callback c) bus) = fst (subs_step (Bus_unbind_callback c) subs) \<and>
    bus_rel (snd (bus_step (Bus_unbind_callback c) bus)) (snd (subs_step (Bus_unbind_callback c) subs))"
proof -
  let ?is = "[0..<Suc SWITCH_EVENT_ALL]" and ?ns = "EVENT_NODES bus"
  have at: "?ns ! i = of_type i subs" if "i \<in> set ?is" for i by (rule bus_rel_nth [OF assms]) (use that in auto)
  have l: "length ?ns = Suc SWITCH_EVENT_ALL" by (rule bus_rel_length [OF assms])
  have p: "\<forall>i\<in>set ?is. i < length ?ns \<and> (\<forall>n\<in>set (?ns ! i). en_event n = i)" using at l by (auto simp del: upt_Suc)
  have "unbind_all c ?is ?ns = (list_ex (\<lambda>i. list_ex (\<lambda>n. en_callback n = c) (?ns ! i)) ?is,
      map (\<lambda>i. if i \<in> set ?is then filter (\<lambda>n. en_callback n \<noteq> c) (?ns ! i) else ?ns ! i) [0..<length ?ns])"
    unfolding unbind_all_def using unbind_all_filter [OF _ p, of c False] by (simp del: upt_Suc)
  moreover have "list_ex (\<lambda>i. list_ex (\<lambda>n. en_callback n = c) (?ns ! i)) ?is = list_ex (\<lambda>n. en_callback n = c) subs"
    using at assms by (auto simp: list_ex_iff bus_rel_def less_Suc_eq_le simp del: upt_Suc)
  moreover have "map (\<lambda>i. if i \<in> set ?is then filter (\<lambda>n. en_callback n \<noteq> c) (?ns ! i) else ?ns ! i) [0..<length ?ns] =
      map (\<lambda>i. of_type i (filter (\<lambda>n. en_callback n \<noteq> c) subs)) ?is"
    unfolding l by (rule map_cong [OF refl]) (simp add: at filter_comm del: upt_Suc filter_filter)
  ultimately show ?thesis
    using assms by (auto simp: switch_event_unbind_callback_def bus_rel_def distinct_refs_filter simp del: upt_Suc filter_filter)
qed

lemma bus_deliver_sim:
  assumes "bus_rel bus subs" and "ev_id ev \<le> SWITCH_EVENT_ALL"
  shows "bus_step (Bus_deliver ev) bus = (fst (subs_step (Bus_deliver ev) subs), bus)"
  using assms(2) bus_rel_length [OF assms(1)] bus_rel_nth [OF assms(1,2)] bus_rel_nth [OF assms(1) order_refl] assms(1)
  by (simp add: switch_event_deliver_def deliver_recorded audience_def bus_rel_def Let_def del: filter_filter upt_Suc)

interpretation bus: simulation bus_rel bus_pre bus_step subs_step
proof
  fix bus subs x assume r: "bus_rel bus subs" and p: "bus_pre x subs"
  show "fst (bus_step x bus) = fst (subs_step x subs)"
  proof (cases x)
    case (Bus_bind ref ident event sub c d)
    then show ?thesis by (simp add: switch_event_bind_removable_def Let_def)
  qed (use r p bus_unbind_sim bus_unbind_callback_sim bus_deliver_sim in auto)
  show "bus_rel (snd (bus_step x bus)) (snd (subs_step x subs))"
  proof (cases x)
    case (Bus_bind ref ident event sub c d)
    then show ?thesis using r p bus_bind_sim [OF r, of ref event]
      by (cases "event \<le> SWITCH_EVENT_ALL") (auto simp: switch_event_bind_removable_def bus_rel_def reserve_listener_keeps split: option.splits)
  qed (use r p bus_unbind_sim bus_unbind_callback_sim bus_deliver_sim in auto)
qed

section \<open>Reading the name of an event type\<close>

lemma event_names_length: "length EVENT_NAMES = Suc SWITCH_EVENT_ALL"
  by (simp add: EVENT_NAMES_def SWITCH_EVENT_ALL_def)

lemma event_names_distinct: "distinct EVENT_NAMES"
  by (simp add: EVENT_NAMES_def)

lemma event_names_capitals: "\<forall>n\<in>set EVENT_NAMES. set n \<subseteq> set capitals"
  by code_simp

text \<open>No name is what follows the first thirteen characters of another.\<close>

lemma event_names_tails:
  assumes "n \<in> set EVENT_NAMES" and "m \<in> set EVENT_NAMES" and "13 < length n"
  shows "drop 13 n \<noteq> m"
proof -
  let ?tails = "[''E'', ''OY'', ''TATE'', ''R'', ''P'', ''P_COMPLETE'', ''TE'', ''TE_COMPLETE'', ''D'', ''E'', ''DGE'', ''ESS'',
     ''ESS_MEDIA'', ''ING'', ''K'', ''CATION'', ''NATE'', ''E'', ''NG'', ''B'', ''CH'', ''ND'', ''_SUBSCRIBE'',
     ''S'', ''BEAT'', ''NECTED'', ''NECTED'', ''SAGE'', ''T'', ''RT'', ''P'', ''TA_QUERY'', ''TA'', ''Q'', ''SULT'']"
  have "map (drop 13) (filter (\<lambda>n. 13 < length n) EVENT_NAMES) = ?tails" by (simp add: EVENT_NAMES_def)
  then have "set ?tails = drop 13 ` {n \<in> set EVENT_NAMES. 13 < length n}" by (metis set_filter set_map)
  moreover have "\<forall>x\<in>set ?tails. x \<notin> set EVENT_NAMES" by (simp add: EVENT_NAMES_def)
  ultimately show ?thesis using assms by blast
qed

lemma event_name_unique:
  assumes "e \<le> SWITCH_EVENT_ALL" and "x \<le> SWITCH_EVENT_ALL"
  shows "folded (EVENT_NAMES ! e) = folded (EVENT_NAMES ! x) \<longleftrightarrow> x = e"
proof -
  have m: "EVENT_NAMES ! e \<in> set EVENT_NAMES" "EVENT_NAMES ! x \<in> set EVENT_NAMES"
    using assms event_names_length by (simp_all add: less_Suc_eq_le)
  have "EVENT_NAMES ! e \<in> lists (set capitals)" "EVENT_NAMES ! x \<in> lists (set capitals)"
    using m event_names_capitals by (auto simp only: lists_eq_set mem_Collect_eq)
  then have "folded (EVENT_NAMES ! e) = folded (EVENT_NAMES ! x) \<longleftrightarrow> EVENT_NAMES ! e = EVENT_NAMES ! x"
    by (rule inj_on_eq_iff [OF folded_inj])
  then show ?thesis using assms event_names_length event_names_distinct by (auto simp: nth_eq_iff_index_eq)
qed

lemma event_name_no_tail:
  assumes "e \<le> SWITCH_EVENT_ALL" and "x \<le> SWITCH_EVENT_ALL" and "13 < length (EVENT_NAMES ! e)"
  shows "folded (drop 13 (EVENT_NAMES ! e)) \<noteq> folded (EVENT_NAMES ! x)"
proof
  have m: "EVENT_NAMES ! e \<in> set EVENT_NAMES" "EVENT_NAMES ! x \<in> set EVENT_NAMES"
    using assms event_names_length by (simp_all add: less_Suc_eq_le)
  assume "folded (drop 13 (EVENT_NAMES ! e)) = folded (EVENT_NAMES ! x)"
  moreover have "drop 13 (EVENT_NAMES ! e) \<in> lists (set capitals)" "EVENT_NAMES ! x \<in> lists (set capitals)"
    using m event_names_capitals set_drop_subset [of 13 "EVENT_NAMES ! e"] unfolding lists_eq_set mem_Collect_eq by blast+
  ultimately have "drop 13 (EVENT_NAMES ! e) = EVENT_NAMES ! x" using folded_inj by (metis inj_onD)
  then show False using event_names_tails [OF m assms(3)] by simp
qed

lemma find_upt_only: "e < n \<Longrightarrow> (\<And>x. x < n \<Longrightarrow> P x \<longleftrightarrow> x = e) \<Longrightarrow> find P [0..<n] = Some e"
proof -
  assume e: "e < n" and P: "\<And>x. x < n \<Longrightarrow> P x \<longleftrightarrow> x = e"
  have "find P [0..<n] = Some ([0..<n] ! e)"
    unfolding find_Some_iff using e P by (intro exI [of _ e]) auto
  then show ?thesis using e by simp
qed

section \<open>The properties\<close>

text \<open>the name of every event type, in any case, with or without a prefix of thirteen characters such as \<open>SWITCH_EVENT_\<close>, is read back as this type.\<close>

theorem event_name_reads_back:
  assumes "e \<le> SWITCH_EVENT_ALL" and "strcasecmp_eq (EVENT_NAMES ! e) s" and "length p = 13"
  shows "switch_event_name e = Inr (EVENT_NAMES ! e) \<and> switch_name_event s = Some e \<and> switch_name_event (p @ s) = Some e"
proof (intro conjI)
  have f: "folded s = folded (EVENT_NAMES ! e)" using assms(2) by (simp add: strcasecmp_folded)
  then have l: "length s = length (EVENT_NAMES ! e)" unfolding folded_def by (metis length_map)
  have d: "folded (drop 13 s) = folded (drop 13 (EVENT_NAMES ! e))" using f unfolding folded_def by (metis drop_map)
  show "switch_event_name e = Inr (EVENT_NAMES ! e)" using assms(1) event_names_length by (simp add: switch_event_name_def)
  have "name_hits s (EVENT_NAMES ! x) \<longleftrightarrow> x = e" if "x < Suc SWITCH_EVENT_ALL" for x
    unfolding name_hits_def strcasecmp_folded using f d l that assms(1) event_name_no_tail [of e x] event_name_unique [of e x] by auto
  then show "switch_name_event s = Some e"
    unfolding switch_name_event_def using assms(1) by (intro find_upt_only) simp_all
  have "s \<noteq> []"
  proof -
    have "[] \<notin> set EVENT_NAMES" by (simp add: EVENT_NAMES_def)
    then show ?thesis using l assms(1) event_names_length by (metis length_0_conv less_Suc_eq_le nth_mem)
  qed
  moreover have "folded (p @ s) \<noteq> folded (EVENT_NAMES ! x)" if "x < Suc SWITCH_EVENT_ALL" for x
  proof
    assume a: "folded (p @ s) = folded (EVENT_NAMES ! x)"
    have "length (EVENT_NAMES ! x) = 13 + length s" using arg_cong [OF a, of length] assms(3) by (simp add: folded_def)
    moreover have "folded (drop 13 (EVENT_NAMES ! x)) = folded s"
      using arg_cong [OF a, of "drop 13"] assms(3) by (simp add: folded_def drop_map)
    ultimately show False using event_name_no_tail [of x e] that assms(1) f \<open>s \<noteq> []\<close> by simp
  qed
  ultimately have "name_hits (p @ s) (EVENT_NAMES ! x) \<longleftrightarrow> x = e" if "x < Suc SWITCH_EVENT_ALL" for x
    unfolding name_hits_def strcasecmp_folded using f that assms(1,3) event_name_unique [of e x] by simp
  then show "switch_name_event (p @ s) = Some e"
    unfolding switch_name_event_def using assms(1) by (intro find_upt_only) simp_all
qed

theorem event_name_reads_back_witness:
  "switch_event_name 36 = Inr ''DTMF'' \<and> switch_name_event ''dtmf'' = Some 36 \<and> switch_name_event ''SWITCH_EVENT_dtmf'' = Some 36"
proof -
  have "EVENT_NAMES ! 36 = ''DTMF''" by (simp add: EVENT_NAMES_def)
  moreover have "strcasecmp_eq ''DTMF'' ''dtmf''" by code_simp
  ultimately show ?thesis using event_name_reads_back [of 36 "''dtmf''" "''SWITCH_EVENT_''"] by (simp add: SWITCH_EVENT_ALL_def)
qed

text \<open>C10: every sequence of bindings, unbindings and deliveries on a new bus answers as a list of subscriptions: a delivery calls, each once, the subscriptions that match the event, those to its type before those to all types and the newest first, and no subscription that was taken back.\<close>

theorem event_bus_refines_subscriptions:
  assumes "run_pre bus_pre subs_step ops []"
  shows "fst (run_ops bus_step ops new_bus) = fst (run_ops subs_step ops [])"
proof -
  have "bus_rel new_bus []" by (simp add: bus_rel_def new_bus_def map_replicate_const del: upt_Suc replicate_Suc)
  then show ?thesis using bus.run_simulates assms by blast
qed

definition digit_event :: switch_event where
  "digit_event = \<lparr>ev_id = 36, ev_subclass = None, ev_headers = [], ev_body = None, ev_uniq = False\<rparr>"

theorem event_bus_refines_subscriptions_witness:
  "fst (run_ops bus_step
     [Bus_bind 1 ''a'' 36 None 7 70, Bus_bind 2 ''b'' 89 None 8 80, Bus_bind 3 ''c'' 36 None 9 90, Bus_bind 4 ''d'' 37 None 7 71,
      Bus_deliver digit_event, Bus_unbind 1, Bus_unbind_callback 8, Bus_deliver digit_event] new_bus) =
   [Inr (SWITCH_STATUS_SUCCESS, []), Inr (SWITCH_STATUS_SUCCESS, []), Inr (SWITCH_STATUS_SUCCESS, []), Inr (SWITCH_STATUS_SUCCESS, []),
    Inr (SWITCH_STATUS_SUCCESS, [(9, 90), (7, 70), (8, 80)]), Inr (SWITCH_STATUS_SUCCESS, []), Inr (SWITCH_STATUS_SUCCESS, []),
    Inr (SWITCH_STATUS_SUCCESS, [(9, 90)])]"
  by (subst event_bus_refines_subscriptions)
    (simp_all add: SWITCH_EVENT_ALL_def audience_def switch_events_match_def digit_event_def)

text \<open>
  What callbacks do to the world is determined by these calls: callbacks that leave the event alone are
  run once each in this order.
\<close>

lemma deliver_effect:
  assumes "\<And>c d e w. fst (call c d e w) = e"
  shows "deliver_nodes call nodes (ev, w) =
    (ev, fold (\<lambda>(c, d) w. snd (call c d ev w)) (map (\<lambda>n. (en_callback n, en_user_data n)) (filter (switch_events_match ev) nodes)) w)"
  unfolding deliver_nodes_def
proof (induction nodes arbitrary: w)
  case (Cons n nodes)
  obtain w' where "call (en_callback n) (en_user_data n) ev w = (ev, w')"
    using assms [of "en_callback n" "en_user_data n" ev w] by (metis prod.collapse)
  then show ?case using Cons by simp
qed simp

section \<open>What a subscription matches\<close>

lemma events_match_plain:
  assumes "case en_subclass n of Some s \<Rightarrow> \<not> strncasecmp_eq 5 s ''file:'' \<and> \<not> strncasecmp_eq 5 s ''func:'' | None \<Rightarrow> True"
  shows "switch_events_match ev n \<longleftrightarrow>
    (en_event n = SWITCH_EVENT_ALL \<or> en_event n = ev_id ev) \<and>
    (case en_subclass n of None \<Rightarrow> True | Some s \<Rightarrow> (case ev_subclass ev of Some v \<Rightarrow> contains s v | None \<Rightarrow> False))"
  using assms by (auto simp: switch_events_match_def subclass_match_def Let_def split: option.splits)

text \<open>
  Events carry the file and function they come from as \<open>Event-Calling-File\<close> and
  \<open>Event-Calling-Function\<close>, while \<open>file:\<close> and \<open>func:\<close> look for \<open>file\<close> and \<open>function\<close>: such a subscription to
  one type matches nothing, and one to all types matches every event with a subclass.
\<close>

lemma file_subscription_mismatch:
  assumes "ev_subclass ev = Some v" and "en_subclass n = Some s" and "strncasecmp_eq 5 s ''file:''"
    and "switch_event_get_header ev ''file'' = None"
  shows "switch_events_match ev n \<longleftrightarrow> en_event n = SWITCH_EVENT_ALL"
  using assms by (simp add: switch_events_match_def subclass_match_def Let_def)

section \<open>Reservations\<close>

text \<open>A reserved subclass is refused to everybody else, until somebody who does not own it tries to free it.\<close>

lemma reservation_exclusive:
  assumes "CUSTOM_HASH bus name = None"
  shows "fst (switch_event_reserve_subclass a name bus) = SWITCH_STATUS_SUCCESS \<and>
    fst (switch_event_reserve_subclass b name (snd (switch_event_reserve_subclass a name bus))) = SWITCH_STATUS_INUSE"
  using assms by (simp add: switch_event_reserve_subclass_def)

lemma reservation_stolen:
  assumes "CUSTOM_HASH bus name = None" and "a \<noteq> b"
  shows "let bus1 = snd (switch_event_reserve_subclass a name bus); (st, bus2) = switch_event_free_subclass b name bus1
    in st = SWITCH_STATUS_FALSE \<and> fst (switch_event_reserve_subclass b name bus2) = SWITCH_STATUS_SUCCESS"
  using assms by (simp add: switch_event_reserve_subclass_def switch_event_free_subclass_def)

section \<open>Dispatch\<close>

lemma fire_dispatch:
  assumes "0 < SYSTEM_RUNNING (eg_bus eg)" and "EVENT_DISPATCH_QUEUE eg = Some q"
  shows "switch_event_fire True ev eg =
    (if length q < DISPATCH_QUEUE_LEN * unat (MAX_DISPATCH eg)
     then Inr (SWITCH_STATUS_SUCCESS, eg\<lparr>EVENT_DISPATCH_QUEUE := Some (q @ [Some ev])\<rparr>) else Inl Still_running)"
proof -
  have "launch_one eg = eg" if "wants_launch eg q"
  proof -
    have "\<not> SOFT_MAX_DISPATCH eg + 1 < MAX_DISPATCH eg" using that order.asym by (auto simp: wants_launch_def)
    then show ?thesis by (simp add: launch_one_def Let_def)
  qed
  then have "(if wants_launch eg q then launch_one eg else eg) = eg" by simp
  then show ?thesis using assms
    by (simp add: switch_event_fire_def check_dispatch_def switch_event_queue_dispatch_event_def Let_def)
qed

text \<open>firing an event with a dispatch queue queues it behind the events fired before, as long as the queue has room, and never starts another dispatch thread, however long the queue is.\<close>

theorem fire_queues_event:
  assumes "0 < SYSTEM_RUNNING (eg_bus eg)" and "EVENT_DISPATCH_QUEUE eg = Some q"
    and "length q < DISPATCH_QUEUE_LEN * unat (MAX_DISPATCH eg)"
  shows "switch_event_fire True ev eg = Inr (SWITCH_STATUS_SUCCESS, eg\<lparr>EVENT_DISPATCH_QUEUE := Some (q @ [Some ev])\<rparr>)"
  using fire_dispatch [OF assms(1,2)] assms(3) by simp

definition sample_engine :: engine where
  "sample_engine =
     \<lparr>eg_bus = new_bus, EVENT_DISPATCH_QUEUE = Some [], PENDING = 0, THREAD_COUNT = 1, DISPATCH_THREAD_COUNT = 1,
      SOFT_MAX_DISPATCH = 1, MAX_DISPATCH = 2, eg_threads = True # replicate 63 False,
      EVENT_DISPATCH_QUEUE_RUNNING = True # replicate 63 False, eg_pool = []\<rparr>"

theorem fire_queues_event_witness:
  "switch_event_fire True digit_event sample_engine =
   Inr (SWITCH_STATUS_SUCCESS, sample_engine\<lparr>EVENT_DISPATCH_QUEUE := Some [Some digit_event]\<rparr>)"
  by (subst fire_queues_event [where q = "[]"]) (simp_all add: sample_engine_def new_bus_def DISPATCH_QUEUE_LEN_def)

section \<open>The engine as subscriptions and a queue of events\<close>

text \<open>
  What can happen to the engine, in any interleaving: an operation on the bus, the firing of an event by
  any thread, and one step of its dispatch thread. In the contract the first pending event is claimed by
  the thread before it is delivered; bindings that change in between count.
\<close>

datatype engine_op = On_bus bus_op | Fire switch_event | Dispatch

fun engine_step :: "engine_op \<Rightarrow> engine \<times> dispatch_pc \<Rightarrow> bus_answer \<times> engine \<times> dispatch_pc" where
  "engine_step (On_bus x) (eg, pc) =
     (let (r, bus) = bus_step x (eg_bus eg) in (r, eg\<lparr>eg_bus := bus\<rparr>, pc))"
| "engine_step (Fire ev) (eg, pc) =
     (case switch_event_fire True ev eg of
        Inl e \<Rightarrow> (Inl e, eg, pc)
      | Inr (st, eg') \<Rightarrow> (Inr (st, []), eg', pc))"
| "engine_step Dispatch (eg, pc) =
     (case switch_event_dispatch_thread record_call 0 pc eg [] of
        Inl e \<Rightarrow> (Inl e, eg, pc)
      | Inr (pc', eg', calls) \<Rightarrow> (Inr (SWITCH_STATUS_SUCCESS, calls), eg', pc'))"

fun pending_step :: "engine_op \<Rightarrow> event_node list \<times> switch_event list \<times> bool \<Rightarrow> bus_answer \<times> event_node list \<times> switch_event list \<times> bool" where
  "pending_step (On_bus x) (subs, evs, claimed) = (let (r, subs') = subs_step x subs in (r, subs', evs, claimed))"
| "pending_step (Fire ev) (subs, evs, claimed) = (Inr (SWITCH_STATUS_SUCCESS, []), subs, evs @ [ev], claimed)"
| "pending_step Dispatch (subs, [], claimed) = (Inr (SWITCH_STATUS_SUCCESS, []), subs, [], False)"
| "pending_step Dispatch (subs, ev # evs, False) = (Inr (SWITCH_STATUS_SUCCESS, []), subs, ev # evs, True)"
| "pending_step Dispatch (subs, ev # evs, True) =
     (Inr (SWITCH_STATUS_SUCCESS, map (\<lambda>n. (en_callback n, en_user_data n)) (audience ev subs)), subs, evs, False)"

text \<open>Events have one of the known types, and the queue has room for the next one: a push to a full queue waits.\<close>

fun pending_pre :: "nat \<Rightarrow> engine_op \<Rightarrow> event_node list \<times> switch_event list \<times> bool \<Rightarrow> bool" where
  "pending_pre cap (On_bus x) (subs, evs, claimed) \<longleftrightarrow> bus_pre x subs"
| "pending_pre cap (Fire ev) (subs, evs, claimed) \<longleftrightarrow> ev_id ev \<le> SWITCH_EVENT_ALL \<and> length evs < cap + (if claimed then 1 else 0)"
| "pending_pre cap Dispatch (subs, evs, claimed) \<longleftrightarrow> True"

fun hand_rel :: "dispatch_pc \<Rightarrow> switch_event list \<Rightarrow> switch_event list \<times> bool \<Rightarrow> bool" where
  "hand_rel Fetching q (evs, claimed) \<longleftrightarrow> evs = q \<and> \<not> claimed"
| "hand_rel (Holding ev) q (evs, claimed) \<longleftrightarrow> evs = ev # q \<and> claimed"
| "hand_rel _ q (evs, claimed) \<longleftrightarrow> False"

fun engine_rel :: "nat \<Rightarrow> engine \<times> dispatch_pc \<Rightarrow> event_node list \<times> switch_event list \<times> bool \<Rightarrow> bool" where
  "engine_rel cap (eg, pc) (subs, evs, claimed) \<longleftrightarrow>
     bus_rel (eg_bus eg) subs \<and> 0 < SYSTEM_RUNNING (eg_bus eg) \<and> cap = DISPATCH_QUEUE_LEN * unat (MAX_DISPATCH eg) \<and>
     list_all (\<lambda>ev. ev_id ev \<le> SWITCH_EVENT_ALL) evs \<and>
     (\<exists>q. EVENT_DISPATCH_QUEUE eg = Some (map Some q) \<and> hand_rel pc q (evs, claimed))"

lemma bus_step_running: "SYSTEM_RUNNING (snd (bus_step x bus)) = SYSTEM_RUNNING bus"
  by (cases x)
    (auto simp: switch_event_bind_removable_def switch_event_unbind_def switch_event_unbind_callback_def reserve_listener_keeps
      Let_def split_beta split: option.splits sum.splits)

lemma deliver_audience:
  assumes "bus_rel bus subs" and "ev_id ev \<le> SWITCH_EVENT_ALL"
  shows "switch_event_deliver record_call bus ev [] = Inr (map (\<lambda>n. (en_callback n, en_user_data n)) (audience ev subs))"
  using bus_deliver_sim [OF assms] by (simp split: sum.splits)

lemma engine_bus_sim:
  assumes "engine_rel cap (eg, pc) (subs, evs, claimed)" and "bus_pre x subs"
  shows "fst (engine_step (On_bus x) (eg, pc)) = fst (pending_step (On_bus x) (subs, evs, claimed)) \<and>
    engine_rel cap (snd (engine_step (On_bus x) (eg, pc))) (snd (pending_step (On_bus x) (subs, evs, claimed)))"
  using assms bus.answer_sim [of "eg_bus eg" subs x] bus.rel_sim [of "eg_bus eg" subs x] bus_step_running [of x "eg_bus eg"]
  by (cases "bus_step x (eg_bus eg)"; cases "subs_step x subs") simp

lemma engine_fire_sim:
  assumes "engine_rel cap (eg, pc) (subs, evs, claimed)" and "pending_pre cap (Fire ev) (subs, evs, claimed)"
  shows "fst (engine_step (Fire ev) (eg, pc)) = Inr (SWITCH_STATUS_SUCCESS, []) \<and>
    engine_rel cap (snd (engine_step (Fire ev) (eg, pc))) (subs, evs @ [ev], claimed)"
proof -
  obtain q where q: "EVENT_DISPATCH_QUEUE eg = Some (map Some q)" "hand_rel pc q (evs, claimed)" using assms(1) by auto
  have "length q < cap" using q(2) assms(2) by (cases pc) auto
  then have f: "switch_event_fire True ev eg = Inr (SWITCH_STATUS_SUCCESS, eg\<lparr>EVENT_DISPATCH_QUEUE := Some (map Some (q @ [ev]))\<rparr>)"
    using fire_dispatch [of eg "map Some q" ev] assms(1) q(1) by simp
  have "hand_rel pc (q @ [ev]) (evs @ [ev], claimed)" using q(2) by (cases pc) auto
  then show ?thesis using assms f by (auto simp del: map_append)
qed

lemma engine_dispatch_sim:
  assumes "engine_rel cap (eg, pc) (subs, evs, claimed)"
  shows "fst (engine_step Dispatch (eg, pc)) = fst (pending_step Dispatch (subs, evs, claimed)) \<and>
    engine_rel cap (snd (engine_step Dispatch (eg, pc))) (snd (pending_step Dispatch (subs, evs, claimed)))"
proof -
  obtain q where q: "EVENT_DISPATCH_QUEUE eg = Some (map Some q)" "hand_rel pc q (evs, claimed)" using assms by auto
  show ?thesis
  proof (cases pc)
    case Fetching
    then show ?thesis using assms q by (cases q) auto
  next
    case (Holding ev)
    then have e: "evs = ev # q" "claimed" using q(2) by auto
    then have "switch_event_deliver record_call (eg_bus eg) ev [] = Inr (map (\<lambda>n. (en_callback n, en_user_data n)) (audience ev subs))"
      using assms deliver_audience [of "eg_bus eg" subs ev] by auto
    then show ?thesis using assms q e Holding by auto
  qed (use q in auto)
qed

interpretation engine: simulation "engine_rel cap" "pending_pre cap" engine_step pending_step for cap
proof
  fix c :: "engine \<times> dispatch_pc" and a :: "event_node list \<times> switch_event list \<times> bool" and x
  assume r: "engine_rel cap c a" and p: "pending_pre cap x a"
  obtain eg pc where c: "c = (eg, pc)" by (cases c)
  obtain subs evs claimed where a: "a = (subs, evs, claimed)" by (cases a)
  show "fst (engine_step x c) = fst (pending_step x a)"
    using r p engine_bus_sim engine_fire_sim engine_dispatch_sim unfolding c a by (cases x) fastforce+
  show "engine_rel cap (snd (engine_step x c)) (snd (pending_step x a))"
    using r p engine_bus_sim engine_fire_sim engine_dispatch_sim unfolding c a by (cases x) fastforce+
qed

text \<open>C11: with one dispatch thread in its loop, every interleaving of bindings, unbindings, direct deliveries, events fired by any thread and steps of the dispatch thread answers as a list of subscriptions beside a first-in first-out list of pending events: no fired event is lost, doubled or overtaken, and each is delivered by calling once the subscriptions of the moment of its delivery that match it. Events have known types, a new binding has an address not in use, an unbinding names a live one, and the queue, of \<open>DISPATCH_QUEUE_LEN\<close> times \<open>MAX_DISPATCH\<close> places, is not full when an event is fired.\<close>

theorem dispatch_in_order:
  assumes "eg_bus eg = new_bus" and "EVENT_DISPATCH_QUEUE eg = Some []"
    and "run_pre (pending_pre (DISPATCH_QUEUE_LEN * unat (MAX_DISPATCH eg))) pending_step ops ([], [], False)"
  shows "fst (run_ops engine_step ops (eg, Fetching)) = fst (run_ops pending_step ops ([], [], False))"
proof -
  have "bus_rel new_bus []" by (simp add: bus_rel_def new_bus_def map_replicate_const del: upt_Suc replicate_Suc)
  then have "engine_rel (DISPATCH_QUEUE_LEN * unat (MAX_DISPATCH eg)) (eg, Fetching) ([], [], False)"
    using assms(1,2) by (simp add: new_bus_def)
  then show ?thesis using engine.run_simulates assms(3) by blast
qed

theorem dispatch_in_order_witness:
  "fst (run_ops engine_step
     [On_bus (Bus_bind 1 ''a'' 36 None 7 70), Fire digit_event, Fire (digit_event\<lparr>ev_id := 37\<rparr>), Dispatch,
      On_bus (Bus_bind 2 ''b'' 89 None 8 80), Dispatch, Dispatch, On_bus (Bus_unbind 1), Dispatch, Dispatch] (sample_engine, Fetching)) =
   [Inr (SWITCH_STATUS_SUCCESS, []), Inr (SWITCH_STATUS_SUCCESS, []), Inr (SWITCH_STATUS_SUCCESS, []), Inr (SWITCH_STATUS_SUCCESS, []),
    Inr (SWITCH_STATUS_SUCCESS, []), Inr (SWITCH_STATUS_SUCCESS, [(7, 70), (8, 80)]), Inr (SWITCH_STATUS_SUCCESS, []),
    Inr (SWITCH_STATUS_SUCCESS, []), Inr (SWITCH_STATUS_SUCCESS, [(8, 80)]), Inr (SWITCH_STATUS_SUCCESS, [])]"
  by (subst dispatch_in_order)
    (simp_all add: sample_engine_def DISPATCH_QUEUE_LEN_def SWITCH_EVENT_ALL_def audience_def switch_events_match_def digit_event_def)

text \<open>The thread joins and leaves the table of running threads and their count in step.\<close>

lemma dispatch_thread_counts:
  assumes "eg_threads eg ! slot" and "slot < MAX_DISPATCH_VAL" and "length (EVENT_DISPATCH_QUEUE_RUNNING eg) = MAX_DISPATCH_VAL"
    and "\<not> EVENT_DISPATCH_QUEUE_RUNNING eg ! slot"
  shows "\<exists>eg'. switch_event_dispatch_thread call slot Starting eg w = Inr (Fetching, eg', w) \<and>
    EVENT_DISPATCH_QUEUE_RUNNING eg' ! slot \<and> switch_event_dispatch_thread call slot Leaving eg' w = Inr (Ended, eg, w)"
proof -
  have "find (\<lambda>my_id. my_id = slot \<and> eg_threads eg ! my_id) [0..<MAX_DISPATCH_VAL] = Some slot"
    by (rule find_upt_only) (use assms in auto)
  moreover have "(EVENT_DISPATCH_QUEUE_RUNNING eg)[slot := False] = EVENT_DISPATCH_QUEUE_RUNNING eg"
    using assms(4) by (metis list_update_id)
  ultimately show ?thesis using assms by simp
qed

section \<open>Headers that do not say what they should\<close>

lemma add_tops:
  "\<not> ev_uniq ev \<Longrightarrow> list_all (\<lambda>(n, d). plain_name n \<and> plain_data d) hs \<Longrightarrow>
   fold (\<lambda>(n, v) e. snd (switch_event_add_header_string e STACK_TOP n v)) (map (\<lambda>(n, d). (n, Some d)) hs) ev =
     ev\<lparr>ev_headers := map (\<lambda>(n, d). scalar n d) (rev hs) @ ev_headers ev\<rparr>"
proof (induction hs arbitrary: ev)
  case (Cons h hs)
  obtain n d where h: "h = (n, d)" by (cases h)
  have "snd (switch_event_add_header_string ev STACK_TOP n (Some d)) = ev\<lparr>ev_headers := scalar n d # ev_headers ev\<rparr>"
    using Cons.prems h by (simp add: switch_event_add_header_string_def add_scalar STACK_TOP_def)
  then show ?case using Cons h by simp
qed simp

text \<open>The presence event is given \<open>alt_event_type\<close> where \<open>unique_id\<close> belongs.\<close>

lemma pres_in_unique_id:
  assumes "list_all plain_data [proto, login, from @ ''@'' @ domain, st, ty, alt, signed_decimal cnt, chan, ans, dir]"
  shows "\<exists>ev. switch_event_create_pres_in id (Some proto) (Some login) from domain (Some st) (Some ty) (Some alt) cnt uid (Some chan) (Some ans) (Some dir)
      = (SWITCH_STATUS_SUCCESS, Some ev) \<and> switch_event_get_header ev ''unique-id'' = Some alt"
proof -
  have n: "plain_name ''proto''" "plain_name ''login''" "plain_name ''from''" "plain_name ''status''" "plain_name ''event_type''"
    "plain_name ''alt_event_type''" "plain_name ''event_count''" "plain_name ''unique-id''" "plain_name ''channel-state''"
    "plain_name ''answer-state''" "plain_name ''presence-call-direction''" by (simp_all add: plain_name_def)
  have c: "\<not> strcasecmp_eq ''presence-call-direction'' ''unique-id''" "\<not> strcasecmp_eq ''answer-state'' ''unique-id''"
    "\<not> strcasecmp_eq ''channel-state'' ''unique-id''" by code_simp+
  let ?hs = "[(''proto'', proto), (''login'', login), (''from'', from @ ''@'' @ domain), (''status'', st), (''event_type'', ty),
    (''alt_event_type'', alt), (''event_count'', signed_decimal cnt), (''unique-id'', alt), (''channel-state'', chan),
    (''answer-state'', ans), (''presence-call-direction'', dir)]"
  let ?e0 = "\<lparr>ev_id = SWITCH_EVENT_PRESENCE_IN, ev_subclass = None, ev_headers = [], ev_body = None, ev_uniq = False\<rparr>"
  let ?ev = "?e0\<lparr>ev_headers := map (\<lambda>(n, d). scalar n d) (rev ?hs) @ ev_headers ?e0\<rparr>"
  have new: "switch_event_create_subclass id SWITCH_EVENT_PRESENCE_IN None = (SWITCH_STATUS_SUCCESS, Some ?e0)"
    by (simp add: switch_event_create_subclass_def event_types SWITCH_EVENT_PRESENCE_IN_def uniq_type_def)
  have "list_all (\<lambda>(n, d). plain_name n \<and> plain_data d) ?hs" using assms n by simp
  then have "fold (\<lambda>(n, v) e. snd (switch_event_add_header_string e STACK_TOP n v)) (map (\<lambda>(n, d). (n, Some d)) ?hs) ?e0 = ?ev"
    by (intro add_tops) simp_all
  then have "switch_event_create_pres_in id (Some proto) (Some login) from domain (Some st) (Some ty) (Some alt) cnt uid (Some chan) (Some ans) (Some dir)
      = (SWITCH_STATUS_SUCCESS, Some ?ev)"
    unfolding switch_event_create_pres_in_def new by (simp only: prod.case option.case list.map fold.simps)
  moreover have "hash_ok ?ev" by (simp add: hash_ok_def scalar_def)
  then have "switch_event_get_header ?ev ''unique-id'' = Some alt" using c by (simp add: get_header_find find_hash_ok scalar_def)
  ultimately show ?thesis by blast
qed

text \<open>Two events whose births overlap can get the same number.\<close>

lemma sequence_not_unique:
  assumes "switch_event_prep_for_delivery E file func line 1 n ev = Inr (seq_a, a)"
    and "switch_event_prep_for_delivery E file func line 0 (n + 1) ev = Inr (seq_b, b)"
  shows "seq_a = seq_b \<and> a = b"
  using assms by (auto simp: switch_event_prep_for_delivery_def Let_def fbind_def split: sum.splits)

end
