(* ===== verification/Event_Text.thy ===== *)
theory Event_Text
  imports Caller Text_Tools Text_Codec
begin

text \<open>
  Events as text in src/switch\_event.c: the serialised form with its headers and body, the parameter
  string of a web request, replies and events made from pairs of arrays. A serialised event can be read
  back line by line, and neither form leaves its buffers.
\<close>

section \<open>Serialisation\<close>

text \<open>
  The text written so far, the size of its buffer and the size of the buffer for encoded values. The text
  is written with \<open>snprintf\<close>, so what does not fit is cut.
\<close>

record serial =
  sr_text :: string
  sr_dlen :: nat
  sr_encode_len :: nat

definition LF :: char where "LF = CHR 0x0A"

definition append_text :: "nat \<Rightarrow> string \<Rightarrow> serial \<Rightarrow> serial" where
  "append_text llen t s =
     (let len = length (sr_text s);
          dlen = (if len + llen > sr_dlen s then sr_dlen s + (512 + (len + llen)) else sr_dlen s)
      in s\<lparr>sr_text := sr_text s @ take (dlen - len - 1) t, sr_dlen := dlen\<rparr>)"

definition value_room :: "event_header \<Rightarrow> string \<Rightarrow> nat" where
  "value_room hp v = (if h_array hp \<noteq> [] then sum_list (map (\<lambda>x. length x * 3 + 1) (h_array hp)) else length v * 3 + 1)"

definition encode_value :: "bool \<Rightarrow> string \<Rightarrow> nat \<Rightarrow> fault + string" where
  "encode_value encode v encode_len =
     (if encode then switch_url_encode v encode_len else Inr (take (encode_len - 1) (''['' @ v @ '']'')))"

definition serialize_header :: "bool \<Rightarrow> event_header \<Rightarrow> serial \<Rightarrow> fault + serial" where
  "serialize_header encode hp s =
     (case h_value hp of
        None \<Rightarrow> Inl Null_pointer
      | Some v \<Rightarrow>
          let encode_len = max (sr_encode_len s) (value_room hp v)
          in fbind (encode_value encode v encode_len) (\<lambda>e.
               Inr (append_text (length (h_name hp) + length e + 8)
                      (h_name hp @ '': '' @ (if e = [] then ''_undef_'' else e) @ [LF])
                      (s\<lparr>sr_encode_len := encode_len\<rparr>))))"

primrec serialize_headers :: "bool \<Rightarrow> event_header list \<Rightarrow> serial \<Rightarrow> fault + serial" where
  "serialize_headers encode [] s = Inr s"
| "serialize_headers encode (hp # hps) s = fbind (serialize_header encode hp s) (serialize_headers encode hps)"

definition serialize_body :: "string option \<Rightarrow> serial \<Rightarrow> serial" where
  "serialize_body body s =
     (case body of
        None \<Rightarrow> s\<lparr>sr_text := sr_text s @ take (sr_dlen s - length (sr_text s) - 1) [LF]\<rparr>
      | Some b \<Rightarrow>
          if b \<noteq> [] then append_text (length b + 25) (''Content-Length: '' @ decimal (length b) @ [LF, LF] @ b) s
          else append_text 5 [LF] s)"

definition switch_event_serialize :: "switch_event \<Rightarrow> bool \<Rightarrow> fault + string" where
  "switch_event_serialize ev encode =
     fbind (serialize_headers encode (ev_headers ev) \<lparr>sr_text = [], sr_dlen = 512 * 2, sr_encode_len = 1536\<rparr>)
       (\<lambda>s. Inr (sr_text (serialize_body (ev_body ev) s)))"

section \<open>Parameter strings\<close>

text \<open>
  \<open>vars_map\<close>, when it is given, lists the variables that are enabled. The room for a value is computed from
  the length of its name. The last character is removed when it is \<open>&\<close>; of an empty text the character
  before its start is read.
\<close>

definition var_enabled :: "(string \<Rightarrow> string option) option \<Rightarrow> string \<Rightarrow> bool" where
  "var_enabled vars_map var =
     (case vars_map of None \<Rightarrow> True
      | Some m \<Rightarrow> (case m var of None \<Rightarrow> False | Some d \<Rightarrow> strcasecmp_eq d ''enabled''))"

primrec param_loop :: "(string \<Rightarrow> string option) option \<Rightarrow> event_header list \<Rightarrow> nat \<Rightarrow> fault + string" where
  "param_loop vars_map [] encode_len = Inr []"
| "param_loop vars_map (hi # his) encode_len =
     (if var_enabled vars_map (h_name hi) then
        let encode_len' = max encode_len (length (h_name hi) * 3 + 1)
        in fbind (case h_value hi of None \<Rightarrow> Inl Null_pointer | Some v \<Rightarrow> switch_url_encode v encode_len') (\<lambda>e.
             fbind (param_loop vars_map his encode_len') (\<lambda>rest. Inr (h_name hi @ ''='' @ e @ ''&'' @ rest)))
      else param_loop vars_map his encode_len)"

definition switch_event_build_param_string ::
  "switch_event option \<Rightarrow> string option \<Rightarrow> (string \<Rightarrow> string option) option \<Rightarrow> fault + string" where
  "switch_event_build_param_string event prfx vars_map =
     fbind (param_loop vars_map (case event of None \<Rightarrow> [] | Some ev \<Rightarrow> ev_headers ev) 1024) (\<lambda>t.
       let data = (case prfx of None \<Rightarrow> [] | Some p \<Rightarrow> p @ ''&'') @ t
       in if data = [] then Inl Out_of_bounds
          else Inr (if last data = CHR ''&'' then butlast data else data))"

section \<open>Replies and pairs\<close>

definition reply_name :: "string \<Rightarrow> string" where
  "reply_name name =
     (if strncasecmp_eq 5 name ''from_'' then take 1023 (''to_'' @ drop 5 name)
      else if strncasecmp_eq 3 name ''to_'' then take 1023 (''from_'' @ drop 3 name)
      else if strcasecmp_eq name ''to'' then ''from''
      else if strcasecmp_eq name ''from'' then ''to''
      else name)"

definition switch_event_dup_reply ::
  "(switch_event \<Rightarrow> switch_event) \<Rightarrow> switch_event \<Rightarrow> switch_status \<times> switch_event option" where
  "switch_event_dup_reply prep todup =
     (case switch_event_create_subclass prep SWITCH_EVENT_CLONE (ev_subclass todup) of
        (_, None) \<Rightarrow> (SWITCH_STATUS_GENERR, None)
      | (_, Some ev) \<Rightarrow>
          let ev1 = ev\<lparr>ev_id := ev_id todup, ev_uniq := ev_uniq todup\<rparr>;
              ev2 = fold (\<lambda>hp e. if ev_subclass todup \<noteq> None \<and> h_name hp = ''Event-Subclass'' then e
                                 else copy_header (hp\<lparr>h_name := reply_name (h_name hp)\<rparr>) e) (ev_headers todup) ev1;
              ev3 = snd (switch_event_add_header_string ev2 STACK_BOTTOM ''replying'' (Some ''true''));
              ev4 = (case ev_body todup of
                       None \<Rightarrow> ev3
                     | Some b \<Rightarrow> snd (switch_event_add_header_string ev3 STACK_BOTTOM ''orig_body'' (Some b)))
          in (SWITCH_STATUS_SUCCESS, Some ev4))"

definition pair_header :: "string option \<times> string option \<Rightarrow> string \<times> string option" where
  "pair_header p =
     (if zstr (fst p) then ''Unknown'' else the (fst p), Some (case snd p of None \<Rightarrow> [] | Some v \<Rightarrow> v))"

definition switch_event_create_array_pair ::
  "(switch_event \<Rightarrow> switch_event) \<Rightarrow> (string option \<times> string option) list \<Rightarrow> switch_status \<times> switch_event option" where
  "switch_event_create_array_pair prep pairs =
     (SWITCH_STATUS_SUCCESS,
      map_option (fold add_named (map pair_header pairs)) (snd (switch_event_create_subclass prep SWITCH_EVENT_CLONE None)))"

section \<open>Nothing is cut\<close>

lemma url_piece_length: "1 \<le> length (url_piece c) \<and> length (url_piece c) \<le> 3"
  by (simp add: url_piece_def url_escape_def)

lemma url_text_length: "length s \<le> length (url_text s) \<and> length (url_text s) \<le> 3 * length s"
proof (induction s)
  case (Cons c s)
  then show ?case using url_piece_length [of c] by simp
qed simp

lemma url_encode_fits:
  assumes "length (url_text s) < len" and "len < size_max"
  shows "switch_url_encode s len = Inr (url_text s)"
proof -
  obtain k where "url_loop (len - 1) s [] = url_text (take k s)" "length (url_text s) \<le> len - 1 \<longrightarrow> take k s = s"
    using url_loop_prefix [of "[]" "len - 1" s] by auto
  then show ?thesis using assms by (simp add: switch_url_encode_def size_sub_no_wrap Let_def)
qed

lemma append_fits:
  assumes "length t < llen"
  shows "sr_text (append_text llen t s) = sr_text s @ t" and "sr_encode_len (append_text llen t s) = sr_encode_len s"
    and "length t + 2 \<le> llen \<Longrightarrow> length (sr_text (append_text llen t s)) + 2 \<le> sr_dlen (append_text llen t s)"
  using assms by (auto simp: append_text_def Let_def)

definition header_fits :: "event_header \<Rightarrow> bool" where
  "header_fits hp =
     (case h_value hp of None \<Rightarrow> False
      | Some v \<Rightarrow> v \<noteq> [] \<and> value_room hp v < size_max \<and> (h_array hp = [] \<or> length (url_text v) < 1536))"

definition header_line :: "event_header \<Rightarrow> string" where
  "header_line hp = h_name hp @ '': '' @ url_text (the (h_value hp)) @ [LF]"

lemma serialize_header_line:
  assumes "header_fits hp" and "1536 \<le> sr_encode_len s" and "sr_encode_len s < size_max"
  shows "\<exists>s'. serialize_header True hp s = Inr s' \<and> sr_text s' = sr_text s @ header_line hp \<and>
    length (sr_text s') + 2 \<le> sr_dlen s' \<and> 1536 \<le> sr_encode_len s' \<and> sr_encode_len s' < size_max"
proof -
  obtain v where v: "h_value hp = Some v" "v \<noteq> []" "value_room hp v < size_max" "h_array hp = [] \<or> length (url_text v) < 1536"
    using assms(1) by (auto simp: header_fits_def split: option.splits)
  let ?el = "max (sr_encode_len s) (value_room hp v)"
  let ?s = "append_text (length (h_name hp) + length (url_text v) + 8) (header_line hp) (s\<lparr>sr_encode_len := ?el\<rparr>)"
  have "length (url_text v) < ?el" using v(4) assms(2) url_text_length [of v] by (auto simp: value_room_def)
  then have e: "encode_value True v ?el = Inr (url_text v)"
    using v(3) assms(3) by (simp add: encode_value_def url_encode_fits)
  have ne: "url_text v \<noteq> []" using v(2) url_text_length [of v] by auto
  have "serialize_header True hp s = Inr ?s" using v(1) e ne by (simp add: serialize_header_def Let_def header_line_def)
  moreover have "length (header_line hp) + 5 = length (h_name hp) + length (url_text v) + 8" using v(1) by (simp add: header_line_def)
  then have "sr_text ?s = sr_text s @ header_line hp" "sr_encode_len ?s = ?el" "length (sr_text ?s) + 2 \<le> sr_dlen ?s"
    using append_fits [of "header_line hp" "length (h_name hp) + length (url_text v) + 8" "s\<lparr>sr_encode_len := ?el\<rparr>"] by simp_all
  ultimately show ?thesis using assms(2,3) v(3) by (intro exI [of _ ?s]) auto
qed

lemma serialize_headers_lines:
  "list_all header_fits hps \<Longrightarrow> length (sr_text s) + 2 \<le> sr_dlen s \<Longrightarrow> 1536 \<le> sr_encode_len s \<Longrightarrow> sr_encode_len s < size_max \<Longrightarrow>
   \<exists>s'. serialize_headers True hps s = Inr s' \<and> sr_text s' = sr_text s @ concat (map header_line hps) \<and>
     length (sr_text s') + 2 \<le> sr_dlen s'"
proof (induction hps arbitrary: s)
  case (Cons hp hps)
  obtain s1 where s1: "serialize_header True hp s = Inr s1" "sr_text s1 = sr_text s @ header_line hp"
    "length (sr_text s1) + 2 \<le> sr_dlen s1" "1536 \<le> sr_encode_len s1" "sr_encode_len s1 < size_max"
    using serialize_header_line [of hp s] Cons.prems by auto
  obtain s2 where "serialize_headers True hps s1 = Inr s2" "sr_text s2 = sr_text s1 @ concat (map header_line hps)"
    "length (sr_text s2) + 2 \<le> sr_dlen s2" using Cons.IH [OF _ s1(3-5)] Cons.prems(1) by auto
  then show ?case using s1(1,2) by simp
qed simp

lemma decimal_length: "n < 10 ^ Suc k \<Longrightarrow> length (decimal n) \<le> Suc k"
proof (induction k arbitrary: n)
  case 0
  then show ?case by (subst decimal.simps) simp
next
  case (Suc k)
  show ?case
  proof (cases "n < 10")
    case True
    then show ?thesis by (subst decimal.simps) simp
  next
    case False
    have "n div 10 < 10 ^ Suc k" using Suc.prems by (simp add: div_less_iff_less_mult mult.commute)
    then show ?thesis using Suc.IH [of "n div 10"] False by (subst decimal.simps) simp
  qed
qed

definition body_text :: "string option \<Rightarrow> string" where
  "body_text body =
     (case body of None \<Rightarrow> [LF] | Some b \<Rightarrow> if b = [] then [LF] else ''Content-Length: '' @ decimal (length b) @ [LF, LF] @ b)"

lemma serialize_body_text:
  assumes "case body of None \<Rightarrow> True | Some b \<Rightarrow> length b < 1000000" and "length (sr_text s) + 2 \<le> sr_dlen s"
  shows "sr_text (serialize_body body s) = sr_text s @ body_text body"
proof (cases body)
  case None
  have "take (sr_dlen s - length (sr_text s) - 1) [LF] = [LF]" using assms(2) by simp
  then show ?thesis using None by (simp add: serialize_body_def body_text_def)
next
  case (Some b)
  show ?thesis
  proof (cases "b = []")
    case True
    then show ?thesis using Some append_fits(1) [of "[LF]" 5] by (simp add: serialize_body_def body_text_def)
  next
    case False
    have "length (decimal (length b)) \<le> 6" using decimal_length [of "length b" 5] assms(1) Some by simp
    then have "length (body_text body) < length b + 25" using Some False by (simp add: body_text_def)
    moreover have "serialize_body body s = append_text (length b + 25) (body_text body) s"
      using Some False by (simp add: serialize_body_def body_text_def)
    ultimately show ?thesis using append_fits(1) by simp
  qed
qed

lemma serialize_text:
  assumes "list_all header_fits (ev_headers ev)" and "case ev_body ev of None \<Rightarrow> True | Some b \<Rightarrow> length b < 1000000"
  shows "switch_event_serialize ev True = Inr (concat (map header_line (ev_headers ev)) @ body_text (ev_body ev))"
proof -
  obtain s where "serialize_headers True (ev_headers ev) \<lparr>sr_text = [], sr_dlen = 512 * 2, sr_encode_len = 1536\<rparr> = Inr s"
    "sr_text s = concat (map header_line (ev_headers ev))" "length (sr_text s) + 2 \<le> sr_dlen s"
    using serialize_headers_lines [OF assms(1), of "\<lparr>sr_text = [], sr_dlen = 512 * 2, sr_encode_len = 1536\<rparr>"] by (auto simp: size_max_def)
  then show ?thesis using serialize_body_text [OF assms(2), of s] by (simp add: switch_event_serialize_def)
qed

section \<open>Reading an event back\<close>

text \<open>
  What a client does with the text: lines up to the first blank one, each a name, a colon, a blank and an
  encoded value, and the rest is the body.
\<close>

function read_lines :: "string \<Rightarrow> string list \<times> string" where
  "read_lines s =
     (if s = [] then ([], [])
      else let l = takeWhile (\<lambda>c. c \<noteq> LF) s; r = drop (Suc (length l)) s
           in if l = [] then ([], r) else let (ls, b) = read_lines r in (l # ls, b))"
  by pat_completeness auto
termination by (relation "measure length") auto

declare read_lines.simps [simp del]

definition read_field :: "(string \<Rightarrow> nat option) \<Rightarrow> string \<Rightarrow> string \<times> string" where
  "read_field scan l = (takeWhile (\<lambda>c. c \<noteq> CHR '':'') l, switch_url_decode scan (drop 2 (dropWhile (\<lambda>c. c \<noteq> CHR '':'') l)))"

definition read_event :: "(string \<Rightarrow> nat option) \<Rightarrow> string \<Rightarrow> (string \<times> string) list \<times> string" where
  "read_event scan s = (map (read_field scan) (fst (read_lines s)), snd (read_lines s))"

lemma read_lines_blank: "read_lines (LF # r) = ([], r)"
  by (subst read_lines.simps) simp

lemma read_lines_line:
  assumes "l \<noteq> []" and "LF \<notin> set l"
  shows "read_lines (l @ LF # r) = (l # fst (read_lines r), snd (read_lines r))"
proof -
  have "takeWhile (\<lambda>c. c \<noteq> LF) (l @ LF # r) = l" using assms(2) by (subst takeWhile_append2) auto
  then show ?thesis using assms(1) by (subst read_lines.simps) (simp add: Let_def split_beta)
qed

lemma url_text_no_LF: "LF \<notin> set (url_text s)"
proof (induction s)
  case (Cons c s)
  have "LF \<notin> set hex_digits" by code_simp
  moreover have "hex_digits ! (of_char c mod 16) \<in> set hex_digits" "hex_digits ! (of_char c div 16) \<in> set hex_digits"
  proof -
    have "length hex_digits = 16" by (simp add: hex_digits_def)
    moreover have "of_char c div 16 < (16 :: nat)" using nat_of_char_less_256 [of c] by linarith
    ultimately show "hex_digits ! (of_char c mod 16) \<in> set hex_digits" "hex_digits ! (of_char c div 16) \<in> set hex_digits"
      by (simp_all only: nth_mem mod_less_divisor zero_less_numeral)
  qed
  moreover have "url_special LF" by code_simp
  moreover have "CHR ''%'' \<noteq> LF" by (simp add: LF_def)
  ultimately have "LF \<notin> set (url_piece c)" unfolding url_piece_def url_escape_def by auto
  then show ?case using Cons by simp
qed simp

lemma header_line_read:
  assumes "scans_hex scan" and "CHR '':'' \<notin> set (h_name hp)" and "LF \<notin> set (h_name hp)"
  shows "read_event scan (header_line hp @ r) =
    ((h_name hp, the (h_value hp)) # fst (read_event scan r), snd (read_event scan r))"
proof -
  let ?l = "h_name hp @ '': '' @ url_text (the (h_value hp))"
  have "LF \<notin> set ?l" using assms(3) url_text_no_LF by (simp add: LF_def)
  then have "read_lines (?l @ LF # r) = (?l # fst (read_lines r), snd (read_lines r))" by (rule read_lines_line [rotated]) simp
  moreover have "takeWhile (\<lambda>c. c \<noteq> CHR '':'') ?l = h_name hp" "dropWhile (\<lambda>c. c \<noteq> CHR '':'') ?l = '': '' @ url_text (the (h_value hp))"
    using assms(2) by (subst takeWhile_append2 dropWhile_append2; auto)+
  then have "read_field scan ?l = (h_name hp, the (h_value hp))"
    using url_decode_text [OF assms(1)] by (simp add: read_field_def)
  ultimately show ?thesis by (simp add: read_event_def header_line_def)
qed

lemma header_lines_read:
  assumes "scans_hex scan"
  shows "list_all (\<lambda>hp. CHR '':'' \<notin> set (h_name hp) \<and> LF \<notin> set (h_name hp)) hps \<Longrightarrow>
    read_event scan (concat (map header_line hps) @ r) =
      (map (\<lambda>hp. (h_name hp, the (h_value hp))) hps @ fst (read_event scan r), snd (read_event scan r))"
proof (induction hps)
  case (Cons hp hps)
  then show ?case using header_line_read [OF assms, of hp] by simp
qed simp

lemma url_decode_plain: "CHR ''%'' \<notin> set s \<Longrightarrow> switch_url_decode scan s = s"
  by (induction s) auto

lemma body_read:
  "read_event scan (body_text body) =
     (case body of None \<Rightarrow> ([], []) | Some b \<Rightarrow> (if b = [] then [] else [(''Content-Length'', decimal (length b))], b))"
proof (cases "body = None \<or> body = Some []")
  case True
  then show ?thesis by (auto simp: body_text_def read_event_def read_lines_blank)
next
  case False
  then obtain b where b: "body = Some b" "b \<noteq> []" by auto
  have d: "CHR ''%'' \<notin> set (decimal n)" "LF \<notin> set (decimal n)" for n
    using decimal_digits [of n] by (auto simp: list_all_iff is_digit_def char_code_def LF_def)
  let ?l = "''Content-Length: '' @ decimal (length b)"
  have "LF \<notin> set ?l" using d by (simp add: LF_def)
  then have "read_lines (?l @ LF # LF # b) = ([?l], b)" by (subst read_lines_line) (simp_all add: read_lines_blank)
  moreover have "read_field scan ?l = (''Content-Length'', decimal (length b))"
    using d(1) by (simp add: read_field_def url_decode_plain)
  ultimately show ?thesis using b by (simp add: body_text_def read_event_def)
qed

section \<open>The properties\<close>

text \<open>C13: a serialised event is read back: for headers whose names have no colon or line feed, values that are not empty and arrays whose encoding fits the 1536 bytes set aside, and a body below a million bytes, the text is complete and a client gets every header, decoded, in order, then the length of the body, and the body.\<close>

theorem event_serialize_reads_back:
  assumes "scans_hex scan" and "list_all header_fits (ev_headers ev)"
    and "list_all (\<lambda>hp. CHR '':'' \<notin> set (h_name hp) \<and> LF \<notin> set (h_name hp)) (ev_headers ev)"
    and "case ev_body ev of None \<Rightarrow> True | Some b \<Rightarrow> length b < 1000000"
  shows "\<exists>txt. switch_event_serialize ev True = Inr txt \<and>
    read_event scan txt =
      (map (\<lambda>hp. (h_name hp, the (h_value hp))) (ev_headers ev) @
         (case ev_body ev of None \<Rightarrow> [] | Some b \<Rightarrow> if b = [] then [] else [(''Content-Length'', decimal (length b))]),
       case ev_body ev of None \<Rightarrow> [] | Some b \<Rightarrow> b)"
  using serialize_text [OF assms(2,4)] header_lines_read [OF assms(1,3), of "body_text (ev_body ev)"] body_read [of scan "ev_body ev"]
  by (auto split: option.splits)

theorem event_serialize_reads_back_witness:
  "\<exists>txt. switch_event_serialize \<lparr>ev_id = 36, ev_subclass = None, ev_headers = [scalar ''Event-Name'' ''DTMF'', scalar ''To'' ''a: b''],
      ev_body = Some ''hello'', ev_uniq = False\<rparr> True = Inr txt \<and>
    read_event scan_two txt = ([(''Event-Name'', ''DTMF''), (''To'', ''a: b''), (''Content-Length'', decimal (length ''hello''))], ''hello'')"
  using event_serialize_reads_back [OF scan_two_ok,
      of "\<lparr>ev_id = 36, ev_subclass = None, ev_headers = [scalar ''Event-Name'' ''DTMF'', scalar ''To'' ''a: b''], ev_body = Some ''hello'', ev_uniq = False\<rparr>"]
  by (simp add: header_fits_def value_room_def scalar_def LF_def size_max_def)

text \<open>The room for an array is computed from its items alone, without the marker and the separators: a long array is cut.\<close>

lemma serialize_cuts_array:
  fixes n :: string
  defines "items \<equiv> [replicate 300 CHR '':'', replicate 300 CHR '':'']"
  shows "value_room (array_header n items) (draw items) = 1802 \<and> length (url_text (draw items)) = 1817 \<and>
    (\<forall>e. switch_url_encode (draw items) 1802 = Inr e \<longrightarrow> length e < 1802)"
proof (intro conjI allI impI)
  show "value_room (array_header n items) (draw items) = 1802" by (simp add: value_room_def array_header_def items_def)
  have a: "url_text (x @ y) = url_text x @ url_text y" for x y by (simp add: url_text_def)
  have r: "length (url_text (replicate k c)) = k * length (url_piece c)" for k c by (induction k) simp_all
  have p: "length (url_piece CHR '':'') = 3" "length (url_text ''ARRAY::'') = 11" "length (url_text ''|:'') = 6" by code_simp+
  have "draw items = ''ARRAY::'' @ replicate 300 CHR '':'' @ ''|:'' @ replicate 300 CHR '':''" by (simp add: draw_def items_def)
  then show "length (url_text (draw items)) = 1817" by (simp only: a length_append r p)
  show "length e < 1802" if "switch_url_encode (draw items) 1802 = Inr e" for e
    using that by (auto simp: switch_url_encode_def Let_def split: if_splits)
qed

section \<open>Parameters and replies\<close>

definition param_of :: "event_header \<Rightarrow> string" where
  "param_of hp = h_name hp @ ''='' @ url_text (the (h_value hp)) @ ''&''"

lemma param_loop_text:
  "list_all (\<lambda>hp. case h_value hp of None \<Rightarrow> False | Some v \<Rightarrow> length (url_text v) < 1024 \<and> 3 * length (h_name hp) + 1 < size_max) hps \<Longrightarrow>
   1024 \<le> len \<Longrightarrow> len < size_max \<Longrightarrow>
   param_loop vars_map hps len = Inr (concat (map param_of (filter (\<lambda>hp. var_enabled vars_map (h_name hp)) hps)))"
proof (induction hps arbitrary: len)
  case (Cons hp hps)
  obtain v where v: "h_value hp = Some v" "length (url_text v) < 1024" "3 * length (h_name hp) + 1 < size_max"
    using Cons.prems(1) by (auto split: option.splits)
  let ?len = "max len (length (h_name hp) * 3 + 1)"
  have l: "1024 \<le> ?len" "?len < size_max" using Cons.prems(2,3) v(3) by auto
  then have "switch_url_encode v ?len = Inr (url_text v)" using v(2) by (intro url_encode_fits) auto
  then show ?case using Cons.IH [OF _ l] Cons.IH [OF _ Cons.prems(2,3)] Cons.prems(1) v(1) by (simp add: Let_def param_of_def)
qed simp

text \<open>the parameter string of a web request lists the enabled headers, encoded and separated by ampersands, when each value needs less than 1024 bytes.\<close>

theorem param_string_text:
  assumes "list_all (\<lambda>hp. case h_value hp of None \<Rightarrow> False
      | Some v \<Rightarrow> length (url_text v) < 1024 \<and> 3 * length (h_name hp) + 1 < size_max) (ev_headers ev)"
  shows "switch_event_build_param_string (Some ev) (Some p) vars_map =
    Inr (p @ concat (map (\<lambda>hp. ''&'' @ h_name hp @ ''='' @ url_text (the (h_value hp)))
           (filter (\<lambda>hp. var_enabled vars_map (h_name hp)) (ev_headers ev))))"
proof -
  let ?hs = "filter (\<lambda>hp. var_enabled vars_map (h_name hp)) (ev_headers ev)"
  have r: "''&'' @ concat (map param_of hs) =
      concat (map (\<lambda>hp. ''&'' @ h_name hp @ ''='' @ url_text (the (h_value hp))) hs) @ ''&''" for hs
    by (induction hs) (simp_all add: param_of_def)
  have "param_loop vars_map (ev_headers ev) 1024 = Inr (concat (map param_of ?hs))"
    using param_loop_text [OF assms] by (simp add: size_max_def)
  moreover have "(p @ ''&'') @ concat (map param_of ?hs) =
      (p @ concat (map (\<lambda>hp. ''&'' @ h_name hp @ ''='' @ url_text (the (h_value hp))) ?hs)) @ ''&''"
    using r [of ?hs] by simp
  ultimately show ?thesis
    unfolding switch_event_build_param_string_def by (simp only: option.case fbind_Inr Let_def) (simp add: butlast_append)
qed

theorem param_string_text_witness:
  "switch_event_build_param_string (Some \<lparr>ev_id = 36, ev_subclass = None, ev_headers = [scalar ''a'' ''1'', scalar ''b'' ''2'', scalar ''c'' ''3''],
      ev_body = None, ev_uniq = False\<rparr>) (Some ''q'') (Some (\<lambda>v. if v = ''b'' then None else Some ''enabled'')) =
   Inr (''q&a='' @ url_text ''1'' @ ''&c='' @ url_text ''3'')"
proof -
  have u: "length (url_text ''1'') < 1024" "length (url_text ''2'') < 1024" "length (url_text ''3'') < 1024" by code_simp+
  show ?thesis
    by (subst param_string_text) (use u in \<open>simp_all add: scalar_def var_enabled_def size_max_def\<close>)
qed

text \<open>The room for a value is that of the name: a longer value is cut at 1023 bytes.\<close>

lemma param_value_cut:
  assumes "length n \<le> 341" and "h_name hp = n" and "h_value hp = Some v" and "param_loop None [hp] 1024 = Inr t"
  shows "length t < length n + 1026"
  using assms by (auto simp: var_enabled_def fbind_def switch_url_encode_def Let_def split: if_splits sum.splits)

lemma reply_name_swaps:
  assumes "length x \<le> 1018"
  shows "reply_name (''from_'' @ x) = ''to_'' @ x" and "reply_name (''to_'' @ x) = ''from_'' @ x"
proof -
  have "strncasecmp_eq 5 (''from_'' @ x) ''from_''" "strncasecmp_eq 3 (''to_'' @ x) ''to_''"
    by (simp_all add: strncasecmp_eq_def numeral_eq_Suc)
  moreover have "\<not> strncasecmp_eq 5 (''to_'' @ x) ''from_''"
  proof -
    have "ascii_lower (char_byte CHR ''t'') \<noteq> ascii_lower (char_byte CHR ''f'')" by code_simp
    then show ?thesis by (simp add: strncasecmp_eq_def numeral_eq_Suc strcasecmp_eq_def)
  qed
  ultimately show "reply_name (''from_'' @ x) = ''to_'' @ x" "reply_name (''to_'' @ x) = ''from_'' @ x"
    using assms by (simp_all add: reply_name_def)
qed

text \<open>
  The search for another group of brackets starts at the closing bracket of the first, which is neither the
  opening bracket nor a blank, so \<open>switch_event_create_brackets\<close> never sees a second group.
\<close>

lemma bracket_groups_not_chained:
  assumes "b \<noteq> a" and "b \<noteq> CHR '' ''"
  shows "switch_strchr_strict (b # rest) a (Some '' '') = None"
  using assms by (simp add: switch_strchr_strict_def)

end
