(* ===== verification/Expand.thy ===== *)
theory Expand
  imports Caller Text_Tools
begin

text \<open>
  Expansion of variables in strings, \<open>switch_event_expand_headers_check\<close> of src/switch\_event.c: \<open>${name}\<close> is
  the value of a header or of a global variable, \<open>$${name}\<close> of a global variable, \<open>${name(arguments)}\<close> the
  output of an API command, with permission lists for variables and commands. The text is written into a
  buffer that grows, and a write outside of it is a fault.
\<close>

section \<open>Permissions\<close>

record perm_list =
  pl_list :: switch_event
  pl_default_allow :: bool

definition switch_event_check_permission_list :: "perm_list option \<Rightarrow> string \<Rightarrow> bool" where
  "switch_event_check_permission_list list name =
     (case list of
        None \<Rightarrow> True
      | Some l \<Rightarrow>
          if ev_headers (pl_list l) = [] then pl_default_allow l
          else (case switch_event_get_header (pl_list l) name of
                  Some v \<Rightarrow> \<not> (v \<noteq> [] \<and> hd v = CHR ''d'')
                | None \<Rightarrow> pl_default_allow l))"

section \<open>Expansion\<close>

text \<open>
  What the expansion reads: the event, the global variables, the lists, whether API commands may be run
  (\<open>SCF_API_EXPANSION\<close>), and the output of a command, \<open>None\<close> when it fails.
\<close>

record expand_env =
  xe_event :: switch_event
  xe_globals :: "string \<Rightarrow> string option"
  xe_var_list :: "perm_list option"
  xe_api_list :: "perm_list option"
  xe_api_on :: bool
  xe_api :: "string \<Rightarrow> string \<Rightarrow> string option"

definition var_denied :: string where
  "var_denied = ''<Variable Expansion Permission Denied>''"

definition api_denied :: string where
  "api_denied = ''<API execute Permission Denied>''"

text \<open>
  From behind the opening brace: the text up to the matching brace, the rest and the depth at the end,
  which is zero when the brace was found. A brace right at the start does not nest.
\<close>

fun brace_scan :: "nat \<Rightarrow> bool \<Rightarrow> string \<Rightarrow> string \<times> string \<times> nat" where
  "brace_scan br first [] = ([], [], br)"
| "brace_scan br first (e # es) =
     (if br = 1 \<and> e = CHR ''}'' then ([], es, 0)
      else let br' = (if br > 0 then
                        if \<not> first \<and> e = CHR ''{'' then br + 1 else if br > 1 \<and> e = CHR ''}'' then br - 1 else br
                      else br);
               (n, r, b) = brace_scan br' False es
           in (e # n, r, b))"

fun args_cut :: "nat \<Rightarrow> string \<Rightarrow> string" where
  "args_cut br [] = []"
| "args_cut br (e # es) =
     (if e = CHR ''('' then e # args_cut (br + 1) es
      else if br > 1 \<and> e = CHR '')'' then e # args_cut (br - 1) es
      else if br = 1 \<and> e = CHR '')'' then []
      else e # args_cut br es)"

text \<open>
  A name with a blank or an opening parenthesis is a command with its argument. The blanks before the
  argument that the code would strip from the name cannot be there, since the first of them already ended
  the name.
\<close>

definition split_command :: "nat \<Rightarrow> string \<Rightarrow> (string \<times> string) option" where
  "split_command br vname =
     (case dropWhile (\<lambda>c. c \<noteq> CHR '' '' \<and> c \<noteq> CHR ''('') vname of
        [] \<Rightarrow> None
      | c # vval \<Rightarrow>
          Some (takeWhile (\<lambda>c. c \<noteq> CHR '' '' \<and> c \<noteq> CHR ''('') vname, args_cut (if c = CHR ''('' then 1 else br) vval))"

text \<open>The offset and the length after colons, and the index in brackets.\<close>

definition split_offsets :: "string \<Rightarrow> string \<times> int \<times> int" where
  "split_offsets vname =
     (case after CHR '':'' vname of
        None \<Rightarrow> (vname, 0, 0)
      | Some ptr \<Rightarrow> (before CHR '':'' vname, atoi ptr, case after CHR '':'' ptr of None \<Rightarrow> 0 | Some q \<Rightarrow> atoi q))"

definition split_idx :: "string \<Rightarrow> string \<times> int" where
  "split_idx vname =
     (case after CHR ''['' vname of
        None \<Rightarrow> (vname, -1)
      | Some ptr \<Rightarrow> if CHR '']'' \<in> set ptr then (before CHR ''['' vname, atoi ptr) else (vname, -1))"

definition slice :: "int \<Rightarrow> int \<Rightarrow> string option \<Rightarrow> fault + string option" where
  "slice offset ooffset sub_val =
     (if offset = 0 \<and> ooffset = 0 then Inr sub_val
      else (case sub_val of
              None \<Rightarrow> Inl Null_pointer
            | Some v \<Rightarrow>
                if offset > int (length v) then Inl Out_of_bounds
                else let v1 = (if offset \<ge> 0 then drop (nat offset) v
                               else if nat \<bar>offset\<bar> \<le> length v then drop (length v - nat \<bar>offset\<bar>) v else v)
                     in Inr (Some (if ooffset > 0 \<and> nat ooffset < length v1 then take (nat ooffset) v1 else v1))))"

definition global_value :: "expand_env \<Rightarrow> (string \<Rightarrow> fault + string) \<Rightarrow> string \<Rightarrow> fault + string option" where
  "global_value E rec name =
     (case (if switch_event_check_permission_list (xe_var_list E) name then xe_globals E name else Some var_denied) of
        None \<Rightarrow> Inr None
      | Some g \<Rightarrow> fbind (rec g) (\<lambda>g'. Inr (Some g')))"

definition variable_value :: "expand_env \<Rightarrow> (string \<Rightarrow> fault + string) \<Rightarrow> bool \<Rightarrow> string \<Rightarrow> fault + string option" where
  "variable_value E rec global vname =
     fbind (rec vname) (\<lambda>vname'.
       let (vn, offset, ooffset) = split_offsets vname'; (name, idx) = split_idx vn
       in fbind (case (if global then None else switch_event_get_header_idx (xe_event E) name idx) of
                   Some v \<Rightarrow> Inr (Some v)
                 | None \<Rightarrow> global_value E rec name) (slice offset ooffset))"

definition command_value :: "expand_env \<Rightarrow> (string \<Rightarrow> fault + string) \<Rightarrow> string \<Rightarrow> string \<Rightarrow> fault + string option" where
  "command_value E rec vname vval =
     fbind (rec vname) (\<lambda>vname'. fbind (rec vval) (\<lambda>vval'.
       Inr (if \<not> xe_api_on E \<or> \<not> switch_event_check_permission_list (xe_api_list E) vname' then Some api_denied
            else xe_api E vname' vval')))"

definition sub_value :: "expand_env \<Rightarrow> (string \<Rightarrow> fault + string) \<Rightarrow> bool \<Rightarrow> string \<Rightarrow> nat \<Rightarrow> fault + string" where
  "sub_value E rec global vname br =
     fbind (case split_command br vname of
              Some (f, arg) \<Rightarrow> command_value E rec f arg
            | None \<Rightarrow> variable_value E rec global vname) (\<lambda>v. Inr (case v of None \<Rightarrow> [] | Some x \<Rightarrow> x))"

text \<open>The buffer: \<open>grow\<close> is the macro \<open>resize\<close>, \<open>put\<close> writes a character without a check.\<close>

definition grow :: "nat \<Rightarrow> string \<Rightarrow> nat \<Rightarrow> nat" where
  "grow l out olen = olen + (length out + l + 128)"

definition put :: "char \<Rightarrow> string \<Rightarrow> nat \<Rightarrow> fault + string" where
  "put c out olen = (if length out < olen then Inr (out @ [c]) else Inl Out_of_bounds)"

definition room_for_one :: "string \<Rightarrow> nat \<Rightarrow> nat" where
  "room_for_one out olen = (if length out + 1 \<ge> olen then grow 1 out olen else olen)"

definition append_value :: "string \<Rightarrow> string \<Rightarrow> nat \<Rightarrow> string \<times> nat" where
  "append_value v out olen = (out @ v, if v \<noteq> [] \<and> length out + length v \<ge> olen then grow (length v) out olen else olen)"

lemma brace_scan_length: "brace_scan br f es = (n, r, b) \<Longrightarrow> length r \<le> length es"
  by (induction br f es arbitrary: n r b rule: brace_scan.induct) (fastforce simp: Let_def split: if_splits prod.splits)+

text \<open>
  One round of the loop: escapes, references, and plain characters. The character behind a reference is
  written as it is, unless it is a dollar sign.
\<close>

function expand_loop :: "expand_env \<Rightarrow> (string \<Rightarrow> fault + string) \<Rightarrow> string \<Rightarrow> string \<Rightarrow> nat \<Rightarrow> fault + string" where
  "expand_loop E rec p out olen =
     (case p of
        [] \<Rightarrow> if length out < olen then Inr out else Inl Out_of_bounds
      | c # cs \<Rightarrow>
          if c = CHR 0x5C \<and> cs \<noteq> [] \<and> hd cs = CHR ''$'' then
            fbind (put CHR ''$'' out olen) (\<lambda>out'. expand_loop E rec (if tl cs \<noteq> [] \<and> hd (tl cs) = CHR ''$'' then tl (tl cs) else tl cs) out' olen)
          else if c = CHR 0x5C \<and> cs \<noteq> [] \<and> hd cs = CHR 0x27 then expand_loop E rec (tl cs) out olen
          else if c = CHR 0x5C \<and> cs \<noteq> [] \<and> hd cs = CHR 0x5C then
            fbind (put CHR 0x5C out olen) (\<lambda>out'. expand_loop E rec (tl cs) out' olen)
          else if c = CHR ''$'' then
            let global = (cs \<noteq> [] \<and> hd cs = CHR ''$''); ds = (if global then tl cs else cs)
            in if ds \<noteq> [] \<and> hd ds = CHR ''{'' then
                 let (vname, rest, br) = brace_scan 1 True (tl ds)
                 in fbind (sub_value E rec global vname br) (\<lambda>v.
                      let (out1, olen1) = append_value v out olen; olen2 = room_for_one out1 olen1
                      in if rest = [] then expand_loop E rec [] out1 olen2
                         else if hd rest = CHR ''$'' then expand_loop E rec rest out1 olen2
                         else fbind (put (hd rest) out1 olen2) (\<lambda>out2. expand_loop E rec (tl rest) out2 olen2))
               else fbind (put CHR ''$'' out olen) (\<lambda>out'. expand_loop E rec ds out' olen)
          else let olen1 = room_for_one out olen
               in fbind (put c out olen1) (\<lambda>out'. expand_loop E rec cs out' olen1))"
  by pat_completeness auto
termination
  by (relation "measure (\<lambda>(E, rec, p, out, olen). length p)")
    (auto dest!: brace_scan_length [OF sym] simp: neq_Nil_conv split: if_splits)

declare expand_loop.simps [simp del]

text \<open>The nesting of expansions stops at a depth of one hundred.\<close>

primrec expand_headers :: "expand_env \<Rightarrow> nat \<Rightarrow> string \<Rightarrow> fault + string" where
  "expand_headers E 0 s = Inr s"
| "expand_headers E (Suc depth) s =
     (if s = [] \<or> \<not> (switch_string_var_check_const s \<or> switch_string_has_escaped_data s) then Inr s
      else expand_loop E (expand_headers E depth) s [] (length s + 1))"

definition switch_event_expand_headers_check :: "expand_env \<Rightarrow> string \<Rightarrow> fault + string" where
  "switch_event_expand_headers_check E s = expand_headers E 101 s"

section \<open>Templates\<close>

text \<open>Literal text without dollar signs and backslashes, and references to variables by plain names.\<close>

datatype piece = Lit string | Var string | Global string

fun piece_text :: "piece \<Rightarrow> string" where
  "piece_text (Lit s) = s"
| "piece_text (Var n) = ''${'' @ n @ ''}''"
| "piece_text (Global n) = ''$${'' @ n @ ''}''"

definition inert :: "string \<Rightarrow> bool" where
  "inert s \<longleftrightarrow> set s \<inter> {CHR ''$'', CHR 0x5C} = {}"

definition plain_var :: "string \<Rightarrow> bool" where
  "plain_var n \<longleftrightarrow> inert n \<and> set n \<inter> set ''{} (:['' = {}"

fun piece_ok :: "piece \<Rightarrow> bool" where
  "piece_ok (Lit s) = inert s"
| "piece_ok (Var n) = plain_var n"
| "piece_ok (Global n) = plain_var n"

definition global_text :: "expand_env \<Rightarrow> string \<Rightarrow> string" where
  "global_text E n =
     (if switch_event_check_permission_list (xe_var_list E) n then (case xe_globals E n of None \<Rightarrow> [] | Some g \<Rightarrow> g) else var_denied)"

fun piece_value :: "expand_env \<Rightarrow> piece \<Rightarrow> string" where
  "piece_value E (Lit s) = s"
| "piece_value E (Var n) = (case switch_event_get_header (xe_event E) n of Some v \<Rightarrow> v | None \<Rightarrow> global_text E n)"
| "piece_value E (Global n) = global_text E n"

lemma inert_no_vars: "CHR ''$'' \<notin> set s \<Longrightarrow> \<not> var_scan_const False s"
  by (induction s) auto

lemma expand_inert: "inert s \<Longrightarrow> expand_headers E depth s = Inr s"
  by (cases depth) (simp_all add: inert_def switch_string_var_check_const_def inert_no_vars switch_string_has_escaped_data_def)

lemma var_denied_inert: "inert var_denied"
  by (simp add: inert_def var_denied_def)

lemma brace_scan_name: "set n \<inter> {CHR ''{'', CHR ''}''} = {} \<Longrightarrow> brace_scan 1 f (n @ CHR ''}'' # r) = (n, r, 0)"
  by (induction n arbitrary: f) (auto simp: Let_def)

lemma global_value_plain:
  assumes "\<forall>n g. xe_globals E n = Some g \<longrightarrow> inert g"
  shows "fbind (global_value E (expand_headers E depth) n) (\<lambda>v. Inr (case v of None \<Rightarrow> [] | Some x \<Rightarrow> x)) = Inr (global_text E n)"
  using assms by (auto simp: global_value_def global_text_def expand_inert var_denied_inert split: option.splits)

lemma sub_value_plain:
  assumes "plain_var n" and "\<forall>n g. xe_globals E n = Some g \<longrightarrow> inert g"
  shows "sub_value E (expand_headers E depth) global n 0 = Inr (piece_value E (if global then Global n else Var n))"
proof -
  have n: "inert n" "CHR '':'' \<notin> set n" "CHR ''['' \<notin> set n" "CHR '' '' \<notin> set n" "CHR ''('' \<notin> set n"
    using assms(1) by (auto simp: plain_var_def)
  have d: "dropWhile (\<lambda>c. c \<noteq> CHR '' '' \<and> c \<noteq> CHR ''('') n = []" using n(4,5) by (auto simp: dropWhile_eq_Nil_conv)
  have "split_command 0 n = None" unfolding split_command_def d by simp
  moreover have "split_offsets n = (n, 0, 0)" "split_idx n = (n, -1)" using n(2,3) by (simp_all add: split_offsets_def split_idx_def)
  moreover have "fbind x (slice 0 0) = x" for x by (cases x) (simp_all add: slice_def)
  ultimately show ?thesis using global_value_plain [OF assms(2), of depth n] n(1)
    by (auto simp: sub_value_def variable_value_def expand_inert switch_event_get_header_def split: option.splits)
qed

lemma room_for_one_fits: "length out < olen \<Longrightarrow> length out + 1 < room_for_one out olen"
  by (auto simp: room_for_one_def grow_def)

lemma append_value_fits: "length out < olen \<Longrightarrow> append_value v out olen = (out1, olen1) \<Longrightarrow> out1 = out @ v \<and> length out1 < olen1"
  by (auto simp: append_value_def grow_def)

lemma expand_plain_char:
  assumes "c \<noteq> CHR ''$''" and "c \<noteq> CHR 0x5C"
  shows "expand_loop E rec (c # cs) out olen =
    (let olen1 = room_for_one out olen in fbind (put c out olen1) (\<lambda>out'. expand_loop E rec cs out' olen1))"
  using assms by (subst expand_loop.simps) simp

lemma expand_lit:
  "inert s \<Longrightarrow> length out < olen \<Longrightarrow>
   \<exists>olen'. length (out @ s) < olen' \<and> expand_loop E rec (s @ r) out olen = expand_loop E rec r (out @ s) olen'"
proof (induction s arbitrary: out olen)
  case (Cons c s)
  let ?o = "room_for_one out olen"
  have r: "length out + 1 < ?o" using Cons.prems(2) by (rule room_for_one_fits)
  obtain o' where "length ((out @ [c]) @ s) < o'" "expand_loop E rec (s @ r) (out @ [c]) ?o = expand_loop E rec r ((out @ [c]) @ s) o'"
    using Cons.IH [of "out @ [c]" ?o] Cons.prems(1) r by (auto simp: inert_def)
  then show ?case using Cons.prems(1) r by (intro exI [of _ o']) (auto simp: inert_def expand_plain_char Let_def put_def)
qed auto

lemma expand_ref:
  assumes "plain_var n" and "\<forall>n g. xe_globals E n = Some g \<longrightarrow> inert g" and "length out < olen"
    and "r = [] \<or> hd r \<noteq> CHR 0x5C" and "pc = (if global then Global n else Var n)"
  shows "\<exists>olen'. length (out @ piece_value E pc) < olen' \<and>
    expand_loop E (expand_headers E depth) (piece_text pc @ r) out olen =
      expand_loop E (expand_headers E depth) r (out @ piece_value E pc) olen'"
proof -
  let ?v = "piece_value E pc" and ?rec = "expand_headers E depth"
  obtain out1 o1 where a: "append_value ?v out olen = (out1, o1)" by (cases "append_value ?v out olen")
  have o1: "out1 = out @ ?v" "length out1 < o1" using append_value_fits [OF assms(3) a] by auto
  let ?o2 = "room_for_one out1 o1"
  have b: "brace_scan 1 True (n @ CHR ''}'' # r) = (n, r, 0)" using assms(1) by (intro brace_scan_name) (auto simp: plain_var_def)
  have step: "expand_loop E ?rec (piece_text pc @ r) out olen =
      (if r = [] then expand_loop E ?rec [] out1 ?o2
       else if hd r = CHR ''$'' then expand_loop E ?rec r out1 ?o2
       else fbind (put (hd r) out1 ?o2) (\<lambda>out2. expand_loop E ?rec (tl r) out2 ?o2))"
    using b a sub_value_plain [OF assms(1,2), of depth global] assms(5)
    by (subst expand_loop.simps, cases global) (simp_all add: Let_def split del: if_split)
  show ?thesis
  proof (cases "r = [] \<or> hd r = CHR ''$''")
    case True
    then show ?thesis using step o1 room_for_one_fits [OF o1(2)] by (intro exI [of _ ?o2]) auto
  next
    case False
    then obtain d ds where d: "r = d # ds" "d \<noteq> CHR ''$''" "d \<noteq> CHR 0x5C" using assms(4) by (cases r) auto
    then show ?thesis using step o1 by (intro exI [of _ o1]) (simp add: expand_plain_char Let_def)
  qed
qed

lemma template_no_escape: "list_all piece_ok ps \<Longrightarrow> concat (map piece_text ps) = [] \<or> hd (concat (map piece_text ps)) \<noteq> CHR 0x5C"
proof (induction ps)
  case (Cons pc ps)
  show ?case
  proof (cases pc)
    case (Lit s)
    then show ?thesis using Cons by (cases s) (auto simp: inert_def)
  qed simp_all
qed simp

lemma expand_template:
  assumes "\<forall>n g. xe_globals E n = Some g \<longrightarrow> inert g"
  shows "list_all piece_ok ps \<Longrightarrow> length out < olen \<Longrightarrow>
    expand_loop E (expand_headers E depth) (concat (map piece_text ps)) out olen = Inr (out @ concat (map (piece_value E) ps))"
proof (induction ps arbitrary: out olen)
  case Nil
  then show ?case by (subst expand_loop.simps) simp
next
  case (Cons pc ps)
  let ?r = "concat (map piece_text ps)"
  have r: "?r = [] \<or> hd ?r \<noteq> CHR 0x5C" using template_no_escape Cons.prems(1) by simp
  have "\<exists>olen'. length (out @ piece_value E pc) < olen' \<and>
      expand_loop E (expand_headers E depth) (piece_text pc @ ?r) out olen =
        expand_loop E (expand_headers E depth) ?r (out @ piece_value E pc) olen'"
  proof (cases pc)
    case (Lit s)
    then show ?thesis using expand_lit [of s out olen] Cons.prems by simp
  next
    case (Var n)
    then show ?thesis using expand_ref [OF _ assms Cons.prems(2) r, of n pc False] Cons.prems(1) by simp
  next
    case (Global n)
    then show ?thesis using expand_ref [OF _ assms Cons.prems(2) r, of n pc True] Cons.prems(1) by simp
  qed
  then show ?case using Cons.IH Cons.prems(1) by auto
qed

lemma var_scan_here: "var_scan_const b (s @ ''${'' @ r)"
  by (induction s arbitrary: b) auto

lemma template_checked:
  assumes "pc \<in> set ps" and "\<nexists>s. pc = Lit s"
  shows "switch_string_var_check_const (concat (map piece_text ps))"
proof -
  obtain as bs where ps: "ps = as @ pc # bs" using split_list [OF assms(1)] by blast
  obtain x r where "piece_text pc = x @ ''${'' @ r"
  proof (cases pc)
    case (Var n)
    then show ?thesis using that [of "[]" "n @ ''}''"] by simp
  next
    case (Global n)
    then show ?thesis using that [of "''$''" "n @ ''}''"] by simp
  qed (use assms(2) in blast)
  then have "concat (map piece_text ps) = (concat (map piece_text as) @ x) @ ''${'' @ (r @ concat (map piece_text bs))" by (simp add: ps)
  then show ?thesis using var_scan_here unfolding switch_string_var_check_const_def by metis
qed

section \<open>The properties\<close>

text \<open>C12: a template of literal text and references to variables by plain names is expanded without leaving the buffer: each reference becomes the header of the event, or for want of one the global variable, which is shown only when the list of variables permits it, and an unknown variable becomes nothing.\<close>

theorem expand_template_values:
  assumes "list_all piece_ok ps" and "\<forall>n g. xe_globals E n = Some g \<longrightarrow> inert g"
  shows "switch_event_expand_headers_check E (concat (map piece_text ps)) = Inr (concat (map (piece_value E) ps))"
proof (cases "switch_string_var_check_const (concat (map piece_text ps)) \<or> switch_string_has_escaped_data (concat (map piece_text ps))")
  case True
  moreover have "\<not> (switch_string_var_check_const [] \<or> switch_string_has_escaped_data [])"
    by (simp add: switch_string_var_check_const_def switch_string_has_escaped_data_def)
  ultimately have "concat (map piece_text ps) \<noteq> []" by metis
  then show ?thesis using expand_template [OF assms(2,1), of "[]"] True
    by (auto simp: switch_event_expand_headers_check_def numeral_eq_Suc)
next
  case False
  have lit: "piece_value E pc = piece_text pc" if "pc \<in> set ps" for pc
  proof (cases pc)
    case (Lit s)
    then show ?thesis by simp
  next
    case (Var n)
    then show ?thesis using template_checked [of pc ps] False that assms(1) by simp
  next
    case (Global n)
    then show ?thesis using template_checked [of pc ps] False that assms(1) by simp
  qed
  then have "concat (map (piece_value E) ps) = concat (map piece_text ps)" by (metis map_cong)
  then show ?thesis using False by (simp add: switch_event_expand_headers_check_def numeral_eq_Suc)
qed

definition sample_env :: expand_env where
  "sample_env =
     \<lparr>xe_event = \<lparr>ev_id = 0, ev_subclass = None, ev_headers = [], ev_body = None, ev_uniq = False\<rparr>,
      xe_globals = (\<lambda>n. if n = ''x'' then Some ''123456789'' else None), xe_var_list = None, xe_api_list = None,
      xe_api_on = True, xe_api = (\<lambda>_ _. None)\<rparr>"

lemma sample_header: "switch_event_get_header_idx (xe_event sample_env) n i = None \<or> n = ''_body''"
  by (simp add: switch_event_get_header_idx_def switch_event_get_header_ptr_def sample_env_def)

lemma sample_get: "n \<noteq> ''_body'' \<Longrightarrow> switch_event_get_header_idx (xe_event sample_env) n i = None"
  using sample_header by blast

theorem expand_template_values_witness:
  "switch_event_expand_headers_check sample_env ''a=${x}${y},b=$${x}'' = Inr ''a=123456789,b=123456789''"
proof -
  have "list_all piece_ok [Lit ''a='', Var ''x'', Var ''y'', Lit '',b='', Global ''x'']" by (simp add: inert_def plain_var_def)
  moreover have "\<forall>n g. xe_globals sample_env n = Some g \<longrightarrow> inert g" by (simp add: sample_env_def inert_def)
  ultimately have "switch_event_expand_headers_check sample_env (concat (map piece_text [Lit ''a='', Var ''x'', Var ''y'', Lit '',b='', Global ''x''])) =
      Inr (concat (map (piece_value sample_env) [Lit ''a='', Var ''x'', Var ''y'', Lit '',b='', Global ''x'']))"
    by (rule expand_template_values)
  then show ?thesis using sample_get [of "''x''" "-1"] sample_get [of "''y''" "-1"]
    by (simp add: switch_event_get_header_def global_text_def sample_env_def switch_event_check_permission_list_def)
qed

text \<open>A pair of backslashes is written without asking for room, so a reference whose value fills the buffer, followed by six backslashes, writes behind the end of it.\<close>

lemma expand_overruns:
  "switch_event_expand_headers_check sample_env (''${x}'' @ replicate 6 CHR 0x5C) = Inl Out_of_bounds"
  by code_simp

text \<open>An offset into a variable that does not exist copies a null pointer, and one behind the end of the value reads there.\<close>

lemma expand_offset_faults:
  "switch_event_expand_headers_check sample_env ''${y:1}'' = Inl Null_pointer"
  "switch_event_expand_headers_check sample_env ''${x:10}'' = Inl Out_of_bounds"
  by code_simp+

end
