(* ===== verification/Spec2Isabelle.thy ===== *)
theory Spec2Isabelle
  imports FS_Prelude Buffer Ascii_Case Hash_Table C_String Switch_Queue Separate Dtmf Channel_Names Channel_State Port_Allocator Event Scheduler Text_Codec Network_List Jitter_Order State_Handlers Session_Calls Stun_Packets Pcm Ctype Sln Dial_Text Caller Event_Bus Event_Text Expand
begin

text \<open>
  A verification development for FreeSWITCH, a telephony switch. The program is a core library
  (libfreeswitch: the C files src/switch\_*.c, src/g711.c and their headers under src/include/) and modules
  (src/mod/) that the core loads: endpoints such as SIP, dialplans, applications, codecs. This development
  models the logic of the core library. Every theory opens with what it holds; source paths are relative to
  the src/ directory of FreeSWITCH, except for the APR queue, which is under libs/apr-util/.

  \<^bold>\<open>How the parts work together.\<close> A call leg is a session with a channel. The session's thread runs the
  state machine of src/switch\_core\_state\_machine.c: it calls the handlers of the endpoint, of the channel
  and of the core for each state, asks the dialplan for an extension in the routing state, runs its
  applications in the execute state, and tears the leg down after a hang-up. The channel
  (src/switch\_channel.c) keeps state, flags, hold records, the queues of DTMF digits, which are APR queues
  through src/switch\_apr.c, and its handler table. Variables and events are header lists
  (src/switch\_event.c); events are fired into a queue and delivered to the callbacks bound to them by a
  dispatch thread. Registries are hash tables (src/switch\_hashtable.c), media bytes pass through buffers
  (src/switch\_buffer.c), codecs (src/switch\_pcm.c), and for RTP through the jitter buffer
  (src/switch\_stfu.c) on ports of the port allocator; STUN (src/switch\_stun.c) finds the public address and
  carries the connectivity checks of ICE. Delayed work is the scheduler's. Who calls whom is the caller
  profile (src/switch\_caller.c), which also holds the extension the dialplan found; the condition of a
  dialplan entry on date and time is checked by src/switch\_xml.c. The helpers of src/switch\_utils.c and
  src/include/switch\_utils.h clean, quote, search and cut the strings that come from the network, and the
  sample operations of src/switch\_resample.c mix and scale raw audio.

  \<^bold>\<open>Theories.\<close>

  \<^descr> FS\_Prelude: C types, the wrap-around of \<open>size_t\<close>, memory blocks with checked copies, the faults a C
    statement can end in, runs of operations, and two contracts as locales: \<open>simulation\<close>, which Event\_Bus
    interprets, and its special case \<open>data_refinement\<close>, which Buffer, Hash\_Table and Switch\_Queue interpret.
  \<^descr> Buffer: src/switch\_buffer.c. Every sequence of operations answers as a bounded byte queue.
  \<^descr> Ascii\_Case: the word-at-a-time case mapping of src/include/switch\_utils.h equals the bytewise one. It
    also has the little-endian loads and stores of the other theories.
  \<^descr> C\_String: what is used of the C library on strings, with \<open>atoi\<close> and decimal printing.
  \<^descr> Hash\_Table: src/switch\_hashtable.c and src/switch\_core\_hash.c. A table is a dictionary under every
    sequence of operations, resizing included, and its iteration is complete; the locale \<open>hash_keys\<close> states
    what hashing and comparing keys must satisfy, for exact and for case-insensitive keys.
  \<^descr> Switch\_Queue: apr\_queue.c of APR-util and the wrappers of src/switch\_apr.c, as a bounded FIFO.
  \<^descr> Separate: splitting, escaping and clean-up of strings in src/switch\_utils.c, with the round trip.
  \<^descr> Dtmf: the digit queues of a channel; round trip of digit strings, privacy of sensitive digits.
  \<^descr> Channel\_Names and Channel\_State: the name tables, the state machine with its transition rules, flags,
    hold accounting and hang-up of src/switch\_channel.c. The outcome of every state request is given for all
    pairs of states, and a hung-up channel never comes back.
  \<^descr> Port\_Allocator: src/switch\_core\_port\_allocator.c. On ranges with even ends granted ports are free and in
    range, and a free port is found when there is one.
  \<^descr> Event: header lists of src/switch\_event.c as a case-insensitive map with arrays, and duplication.
  \<^descr> Scheduler: src/switch\_scheduler.c as functions, and as a step relation in which additions, deletions
    and the threads of tasks interleave with the scheduler's own. No executing task is freed.
  \<^descr> Text\_Codec: Base64, URL and entity encoding of src/switch\_utils.c; round trips and bounds.
  \<^descr> Network\_List: access lists of src/switch\_utils.c. In a list built from CIDR notation the network with
    the longest prefix that agrees with the address decides; prefixes of zero bits are ignored.
  \<^descr> Jitter\_Buffer and Jitter\_Order: src/switch\_stfu.c; safety of every sequence of operations, and
    reordering of packets.
  \<^descr> State\_Handlers: the handler tables of channels (src/switch\_channel.c) and of the core
    (src/switch\_core.c), as lists up to their capacity.
  \<^descr> Session\_Run, Session\_Life and Session\_Calls: src/switch\_core\_state\_machine.c. Session\_Run is the model,
    Session\_Life shows the tear-down, Session\_Calls routing, the order of applications and the end of
    abandoned sessions.
  \<^descr> Crc32: the CRC of src/switch\_stun.c with its tables, equal to the bit-by-bit CRC-32.
  \<^descr> Stun, Stun\_Parse, Stun\_Build and Stun\_Packets: src/switch\_stun.c and the ICE packets of
    src/switch\_rtp.c. Stun is the model; Stun\_Parse shows what the parser does with well-formed packets,
    Stun\_Build what each operation that adds an attribute contributes, through the locale \<open>attribute_adder\<close>
    which all of them interpret, and Stun\_Packets the packets of ICE, the lookup of an address and the
    packets on which the parser fails or never returns.
  \<^descr> G711 and Pcm: src/include/g711.h, src/g711.c and src/switch\_pcm.c. Companding errors are bounded, frames
    survive decoding and encoding, and the registered codecs are consistent.
  \<^descr> Time\_Conditions: matching of days, numbers, times of day and dates in src/switch\_utils.c, and the date
    and time condition of src/switch\_xml.c built from them. A condition written with number sets, days and
    windows answers whether the broken-down time meets all it says.
  \<^descr> Ctype: the character tables of src/switch\_utils.c; each class test and case mapping is the set of
    characters it stands for.
  \<^descr> Sln: the sample operations of src/switch\_resample.c. Mixing and folding of channels are saturated
    sums, a mix can be taken apart where nothing was saturated, and volumes move samples towards zero.
  \<^descr> String\_Safety: cleaning and quoting of outside strings. A cleaned string expands no variable, a quoted
    argument is one shell word, read back exactly.
  \<^descr> Text\_Tools: parameters, brackets, search, paths, replacement and stripping in src/switch\_utils.c.
  \<^descr> Dial\_Text: private addresses, dial patterns, user and domain, numbers and digits.
  \<^descr> Caller: src/switch\_caller.c. The headers a profile writes to an event agree with its fields by name,
    new profiles expand no variable, extensions keep the order of their applications and clones continue at the current one.
  \<^descr> Event\_Bus: names of event types, subclasses, bindings, firing, the dispatch queue, the dispatch thread
    and delivery of src/switch\_event.c. The bus simulates a list of subscriptions; with one dispatch thread,
    under every interleaving of firing, bindings and the steps of the thread, the engine simulates
    subscriptions beside a FIFO of events.
  \<^descr> Event\_Text: serialisation, parameter strings and replies of src/switch\_event.c; a serialised event is
    read back.
  \<^descr> Expand: expansion of variables and commands in strings with permission lists, of src/switch\_event.c.
    Templates expand to their values inside the buffer; a lemma has a string that overruns it.

  \<^bold>\<open>Conventions.\<close> Operations are functions on records of the state. A statement that C leaves undefined, a
  failed assertion or a division by zero is a \<open>fault\<close>, so that a theorem about a result in \<open>Inr\<close> also says
  that none of these happen. Integers keep their width where it matters. What the code asks of other code
  (clocks, sockets, allocation, inet\_pton, sscanf, HMAC, modules, other threads) are parameters.

  \<^bold>\<open>Bounds and fuel.\<close> \<open>request_loop\<close> of the port allocator counts the five rounds of the code;
  emptying a queue is followed for one round more than it has elements; \<open>push_dropping\<close> stops after the
  101 refusals of the code; scheduler identities are distinct for fewer than \<open>2 ^ 32\<close> additions; a jitter
  buffer needs three nested calls at most, so a stack of depth three is enough; the session loop is followed
  for a number of rounds and of environment answers, and the theorems give a number that is enough; the
  STUN parser and the walk over attributes need one round for each attribute, and replacement in a string
  one round more than it has characters; expansion of variables nests to the depth of one hundred of the code.
  A loop that has not ended is \<open>Still_running\<close>; \<open>stun_parse_endless\<close> and \<open>string_replace_outcome\<close> show two that never do. Products of samples with
  volume factors are rounded to 53 bits, ties to even, as in double precision.

  \<^bold>\<open>Not modelled.\<close> Modules (src/mod/) and the libraries under libs/; media negotiation
  (src/switch\_core\_media.c) and most of src/switch\_rtp.c, which are driven by sockets and SDP; the interactive
  voice response functions (src/switch\_ivr\_*.c), which call media and session I/O; databases
  (src/switch\_core\_sqldb.c, src/switch\_odbc.c, src/switch\_pgsql.c); the XML parser and configuration
  (src/switch\_xml.c, except for the date and time condition); loading of modules; memory pools; logging and
  consoles; time zones; event channels and live arrays, JSON, XML and binary forms of events; variables and
  devices of a channel. Of src/switch\_resample.c the resampler, which calls speex, and the conversions to single precision are left
  out, of src/switch\_utils.c what calls the system. Of the modelled files, locking is left out where an
  operation is one critical section, and the functions that only allocate, free or print. The early
  hang-up mode, in which a hang-up runs its handlers at once, is off, as it is unless configured.
\<close>

end
